(* ===== verification/Kernel_Prelude.thy ===== *)
theory Kernel_Prelude
  imports "HOL-Library.Word" "HOL-Library.Monad_Syntax"
begin

text \<open>
  Shared vocabulary of the development: the machine integer types of the C sources, bounded
  reads and writes of byte buffers (an access outside the object is \<open>None\<close>, the model of C's
  undefined behaviour), NUL-terminated strings, and the generic lemmas on lists, options and
  words that the component theories use.
\<close>

unbundle bit_operations_syntax

type_synonym u8 = "8 word"
type_synonym u16 = "16 word"
type_synonym u32 = "32 word"
type_synonym u64 = "64 word"
type_synonym bytes = "8 word list"

named_theorems buf_simps \<open>reading and writing byte buffers\<close>

section \<open>Bounded buffer accesses\<close>

definition rd :: "'a list \<Rightarrow> nat \<Rightarrow> 'a option" where
  "rd b i = (if i < length b then Some (b ! i) else None)"

definition wr :: "'a list \<Rightarrow> nat \<Rightarrow> 'a \<Rightarrow> 'a list option" where
  "wr b i v = (if i < length b then Some (b[i := v]) else None)"

definition slice :: "'a list \<Rightarrow> nat \<Rightarrow> nat \<Rightarrow> 'a list option" where
  "slice b i n = (if i + n \<le> length b then Some (take n (drop i b)) else None)"

definition splice :: "'a list \<Rightarrow> nat \<Rightarrow> 'a list \<Rightarrow> 'a list option" where
  "splice b i v = (if i + length v \<le> length b
     then Some (take i b @ v @ drop (i + length v) b) else None)"

lemma rd_Some [buf_simps]: "i < length b \<Longrightarrow> rd b i = Some (b ! i)"
  by (simp add: rd_def)

lemma rd_eq_Some [simp]: "rd b i = Some v \<longleftrightarrow> i < length b \<and> v = b ! i"
  by (auto simp: rd_def)

lemma wr_Some [buf_simps]: "i < length b \<Longrightarrow> wr b i v = Some (b[i := v])"
  by (simp add: wr_def)

lemma wr_eq_Some [simp]: "wr b i v = Some b' \<longleftrightarrow> i < length b \<and> b' = b[i := v]"
  by (auto simp: wr_def)

lemma slice_Some [buf_simps]: "i + n \<le> length b \<Longrightarrow> slice b i n = Some (take n (drop i b))"
  by (simp add: slice_def)

lemma slice_length: "slice b i n = Some v \<Longrightarrow> length v = n"
  by (auto simp: slice_def split: if_splits)

lemma splice_Some [buf_simps]:
  "i + length v \<le> length b \<Longrightarrow> splice b i v = Some (take i b @ v @ drop (i + length v) b)"
  by (simp add: splice_def)

lemma splice_length: "splice b i v = Some b' \<Longrightarrow> length b' = length b"
  by (auto simp: splice_def split: if_splits)

lemma slice_splice: "splice b i v = Some b' \<Longrightarrow> slice b' i (length v) = Some v"
  by (auto simp: splice_def slice_def split: if_splits)

section \<open>Definedness: computations that never leave their objects\<close>

definition defined :: "'a option \<Rightarrow> bool" where
  "defined m \<longleftrightarrow> m \<noteq> None"

lemma defined_simps [simp]: "defined (Some x)" "\<not> defined None"
  by (simp_all add: defined_def)

lemma definedE: "defined m \<Longrightarrow> (\<And>x. m = Some x \<Longrightarrow> P) \<Longrightarrow> P"
  by (auto simp: defined_def)

lemma defined_bindI [intro!]:
  "defined m \<Longrightarrow> (\<And>x. m = Some x \<Longrightarrow> defined (f x)) \<Longrightarrow> defined (Option.bind m f)"
  by (auto simp: defined_def)

lemma defined_rd [simp]: "defined (rd b i) \<longleftrightarrow> i < length b"
  by (simp add: defined_def rd_def)

lemma defined_wr [simp]: "defined (wr b i v) \<longleftrightarrow> i < length b"
  by (simp add: defined_def wr_def)

lemma defined_slice [simp]: "defined (slice b i n) \<longleftrightarrow> i + n \<le> length b"
  by (simp add: defined_def slice_def)

lemma defined_splice [simp]: "defined (splice b i v) \<longleftrightarrow> i + length v \<le> length b"
  by (simp add: defined_def splice_def)

section \<open>Words as numbers\<close>

lemma unat_and_mask: "unat (w AND mask n) = unat w mod 2 ^ n"
  by (metis take_bit_eq_mask take_bit_eq_mod unsigned_take_bit_eq)

lemma unat_drop_bit_div: "unat (drop_bit n w) = unat w div 2 ^ n"
  by (metis drop_bit_eq_div unat_drop_bit_eq)

lemma mask_16_eq: "(65535 :: 'a::len word) = mask 16"
  by (simp add: mask_eq_exp_minus_1)

lemma unat_lt_256: "unat (w :: u8) < 256"
  using unsigned_less [of w, where 'a = nat] by simp

lemma unat_lt_65536: "unat (w :: u16) < 65536"
  using unsigned_less [of w, where 'a = nat] by simp

lemma unat_lt_u32: "unat (w :: u32) < 4294967296"
  using unsigned_less [of w, where 'a = nat] by simp

lemma unat_lt_u64: "unat (w :: u64) < 18446744073709551616"
  using unsigned_less [of w, where 'a = nat] by simp

lemma ucast_8_32_unat [simp]: "unat (ucast (w :: u8) :: u32) = unat w"
  using unat_lt_256 [of w] by (simp add: unsigned_ucast_eq take_bit_eq_mod)

lemma ucast_32_64_unat [simp]: "unat (ucast (w :: u32) :: u64) = unat w"
  using unat_lt_u32 [of w] by (simp add: unsigned_ucast_eq take_bit_eq_mod)

lemma ucast_16_32_unat [simp]: "unat (ucast (w :: u16) :: u32) = unat w"
  using unat_lt_65536 [of w] by (simp add: unsigned_ucast_eq take_bit_eq_mod)

lemma or_ucast_add: "unat (push_bit 8 (ucast a) OR ucast b :: u16) = unat a * 256 + unat b" for a b :: u8
proof -
  have "push_bit 8 (ucast a) OR ucast b = push_bit 8 (ucast a) + (ucast b :: u16)"
    by (rule disjunctive_add [symmetric]) (auto simp: bit_simps dest: bit_imp_le_length)
  moreover have "unat (push_bit 8 (ucast a) :: u16) = unat a * 256"
    using unat_lt_256 [of a] by (simp add: push_bit_eq_mult unat_word_ariths unsigned_ucast_eq take_bit_eq_mod)
  moreover have "unat (ucast b :: u16) = unat b"
    using unat_lt_256 [of b] by (simp add: unsigned_ucast_eq take_bit_eq_mod)
  ultimately show ?thesis
    using unat_lt_256 [of a] unat_lt_256 [of b] by (simp add: unat_word_ariths)
qed

lemma unat_not_u16: "unat (NOT w) = 65535 - unat w" for w :: u16
proof -
  have "NOT w = - 1 - w" by (simp add: not_eq_complement)
  moreover have "unat (- 1 - w) = unat (- 1 :: u16) - unat w"
    by (rule unat_sub) simp
  moreover have "unat (- 1 :: u16) = 65535"
    by (simp add: unsigned_minus_1_eq_mask mask_eq_exp_minus_1)
  ultimately show ?thesis by simp
qed

lemma sint_u32: "sint w = (if uint w < 2147483648 then uint w else uint w - 4294967296)" for w :: u32
proof -
  have u: "0 \<le> uint w" "uint w < 4294967296" using uint_lt2p [of w] by simp_all
  have "bit (uint w) 31 \<longleftrightarrow> odd (uint w div 2147483648)" by (simp add: bit_iff_odd)
  moreover have "uint w div 2147483648 = (if uint w < 2147483648 then 0 else 1)" using u by auto
  ultimately show ?thesis
    using u by (simp add: sint_uint signed_take_bit_eq_take_bit_minus take_bit_int_eq_self)
qed

lemma drop_Cons_nth2: "i + 1 < length p \<Longrightarrow> drop i p = p ! i # p ! (i + 1) # drop (i + 2) p"
  by (metis Cons_nth_drop_Suc Suc_eq_plus1 Suc_lessD add_2_eq_Suc')

section \<open>Fixed-width fields of a byte buffer\<close>

text \<open>
  The interface of an accessor pair that reads and writes a field of \<open>width\<close> bytes: a write is
  defined exactly inside the buffer, changes the field and nothing else, and is read back. A
  client may interleave writes of disjoint fields of one or of two such pairs.
\<close>

locale byte_field =
  fixes get :: "bytes \<Rightarrow> nat \<Rightarrow> 'w option"
    and put :: "bytes \<Rightarrow> nat \<Rightarrow> 'w \<Rightarrow> bytes option"
    and width :: nat
  assumes put_defined: "defined (put p i n) \<longleftrightarrow> i + width \<le> length p"
    and put_length: "put p i n = Some q \<Longrightarrow> length q = length p"
    and get_put: "put p i n = Some q \<Longrightarrow> get q i = Some n"
    and put_frame: "put p i n = Some q \<Longrightarrow> j < i \<or> i + width \<le> j \<Longrightarrow> q ! j = p ! j"
    and get_local: "length p = length q \<Longrightarrow> (\<And>j. i \<le> j \<Longrightarrow> j < i + width \<Longrightarrow> p ! j = q ! j)
      \<Longrightarrow> get p i = get q i"
begin

lemma put_Some: "i + width \<le> length p \<Longrightarrow> \<exists>q. put p i n = Some q"
  using put_defined [of p i n] by (auto elim: definedE)

lemma put_fits: "put p i n = Some q \<Longrightarrow> i + width \<le> length p"
  using put_defined [of p i n] by simp

lemma get_other:
  assumes "put p i n = Some q" "j + width \<le> i \<or> i + width \<le> j"
  shows "get q j = get p j"
  using assms by (intro get_local) (auto simp: put_length put_frame)

lemma get_after_puts:
  assumes "put p i m = Some q" "put q j n = Some r" "j + width \<le> i \<or> i + width \<le> j"
  shows "get r i = Some m" "get r j = Some n"
  using assms get_other [OF assms(2), of i] get_put by auto

end

locale mixed_fields = f: byte_field get put width + g: byte_field get' put' width'
  for get :: "bytes \<Rightarrow> nat \<Rightarrow> 'w option" and put width
  and get' :: "bytes \<Rightarrow> nat \<Rightarrow> 'v option" and put' width'
begin

lemma get'_other:
  assumes "put p i n = Some q" "j + width' \<le> i \<or> i + width \<le> j"
  shows "get' q j = get' p j"
  using assms by (intro g.get_local) (auto simp: f.put_length f.put_frame)

end

end
