(* ===== verification/Decimal.thy ===== *)
theory Decimal
  imports Kernel_Prelude
begin

text \<open>
  Decimal notation as byte strings, shared by the number parsers and printers of the kernel
  (\<^verbatim>\<open>net_number\<close>, \<^verbatim>\<open>net_print_number\<close>, \<^verbatim>\<open>atoi\<close>, \<^verbatim>\<open>itoa\<close>): \<open>dec_from\<close> is the value of a digit string
  after a number already read, \<open>dec_digits\<close> the canonical digit string of a number.
\<close>

abbreviation (input) is_digit :: "u8 \<Rightarrow> bool" where "is_digit c \<equiv> 48 \<le> c \<and> c \<le> 57"

definition dec_from :: "nat \<Rightarrow> bytes \<Rightarrow> nat" where
  "dec_from n ds = foldl (\<lambda>n c. n * 10 + unat (c - 48)) n ds"

lemma dec_from_ge: "n \<le> dec_from n ds"
  unfolding dec_from_def
proof (induction ds arbitrary: n)
  case (Cons c ds)
  have "n \<le> n * 10 + unat (c - 48)" by simp
  also note Cons.IH [of "n * 10 + unat (c - 48)"]
  finally show ?case by simp
qed simp

lemma unat_digit: "is_digit c \<Longrightarrow> unat (c - 48) \<le> 9"
  by (auto simp: word_le_nat_alt unat_sub)

fun dec_digits :: "nat \<Rightarrow> bytes" where
  "dec_digits n = (if n < 10 then [48 + of_nat n] else dec_digits (n div 10) @ [48 + of_nat (n mod 10)])"
declare dec_digits.simps [simp del]

lemma dec_from_snoc: "dec_from a (ds @ [c]) = dec_from a ds * 10 + unat (c - 48)"
  by (simp add: dec_from_def)

lemma dec_from_digits: "dec_from 0 (dec_digits n) = n"
proof (induction n rule: dec_digits.induct)
  case (1 n)
  have *: "unat (of_nat (k mod 10) :: u8) = k mod 10" for k
    by (simp add: unsigned_of_nat take_bit_eq_mod)
  show ?case
    using 1 *[of n] by (subst dec_digits.simps) (auto simp: dec_from_snoc dec_from_def)
qed

lemma dec_digits_digit: "\<forall>c \<in> set (dec_digits n). is_digit c"
proof (induction n rule: dec_digits.induct)
  case (1 n)
  have *: "is_digit (48 + of_nat (k mod 10))" for k
    by (simp add: word_le_nat_alt unat_word_ariths unsigned_of_nat take_bit_eq_mod)
  show ?case using 1 *[of n] by (subst dec_digits.simps) auto
qed

lemma dec_digits_nonempty: "dec_digits n \<noteq> []"
  by (subst dec_digits.simps) simp

lemma dec_digits_length: "n < 10 ^ k \<Longrightarrow> 0 < k \<Longrightarrow> length (dec_digits n) \<le> k"
proof (induction k arbitrary: n)
  case (Suc k)
  show ?case
  proof (cases "n < 10")
    case False
    with Suc.prems have "n div 10 < 10 ^ k" and "0 < k" by (auto simp: less_mult_imp_div_less intro: ccontr)
    with Suc.IH [of "n div 10"] False show ?thesis by (subst dec_digits.simps) auto
  qed (subst dec_digits.simps, simp)
qed simp

end
