(* ===== verification/Clib.thy ===== *)
theory Clib
  imports Decimal
begin

text \<open>
  The string and memory routines of \<^verbatim>\<open>src/jordyOS/kernel.c\<close>. A \<^verbatim>\<open>char *\<close> is the list of bytes from the
  pointer to the end of its object, a destination is an object and an offset; an access past the
  end is \<open>None\<close>. Results of type \<^verbatim>\<open>int\<close> are integers, a signed overflow is \<open>None\<close>.
\<close>

section \<open>Strings and blocks\<close>

function strlen_loop :: "bytes \<Rightarrow> nat \<Rightarrow> nat option" where
  "strlen_loop s i = do { c \<leftarrow> rd s i; if c \<noteq> 0 then strlen_loop s (i + 1) else Some i }"
  by pat_completeness auto
termination
  by (relation "measure (\<lambda>(s, i). length s - i)") auto

declare strlen_loop.simps [simp del]

definition strlen :: "bytes \<Rightarrow> nat option" where
  "strlen s = strlen_loop s 0"

fun strcmp :: "bytes \<Rightarrow> bytes \<Rightarrow> int option" where
  "strcmp (a # s) (b # t) = (if a \<noteq> 0 \<and> a = b then strcmp s t else Some (int (unat a) - int (unat b)))"
| "strcmp _ _ = None"

fun strcpy :: "bytes \<Rightarrow> nat \<Rightarrow> bytes \<Rightarrow> bytes option" where
  "strcpy dst i [] = None"
| "strcpy dst i (c # src) = do { dst \<leftarrow> wr dst i c; if c \<noteq> 0 then strcpy dst (i + 1) src else Some dst }"

text \<open>The second loop of \<^verbatim>\<open>strncpy\<close> and \<^verbatim>\<open>memset\<close> store one byte value over a range.\<close>

primrec memset :: "bytes \<Rightarrow> nat \<Rightarrow> u8 \<Rightarrow> nat \<Rightarrow> bytes option" where
  "memset s i c 0 = Some s"
| "memset s i c (Suc n) = do { s \<leftarrow> wr s i c; memset s (i + 1) c n }"

function strncpy_loop :: "bytes \<Rightarrow> bytes \<Rightarrow> nat \<Rightarrow> nat \<Rightarrow> bytes option" where
  "strncpy_loop dst src n i =
     (if i < n then do {
        c \<leftarrow> rd src i;
        if c \<noteq> 0 then do { dst \<leftarrow> wr dst i c; strncpy_loop dst src n (i + 1) } else memset dst i 0 (n - i) }
      else Some dst)"
  by pat_completeness auto
termination
  by (relation "measure (\<lambda>(dst, src, n, i). n - i)") auto

declare strncpy_loop.simps [simp del]

definition strncpy :: "bytes \<Rightarrow> bytes \<Rightarrow> nat \<Rightarrow> bytes option" where
  "strncpy dst src n = strncpy_loop dst src n 0"

text \<open>Source and destination of \<^verbatim>\<open>memcpy\<close> are distinct objects.\<close>

primrec memcpy :: "bytes \<Rightarrow> nat \<Rightarrow> bytes \<Rightarrow> nat \<Rightarrow> nat \<Rightarrow> bytes option" where
  "memcpy d i s j 0 = Some d"
| "memcpy d i s j (Suc n) = do { c \<leftarrow> rd s j; d \<leftarrow> wr d i c; memcpy d (i + 1) s (j + 1) n }"

section \<open>Numbers\<close>

fun atoi_loop :: "bytes \<Rightarrow> int \<Rightarrow> int option" where
  "atoi_loop [] v = None"
| "atoi_loop (c # s) v =
     (if is_digit c then
        let v = v * 10 + int (unat (c - 48)) in if v > 2147483647 then None else atoi_loop s v
      else Some v)"

definition atoi :: "bytes \<Rightarrow> int option" where
  "atoi s = (case s of [] \<Rightarrow> None
     | c # t \<Rightarrow> if c = 45 then map_option uminus (atoi_loop t 0) else atoi_loop s 0)"

text \<open>\<^verbatim>\<open>t[12]\<close> receives the digits backwards; the \<^verbatim>\<open>do\<close> loop stores at least one.\<close>

function itoa_digits :: "u32 \<Rightarrow> bytes \<Rightarrow> nat \<Rightarrow> (bytes \<times> nat) option" where
  "itoa_digits magnitude t i = do {
     t \<leftarrow> wr t i (48 + ucast (magnitude mod 10));
     if magnitude div 10 > 0 then itoa_digits (magnitude div 10) t (i + 1) else Some (t, i + 1) }"
  by pat_completeness auto
termination
proof (relation "measure (\<lambda>(m, t, i). unat m)")
  fix m :: u32
  assume "m div 10 > 0"
  then have "unat m div 10 < unat m" by (simp add: word_less_nat_alt unat_div)
  then show "((m div 10, t', i + 1), m, t, i) \<in> measure (\<lambda>(m, t, i). unat m)" for t t' i
    by (simp add: unat_div)
qed simp

declare itoa_digits.simps [simp del]

fun itoa_copy :: "bytes \<Rightarrow> nat \<Rightarrow> bytes \<Rightarrow> nat \<Rightarrow> (bytes \<times> nat) option" where
  "itoa_copy t 0 buf j = Some (buf, j)"
| "itoa_copy t (Suc i) buf j = do { c \<leftarrow> rd t i; buf \<leftarrow> wr buf j c; itoa_copy t i buf (j + 1) }"

definition itoa :: "u32 \<Rightarrow> bytes \<Rightarrow> bytes option" where
  "itoa n buf =
     (let neg = sint n < 0; magnitude = (if neg then 0 - n else n) in do {
        (t, i) \<leftarrow> itoa_digits magnitude (replicate 12 0) 0;
        (t, i) \<leftarrow> (if i = 0 then do { t \<leftarrow> wr t i 48; Some (t, i + 1) } else Some (t, i));
        (t, i) \<leftarrow> (if neg then do { t \<leftarrow> wr t i 45; Some (t, i + 1) } else Some (t, i));
        (buf, j) \<leftarrow> itoa_copy t i buf 0;
        wr buf j 0 })"

declare itoa_copy.simps [simp del]

section \<open>C strings as lists\<close>

definition is_cstr :: "bytes \<Rightarrow> bool" where
  "is_cstr s \<longleftrightarrow> 0 \<in> set s"

definition cstr :: "bytes \<Rightarrow> bytes" where
  "cstr s = takeWhile (\<lambda>c. c \<noteq> 0) s"

lemma cstr_simps [simp]: "cstr [] = []" "cstr (c # s) = (if c = 0 then [] else c # cstr s)"
  by (simp_all add: cstr_def)

lemma is_cstr_simps [simp]: "\<not> is_cstr []" "is_cstr (c # s) \<longleftrightarrow> c = 0 \<or> is_cstr s"
  by (auto simp: is_cstr_def)

lemma cstr_split: "is_cstr s \<Longrightarrow> \<exists>r. s = cstr s @ 0 # r"
  by (induction s) auto

lemma cstr_no_nul: "0 \<notin> set (cstr s)"
  by (induction s) auto

lemma cstr_length: "is_cstr s \<Longrightarrow> length (cstr s) < length s"
  by (induction s) auto

lemma cstr_nth: "i < length (cstr s) \<Longrightarrow> s ! i = cstr s ! i"
  by (metis cstr_def takeWhile_nth)

lemma cstr_append [simp]: "0 \<notin> set x \<Longrightarrow> cstr (x @ 0 # r) = x"
  by (induction x) auto

lemma strlen_cstr: "is_cstr s \<Longrightarrow> strlen s = Some (length (cstr s))"
proof -
  assume s: "is_cstr s"
  have "i \<le> length (cstr s) \<Longrightarrow> strlen_loop s i = Some (length (cstr s))" for i
  proof (induction "length (cstr s) - i" arbitrary: i)
    case 0
    then have i: "i = length (cstr s)" by simp
    have "s ! i = 0" using cstr_split [OF s] i by (metis nth_append_length)
    with i cstr_length [OF s] show ?case by (subst strlen_loop.simps) (simp add: rd_Some)
  next
    case (Suc k)
    then have i: "i < length (cstr s)" by simp
    then have "s ! i \<noteq> 0" using cstr_no_nul [of s] by (metis cstr_nth nth_mem)
    with i Suc cstr_length [OF s] show ?case by (subst strlen_loop.simps) (simp add: rd_Some)
  qed
  then show ?thesis by (simp add: strlen_def)
qed

lemma strcmp_cstr:
  "is_cstr s \<Longrightarrow> is_cstr t \<Longrightarrow> \<exists>r. strcmp s t = Some r \<and> (r = 0 \<longleftrightarrow> cstr s = cstr t)"
  by (induction s t rule: strcmp.induct) (auto simp: unsigned_eq_0_iff dest: unsigned_word_eqI)

lemma memset_eq: "i + n \<le> length s \<Longrightarrow> memset s i c n = Some (take i s @ replicate n c @ drop (i + n) s)"
proof (induction n arbitrary: s i)
  case (Suc n)
  then have "i < length s" by simp
  with Suc show ?case
    by (simp add: wr_def take_Suc_conv_app_nth)
qed simp

lemma memcpy_eq: "i + n \<le> length d \<Longrightarrow> j + n \<le> length s \<Longrightarrow>
    memcpy d i s j n = Some (take i d @ take n (drop j s) @ drop (i + n) d)"
proof (induction n arbitrary: d i j)
  case (Suc n)
  then have "i < length d" "j < length s" by simp_all
  with Suc show ?case
    by (simp add: wr_def rd_def take_Suc_conv_app_nth Cons_nth_drop_Suc [symmetric])
qed simp

lemma strcpy_eq:
  "is_cstr src \<Longrightarrow> i + length (cstr src) < length dst \<Longrightarrow>
   strcpy dst i src = Some (take i dst @ cstr src @ 0 # drop (i + length (cstr src) + 1) dst)"
proof (induction dst i src rule: strcpy.induct)
  case (2 dst i c src)
  then have "i < length dst" by simp
  with 2 show ?case
    by (cases "c = 0") (simp_all add: wr_def upd_conv_take_nth_drop take_Suc_conv_app_nth nth_append add.commute)
qed simp

lemma strncpy_loop_eq:
  assumes "is_cstr src" "length (cstr src) \<le> n" "n \<le> length dst" "i \<le> length (cstr src)"
  shows "strncpy_loop dst src n i =
    Some (take i dst @ drop i (cstr src) @ replicate (n - length (cstr src)) 0 @ drop n dst)"
  using assms
proof (induction dst src n i rule: strncpy_loop.induct)
  case (1 dst src n i)
  show ?case
  proof (cases "i = length (cstr src)")
    case True
    have "src ! i = 0" using cstr_split [OF "1.prems"(1)] True by (metis nth_append_length)
    with True 1 cstr_length [OF "1.prems"(1)] show ?thesis
      by (subst strncpy_loop.simps) (auto simp: rd_Some memset_eq)
  next
    case False
    with 1 have i: "i < length (cstr src)" "i < n" "i < length src" "i < length dst"
      using cstr_length [of src] by auto
    then have c: "src ! i = cstr src ! i" "src ! i \<noteq> 0"
      using cstr_no_nul [of src] by (metis cstr_nth nth_mem)+
    let ?d = "dst[i := src ! i]"
    have w: "wr dst i (src ! i) = Some ?d" using i by simp
    have r: "rd src i = Some (src ! i)" using i by simp
    have "strncpy_loop dst src n i = strncpy_loop ?d src n (i + 1)"
      using i c by (subst strncpy_loop.simps) (simp add: rd_Some wr_Some)
    also have "\<dots> = Some (take (i + 1) ?d @ drop (i + 1) (cstr src) @ replicate (n - length (cstr src)) 0 @ drop n ?d)"
      using 1 i by (intro "1.IH" [OF i(2) r c(2) w]) auto
    finally show ?thesis using i c by (simp add: take_Suc_conv_app_nth Cons_nth_drop_Suc)
  qed
qed

lemma strncpy_eq:
  "is_cstr src \<Longrightarrow> length (cstr src) \<le> n \<Longrightarrow> n \<le> length dst \<Longrightarrow>
   strncpy dst src n = Some (cstr src @ replicate (n - length (cstr src)) 0 @ drop n dst)"
  by (simp add: strncpy_def strncpy_loop_eq)

section \<open>Printing and parsing integers\<close>

lemma digit_of_mod: "48 + ucast (m mod 10 :: u32) = (48 + of_nat (unat m mod 10) :: u8)"
proof -
  have "unat m mod 10 = unat (m mod 10)" by (simp add: unat_mod)
  then show ?thesis by (simp only: of_nat_unat)
qed

lemma itoa_digits_spec:
  assumes "i + length (dec_digits (unat m)) \<le> length t"
  shows "itoa_digits m t i = Some (take i t @ rev (dec_digits (unat m)) @ drop (i + length (dec_digits (unat m))) t,
    i + length (dec_digits (unat m)))"
  using assms
proof (induction m t i rule: itoa_digits.induct)
  case (1 m t i)
  have i: "i < length t" using 1(2) dec_digits_nonempty [of "unat m"] by (cases "dec_digits (unat m)") auto
  show ?case
  proof (cases "m div 10 > 0")
    case True
    then have ge: "\<not> unat m < 10" by (simp add: word_less_nat_alt unat_div)
    then have d: "dec_digits (unat m) = dec_digits (unat (m div 10)) @ [48 + of_nat (unat m mod 10)]"
      by (subst dec_digits.simps) (simp add: unat_div)
    let ?t = "t[i := 48 + ucast (m mod 10)]"
    have w: "wr t i (48 + ucast (m mod 10)) = Some ?t" using i by simp
    have "itoa_digits m t i = itoa_digits (m div 10) ?t (i + 1)"
      using True i by (subst itoa_digits.simps) (simp add: wr_def)
    also note "1.IH" [OF w True]
    finally show ?thesis using 1(2) i d
      by (simp add: digit_of_mod take_Suc_conv_app_nth)
  next
    case False
    then have le: "unat m < 10" by (simp add: word_less_nat_alt unat_div)
    then have "dec_digits (unat m) = [48 + of_nat (unat m mod 10)]" by (subst dec_digits.simps) simp
    with False i show ?thesis
      by (subst itoa_digits.simps) (simp add: digit_of_mod wr_def upd_conv_take_nth_drop)
  qed
qed

lemma itoa_copy_spec:
  assumes "i \<le> length t" "j + i \<le> length buf"
  shows "itoa_copy t i buf j = Some (take j buf @ rev (take i t) @ drop (j + i) buf, j + i)"
  using assms
proof (induction t i buf j rule: itoa_copy.induct)
  case (2 t i buf j)
  then show ?case
    by (simp add: itoa_copy.simps rd_def wr_def take_Suc_conv_app_nth)
qed (simp add: itoa_copy.simps)

definition dec_int :: "int \<Rightarrow> bytes" where
  "dec_int n = (if n < 0 then 45 # dec_digits (nat (- n)) else dec_digits (nat n))"

lemma magnitude_unat: "unat (if sint n < 0 then 0 - n else n) = nat \<bar>sint n\<bar>" for n :: u32
proof -
  have u: "0 \<le> uint n" "uint n < 4294967296" using uint_lt2p [of n] by simp_all
  show ?thesis
  proof (cases "uint n < 2147483648")
    case True
    with u show ?thesis by (simp add: sint_u32)
  next
    case False
    with u have "sint n < 0" "n \<noteq> 0" by (auto simp: sint_u32)
    moreover have "uint (- n) = 4294967296 - uint n"
      using False u by (simp add: uint_word_ariths zmod_zminus1_eq_if)
    then have "unat (- n) = nat (4294967296 - uint n)" by (simp only: unat_eq_nat_uint)
    ultimately show ?thesis using False by (simp add: sint_u32)
  qed
qed

lemma itoa_spec:
  assumes "12 \<le> length buf"
  shows "itoa n buf = Some (dec_int (sint n) @ 0 # drop (length (dec_int (sint n)) + 1) buf)"
proof -
  let ?m = "if sint n < 0 then 0 - n else n"
  let ?ds = "dec_digits (nat \<bar>sint n\<bar>)"
  have m: "unat ?m = nat \<bar>sint n\<bar>" by (rule magnitude_unat)
  have "unat ?m < 10 ^ 10" using unat_lt_u32 [of ?m] by simp
  then have l: "length ?ds \<le> 10" unfolding m by (rule dec_digits_length) simp
  have ne: "?ds \<noteq> []" by (rule dec_digits_nonempty)
  have t: "itoa_digits ?m (replicate 12 0) 0 = Some (rev ?ds @ replicate (12 - length ?ds) 0, length ?ds)"
    using l by (subst itoa_digits_spec) (simp_all add: m)
  show ?thesis
    using t ne l assms
    by (cases "sint n < 0")
      (simp_all add: itoa_def Let_def wr_def itoa_copy_spec dec_int_def list_update_append take_Cons'
        upd_conv_take_nth_drop)
qed

lemma atoi_loop_spec:
  assumes "\<forall>c \<in> set ds. is_digit c" "\<not> is_digit c"
  shows "atoi_loop (ds @ c # rest) (int v) =
    (if dec_from v ds \<le> 2147483647 then Some (int (dec_from v ds)) else if ds = [] then Some (int v) else None)"
  using assms(1)
proof (induction ds arbitrary: v)
  case Nil
  with assms(2) show ?case by (auto simp: dec_from_def)
next
  case (Cons d ds)
  let ?v = "v * 10 + unat (d - 48)"
  have "int v * 10 + int (unat (d - 48)) = int ?v" by simp
  with Cons dec_from_ge [of ?v ds] show ?case
    by (auto simp: dec_from_def Let_def simp del: of_nat_add of_nat_mult)
qed

text \<open>\<^verbatim>\<open>itoa\<close> writes the decimal notation of every 32-bit integer, the smallest included, followed by a
  terminating zero, and touches nothing else; twelve bytes are enough for the buffer.\<close>

lemma itoa_correct:
  "12 \<le> length buf \<Longrightarrow>
   itoa n buf = Some (dec_int (sint n) @ 0 # drop (length (dec_int (sint n)) + 1) buf)"
  by (rule itoa_spec)

lemma itoa_correct_example:
  "itoa 0x80000000 (replicate 12 9) = Some (dec_int (sint (0x80000000 :: u32)) @
     0 # drop (length (dec_int (sint (0x80000000 :: u32))) + 1) (replicate 12 9))"
  by (rule itoa_correct) simp

lemma dec_digits_not_minus: "dec_digits n = c # ds \<Longrightarrow> c \<noteq> 45"
  using dec_digits_digit [of n] by (auto simp: word_le_nat_alt)

lemma atoi_dec_int:
  assumes "- 2147483648 < z" "z \<le> 2147483647"
  shows "atoi (dec_int z @ 0 # rest) = Some z"
proof -
  let ?ds = "dec_digits (nat \<bar>z\<bar>)"
  have loop: "atoi_loop (?ds @ 0 # rest) (int 0) = Some \<bar>z\<bar>"
    using assms dec_digits_digit [of "nat \<bar>z\<bar>"] by (subst atoi_loop_spec) (auto simp: dec_from_digits)
  obtain c ds where ds: "?ds = c # ds" using dec_digits_nonempty by (meson neq_Nil_conv)
  show ?thesis
  proof (cases "z < 0")
    case True
    with loop show ?thesis by (simp add: atoi_def dec_int_def)
  next
    case False
    with loop ds dec_digits_not_minus [OF ds] show ?thesis by (simp add: atoi_def dec_int_def)
  qed
qed

text \<open>Printing and reading back an integer is the identity, except for the smallest one, where
  \<^verbatim>\<open>atoi\<close> overflows its accumulator before it negates.\<close>

lemma atoi_itoa:
  assumes "12 \<le> length buf" "itoa n buf = Some out"
  shows "atoi out = (if n = 0x80000000 then None else Some (sint n))"
proof (cases "n = 0x80000000")
  case True
  have "itoa n buf = Some (dec_int (- 2147483648) @ 0 # drop (length (dec_int (- 2147483648)) + 1) buf)"
    using itoa_spec [OF assms(1), of n] True by simp
  with assms(2) have "out = 45 # dec_digits 2147483648 @ 0 # drop (length (dec_int (- 2147483648)) + 1) buf"
    by (simp add: dec_int_def)
  moreover have "atoi_loop (dec_digits 2147483648 @ 0 # rest) (int 0) = None" for rest
    using dec_digits_digit [of 2147483648] dec_digits_nonempty [of 2147483648]
    by (subst atoi_loop_spec) (auto simp: dec_from_digits)
  ultimately show ?thesis using True by (simp add: atoi_def)
next
  case False
  have u: "0 \<le> uint n" "uint n < 4294967296" "uint n \<noteq> 2147483648"
    using uint_lt2p [of n] False by (simp_all add: word_uint_eq_iff)
  then have "- 2147483648 < sint n" "sint n \<le> 2147483647" unfolding sint_u32 by (simp_all, linarith+)
  then show ?thesis using assms itoa_spec [OF assms(1), of n] False by (auto simp: atoi_dec_int)
qed

lemma atoi_itoa_example:
  "atoi [45, 52, 50, 0, 7, 7, 7, 7, 7, 7, 7, 7] = Some (- 42)"
proof -
  have "itoa (- 42) (replicate 12 7) = Some [45, 52, 50, 0, 7, 7, 7, 7, 7, 7, 7, 7]" by code_simp
  from atoi_itoa [OF _ this] show ?thesis by simp
qed

end
