(* ===== verification/Filesystem.thy ===== *)
theory Filesystem
  imports Clib
begin

text \<open>
  The RAM file system of \<^verbatim>\<open>src/jordyOS/kernel.c\<close>: sixteen slots with a name, 16 KiB of data, a size and a
  flag. The system calls take nullable pointers (\<open>None\<close> is \<^verbatim>\<open>NULL\<close>) and return the C result with the
  new state; the outer \<open>None\<close> is an access outside an object.
\<close>

section \<open>Slots and system calls\<close>

abbreviation (input) MAX_FILE_SIZE :: nat where "MAX_FILE_SIZE \<equiv> 16384"
abbreviation (input) MAX_FILES :: nat where "MAX_FILES \<equiv> 16"
abbreviation (input) MAX_FILENAME_LEN :: nat where "MAX_FILENAME_LEN \<equiv> 32"

record file_t =
  f_name :: bytes
  f_data :: bytes
  f_size :: nat
  f_in_use :: bool

type_synonym fs = "file_t list"

function fs_init_loop :: "fs \<Rightarrow> nat \<Rightarrow> fs option" where
  "fs_init_loop fs i =
     (if i < MAX_FILES then do {
        f \<leftarrow> rd fs i;
        name \<leftarrow> wr (f_name f) 0 0;
        data \<leftarrow> memset (f_data f) 0 0 MAX_FILE_SIZE;
        fs \<leftarrow> wr fs i (f\<lparr>f_in_use := False, f_name := name, f_size := 0, f_data := data\<rparr>);
        fs_init_loop fs (i + 1) }
      else Some fs)"
  by pat_completeness auto
termination
  by (relation "measure (\<lambda>(fs, i). MAX_FILES - i)") auto

declare fs_init_loop.simps [simp del]

definition fs_init :: "fs \<Rightarrow> fs option" where
  "fs_init fs = fs_init_loop fs 0"

function fs_find_loop :: "fs \<Rightarrow> bytes \<Rightarrow> nat \<Rightarrow> int option" where
  "fs_find_loop fs fn i =
     (if i < MAX_FILES then do {
        f \<leftarrow> rd fs i;
        hit \<leftarrow> (if f_in_use f then do { c \<leftarrow> strcmp (f_name f) fn; Some (c = 0) } else Some False);
        if hit then Some (int i) else fs_find_loop fs fn (i + 1) }
      else Some (-1))"
  by pat_completeness auto
termination
  by (relation "measure (\<lambda>(fs, fn, i). MAX_FILES - i)") auto

declare fs_find_loop.simps [simp del]

definition fs_find_file :: "fs \<Rightarrow> bytes \<Rightarrow> int option" where
  "fs_find_file fs fn = fs_find_loop fs fn 0"

function fs_empty_loop :: "fs \<Rightarrow> nat \<Rightarrow> int option" where
  "fs_empty_loop fs i =
     (if i < MAX_FILES then do {
        f \<leftarrow> rd fs i; if \<not> f_in_use f then Some (int i) else fs_empty_loop fs (i + 1) }
      else Some (-1))"
  by pat_completeness auto
termination
  by (relation "measure (\<lambda>(fs, i). MAX_FILES - i)") auto

declare fs_empty_loop.simps [simp del]

definition fs_find_empty_slot :: "fs \<Rightarrow> int option" where
  "fs_find_empty_slot fs = fs_empty_loop fs 0"

text \<open>The loop of \<^verbatim>\<open>sys_list_files\<close>; \<open>first\<close> is the flag \<^verbatim>\<open>ff\<close>, the result \<^verbatim>\<open>cp\<close> and the buffer.\<close>

function list_loop :: "fs \<Rightarrow> nat \<Rightarrow> bytes \<Rightarrow> nat \<Rightarrow> nat \<Rightarrow> bool \<Rightarrow> (int \<times> bytes) option" where
  "list_loop fs i ob bl cp first =
     (if i < MAX_FILES then do {
        f \<leftarrow> rd fs i;
        if f_in_use f then
          if \<not> first \<and> \<not> cp < bl - 1 then Some (int cp, ob)
          else do {
            (ob, cp) \<leftarrow> (if \<not> first then do { ob \<leftarrow> wr ob cp 10; Some (ob, cp + 1) } else Some (ob, cp));
            nl \<leftarrow> strlen (f_name f);
            if cp + nl < bl then do {
              ob \<leftarrow> strcpy ob cp (f_name f);
              list_loop fs (i + 1) ob bl (cp + nl) False }
            else Some (int cp, ob) }
        else list_loop fs (i + 1) ob bl cp first }
      else Some (int cp, ob))"
  by pat_completeness auto
termination
  by (relation "measure (\<lambda>(fs, i, ob, bl, cp, first). MAX_FILES - i)") auto

declare list_loop.simps [simp del]

definition sys_list_files :: "bytes option \<Rightarrow> int \<Rightarrow> fs \<Rightarrow> (int \<times> bytes option) option" where
  "sys_list_files ob bl fs =
     (case ob of None \<Rightarrow> Some (-1, None)
      | Some b \<Rightarrow> if bl \<le> 0 then Some (-1, ob) else do {
          b \<leftarrow> memset b 0 0 (nat bl);
          (cp, b) \<leftarrow> list_loop fs 0 b (nat bl) 0 True;
          Some (cp, Some b) })"

definition sys_read_file :: "bytes option \<Rightarrow> bytes option \<Rightarrow> int \<Rightarrow> fs \<Rightarrow> (int \<times> bytes option) option" where
  "sys_read_file fn ub us fs =
     (case (fn, ub) of
        (Some fn, Some b) \<Rightarrow> if us \<le> 0 then Some (-1, ub) else do {
          fi \<leftarrow> fs_find_file fs fn;
          if fi = -1 then Some (-1, ub) else do {
            f \<leftarrow> rd fs (nat fi);
            if nat us < f_size f then Some (-2, ub) else do {
              b \<leftarrow> memcpy b 0 (f_data f) 0 (f_size f);
              Some (int (f_size f), Some b) }}}
      | _ \<Rightarrow> Some (-1, ub))"

definition sys_write_file :: "bytes option \<Rightarrow> bytes option \<Rightarrow> int \<Rightarrow> fs \<Rightarrow> (int \<times> fs) option" where
  "sys_write_file fn d dl fs =
     (case (fn, d) of
        (Some fn, Some d) \<Rightarrow> if dl < 0 then Some (-1, fs) else do {
          c \<leftarrow> rd fn 0;
          bad \<leftarrow> (if c = 0 then Some True else do { l \<leftarrow> strlen fn; Some (l \<ge> MAX_FILENAME_LEN) });
          if bad then Some (-2, fs)
          else if dl > int MAX_FILE_SIZE then Some (-3, fs)
          else do {
            fi \<leftarrow> fs_find_file fs fn;
            slot \<leftarrow> (if fi = -1 then do {
                fi \<leftarrow> fs_find_empty_slot fs;
                if fi = -1 then Some None else do {
                  f \<leftarrow> rd fs (nat fi);
                  name \<leftarrow> strncpy (f_name f) fn (MAX_FILENAME_LEN - 1);
                  name \<leftarrow> wr name (MAX_FILENAME_LEN - 1) 0;
                  fs \<leftarrow> wr fs (nat fi) (f\<lparr>f_in_use := True, f_name := name\<rparr>);
                  Some (Some (fi, fs)) }}
              else Some (Some (fi, fs)));
            (case slot of None \<Rightarrow> Some (-4, fs)
             | Some (fi, fs) \<Rightarrow> do {
                 f \<leftarrow> rd fs (nat fi);
                 data \<leftarrow> memcpy (f_data f) 0 d 0 (nat dl);
                 fs \<leftarrow> wr fs (nat fi) (f\<lparr>f_data := data, f_size := nat dl\<rparr>);
                 Some (0, fs) }) }}
      | _ \<Rightarrow> Some (-1, fs))"

definition sys_delete_file :: "bytes option \<Rightarrow> fs \<Rightarrow> (int \<times> fs) option" where
  "sys_delete_file fn fs =
     (case fn of None \<Rightarrow> Some (-1, fs)
      | Some fn \<Rightarrow> do {
          fi \<leftarrow> fs_find_file fs fn;
          if fi = -1 then Some (-1, fs) else do {
            f \<leftarrow> rd fs (nat fi);
            name \<leftarrow> wr (f_name f) 0 0;
            fs \<leftarrow> wr fs (nat fi) (f\<lparr>f_in_use := False, f_name := name, f_size := 0\<rparr>);
            Some (0, fs) }})"

section \<open>Invariant and abstract contents\<close>

definition file_wf :: "file_t \<Rightarrow> bool" where
  "file_wf f \<longleftrightarrow> length (f_name f) = MAX_FILENAME_LEN \<and> length (f_data f) = MAX_FILE_SIZE \<and>
     f_size f \<le> MAX_FILE_SIZE \<and> (f_in_use f \<longrightarrow> is_cstr (f_name f) \<and> cstr (f_name f) \<noteq> [])"

definition named :: "bytes \<Rightarrow> file_t \<Rightarrow> bool" where
  "named nm f \<longleftrightarrow> f_in_use f \<and> cstr (f_name f) = nm"

definition fs_wf :: "fs \<Rightarrow> bool" where
  "fs_wf fs \<longleftrightarrow> length fs = MAX_FILES \<and> (\<forall>f \<in> set fs. file_wf f) \<and>
     (\<forall>i < MAX_FILES. \<forall>j < MAX_FILES. f_in_use (fs ! i) \<and> named (cstr (f_name (fs ! i))) (fs ! j) \<longrightarrow> i = j)"

definition fcontent :: "file_t \<Rightarrow> bytes" where
  "fcontent f = take (f_size f) (f_data f)"

definition fs_abs :: "fs \<Rightarrow> bytes \<Rightarrow> bytes option" where
  "fs_abs fs nm = map_option fcontent (find (named nm) fs)"

lemma fs_wf_file: "fs_wf fs \<Longrightarrow> i < MAX_FILES \<Longrightarrow> file_wf (fs ! i)"
  by (simp add: fs_wf_def)

lemma fs_wf_unique: "fs_wf fs \<Longrightarrow> i < MAX_FILES \<Longrightarrow> j < MAX_FILES \<Longrightarrow> named nm (fs ! i) \<Longrightarrow> named nm (fs ! j) \<Longrightarrow> i = j"
  unfolding fs_wf_def named_def by (elim conjE) blast

lemma fs_abs_Some_iff:
  assumes "fs_wf fs"
  shows "fs_abs fs nm = Some d \<longleftrightarrow> (\<exists>i < MAX_FILES. named nm (fs ! i) \<and> d = fcontent (fs ! i))"
proof -
  have l: "length fs = MAX_FILES" using assms by (simp add: fs_wf_def)
  show ?thesis
  proof (cases "find (named nm) fs")
    case None
    then have "\<not> named nm (fs ! i)" if "i < MAX_FILES" for i using that l by (auto simp: find_None_iff)
    with None show ?thesis by (auto simp: fs_abs_def)
  next
    case (Some f)
    then obtain i where "i < MAX_FILES" "named nm (fs ! i)" "f = fs ! i"
      using l by (auto simp: find_Some_iff)
    with Some fs_wf_unique [OF assms] show ?thesis by (auto simp: fs_abs_def)
  qed
qed

lemma fs_abs_None_iff: "fs_wf fs \<Longrightarrow> fs_abs fs nm = None \<longleftrightarrow> (\<forall>i < MAX_FILES. \<not> named nm (fs ! i))"
  by (auto simp: fs_abs_def find_None_iff fs_wf_def in_set_conv_nth)

lemma fs_wf_update:
  assumes "fs_wf fs" "i < MAX_FILES" "file_wf f"
    "\<And>j. j < MAX_FILES \<Longrightarrow> j \<noteq> i \<Longrightarrow> f_in_use f \<Longrightarrow> \<not> named (cstr (f_name f)) (fs ! j)"
  shows "fs_wf (fs[i := f])"
proof -
  have l: "length fs = MAX_FILES" using assms(1) by (simp add: fs_wf_def)
  have u: "j = k" if "j < MAX_FILES" "k < MAX_FILES" "named nm (fs[i := f] ! j)" "named nm (fs[i := f] ! k)" for j k nm
    using that assms(2,4) fs_wf_unique [OF assms(1)] l by (auto simp: nth_list_update named_def split: if_splits)
  have "\<forall>g \<in> set (fs[i := f]). file_wf g"
    using assms(1,3) set_update_subset_insert [of fs i f] by (auto simp: fs_wf_def)
  moreover have "j = k" if "j < MAX_FILES" "k < MAX_FILES" "f_in_use (fs[i := f] ! j)"
    "named (cstr (f_name (fs[i := f] ! j))) (fs[i := f] ! k)" for j k
    using u [OF that(1,2), of "cstr (f_name (fs[i := f] ! j))"] that by (simp add: named_def)
  ultimately show ?thesis using l by (auto simp: fs_wf_def)
qed

lemma fs_abs_update:
  assumes "fs_wf fs" "fs_wf (fs[i := f])" "i < MAX_FILES"
  shows "fs_abs (fs[i := f]) nm =
    (if named nm f then Some (fcontent f) else if named nm (fs ! i) then None else fs_abs fs nm)"
proof -
  have l: "length fs = MAX_FILES" using assms(1) by (simp add: fs_wf_def)
  consider "named nm f" | "\<not> named nm f" "named nm (fs ! i)" | "\<not> named nm f" "\<not> named nm (fs ! i)" by blast
  then show ?thesis
  proof cases
    case 1
    with assms l show ?thesis by (auto simp: fs_abs_Some_iff intro!: exI [of _ i])
  next
    case 2
    with assms l show ?thesis
      by (auto simp: fs_abs_None_iff nth_list_update dest: fs_wf_unique [OF assms(1)])
  next
    case 3
    have "fs_abs (fs[i := f]) nm = Some d \<longleftrightarrow> fs_abs fs nm = Some d" for d
      using 3 assms l by (auto simp: fs_abs_Some_iff nth_list_update)
    with 3 show ?thesis by (metis (full_types) option.exhaust)
  qed
qed

lemma fs_find_loop_spec:
  assumes "fs_wf fs" "is_cstr fn" "\<forall>j < i. \<not> named (cstr fn) (fs ! j)" "i \<le> MAX_FILES"
  shows "\<exists>r. fs_find_loop fs fn i = Some r \<and>
    (r = -1 \<and> fs_abs fs (cstr fn) = None \<or>
     (\<exists>k < MAX_FILES. r = int k \<and> named (cstr fn) (fs ! k) \<and> fs_abs fs (cstr fn) = Some (fcontent (fs ! k))))"
  using assms
proof (induction fs fn i rule: fs_find_loop.induct)
  case (1 fs fn i)
  show ?case
  proof (cases "i < MAX_FILES")
    case True
    have l: "length fs = MAX_FILES" using 1(2) by (simp add: fs_wf_def)
    have r: "rd fs i = Some (fs ! i)" using True l by simp
    have hit: "(if f_in_use (fs ! i) then do { c \<leftarrow> strcmp (f_name (fs ! i)) fn; Some (c = 0) } else Some False)
        = Some (named (cstr fn) (fs ! i))"
      using strcmp_cstr [of "f_name (fs ! i)" fn] fs_wf_file [OF 1(2) True] 1(3)
      by (auto simp: named_def file_wf_def)
    have step: "fs_find_loop fs fn i = (if named (cstr fn) (fs ! i) then Some (int i) else fs_find_loop fs fn (i + 1))"
      using True r hit by (subst fs_find_loop.simps) (simp del: rd_eq_Some)
    show ?thesis
    proof (cases "named (cstr fn) (fs ! i)")
      case t: True
      then have "fs_abs fs (cstr fn) = Some (fcontent (fs ! i))"
        using fs_abs_Some_iff [OF 1(2)] True by blast
      with t True step show ?thesis by auto
    next
      case False
      with "1.IH" [OF True r hit] 1 True step show ?thesis by (simp add: less_Suc_eq)
    qed
  next
    case False
    then have "fs_find_loop fs fn i = Some (-1)" by (subst fs_find_loop.simps) simp
    with 1 False show ?thesis by (simp add: fs_abs_None_iff)
  qed
qed

lemma fs_find_file_spec:
  assumes "fs_wf fs" "is_cstr fn"
  obtains "fs_find_file fs fn = Some (-1)" "fs_abs fs (cstr fn) = None"
  | k where "fs_find_file fs fn = Some (int k)" "k < MAX_FILES" "named (cstr fn) (fs ! k)"
      "fs_abs fs (cstr fn) = Some (fcontent (fs ! k))"
  using fs_find_loop_spec [OF assms, of 0] by (auto simp: fs_find_file_def)

lemma fs_empty_loop_spec:
  assumes "length fs = MAX_FILES" "\<forall>j < i. f_in_use (fs ! j)" "i \<le> MAX_FILES"
  shows "\<exists>r. fs_empty_loop fs i = Some r \<and>
    (r = -1 \<and> (\<forall>j < MAX_FILES. f_in_use (fs ! j)) \<or> (\<exists>k < MAX_FILES. r = int k \<and> \<not> f_in_use (fs ! k)))"
  using assms
proof (induction fs i rule: fs_empty_loop.induct)
  case (1 fs i)
  show ?case
  proof (cases "i < MAX_FILES \<and> f_in_use (fs ! i)")
    case True
    with "1.IH" [of "fs ! i"] 1 show ?thesis by (subst fs_empty_loop.simps) (simp add: rd_def less_Suc_eq)
  next
    case False
    with 1 show ?thesis by (subst fs_empty_loop.simps) (auto simp: rd_def)
  qed
qed

lemma fs_find_empty_slot_spec:
  assumes "fs_wf fs"
  obtains "fs_find_empty_slot fs = Some (-1)" "\<forall>j < MAX_FILES. f_in_use (fs ! j)"
  | k where "fs_find_empty_slot fs = Some (int k)" "k < MAX_FILES" "\<not> f_in_use (fs ! k)"
  using fs_empty_loop_spec [of fs 0] assms by (auto simp: fs_find_empty_slot_def fs_wf_def)

section \<open>The system calls against the abstract map\<close>

text \<open>
  The specification: a partial map from names to contents with room for sixteen files. Each call
  returns the code of the source and the new map.
\<close>

type_synonym file_map = "bytes \<Rightarrow> bytes option"

definition spec_write :: "bytes \<Rightarrow> bytes \<Rightarrow> int \<Rightarrow> file_map \<Rightarrow> int \<times> file_map" where
  "spec_write nm d dl m =
     (if dl < 0 then (-1, m) else if nm = [] \<or> MAX_FILENAME_LEN \<le> length nm then (-2, m)
      else if dl > int MAX_FILE_SIZE then (-3, m)
      else if m nm = None \<and> card (dom m) = MAX_FILES then (-4, m)
      else (0, m(nm \<mapsto> take (nat dl) d)))"

definition spec_delete :: "bytes \<Rightarrow> file_map \<Rightarrow> int \<times> file_map" where
  "spec_delete nm m = (if m nm = None then (-1, m) else (0, m(nm := None)))"

definition spec_read :: "bytes \<Rightarrow> bytes \<Rightarrow> int \<Rightarrow> file_map \<Rightarrow> int \<times> bytes" where
  "spec_read nm b us m =
     (if us \<le> 0 then (-1, b) else case m nm of None \<Rightarrow> (-1, b)
      | Some d \<Rightarrow> if us < int (length d) then (-2, b) else (int (length d), d @ drop (length d) b))"

lemma fcontent_length: "file_wf f \<Longrightarrow> length (fcontent f) = f_size f"
  by (simp add: fcontent_def file_wf_def)

lemma fs_full:
  assumes "fs_wf fs"
  shows "card (dom (fs_abs fs)) = MAX_FILES \<longleftrightarrow> (\<forall>j < MAX_FILES. f_in_use (fs ! j))"
proof -
  let ?U = "{j. j < MAX_FILES \<and> f_in_use (fs ! j)}"
  let ?n = "\<lambda>j. cstr (f_name (fs ! j))"
  have dom: "dom (fs_abs fs) = ?n ` ?U"
  proof (rule set_eqI)
    fix nm
    have "nm \<in> dom (fs_abs fs) \<longleftrightarrow> (\<exists>j < MAX_FILES. named nm (fs ! j))"
      using fs_abs_None_iff [OF assms, of nm] by (auto simp: domIff)
    then show "nm \<in> dom (fs_abs fs) \<longleftrightarrow> nm \<in> ?n ` ?U" by (auto simp: named_def)
  qed
  have "inj_on ?n ?U"
  proof (rule inj_onI)
    fix x y assume "x \<in> ?U" "y \<in> ?U" "?n x = ?n y"
    then show "x = y" using fs_wf_unique [OF assms, of x y "?n x"] by (simp add: named_def)
  qed
  then have c: "card (dom (fs_abs fs)) = card ?U" by (simp add: dom card_image)
  have sub: "?U \<subseteq> {..<MAX_FILES}" by auto
  have "card ?U = MAX_FILES \<longleftrightarrow> ?U = {..<MAX_FILES}"
  proof
    assume "card ?U = MAX_FILES"
    then show "?U = {..<MAX_FILES}" using sub by (intro card_subset_eq) simp_all
  next
    assume "?U = {..<MAX_FILES}"
    then show "card ?U = MAX_FILES" by (simp only: card_lessThan)
  qed
  also have "\<dots> \<longleftrightarrow> (\<forall>j < MAX_FILES. f_in_use (fs ! j))" by auto
  finally show ?thesis using c by simp
qed

lemma sys_read_file_spec:
  assumes "fs_wf fs" "is_cstr fn" "nat us \<le> length b"
  shows "sys_read_file (Some fn) (Some b) us fs =
    Some (apsnd Some (spec_read (cstr fn) b us (fs_abs fs)))"
proof (cases "us \<le> 0")
  case False
  show ?thesis
  proof (cases rule: fs_find_file_spec [OF assms(1,2)])
    case 1
    with False show ?thesis by (simp add: sys_read_file_def spec_read_def)
  next
    case (2 k)
    have wf: "file_wf (fs ! k)" by (rule fs_wf_file [OF assms(1) 2(2)])
    have "rd fs k = Some (fs ! k)" using assms(1) 2(2) by (simp add: fs_wf_def)
    with 2 False assms(3) fcontent_length [OF wf] wf show ?thesis
      by (auto simp: sys_read_file_def spec_read_def fcontent_def file_wf_def memcpy_eq simp del: rd_eq_Some)
  qed
qed (simp add: sys_read_file_def spec_read_def)

lemma file_wf_delete: "file_wf f \<Longrightarrow> file_wf (f\<lparr>f_in_use := False, f_name := (f_name f)[0 := 0], f_size := 0\<rparr>)"
  by (simp add: file_wf_def)

lemma sys_delete_file_spec:
  assumes "fs_wf fs" "is_cstr fn"
  shows "\<exists>fs'. sys_delete_file (Some fn) fs = Some (fst (spec_delete (cstr fn) (fs_abs fs)), fs') \<and>
    fs_wf fs' \<and> fs_abs fs' = snd (spec_delete (cstr fn) (fs_abs fs))"
proof (cases rule: fs_find_file_spec [OF assms])
  case 1
  with assms show ?thesis by (simp add: sys_delete_file_def spec_delete_def)
next
  case (2 k)
  have l: "length fs = MAX_FILES" using assms(1) by (simp add: fs_wf_def)
  have wf: "file_wf (fs ! k)" by (rule fs_wf_file [OF assms(1) 2(2)])
  let ?f = "(fs ! k)\<lparr>f_in_use := False, f_name := (f_name (fs ! k))[0 := 0], f_size := 0\<rparr>"
  have "sys_delete_file (Some fn) fs = Some (0, fs[k := ?f])"
    using 2 l wf by (auto simp: sys_delete_file_def rd_def wr_def file_wf_def)
  moreover have wf': "fs_wf (fs[k := ?f])"
    using assms(1) 2(2) file_wf_delete [OF wf] by (intro fs_wf_update) simp_all
  moreover have "fs_abs (fs[k := ?f]) = (fs_abs fs)(cstr fn := None)"
    using fs_abs_update [OF assms(1) wf' 2(2)] 2(3) by (auto simp: fun_eq_iff named_def)
  ultimately show ?thesis using 2 by (simp add: spec_delete_def)
qed

text \<open>The common tail of a write: the data of slot \<open>k\<close> is replaced.\<close>

lemma fs_store:
  assumes "fs_wf fs" "k < MAX_FILES" "named nm (fs ! k)" "n \<le> MAX_FILE_SIZE" "n \<le> length d"
  defines "f \<equiv> (fs ! k)\<lparr>f_data := take n d @ drop n (f_data (fs ! k)), f_size := n\<rparr>"
  shows "memcpy (f_data (fs ! k)) 0 d 0 n = Some (take n d @ drop n (f_data (fs ! k)))"
    "fs_wf (fs[k := f])" "fs_abs (fs[k := f]) = (fs_abs fs)(nm \<mapsto> take n d)"
proof -
  have wf: "file_wf (fs ! k)" by (rule fs_wf_file [OF assms(1,2)])
  show "memcpy (f_data (fs ! k)) 0 d 0 n = Some (take n d @ drop n (f_data (fs ! k)))"
    using wf assms by (simp add: memcpy_eq file_wf_def)
  have nf: "named x f \<longleftrightarrow> named x (fs ! k)" for x by (simp add: f_def named_def)
  have "file_wf f" using wf assms(4,5) by (simp add: file_wf_def f_def)
  then show wf': "fs_wf (fs[k := f])"
    using assms(1,2) fs_wf_unique [OF assms(1) _ assms(2)] nf
    by (intro fs_wf_update) (auto simp: named_def f_def)
  have "fcontent f = take n d" using assms(5) by (simp add: fcontent_def f_def)
  then show "fs_abs (fs[k := f]) = (fs_abs fs)(nm \<mapsto> take n d)"
    using fs_abs_update [OF assms(1) wf' assms(2)] assms(3) nf by (auto simp: fun_eq_iff named_def)
qed

text \<open>Claiming an empty slot under a new name; its old size is still there until the store.\<close>

lemma fs_claim:
  assumes "fs_wf fs" "k < MAX_FILES" "\<not> f_in_use (fs ! k)" "is_cstr fn" "cstr fn \<noteq> []"
    "length (cstr fn) < MAX_FILENAME_LEN" "fs_abs fs (cstr fn) = None"
  obtains nm where "strncpy (f_name (fs ! k)) fn 31 = Some nm" "length nm = 32"
    "fs_wf (fs[k := (fs ! k)\<lparr>f_in_use := True, f_name := nm[31 := 0]\<rparr>])"
    "named (cstr fn) ((fs ! k)\<lparr>f_in_use := True, f_name := nm[31 := 0]\<rparr>)"
    "\<And>x. x \<noteq> cstr fn \<Longrightarrow> fs_abs (fs[k := (fs ! k)\<lparr>f_in_use := True, f_name := nm[31 := 0]\<rparr>]) x = fs_abs fs x"
proof -
  have wf: "file_wf (fs ! k)" by (rule fs_wf_file [OF assms(1,2)])
  then have ln: "length (f_name (fs ! k)) = 32" by (simp add: file_wf_def)
  define nm where "nm = cstr fn @ replicate (31 - length (cstr fn)) 0 @ drop 31 (f_name (fs ! k))"
  have s: "strncpy (f_name (fs ! k)) fn 31 = Some nm"
    using strncpy_eq [OF assms(4), of 31 "f_name (fs ! k)"] assms(6) ln by (simp add: nm_def)
  have l: "length nm = 32" using assms(6) ln by (simp add: nm_def)
  have nm': "nm[31 := 0] = cstr fn @ replicate (32 - length (cstr fn)) 0"
  proof -
    have d: "drop 31 (f_name (fs ! k)) = [f_name (fs ! k) ! 31]"
      using ln by (simp add: Cons_nth_drop_Suc [symmetric])
    have e: "32 - length (cstr fn) = (31 - length (cstr fn)) + 1" using assms(6) by simp
    show ?thesis using assms(6) unfolding nm_def d e replicate_add
      by (simp add: list_update_append)
  qed
  have "32 - length (cstr fn) = Suc (31 - length (cstr fn))" using assms(6) by simp
  then have "replicate (32 - length (cstr fn)) 0 = (0 :: u8) # replicate (31 - length (cstr fn)) 0" by simp
  then have c: "cstr (nm[31 := 0]) = cstr fn" "is_cstr (nm[31 := 0])"
    by (simp_all add: nm' cstr_no_nul is_cstr_def)
  let ?f = "(fs ! k)\<lparr>f_in_use := True, f_name := nm[31 := 0]\<rparr>"
  have "file_wf ?f" using wf l c assms(5) by (simp add: file_wf_def)
  then have wf': "fs_wf (fs[k := ?f])"
    using assms(1,2,7) fs_abs_None_iff [OF assms(1)] c by (intro fs_wf_update) auto
  have n: "named x ?f \<longleftrightarrow> x = cstr fn" for x using c by (auto simp: named_def)
  show thesis
    by (rule that [OF s l wf'])
      (use n fs_abs_update [OF assms(1) wf' assms(2)] assms(3) in \<open>auto simp: named_def\<close>)
qed

lemma sys_write_file_spec:
  assumes "fs_wf fs" "is_cstr fn" "nat dl \<le> length d"
  shows "\<exists>fs'. sys_write_file (Some fn) (Some d) dl fs = Some (fst (spec_write (cstr fn) d dl (fs_abs fs)), fs') \<and>
    fs_wf fs' \<and> fs_abs fs' = snd (spec_write (cstr fn) d dl (fs_abs fs))"
proof -
  have l: "length fs = MAX_FILES" using assms(1) by (simp add: fs_wf_def)
  obtain c where r: "rd fn 0 = Some c" and c: "c = 0 \<longleftrightarrow> cstr fn = []"
    using assms(2) by (cases fn) (auto simp: rd_def)
  note len = strlen_cstr [OF assms(2)]
  show ?thesis
  proof (cases "dl < 0 \<or> (cstr fn = [] \<or> MAX_FILENAME_LEN \<le> length (cstr fn)) \<or> dl > int MAX_FILE_SIZE")
    case True
    then show ?thesis using assms(1)
      by (cases "cstr fn = []") (auto simp: sys_write_file_def spec_write_def r c len)
  next
    case ok: False
    then have n: "nat dl \<le> MAX_FILE_SIZE" by linarith
    have wr: "sys_write_file (Some fn) (Some d) dl fs = do {
        fi \<leftarrow> fs_find_file fs fn;
        slot \<leftarrow> (if fi = -1 then do {
            fi \<leftarrow> fs_find_empty_slot fs;
            if fi = -1 then Some None else do {
              f \<leftarrow> rd fs (nat fi);
              name \<leftarrow> strncpy (f_name f) fn (MAX_FILENAME_LEN - 1);
              name \<leftarrow> wr name (MAX_FILENAME_LEN - 1) 0;
              fs \<leftarrow> wr fs (nat fi) (f\<lparr>f_in_use := True, f_name := name\<rparr>);
              Some (Some (fi, fs)) }}
          else Some (Some (fi, fs)));
        (case slot of None \<Rightarrow> Some (-4, fs)
         | Some (fi, fs) \<Rightarrow> do {
             f \<leftarrow> rd fs (nat fi);
             data \<leftarrow> memcpy (f_data f) 0 d 0 (nat dl);
             fs \<leftarrow> wr fs (nat fi) (f\<lparr>f_data := data, f_size := nat dl\<rparr>);
             Some (0, fs) }) }"
      using ok by (simp add: sys_write_file_def r c len)
    show ?thesis
    proof (cases rule: fs_find_file_spec [OF assms(1,2)])
      case (2 k)
      note st = fs_store [OF assms(1) 2(2,3) n assms(3)]
      have "sys_write_file (Some fn) (Some d) dl fs = Some (0, fs[k := (fs ! k)
          \<lparr>f_data := take (nat dl) d @ drop (nat dl) (f_data (fs ! k)), f_size := nat dl\<rparr>])"
        using 2 l st(1) by (simp add: wr rd_def wr_def)
      with st 2(4) ok show ?thesis by (simp add: spec_write_def)
    next
      case find: 1
      show ?thesis
      proof (cases rule: fs_find_empty_slot_spec [OF assms(1)])
        case 1
        then have "card (dom (fs_abs fs)) = MAX_FILES" by (simp only: fs_full [OF assms(1)])
        with 1 find ok assms(1) show ?thesis by (simp add: wr spec_write_def)
      next
        case (2 k)
        have nf: "card (dom (fs_abs fs)) \<noteq> MAX_FILES" using 2 fs_full [OF assms(1)] by auto
        obtain nm where nm: "strncpy (f_name (fs ! k)) fn 31 = Some nm" "length nm = 32"
          and wf: "fs_wf (fs[k := (fs ! k)\<lparr>f_in_use := True, f_name := nm[31 := 0]\<rparr>])"
          and nd: "named (cstr fn) ((fs ! k)\<lparr>f_in_use := True, f_name := nm[31 := 0]\<rparr>)"
          and ab: "\<And>x. x \<noteq> cstr fn \<Longrightarrow> fs_abs (fs[k := (fs ! k)\<lparr>f_in_use := True, f_name := nm[31 := 0]\<rparr>]) x = fs_abs fs x"
          using fs_claim [OF assms(1) 2(2,3) assms(2)] ok find(2) by auto
        let ?g = "fs[k := (fs ! k)\<lparr>f_in_use := True, f_name := nm[31 := 0]\<rparr>]"
        have nd': "named (cstr fn) (?g ! k)" using nd 2(2) l by simp
        note st = fs_store [OF wf 2(2) nd' n assms(3)]
        have w: "sys_write_file (Some fn) (Some d) dl fs = Some (0, ?g[k := (?g ! k)
            \<lparr>f_data := take (nat dl) d @ drop (nat dl) (f_data (?g ! k)), f_size := nat dl\<rparr>])"
          using 2 find nm l st(1) by (simp add: wr rd_def wr_def)
        have "(fs_abs ?g)(cstr fn \<mapsto> take (nat dl) d) = (fs_abs fs)(cstr fn \<mapsto> take (nat dl) d)"
          using ab by (auto simp: fun_eq_iff)
        with st w ok nf show ?thesis by (simp add: spec_write_def del: list_update_overwrite)
      qed
    qed
  qed
qed

section \<open>Listing\<close>

definition names_from :: "fs \<Rightarrow> nat \<Rightarrow> bytes list" where
  "names_from fs i = map (\<lambda>f. cstr (f_name f)) (filter f_in_use (drop i fs))"

definition tail_lines :: "bytes list \<Rightarrow> bytes" where
  "tail_lines ns = concat (map ((#) 10) ns)"

definition lines :: "bytes list \<Rightarrow> bytes" where
  "lines ns = (case ns of [] \<Rightarrow> [] | n # ns \<Rightarrow> n @ tail_lines ns)"

lemma tail_lines_simps [simp]: "tail_lines [] = []" "tail_lines (n # ns) = 10 # n @ tail_lines ns"
  by (simp_all add: tail_lines_def)

lemma names_from_step:
  "i < length fs \<Longrightarrow> names_from fs i = (if f_in_use (fs ! i) then cstr (f_name (fs ! i)) # names_from fs (i + 1) else names_from fs (i + 1))"
  by (simp add: names_from_def Cons_nth_drop_Suc [symmetric])

text \<open>The state of the loop: \<open>pre\<close> is written, zeros fill the buffer up to \<open>bl\<close>.\<close>

definition listed :: "bytes \<Rightarrow> nat \<Rightarrow> bytes \<Rightarrow> bytes \<Rightarrow> (int \<times> bytes) option \<Rightarrow> bool" where
  "listed pre bl rest want r \<longleftrightarrow> (\<exists>s t. want = s @ t \<and> length pre + length s < bl \<and>
     r = Some (int (length pre + length s), pre @ s @ replicate (bl - length pre - length s) 0 @ rest) \<and>
     (length pre + length want < bl \<longrightarrow> t = []))"

lemma listed_extend:
  assumes "listed (pre @ s) bl rest want r" shows "listed pre bl rest (s @ want) r"
proof -
  from assms obtain u t where "want = u @ t" "length (pre @ s) + length u < bl"
    "r = Some (int (length (pre @ s) + length u), (pre @ s) @ u @ replicate (bl - length (pre @ s) - length u) 0 @ rest)"
    "length (pre @ s) + length want < bl \<longrightarrow> t = []"
    unfolding listed_def by blast
  then show ?thesis unfolding listed_def
    by (intro exI [of _ "s @ u"] exI [of _ t]) (simp add: add.assoc)
qed

lemma listed_stop:
  "length pre + length s < bl \<Longrightarrow> bl \<le> length pre + length s + length t \<or> t = [] \<Longrightarrow>
   listed pre bl rest (s @ t) (Some (int (length pre + length s), pre @ s @ replicate (bl - length pre - length s) 0 @ rest))"
  unfolding listed_def by (intro exI [of _ s] exI [of _ t]) auto

lemma put_name:
  assumes "is_cstr nm" "length pre + length (cstr nm) < bl"
  shows "strcpy (pre @ replicate (bl - length pre) 0 @ rest) (length pre) nm =
    Some (pre @ cstr nm @ replicate (bl - length pre - length (cstr nm)) 0 @ rest)"
proof -
  have "bl - length pre - length (cstr nm) = Suc (bl - length pre - length (cstr nm) - 1)" using assms(2) by simp
  then show ?thesis using assms
    by (subst strcpy_eq) (simp_all add: drop_replicate flip: replicate_Suc)
qed

lemma list_loop_spec:
  assumes "fs_wf fs" "length pre < bl"
  shows "listed pre bl rest ((if first then lines else tail_lines) (names_from fs i))
    (list_loop fs i (pre @ replicate (bl - length pre) 0 @ rest) bl (length pre) first)"
  using assms(2)
proof (induction "MAX_FILES - i" arbitrary: i pre first)
  case 0
  have l: "length fs = MAX_FILES" using assms(1) by (simp add: fs_wf_def)
  have "names_from fs i = []" using 0 l by (simp add: names_from_def)
  with 0 show ?case using listed_stop [of pre "[]" bl "[]" rest]
    by (subst list_loop.simps) (simp add: lines_def)
next
  case (Suc n)
  have l: "length fs = MAX_FILES" using assms(1) by (simp add: fs_wf_def)
  have i: "i < MAX_FILES" "n = MAX_FILES - (i + 1)" using Suc(2) by auto
  have r: "rd fs i = Some (fs ! i)" using i l by simp
  note names = names_from_step [of i fs, unfolded l, OF i(1)]
  show ?case
  proof (cases "f_in_use (fs ! i)")
    case False
    with i r names Suc(1) [OF i(2) Suc(3)] show ?thesis by (subst list_loop.simps) (simp del: rd_eq_Some)
  next
    case True
    let ?nm = "f_name (fs ! i)"
    have nm: "is_cstr ?nm" using fs_wf_file [OF assms(1) i(1)] True by (simp add: file_wf_def)
    have body: "listed p bl rest (cstr ?nm @ tail_lines (names_from fs (i + 1)))
        (if length p + length (cstr ?nm) < bl then do {
           ob \<leftarrow> strcpy (p @ replicate (bl - length p) 0 @ rest) (length p) ?nm;
           list_loop fs (i + 1) ob bl (length p + length (cstr ?nm)) False }
         else Some (int (length p), p @ replicate (bl - length p) 0 @ rest))" if "length p < bl" for p
    proof (cases "length p + length (cstr ?nm) < bl")
      case fits: True
      have "listed (p @ cstr ?nm) bl rest (tail_lines (names_from fs (i + 1)))
        (list_loop fs (i + 1) ((p @ cstr ?nm) @ replicate (bl - length (p @ cstr ?nm)) 0 @ rest) bl (length (p @ cstr ?nm)) False)"
        using Suc(1) [OF i(2), of "p @ cstr ?nm" False] fits by simp
      from listed_extend [OF this] fits put_name [OF nm fits] show ?thesis by simp
    next
      case False
      with that listed_stop [of p "[]" bl "cstr ?nm @ tail_lines (names_from fs (i + 1))" rest] show ?thesis by simp
    qed
    show ?thesis
    proof (cases first)
      case f: True
      with body [OF Suc(3)] True i r names show ?thesis
        by (subst list_loop.simps) (simp add: strlen_cstr [OF nm] lines_def del: rd_eq_Some)
    next
      case nf: False
      show ?thesis
      proof (cases "length pre < bl - 1")
        case room: True
        have rep: "replicate (bl - length pre) (0 :: u8) = 0 # replicate (bl - length (pre @ [10 :: u8])) 0"
          using room by (simp flip: replicate_Suc)
        have w: "wr (pre @ replicate (bl - length pre) 0 @ rest) (length pre) 10 =
            Some ((pre @ [10]) @ replicate (bl - length (pre @ [10 :: u8])) 0 @ rest)"
          unfolding rep by (simp add: wr_def)
        have b: "length (pre @ [10]) < bl" using room by simp
        have "listed (pre @ [10]) bl rest (cstr ?nm @ tail_lines (names_from fs (i + 1)))
          (list_loop fs i (pre @ replicate (bl - length pre) 0 @ rest) bl (length pre) first)"
          using body [OF b] room True nf i r w
          by (subst list_loop.simps) (simp add: strlen_cstr [OF nm] del: rd_eq_Some wr_eq_Some cong: if_cong)
        from listed_extend [OF this] have "listed pre bl rest ([10] @ cstr ?nm @ tail_lines (names_from fs (i + 1)))
          (list_loop fs i (pre @ replicate (bl - length pre) 0 @ rest) bl (length pre) first)" .
        with nf True names show ?thesis by simp
      next
        case stop: False
        with True nf i r names Suc(3) listed_stop [of pre "[]" bl "10 # cstr ?nm @ tail_lines (names_from fs (i + 1))" rest]
        show ?thesis by (subst list_loop.simps) (simp del: rd_eq_Some)
      qed
    qed
  qed
qed

section \<open>The file store interface\<close>

text \<open>
  What the kernel's clients (the shell, the editor, the stdio layer and the user syscalls) rely on: a
  state with an invariant whose calls behave as the calls on the map. Sequences of calls follow.
\<close>

datatype fs_call = Write bytes bytes int | Delete bytes

definition valid_call :: "fs_call \<Rightarrow> bool" where
  "valid_call c = (case c of Write fn d dl \<Rightarrow> is_cstr fn \<and> nat dl \<le> length d | Delete fn \<Rightarrow> is_cstr fn)"

definition spec_call :: "fs_call \<Rightarrow> file_map \<Rightarrow> int \<times> file_map" where
  "spec_call c m = (case c of Write fn d dl \<Rightarrow> spec_write (cstr fn) d dl m | Delete fn \<Rightarrow> spec_delete (cstr fn) m)"

primrec spec_run :: "fs_call list \<Rightarrow> file_map \<Rightarrow> int list \<times> file_map" where
  "spec_run [] m = ([], m)"
| "spec_run (c # cs) m = (case spec_call c m of (r, m) \<Rightarrow> case spec_run cs m of (rs, m) \<Rightarrow> (r # rs, m))"

primrec run_calls :: "(bytes option \<Rightarrow> bytes option \<Rightarrow> int \<Rightarrow> 's \<Rightarrow> (int \<times> 's) option) \<Rightarrow>
    (bytes option \<Rightarrow> 's \<Rightarrow> (int \<times> 's) option) \<Rightarrow> fs_call list \<Rightarrow> 's \<Rightarrow> (int list \<times> 's) option" where
  "run_calls write_op delete_op [] s = Some ([], s)"
| "run_calls write_op delete_op (c # cs) s = do {
     (r, s) \<leftarrow> (case c of Write fn d dl \<Rightarrow> write_op (Some fn) (Some d) dl s | Delete fn \<Rightarrow> delete_op (Some fn) s);
     (rs, s) \<leftarrow> run_calls write_op delete_op cs s;
     Some (r # rs, s) }"

locale file_store =
  fixes inv :: "'s \<Rightarrow> bool" and abs :: "'s \<Rightarrow> file_map"
    and write_op :: "bytes option \<Rightarrow> bytes option \<Rightarrow> int \<Rightarrow> 's \<Rightarrow> (int \<times> 's) option"
    and delete_op :: "bytes option \<Rightarrow> 's \<Rightarrow> (int \<times> 's) option"
    and read_op :: "bytes option \<Rightarrow> bytes option \<Rightarrow> int \<Rightarrow> 's \<Rightarrow> (int \<times> bytes option) option"
  assumes write_refines: "inv s \<Longrightarrow> is_cstr fn \<Longrightarrow> nat dl \<le> length d \<Longrightarrow>
      \<exists>s'. write_op (Some fn) (Some d) dl s = Some (fst (spec_write (cstr fn) d dl (abs s)), s') \<and>
        inv s' \<and> abs s' = snd (spec_write (cstr fn) d dl (abs s))"
    and delete_refines: "inv s \<Longrightarrow> is_cstr fn \<Longrightarrow>
      \<exists>s'. delete_op (Some fn) s = Some (fst (spec_delete (cstr fn) (abs s)), s') \<and>
        inv s' \<and> abs s' = snd (spec_delete (cstr fn) (abs s))"
    and read_refines: "inv s \<Longrightarrow> is_cstr fn \<Longrightarrow> nat us \<le> length b \<Longrightarrow>
      read_op (Some fn) (Some b) us s = Some (apsnd Some (spec_read (cstr fn) b us (abs s)))"
begin

lemma run_refines:
  "inv s \<Longrightarrow> \<forall>c \<in> set cs. valid_call c \<Longrightarrow>
   \<exists>s'. run_calls write_op delete_op cs s = Some (fst (spec_run cs (abs s)), s') \<and>
     inv s' \<and> abs s' = snd (spec_run cs (abs s))"
proof (induction cs arbitrary: s)
  case (Cons c cs)
  obtain r m where rm: "spec_call c (abs s) = (r, m)" by fastforce
  have "\<exists>s'. (case c of Write fn d dl \<Rightarrow> write_op (Some fn) (Some d) dl s | Delete fn \<Rightarrow> delete_op (Some fn) s)
      = Some (r, s') \<and> inv s' \<and> abs s' = m"
    using Cons.prems rm write_refines [OF Cons.prems(1)] delete_refines [OF Cons.prems(1)]
    by (cases c) (fastforce simp: valid_call_def spec_call_def)+
  then obtain s' where s': "(case c of Write fn d dl \<Rightarrow> write_op (Some fn) (Some d) dl s | Delete fn \<Rightarrow> delete_op (Some fn) s)
      = Some (r, s')" "inv s'" "abs s' = m" by blast
  from Cons.IH [OF s'(2)] Cons.prems(2) obtain s'' where
    "run_calls write_op delete_op cs s' = Some (fst (spec_run cs m), s'')" "inv s''" "abs s'' = snd (spec_run cs m)"
    using s'(3) by auto
  with s' rm show ?case by (simp add: case_prod_beta)
qed simp

lemma write_then_read:
  assumes "inv s" "is_cstr fn" "nat dl \<le> length d" "write_op (Some fn) (Some d) dl s = Some (0, s')"
    "is_cstr fn'" "0 < us" "nat us \<le> length b"
  shows "read_op (Some fn') (Some b) us s' =
    (if cstr fn' = cstr fn then
       if us < dl then Some (-2, Some b) else Some (dl, Some (take (nat dl) d @ drop (nat dl) b))
     else read_op (Some fn') (Some b) us s)"
proof -
  from write_refines [OF assms(1-3)] assms(4)
  have s': "inv s'" "abs s' = snd (spec_write (cstr fn) d dl (abs s))" "fst (spec_write (cstr fn) d dl (abs s)) = 0"
    by auto
  then have a: "abs s' = (abs s)(cstr fn \<mapsto> take (nat dl) d)" and dl: "0 \<le> dl"
    by (auto simp: spec_write_def split: if_splits)
  have "length (take (nat dl) d) = nat dl" using assms(3) by simp
  with a dl assms(6) show ?thesis
    unfolding read_refines [OF s'(1) assms(5,7)] read_refines [OF assms(1,5,7)]
    by (auto simp: spec_read_def)
qed

lemma delete_then_read:
  assumes "inv s" "is_cstr fn" "delete_op (Some fn) s = Some (0, s')" "is_cstr fn'" "0 < us" "nat us \<le> length b"
  shows "read_op (Some fn') (Some b) us s' =
    (if cstr fn' = cstr fn then Some (-1, Some b) else read_op (Some fn') (Some b) us s)"
proof -
  from delete_refines [OF assms(1,2)] assms(3) have s': "inv s'" "abs s' = (abs s)(cstr fn := None)"
    by (auto simp: spec_delete_def split: if_splits)
  then show ?thesis
    unfolding read_refines [OF s'(1) assms(4,6)] read_refines [OF assms(1,4,6)]
    by (auto simp: spec_read_def)
qed

end

interpretation ramfs: file_store fs_wf fs_abs sys_write_file sys_delete_file sys_read_file
  by unfold_locales (fact sys_write_file_spec sys_delete_file_spec sys_read_file_spec)+

section \<open>Initialisation\<close>

definition slot_shape :: "file_t \<Rightarrow> bool" where
  "slot_shape f \<longleftrightarrow> length (f_name f) = MAX_FILENAME_LEN \<and> length (f_data f) = MAX_FILE_SIZE"

lemma fs_init_loop_spec:
  assumes "length fs = MAX_FILES" "\<forall>f \<in> set fs. slot_shape f" "\<forall>j < i. \<not> f_in_use (fs ! j) \<and> f_size (fs ! j) = 0" "i \<le> MAX_FILES"
  shows "\<exists>fs'. fs_init_loop fs i = Some fs' \<and> length fs' = MAX_FILES \<and> (\<forall>f \<in> set fs'. slot_shape f) \<and>
    (\<forall>j < MAX_FILES. \<not> f_in_use (fs' ! j) \<and> f_size (fs' ! j) = 0)"
  using assms
proof (induction "MAX_FILES - i" arbitrary: fs i)
  case 0
  then show ?case by (subst fs_init_loop.simps) simp
next
  case (Suc n)
  then have i: "i < MAX_FILES" by simp
  then have sh: "slot_shape (fs ! i)" using Suc.prems by simp
  define f where "f = (fs ! i)\<lparr>f_in_use := False, f_name := (f_name (fs ! i))[0 := 0], f_size := 0,
    f_data := replicate MAX_FILE_SIZE 0\<rparr>"
  have m: "memset (f_data (fs ! i)) 0 0 MAX_FILE_SIZE = Some (replicate MAX_FILE_SIZE 0)"
    using sh memset_eq [of 0 MAX_FILE_SIZE "f_data (fs ! i)" 0] by (simp add: slot_shape_def)
  have n: "wr (f_name (fs ! i)) 0 0 = Some ((f_name (fs ! i))[0 := 0])"
    using sh by (auto simp: slot_shape_def)
  have "fs_init_loop fs i = fs_init_loop (fs[i := f]) (i + 1)"
    using i Suc.prems by (subst fs_init_loop.simps) (simp add: rd_Some wr_Some [of i fs] m n f_def del: wr_eq_Some)
  moreover have "slot_shape f" using sh by (simp add: slot_shape_def f_def)
  then have "\<forall>g \<in> set (fs[i := f]). slot_shape g"
    using Suc.prems(2) set_update_subset_insert [of fs i f] by auto
  moreover have "\<forall>j < i + 1. \<not> f_in_use (fs[i := f] ! j) \<and> f_size (fs[i := f] ! j) = 0"
    using Suc.prems i by (auto simp: nth_list_update f_def less_Suc_eq)
  ultimately show ?case using Suc.hyps(1) [of "i + 1" "fs[i := f]"] Suc.hyps(2) Suc.prems i by simp
qed

lemma fs_init_spec:
  assumes "length fs = MAX_FILES" "\<forall>f \<in> set fs. slot_shape f"
  shows "\<exists>fs'. fs_init fs = Some fs' \<and> fs_wf fs' \<and> fs_abs fs' = Map.empty"
proof -
  from fs_init_loop_spec [OF assms, of 0] obtain fs' where fs': "fs_init fs = Some fs'" "length fs' = MAX_FILES"
    "\<forall>f \<in> set fs'. slot_shape f" "\<forall>j < MAX_FILES. \<not> f_in_use (fs' ! j) \<and> f_size (fs' ! j) = 0"
    by (auto simp: fs_init_def)
  then have wf: "fs_wf fs'" by (auto simp: fs_wf_def file_wf_def slot_shape_def in_set_conv_nth)
  moreover have "fs_abs fs' nm = None" for nm
    using fs_abs_None_iff [OF wf] fs'(4) by (simp add: named_def)
  ultimately show ?thesis using fs'(1) by auto
qed

section \<open>Properties of the system calls\<close>

definition blank_fs :: fs where
  "blank_fs = replicate MAX_FILES \<lparr>f_name = replicate 32 0, f_data = replicate 16384 0, f_size = 0, f_in_use = False\<rparr>"

lemma blank_fs_wf: "fs_wf blank_fs" and blank_fs_abs: "fs_abs blank_fs = Map.empty"
  and blank_fs_shape: "length blank_fs = MAX_FILES" "\<forall>f \<in> set blank_fs. slot_shape f"
proof -
  have n: "blank_fs ! i = \<lparr>f_name = replicate 32 0, f_data = replicate 16384 0, f_size = 0, f_in_use = False\<rparr>"
    if "i < MAX_FILES" for i using that unfolding blank_fs_def by (rule nth_replicate)
  have s: "f \<in> set blank_fs \<Longrightarrow> f = \<lparr>f_name = replicate 32 0, f_data = replicate 16384 0, f_size = 0, f_in_use = False\<rparr>"
    for f unfolding blank_fs_def by (simp only: in_set_replicate)
  show l: "length blank_fs = MAX_FILES" by (simp only: blank_fs_def length_replicate)
  show "\<forall>f \<in> set blank_fs. slot_shape f" by (auto dest!: s simp only: slot_shape_def file_t.simps length_replicate)
  show wf: "fs_wf blank_fs"
    unfolding fs_wf_def using l n by (auto dest!: s simp: file_wf_def)
  show "fs_abs blank_fs = Map.empty"
    using fs_abs_None_iff [OF wf] n by (auto simp: named_def)
qed

text \<open>C18: the file system is the finite map it means to be. From \<^verbatim>\<open>fs_init\<close>, every sequence of writes and
  deletes with valid pointers stays inside its objects, keeps the slot invariant (terminated names, no
  two slots with one name), and returns exactly the codes and contents of the abstract map with room
  for sixteen files.\<close>

theorem fs_calls_refine_map:
  assumes "length fs0 = MAX_FILES" "\<forall>f \<in> set fs0. slot_shape f" "\<forall>c \<in> set cs. valid_call c"
  shows "\<exists>fs fs'. fs_init fs0 = Some fs \<and>
    run_calls sys_write_file sys_delete_file cs fs = Some (fst (spec_run cs Map.empty), fs') \<and>
    fs_wf fs' \<and> fs_abs fs' = snd (spec_run cs Map.empty)"
proof -
  obtain fs where fs: "fs_init fs0 = Some fs" "fs_wf fs" "fs_abs fs = Map.empty"
    using fs_init_spec [OF assms(1,2)] by blast
  with ramfs.run_refines [OF fs(2) assms(3)] show ?thesis by simp
qed

theorem fs_calls_refine_map_witness:
  "\<exists>fs fs'. fs_init blank_fs = Some fs \<and>
    run_calls sys_write_file sys_delete_file [Write [97, 0] [1, 2] 2, Delete [97, 0], Delete [97, 0]] fs =
      Some (fst (spec_run [Write [97, 0] [1, 2] 2, Delete [97, 0], Delete [97, 0]] Map.empty), fs') \<and>
    fs_wf fs' \<and> fs_abs fs' = snd (spec_run [Write [97, 0] [1, 2] 2, Delete [97, 0], Delete [97, 0]] Map.empty)"
  by (rule fs_calls_refine_map [OF blank_fs_shape]) (simp add: valid_call_def)

text \<open>Write then read. After a write that returned 0, reading that name returns the length and the bytes
  written (or -2 and an untouched buffer when it is too small), and reading any other name returns what
  it returned before.\<close>

lemma sys_write_then_read:
  assumes "fs_wf fs" "is_cstr fn" "nat dl \<le> length d" "sys_write_file (Some fn) (Some d) dl fs = Some (0, fs')"
    "is_cstr fn'" "0 < us" "nat us \<le> length b"
  shows "sys_read_file (Some fn') (Some b) us fs' =
    (if cstr fn' = cstr fn then
       if us < dl then Some (-2, Some b) else Some (dl, Some (take (nat dl) d @ drop (nat dl) b))
     else sys_read_file (Some fn') (Some b) us fs)"
  by (rule ramfs.write_then_read [OF assms])

lemma sys_write_then_read_example:
  "\<exists>fs'. sys_write_file (Some [97, 0]) (Some [5, 6]) 2 blank_fs = Some (0, fs') \<and>
    sys_read_file (Some [97, 0, 1]) (Some [8, 8, 8]) 3 fs' = Some (2, Some [5, 6, 8])"
proof -
  obtain fs' where "sys_write_file (Some [97, 0]) (Some [5, 6]) 2 blank_fs = Some (0, fs')"
    using sys_write_file_spec [OF blank_fs_wf, of "[97, 0]" 2 "[5, 6]"] by (auto simp: spec_write_def blank_fs_abs)
  with sys_write_then_read [OF blank_fs_wf _ _ this, of "[97, 0, 1]" 3 "[8, 8, 8]"] show ?thesis by simp
qed

text \<open>Delete. After a delete that returned 0 the name is gone and every other file reads as before.\<close>

lemma sys_delete_then_read:
  assumes "fs_wf fs" "is_cstr fn" "sys_delete_file (Some fn) fs = Some (0, fs')" "is_cstr fn'" "0 < us" "nat us \<le> length b"
  shows "sys_read_file (Some fn') (Some b) us fs' =
    (if cstr fn' = cstr fn then Some (-1, Some b) else sys_read_file (Some fn') (Some b) us fs)"
  by (rule ramfs.delete_then_read [OF assms])

lemma sys_delete_then_read_example:
  "\<exists>fs fs'. sys_write_file (Some [97, 0]) (Some [5, 6]) 2 blank_fs = Some (0, fs) \<and>
    sys_delete_file (Some [97, 0]) fs = Some (0, fs') \<and>
    sys_read_file (Some [97, 0]) (Some [8, 8, 8]) 3 fs' = Some (-1, Some [8, 8, 8])"
proof -
  obtain fs where fs: "sys_write_file (Some [97, 0]) (Some [5, 6]) 2 blank_fs = Some (0, fs)" "fs_wf fs"
    "fs_abs fs = [[97] \<mapsto> [5, 6]]"
    using sys_write_file_spec [OF blank_fs_wf, of "[97, 0]" 2 "[5, 6]"] by (auto simp: spec_write_def blank_fs_abs)
  moreover obtain fs' where "sys_delete_file (Some [97, 0]) fs = Some (0, fs')"
    using sys_delete_file_spec [OF fs(2), of "[97, 0]"] by (auto simp: spec_delete_def fs(3))
  moreover from sys_delete_then_read [OF fs(2) _ this, of "[97, 0]" 3 "[8, 8, 8]"]
  have "sys_read_file (Some [97, 0]) (Some [8, 8, 8]) 3 fs' = Some (-1, Some [8, 8, 8])" by simp
  ultimately show ?thesis by blast
qed

lemma sys_list_files_spec:
  assumes "fs_wf fs" "0 < bl" "nat bl \<le> length b"
  shows "\<exists>s t. lines (names_from fs 0) = s @ t \<and> length s < nat bl \<and>
    sys_list_files (Some b) bl fs =
      Some (int (length s), Some (s @ replicate (nat bl - length s) 0 @ drop (nat bl) b)) \<and>
    (length (lines (names_from fs 0)) < nat bl \<longrightarrow> t = [])"
proof -
  have m: "memset b 0 0 (nat bl) = Some (replicate (nat bl) 0 @ drop (nat bl) b)"
    using memset_eq [of 0 "nat bl" b 0] assms(3) by simp
  have "listed [] (nat bl) (drop (nat bl) b) (lines (names_from fs 0))
      (list_loop fs 0 (replicate (nat bl) 0 @ drop (nat bl) b) (nat bl) 0 True)"
    using list_loop_spec [OF assms(1), of "[]" "nat bl" "drop (nat bl) b" True 0] assms(2) by simp
  then show ?thesis using m assms(2)
    unfolding listed_def by (fastforce simp: sys_list_files_def)
qed

text \<open>The listing. \<^verbatim>\<open>sys_list_files\<close> writes only inside the \<^verbatim>\<open>bl\<close> bytes it is given, always terminates the
  text, returns its length, and the text is a prefix of the names in slot order separated by newlines;
  it is the whole of it whenever that fits.\<close>

lemma sys_list_files_correct:
  assumes "fs_wf fs" "0 < bl" "nat bl \<le> length b"
  shows "\<exists>s t. lines (names_from fs 0) = s @ t \<and> length s < nat bl \<and>
    sys_list_files (Some b) bl fs =
      Some (int (length s), Some (s @ replicate (nat bl - length s) 0 @ drop (nat bl) b)) \<and>
    (length (lines (names_from fs 0)) < nat bl \<longrightarrow> t = [])"
  by (rule sys_list_files_spec [OF assms])

lemma sys_list_files_correct_example:
  "\<exists>s t. lines (names_from blank_fs 0) = s @ t \<and> length s < nat 2 \<and>
    sys_list_files (Some [7, 7, 7]) 2 blank_fs =
      Some (int (length s), Some (s @ replicate (nat 2 - length s) 0 @ drop (nat 2) [7, 7, 7])) \<and>
    (length (lines (names_from blank_fs 0)) < nat 2 \<longrightarrow> t = [])"
  by (rule sys_list_files_correct [OF blank_fs_wf]) simp_all

end
