(* ===== verification/Isolation.thy ===== *)
theory Isolation
  imports Filesystem
begin

text \<open>
  Process isolation, \<^verbatim>\<open>src/jordyOS/isolation.c\<close>: the page tables of a process, the pointer checks of the
  system calls and the system calls themselves. Addresses are naturals below \<open>2 ^ 64\<close>; the source checks
  before every addition that could wrap, so those checks are written out. The user image is generated by
  the build and is an argument.
\<close>

section \<open>Layout\<close>

abbreviation (input) PAGE :: nat where "PAGE \<equiv> 4096"
abbreviation (input) PTE_P :: u64 where "PTE_P \<equiv> 1"
abbreviation (input) PTE_W :: u64 where "PTE_W \<equiv> 2"
abbreviation (input) PTE_U :: u64 where "PTE_U \<equiv> 4"
abbreviation (input) PTE_NX :: u64 where "PTE_NX \<equiv> 0x8000000000000000"
abbreviation (input) SLOTS :: nat where "SLOTS \<equiv> 2"
abbreviation (input) USER_BASE :: nat where "USER_BASE \<equiv> 0x40000000"
abbreviation (input) USER_IMAGE_LIMIT :: nat where "USER_IMAGE_LIMIT \<equiv> 0x800000"
abbreviation (input) USER_STARTUP :: nat where "USER_STARTUP \<equiv> 0x40800000"
abbreviation (input) USER_STACK_BOTTOM :: nat where "USER_STACK_BOTTOM \<equiv> 0x40802000"
abbreviation (input) USER_STACK_SIZE :: nat where "USER_STACK_SIZE \<equiv> 0x40000"
abbreviation (input) USER_STACK_TOP :: nat where "USER_STACK_TOP \<equiv> 0x40842000"
abbreviation (input) MARKER :: nat where "MARKER \<equiv> 0x407ff000"
abbreviation (input) UINTPTR_MAX :: nat where "UINTPTR_MAX \<equiv> 0xffffffffffffffff"

record UserStartup =
  su_mode :: nat
  su_peer_address :: nat
  su_marker_address :: nat
  su_command :: bytes

record Process =
  p_base :: nat \<comment> \<open>address of the structure\<close>
  p_pml4 :: "u64 list"
  p_pdpt :: "u64 list"
  p_pd :: "u64 list"
  p_pt :: "u64 list list"
  p_memory :: bytes
  p_startup :: UserStartup
  p_stack :: bytes

text \<open>Addresses of the members, in the order of the structure: eight table pages, image, startup, stack.\<close>

definition pdpt_at :: "Process \<Rightarrow> nat" where "pdpt_at p = p_base p + 0x1000"
definition pd_at :: "Process \<Rightarrow> nat" where "pd_at p = p_base p + 0x2000"
definition pt_at :: "Process \<Rightarrow> nat \<Rightarrow> nat" where "pt_at p i = p_base p + 0x3000 + i * 0x1000"
definition memory_at :: "Process \<Rightarrow> nat" where "memory_at p = p_base p + 0x8000"
definition startup_at :: "Process \<Rightarrow> nat" where "startup_at p = p_base p + 0x808000"
definition stack_at :: "Process \<Rightarrow> nat" where "stack_at p = p_base p + 0x809000"

abbreviation (input) PROCESS_SIZE :: nat where "PROCESS_SIZE \<equiv> 0x849000"

definition process_at :: "nat \<Rightarrow> nat \<Rightarrow> nat" where
  "process_at processes slot = processes + slot * PROCESS_SIZE"

record UserSegment =
  sg_offset :: nat
  sg_memory_size :: nat
  sg_file_size :: nat
  sg_payload_offset :: nat
  sg_flags :: u32

section \<open>Building the page tables\<close>

definition map_page :: "Process \<Rightarrow> nat \<Rightarrow> nat \<Rightarrow> u64 \<Rightarrow> Process option" where
  "map_page p address physical flags =
     (if address < USER_BASE then None
      else let offset = address - USER_BASE in do {
        t \<leftarrow> rd (p_pt p) (offset div 0x200000);
        t \<leftarrow> wr t (offset div 0x1000 mod 512) (of_nat physical OR PTE_P OR PTE_U OR flags);
        pt \<leftarrow> wr (p_pt p) (offset div 0x200000) t;
        Some (p\<lparr>p_pt := pt\<rparr>) })"

text \<open>The page loops: \<open>map_range p va pa n k flags\<close> maps the pages at offsets \<open>k, k + PAGE, \<dots>\<close> below \<open>n\<close>.\<close>

function map_range :: "Process \<Rightarrow> nat \<Rightarrow> nat \<Rightarrow> nat \<Rightarrow> nat \<Rightarrow> u64 \<Rightarrow> Process option" where
  "map_range p va pa n k flags =
     (if k < n then do { p \<leftarrow> map_page p (va + k) (pa + k) flags; map_range p va pa n (k + PAGE) flags }
      else Some p)"
  by pat_completeness auto
termination
  by (relation "measure (\<lambda>(p, va, pa, n, k, flags). n - k)") auto

declare map_range.simps [simp del]

definition segment_flags :: "UserSegment \<Rightarrow> u64" where
  "segment_flags s = (if sg_flags s AND 2 \<noteq> 0 then PTE_W else 0) OR (if sg_flags s AND 1 \<noteq> 0 then 0 else PTE_NX)"

fun load_segments :: "Process \<Rightarrow> bytes \<Rightarrow> UserSegment list \<Rightarrow> Process option" where
  "load_segments p payload [] = Some p"
| "load_segments p payload (s # ss) = do {
     mem \<leftarrow> memcpy (p_memory p) (sg_offset s) payload (sg_payload_offset s) (sg_file_size s);
     p \<leftarrow> map_range (p\<lparr>p_memory := mem\<rparr>) (USER_BASE + sg_offset s) (memory_at p + sg_offset s)
       (sg_memory_size s) 0 (segment_flags s);
     load_segments p payload ss }"

abbreviation (input) UMODE_PEER_READ :: nat where "UMODE_PEER_READ \<equiv> 4"
abbreviation (input) UMODE_PEER_WRITE :: nat where "UMODE_PEER_WRITE \<equiv> 5"

definition clear_process :: "nat \<Rightarrow> Process" where
  "clear_process base = \<lparr>p_base = base, p_pml4 = replicate 512 0, p_pdpt = replicate 512 0, p_pd = replicate 512 0,
     p_pt = replicate 5 (replicate 512 0), p_memory = replicate USER_IMAGE_LIMIT 0,
     p_startup = \<lparr>su_mode = 0, su_peer_address = 0, su_marker_address = 0, su_command = replicate 96 0\<rparr>,
     p_stack = replicate USER_STACK_SIZE 0\<rparr>"

definition link_tables :: "Process \<Rightarrow> Process" where
  "link_tables p = p\<lparr>
     p_pml4 := (p_pml4 p)[0 := of_nat (pdpt_at p) OR PTE_P OR PTE_W OR PTE_U],
     p_pdpt := (p_pdpt p)[0 := 0x82000 OR PTE_P OR PTE_W, 1 := of_nat (pd_at p) OR PTE_P OR PTE_W OR PTE_U],
     p_pd := foldl (\<lambda>pd i. pd[i := of_nat (pt_at p i) OR PTE_P OR PTE_W OR PTE_U]) (p_pd p) [0..<5]\<rparr>"

text \<open>\<open>processes\<close> is the address of the process array, \<open>slot\<close> the index of the process in it.\<close>

definition fill_startup :: "nat \<Rightarrow> nat \<Rightarrow> nat \<Rightarrow> bytes option \<Rightarrow> UserStartup \<Rightarrow> UserStartup option" where
  "fill_startup processes slot mode command startup = do {
     let su = startup\<lparr>su_mode := mode, su_marker_address := MARKER\<rparr>;
     let su = (if mode = UMODE_PEER_READ \<or> mode = UMODE_PEER_WRITE
               then su\<lparr>su_peer_address := process_at processes (if slot = 0 then 1 else 0) + 0x8000 + USER_IMAGE_LIMIT - PAGE\<rparr>
               else su);
     (case command of None \<Rightarrow> Some su
      | Some c \<Rightarrow> do { cmd \<leftarrow> strncpy (su_command su) c 95; Some (su\<lparr>su_command := cmd\<rparr>) }) }"

definition prepare :: "bytes \<Rightarrow> UserSegment list \<Rightarrow> nat \<Rightarrow> nat \<Rightarrow> nat \<Rightarrow> bytes option \<Rightarrow> Process option" where
  "prepare payload segments processes slot mode command = do {
     p \<leftarrow> load_segments (link_tables (clear_process (process_at processes slot))) payload segments;
     p \<leftarrow> map_page p MARKER (memory_at p + USER_IMAGE_LIMIT - PAGE) (PTE_W OR PTE_NX);
     p \<leftarrow> map_page p USER_STARTUP (startup_at p) PTE_NX;
     p \<leftarrow> map_range p USER_STACK_BOTTOM (stack_at p) USER_STACK_SIZE 0 (PTE_W OR PTE_NX);
     su \<leftarrow> fill_startup processes slot mode command (p_startup p);
     Some (p\<lparr>p_startup := su\<rparr>) }"

section \<open>Checked access to user memory\<close>

definition pte :: "Process \<Rightarrow> nat \<Rightarrow> u64 option" where
  "pte p page = (let offset = page - USER_BASE in do {
     t \<leftarrow> rd (p_pt p) (offset div 0x200000); rd t (offset div 0x1000 mod 512) })"

function range_loop :: "Process \<Rightarrow> nat \<Rightarrow> nat \<Rightarrow> bool \<Rightarrow> bool option" where
  "range_loop p page last_byte wrt =
     (if page \<le> last_byte then do {
        entry \<leftarrow> pte p page;
        if entry AND (PTE_P OR PTE_U) \<noteq> PTE_P OR PTE_U \<or> (wrt \<and> entry AND PTE_W = 0) then Some False
        else range_loop p (page + PAGE) last_byte wrt }
      else Some True)"
  by pat_completeness auto
termination
  by (relation "measure (\<lambda>(p, page, last_byte, wrt). Suc last_byte - page)") auto

declare range_loop.simps [simp del]

definition user_range :: "Process option \<Rightarrow> nat \<Rightarrow> nat \<Rightarrow> bool \<Rightarrow> bool option" where
  "user_range active address sz wrt =
     (if sz = 0 then Some True
      else case active of None \<Rightarrow> Some False
      | Some p \<Rightarrow>
          if address < USER_BASE \<or> address \<ge> USER_STACK_TOP \<or> sz > USER_STACK_TOP - address then Some False
          else range_loop p (address - address mod PAGE) (address + sz - 1) wrt)"

text \<open>\<open>umem\<close> is the memory the active process sees. A user string is copied byte by byte into a kernel buffer.\<close>

function user_string_loop :: "Process option \<Rightarrow> (nat \<Rightarrow> u8) \<Rightarrow> bytes \<Rightarrow> nat \<Rightarrow> nat \<Rightarrow> nat \<Rightarrow> (bool \<times> bytes) option" where
  "user_string_loop active umem out source capacity i =
     (if i < capacity then
        if source > UINTPTR_MAX - i then Some (False, out) else do {
          ok \<leftarrow> user_range active (source + i) 1 False;
          if \<not> ok then Some (False, out)
          else do {
            out \<leftarrow> wr out i (umem (source + i));
            if umem (source + i) = 0 then Some (True, out)
            else user_string_loop active umem out source capacity (i + 1) }}
      else Some (False, out))"
  by pat_completeness auto
termination
  by (relation "measure (\<lambda>(active, umem, out, source, capacity, i). capacity - i)") auto

declare user_string_loop.simps [simp del]

definition user_string :: "Process option \<Rightarrow> (nat \<Rightarrow> u8) \<Rightarrow> bytes \<Rightarrow> nat \<Rightarrow> nat \<Rightarrow> (bool \<times> bytes) option" where
  "user_string active umem out source capacity = user_string_loop active umem out source capacity 0"

section \<open>System calls\<close>

text \<open>
  The console, screen, network and timer services the handler calls act on a device state; they are given
  as a record of functions. \<open>sv_readline\<close> takes the limit and the buffer and returns the filled buffer.
  A service that does not return, or that leaves its objects, is \<open>None\<close>.
\<close>

record 'd services =
  sv_write :: "bytes \<Rightarrow> 'd \<Rightarrow> 'd option"
  sv_readline :: "nat \<Rightarrow> bytes \<Rightarrow> 'd \<Rightarrow> (bytes \<times> 'd) option"
  sv_getc :: "'d \<Rightarrow> (u8 \<times> 'd) option"
  sv_pollc :: "'d \<Rightarrow> (u8 \<times> 'd) option"
  sv_rtl_poll :: "'d \<Rightarrow> 'd option"
  sv_clear :: "'d \<Rightarrow> 'd option"
  sv_paint :: "int \<Rightarrow> int \<Rightarrow> int \<Rightarrow> int \<Rightarrow> int \<Rightarrow> 'd \<Rightarrow> 'd option"
  sv_drawtext :: "int \<Rightarrow> int \<Rightarrow> bytes \<Rightarrow> int \<Rightarrow> 'd \<Rightarrow> 'd option"
  sv_terminal :: "bytes \<Rightarrow> 'd \<Rightarrow> 'd option"
  sv_wait :: "nat \<Rightarrow> 'd \<Rightarrow> 'd option"

record 'd kstate =
  k_fs :: fs
  k_umem :: "nat \<Rightarrow> u8"
  k_io :: bytes \<comment> \<open>\<^verbatim>\<open>io_buffer\<close>\<close>
  k_rejected :: u32
  k_pid :: u32
  k_dev :: 'd

record frame =
  fr_rax :: nat
  fr_rdi :: nat
  fr_rsi :: nat
  fr_rdx :: nat
  fr_rcx :: nat
  fr_r8 :: nat

definition s64 :: "nat \<Rightarrow> int" where
  "s64 n = (if n < 2 ^ 63 then int n else int n - 2 ^ 64)"

definition put_user :: "(nat \<Rightarrow> u8) \<Rightarrow> nat \<Rightarrow> bytes \<Rightarrow> nat \<Rightarrow> u8" where
  "put_user umem a bs x = (if a \<le> x \<and> x < a + length bs then bs ! (x - a) else umem x)"

definition get_user :: "(nat \<Rightarrow> u8) \<Rightarrow> nat \<Rightarrow> nat \<Rightarrow> bytes" where
  "get_user umem a n = map (\<lambda>i. umem (a + i)) [0..<n]"

text \<open>The \<^verbatim>\<open>break\<close> of the switch.\<close>

definition reject :: "'d kstate \<Rightarrow> (int \<times> 'd kstate) option" where
  "reject st = Some (-1, st\<lparr>k_rejected := k_rejected st + 1\<rparr>)"

text \<open>A case that calls one service and returns 0.\<close>

definition serve :: "('d \<Rightarrow> 'd option) \<Rightarrow> 'd kstate \<Rightarrow> (int \<times> 'd kstate) option" where
  "serve f st = do { dev \<leftarrow> f (k_dev st); Some (0, st\<lparr>k_dev := dev\<rparr>) }"

definition serve_key :: "('d \<Rightarrow> (u8 \<times> 'd) option) \<Rightarrow> 'd kstate \<Rightarrow> (int \<times> 'd kstate) option" where
  "serve_key f st = do { (ch, dev) \<leftarrow> f (k_dev st); Some (int (unat ch), st\<lparr>k_dev := dev\<rparr>) }"

definition text_buffer :: bytes where "text_buffer = replicate 2048 0"
definition name_buffer :: bytes where "name_buffer = replicate 32 0"

definition usys_write :: "'d services \<Rightarrow> Process option \<Rightarrow> nat \<Rightarrow> 'd kstate \<Rightarrow> (int \<times> 'd kstate) option" where
  "usys_write sv active a st = do {
     (ok, s) \<leftarrow> user_string active (k_umem st) text_buffer a 2048;
     if \<not> ok then reject st else serve (sv_write sv s) st }"

definition usys_readline :: "'d services \<Rightarrow> Process option \<Rightarrow> nat \<Rightarrow> nat \<Rightarrow> 'd kstate \<Rightarrow> (int \<times> 'd kstate) option" where
  "usys_readline sv active a b st =
     (if b = 0 \<or> b > 2048 then reject st else do {
        ok \<leftarrow> user_range active a b True;
        if \<not> ok then reject st
        else do {
          (s, dev) \<leftarrow> sv_readline sv b text_buffer (k_dev st);
          n \<leftarrow> strlen s; line \<leftarrow> slice s 0 (n + 1);
          Some (0, st\<lparr>k_umem := put_user (k_umem st) a line, k_dev := dev\<rparr>) } })"

definition usys_files :: "Process option \<Rightarrow> nat \<Rightarrow> nat \<Rightarrow> 'd kstate \<Rightarrow> (int \<times> 'd kstate) option" where
  "usys_files active a b st =
     (if b = 0 \<or> b > MAX_FILES * (MAX_FILENAME_LEN + 1) then reject st else do {
        ok \<leftarrow> user_range active a b True;
        if \<not> ok then reject st else do {
          (n, out) \<leftarrow> sys_list_files (Some text_buffer) (int b) (k_fs st);
          if n \<ge> 0 then do {
            s \<leftarrow> out; bs \<leftarrow> slice s 0 (nat n + 1);
            Some (n, st\<lparr>k_umem := put_user (k_umem st) a bs\<rparr>) }
          else Some (n, st) }})"

definition usys_read_file :: "Process option \<Rightarrow> nat \<Rightarrow> nat \<Rightarrow> nat \<Rightarrow> 'd kstate \<Rightarrow> (int \<times> 'd kstate) option" where
  "usys_read_file active a b c st =
     (if c > MAX_FILE_SIZE then reject st else do {
        (ok, name) \<leftarrow> user_string active (k_umem st) name_buffer a 32;
        if \<not> ok then reject st else do {
          ok \<leftarrow> user_range active b c True;
          if \<not> ok then reject st else do {
            (n, io) \<leftarrow> sys_read_file (Some name) (Some (k_io st)) (int c) (k_fs st);
            io \<leftarrow> io;
            if n \<ge> 0 then do {
              bs \<leftarrow> slice io 0 (nat n);
              Some (n, st\<lparr>k_io := io, k_umem := put_user (k_umem st) b bs\<rparr>) }
            else Some (n, st\<lparr>k_io := io\<rparr>) }}})"

definition usys_write_file :: "Process option \<Rightarrow> nat \<Rightarrow> nat \<Rightarrow> nat \<Rightarrow> 'd kstate \<Rightarrow> (int \<times> 'd kstate) option" where
  "usys_write_file active a b c st =
     (if c > MAX_FILE_SIZE then reject st else do {
        (ok, name) \<leftarrow> user_string active (k_umem st) name_buffer a 32;
        if \<not> ok then reject st else do {
          ok \<leftarrow> user_range active b c False;
          if \<not> ok then reject st else do {
            io \<leftarrow> splice (k_io st) 0 (get_user (k_umem st) b c);
            (r, fs) \<leftarrow> sys_write_file (Some name) (Some io) (int c) (k_fs st);
            Some (r, st\<lparr>k_io := io, k_fs := fs\<rparr>) }}})"

definition usys_delete_file :: "Process option \<Rightarrow> nat \<Rightarrow> 'd kstate \<Rightarrow> (int \<times> 'd kstate) option" where
  "usys_delete_file active a st = do {
     (ok, name) \<leftarrow> user_string active (k_umem st) name_buffer a 32;
     if \<not> ok then reject st else do {
       (r, fs) \<leftarrow> sys_delete_file (Some name) (k_fs st);
       Some (r, st\<lparr>k_fs := fs\<rparr>) }}"

definition usys_paint :: "'d services \<Rightarrow> 'a frame_scheme \<Rightarrow> 'd kstate \<Rightarrow> (int \<times> 'd kstate) option" where
  "usys_paint sv f st = (let a = s64 (fr_rdi f); b = s64 (fr_rsi f); c = fr_rdx f; d = fr_rcx f; e = fr_r8 f in
     if a < -320 \<or> a > 320 \<or> b < -200 \<or> b > 200 \<or> c > 640 \<or> d > 400 \<or> e > 9 then reject st
     else serve (sv_paint sv a b (int c) (int d) (int e)) st)"

definition usys_drawtext :: "'d services \<Rightarrow> Process option \<Rightarrow> 'a frame_scheme \<Rightarrow> 'd kstate \<Rightarrow> (int \<times> 'd kstate) option" where
  "usys_drawtext sv active f st = (let a = s64 (fr_rdi f); b = s64 (fr_rsi f); d = fr_rcx f in
     if a < -320 \<or> a > 320 \<or> b < 0 \<or> b > 192 \<or> d > 9 then reject st else do {
       (ok, s) \<leftarrow> user_string active (k_umem st) text_buffer (fr_rdx f) 2048;
       if \<not> ok then reject st else serve (sv_drawtext sv a b s (int d)) st })"

definition usys_terminal :: "'d services \<Rightarrow> Process option \<Rightarrow> nat \<Rightarrow> 'd kstate \<Rightarrow> (int \<times> 'd kstate) option" where
  "usys_terminal sv active a st = do {
     (ok, s) \<leftarrow> user_string active (k_umem st) text_buffer a 38;
     if \<not> ok then reject st else serve (sv_terminal sv s) st }"

definition usys_wait :: "'d services \<Rightarrow> nat \<Rightarrow> 'd kstate \<Rightarrow> (int \<times> 'd kstate) option" where
  "usys_wait sv a st = (if a = 0 \<or> a > 1000 then reject st else serve (sv_wait sv a) st)"

text \<open>The switch; the numbers are the values of the enumeration in \<^verbatim>\<open>user/abi.h\<close>.\<close>

definition syscall :: "'d services \<Rightarrow> Process option \<Rightarrow> 'a frame_scheme \<Rightarrow> 'd kstate \<Rightarrow> (int \<times> 'd kstate) option" where
  "syscall sv active f st = (let a = fr_rdi f; b = fr_rsi f; c = fr_rdx f; n = fr_rax f in
     if n = 1 then usys_write sv active a st
     else if n = 2 then usys_readline sv active a b st
     else if n = 3 then serve_key (sv_getc sv) st
     else if n = 4 then serve_key (sv_pollc sv) st
     else if n = 5 then serve (sv_rtl_poll sv) st
     else if n = 6 then serve (sv_clear sv) st
     else if n = 7 then usys_files active a b st
     else if n = 8 then usys_read_file active a b c st
     else if n = 9 then usys_write_file active a b c st
     else if n = 10 then usys_delete_file active a st
     else if n = 11 then usys_paint sv f st
     else if n = 12 then usys_drawtext sv active f st
     else if n = 13 then usys_terminal sv active a st
     else if n = 14 then usys_wait sv a st
     else if n = 15 then Some (int (unat (k_pid st)), st)
     else reject st)"

section \<open>The pointer check grants exactly mapped user pages\<close>

definition tables_wf :: "Process \<Rightarrow> bool" where
  "tables_wf p \<longleftrightarrow> length (p_pt p) = 5 \<and> (\<forall>t \<in> set (p_pt p). length t = 512)"

definition in_user :: "nat \<Rightarrow> bool" where
  "in_user x \<longleftrightarrow> USER_BASE \<le> x \<and> x < USER_STACK_TOP"

text \<open>What the hardware grants to ring 3 at address \<open>x\<close>: a present user page, writable for a write.\<close>

definition grants :: "Process \<Rightarrow> bool \<Rightarrow> nat \<Rightarrow> bool" where
  "grants p wrt x \<longleftrightarrow> in_user x \<and> (case pte p (x - x mod PAGE) of None \<Rightarrow> False
     | Some e \<Rightarrow> bit e 0 \<and> bit e 2 \<and> (wrt \<longrightarrow> bit e 1))"

lemma pte_defined: "tables_wf p \<Longrightarrow> in_user x \<Longrightarrow> pte p x = Some (p_pt p ! ((x - USER_BASE) div 0x200000) ! ((x - USER_BASE) div 0x1000 mod 512))"
proof -
  assume wf: "tables_wf p" and x: "in_user x"
  then have "(x - USER_BASE) div 0x200000 < 5" by (auto simp: in_user_def less_mult_imp_div_less)
  then show ?thesis using wf by (simp add: pte_def rd_def tables_wf_def Let_def)
qed

lemma pte_bits:
  "e AND (PTE_P OR PTE_U) = PTE_P OR PTE_U \<longleftrightarrow> bit e 0 \<and> bit e 2" "e AND PTE_W = 0 \<longleftrightarrow> \<not> bit e 1" for e :: u64
proof -
  have b: "bit (5 :: u64) n \<longleftrightarrow> n = 0 \<or> n = 2" for n
    by (auto simp: bit_numeral_rec bit_1_iff split: nat.splits)
  have "e AND 5 = 5 \<longleftrightarrow> bit e 0 \<and> bit e 2"
    by (simp only: bit_eq_iff [of "e AND 5"] bit_and_iff b) (auto dest: spec [of _ 0] spec [of _ 2])
  then show "e AND (PTE_P OR PTE_U) = PTE_P OR PTE_U \<longleftrightarrow> bit e 0 \<and> bit e 2" by simp
  have "e AND 2 = 0 \<longleftrightarrow> \<not> bit e 1" using and_exp_eq_0_iff_not_bit [of e 1] by simp
  then show "e AND PTE_W = 0 \<longleftrightarrow> \<not> bit e 1" .
qed

lemma page_of: "page mod PAGE = 0 \<Longrightarrow> page \<le> x \<Longrightarrow> x < page + PAGE \<Longrightarrow> x - x mod PAGE = page" for page x :: nat
proof -
  assume a: "page mod PAGE = 0" "page \<le> x" "x < page + PAGE"
  then obtain q where q: "page = PAGE * q" by (auto simp: mod_eq_0_iff_dvd elim: dvdE)
  obtain r where r: "x = page + r" "r < PAGE" using a(2,3) by (metis le_Suc_ex nat_add_left_cancel_less)
  then have "x mod PAGE = r" using q by simp
  with r show ?thesis by simp
qed

lemma range_loop_correct:
  assumes "tables_wf p" "page mod PAGE = 0" "USER_BASE \<le> page" "last_byte < USER_STACK_TOP"
  shows "range_loop p page last_byte wrt = Some (\<forall>x. page \<le> x \<and> x \<le> last_byte \<longrightarrow> grants p wrt x)"
  using assms(2,3)
proof (induction "Suc last_byte - page" arbitrary: page rule: less_induct)
  case less
  show ?case
  proof (cases "page \<le> last_byte")
    case True
    have u: "in_user page" using less.prems True assms(4) by (simp add: in_user_def)
    obtain e where e: "pte p page = Some e" using pte_defined [OF assms(1) u] by simp
    have g: "grants p wrt x \<longleftrightarrow> bit e 0 \<and> bit e 2 \<and> (wrt \<longrightarrow> bit e 1)" if "page \<le> x" "x < page + PAGE" "x \<le> last_byte" for x
      using page_of [OF less.prems(1) that(1,2)] e that less.prems(2) assms(4) by (simp add: grants_def in_user_def)
    have rec: "range_loop p (page + PAGE) last_byte wrt = Some (\<forall>x. page + PAGE \<le> x \<and> x \<le> last_byte \<longrightarrow> grants p wrt x)"
      using True less.prems by (intro less.hyps) auto
    have split: "(\<forall>x. page \<le> x \<and> x \<le> last_byte \<longrightarrow> grants p wrt x) \<longleftrightarrow>
      (bit e 0 \<and> bit e 2 \<and> (wrt \<longrightarrow> bit e 1)) \<and> (\<forall>x. page + PAGE \<le> x \<and> x \<le> last_byte \<longrightarrow> grants p wrt x)"
    proof (intro iffI conjI allI impI)
      assume a: "\<forall>x. page \<le> x \<and> x \<le> last_byte \<longrightarrow> grants p wrt x"
      then show "bit e 0" "bit e 2" "wrt \<Longrightarrow> bit e 1" using g [of page] True by auto
      show "grants p wrt x" if "page + PAGE \<le> x \<and> x \<le> last_byte" for x using a that by auto
    next
      fix x assume a: "(bit e 0 \<and> bit e 2 \<and> (wrt \<longrightarrow> bit e 1)) \<and> (\<forall>x. page + PAGE \<le> x \<and> x \<le> last_byte \<longrightarrow> grants p wrt x)"
        and x: "page \<le> x \<and> x \<le> last_byte"
      show "grants p wrt x" using a x g [of x] by (cases "x < page + PAGE") auto
    qed
    show ?thesis using True e rec
      by (subst range_loop.simps) (simp only: split pte_bits if_True Option.bind.simps, auto)
  next
    case False
    then show ?thesis by (subst range_loop.simps) auto
  qed
qed

lemma user_range_iff:
  assumes "tables_wf p" "0 < sz"
  shows "user_range (Some p) address sz wrt = Some (\<forall>x. address \<le> x \<and> x < address + sz \<longrightarrow> grants p wrt x)"
proof (cases "address < USER_BASE \<or> address \<ge> USER_STACK_TOP \<or> sz > USER_STACK_TOP - address")
  case True
  then have "\<exists>x. address \<le> x \<and> x < address + sz \<and> \<not> in_user x"
    using assms(2) by (intro exI [of _ "if address < USER_BASE then address else address + sz - 1"]) (auto simp: in_user_def)
  then have "\<not> (\<forall>x. address \<le> x \<and> x < address + sz \<longrightarrow> grants p wrt x)" by (auto simp: grants_def)
  with True assms(2) show ?thesis by (simp add: user_range_def)
next
  case False
  let ?page = "address - address mod PAGE"
  have b: "?page mod PAGE = 0" "USER_BASE \<le> ?page" "address + sz - 1 < USER_STACK_TOP"
  proof -
    show "?page mod PAGE = 0" by (simp add: minus_mod_eq_div_mult)
    have "address mod PAGE = (262144 * PAGE + (address - USER_BASE)) mod PAGE" using False by (intro arg_cong2 [of _ _ _ _ "(mod)"]) auto
    then have "address mod PAGE \<le> address - USER_BASE" by (simp only: mod_mult_self3 mod_less_eq_dividend)
    then show "USER_BASE \<le> ?page" using False by linarith
    show "address + sz - 1 < USER_STACK_TOP" using False assms(2) by linarith
  qed
  have "grants p wrt x" if "\<forall>x. address \<le> x \<and> x < address + sz \<longrightarrow> grants p wrt x" "?page \<le> x" "x < address" for x
  proof -
    have "x < ?page + PAGE" using that(3) mod_less_divisor [of PAGE address] by linarith
    then have "x - x mod PAGE = ?page" by (rule page_of [OF b(1) that(2)])
    moreover have "grants p wrt address" using that(1) assms(2) by simp
    ultimately show ?thesis using that(3) b(2) False that(2) by (auto simp: grants_def in_user_def)
  qed
  then have "(\<forall>x. ?page \<le> x \<and> x \<le> address + sz - 1 \<longrightarrow> grants p wrt x) \<longleftrightarrow> (\<forall>x. address \<le> x \<and> x < address + sz \<longrightarrow> grants p wrt x)"
    (is "?a \<longleftrightarrow> ?b")
  proof (intro iffI allI impI)
    fix x assume "?a" "address \<le> x \<and> x < address + sz"
    moreover from this have "?page \<le> x" "x \<le> address + sz - 1" by linarith+
    ultimately show "grants p wrt x" by blast
  next
    fix x assume below: "\<And>x. ?b \<Longrightarrow> ?page \<le> x \<Longrightarrow> x < address \<Longrightarrow> grants p wrt x"
      and b: "?b" and x: "?page \<le> x \<and> x \<le> address + sz - 1"
    show "grants p wrt x"
    proof (cases "x < address")
      case True
      with below [OF b] x show ?thesis by blast
    next
      case False
      then have "address \<le> x \<and> x < address + sz" using x assms(2) by linarith
      with b show ?thesis by blast
    qed
  qed
  then show ?thesis using False assms(2) range_loop_correct [OF assms(1) b(1,2,3), of wrt] by (simp add: user_range_def)
qed

end
