(* ===== verification/Page_Tables.thy ===== *)
theory Page_Tables
  imports Isolation
begin

text \<open>
  Correctness of the page tables of \<^verbatim>\<open>isolation.c\<close>: the entries \<^verbatim>\<open>map_page\<close>, the page loops and
  \<^verbatim>\<open>prepare\<close> leave, the translation that the processor computes from them in user mode, and the agreement
  of \<^verbatim>\<open>user_range\<close> with it.
\<close>

section \<open>Entries\<close>

lemma aligned_add: "b mod 4096 = 0 \<Longrightarrow> c mod 4096 = 0 \<Longrightarrow> (b + c) mod 4096 = (0 :: nat)"
  by (metis add_0 mod_0 mod_add_eq)

definition ent :: "Process \<Rightarrow> nat \<Rightarrow> u64" where
  "ent p k = p_pt p ! (k div 512) ! (k mod 512)"

definition page_entry :: "nat \<Rightarrow> u64 \<Rightarrow> u64" where
  "page_entry phys flags = of_nat phys OR PTE_P OR PTE_U OR flags"

abbreviation (input) NPAGES :: nat where "NPAGES \<equiv> 2560"

lemma page_index: "(k * 4096) div 0x200000 = k div 512" "(k * 4096) div 0x1000 mod 512 = k mod (512 :: nat)"
proof -
  have "(k * 4096) div (4096 * 512) = k div 512" by (simp add: div_mult2_eq del: numeral_times_numeral)
  then show "(k * 4096) div 0x200000 = k div 512" by simp
qed simp

lemma pte_ent: "tables_wf p \<Longrightarrow> k < NPAGES \<Longrightarrow> pte p (USER_BASE + k * 4096) = Some (ent p k)"
proof -
  assume a: "tables_wf p" "k < NPAGES"
  then have "k div 512 < length (p_pt p)" "k mod 512 < length (p_pt p ! (k div 512))" by (simp_all add: tables_wf_def less_mult_imp_div_less)
  then show ?thesis by (simp add: pte_def page_index rd_Some ent_def Let_def)
qed

lemma map_page_eq:
  assumes "tables_wf p" "k < NPAGES"
  obtains p' where "map_page p (USER_BASE + k * 4096) phys flags = Some p'" "tables_wf p'"
    "\<And>j. j < NPAGES \<Longrightarrow> ent p' j = (if j = k then page_entry phys flags else ent p j)"
    "\<exists>t. p' = p\<lparr>p_pt := t\<rparr>"
proof -
  let ?i = "k div 512" and ?j = "k mod 512"
  let ?pt = "(p_pt p)[?i := (p_pt p ! ?i)[?j := page_entry phys flags]]"
  have l: "length (p_pt p) = 5" "?i < 5" and lt: "\<And>i. i < 5 \<Longrightarrow> length (p_pt p ! i) = 512"
    using assms by (auto simp: tables_wf_def)
  have wf: "tables_wf (p\<lparr>p_pt := ?pt\<rparr>)"
    using assms l by (auto simp: tables_wf_def set_conv_nth nth_list_update)
  have "ent (p\<lparr>p_pt := ?pt\<rparr>) j = (if j = k then page_entry phys flags else ent p j)" if "j < NPAGES" for j
  proof (cases "j = k")
    case True
    then show ?thesis using l lt by (simp add: ent_def)
  next
    case False
    then have "j div 512 \<noteq> ?i \<or> j mod 512 \<noteq> ?j" by (metis div_mult_mod_eq)
    then show ?thesis using l lt False that by (auto simp: ent_def nth_list_update)
  qed
  moreover have "map_page p (USER_BASE + k * 4096) phys flags = Some (p\<lparr>p_pt := ?pt\<rparr>)"
    using l lt [OF l(2)] by (simp add: map_page_def page_index rd_Some wr_Some Let_def page_entry_def)
  ultimately show ?thesis using that wf by blast
qed

lemma map_range_eq:
  assumes "tables_wf p" "v + (n + 4095) div 4096 \<le> NPAGES" "i * 4096 < n + 4096"
  obtains p' where "map_range p (USER_BASE + v * 4096) pa n (i * 4096) flags = Some p'" "tables_wf p'"
    "\<And>j. j < NPAGES \<Longrightarrow> ent p' j = (if v + i \<le> j \<and> (j - v) * 4096 < n then page_entry (pa + (j - v) * 4096) flags else ent p j)"
    "\<exists>t. p' = p\<lparr>p_pt := t\<rparr>"
proof -
  have "\<exists>p'. map_range p (USER_BASE + v * 4096) pa n (i * 4096) flags = Some p' \<and> tables_wf p' \<and>
    (\<forall>j < NPAGES. ent p' j = (if v + i \<le> j \<and> (j - v) * 4096 < n then page_entry (pa + (j - v) * 4096) flags else ent p j)) \<and>
    (\<exists>t. p' = p\<lparr>p_pt := t\<rparr>)"
    using assms(1,3)
  proof (induction "n + 4096 - i * 4096" arbitrary: i p rule: less_induct)
    case less
    show ?case
    proof (cases "i * 4096 < n")
      case True
      have k: "v + i < NPAGES" using assms(2) True by linarith
      have m: "n + 4096 - (i + 1) * 4096 < n + 4096 - i * 4096" "(i + 1) * 4096 < n + 4096" using True by auto
      obtain q where q: "map_page p (USER_BASE + (v + i) * 4096) (pa + i * 4096) flags = Some q" "tables_wf q"
        "\<And>j. j < NPAGES \<Longrightarrow> ent q j = (if j = v + i then page_entry (pa + i * 4096) flags else ent p j)"
        "\<exists>t. q = p\<lparr>p_pt := t\<rparr>" using map_page_eq [OF less.prems(1) k, where phys = "pa + i * 4096" and flags = flags] by blast
      obtain r where r: "map_range q (USER_BASE + v * 4096) pa n ((i + 1) * 4096) flags = Some r" "tables_wf r"
        "\<And>j. j < NPAGES \<Longrightarrow> ent r j = (if v + (i + 1) \<le> j \<and> (j - v) * 4096 < n then page_entry (pa + (j - v) * 4096) flags else ent q j)"
        "\<exists>t. r = q\<lparr>p_pt := t\<rparr>"
        using less.hyps [OF m(1) q(2) m(2)] by blast
      have e: "map_range p (USER_BASE + v * 4096) pa n (i * 4096) flags = Some r"
        using True q(1) r(1) by (subst map_range.simps) (simp add: algebra_simps)
      have "ent r j = (if v + i \<le> j \<and> (j - v) * 4096 < n then page_entry (pa + (j - v) * 4096) flags else ent p j)" if "j < NPAGES" for j
        using r(3) [OF that] q(3) [OF that] True by (cases "j = v + i") auto
      with e r(2,4) q(4) show ?thesis by auto
    next
      case False
      then have "\<not> (v + i \<le> j \<and> (j - v) * 4096 < n)" for j by auto
      with False less.prems show ?thesis by (subst map_range.simps) (auto intro: exI [of _ "p_pt p"])
    qed
  qed
  then show ?thesis using that by blast
qed

section \<open>Segments\<close>

text \<open>What the image builder \<^verbatim>\<open>tools/embed_user.py\<close> checks of every segment.\<close>

definition segment_ok :: "bytes \<Rightarrow> UserSegment \<Rightarrow> bool" where
  "segment_ok payload s \<longleftrightarrow> sg_offset s mod 4096 = 0 \<and> sg_offset s + sg_memory_size s \<le> USER_IMAGE_LIMIT - PAGE \<and>
     sg_file_size s \<le> sg_memory_size s \<and> sg_payload_offset s + sg_file_size s \<le> length payload \<and>
     sg_flags s AND 3 \<noteq> 3"

definition covers :: "UserSegment \<Rightarrow> nat \<Rightarrow> bool" where
  "covers s k \<longleftrightarrow> sg_offset s \<le> k * 4096 \<and> k * 4096 < sg_offset s + sg_memory_size s"

text \<open>The entry of page \<open>k\<close> of an image mapped at \<open>base\<close>: the last segment that covers it decides.\<close>

definition image_entry :: "nat \<Rightarrow> UserSegment list \<Rightarrow> nat \<Rightarrow> u64 \<Rightarrow> u64" where
  "image_entry base segments k e =
     fold (\<lambda>s e. if covers s k then page_entry (base + k * 4096) (segment_flags s) else e) segments e"

definition same_but_image :: "Process \<Rightarrow> Process \<Rightarrow> bool" where
  "same_but_image p q \<longleftrightarrow> (\<exists>t m. q = p\<lparr>p_pt := t, p_memory := m\<rparr> \<and> length m = length (p_memory p))"

lemma load_segments_eq:
  assumes "tables_wf p" "length (p_memory p) = USER_IMAGE_LIMIT" "\<forall>s \<in> set segments. segment_ok payload s"
  shows "\<exists>q. load_segments p payload segments = Some q \<and> tables_wf q \<and> same_but_image p q \<and>
    (\<forall>k < NPAGES. ent q k = image_entry (memory_at p) segments k (ent p k))"
  using assms
proof (induction segments arbitrary: p)
  case Nil
  have "same_but_image p p" unfolding same_but_image_def by (intro exI [of _ "p_pt p"] exI [of _ "p_memory p"]) simp
  with Nil show ?case by (simp add: image_entry_def)
next
  case (Cons s ss)
  then have ok: "segment_ok payload s" by simp
  obtain v where v: "sg_offset s = v * 4096" using ok by (auto simp: segment_ok_def mod_eq_0_iff_dvd mult.commute elim!: dvdE)
  let ?mem = "take (sg_offset s) (p_memory p) @ take (sg_file_size s) (drop (sg_payload_offset s) payload) @
    drop (sg_offset s + sg_file_size s) (p_memory p)"
  let ?p = "p\<lparr>p_memory := ?mem\<rparr>"
  have cp: "memcpy (p_memory p) (sg_offset s) payload (sg_payload_offset s) (sg_file_size s) = Some ?mem"
    and lm: "length ?mem = USER_IMAGE_LIMIT"
    using ok Cons.prems(2) by (auto simp: segment_ok_def intro!: memcpy_eq)
  have wf: "tables_wf ?p" and em: "ent ?p k = ent p k" for k using Cons.prems(1) by (simp_all add: tables_wf_def ent_def)
  have b: "v + (sg_memory_size s + 4095) div 4096 \<le> NPAGES" using ok v unfolding segment_ok_def by linarith
  obtain q where q: "map_range ?p (USER_BASE + v * 4096) (memory_at p + v * 4096) (sg_memory_size s) (0 * 4096) (segment_flags s) = Some q"
    "tables_wf q" "\<And>j. j < NPAGES \<Longrightarrow> ent q j = (if v + 0 \<le> j \<and> (j - v) * 4096 < sg_memory_size s
      then page_entry (memory_at p + v * 4096 + (j - v) * 4096) (segment_flags s) else ent ?p j)"
    "\<exists>t. q = ?p\<lparr>p_pt := t\<rparr>"
    using map_range_eq [OF wf b, where i = 0 and pa = "memory_at p + v * 4096" and flags = "segment_flags s"] by auto
  have eq: "ent q j = (if covers s j then page_entry (memory_at p + j * 4096) (segment_flags s) else ent p j)" if "j < NPAGES" for j
  proof (cases "v \<le> j")
    case True
    then have "memory_at p + v * 4096 + (j - v) * 4096 = memory_at p + j * 4096" by (simp add: algebra_simps)
    then show ?thesis using q(3) [OF that] v em True by (auto simp: covers_def algebra_simps)
  qed (use q(3) [OF that] v em in \<open>auto simp: covers_def\<close>)
  have mq: "memory_at q = memory_at p" "length (p_memory q) = USER_IMAGE_LIMIT" using q(4) lm by (auto simp: memory_at_def)
  obtain r where r: "load_segments q payload ss = Some r" "tables_wf r" "same_but_image q r"
    "\<forall>k < NPAGES. ent r k = image_entry (memory_at q) ss k (ent q k)"
    using Cons.IH [OF q(2) mq(2)] Cons.prems(3) by auto
  have "load_segments p payload (s # ss) = Some r" using cp q(1) r(1) v by (simp add: memory_at_def)
  moreover have "same_but_image p r"
  proof -
    from r(3) q(4) obtain t m where "r = p\<lparr>p_pt := t, p_memory := m\<rparr>" "length m = USER_IMAGE_LIMIT"
      using mq(2) unfolding same_but_image_def by auto
    then show ?thesis using Cons.prems(2) unfolding same_but_image_def by (intro exI [of _ t] exI [of _ m]) simp
  qed
  moreover have "ent r k = image_entry (memory_at p) (s # ss) k (ent p k)" if "k < NPAGES" for k
    using r(4) mq(1) eq that by (simp add: image_entry_def)
  ultimately show ?case using r(2) by blast
qed

section \<open>The prepared process\<close>

text \<open>The entry of page \<open>k\<close> of the process at \<open>base\<close>.\<close>

definition layout_entry :: "nat \<Rightarrow> UserSegment list \<Rightarrow> nat \<Rightarrow> u64" where
  "layout_entry base segments k =
     (if k = 0x7ff then page_entry (base + 0x8000 + 0x7ff000) (PTE_W OR PTE_NX)
      else if k = 0x800 then page_entry (base + 0x808000) PTE_NX
      else if 0x802 \<le> k \<and> k < 0x842 then page_entry (base + 0x809000 + (k - 0x802) * 4096) (PTE_W OR PTE_NX)
      else image_entry (base + 0x8000) segments k 0)"

lemma clear_process_tables: "tables_wf (link_tables (clear_process base))" "length (p_memory (link_tables (clear_process base))) = USER_IMAGE_LIMIT"
  "memory_at (link_tables (clear_process base)) = base + 0x8000"
  by (simp_all add: tables_wf_def link_tables_def clear_process_def memory_at_def)

lemma clear_process_ent: "k < NPAGES \<Longrightarrow> ent (link_tables (clear_process base)) k = 0"
  by (simp add: ent_def link_tables_def clear_process_def less_mult_imp_div_less nth_replicate)

definition command_ok :: "bytes option \<Rightarrow> bool" where
  "command_ok command \<longleftrightarrow> (case command of None \<Rightarrow> True | Some c \<Rightarrow> is_cstr c \<and> length (cstr c) < 96)"

lemma fill_startup_eq:
  assumes "command_ok command" "su_command su = replicate 96 0"
  shows "\<exists>u. fill_startup processes slot mode command su = Some u \<and> su_mode u = mode \<and> su_marker_address u = MARKER \<and>
    length (su_command u) = 96 \<and> (\<forall>c. command = Some c \<longrightarrow> cstr (su_command u) = cstr c)"
proof (cases command)
  case None
  then show ?thesis using assms(2) by (simp add: fill_startup_def Let_def)
next
  case (Some c)
  then have c: "is_cstr c" "length (cstr c) \<le> 95" using assms(1) by (simp_all add: command_ok_def)
  let ?s = "cstr c @ replicate (95 - length (cstr c)) 0 @ drop 95 (su_command su)"
  have s: "strncpy (su_command su) c 95 = Some ?s" by (rule strncpy_eq) (use c assms(2) in simp_all)
  have "?s = cstr c @ replicate (Suc (95 - length (cstr c))) 0" by (simp add: assms(2) replicate_append_same)
  then have "cstr ?s = cstr c" by (simp only: replicate_Suc cstr_append [OF cstr_no_nul])
  then show ?thesis using s Some assms(2) c by (simp add: fill_startup_def Let_def)
qed

lemma prepare_eq:
  assumes "\<forall>s \<in> set segments. segment_ok payload s" "command_ok command"
  obtains p where "prepare payload segments processes slot mode command = Some p" "tables_wf p"
    "p_base p = process_at processes slot"
    "\<And>k. k < NPAGES \<Longrightarrow> ent p k = layout_entry (process_at processes slot) segments k"
    "p_pdpt p = p_pdpt (link_tables (clear_process (process_at processes slot)))"
    "p_pml4 p = p_pml4 (link_tables (clear_process (process_at processes slot)))"
    "p_pd p = p_pd (link_tables (clear_process (process_at processes slot)))"
proof -
  let ?b = "process_at processes slot"
  let ?p0 = "link_tables (clear_process ?b)"
  obtain p1 where p1: "load_segments ?p0 payload segments = Some p1" "tables_wf p1" "same_but_image ?p0 p1"
    "\<forall>k < NPAGES. ent p1 k = image_entry (?b + 0x8000) segments k (ent ?p0 k)"
    using load_segments_eq [OF clear_process_tables(1,2) assms(1), of ?b] by (auto simp: clear_process_tables(3))
  obtain p2 where p2: "map_page p1 (USER_BASE + 0x7ff * 4096) (memory_at p1 + USER_IMAGE_LIMIT - PAGE) (PTE_W OR PTE_NX) = Some p2"
    "tables_wf p2" "\<And>j. j < NPAGES \<Longrightarrow> ent p2 j = (if j = 0x7ff then page_entry (memory_at p1 + USER_IMAGE_LIMIT - PAGE) (PTE_W OR PTE_NX) else ent p1 j)"
    "\<exists>t. p2 = p1\<lparr>p_pt := t\<rparr>"
    using map_page_eq [OF p1(2), where k = "0x7ff" and phys = "memory_at p1 + USER_IMAGE_LIMIT - PAGE" and flags = "PTE_W OR PTE_NX"] by auto
  obtain p3 where p3: "map_page p2 (USER_BASE + 0x800 * 4096) (startup_at p2) PTE_NX = Some p3"
    "tables_wf p3" "\<And>j. j < NPAGES \<Longrightarrow> ent p3 j = (if j = 0x800 then page_entry (startup_at p2) PTE_NX else ent p2 j)"
    "\<exists>t. p3 = p2\<lparr>p_pt := t\<rparr>"
    using map_page_eq [OF p2(2), where k = "0x800" and phys = "startup_at p2" and flags = "PTE_NX"] by auto
  obtain p4 where p4: "map_range p3 (USER_BASE + 0x802 * 4096) (stack_at p3) USER_STACK_SIZE (0 * 4096) (PTE_W OR PTE_NX) = Some p4"
    "tables_wf p4" "\<And>j. j < NPAGES \<Longrightarrow> ent p4 j = (if 0x802 + 0 \<le> j \<and> (j - 0x802) * 4096 < USER_STACK_SIZE
       then page_entry (stack_at p3 + (j - 0x802) * 4096) (PTE_W OR PTE_NX) else ent p3 j)"
    "\<exists>t. p4 = p3\<lparr>p_pt := t\<rparr>"
    using map_range_eq [OF p3(2), where v = "0x802" and n = USER_STACK_SIZE and i = 0 and pa = "stack_at p3" and flags = "PTE_W OR PTE_NX"] by auto
  have base: "memory_at p1 = ?b + 0x8000" "startup_at p2 = ?b + 0x808000" "stack_at p3 = ?b + 0x809000" "p_base p4 = ?b"
    "p_startup p4 = p_startup ?p0" "p_pdpt p4 = p_pdpt ?p0" "p_pml4 p4 = p_pml4 ?p0" "p_pd p4 = p_pd ?p0"
    using p1(3) p2(4) p3(4) p4(4)
    by (auto simp: same_but_image_def memory_at_def startup_at_def stack_at_def link_tables_def clear_process_def)
  have ent: "ent p4 k = layout_entry ?b segments k" if "k < NPAGES" for k
    using that p1(4) p2(3) p3(3) p4(3) clear_process_ent [OF that] base by (auto simp: layout_entry_def)
  have su: "su_command (p_startup ?p0) = replicate 96 0" by (simp add: link_tables_def clear_process_def)
  obtain u where u: "fill_startup processes slot mode command (p_startup ?p0) = Some u"
    using fill_startup_eq [OF assms(2) su] by blast
  have u: "prepare payload segments processes slot mode command = Some (p4\<lparr>p_startup := u\<rparr>)"
    using p1(1) p2(1) p3(1) p4(1) u base(5) by (simp add: prepare_def)
  show ?thesis using that [OF u] p4(2) ent base by (simp add: tables_wf_def ent_def)
qed


section \<open>What an entry grants\<close>

definition perm :: "bool \<Rightarrow> bool \<Rightarrow> u64" where
  "perm w x = (if w then PTE_W else 0) OR (if x then 0 else PTE_NX)"

definition frame :: "u64 \<Rightarrow> nat" where
  "frame e = unat (e AND 0x000ffffffffff000)"

lemma bit_u64_of_nat: "bit (of_nat m :: u64) n \<longleftrightarrow> n < 64 \<and> bit m n"
  by transfer (simp add: bit_take_bit_iff bit_of_nat_iff_bit)

lemma bit_perm: "bit (perm w x) n \<longleftrightarrow> w \<and> n = 1 \<or> \<not> x \<and> n = 63"
proof -
  have "(2 :: u64) = push_bit 1 1" "(0x8000000000000000 :: u64) = push_bit 63 1" by (simp_all add: push_bit_eq_mult)
  then have "bit (2 :: u64) n \<longleftrightarrow> n = 1" "bit (0x8000000000000000 :: u64) n \<longleftrightarrow> n = 63"
    by (auto simp only: bit_push_bit_iff bit_1_iff) auto
  then show ?thesis by (auto simp: perm_def bit_or_iff)
qed

lemma page_entry_bits:
  assumes "phys mod 4096 = 0" "phys < 2 ^ 52"
  shows "bit (page_entry phys (perm w x)) 0" "bit (page_entry phys (perm w x)) 2"
    "bit (page_entry phys (perm w x)) 1 = w" "bit (page_entry phys (perm w x)) 63 = (\<not> x)"
    "frame (page_entry phys (perm w x)) = phys"
proof -
  have low: "\<not> bit phys n" if "n < 12" for n
  proof -
    have "2 ^ 12 dvd phys" using assms(1) by (simp add: dvd_eq_mod_eq_0)
    then have "take_bit 12 phys = 0" by (simp only: take_bit_eq_mod) (simp add: dvd_eq_mod_eq_0)
    then show ?thesis using that by (metis bit_take_bit_iff bit_0_eq bot_apply bot_bool_def)
  qed
  have high: "\<not> bit phys n" if "52 \<le> n" for n
  proof -
    have "phys < 2 ^ n" using assms(2) power_increasing [OF that, of "2 :: nat"] by simp
    then show ?thesis by (simp add: bit_iff_odd)
  qed
  have e: "bit (page_entry phys (perm w x)) n \<longleftrightarrow> n < 64 \<and> bit phys n \<or> n = 0 \<or> n = 2 \<or> w \<and> n = 1 \<or> \<not> x \<and> n = 63" for n
  proof -
    have "bit (4 :: u64) n \<longleftrightarrow> n = 2" by (auto simp: bit_numeral_rec bit_1_iff split: nat.splits)
    then show ?thesis by (auto simp: page_entry_def bit_or_iff bit_perm bit_1_iff bit_u64_of_nat)
  qed
  show "bit (page_entry phys (perm w x)) 0" "bit (page_entry phys (perm w x)) 2"
    "bit (page_entry phys (perm w x)) 1 = w" "bit (page_entry phys (perm w x)) 63 = (\<not> x)"
    using low high by (auto simp: e)
  have m: "bit (0x000ffffffffff000 :: u64) n \<longleftrightarrow> 12 \<le> n \<and> n < 52" for n
  proof -
    have "(0x000ffffffffff000 :: u64) = push_bit 12 (mask 40)" by (simp add: push_bit_eq_mult mask_eq_exp_minus_1)
    then show ?thesis by (auto simp only: bit_push_bit_iff bit_mask_iff) auto
  qed
  have "page_entry phys (perm w x) AND 0x000ffffffffff000 = of_nat phys"
  proof (rule bit_word_eqI)
    fix n assume "n < LENGTH(64)"
    moreover have "bit phys n \<Longrightarrow> 12 \<le> n \<and> n < 52" using low [of n] high [of n] not_less by blast
    ultimately show "bit (page_entry phys (perm w x) AND 0x000ffffffffff000) n = bit (of_nat phys :: u64) n"
      by (simp only: bit_and_iff m e bit_u64_of_nat) auto
  qed
  then show "frame (page_entry phys (perm w x)) = phys" using assms(2) by (simp add: frame_def unsigned_of_nat take_bit_nat_eq_self)
qed

lemma segment_flags_perm:
  "segment_flags s = perm (sg_flags s AND 2 \<noteq> 0) (sg_flags s AND 1 \<noteq> 0)"
  by (simp add: segment_flags_def perm_def)

lemma not_wx: "f AND 3 \<noteq> 3 \<Longrightarrow> \<not> (f AND 2 \<noteq> 0 \<and> f AND 1 \<noteq> 0)" for f :: u32
proof
  assume a: "f AND 3 \<noteq> 3" "f AND 2 \<noteq> 0 \<and> f AND 1 \<noteq> 0"
  then have f: "bit f 1" "bit f 0" using and_exp_eq_0_iff_not_bit [of f 1] and_exp_eq_0_iff_not_bit [of f 0] by auto
  have b: "bit (3 :: u32) n \<longleftrightarrow> n = 0 \<or> n = 1" for n by (auto simp: bit_numeral_rec bit_1_iff split: nat.splits)
  have "f AND 3 = 3"
  proof (rule bit_word_eqI)
    show "bit (f AND 3) n = bit (3 :: u32) n" for n using f by (simp only: bit_and_iff b) auto
  qed
  with a(1) show False ..
qed

text \<open>An entry is absent, or a page of the process at \<open>base\<close> that is not both writable and executable.\<close>

definition entry_ok :: "nat \<Rightarrow> u64 \<Rightarrow> bool" where
  "entry_ok base e \<longleftrightarrow> (bit e 0 \<longrightarrow> \<not> (bit e 1 \<and> \<not> bit e 63) \<and> base + 0x8000 \<le> frame e \<and> frame e + PAGE \<le> base + PROCESS_SIZE)"

lemma page_entry_ok:
  assumes "phys mod 4096 = 0" "phys < 2 ^ 52" "\<not> (w \<and> x)" "base + 0x8000 \<le> phys" "phys + PAGE \<le> base + PROCESS_SIZE"
  shows "entry_ok base (page_entry phys (perm w x))"
  using assms page_entry_bits [OF assms(1,2)] by (auto simp: entry_ok_def)

lemma page_entry_ok_rw: "phys mod 4096 = 0 \<Longrightarrow> phys < 2 ^ 52 \<Longrightarrow> base + 0x8000 \<le> phys \<Longrightarrow> phys + PAGE \<le> base + PROCESS_SIZE \<Longrightarrow>
    entry_ok base (page_entry phys 0x8000000000000002)"
  and page_entry_ok_ro: "phys mod 4096 = 0 \<Longrightarrow> phys < 2 ^ 52 \<Longrightarrow> base + 0x8000 \<le> phys \<Longrightarrow> phys + PAGE \<le> base + PROCESS_SIZE \<Longrightarrow>
    entry_ok base (page_entry phys PTE_NX)"
  using page_entry_ok [of phys True False base] page_entry_ok [of phys False False base] by (simp_all add: perm_def)

lemma image_entry_ok:
  assumes "\<forall>s \<in> set segments. segment_ok payload s" "base mod 4096 = 0" "base + PROCESS_SIZE \<le> 2 ^ 52" "entry_ok base e"
  shows "entry_ok base (image_entry (base + 0x8000) segments k e)"
  using assms(1,4)
proof (induction segments arbitrary: e)
  case (Cons s ss)
  have "entry_ok base (page_entry (base + 0x8000 + k * 4096) (segment_flags s))" if c: "covers s k"
  proof -
    have "k * 4096 < 0x7ff000" "sg_flags s AND 3 \<noteq> 3" using c Cons.prems(1) unfolding covers_def by (auto simp: segment_ok_def)
    then show ?thesis unfolding segment_flags_perm using assms(2,3) not_wx [of "sg_flags s"]
      by (intro page_entry_ok) (auto simp: mod_simps)
  qed
  with Cons show ?case by (simp add: image_entry_def)
qed (simp add: image_entry_def)

lemma layout_entry_ok:
  assumes "\<forall>s \<in> set segments. segment_ok payload s" "base mod 4096 = 0" "base + PROCESS_SIZE \<le> 2 ^ 52" "k < NPAGES"
  shows "entry_ok base (layout_entry base segments k)"
proof -
  consider "k = 0x7ff" | "k = 0x800" | "0x802 \<le> k" "k < 0x842" | "layout_entry base segments k = image_entry (base + 0x8000) segments k 0"
    unfolding layout_entry_def by (cases "k = 0x7ff"; cases "k = 0x800"; cases "0x802 \<le> k \<and> k < 0x842") auto
  then show ?thesis
  proof cases
    case 1
    then show ?thesis using assms(2,3) by (auto simp: layout_entry_def mod_simps intro!: page_entry_ok_rw page_entry_ok_ro)
  next
    case 2
    then show ?thesis using assms(2,3) by (auto simp: layout_entry_def mod_simps intro!: page_entry_ok_rw page_entry_ok_ro)
  next
    case 3
    then show ?thesis using assms(2,3) by (auto simp: layout_entry_def mod_simps intro!: page_entry_ok_rw page_entry_ok_ro)
  next
    case 4
    have "entry_ok base 0" by (simp add: entry_ok_def)
    with 4 image_entry_ok [OF assms(1-3)] show ?thesis by simp
  qed
qed


section \<open>The address translation ring 3 sees\<close>

text \<open>
  The page walk of the processor on the tables of a process. Every level must be present and open to
  user mode; the tables of other addresses (the kernel's own directory at \<open>0x82000\<close>) are not followed
  because the entry that leads there is supervisor-only.
\<close>

definition user_table :: "u64 \<Rightarrow> bool" where
  "user_table e \<longleftrightarrow> bit e 0 \<and> bit e 2"

definition table_at :: "Process \<Rightarrow> nat \<Rightarrow> u64 list option" where
  "table_at p a = (if a = pdpt_at p then Some (p_pdpt p) else if a = pd_at p then Some (p_pd p)
     else if pt_at p 0 \<le> a \<and> a < pt_at p 5 \<and> (a - pt_at p 0) mod PAGE = 0 then Some (p_pt p ! ((a - pt_at p 0) div PAGE))
     else None)"

definition ring3 :: "Process \<Rightarrow> nat \<Rightarrow> u64 option" where
  "ring3 p va = (let e4 = p_pml4 p ! (va div 2 ^ 39 mod 512) in
     if \<not> user_table e4 then None else do {
       t3 \<leftarrow> table_at p (frame e4);
       let e3 = t3 ! (va div 2 ^ 30 mod 512);
       if \<not> user_table e3 then None else do {
         t2 \<leftarrow> table_at p (frame e3);
         let e2 = t2 ! (va div 2 ^ 21 mod 512);
         if \<not> user_table e2 then None else do {
           t1 \<leftarrow> table_at p (frame e2);
           let e1 = t1 ! (va div 2 ^ 12 mod 512);
           if user_table e1 then Some e1 else None } } })"

lemma table_entry: "of_nat a OR PTE_P OR PTE_W OR PTE_U = page_entry a (perm True True)"
  by (simp add: page_entry_def perm_def or.assoc or.left_commute)

lemma table_entry_user: "a mod 4096 = 0 \<Longrightarrow> a < 2 ^ 52 \<Longrightarrow> user_table (page_entry a (perm True True)) \<and> frame (page_entry a (perm True True)) = a"
  using page_entry_bits [of a True True] by (simp add: user_table_def)

lemma linked_tables:
  fixes base defines "p \<equiv> link_tables (clear_process base)"
  assumes "k < 512"
  shows "p_pml4 p ! k = (if k = 0 then page_entry (base + 0x1000) (perm True True) else 0)"
    "p_pdpt p ! k = (if k = 0 then 0x82003 else if k = 1 then page_entry (base + 0x2000) (perm True True) else 0)"
    "p_pd p ! k = (if k < 5 then page_entry (base + 0x3000 + k * 0x1000) (perm True True) else 0)"
proof -
  have l: "length (replicate 512 (0 :: u64)) = 512" "replicate 512 (0 :: u64) ! k = 0" using assms(2) by simp_all
  show "p_pml4 p ! k = (if k = 0 then page_entry (base + 0x1000) (perm True True) else 0)"
    unfolding p_def link_tables_def table_entry clear_process_def using l by (simp add: pdpt_at_def nth_list_update)
  show "p_pdpt p ! k = (if k = 0 then 0x82003 else if k = 1 then page_entry (base + 0x2000) (perm True True) else 0)"
    unfolding p_def link_tables_def table_entry clear_process_def using l by (simp add: pd_at_def nth_list_update)
  have k: "k = 0 \<or> k = 1 \<or> k = 2 \<or> k = 3 \<or> k = 4 \<or> 5 \<le> k" by auto
  have u: "[0..<5] = [0, 1, 2, 3, 4 :: nat]" by (simp add: upt_rec)
  show "p_pd p ! k = (if k < 5 then page_entry (base + 0x3000 + k * 0x1000) (perm True True) else 0)"
    unfolding p_def link_tables_def table_entry clear_process_def u using l k by (elim disjE) (simp_all add: pt_at_def nth_list_update)
qed


lemma pt_table: "i < 5 \<Longrightarrow> table_at p (p_base p + 0x3000 + i * 0x1000) = Some (p_pt p ! i)"
  by (simp add: table_at_def pdpt_at_def pd_at_def pt_at_def)

lemma ring3_walk:
  assumes "p_pml4 p = p_pml4 (link_tables (clear_process base))" "p_pdpt p = p_pdpt (link_tables (clear_process base))"
    "p_pd p = p_pd (link_tables (clear_process base))" "p_base p = base" "base mod 4096 = 0" "base + PROCESS_SIZE \<le> 2 ^ 52" "va < 2 ^ 48"
  shows "ring3 p va = (if USER_BASE \<le> va \<and> va < USER_BASE + NPAGES * 4096 \<and> user_table (ent p ((va - USER_BASE) div 4096))
    then Some (ent p ((va - USER_BASE) div 4096)) else None)"
proof -
  have al: "(base + 0x1000) mod 4096 = 0" "(base + 0x2000) mod 4096 = 0" "(base + 0x3000) mod 4096 = 0"
    using aligned_add [OF assms(5)] assms(5) by simp_all
  show ?thesis
proof (cases "2 ^ 30 \<le> va \<and> va < 2 ^ 31")
  case False
  have zero: "\<not> user_table 0" "\<not> user_table 0x82003" by (simp_all add: user_table_def bit_numeral_rec)
  have "ring3 p va = None"
  proof (cases "va < 2 ^ 39")
    case True
    then have i: "va div 2 ^ 39 mod 512 = 0" by simp
    have "va div 1073741824 \<noteq> 1" "va div 1073741824 < 512" using False True by simp_all linarith+
    then have "\<not> user_table (p_pdpt p ! (va div 2 ^ 30 mod 512))" using assms(2) linked_tables(2) [of "va div 2 ^ 30" base] zero by simp
    moreover have "table_at p (frame (p_pml4 p ! 0)) = Some (p_pdpt p)"
      using assms(1,4-6) linked_tables(1) [of 0 base] table_entry_user [of "base + 0x1000"] by (simp add: table_at_def pdpt_at_def al)
    ultimately show ?thesis using i by (simp add: ring3_def Let_def)
  next
    case False
    then have "va div 2 ^ 39 mod 512 \<noteq> 0" using assms(7) by (simp add: div_eq_0_iff less_mult_imp_div_less)
    then have "\<not> user_table (p_pml4 p ! (va div 2 ^ 39 mod 512))" using assms(1) linked_tables(1) [of "va div 2 ^ 39 mod 512" base] zero by simp
    then show ?thesis by (simp add: ring3_def Let_def)
  qed
  with False show ?thesis by auto
next
  case True
  define off where "off = va - 2 ^ 30"
  have va: "va = 2 ^ 30 + off" "off < 2 ^ 30" using True by (auto simp: off_def)
  have "va < 2 ^ 39" "va div 1073741824 = 1" using True by simp_all linarith+
  then have i4: "va div 2 ^ 39 mod 512 = 0" and i3: "va div 2 ^ 30 mod 512 = 1" by simp_all
  have "va div 2 ^ 21 = 512 + off div 2 ^ 21" "va div 2 ^ 12 = 262144 + off div 2 ^ 12" unfolding va(1) by simp_all
  moreover have lt: "off div 2 ^ 21 < 512" using va(2) by (simp add: less_mult_imp_div_less)
  moreover have "(262144 + off div 2 ^ 12) mod 512 = off div 2 ^ 12 mod 512" using mod_mult_self3 [of 512 512 "off div 2 ^ 12"] by simp
  ultimately have i2: "va div 2 ^ 21 mod 512 = off div 2 ^ 21" and i1: "va div 2 ^ 12 mod 512 = off div 4096 mod 512" by simp_all
  have t4: "user_table (p_pml4 p ! 0)" "table_at p (frame (p_pml4 p ! 0)) = Some (p_pdpt p)"
    using assms(1,4-6) linked_tables(1) [of 0 base] table_entry_user [of "base + 0x1000"] by (simp_all add: table_at_def pdpt_at_def al)
  have t3: "user_table (p_pdpt p ! 1)" "table_at p (frame (p_pdpt p ! 1)) = Some (p_pd p)"
    using assms(2,4-6) linked_tables(2) [of 1 base] table_entry_user [of "base + 0x2000"] by (simp_all add: table_at_def pdpt_at_def pd_at_def al)
  have e: "ent p (off div 4096) = p_pt p ! (off div 2 ^ 21) ! (off div 4096 mod 512)" by (simp add: ent_def div_mult2_eq [symmetric])
  have r: "USER_BASE \<le> va \<and> va < USER_BASE + NPAGES * 4096 \<longleftrightarrow> off div 2 ^ 21 < 5" using va by (auto simp: less_mult_imp_div_less div_less_iff_less_mult)
  show ?thesis
  proof (cases "off div 2 ^ 21 < 5")
    case True
    have "user_table (p_pd p ! (off div 2 ^ 21))" "table_at p (frame (p_pd p ! (off div 2 ^ 21))) = Some (p_pt p ! (off div 2 ^ 21))"
      using True assms(3-6) linked_tables(3) [OF lt, of base] table_entry_user [of "base + 0x3000 + (off div 2 ^ 21) * 0x1000"] pt_table [OF True, of p]
      by (simp_all add: al)
    then show ?thesis using t4 t3 e r True unfolding ring3_def i4 i3 i2 i1 by (simp add: Let_def va(1))
  next
    case False
    then have "\<not> user_table (p_pd p ! (off div 2 ^ 21))" using assms(3) linked_tables(3) [OF lt, of base] by (simp add: user_table_def)
    then show ?thesis using t4 t3 r False unfolding ring3_def i4 i3 i2 i1 by (auto simp: Let_def)
  qed
qed
qed


lemma image_entry_outside: "\<forall>s \<in> set segments. segment_ok payload s \<Longrightarrow> 0x7ff \<le> k \<Longrightarrow> image_entry base segments k e = e"
proof (induction segments arbitrary: e)
  case (Cons s ss)
  then have "\<not> covers s k" by (auto simp: covers_def segment_ok_def)
  with Cons show ?case by (simp add: image_entry_def)
qed (simp add: image_entry_def)

definition image_ok :: "bytes \<Rightarrow> UserSegment list \<Rightarrow> bool" where
  "image_ok payload segments \<longleftrightarrow> (\<forall>s \<in> set segments. segment_ok payload s)"

text \<open>The array of processes is page aligned and below the physical address limit.\<close>

definition processes_ok :: "nat \<Rightarrow> bool" where
  "processes_ok processes \<longleftrightarrow> processes mod 4096 = 0 \<and> processes + SLOTS * PROCESS_SIZE \<le> 2 ^ 52"

lemma slot_ok: "processes_ok processes \<Longrightarrow> slot < SLOTS \<Longrightarrow> process_at processes slot mod 4096 = 0 \<and> process_at processes slot + PROCESS_SIZE \<le> 2 ^ 52"
proof -
  assume a: "processes_ok processes" "slot < SLOTS"
  then have "slot = 0 \<or> slot = 1" by auto
  moreover have "(processes + 8687616) mod 4096 = 0" using a(1) aligned_add [of processes 8687616] by (simp add: processes_ok_def)
  ultimately show ?thesis using a(1) by (auto simp: processes_ok_def process_at_def)
qed

lemma prepare_ring3:
  assumes "image_ok payload segments" "command_ok command" "processes_ok processes" "slot < SLOTS"
  shows "\<exists>p. prepare payload segments processes slot mode command = Some p \<and> tables_wf p \<and> p_base p = process_at processes slot \<and>
    (\<forall>va < 2 ^ 48. ring3 p va = (let e = layout_entry (process_at processes slot) segments ((va - USER_BASE) div 4096) in
      if in_user va \<and> user_table e then Some e else None)) \<and>
    (\<forall>va. in_user va \<longrightarrow> pte p (va - va mod PAGE) = Some (layout_entry (process_at processes slot) segments ((va - USER_BASE) div 4096)))"
proof -
  have sg: "\<forall>s \<in> set segments. segment_ok payload s" using assms(1) by (simp add: image_ok_def)
  note b = slot_ok [OF assms(3,4)]
  obtain p where p: "prepare payload segments processes slot mode command = Some p" "tables_wf p" "p_base p = process_at processes slot"
    "\<And>k. k < NPAGES \<Longrightarrow> ent p k = layout_entry (process_at processes slot) segments k"
    "p_pdpt p = p_pdpt (link_tables (clear_process (process_at processes slot)))"
    "p_pml4 p = p_pml4 (link_tables (clear_process (process_at processes slot)))"
    "p_pd p = p_pd (link_tables (clear_process (process_at processes slot)))"
    using prepare_eq [OF sg assms(2), of processes slot mode] by metis
  have w: "ring3 p va = (let e = layout_entry (process_at processes slot) segments ((va - USER_BASE) div 4096) in
      if in_user va \<and> user_table e then Some e else None)" if va: "va < 2 ^ 48" for va
  proof -
    let ?k = "(va - USER_BASE) div 4096"
    have n: "?k < NPAGES" if "va < USER_BASE + NPAGES * 4096" using that by (simp add: less_mult_imp_div_less) 
    have z: "\<not> user_table (layout_entry (process_at processes slot) segments ?k)" if "USER_STACK_TOP \<le> va"
    proof -
      have "0x842 \<le> ?k" using that by linarith
      then show ?thesis using image_entry_outside [OF sg] by (simp add: layout_entry_def user_table_def)
    qed
    show ?thesis using ring3_walk [OF p(6,5,7,3) conjunct1 [OF b] conjunct2 [OF b] va] p(4) [OF n] z
      by (cases "va < USER_STACK_TOP"; cases "USER_BASE \<le> va") (auto simp: Let_def in_user_def)
  qed
  have e: "pte p (va - va mod PAGE) = Some (layout_entry (process_at processes slot) segments ((va - USER_BASE) div 4096))" if "in_user va" for va
  proof -
    let ?k = "(va - USER_BASE) div 4096"
    have k: "?k < NPAGES" using that by (auto simp: in_user_def less_mult_imp_div_less)
    have "va - va mod PAGE = USER_BASE + ?k * 4096"
    proof (rule page_of)
      show "(USER_BASE + ?k * 4096) mod PAGE = 0" by (rule aligned_add) simp_all
      show "USER_BASE + ?k * 4096 \<le> va" "va < USER_BASE + ?k * 4096 + PAGE"
        using that div_times_less_eq_dividend [of "va - USER_BASE" 4096] dividend_less_div_times [of 4096 "va - USER_BASE"]
        unfolding in_user_def by linarith+
    qed
    then show ?thesis using pte_ent [OF p(2) k] p(4) [OF k] by simp
  qed
  show ?thesis using p(1,2,3) w e by blast
qed


lemma layout_special:
  "layout_entry base segments 0x800 = page_entry (base + 0x808000) (perm False False)"
  "0x802 \<le> k \<Longrightarrow> k < 0x842 \<Longrightarrow> layout_entry base segments k = page_entry (base + 0x809000 + (k - 0x802) * 4096) (perm True False)"
  by (simp_all add: layout_entry_def perm_def)

lemma layout_guard: "\<forall>s \<in> set segments. segment_ok payload s \<Longrightarrow> layout_entry base segments 0x801 = 0"
  using image_entry_outside [where k = "0x801"] by (auto simp: layout_entry_def)

lemma layout_segment:
  assumes "s \<in> set segments" "covers s k" "\<forall>t \<in> set segments. covers t k \<longrightarrow> t = s" "segment_ok payload s"
  shows "layout_entry base segments k = page_entry (base + 0x8000 + k * 4096) (perm (sg_flags s AND 2 \<noteq> 0) (sg_flags s AND 1 \<noteq> 0))"
proof -
  have "image_entry b segments k e = page_entry (b + k * 4096) (segment_flags s)" if "s \<in> set segments \<or> e = page_entry (b + k * 4096) (segment_flags s)"
    "\<forall>t \<in> set segments. covers t k \<longrightarrow> t = s" for b e segments
    using that
  proof (induction segments arbitrary: e)
    case (Cons t ts)
    have "image_entry b (t # ts) k e = image_entry b ts k (if covers t k then page_entry (b + k * 4096) (segment_flags t) else e)"
      by (simp add: image_entry_def)
    also have "\<dots> = page_entry (b + k * 4096) (segment_flags s)" using Cons.prems assms(2) by (intro Cons.IH) auto
    finally show ?case .
  qed (simp add: image_entry_def)
  moreover have "k < 0x7ff" using assms(2,4) by (auto simp: covers_def segment_ok_def)
  ultimately show ?thesis using assms(1,3) by (simp add: layout_entry_def segment_flags_perm)
qed

lemma grants_ring3:
  assumes "image_ok payload segments" "command_ok command" "processes_ok processes" "slot < SLOTS"
    "prepare payload segments processes slot mode command = Some p"
  shows "grants p wrt x \<longleftrightarrow> x < 2 ^ 48 \<and> (\<exists>e. ring3 p x = Some e \<and> (wrt \<longrightarrow> bit e 1))"
  using prepare_ring3 [OF assms(1-4), of mode] assms(5)
  by (cases "x < 2 ^ 48") (auto simp: grants_def user_table_def Let_def in_user_def split: if_splits)

section \<open>Properties\<close>

text \<open>C1: Isolation of address spaces. For an image that passes the checks of the image builder, preparing a
  slot succeeds, and for every address that ring 3 can reach through the resulting page tables: the address is
  in the user range, the page is not both writable and executable, its frame lies in the private memory of
  that process past the page tables, and it is outside every other process. Everything else, the kernel and
  the page tables included, is unreachable from ring 3.\<close>

theorem prepare_isolates:
  assumes "image_ok payload segments" "command_ok command" "processes_ok processes" "slot < SLOTS"
  shows "\<exists>p. prepare payload segments processes slot mode command = Some p \<and>
    (\<forall>va e. va < 2 ^ 48 \<and> ring3 p va = Some e \<longrightarrow>
       in_user va \<and> \<not> (bit e 1 \<and> \<not> bit e 63) \<and>
       process_at processes slot + 0x8000 \<le> frame e \<and> frame e + PAGE \<le> process_at processes slot + PROCESS_SIZE \<and>
       (\<forall>other < SLOTS. other \<noteq> slot \<longrightarrow>
          frame e + PAGE \<le> process_at processes other \<or> process_at processes other + PROCESS_SIZE \<le> frame e))"
proof -
  have sg: "\<forall>s \<in> set segments. segment_ok payload s" using assms(1) by (simp add: image_ok_def)
  obtain p where p: "prepare payload segments processes slot mode command = Some p"
    "\<forall>va < 2 ^ 48. ring3 p va = (let e = layout_entry (process_at processes slot) segments ((va - USER_BASE) div 4096) in
      if in_user va \<and> user_table e then Some e else None)"
    using prepare_ring3 [OF assms] by blast
  have "in_user va \<and> bit e 0 \<and> entry_ok (process_at processes slot) e" if "va < 2 ^ 48" "ring3 p va = Some e" for va e
  proof -
    have i: "in_user va" "user_table e" "e = layout_entry (process_at processes slot) segments ((va - USER_BASE) div 4096)"
      using p(2) that by (auto simp: Let_def split: if_splits)
    then have "(va - USER_BASE) div 4096 < NPAGES" by (auto simp: in_user_def less_mult_imp_div_less)
    then show ?thesis using layout_entry_ok [OF sg, of "process_at processes slot"] slot_ok [OF assms(3,4)] i by (auto simp: user_table_def)
  qed
  moreover have "f + PAGE \<le> process_at processes other \<or> process_at processes other + PROCESS_SIZE \<le> f"
    if "other < SLOTS" "other \<noteq> slot" "process_at processes slot + 0x8000 \<le> f" "f + PAGE \<le> process_at processes slot + PROCESS_SIZE" for other f
    using that assms(4) by (auto simp: process_at_def less_2_cases_iff)
  ultimately show ?thesis using p(1) unfolding entry_ok_def by (intro exI [of _ p]) blast
qed

definition demo_image :: "UserSegment list" where
  "demo_image = [\<lparr>sg_offset = 0, sg_memory_size = 5000, sg_file_size = 3, sg_payload_offset = 0, sg_flags = 5\<rparr>,
     \<lparr>sg_offset = 8192, sg_memory_size = 4096, sg_file_size = 0, sg_payload_offset = 3, sg_flags = 6\<rparr>]"

lemma demo_image_ok: "image_ok [144, 144, 195] demo_image" "command_ok (Some [97, 0])" "processes_ok 0x200000"
  by (simp_all add: image_ok_def demo_image_def segment_ok_def command_ok_def processes_ok_def)

theorem prepare_isolates_witness:
  "\<exists>p. prepare [144, 144, 195] demo_image 0x200000 1 0 (Some [97, 0]) = Some p \<and>
    (\<forall>va e. va < 2 ^ 48 \<and> ring3 p va = Some e \<longrightarrow>
       in_user va \<and> \<not> (bit e 1 \<and> \<not> bit e 63) \<and>
       process_at 0x200000 1 + 0x8000 \<le> frame e \<and> frame e + PAGE \<le> process_at 0x200000 1 + PROCESS_SIZE \<and>
       (\<forall>other < SLOTS. other \<noteq> 1 \<longrightarrow>
          frame e + PAGE \<le> process_at 0x200000 other \<or> process_at 0x200000 other + PROCESS_SIZE \<le> frame e))"
  by (rule prepare_isolates [OF demo_image_ok]) simp

lemma prepare_startup:
  assumes "image_ok payload segments" "command_ok command" "processes_ok processes" "slot < SLOTS"
    "prepare payload segments processes slot mode command = Some p"
  shows "\<exists>e. ring3 p USER_STARTUP = Some e \<and> frame e = startup_at p \<and> \<not> bit e 1 \<and> bit e 63"
proof -
  let ?e = "layout_entry (process_at processes slot) segments 0x800"
  have "ring3 p USER_STARTUP = (if user_table ?e then Some ?e else None)" "p_base p = process_at processes slot"
    using prepare_ring3 [OF assms(1-4), of mode] assms(5) by (auto simp: Let_def in_user_def)
  moreover have "(process_at processes slot + 0x808000) mod 4096 = 0" "process_at processes slot + 0x808000 < 2 ^ 52"
    using slot_ok [OF assms(3,4)] aligned_add [of "process_at processes slot" "0x808000"] by simp_all
  ultimately show ?thesis using page_entry_bits [of "process_at processes slot + 0x808000" False False]
    unfolding layout_special(1) by (simp add: user_table_def startup_at_def)
qed

text \<open>Layout of a prepared process. The startup page is readable only, every stack page is writable and not
  executable, the page below the stack is unmapped, and a page covered by exactly one segment is mapped to the
  image memory of the process with the permissions of the segment.\<close>

lemma prepare_layout:
  assumes "image_ok payload segments" "command_ok command" "processes_ok processes" "slot < SLOTS"
  shows "\<exists>p. prepare payload segments processes slot mode command = Some p \<and>
    (\<exists>e. ring3 p USER_STARTUP = Some e \<and> frame e = startup_at p \<and> \<not> bit e 1 \<and> bit e 63) \<and>
    (\<forall>k < 64. \<exists>e. ring3 p (USER_STACK_BOTTOM + k * PAGE) = Some e \<and> frame e = stack_at p + k * PAGE \<and> bit e 1 \<and> bit e 63) \<and>
    ring3 p (USER_STACK_BOTTOM - PAGE) = None \<and>
    (\<forall>s k. s \<in> set segments \<and> covers s k \<and> (\<forall>t \<in> set segments. covers t k \<longrightarrow> t = s) \<longrightarrow>
       (\<exists>e. ring3 p (USER_BASE + k * PAGE) = Some e \<and> frame e = memory_at p + k * PAGE \<and>
          bit e 1 = (sg_flags s AND 2 \<noteq> 0) \<and> bit e 63 = (sg_flags s AND 1 = 0)))"
proof -
  have sg: "\<forall>s \<in> set segments. segment_ok payload s" using assms(1) by (simp add: image_ok_def)
  let ?b = "process_at processes slot"
  obtain p where p: "prepare payload segments processes slot mode command = Some p" "p_base p = ?b"
    "\<forall>va < 2 ^ 48. ring3 p va = (let e = layout_entry ?b segments ((va - USER_BASE) div 4096) in
      if in_user va \<and> user_table e then Some e else None)"
    using prepare_ring3 [OF assms] by blast
  have w: "ring3 p (USER_BASE + k * PAGE) = (if user_table (layout_entry ?b segments k) then Some (layout_entry ?b segments k) else None)"
    if "k < 0x842" for k
    using p(3) that by (simp add: Let_def in_user_def)
  have bits: "\<exists>e'. (if user_table e then Some e else None) = Some e' \<and> frame e' = phys \<and> bit e' 1 = wr \<and> bit e' 63 = (\<not> ex)"
    if "e = page_entry phys (perm wr ex)" "phys mod 4096 = 0" "phys < 2 ^ 52" for e phys wr ex
    using page_entry_bits [OF that(2,3), of wr ex] that(1) by (simp add: user_table_def)
  have b: "?b mod 4096 = 0" "?b + PROCESS_SIZE \<le> 2 ^ 52" using slot_ok [OF assms(3,4)] by simp_all
  have al: "(?b + 0x809000 + k * 4096) mod 4096 = 0" "(?b + 0x8000 + k * 4096) mod 4096 = 0" for k
    using aligned_add [OF b(1)] by (simp_all add: add.assoc)
  have 1: "\<exists>e. ring3 p USER_STARTUP = Some e \<and> frame e = startup_at p \<and> \<not> bit e 1 \<and> bit e 63"
    by (rule prepare_startup [OF assms p(1)])
  have 2: "\<exists>e. ring3 p (USER_STACK_BOTTOM + k * PAGE) = Some e \<and> frame e = stack_at p + k * PAGE \<and> bit e 1 \<and> bit e 63" if k: "k < 64" for k
  proof -
    have e: "layout_entry ?b segments (0x802 + k) = page_entry (?b + 0x809000 + k * 4096) (perm True False)"
      using layout_special(2) [of "0x802 + k"] k by simp
    have "?b + 0x809000 + k * 4096 < 2 ^ 52" using b(2) k by simp
    from bits [OF e al(1) this] w [of "0x802 + k"] k show ?thesis by (simp add: stack_at_def p(2))
  qed
  have 3: "ring3 p (USER_STACK_BOTTOM - PAGE) = None"
    using w [of "0x801"] layout_guard [OF sg] by (simp add: user_table_def)
  have 4: "\<exists>e. ring3 p (USER_BASE + k * PAGE) = Some e \<and> frame e = memory_at p + k * PAGE \<and>
      bit e 1 = (sg_flags s AND 2 \<noteq> 0) \<and> bit e 63 = (sg_flags s AND 1 = 0)"
    if s: "s \<in> set segments \<and> covers s k \<and> (\<forall>t \<in> set segments. covers t k \<longrightarrow> t = s)" for s k
  proof -
    have ok: "segment_ok payload s" using s sg by blast
    then have k: "k < 0x7ff" using s unfolding covers_def segment_ok_def by linarith
    have e: "layout_entry ?b segments k = page_entry (?b + 0x8000 + k * 4096) (perm (sg_flags s AND 2 \<noteq> 0) (sg_flags s AND 1 \<noteq> 0))"
      using s by (intro layout_segment [OF _ _ _ ok]) auto
    have "?b + 0x8000 + k * 4096 < 2 ^ 52" using b(2) k by simp
    from bits [OF e al(2) this] w [of k] k show ?thesis by (simp add: memory_at_def p(2))
  qed
  show ?thesis using p(1) 1 2 3 4 by blast
qed


lemma prepare_layout_example:
  "\<exists>p. prepare [144, 144, 195] demo_image 0x200000 1 0 (Some [97, 0]) = Some p \<and>
    (\<exists>e. ring3 p USER_STARTUP = Some e \<and> frame e = startup_at p \<and> \<not> bit e 1 \<and> bit e 63) \<and>
    (\<forall>k < 64. \<exists>e. ring3 p (USER_STACK_BOTTOM + k * PAGE) = Some e \<and> frame e = stack_at p + k * PAGE \<and> bit e 1 \<and> bit e 63) \<and>
    ring3 p (USER_STACK_BOTTOM - PAGE) = None \<and>
    (\<forall>s k. s \<in> set demo_image \<and> covers s k \<and> (\<forall>t \<in> set demo_image. covers t k \<longrightarrow> t = s) \<longrightarrow>
       (\<exists>e. ring3 p (USER_BASE + k * PAGE) = Some e \<and> frame e = memory_at p + k * PAGE \<and>
          bit e 1 = (sg_flags s AND 2 \<noteq> 0) \<and> bit e 63 = (sg_flags s AND 1 = 0)))"
  by (rule prepare_layout [OF demo_image_ok]) simp

text \<open>C5: The pointer check of the kernel agrees with the hardware. On a prepared process, a non-empty range passes
  \<^verbatim>\<open>user_range\<close> exactly when ring 3 itself could read (or write) every byte of it; the check always decides,
  also for ranges that wrap around or leave the user area.\<close>

theorem user_range_matches_mmu:
  assumes "image_ok payload segments" "command_ok command" "processes_ok processes" "slot < SLOTS"
    "prepare payload segments processes slot mode command = Some p" "0 < sz"
  shows "user_range (Some p) address sz wrt =
    Some (\<forall>x. address \<le> x \<and> x < address + sz \<longrightarrow> x < 2 ^ 48 \<and> (\<exists>e. ring3 p x = Some e \<and> (wrt \<longrightarrow> bit e 1)))"
proof -
  have "tables_wf p" using prepare_ring3 [OF assms(1-4), of mode] assms(5) by auto
  then show ?thesis using user_range_iff [OF _ assms(6)] grants_ring3 [OF assms(1-5)] by simp
qed

theorem user_range_matches_mmu_witness:
  "\<exists>p. prepare [144, 144, 195] demo_image 0x200000 1 0 (Some [97, 0]) = Some p \<and>
    user_range (Some p) USER_STARTUP 8 True = Some False \<and> user_range (Some p) USER_STARTUP 1 False = Some True"
proof -
  obtain p where p: "prepare [144, 144, 195] demo_image 0x200000 1 0 (Some [97, 0]) = Some p"
    using prepare_ring3 [OF demo_image_ok, of 1 0] by auto
  obtain e where e: "ring3 p USER_STARTUP = Some e" "\<not> bit e 1" using prepare_startup [OF demo_image_ok _ p] by auto
  have "\<not> (\<forall>x. USER_STARTUP \<le> x \<and> x < USER_STARTUP + 8 \<longrightarrow> x < 2 ^ 48 \<and> (\<exists>e. ring3 p x = Some e \<and> (True \<longrightarrow> bit e 1)))"
    using e by (intro notI) (drule spec [of _ USER_STARTUP], simp)
  then have a: "user_range (Some p) USER_STARTUP 8 True = Some False"
    using user_range_matches_mmu [OF demo_image_ok _ p, of 8 USER_STARTUP True] by simp
  have "x = USER_STARTUP" if "USER_STARTUP \<le> x \<and> x < USER_STARTUP + 1" for x using that by simp
  then have "\<forall>x. USER_STARTUP \<le> x \<and> x < USER_STARTUP + 1 \<longrightarrow> x < 2 ^ 48 \<and> (\<exists>e. ring3 p x = Some e \<and> (False \<longrightarrow> bit e 1))"
    using e(1) by fastforce
  then have "user_range (Some p) USER_STARTUP 1 False = Some True"
    using user_range_matches_mmu [OF demo_image_ok _ p, of 1 USER_STARTUP False] by simp
  with p a show ?thesis by blast
qed

end
