(* ===== verification/Gui.thy ===== *)
theory Gui
  imports Clib
begin

text \<open>
  The graphical terminal and launcher of \<^verbatim>\<open>src/jordyOS/gui.c\<close>. The frame buffer of mode 13h is a list of
  64000 bytes and every pixel access is checked against it; the font is the 1024 bytes the boot loader
  leaves at the address stored at \<^verbatim>\<open>0x500\<close>.
\<close>

section \<open>Frame buffer\<close>

abbreviation (input) PIXELS :: nat where "PIXELS \<equiv> 64000"
abbreviation (input) COL_NAVY :: u8 where "COL_NAVY \<equiv> 0"
abbreviation (input) COL_PANEL :: u8 where "COL_PANEL \<equiv> 1"
abbreviation (input) COL_CARD :: u8 where "COL_CARD \<equiv> 2"
abbreviation (input) COL_MUTED :: u8 where "COL_MUTED \<equiv> 3"
abbreviation (input) COL_TEAL :: u8 where "COL_TEAL \<equiv> 4"
abbreviation (input) COL_MINT :: u8 where "COL_MINT \<equiv> 5"
abbreviation (input) COL_GOLD :: u8 where "COL_GOLD \<equiv> 6"
abbreviation (input) COL_WHITE :: u8 where "COL_WHITE \<equiv> 7"
abbreviation (input) COL_INK :: u8 where "COL_INK \<equiv> 8"
abbreviation (input) COL_SELECTED :: u8 where "COL_SELECTED \<equiv> 9"

definition plot :: "bytes \<Rightarrow> int \<Rightarrow> u8 \<Rightarrow> bytes option" where
  "plot px i v = (if 0 \<le> i then wr px (nat i) v else None)"

primrec rect_row :: "nat \<Rightarrow> int \<Rightarrow> u8 \<Rightarrow> bytes \<Rightarrow> bytes option" where
  "rect_row 0 i color px = Some px"
| "rect_row (Suc n) i color px = do { px \<leftarrow> plot px i color; rect_row n (i + 1) color px }"

primrec rect_rows :: "nat \<Rightarrow> int \<Rightarrow> int \<Rightarrow> int \<Rightarrow> u8 \<Rightarrow> bytes \<Rightarrow> bytes option" where
  "rect_rows 0 x yy w color px = Some px"
| "rect_rows (Suc n) x yy w color px = do { px \<leftarrow> rect_row (nat w) (yy * 320 + x) color px; rect_rows n x (yy + 1) w color px }"

definition rect :: "int \<Rightarrow> int \<Rightarrow> int \<Rightarrow> int \<Rightarrow> u8 \<Rightarrow> bytes \<Rightarrow> bytes option" where
  "rect x y w h color px = rect_rows (nat h) x y w color px"

text \<open>One row of a glyph: \<open>n\<close> pixels are left; \<open>bg\<close> is \<open>None\<close> when the background is not painted.\<close>

primrec glyph_row :: "nat \<Rightarrow> int \<Rightarrow> u8 \<Rightarrow> u8 \<Rightarrow> u8 option \<Rightarrow> bytes \<Rightarrow> bytes option" where
  "glyph_row 0 i bits fg bg px = Some px"
| "glyph_row (Suc n) i bits fg bg px = do {
     px \<leftarrow> (if bits AND drop_bit (7 - n) 0x80 \<noteq> 0 then plot px i fg
           else (case bg of None \<Rightarrow> Some px | Some v \<Rightarrow> plot px i v));
     glyph_row n (i + 1) bits fg bg px }"

primrec glyph_rows :: "nat \<Rightarrow> bytes \<Rightarrow> int \<Rightarrow> int \<Rightarrow> nat \<Rightarrow> u8 \<Rightarrow> u8 option \<Rightarrow> bytes \<Rightarrow> bytes option" where
  "glyph_rows 0 font x y at fg bg px = Some px"
| "glyph_rows (Suc n) font x y at fg bg px = do {
     bits \<leftarrow> rd font at;
     px \<leftarrow> glyph_row 8 (y * 320 + x) bits fg bg px;
     glyph_rows n font x (y + 1) (at + 1) fg bg px }"

definition glyph_code :: "u8 \<Rightarrow> nat" where
  "glyph_code c = (if c > 127 then 63 else unat c)"

definition glyph :: "bytes \<Rightarrow> int \<Rightarrow> int \<Rightarrow> u8 \<Rightarrow> u8 \<Rightarrow> u8 \<Rightarrow> bytes \<Rightarrow> bytes option" where
  "glyph font x y c fg bg px = glyph_rows 8 font x y (glyph_code c * 8) fg (Some bg) px"

fun draw_text :: "bytes \<Rightarrow> int \<Rightarrow> int \<Rightarrow> bytes \<Rightarrow> u8 \<Rightarrow> u8 \<Rightarrow> bytes \<Rightarrow> bytes option" where
  "draw_text font x y [] fg bg px = None"
| "draw_text font x y (c # label) fg bg px =
     (if c = 0 then Some px else do { px \<leftarrow> glyph font x y c fg bg px; draw_text font (x + 8) y label fg bg px })"

text \<open>The two sums are of type \<^verbatim>\<open>int\<close>; one that does not fit is undefined.\<close>

abbreviation (input) INT_MAX :: int where "INT_MAX \<equiv> 2147483647"

definition gui_paint :: "int \<Rightarrow> int \<Rightarrow> int \<Rightarrow> int \<Rightarrow> int \<Rightarrow> bytes \<Rightarrow> bytes option" where
  "gui_paint x y w h color px =
     (if w \<le> 0 \<or> h \<le> 0 \<or> x \<ge> 320 \<or> y \<ge> 200 then Some px
      else
        let (w, x) = (if x < 0 then (w + x, 0) else (w, x));
            (h, y) = (if y < 0 then (h + y, 0) else (h, y))
        in if x + w > INT_MAX \<or> y + h > INT_MAX then None
           else let w = (if x + w > 320 then 320 - x else w);
                    h = (if y + h > 200 then 200 - y else h)
             in if w > 0 \<and> h > 0 then rect x y w h (word_of_int color) px else Some px)"

fun drawtext_loop :: "bytes \<Rightarrow> int \<Rightarrow> int \<Rightarrow> bytes \<Rightarrow> u8 \<Rightarrow> bytes \<Rightarrow> bytes option" where
  "drawtext_loop font x y [] color px = None"
| "drawtext_loop font x y (c # label) color px =
     (if c \<noteq> 0 \<and> x \<le> 312 then do {
        px \<leftarrow> (if x \<ge> 0 then glyph_rows 8 font x y (glyph_code c * 8) color None px else Some px);
        drawtext_loop font (x + 8) y label color px }
      else Some px)"

definition gui_drawtext :: "bytes \<Rightarrow> int \<Rightarrow> int \<Rightarrow> bytes \<Rightarrow> int \<Rightarrow> bytes \<Rightarrow> bytes option" where
  "gui_drawtext font x y label color px =
     (if y < 0 \<or> y > 192 then Some px else drawtext_loop font x y label (word_of_int color) px)"

section \<open>Terminal\<close>

record screen =
  sc_pixels :: bytes
  sc_row :: int
  sc_column :: int
  sc_title :: bytes

definition ascii :: "string \<Rightarrow> bytes" where
  "ascii s = map of_char s @ [0]"

definition gui_clear :: "bytes \<Rightarrow> screen \<Rightarrow> screen option" where
  "gui_clear font s = do {
     px \<leftarrow> rect 0 0 320 200 COL_INK (sc_pixels s);
     px \<leftarrow> rect 0 0 320 19 COL_PANEL px;
     px \<leftarrow> rect 0 19 320 1 COL_TEAL px;
     px \<leftarrow> draw_text font 8 6 (sc_title s) COL_WHITE COL_PANEL px;
     px \<leftarrow> rect 0 191 320 9 COL_PANEL px;
     px \<leftarrow> draw_text font 8 192 (ascii ''JordyOS  /  Apelang runtime'') COL_MUTED COL_PANEL px;
     Some (s\<lparr>sc_pixels := px, sc_row := 0, sc_column := 0\<rparr>) }"

definition gui_terminal :: "bytes \<Rightarrow> bytes \<Rightarrow> screen \<Rightarrow> screen option" where
  "gui_terminal font title s = do {
     t \<leftarrow> strncpy (sc_title s) title 37;
     t \<leftarrow> wr t 37 0;
     gui_clear font (s\<lparr>sc_title := t\<rparr>) }"

text \<open>The scroll copies row by row, left to right, from eight rows below.\<close>

primrec scroll_row :: "nat \<Rightarrow> int \<Rightarrow> bytes \<Rightarrow> bytes option" where
  "scroll_row 0 i px = Some px"
| "scroll_row (Suc n) i px = do {
     v \<leftarrow> (if 0 \<le> i then rd px (nat (i + 8 * 320)) else None);
     px \<leftarrow> plot px i v; scroll_row n (i + 1) px }"

primrec scroll_rows :: "nat \<Rightarrow> int \<Rightarrow> bytes \<Rightarrow> bytes option" where
  "scroll_rows 0 y px = Some px"
| "scroll_rows (Suc n) y px = do { px \<leftarrow> scroll_row 304 (y * 320 + 8) px; scroll_rows n (y + 1) px }"

definition put_char :: "bytes \<Rightarrow> u8 \<Rightarrow> screen \<Rightarrow> screen option" where
  "put_char font c s = (let row = sc_row s; column = sc_column s in
     if c = 8 then do {
       let column = (if column > 0 then column - 1 else column);
       px \<leftarrow> rect (8 + column * 8) (24 + row * 8) 8 8 COL_INK (sc_pixels s);
       Some (s\<lparr>sc_pixels := px, sc_column := column\<rparr>) }
     else if c = 10 then Some (s\<lparr>sc_column := 0, sc_row := row + 1\<rparr>)
     else if c = 13 then Some (s\<lparr>sc_column := 0\<rparr>)
     else do {
       px \<leftarrow> glyph font (8 + column * 8) (24 + row * 8) c COL_WHITE COL_INK (sc_pixels s);
       Some (if column + 1 \<ge> 38 then s\<lparr>sc_pixels := px, sc_column := 0, sc_row := row + 1\<rparr>
             else s\<lparr>sc_pixels := px, sc_column := column + 1\<rparr>) })"

definition scroll :: "screen \<Rightarrow> screen option" where
  "scroll s = (if sc_row s \<ge> 20 then do {
       px \<leftarrow> scroll_rows 152 24 (sc_pixels s);
       px \<leftarrow> rect 8 176 304 8 COL_INK px;
       Some (s\<lparr>sc_pixels := px, sc_row := 19\<rparr>) }
     else Some s)"

definition gui_putc :: "bytes \<Rightarrow> u8 \<Rightarrow> screen \<Rightarrow> screen option" where
  "gui_putc font c s = do {
     px \<leftarrow> rect (8 + sc_column s * 8) (24 + sc_row s * 8) 8 8 COL_INK (sc_pixels s);
     s \<leftarrow> put_char font c (s\<lparr>sc_pixels := px\<rparr>);
     s \<leftarrow> scroll s;
     px \<leftarrow> rect (8 + sc_column s * 8) (30 + sc_row s * 8) 7 1 COL_MINT (sc_pixels s);
     Some (s\<lparr>sc_pixels := px\<rparr>) }"

section \<open>Desktop\<close>

definition icon :: "bytes \<Rightarrow> int \<Rightarrow> int \<Rightarrow> int \<Rightarrow> u8 \<Rightarrow> bytes \<Rightarrow> bytes option" where
  "icon font x y index bg px =
     (if index = 0 then do {
        px \<leftarrow> rect x y 25 24 COL_MINT px; px \<leftarrow> rect (x + 3) (y + 3) 19 5 COL_INK px;
        px \<leftarrow> rect (x + 4) (y + 12) 3 3 COL_TEAL px; px \<leftarrow> rect (x + 4) (y + 18) 3 3 COL_TEAL px;
        px \<leftarrow> rect (x + 10) (y + 12) 3 3 COL_TEAL px; px \<leftarrow> rect (x + 10) (y + 18) 3 3 COL_TEAL px;
        px \<leftarrow> rect (x + 16) (y + 12) 3 3 COL_TEAL px; rect (x + 16) (y + 18) 3 3 COL_TEAL px }
      else if index = 1 then do {
        px \<leftarrow> rect (x + 3) y 19 24 COL_GOLD px; px \<leftarrow> rect (x + 7) (y + 5) 11 2 bg px;
        px \<leftarrow> rect (x + 7) (y + 10) 11 2 bg px; rect (x + 7) (y + 15) 8 2 bg px }
      else if index = 2 then do {
        px \<leftarrow> rect x (y + 2) 26 20 COL_TEAL px; draw_text font (x + 1) (y + 8) (ascii ''>_'') COL_MINT COL_TEAL px }
      else do {
        px \<leftarrow> rect x (y + 2) 26 20 COL_MUTED px; px \<leftarrow> rect (x + 2) (y + 4) 22 16 COL_INK px;
        draw_text font (x + 4) (y + 8) (ascii ''>'') COL_WHITE COL_INK px })"

definition labels :: "string list" where
  "labels = [''Calc'', ''Editor'', ''Apelang'', ''Shell'', ''Snake'', ''History'']"
definition files :: "string list" where
  "files = [''calc.ape'', ''edit.ape'', ''REPL'', ''Built-in'', ''snake.ape'', ''history.ape'']"

definition card :: "bytes \<Rightarrow> int \<Rightarrow> nat \<Rightarrow> bytes \<Rightarrow> bytes option" where
  "card font selected i px = (let x = 14 + (int i mod 3) * 100; y = 45 + (int i div 3) * 64;
       bg = (if int i = selected then COL_SELECTED else COL_CARD) in do {
     px \<leftarrow> rect x y 92 62 bg px;
     px \<leftarrow> rect x y 3 62 (if int i = selected then COL_MINT else COL_CARD) px;
     px \<leftarrow> (if i = 4 then do {
         px \<leftarrow> rect (x + 12) (y + 10) 22 7 COL_MINT px; px \<leftarrow> rect (x + 27) (y + 10) 7 20 COL_MINT px;
         px \<leftarrow> rect (x + 12) (y + 23) 20 7 COL_MINT px; px \<leftarrow> rect (x + 14) (y + 12) 2 2 COL_INK px;
         rect (x + 42) (y + 11) 7 7 COL_GOLD px }
       else if i = 5 then do {
         px \<leftarrow> rect (x + 12) (y + 7) 22 24 COL_GOLD px;
         px \<leftarrow> rect (x + 17) (y + 12) 12 2 COL_INK px; px \<leftarrow> rect (x + 17) (y + 18) 12 2 COL_INK px;
         rect (x + 17) (y + 24) 8 2 COL_INK px }
       else icon font (x + 10) (y + 6) (int i) bg px);
     px \<leftarrow> draw_text font (x + 8) (y + 35) (ascii (labels ! i)) COL_WHITE bg px;
     px \<leftarrow> draw_text font (x + (if i = 5 then 3 else 8)) (y + 49) (ascii (files ! i)) (if int i = selected then COL_MINT else COL_MUTED) bg px;
     glyph font (x + 77) (y + 6) (49 + of_nat i) COL_MUTED bg px })"

primrec cards :: "nat \<Rightarrow> bytes \<Rightarrow> int \<Rightarrow> bytes \<Rightarrow> bytes option" where
  "cards 0 font selected px = Some px"
| "cards (Suc n) font selected px = do { px \<leftarrow> cards n font selected px; card font selected n px }"

definition desktop :: "bytes \<Rightarrow> int \<Rightarrow> bytes \<Rightarrow> bytes option" where
  "desktop font selected px = do {
     px \<leftarrow> rect 0 0 320 200 COL_NAVY px; px \<leftarrow> rect 0 0 320 25 COL_PANEL px;
     px \<leftarrow> rect 10 8 7 7 COL_MINT px; px \<leftarrow> draw_text font 25 8 (ascii ''jordyOS'') COL_WHITE COL_PANEL px;
     px \<leftarrow> draw_text font 218 8 (ascii ''Research OS'') COL_MUTED COL_PANEL px;
     px \<leftarrow> cards 6 font selected px;
     px \<leftarrow> rect 0 180 320 20 COL_PANEL px;
     draw_text font 8 186 (ascii ''Tab / arrows: select   Enter: open'') COL_MUTED COL_PANEL px }"

text \<open>One turn of the key loop: an action to return, or the next selection.\<close>

definition desktop_key :: "int \<Rightarrow> u8 \<Rightarrow> int + int" where
  "desktop_key selected c =
     (if 49 \<le> c \<and> c \<le> 54 then Inl (int (unat c) - 49)
      else if c = 10 then Inl selected
      else if c = 27 then Inl 3
      else if c = 9 \<or> c = 0x12 then Inr ((selected + 1) mod 6)
      else if c = 0x11 then Inr ((selected + 5) mod 6)
      else if c = 0x13 \<or> c = 0x14 then Inr (if selected < 3 then selected + 3 else selected - 3)
      else Inr selected)"

section \<open>Drawing stays inside the frame buffer\<close>

definition fb :: "bytes \<Rightarrow> bool" where "fb px \<longleftrightarrow> length px = PIXELS"

definition paints :: "(bytes \<Rightarrow> bytes option) \<Rightarrow> bool" where
  "paints f \<longleftrightarrow> (\<forall>px. fb px \<longrightarrow> (\<exists>px'. f px = Some px' \<and> fb px'))"

named_theorems paint_rules \<open>drawing operations that stay inside the frame buffer\<close>

lemma paintsD: "paints f \<Longrightarrow> fb px \<Longrightarrow> \<exists>px'. f px = Some px' \<and> fb px'"
  by (simp add: paints_def)

lemma paints_bind [paint_rules]: "paints f \<Longrightarrow> paints g \<Longrightarrow> paints (\<lambda>px. Option.bind (f px) g)"
  unfolding paints_def by (metis bind.bind_lunit)

lemma paints_Some [paint_rules]: "paints Some" by (simp add: paints_def)

lemma paints_if [paint_rules]: "(b \<Longrightarrow> paints f) \<Longrightarrow> (\<not> b \<Longrightarrow> paints g) \<Longrightarrow> paints (\<lambda>px. if b then f px else g px)"
  by (simp add: paints_def)

lemma paints_plot: "0 \<le> i \<Longrightarrow> i < int PIXELS \<Longrightarrow> paints (\<lambda>px. plot px i v)"
  by (auto simp: paints_def plot_def fb_def wr_def)

lemma rect_row_eq:
  "0 \<le> i \<Longrightarrow> nat i + n \<le> length px \<Longrightarrow> \<exists>px'. rect_row n i c px = Some px' \<and> length px' = length px \<and>
    (\<forall>j < length px. px' ! j = (if nat i \<le> j \<and> j < nat i + n then c else px ! j))"
proof (induction n arbitrary: i px)
  case (Suc n)
  have b: "nat i < length px" "0 \<le> i + 1" "nat (i + 1) + n \<le> length (px[nat i := c])" "nat (i + 1) = nat i + 1"
    using Suc.prems by simp_all
  from Suc.IH [OF b(2,3)] obtain px' where px': "rect_row n (i + 1) c (px[nat i := c]) = Some px'" "length px' = length px"
    "\<forall>j < length px. px' ! j = (if nat i + 1 \<le> j \<and> j < nat i + 1 + n then c else px[nat i := c] ! j)"
    unfolding b(4) by auto
  have "px' ! j = (if nat i \<le> j \<and> j < nat i + Suc n then c else px ! j)" if "j < length px" for j
    using px'(3) that b(1) by (auto simp: nth_list_update)
  then show ?case using px'(1,2) Suc.prems(1) b(1) by (simp add: plot_def wr_def)
qed auto

lemma rect_rows_eq:
  assumes "0 \<le> x" "0 \<le> w" "x + w \<le> 320"
  shows "0 \<le> y \<Longrightarrow> y + int n \<le> 200 \<Longrightarrow> fb px \<Longrightarrow> \<exists>px'. rect_rows n x y w c px = Some px' \<and> fb px' \<and>
    (\<forall>j < PIXELS. px' ! j = (if y \<le> int (j div 320) \<and> int (j div 320) < y + int n \<and> x \<le> int (j mod 320) \<and> int (j mod 320) < x + w
      then c else px ! j))"
proof (induction n arbitrary: y px)
  case (Suc n)
  have b: "0 \<le> y * 320 + x" "nat (y * 320 + x) = nat y * 320 + nat x" using Suc.prems assms by (simp_all add: nat_add_distrib nat_mult_distrib)
  have b2: "nat (y * 320 + x) + nat w \<le> length px" using Suc.prems(2,3) assms by (simp add: fb_def)
  from rect_row_eq [OF b(1) b2, of c] obtain p1 where p1: "rect_row (nat w) (y * 320 + x) c px = Some p1" "fb p1"
    "\<forall>j < PIXELS. p1 ! j = (if nat y * 320 + nat x \<le> j \<and> j < nat y * 320 + nat x + nat w then c else px ! j)"
    using Suc.prems(3) unfolding b(2) fb_def by auto
  have row: "nat y * 320 + nat x \<le> j \<and> j < nat y * 320 + nat x + nat w \<longleftrightarrow> int (j div 320) = y \<and> x \<le> int (j mod 320) \<and> int (j mod 320) < x + w" for j
  proof
    assume a: "nat y * 320 + nat x \<le> j \<and> j < nat y * 320 + nat x + nat w"
    then have "nat y * 320 \<le> j" "j < nat y * 320 + 320" using assms by linarith+
    then have d: "j div 320 = nat y" by linarith
    then have "j mod 320 = j - nat y * 320" using minus_mult_div_eq_mod [of j 320] by (simp add: mult.commute)
    with d have d: "j div 320 = nat y" "j mod 320 = j - nat y * 320" by blast+
    from d a assms Suc.prems(1) show "int (j div 320) = y \<and> x \<le> int (j mod 320) \<and> int (j mod 320) < x + w" by linarith
  next
    assume a: "int (j div 320) = y \<and> x \<le> int (j mod 320) \<and> int (j mod 320) < x + w"
    then have "j = nat y * 320 + j mod 320" by (metis div_mult_mod_eq nat_int)
    with a assms show "nat y * 320 + nat x \<le> j \<and> j < nat y * 320 + nat x + nat w" by linarith
  qed
  have "0 \<le> y + 1" "y + 1 + int n \<le> 200" using Suc.prems by simp_all
  from Suc.IH [OF this p1(2)] obtain p2 where p2: "rect_rows n x (y + 1) w c p1 = Some p2" "fb p2"
    "\<forall>j < PIXELS. p2 ! j = (if y + 1 \<le> int (j div 320) \<and> int (j div 320) < y + 1 + int n \<and> x \<le> int (j mod 320) \<and> int (j mod 320) < x + w
      then c else p1 ! j)" by blast
  have "p2 ! j = (if y \<le> int (j div 320) \<and> int (j div 320) < y + int (Suc n) \<and> x \<le> int (j mod 320) \<and> int (j mod 320) < x + w
      then c else px ! j)" if "j < PIXELS" for j
    using p2(3) p1(3) that unfolding row by auto
  then show ?case using p1(1) p2(1,2) by auto
qed (auto simp: fb_def)

lemma rect_eq:
  assumes "0 \<le> x" "0 \<le> w" "x + w \<le> 320" "0 \<le> y" "0 \<le> h" "y + h \<le> 200" "fb px"
  shows "\<exists>px'. rect x y w h c px = Some px' \<and> fb px' \<and>
    (\<forall>j < PIXELS. px' ! j = (if y \<le> int (j div 320) \<and> int (j div 320) < y + h \<and> x \<le> int (j mod 320) \<and> int (j mod 320) < x + w
      then c else px ! j))"
  using rect_rows_eq [OF assms(1-4), of "nat h" px c] assms(5-7) by (simp add: rect_def)

lemma paints_rect [paint_rules]:
  "0 \<le> x \<Longrightarrow> 0 \<le> w \<Longrightarrow> x + w \<le> 320 \<Longrightarrow> 0 \<le> y \<Longrightarrow> 0 \<le> h \<Longrightarrow> y + h \<le> 200 \<Longrightarrow> paints (rect x y w h c)"
  using rect_eq unfolding paints_def by blast

lemma paints_glyph_row: "0 \<le> i \<Longrightarrow> i + int n \<le> int PIXELS \<Longrightarrow> paints (glyph_row n i bits fg bg)"
proof (induction n arbitrary: i)
  case (Suc n)
  have "paints (glyph_row n (i + 1) bits fg bg)" using Suc by simp
  moreover have "paints (\<lambda>px. plot px i v)" for v using Suc.prems by (intro paints_plot) auto
  ultimately have "paints (\<lambda>px. Option.bind (if bits AND drop_bit (7 - n) 0x80 \<noteq> 0 then plot px i fg
           else (case bg of None \<Rightarrow> Some px | Some v \<Rightarrow> plot px i v)) (glyph_row n (i + 1) bits fg bg))"
    by (intro paints_bind paints_if) (cases bg; simp add: paints_Some)+
  moreover have "glyph_row (Suc n) i bits fg bg = (\<lambda>px. Option.bind (if bits AND drop_bit (7 - n) 0x80 \<noteq> 0 then plot px i fg
           else (case bg of None \<Rightarrow> Some px | Some v \<Rightarrow> plot px i v)) (glyph_row n (i + 1) bits fg bg))"
    by (rule ext) simp
  ultimately show ?case by simp
qed (simp add: paints_def)

lemma paints_glyph_rows:
  "0 \<le> x \<Longrightarrow> x \<le> 312 \<Longrightarrow> 0 \<le> y \<Longrightarrow> y + int n \<le> 200 \<Longrightarrow> at + n \<le> length font \<Longrightarrow> paints (glyph_rows n font x y at fg bg)"
proof (induction n arbitrary: y at)
  case (Suc n)
  have "paints (glyph_row 8 (y * 320 + x) (font ! at) fg bg)" using Suc.prems by (intro paints_glyph_row) simp_all
  moreover have "paints (glyph_rows n font x (y + 1) (at + 1) fg bg)" using Suc by simp
  ultimately have "paints (\<lambda>px. Option.bind (glyph_row 8 (y * 320 + x) (font ! at) fg bg px) (glyph_rows n font x (y + 1) (at + 1) fg bg))"
    by (rule paints_bind)
  moreover have "glyph_rows (Suc n) font x y at fg bg =
      (\<lambda>px. Option.bind (glyph_row 8 (y * 320 + x) (font ! at) fg bg px) (glyph_rows n font x (y + 1) (at + 1) fg bg))"
    using Suc.prems by (intro ext) (simp add: rd_Some)
  ultimately show ?case by simp
qed (simp add: paints_def)

lemma glyph_code_bound: "glyph_code c < 128"
  by (auto simp: glyph_code_def word_less_nat_alt not_less)

lemma paints_glyph [paint_rules]:
  "length font = 1024 \<Longrightarrow> 0 \<le> x \<Longrightarrow> x \<le> 312 \<Longrightarrow> 0 \<le> y \<Longrightarrow> y \<le> 192 \<Longrightarrow> paints (glyph font x y c fg bg)"
  unfolding glyph_def using glyph_code_bound [of c] by (intro paints_glyph_rows) simp_all

lemma paints_text [paint_rules]:
  "length font = 1024 \<Longrightarrow> is_cstr label \<Longrightarrow> 0 \<le> x \<Longrightarrow> x + 8 * int (length (cstr label)) \<le> 320 \<Longrightarrow> 0 \<le> y \<Longrightarrow> y \<le> 192 \<Longrightarrow>
    paints (draw_text font x y label fg bg)"
proof (induction label arbitrary: x)
  case (Cons c label)
  show ?case
  proof (cases "c = 0")
    case False
    have "paints (\<lambda>px. Option.bind (glyph font x y c fg bg px) (draw_text font (x + 8) y label fg bg))"
      using Cons False by (intro paints_bind paints_glyph Cons.IH) auto
    with False show ?thesis by (simp add: fun_eq_iff)
  qed (simp add: paints_def)
qed simp

lemma paints_drawtext: 
  assumes "length font = 1024" "is_cstr label"
  shows "paints (gui_drawtext font x y label color)"
proof (cases "y < 0 \<or> y > 192")
  case False
  have "is_cstr label \<Longrightarrow> paints (drawtext_loop font x y label v)" for v
  proof (induction label arbitrary: x)
    case (Cons c label)
    have g: "paints (glyph_rows 8 font x y (glyph_code c * 8) v None)" if "0 \<le> x" "x \<le> 312"
      using that False assms(1) glyph_code_bound [of c] by (intro paints_glyph_rows) simp_all
    show ?case
    proof (cases "c \<noteq> 0 \<and> x \<le> 312")
      case True
      have "paints (\<lambda>px. Option.bind (if x \<ge> 0 then glyph_rows 8 font x y (glyph_code c * 8) v None px else Some px) (drawtext_loop font (x + 8) y label v))"
        using Cons True g by (intro paints_bind paints_if paints_Some) auto
      with True show ?thesis by (simp add: fun_eq_iff)
    qed (auto simp: paints_def)
  qed simp
  moreover have "gui_drawtext font x y label color = drawtext_loop font x y label (word_of_int color)"
    using False by (intro ext) (simp add: gui_drawtext_def)
  ultimately show ?thesis using assms(2) by simp
qed (simp add: gui_drawtext_def paints_def)


text \<open>Painting clips the rectangle to the screen.\<close>

lemma clip: "0 \<le> a \<Longrightarrow> a < n \<Longrightarrow> max x 0 \<le> a \<and> a < max x 0 + (min (x + w) n - max x 0) \<longleftrightarrow> x \<le> a \<and> a < x + w" for a n x w :: int
  by (auto simp: max_def min_def)

definition paint_overflows :: "int \<Rightarrow> int \<Rightarrow> int \<Rightarrow> int \<Rightarrow> bool" where
  "paint_overflows x y w h \<longleftrightarrow> w > 0 \<and> h > 0 \<and> x < 320 \<and> y < 200 \<and> (x + w > INT_MAX \<or> y + h > INT_MAX)"

lemma gui_paint_eq:
  assumes "fb px" "\<not> paint_overflows x y w h"
  shows "\<exists>px'. gui_paint x y w h color px = Some px' \<and> fb px' \<and>
    (\<forall>j < PIXELS. px' ! j = (if y \<le> int (j div 320) \<and> int (j div 320) < y + h \<and> x \<le> int (j mod 320) \<and> int (j mod 320) < x + w
      then word_of_int color else px ! j))"
proof -
  define x1 where "x1 = max x 0"
  define y1 where "y1 = max y 0"
  define w1 where "w1 = min (x + w) 320 - x1"
  define h1 where "h1 = min (y + h) 200 - y1"
  have c: "gui_paint x y w h color px = (if w > 0 \<and> h > 0 \<and> x < 320 \<and> y < 200 \<and> w1 > 0 \<and> h1 > 0 then rect x1 y1 w1 h1 (word_of_int color) px else Some px)"
    using assms(2) unfolding paint_overflows_def gui_paint_def x1_def y1_def w1_def h1_def Let_def by (auto simp: max_def min_def add.commute split: prod.splits)
  have i: "y1 \<le> int (j div 320) \<and> int (j div 320) < y1 + h1 \<and> x1 \<le> int (j mod 320) \<and> int (j mod 320) < x1 + w1 \<longleftrightarrow>
      y \<le> int (j div 320) \<and> int (j div 320) < y + h \<and> x \<le> int (j mod 320) \<and> int (j mod 320) < x + w" if "j < PIXELS" for j
  proof -
    have a: "int (j div 320) < 200" "int (j mod 320) < 320" using that by linarith+
    show ?thesis using clip [OF of_nat_0_le_iff a(1), of y h] clip [OF of_nat_0_le_iff a(2), of x w]
      unfolding x1_def y1_def w1_def h1_def by blast
  qed
  show ?thesis
  proof (cases "w > 0 \<and> h > 0 \<and> x < 320 \<and> y < 200 \<and> w1 > 0 \<and> h1 > 0")
    case True
    have b: "0 \<le> x1" "0 \<le> w1" "x1 + w1 \<le> 320" "0 \<le> y1" "0 \<le> h1" "y1 + h1 \<le> 200" using True by (auto simp: x1_def y1_def w1_def h1_def)
    obtain px' where "rect x1 y1 w1 h1 (word_of_int color) px = Some px'" "fb px'"
      "\<forall>j < PIXELS. px' ! j = (if y1 \<le> int (j div 320) \<and> int (j div 320) < y1 + h1 \<and> x1 \<le> int (j mod 320) \<and> int (j mod 320) < x1 + w1
        then word_of_int color else px ! j)" using rect_eq [OF b assms(1), of "word_of_int color"] by blast
    then show ?thesis using i True unfolding c by (intro exI [of _ px']) simp
  next
    case False
    have "\<not> (y \<le> int (j div 320) \<and> int (j div 320) < y + h \<and> x \<le> int (j mod 320) \<and> int (j mod 320) < x + w)" if "j < PIXELS" for j
    proof
      assume a: "y \<le> int (j div 320) \<and> int (j div 320) < y + h \<and> x \<le> int (j mod 320) \<and> int (j mod 320) < x + w"
      moreover have "int (j div 320) < 200" "int (j mod 320) < 320" using that by linarith+
      ultimately have "w > 0" "h > 0" "x < 320" "y < 200" "w1 > 0" "h1 > 0" using i [OF that] by linarith+
      with False show False by blast
    qed
    with False assms(1) show ?thesis unfolding c by auto
  qed
qed

section \<open>The terminal invariant\<close>

definition screen_wf :: "screen \<Rightarrow> bool" where
  "screen_wf s \<longleftrightarrow> fb (sc_pixels s) \<and> 0 \<le> sc_row s \<and> sc_row s < 20 \<and> 0 \<le> sc_column s \<and> sc_column s < 38 \<and>
     length (sc_title s) = 38 \<and> sc_title s ! 37 = 0"

lemma title_cstr: "screen_wf s \<Longrightarrow> is_cstr (sc_title s) \<and> length (cstr (sc_title s)) \<le> 37"
proof -
  assume s: "screen_wf s"
  then have "0 \<in> set (sc_title s)" by (auto simp: screen_wf_def in_set_conv_nth intro!: exI [of _ 37])
  then have "is_cstr (sc_title s)" by (simp add: is_cstr_def)
  with cstr_length [of "sc_title s"] s show ?thesis by (simp add: screen_wf_def)
qed

lemma ascii_cstr: "\<forall>c \<in> set s. of_char c \<noteq> (0 :: u8) \<Longrightarrow> is_cstr (ascii s) \<and> cstr (ascii s) = map of_char s"
  by (auto simp: ascii_def is_cstr_def intro!: cstr_append)

lemma gui_clear_wf:
  assumes "screen_wf s" "length font = 1024"
  shows "\<exists>s'. gui_clear font s = Some s' \<and> screen_wf s' \<and> sc_title s' = sc_title s \<and> sc_row s' = 0 \<and> sc_column s' = 0"
proof -
  have "paints (\<lambda>px. do { px \<leftarrow> rect 0 0 320 200 COL_INK px; px \<leftarrow> rect 0 0 320 19 COL_PANEL px; px \<leftarrow> rect 0 19 320 1 COL_TEAL px;
     px \<leftarrow> draw_text font 8 6 (sc_title s) COL_WHITE COL_PANEL px; px \<leftarrow> rect 0 191 320 9 COL_PANEL px;
     draw_text font 8 192 (ascii ''JordyOS  /  Apelang runtime'') COL_MUTED COL_PANEL px })"
    using title_cstr [OF assms(1)] assms(2) by (intro paint_rules) (simp_all add: ascii_def)
  from paintsD [OF this, of "sc_pixels s"] assms(1) show ?thesis
    by (auto simp: gui_clear_def screen_wf_def Option.bind_eq_Some_conv)
qed


lemma gui_terminal_wf:
  assumes "screen_wf s" "length font = 1024" "is_cstr title" "length (cstr title) \<le> 37"
  shows "\<exists>s'. gui_terminal font title s = Some s' \<and> screen_wf s' \<and> cstr (sc_title s') = cstr title"
proof -
  have l: "length (sc_title s) = 38" using assms(1) by (simp add: screen_wf_def)
  let ?t = "cstr title @ replicate (37 - length (cstr title)) 0 @ drop 37 (sc_title s)"
  have n: "strncpy (sc_title s) title 37 = Some ?t" using assms(3,4) l by (intro strncpy_eq) simp_all
  have lt: "length ?t = 38" using l assms(4) by simp
  have "drop 37 (sc_title s) = [sc_title s ! 37]" using l Cons_nth_drop_Suc [of 37 "sc_title s"] by simp
  then have "?t[37 := 0] = cstr title @ replicate (37 - length (cstr title)) 0 @ [0]"
    using l assms(4) by (simp add: list_update_append not_less)
  also have "\<dots> = cstr title @ 0 # replicate (37 - length (cstr title)) 0" by (simp add: replicate_append_same)
  finally have c: "cstr (?t[37 := 0]) = cstr title" using cstr_no_nul by simp
  have "screen_wf (s\<lparr>sc_title := ?t[37 := 0]\<rparr>)" using assms(1) lt by (simp add: screen_wf_def)
  from gui_clear_wf [OF this assms(2)] c show ?thesis using n lt by (auto simp: gui_terminal_def wr_def)
qed

lemma paints_scroll_row: "0 \<le> i \<Longrightarrow> i + int n + 2560 \<le> int PIXELS \<Longrightarrow> paints (scroll_row n i)"
proof (induction n arbitrary: i)
  case (Suc n)
  show ?case unfolding paints_def
  proof (intro allI impI)
    fix px assume px: "fb px"
    let ?px = "px[nat i := px ! nat (i + 2560)]"
    have "fb ?px" using px by (simp add: fb_def)
    moreover have "paints (scroll_row n (i + 1))" using Suc by simp
    ultimately obtain q where "scroll_row n (i + 1) ?px = Some q" "fb q" using paintsD by blast
    then show "\<exists>q. scroll_row (Suc n) i px = Some q \<and> fb q"
      using Suc.prems px by (simp add: rd_Some fb_def plot_def wr_Some nat_add_distrib)
  qed
qed (simp add: paints_def)

lemma paints_scroll_rows: "0 \<le> y \<Longrightarrow> y + int n \<le> 192 \<Longrightarrow> paints (scroll_rows n y)"
proof (induction n arbitrary: y)
  case (Suc n)
  have "paints (\<lambda>px. Option.bind (scroll_row 304 (y * 320 + 8) px) (scroll_rows n (y + 1)))"
    using Suc by (intro paints_bind paints_scroll_row Suc.IH) simp_all
  then show ?case by (simp add: fun_eq_iff)
qed (simp add: paints_def)

text \<open>Between drawing the character and scrolling, the row may be one past the last.\<close>

definition screen_mid :: "screen \<Rightarrow> bool" where
  "screen_mid s \<longleftrightarrow> fb (sc_pixels s) \<and> 0 \<le> sc_row s \<and> sc_row s \<le> 20 \<and> 0 \<le> sc_column s \<and> sc_column s < 38 \<and>
     length (sc_title s) = 38 \<and> sc_title s ! 37 = 0"

lemma put_char_mid:
  assumes "screen_wf s" "length font = 1024"
  shows "\<exists>s'. put_char font c s = Some s' \<and> screen_mid s' \<and> sc_title s' = sc_title s"
proof -
  have p: "paints (rect (8 + col * 8) (24 + sc_row s * 8) 8 8 COL_INK)" "paints (glyph font (8 + col * 8) (24 + sc_row s * 8) c COL_WHITE COL_INK)"
    if "0 \<le> col" "col < 38" for col
    using that assms by (auto intro!: paint_rules simp: screen_wf_def)
  have f: "fb (sc_pixels s)" using assms(1) by (simp add: screen_wf_def)
  let ?col = "if sc_column s > 0 then sc_column s - 1 else sc_column s"
  have c: "0 \<le> ?col" "?col < 38" "0 \<le> sc_column s" "sc_column s < 38" using assms(1) by (auto simp: screen_wf_def)
  obtain p1 p2 where "rect (8 + ?col * 8) (24 + sc_row s * 8) 8 8 COL_INK (sc_pixels s) = Some p1" "fb p1"
    "glyph font (8 + sc_column s * 8) (24 + sc_row s * 8) c COL_WHITE COL_INK (sc_pixels s) = Some p2" "fb p2"
    using paintsD [OF p(1) [OF c(1,2)] f] paintsD [OF p(2) [OF c(3,4)] f] by blast
  then show ?thesis using assms(1) unfolding put_char_def by (auto simp: Let_def screen_wf_def screen_mid_def)
qed

lemma scroll_wf:
  assumes "screen_mid s"
  shows "\<exists>s'. scroll s = Some s' \<and> screen_wf s' \<and> sc_title s' = sc_title s"
proof -
  have "paints (\<lambda>px. Option.bind (scroll_rows 152 24 px) (rect 8 176 304 8 COL_INK))"
    by (intro paint_rules paints_scroll_rows) simp_all
  from paintsD [OF this, of "sc_pixels s"] assms show ?thesis
    by (auto simp: scroll_def screen_wf_def screen_mid_def Option.bind_eq_Some_conv)
qed

lemma gui_putc_wf:
  assumes "screen_wf s" "length font = 1024"
  shows "\<exists>s'. gui_putc font c s = Some s' \<and> screen_wf s' \<and> sc_title s' = sc_title s"
proof -
  have "paints (rect (8 + sc_column s * 8) (24 + sc_row s * 8) 8 8 COL_INK)" using assms by (intro paint_rules) (simp_all add: screen_wf_def)
  then obtain p1 where p1: "rect (8 + sc_column s * 8) (24 + sc_row s * 8) 8 8 COL_INK (sc_pixels s) = Some p1" "fb p1"
    using paintsD assms(1) unfolding screen_wf_def by blast
  have "screen_wf (s\<lparr>sc_pixels := p1\<rparr>)" using assms(1) p1(2) by (simp add: screen_wf_def)
  from put_char_mid [OF this assms(2), of c] obtain s2 where s2: "put_char font c (s\<lparr>sc_pixels := p1\<rparr>) = Some s2" "screen_mid s2" "sc_title s2 = sc_title s" by auto
  from scroll_wf [OF s2(2)] obtain s3 where s3: "scroll s2 = Some s3" "screen_wf s3" "sc_title s3 = sc_title s2" by blast
  have "paints (rect (8 + sc_column s3 * 8) (30 + sc_row s3 * 8) 7 1 COL_MINT)" using s3(2) by (intro paint_rules) (simp_all add: screen_wf_def)
  then obtain p4 where "rect (8 + sc_column s3 * 8) (30 + sc_row s3 * 8) 7 1 COL_MINT (sc_pixels s3) = Some p4" "fb p4"
    using paintsD s3(2) unfolding screen_wf_def by blast
  then show ?thesis using p1 s2 s3 by (simp add: gui_putc_def screen_wf_def)
qed


section \<open>The desktop\<close>

lemma paints_icon:
  assumes "length font = 1024" "0 \<le> x" "x \<le> 290" "0 \<le> y" "y \<le> 170"
  shows "paints (icon font x y index bg)"
  unfolding icon_def by (intro paint_rules) (use assms in \<open>simp_all add: ascii_def\<close>)

lemma labels_fit: "i < 6 \<Longrightarrow> is_cstr (ascii (labels ! i)) \<and> length (cstr (ascii (labels ! i))) \<le> 7 \<and>
    is_cstr (ascii (files ! i)) \<and> length (cstr (ascii (files ! i))) \<le> 11"
  by (auto simp: labels_def files_def ascii_def less_Suc_eq numeral_eq_Suc)

lemma paints_card:
  assumes "length font = 1024" "i < 6"
  shows "paints (card font selected i)"
proof -
  have m: "0 \<le> int i mod 3" "int i mod 3 \<le> 2" "0 \<le> int i div 3" "int i div 3 \<le> 1" using assms(2) by (auto simp: zmod_int zdiv_int)
  show ?thesis unfolding card_def Let_def
    using m labels_fit [OF assms(2)] assms by (intro paint_rules paints_icon) (simp_all, auto)
qed

lemma paints_cards: "length font = 1024 \<Longrightarrow> n \<le> 6 \<Longrightarrow> paints (cards n font selected)"
proof (induction n)
  case (Suc n)
  have "paints (\<lambda>px. Option.bind (cards n font selected px) (card font selected n))"
    using Suc by (intro paints_bind paints_card) simp_all
  then show ?case by (simp add: fun_eq_iff)
qed (simp add: paints_def)

lemma paints_desktop: "length font = 1024 \<Longrightarrow> paints (desktop font selected)"
  unfolding desktop_def by (intro paint_rules paints_cards) (simp_all add: ascii_def)


lemma desktop_key_range:
  assumes "0 \<le> selected" "selected < 6"
  shows "case desktop_key selected c of Inl action \<Rightarrow> 0 \<le> action \<and> action < 6 | Inr next \<Rightarrow> 0 \<le> next \<and> next < 6"
proof -
  have "49 \<le> uint c \<and> uint c \<le> 54" if "49 \<le> c" "c \<le> 54" using that by (simp add: word_le_def)
  with assms show ?thesis by (auto simp: desktop_key_def)
qed

section \<open>Properties\<close>

text \<open>C27: Painting is a clipped fill. When a right or lower edge does not fit an \<^verbatim>\<open>int\<close>, and the call is not refused before it
  is computed, the behaviour is undefined. In every other case, for any coordinates and sizes, negative and off-screen ones
  included, the painter writes inside the frame buffer only and sets exactly the pixels of the requested rectangle that are
  on the screen.\<close>

theorem gui_paint_clips:
  assumes "length px = PIXELS"
  shows "if w > 0 \<and> h > 0 \<and> x < 320 \<and> y < 200 \<and> (x + w > 2147483647 \<or> y + h > 2147483647) then gui_paint x y w h color px = None
    else \<exists>px'. gui_paint x y w h color px = Some px' \<and> length px' = PIXELS \<and>
      (\<forall>j < PIXELS. px' ! j = (if y \<le> int (j div 320) \<and> int (j div 320) < y + h \<and> x \<le> int (j mod 320) \<and> int (j mod 320) < x + w
        then word_of_int color else px ! j))"
proof (cases "paint_overflows x y w h")
  case True
  then show ?thesis by (auto simp: paint_overflows_def gui_paint_def Let_def split: prod.splits)
next
  case False
  then have n: "\<not> (w > 0 \<and> h > 0 \<and> x < 320 \<and> y < 200 \<and> (x + w > 2147483647 \<or> y + h > 2147483647))" unfolding paint_overflows_def .
  from gui_paint_eq [of px x y w h color] assms False show ?thesis unfolding if_not_P [OF n] fb_def by blast
qed

theorem gui_paint_clips_witness:
  "\<exists>px'. gui_paint (-5) 190 300 100 3 (replicate PIXELS 0) = Some px' \<and> px' ! (195 * 320 + 294) = 3 \<and> px' ! (195 * 320 + 295) = 0"
proof -
  obtain px' where "gui_paint (-5) 190 300 100 3 (replicate PIXELS 0) = Some px'"
    "\<forall>j < PIXELS. px' ! j = (if 190 \<le> int (j div 320) \<and> int (j div 320) < 190 + 100 \<and> -5 \<le> int (j mod 320) \<and> int (j mod 320) < -5 + 300
      then word_of_int 3 else replicate PIXELS 0 ! j)"
    using gui_paint_clips [where px = "replicate PIXELS 0" and x = "-5" and y = 190 and w = 300 and h = 100 and color = 3] by auto
  then show ?thesis by (intro exI [of _ px']) simp
qed

end
