(* ===== verification/Console.thy ===== *)
theory Console
  imports Gui
begin

text \<open>
  The console of \<^verbatim>\<open>src/jordyOS/kernel.c\<close>: keyboard and serial input, output to the serial port and the
  screen, the line editor, and the timer wait of \<^verbatim>\<open>src/jordyOS/ape/platform.c\<close>. What the input ports hold at the \<open>t\<close>-th poll is an infinite sequence, so
  that waiting for a key is a loop that may run forever: it is a partial function and \<open>None\<close> also stands
  for a call that never returns. The busy wait for the serial transmitter has no effect and is left out.
\<close>

section \<open>Input\<close>

record ports =
  in_lsr :: u8 \<comment> \<open>\<^verbatim>\<open>inb(0x3fd)\<close>\<close>
  in_rbr :: u8 \<comment> \<open>\<^verbatim>\<open>inb(0x3f8)\<close>\<close>
  in_kbs :: u8 \<comment> \<open>\<^verbatim>\<open>inb(0x64)\<close>\<close>
  in_kbd :: u8 \<comment> \<open>\<^verbatim>\<open>inb(0x60)\<close>\<close>
  in_pit :: u8 \<comment> \<open>\<^verbatim>\<open>inb(0x61)\<close>\<close>

type_synonym shift = "bool \<times> bool" \<comment> \<open>\<^verbatim>\<open>left_shift\<close>, \<^verbatim>\<open>right_shift\<close>\<close>

definition key_map :: bytes where
  "key_map = [0, 27, 49, 50, 51, 52, 53, 54, 55, 56, 57, 48, 45, 61, 8, 9, 113, 119, 101, 114, 116, 121, 117, 105, 111, 112, 91, 93, 10, 0, 97, 115, 100, 102, 103, 104, 106, 107, 108, 59, 39, 96, 0, 92, 122, 120, 99, 118, 98, 110, 109, 44, 46, 47, 0, 42, 0, 32]"

definition key_shifted :: bytes where
  "key_shifted = [0, 0, 33, 64, 35, 36, 37, 94, 38, 42, 40, 41, 95, 43, 0, 0, 0, 0, 0, 0, 0, 0, 0, 0, 0, 0, 123, 125, 0, 0, 0, 0, 0, 0, 0, 0, 0, 0, 0, 58, 34, 126, 0, 124, 0, 0, 0, 0, 0, 0, 0, 60, 62, 63, 0, 0, 0, 0]"

definition scan_code :: "u8 \<Rightarrow> shift \<Rightarrow> u8 \<times> shift" where
  "scan_code sc sh =
     (if sc = 42 \<or> sc = 0xaa then (0, sc = 42, snd sh)
      else if sc = 54 \<or> sc = 0xb6 then (0, fst sh, sc = 54)
      else if sc AND 0x80 \<noteq> 0 then (0, sh)
      else if sc = 0x4b then (0x11, sh)
      else if sc = 0x4d then (0x12, sh)
      else if sc = 0x48 then (0x13, sh)
      else if sc = 0x50 then (0x14, sh)
      else if sc < 0x3a \<and> key_map ! unat sc \<noteq> 0 then
        let c = key_map ! unat sc in
        (if fst sh \<or> snd sh then
           if 97 \<le> c \<and> c \<le> 122 then c - 32
           else if key_shifted ! unat sc \<noteq> 0 then key_shifted ! unat sc else c
         else c, sh)
      else (0, sh))"

definition decode_key :: "ports \<Rightarrow> shift \<Rightarrow> u8 \<times> shift" where
  "decode_key p sh =
     (if in_lsr p AND 1 \<noteq> 0 then (if in_rbr p = 13 then 10 else in_rbr p, sh)
      else if in_kbs p AND 1 \<noteq> 0 then scan_code (in_kbd p) sh
      else (0, sh))"

record 'n device =
  d_ports :: "nat \<Rightarrow> ports"
  d_polls :: nat
  d_shift :: shift
  d_serial :: bytes
  d_out :: "(nat \<times> u8) list" \<comment> \<open>values written to the timer ports\<close>
  d_font :: bytes
  d_screen :: screen
  d_net :: 'n

definition poll_ch :: "('n \<Rightarrow> 'n) \<Rightarrow> 'n device \<Rightarrow> u8 \<times> 'n device" where
  "poll_ch rtl_poll d = (case decode_key (d_ports d (d_polls d)) (d_shift d) of
     (c, sh) \<Rightarrow> (c, d\<lparr>d_polls := d_polls d + 1, d_shift := sh, d_net := rtl_poll (d_net d)\<rparr>))"

partial_function (option) get_ch :: "('n \<Rightarrow> 'n) \<Rightarrow> 'n device \<Rightarrow> (u8 \<times> 'n device) option" where
  "get_ch rtl_poll d = (case poll_ch rtl_poll d of (c, d') \<Rightarrow> if c \<noteq> 0 then Some (c, d') else get_ch rtl_poll d')"

section \<open>Output\<close>

definition putc :: "u8 \<Rightarrow> 'n device \<Rightarrow> 'n device option" where
  "putc c d = do {
     s \<leftarrow> gui_putc (d_font d) c (d_screen d);
     Some (d\<lparr>d_serial := d_serial d @ (if c = 10 then [13, 10] else [c]), d_screen := s\<rparr>) }"

fun puts :: "bytes \<Rightarrow> 'n device \<Rightarrow> 'n device option" where
  "puts [] d = None"
| "puts (c # s) d = (if c = 0 then Some d else do { d \<leftarrow> putc c d; puts s d })"

section \<open>The line editor\<close>

partial_function (option) read_loop ::
  "('n \<Rightarrow> 'n) \<Rightarrow> nat \<Rightarrow> bytes \<Rightarrow> nat \<Rightarrow> 'n device \<Rightarrow> (bytes \<times> nat \<times> 'n device) option" where
  "read_loop rtl_poll mx buf len d = do {
     (c, d) \<leftarrow> get_ch rtl_poll d;
     if c = 10 then do { d \<leftarrow> putc 10 d; Some (buf, len, d) }
     else if (c = 8 \<or> c = 127) \<and> len > 0 then do {
       d \<leftarrow> puts [8, 32, 8, 0] d; read_loop rtl_poll mx buf (len - 1) d }
     else if 32 \<le> c \<and> c < 127 \<and> len < mx - 1 then do {
       buf \<leftarrow> wr buf len c; d \<leftarrow> putc c d; read_loop rtl_poll mx buf (len + 1) d }
     else read_loop rtl_poll mx buf len d }"

definition read_line :: "('n \<Rightarrow> 'n) \<Rightarrow> bytes option \<Rightarrow> int \<Rightarrow> 'n device \<Rightarrow> (bytes option \<times> 'n device) option" where
  "read_line rtl_poll buf mx d = (case buf of None \<Rightarrow> Some (None, d)
     | Some b \<Rightarrow> if mx \<le> 0 then Some (Some b, d) else do {
         (b, len, d) \<leftarrow> read_loop rtl_poll (nat mx) b 0 d;
         b \<leftarrow> wr b len 0;
         Some (Some b, d) })"

section \<open>The timer\<close>

definition port_write :: "nat \<Rightarrow> u8 \<Rightarrow> 'n device \<Rightarrow> 'n device" where
  "port_write port v d = d\<lparr>d_out := d_out d @ [(port, v)]\<rparr>"

partial_function (option) tick_wait :: "('n \<Rightarrow> 'n) \<Rightarrow> 'n device \<Rightarrow> 'n device option" where
  "tick_wait rtl_poll d = (let v = in_pit (d_ports d (d_polls d)); d = d\<lparr>d_polls := d_polls d + 1\<rparr> in
     if v AND 0x20 \<noteq> 0 then Some d else tick_wait rtl_poll (d\<lparr>d_net := rtl_poll (d_net d)\<rparr>))"

definition arm_timer :: "u8 \<Rightarrow> nat \<Rightarrow> 'n device \<Rightarrow> 'n device" where
  "arm_timer gate step d = (let count = of_nat (step * 1193) :: u16 in
     port_write 0x61 (gate AND NOT 2 OR 1) (port_write 0x42 (ucast (drop_bit 8 count)) (port_write 0x42 (ucast (count AND 255))
       (port_write 0x43 0xb0 (port_write 0x61 (gate AND NOT 3) d)))))"

function wait_loop :: "('n \<Rightarrow> 'n) \<Rightarrow> u8 \<Rightarrow> nat \<Rightarrow> 'n device \<Rightarrow> 'n device option" where
  "wait_loop rtl_poll gate ms d =
     (if ms = 0 then Some d
      else let step = (if ms > 50 then 50 else ms) in do {
        d \<leftarrow> tick_wait rtl_poll (arm_timer gate step d);
        wait_loop rtl_poll gate (ms - step) d })"
  by pat_completeness auto
termination
  by (relation "measure (\<lambda>(rtl, gate, ms, d). ms)") auto

declare wait_loop.simps [simp del]

definition ape_wait :: "('n \<Rightarrow> 'n) \<Rightarrow> nat \<Rightarrow> 'n device \<Rightarrow> 'n device option" where
  "ape_wait rtl_poll ms d = (let gate = in_pit (d_ports d (d_polls d)) in do {
     d \<leftarrow> wait_loop rtl_poll gate ms (d\<lparr>d_polls := d_polls d + 1\<rparr>);
     Some (port_write 0x61 gate d) })"

section \<open>The launcher\<close>

definition redraw :: "int \<Rightarrow> 'n device \<Rightarrow> 'n device option" where
  "redraw selected d = do {
     px \<leftarrow> desktop (d_font d) selected (sc_pixels (d_screen d));
     Some (d\<lparr>d_screen := (d_screen d)\<lparr>sc_pixels := px\<rparr>\<rparr>) }"

text \<open>A key that moves the selection always changes it, so the desktop is drawn again exactly then.\<close>

partial_function (option) desktop_loop :: "('n \<Rightarrow> 'n) \<Rightarrow> int \<Rightarrow> 'n device \<Rightarrow> (int \<times> 'n device) option" where
  "desktop_loop rtl_poll selected d = do {
     (c, d) \<leftarrow> get_ch rtl_poll d;
     (case desktop_key selected c of
        Inl action \<Rightarrow> Some (action, d)
      | Inr next \<Rightarrow> do { d \<leftarrow> (if next = selected then Some d else redraw next d); desktop_loop rtl_poll next d }) }"

definition desktop_banner :: bytes where
  "desktop_banner = ascii ([CHR 0x0A] @ ''Desktop: 1 Calculator, 2 Editor, 3 Apelang, 4 Shell, 5 Snake, 6 History'' @ [CHR 0x0A] @ ''desktop> '')"

definition gui_desktop :: "('n \<Rightarrow> 'n) \<Rightarrow> 'n device \<Rightarrow> (int \<times> 'n device) option" where
  "gui_desktop rtl_poll d = do {
     d \<leftarrow> redraw 0 d; d \<leftarrow> puts desktop_banner d; d \<leftarrow> redraw 0 d;
     desktop_loop rtl_poll 0 d }"

section \<open>What is typed\<close>

text \<open>The characters of the next \<open>n\<close> polls, and the shift state after them.\<close>

primrec keys :: "(nat \<Rightarrow> ports) \<Rightarrow> nat \<Rightarrow> shift \<Rightarrow> nat \<Rightarrow> bytes \<times> shift" where
  "keys inp t sh 0 = ([], sh)"
| "keys inp t sh (Suc n) = (case decode_key (inp t) sh of (c, sh) \<Rightarrow>
     (case keys inp (Suc t) sh n of (cs, sh) \<Rightarrow> (if c = 0 then cs else c # cs, sh)))"

definition edit_key :: "nat \<Rightarrow> u8 \<Rightarrow> bytes \<Rightarrow> bytes" where
  "edit_key mx c line =
     (if (c = 8 \<or> c = 127) \<and> line \<noteq> [] then butlast line
      else if 32 \<le> c \<and> c < 127 \<and> length line < mx - 1 then line @ [c]
      else line)"

text \<open>Enter arrives on the serial line again and again, and the timer expires again and again.\<close>

definition enters :: "(nat \<Rightarrow> ports) \<Rightarrow> nat \<Rightarrow> bool" where
  "enters inp t \<longleftrightarrow> in_lsr (inp t) AND 1 \<noteq> 0 \<and> (in_rbr (inp t) = 10 \<or> in_rbr (inp t) = 13)"

definition attended :: "(nat \<Rightarrow> ports) \<Rightarrow> bool" where
  "attended inp \<longleftrightarrow> (\<forall>t. \<exists>t' \<ge> t. enters inp t') \<and> (\<forall>t. \<exists>t' \<ge> t. in_pit (inp t') AND 0x20 \<noteq> 0)"

definition device_wf :: "'n device \<Rightarrow> bool" where
  "device_wf d \<longleftrightarrow> screen_wf (d_screen d) \<and> length (d_font d) = 1024 \<and> attended (d_ports d)"

lemma enters_decode: "enters inp t \<Longrightarrow> decode_key (inp t) sh = (10, sh)"
  by (auto simp: enters_def decode_key_def)

lemma keys_append: "keys inp t sh (m + n) = (case keys inp t sh m of (cs, sh') \<Rightarrow> (case keys inp (t + m) sh' n of (ds, sh'') \<Rightarrow> (cs @ ds, sh'')))"
  by (induction m arbitrary: t sh) (auto split: prod.splits)

text \<open>A key that waits at poll \<open>t\<close>, whatever the shift state, is read at the latest then.\<close>

lemma get_ch_at:
  assumes "\<And>sh. decode_key (d_ports d t) sh = (k, sh)" "k \<noteq> 0" "d_polls d \<le> t"
  shows "\<exists>c n sh net. 0 < n \<and> d_polls d + n \<le> t + 1 \<and> c \<noteq> 0 \<and> (d_polls d + n = t + 1 \<longrightarrow> c = k) \<and>
    keys (d_ports d) (d_polls d) (d_shift d) n = ([c], sh) \<and>
    get_ch rtl_poll d = Some (c, d\<lparr>d_polls := d_polls d + n, d_shift := sh, d_net := net\<rparr>)"
  using assms
proof (induction "t - d_polls d" arbitrary: d rule: less_induct)
  case less
  obtain c sh where c: "decode_key (d_ports d (d_polls d)) (d_shift d) = (c, sh)" by (metis surj_pair)
  let ?d = "d\<lparr>d_polls := d_polls d + 1, d_shift := sh, d_net := rtl_poll (d_net d)\<rparr>"
  have p: "poll_ch rtl_poll d = (c, ?d)" by (simp add: poll_ch_def c)
  show ?case
  proof (cases "c = 0")
    case False
    have "d_polls d + 1 = t + 1 \<longrightarrow> c = k" using c less.prems(1) [of "d_shift d"] by auto
    moreover have "get_ch rtl_poll d = Some (c, ?d)" using p False by (subst get_ch.simps) simp
    ultimately show ?thesis using False c less.prems(3)
      by (intro exI [of _ c] exI [of _ "1 :: nat"] exI [of _ sh] exI [of _ "rtl_poll (d_net d)"]) simp
  next
    case True
    then have "d_polls d \<noteq> t" using c less.prems(1) [of "d_shift d"] less.prems(2) by auto
    then have lt: "d_polls d < t" using less.prems(3) by simp
    have "\<And>sh. decode_key (d_ports ?d t) sh = (k, sh)" "d_polls ?d \<le> t" "t - d_polls ?d < t - d_polls d" using less.prems lt by simp_all
    from less.hyps [OF this(3,1) less.prems(2) this(2)] obtain c' n sh' net where n: "0 < n" "d_polls d + 1 + n \<le> t + 1" "c' \<noteq> 0" "d_polls d + 1 + n = t + 1 \<longrightarrow> c' = k"
      "keys (d_ports d) (d_polls d + 1) sh n = ([c'], sh')"
      "get_ch rtl_poll ?d = Some (c', ?d\<lparr>d_polls := d_polls d + 1 + n, d_shift := sh', d_net := net\<rparr>)" by auto
    have "get_ch rtl_poll d = Some (c', d\<lparr>d_polls := d_polls d + Suc n, d_shift := sh', d_net := net\<rparr>)"
      using p True n(6) by (subst get_ch.simps) simp
    moreover have "keys (d_ports d) (d_polls d) (d_shift d) (Suc n) = ([c'], sh')" using c True n(5) by simp
    ultimately show ?thesis using n(1-4) by (intro exI [of _ c'] exI [of _ "Suc n"] exI [of _ sh'] exI [of _ net]) simp
  qed
qed

lemma get_ch_returns:
  assumes "enters (d_ports d) t" "d_polls d \<le> t"
  shows "\<exists>c n sh net. 0 < n \<and> d_polls d + n \<le> t + 1 \<and> c \<noteq> 0 \<and> (d_polls d + n = t + 1 \<longrightarrow> c = 10) \<and>
    keys (d_ports d) (d_polls d) (d_shift d) n = ([c], sh) \<and>
    get_ch rtl_poll d = Some (c, d\<lparr>d_polls := d_polls d + n, d_shift := sh, d_net := net\<rparr>)"
  using get_ch_at [OF enters_decode [OF assms(1)] _ assms(2)] by simp

lemma putc_wf:
  assumes "device_wf d"
  shows "\<exists>s. putc c d = Some (d\<lparr>d_serial := d_serial d @ (if c = 10 then [13, 10] else [c]), d_screen := s\<rparr>) \<and> screen_wf s"
  using gui_putc_wf [of "d_screen d" "d_font d" c] assms by (auto simp: putc_def device_wf_def)

definition same_input :: "'n device \<Rightarrow> 'n device \<Rightarrow> bool" where
  "same_input d d' \<longleftrightarrow> d_ports d' = d_ports d \<and> d_polls d' = d_polls d \<and> d_shift d' = d_shift d \<and> d_net d' = d_net d"

lemma putc_same: "device_wf d \<Longrightarrow> \<exists>d'. putc c d = Some d' \<and> device_wf d' \<and> same_input d d'"
  using putc_wf [of d c] by (auto simp: device_wf_def same_input_def)

lemma puts_same:
  "device_wf d \<Longrightarrow> is_cstr s \<Longrightarrow> \<exists>d'. puts s d = Some d' \<and> device_wf d' \<and> same_input d d'"
proof (induction s arbitrary: d)
  case (Cons c s)
  show ?case
  proof (cases "c = 0")
    case False
    obtain d1 where d1: "putc c d = Some d1" "device_wf d1" "same_input d d1" using putc_same [OF Cons.prems(1)] by blast
    then obtain d2 where "puts s d1 = Some d2" "device_wf d2" "same_input d1 d2" using Cons False by auto
    with d1 False show ?thesis by (auto simp: same_input_def)
  qed (use Cons.prems in \<open>simp add: same_input_def\<close>)
qed simp

text \<open>The buffer holds the edited line at its head; what was typed past a deletion stays behind it.\<close>

lemma read_loop_returns:
  assumes "0 < mx"
  shows "device_wf d \<Longrightarrow> enters (d_ports d) t \<Longrightarrow> d_polls d \<le> t \<Longrightarrow> mx \<le> length buf \<Longrightarrow> len < mx \<Longrightarrow>
    \<exists>buf' cs n d'. read_loop rtl_poll mx buf len d = Some (buf', length (fold (edit_key mx) cs (take len buf)), d') \<and>
      device_wf d' \<and> length buf' = length buf \<and> length (fold (edit_key mx) cs (take len buf)) < mx \<and>
      take (length (fold (edit_key mx) cs (take len buf))) buf' = fold (edit_key mx) cs (take len buf) \<and>
      10 \<notin> set cs \<and> d_ports d' = d_ports d \<and> d_polls d' = d_polls d + n \<and>
      keys (d_ports d) (d_polls d) (d_shift d) n = (cs @ [10], d_shift d')"
proof (induction "t + 1 - d_polls d" arbitrary: d buf len rule: less_induct)
  case less
  from get_ch_returns [OF less.prems(2,3), of rtl_poll] obtain c n sh net where g: "0 < n" "d_polls d + n \<le> t + 1" "c \<noteq> 0"
    "d_polls d + n = t + 1 \<longrightarrow> c = 10" "keys (d_ports d) (d_polls d) (d_shift d) n = ([c], sh)"
    "get_ch rtl_poll d = Some (c, d\<lparr>d_polls := d_polls d + n, d_shift := sh, d_net := net\<rparr>)" by blast
  let ?d = "d\<lparr>d_polls := d_polls d + n, d_shift := sh, d_net := net\<rparr>"
  have wf: "device_wf ?d" using less.prems(1) by (simp add: device_wf_def)
  show ?case
  proof (cases "c = 10")
    case True
    obtain d' where d': "putc 10 ?d = Some d'" "device_wf d'" "same_input ?d d'" using putc_same [OF wf] by blast
    have "read_loop rtl_poll mx buf len d = Some (buf, len, d')" using g(6) d'(1) True by (subst read_loop.simps) simp
    then show ?thesis using d'(2,3) g(5) True less.prems(4,5)
      by (intro exI [of _ buf] exI [of _ "[]"] exI [of _ n] exI [of _ d']) (simp add: same_input_def)
  next
    case False
    let ?line = "take len buf"
    have ll: "length ?line = len" using less.prems(4,5) by simp
    obtain buf1 len1 d1 where st: "read_loop rtl_poll mx buf len d = read_loop rtl_poll mx buf1 len1 d1"
      "take len1 buf1 = edit_key mx c ?line" "len1 < mx" "length buf1 = length buf" "device_wf d1" "same_input ?d d1"
    proof (cases "(c = 8 \<or> c = 127) \<and> len > 0")
      case True
      obtain d1 where d1: "puts [8, 32, 8, 0] ?d = Some d1" "device_wf d1" "same_input ?d d1" using puts_same [OF wf, of "[8, 32, 8, 0]"] by (auto simp del: puts.simps)
      have "read_loop rtl_poll mx buf len d = read_loop rtl_poll mx buf (len - 1) d1"
        using g(6) d1(1) False True by (subst read_loop.simps) (simp del: puts.simps)
      moreover have "take (len - 1) buf = edit_key mx c ?line" using True less.prems(4,5) by (auto simp: edit_key_def butlast_take)
      ultimately show ?thesis using that d1(2,3) less.prems(5) by (metis less_imp_diff_less)
    next
      case del: False
      show ?thesis
      proof (cases "32 \<le> c \<and> c < 127 \<and> len < mx - 1")
        case True
        obtain d1 where d1: "putc c ?d = Some d1" "device_wf d1" "same_input ?d d1" using putc_same [OF wf] by blast
        have "read_loop rtl_poll mx buf len d = read_loop rtl_poll mx (buf[len := c]) (len + 1) d1"
          using g(6) d1(1) False True del less.prems(4) by (subst read_loop.simps) (auto simp: wr_def)
        moreover have "take (len + 1) (buf[len := c]) = edit_key mx c ?line"
          using True del less.prems(4,5) by (auto simp: edit_key_def take_Suc_conv_app_nth)
        moreover have "len + 1 < mx" "length (buf[len := c]) = length buf" using True by auto
        ultimately show ?thesis using d1(2,3) by (intro that)
      next
        case ign: False
        have "read_loop rtl_poll mx buf len d = read_loop rtl_poll mx buf len ?d"
          using g(6) False ign del by (subst read_loop.simps) auto
        moreover have "?line = edit_key mx c ?line" using ign del ll by (auto simp: edit_key_def)
        ultimately show ?thesis using that wf less.prems(5) by (simp add: same_input_def)
      qed
    qed
    have lt: "d_polls d + n \<le> t" using g(2,4) False by linarith
    have d1: "d_ports d1 = d_ports d" "d_polls d1 = d_polls d + n" "d_shift d1 = sh" using st(6) by (simp_all add: same_input_def)
    have "t + 1 - d_polls d1 < t + 1 - d_polls d" "enters (d_ports d1) t" "d_polls d1 \<le> t" "mx \<le> length buf1"
      using lt g(1) less.prems st(4) d1 by simp_all
    from less.hyps [OF this(1) st(5) this(2,3,4) st(3)] obtain buf' cs m d' where r:
      "read_loop rtl_poll mx buf1 len1 d1 = Some (buf', length (fold (edit_key mx) cs (take len1 buf1)), d')"
      "device_wf d'" "length buf' = length buf1" "length (fold (edit_key mx) cs (take len1 buf1)) < mx"
      "take (length (fold (edit_key mx) cs (take len1 buf1))) buf' = fold (edit_key mx) cs (take len1 buf1)"
      "10 \<notin> set cs" "d_ports d' = d_ports d1" "d_polls d' = d_polls d1 + m" "keys (d_ports d1) (d_polls d1) (d_shift d1) m = (cs @ [10], d_shift d')"
      by blast
    have "keys (d_ports d) (d_polls d) (d_shift d) (n + m) = ((c # cs) @ [10], d_shift d')"
      using g(5) r(9) d1 by (simp add: keys_append)
    then show ?thesis using r st d1 False
      by (intro exI [of _ buf'] exI [of _ "c # cs"] exI [of _ "n + m"] exI [of _ d']) simp
  qed
qed


lemma edit_key_printable: "\<forall>c \<in> set line. 32 \<le> c \<and> c < 127 \<Longrightarrow> \<forall>c \<in> set (fold (edit_key mx) cs line). 32 \<le> c \<and> c < 127"
proof (induction cs arbitrary: line)
  case (Cons k cs)
  have "\<forall>c \<in> set (edit_key mx k line). 32 \<le> c \<and> c < 127"
  proof
    fix c assume "c \<in> set (edit_key mx k line)"
    then have "c \<in> set line \<or> c = k \<and> 32 \<le> k \<and> k < 127" by (auto simp: edit_key_def dest: in_set_butlastD split: if_splits)
    with Cons.prems show "32 \<le> c \<and> c < 127" by blast
  qed
  from Cons.IH [OF this] show ?case by (simp only: fold_simps)
qed simp

lemma read_line_spec:
  assumes "device_wf d" "0 < mx" "nat mx \<le> length buf"
  shows "\<exists>buf' cs n d'. read_line rtl_poll (Some buf) mx d = Some (Some buf', d') \<and> device_wf d' \<and> length buf' = length buf \<and>
    d_ports d' = d_ports d \<and> d_polls d' = d_polls d + n \<and>
    keys (d_ports d) (d_polls d) (d_shift d) n = (cs @ [10], d_shift d') \<and> 10 \<notin> set cs \<and>
    is_cstr buf' \<and> cstr buf' = fold (edit_key (nat mx)) cs [] \<and> length (cstr buf') < nat mx"
proof -
  obtain t where t: "enters (d_ports d) t" "d_polls d \<le> t" using assms(1) by (auto simp: device_wf_def attended_def)
  have m: "0 < nat mx" using assms(2) by simp
  from read_loop_returns [OF m assms(1) t assms(3), of 0 rtl_poll] m obtain b cs n d' where r:
    "read_loop rtl_poll (nat mx) buf 0 d = Some (b, length (fold (edit_key (nat mx)) cs []), d')" "device_wf d'" "length b = length buf"
    "length (fold (edit_key (nat mx)) cs []) < nat mx" "take (length (fold (edit_key (nat mx)) cs [])) b = fold (edit_key (nat mx)) cs []"
    "10 \<notin> set cs" "d_ports d' = d_ports d" "d_polls d' = d_polls d + n" "keys (d_ports d) (d_polls d) (d_shift d) n = (cs @ [10], d_shift d')"
    by auto
  let ?l = "fold (edit_key (nat mx)) cs []"
  have l: "length ?l < length b" using r(3,4) assms(3) by simp
  have nz: "0 \<notin> set ?l" using edit_key_printable [of "[]" "nat mx" cs] by fastforce
  have e: "b[length ?l := 0] = ?l @ 0 # drop (Suc (length ?l)) b" using l r(5) by (simp add: upd_conv_take_nth_drop)
  then have c: "is_cstr (b[length ?l := 0])" "cstr (b[length ?l := 0]) = ?l" using nz by (simp_all add: is_cstr_def)
  have "read_line rtl_poll (Some buf) mx d = Some (Some (b[length ?l := 0]), d')"
    using r(1) l assms(2) by (simp add: read_line_def wr_def)
  then show ?thesis using r c by (intro exI [of _ "b[length ?l := 0]"] exI [of _ cs] exI [of _ n] exI [of _ d']) simp
qed

section \<open>Waiting ends\<close>

lemma tick_wait_returns:
  assumes "device_wf d" shows "\<exists>d'. tick_wait rtl_poll d = Some d' \<and> device_wf d'"
proof -
  obtain t where t: "in_pit (d_ports d t) AND 0x20 \<noteq> 0" "d_polls d \<le> t" using assms by (auto simp: device_wf_def attended_def)
  show ?thesis using t assms
  proof (induction "t - d_polls d" arbitrary: d rule: less_induct)
    case less
    show ?case
    proof (cases "in_pit (d_ports d (d_polls d)) AND 0x20 \<noteq> 0")
      case True
      then show ?thesis using less.prems(3) by (subst tick_wait.simps) (simp add: Let_def device_wf_def)
    next
      case False
      let ?d = "d\<lparr>d_polls := d_polls d + 1, d_net := rtl_poll (d_net d)\<rparr>"
      have "d_polls d < t" using False less.prems by (metis le_neq_implies_less)
      then have "t - d_polls ?d < t - d_polls d" "in_pit (d_ports ?d t) AND 0x20 \<noteq> 0" "d_polls ?d \<le> t" "device_wf ?d"
        using less.prems by (simp_all add: device_wf_def)
      from less.hyps [OF this] show ?thesis using False by (subst tick_wait.simps) (simp add: Let_def)
    qed
  qed
qed

lemma arm_timer_wf [simp]: "device_wf (arm_timer gate step d) \<longleftrightarrow> device_wf d" "device_wf (port_write a v d) \<longleftrightarrow> device_wf d"
  by (simp_all add: arm_timer_def port_write_def device_wf_def Let_def)

lemma wait_loop_returns: "device_wf d \<Longrightarrow> \<exists>d'. wait_loop rtl_poll gate ms d = Some d' \<and> device_wf d'"
proof (induction ms arbitrary: d rule: less_induct)
  case (less ms)
  show ?case
  proof (cases "ms = 0")
    case False
    let ?step = "if ms > 50 then 50 else ms"
    obtain d1 where d1: "tick_wait rtl_poll (arm_timer gate ?step d) = Some d1" "device_wf d1"
      using tick_wait_returns [of "arm_timer gate ?step d"] less.prems by auto
    have "ms - ?step < ms" using False by simp
    from less.IH [OF this d1(2)] show ?thesis using d1(1) False by (subst wait_loop.simps) (simp add: Let_def)
  qed (use less.prems in \<open>simp add: wait_loop.simps\<close>)
qed

lemma ape_wait_returns: "device_wf d \<Longrightarrow> \<exists>d'. ape_wait rtl_poll ms d = Some d' \<and> device_wf d'"
  using wait_loop_returns [of "d\<lparr>d_polls := d_polls d + 1\<rparr>" rtl_poll "in_pit (d_ports d (d_polls d))" ms]
  by (auto simp: ape_wait_def device_wf_def Let_def port_write_def)

section \<open>The launcher returns an entry\<close>

lemma redraw_same: "device_wf d \<Longrightarrow> \<exists>d'. redraw selected d = Some d' \<and> device_wf d' \<and> same_input d d'"
  using paintsD [OF paints_desktop, of "d_font d" "sc_pixels (d_screen d)" selected]
  by (auto simp: redraw_def device_wf_def screen_wf_def same_input_def)

lemma desktop_loop_returns:
  "device_wf d \<Longrightarrow> enters (d_ports d) t \<Longrightarrow> d_polls d \<le> t \<Longrightarrow> 0 \<le> selected \<Longrightarrow> selected < 6 \<Longrightarrow>
   \<exists>action d'. desktop_loop rtl_poll selected d = Some (action, d') \<and> 0 \<le> action \<and> action < 6 \<and> device_wf d'"
proof (induction "t + 1 - d_polls d" arbitrary: d selected rule: less_induct)
  case less
  from get_ch_returns [OF less.prems(2,3), of rtl_poll] obtain c n sh net where g: "0 < n" "d_polls d + n \<le> t + 1"
    "d_polls d + n = t + 1 \<longrightarrow> c = 10" "get_ch rtl_poll d = Some (c, d\<lparr>d_polls := d_polls d + n, d_shift := sh, d_net := net\<rparr>)" by blast
  let ?d = "d\<lparr>d_polls := d_polls d + n, d_shift := sh, d_net := net\<rparr>"
  have wf: "device_wf ?d" using less.prems(1) by (simp add: device_wf_def)
  note range = desktop_key_range [OF less.prems(4,5), of c]
  show ?case
  proof (cases "desktop_key selected c")
    case (Inl action)
    then show ?thesis using g(4) wf range by (subst desktop_loop.simps) simp
  next
    case (Inr sel)
    then have "c \<noteq> 10" by (auto simp: desktop_key_def)
    then have lt: "d_polls d + n \<le> t" using g(2,3) by linarith
    obtain d1 where d1: "(if sel = selected then Some ?d else redraw sel ?d) = Some d1" "device_wf d1" "same_input ?d d1"
      using redraw_same [OF wf, of sel] wf by (cases "sel = selected") (auto simp: same_input_def)
    have "t + 1 - d_polls d1 < t + 1 - d_polls d" "enters (d_ports d1) t" "d_polls d1 \<le> t"
      using d1(3) lt g(1) less.prems(2) by (simp_all add: same_input_def)
    from less.hyps [OF this(1) d1(2) this(2,3), of sel] range Inr obtain action d' where
      "desktop_loop rtl_poll sel d1 = Some (action, d')" "0 \<le> action" "action < 6" "device_wf d'" by auto
    moreover have "desktop_loop rtl_poll selected d = desktop_loop rtl_poll sel d1"
      using g(4) Inr d1(1) by (subst desktop_loop.simps) simp
    ultimately show ?thesis by simp
  qed
qed

lemma gui_desktop_returns:
  assumes "device_wf d"
  shows "\<exists>action d'. gui_desktop rtl_poll d = Some (action, d') \<and> 0 \<le> action \<and> action < 6 \<and> device_wf d'"
proof -
  obtain d1 where d1: "redraw 0 d = Some d1" "device_wf d1" using redraw_same [OF assms] by blast
  have "is_cstr desktop_banner" by (simp add: desktop_banner_def ascii_def is_cstr_def)
  then obtain d2 where d2: "puts desktop_banner d1 = Some d2" "device_wf d2" using puts_same [OF d1(2)] by blast
  obtain d3 where d3: "redraw 0 d2 = Some d3" "device_wf d3" using redraw_same [OF d2(2)] by blast
  obtain t where "enters (d_ports d3) t" "d_polls d3 \<le> t" using d3(2) by (auto simp: device_wf_def attended_def)
  from desktop_loop_returns [OF d3(2) this, of 0 rtl_poll] show ?thesis using d1 d2 d3 by (simp add: gui_desktop_def)
qed

section \<open>Properties\<close>

text \<open>C26: The line editor. When Enter keeps arriving on the serial line, reading a line returns; the buffer then holds,
  NUL-terminated and shorter than the limit, the line obtained by applying the editing keys typed before the first
  Enter one after the other (backspace removes the last character, printable characters are appended while there is
  room, everything else is ignored), and the device stays well-formed.\<close>

theorem read_line_edits:
  assumes "device_wf d" "0 < mx" "nat mx \<le> length buf"
  shows "\<exists>buf' cs n d'. read_line rtl_poll (Some buf) mx d = Some (Some buf', d') \<and> device_wf d' \<and> length buf' = length buf \<and>
    keys (d_ports d) (d_polls d) (d_shift d) n = (cs @ [10], d_shift d') \<and> 10 \<notin> set cs \<and>
    is_cstr buf' \<and> cstr buf' = fold (edit_key (nat mx)) cs [] \<and> length (cstr buf') < nat mx"
  using read_line_spec [OF assms, of rtl_poll] by blast

definition demo_device :: "unit device" where
  "demo_device = \<lparr>d_ports = (\<lambda>t. if t = 0 then \<lparr>in_lsr = 0, in_rbr = 0, in_kbs = 1, in_kbd = 30, in_pit = 0\<rparr> else \<lparr>in_lsr = 1, in_rbr = 13, in_kbs = 0, in_kbd = 0, in_pit = 0x20\<rparr>),
     d_polls = 0, d_shift = (True, False), d_serial = [], d_out = [], d_font = replicate 1024 0,
     d_screen = \<lparr>sc_pixels = replicate PIXELS 0, sc_row = 0, sc_column = 0, sc_title = replicate 38 0\<rparr>, d_net = ()\<rparr>"

lemma demo_device_wf: "device_wf demo_device"
proof -
  have "enters (d_ports demo_device) (Suc t) \<and> in_pit (d_ports demo_device (Suc t)) AND 0x20 \<noteq> 0" for t by (simp add: demo_device_def enters_def)
  then have "attended (d_ports demo_device)" unfolding attended_def by (metis le_SucI le_refl)
  then show ?thesis by (simp add: device_wf_def demo_device_def screen_wf_def fb_def nth_replicate)
qed

theorem read_line_edits_witness:
  "\<exists>buf' cs n d'. read_line id (Some (replicate 4 9)) 4 demo_device = Some (Some buf', d') \<and> device_wf d' \<and> length buf' = length (replicate 4 (9 :: u8)) \<and>
    keys (d_ports demo_device) (d_polls demo_device) (d_shift demo_device) n = (cs @ [10], d_shift d') \<and> 10 \<notin> set cs \<and>
    is_cstr buf' \<and> cstr buf' = fold (edit_key (nat 4)) cs [] \<and> length (cstr buf') < nat 4"
  by (rule read_line_edits [OF demo_device_wf]) simp_all

end
