(* ===== verification/Syscalls.thy ===== *)
theory Syscalls
  imports Page_Tables Console
begin

text \<open>
  Containment of the system calls of \<^verbatim>\<open>isolation.c\<close>. The services the handler relies on are an interface,
  interpreted on the console, screen and timer of this kernel; the file system is the one of \<open>Filesystem\<close>.
\<close>

section \<open>Strings and ranges of a user process\<close>

lemma user_byte:
  assumes "tables_wf p" shows "user_range (Some p) a 1 wrt = Some (grants p wrt a)"
proof -
  have "(\<forall>x. a \<le> x \<and> x < a + 1 \<longrightarrow> grants p wrt x) \<longleftrightarrow> grants p wrt a" by (auto simp: le_less_Suc_eq)
  then show ?thesis using user_range_iff [OF assms, of 1 a wrt] by simp
qed

lemma user_range_granted:
  assumes "tables_wf p" "user_range (Some p) a n wrt = Some True" "a \<le> x" "x < a + n"
  shows "grants p wrt x"
  using assms user_range_iff [OF assms(1), of n a wrt] by (cases "n = 0") auto

lemma user_range_decides: "tables_wf p \<Longrightarrow> \<exists>b. user_range (Some p) a n wrt = Some b"
  by (cases "n = 0") (auto simp: user_range_def [of _ _ 0] user_range_iff)

lemma grants_read: "grants p wrt x \<Longrightarrow> grants p False x"
  by (auto simp: grants_def split: option.splits)

lemma grants_max: "grants p wrt x \<Longrightarrow> x < USER_STACK_TOP"
  by (auto simp: grants_def in_user_def)

text \<open>What a copied user string is: the readable bytes from \<open>a\<close> up to the first NUL.\<close>

definition user_text :: "Process \<Rightarrow> (nat \<Rightarrow> u8) \<Rightarrow> nat \<Rightarrow> nat \<Rightarrow> bytes \<Rightarrow> bool" where
  "user_text p umem a cap s \<longleftrightarrow> length s < cap \<and> 0 \<notin> set s \<and> umem (a + length s) = 0 \<and>
     s = map (\<lambda>j. umem (a + j)) [0..<length s] \<and> (\<forall>j \<le> length s. grants p False (a + j))"

lemma user_string_loop_spec:
  assumes "tables_wf p" "cap \<le> length out" "i \<le> cap"
    "take i out = map (\<lambda>j. umem (a + j)) [0..<i]" "0 \<notin> set (take i out)" "\<forall>j < i. grants p False (a + j)"
  shows "\<exists>ok out'. user_string_loop (Some p) umem out a cap i = Some (ok, out') \<and> length out' = length out \<and>
    (ok \<longrightarrow> is_cstr out' \<and> user_text p umem a cap (cstr out'))"
  using assms(2-6)
proof (induction "cap - i" arbitrary: i out)
  case 0
  then show ?case by (subst user_string_loop.simps) auto
next
  case (Suc k)
  then have i: "i < cap" "i < length out" by simp_all
  show ?case
  proof (cases "a > UINTPTR_MAX - i \<or> \<not> grants p False (a + i)")
    case True
    then show ?thesis using i(1) by (subst user_string_loop.simps) (auto simp: user_byte [OF assms(1), unfolded One_nat_def])
  next
    case False
    let ?out = "out[i := umem (a + i)]"
    have step: "user_string_loop (Some p) umem out a cap i =
      (if umem (a + i) = 0 then Some (True, ?out) else user_string_loop (Some p) umem ?out a cap (i + 1))"
      using i False by (subst user_string_loop.simps) (simp add: user_byte [OF assms(1), unfolded One_nat_def] wr_Some)
    show ?thesis
    proof (cases "umem (a + i) = 0")
      case True
      have e: "?out = take i out @ 0 # drop (Suc i) out" using True i(2) by (simp add: upd_conv_take_nth_drop)
      then have "is_cstr ?out" "cstr ?out = take i out" using Suc.prems(4) by (simp_all add: is_cstr_def)
      moreover have "length (take i out) = i" using i(2) by simp
      moreover have "grants p False (a + j)" if "j \<le> i" for j using that Suc.prems(5) False by (cases "j = i") auto
      ultimately have "user_text p umem a cap (cstr ?out)" using True i(1) Suc.prems(3,4) by (simp add: user_text_def)
      then show ?thesis using step True \<open>is_cstr ?out\<close> by auto
    next
      case nz: False
      have t: "take (i + 1) ?out = take i out @ [umem (a + i)]" using i(2) by (simp add: take_Suc_conv_app_nth)
      have "\<forall>j < i + 1. grants p False (a + j)" using Suc.prems(5) False by (auto simp: less_Suc_eq)
      moreover have "take (i + 1) ?out = map (\<lambda>j. umem (a + j)) [0..<i + 1]" "0 \<notin> set (take (i + 1) ?out)"
        unfolding t using Suc.prems(3,4) nz by simp_all
      ultimately have "\<exists>ok out'. user_string_loop (Some p) umem ?out a cap (i + 1) = Some (ok, out') \<and> length out' = length ?out \<and>
          (ok \<longrightarrow> is_cstr out' \<and> user_text p umem a cap (cstr out'))"
        using Suc.hyps(2) Suc.prems(1) i(1) by (intro Suc.hyps(1)) simp_all
      then show ?thesis using step nz by simp
    qed
  qed
qed

lemma user_string_spec:
  assumes "tables_wf p" "cap \<le> length out"
  obtains out' where "user_string (Some p) umem out a cap = Some (False, out')"
  | out' where "user_string (Some p) umem out a cap = Some (True, out')" "is_cstr out'" "user_text p umem a cap (cstr out')"
proof -
  obtain ok out' where r: "user_string (Some p) umem out a cap = Some (ok, out')" "ok \<longrightarrow> is_cstr out' \<and> user_text p umem a cap (cstr out')"
    using user_string_loop_spec [OF assms, of 0 umem a] by (auto simp: user_string_def)
  show ?thesis
  proof (cases ok)
    case True
    with r that(2) show ?thesis by simp
  next
    case False
    with r that(1) show ?thesis by simp
  qed
qed

text \<open>The copy reads only bytes the process may read.\<close>

definition agree :: "Process \<Rightarrow> (nat \<Rightarrow> u8) \<Rightarrow> (nat \<Rightarrow> u8) \<Rightarrow> bool" where
  "agree p u v \<longleftrightarrow> (\<forall>x. grants p False x \<longrightarrow> u x = v x)"

lemma user_string_loop_agree:
  assumes "tables_wf p" "agree p u v"
  shows "user_string_loop (Some p) u out a cap i = user_string_loop (Some p) v out a cap i"
proof (induction "cap - i" arbitrary: i out)
  case 0
  then show ?case by (subst (1 2) user_string_loop.simps) simp
next
  case (Suc k)
  have "cap - (i + 1) = k" using Suc.hyps(2) by simp
  then have IH: "user_string_loop (Some p) u o2 a cap (i + 1) = user_string_loop (Some p) v o2 a cap (i + 1)" for o2
    using Suc.hyps(1) by simp
  show ?case
  proof (cases "grants p False (a + i)")
    case True
    then have "u (a + i) = v (a + i)" using assms(2) by (simp add: agree_def)
    then show ?thesis using IH by (subst (1 2) user_string_loop.simps) (simp add: user_byte [OF assms(1), unfolded One_nat_def] cong: if_cong)
  next
    case False
    then show ?thesis by (subst (1 2) user_string_loop.simps) (simp add: user_byte [OF assms(1), unfolded One_nat_def])
  qed
qed

lemma user_string_agree: "tables_wf p \<Longrightarrow> agree p u v \<Longrightarrow> user_string (Some p) u out a cap = user_string (Some p) v out a cap"
  by (simp add: user_string_def user_string_loop_agree)

lemma get_user_agree:
  "tables_wf p \<Longrightarrow> agree p u v \<Longrightarrow> user_range (Some p) a n wrt = Some True \<Longrightarrow> get_user u a n = get_user v a n"
  using user_range_granted [of p a n wrt] grants_read [of p wrt] by (simp add: get_user_def agree_def)

lemma put_user_agree: "agree p u v \<Longrightarrow> agree p (put_user u a bs) (put_user v a bs)"
  by (simp add: agree_def put_user_def)

lemma put_user_granted:
  assumes "tables_wf p" "user_range (Some p) a n True = Some True" "length bs \<le> n" "\<not> grants p True x"
  shows "put_user umem a bs x = umem x"
  using assms user_range_granted [OF assms(1,2), of x] by (auto simp: put_user_def)


section \<open>Containment\<close>

definition kstate_wf :: "('d \<Rightarrow> bool) \<Rightarrow> 'd kstate \<Rightarrow> bool" where
  "kstate_wf live st \<longleftrightarrow> fs_wf (k_fs st) \<and> length (k_io st) = MAX_FILE_SIZE \<and> live (k_dev st)"

text \<open>A handler returns, keeps the kernel state well-formed and writes user memory only where the process itself may.\<close>

definition contained :: "('d \<Rightarrow> bool) \<Rightarrow> Process \<Rightarrow> 'd kstate \<Rightarrow> (int \<times> 'd kstate) option \<Rightarrow> bool" where
  "contained live p st r \<longleftrightarrow> (\<exists>n st'. r = Some (n, st') \<and> kstate_wf live st' \<and> k_pid st' = k_pid st \<and>
     (\<forall>x. \<not> grants p True x \<longrightarrow> k_umem st' x = k_umem st x))"

lemma contained_reject: "kstate_wf live st \<Longrightarrow> contained live p st (reject st)"
  by (simp add: contained_def reject_def kstate_wf_def)

lemma contained_serve: "kstate_wf live st \<Longrightarrow> \<exists>d'. f (k_dev st) = Some d' \<and> live d' \<Longrightarrow> contained live p st (serve f st)"
  by (auto simp: contained_def serve_def kstate_wf_def)

lemma contained_serve_key: "kstate_wf live st \<Longrightarrow> \<exists>c d'. f (k_dev st) = Some (c, d') \<and> live d' \<Longrightarrow> contained live p st (serve_key f st)"
  by (auto simp: contained_def serve_key_def kstate_wf_def)

lemma live_dev: "kstate_wf live st \<Longrightarrow> live (k_dev st)"
  by (simp add: kstate_wf_def)

lemma buffers: "2048 \<le> length text_buffer" "38 \<le> length text_buffer" "32 \<le> length name_buffer"
  by (simp_all add: text_buffer_def name_buffer_def)

text \<open>The handlers that use the file system only.\<close>

lemma contained_usys_files:
  assumes "tables_wf p" "kstate_wf live st" shows "contained live p st (usys_files (Some p) a b st)"
proof (cases "b = 0 \<or> b > MAX_FILES * (MAX_FILENAME_LEN + 1)")
  case False
  obtain ok where ok: "user_range (Some p) a b True = Some ok" using user_range_decides [OF assms(1)] by blast
  obtain s where s: "length s < b" "sys_list_files (Some text_buffer) (int b) (k_fs st) =
      Some (int (length s), Some (s @ replicate (b - length s) 0 @ drop b text_buffer))"
    using sys_list_files_spec [of "k_fs st" "int b" text_buffer] assms(2) False by (auto simp: kstate_wf_def text_buffer_def)
  let ?bs = "take (length s + 1) (s @ replicate (b - length s) 0 @ drop b text_buffer)"
  have sl: "slice (s @ replicate (b - length s) 0 @ drop b text_buffer) 0 (length s + 1) = Some ?bs" using s(1) by (simp add: slice_def)
  show ?thesis
  proof (cases ok)
    case True
    then have "\<not> grants p True x \<Longrightarrow> put_user (k_umem st) a ?bs x = k_umem st x" for x
      using put_user_granted [OF assms(1), of a b ?bs] ok s(1) by simp
    then show ?thesis using ok True False s sl assms(2) by (simp add: usys_files_def contained_def kstate_wf_def)
  qed (use ok False contained_reject [OF assms(2)] in \<open>simp add: usys_files_def\<close>)
qed (use contained_reject [OF assms(2)] in \<open>auto simp: usys_files_def\<close>)

lemma contained_usys_read_file:
  assumes "tables_wf p" "kstate_wf live st" shows "contained live p st (usys_read_file (Some p) a b c st)"
proof (cases "c > MAX_FILE_SIZE")
  case False
  obtain ok where ok: "user_range (Some p) b c True = Some ok" using user_range_decides [OF assms(1)] by blast
  show ?thesis
  proof (cases rule: user_string_spec [OF assms(1) buffers(3), of "k_umem st" a])
    case (1 s)
    then show ?thesis using False contained_reject [OF assms(2)] by (simp add: usys_read_file_def)
  next
    case (2 name)
    show ?thesis
    proof (cases ok)
      case True
      let ?r = "spec_read (cstr name) (k_io st) (int c) (fs_abs (k_fs st))"
      have rd: "sys_read_file (Some name) (Some (k_io st)) (int c) (k_fs st) = Some (fst ?r, Some (snd ?r))"
        using sys_read_file_spec [of "k_fs st" name "int c" "k_io st"] assms(2) 2(2) False by (simp add: kstate_wf_def apsnd_def map_prod_def split: prod.splits)
      have len: "length (snd ?r) = MAX_FILE_SIZE" "nat (fst ?r) \<le> c"
        using assms(2) False by (auto simp: spec_read_def kstate_wf_def split: option.splits)
      have "\<not> grants p True x \<Longrightarrow> put_user (k_umem st) b (take (nat (fst ?r)) (snd ?r)) x = k_umem st x" for x
        using put_user_granted [OF assms(1), of b c "take (nat (fst ?r)) (snd ?r)"] ok True len by simp
      moreover have "slice (snd ?r) 0 (nat (fst ?r)) = Some (take (nat (fst ?r)) (snd ?r))" using len False by (simp add: slice_def)
      ultimately show ?thesis using 2(1) ok True False rd len assms(2) by (auto simp: usys_read_file_def contained_def kstate_wf_def)
    qed (use 2(1) ok False contained_reject [OF assms(2)] in \<open>simp add: usys_read_file_def\<close>)
  qed
qed (use contained_reject [OF assms(2)] in \<open>simp add: usys_read_file_def\<close>)

lemma contained_usys_write_file:
  assumes "tables_wf p" "kstate_wf live st" shows "contained live p st (usys_write_file (Some p) a b c st)"
proof (cases "c > MAX_FILE_SIZE")
  case False
  obtain ok where ok: "user_range (Some p) b c False = Some ok" using user_range_decides [OF assms(1)] by blast
  show ?thesis
  proof (cases rule: user_string_spec [OF assms(1) buffers(3), of "k_umem st" a])
    case (1 s)
    then show ?thesis using False contained_reject [OF assms(2)] by (simp add: usys_write_file_def)
  next
    case (2 name)
    obtain io where io: "splice (k_io st) 0 (get_user (k_umem st) b c) = Some io" "length io = MAX_FILE_SIZE"
      using False assms(2) splice_length by (fastforce simp: splice_def get_user_def kstate_wf_def)
    obtain r fs' where "sys_write_file (Some name) (Some io) (int c) (k_fs st) = Some (r, fs')" "fs_wf fs'"
      using sys_write_file_spec [of "k_fs st" name "int c" io] assms(2) 2(2) False io(2) by (auto simp: kstate_wf_def)
    then show ?thesis using 2(1) ok False io assms(2) contained_reject [OF assms(2)]
      by (cases ok) (simp_all add: usys_write_file_def contained_def kstate_wf_def)
  qed
qed (use contained_reject [OF assms(2)] in \<open>simp add: usys_write_file_def\<close>)

lemma contained_usys_delete_file:
  assumes "tables_wf p" "kstate_wf live st" shows "contained live p st (usys_delete_file (Some p) a st)"
proof (cases rule: user_string_spec [OF assms(1) buffers(3), of "k_umem st" a])
  case (1 s)
  then show ?thesis using contained_reject [OF assms(2)] by (simp add: usys_delete_file_def)
next
  case (2 name)
  obtain r fs' where "sys_delete_file (Some name) (k_fs st) = Some (r, fs')" "fs_wf fs'"
    using sys_delete_file_spec [of "k_fs st" name] assms(2) 2(2) by (auto simp: kstate_wf_def)
  then show ?thesis using 2(1) assms(2) by (simp add: usys_delete_file_def contained_def kstate_wf_def)
qed

section \<open>The interface to the services\<close>

text \<open>
  What the handler relies on: from a live device every service returns and leaves a live device; a line is
  a C string shorter than the limit. The arguments are those the handler lets through.
\<close>

locale kernel_services =
  fixes sv :: "'d services" and live :: "'d \<Rightarrow> bool"
  assumes write_ok: "live d \<Longrightarrow> is_cstr s \<Longrightarrow> \<exists>d'. sv_write sv s d = Some d' \<and> live d'"
    and readline_ok: "live d \<Longrightarrow> 0 < n \<Longrightarrow> n \<le> length b \<Longrightarrow>
      \<exists>s d'. sv_readline sv n b d = Some (s, d') \<and> live d' \<and> is_cstr s \<and> length (cstr s) < n"
    and getc_ok: "live d \<Longrightarrow> \<exists>c d'. sv_getc sv d = Some (c, d') \<and> live d'"
    and pollc_ok: "live d \<Longrightarrow> \<exists>c d'. sv_pollc sv d = Some (c, d') \<and> live d'"
    and rtl_poll_ok: "live d \<Longrightarrow> \<exists>d'. sv_rtl_poll sv d = Some d' \<and> live d'"
    and clear_ok: "live d \<Longrightarrow> \<exists>d'. sv_clear sv d = Some d' \<and> live d'"
    and paint_ok: "live d \<Longrightarrow> \<bar>x\<bar> \<le> 320 \<Longrightarrow> \<bar>y\<bar> \<le> 200 \<Longrightarrow> 0 \<le> w \<Longrightarrow> w \<le> 640 \<Longrightarrow> 0 \<le> h \<Longrightarrow> h \<le> 400 \<Longrightarrow>
      \<exists>d'. sv_paint sv x y w h color d = Some d' \<and> live d'"
    and drawtext_ok: "live d \<Longrightarrow> \<bar>x\<bar> \<le> 320 \<Longrightarrow> 0 \<le> y \<Longrightarrow> y \<le> 192 \<Longrightarrow> is_cstr s \<Longrightarrow>
      \<exists>d'. sv_drawtext sv x y s color d = Some d' \<and> live d'"
    and terminal_ok: "live d \<Longrightarrow> is_cstr s \<Longrightarrow> length (cstr s) < 38 \<Longrightarrow> \<exists>d'. sv_terminal sv s d = Some d' \<and> live d'"
    and wait_ok: "live d \<Longrightarrow> ms \<le> 1000 \<Longrightarrow> \<exists>d'. sv_wait sv ms d = Some d' \<and> live d'"
begin

lemma contained_usys_write:
  assumes "tables_wf p" "kstate_wf live st" shows "contained live p st (usys_write sv (Some p) a st)"
proof (cases rule: user_string_spec [OF assms(1) buffers(1), of "k_umem st" a])
  case (1 s)
  then show ?thesis using contained_reject [OF assms(2)] by (simp add: usys_write_def)
next
  case (2 s)
  then show ?thesis by (auto simp: usys_write_def intro!: contained_serve write_ok live_dev [OF assms(2)] assms(2))
qed

lemma contained_usys_readline:
  assumes "tables_wf p" "kstate_wf live st" shows "contained live p st (usys_readline sv (Some p) a b st)"
proof (cases "b = 0 \<or> b > 2048")
  case False
  obtain ok where ok: "user_range (Some p) a b True = Some ok" using user_range_decides [OF assms(1)] by blast
  obtain s d' where s: "sv_readline sv b text_buffer (k_dev st) = Some (s, d')" "live d'" "is_cstr s" "length (cstr s) < b"
    using readline_ok [OF live_dev [OF assms(2)], of b text_buffer] False by (auto simp: text_buffer_def)
  have sl: "strlen s = Some (length (cstr s))" "slice s 0 (length (cstr s) + 1) = Some (take (length (cstr s) + 1) s)"
    using strlen_cstr [OF s(3)] cstr_length [OF s(3)] by (simp_all add: slice_def)
  show ?thesis
  proof (cases ok)
    case True
    then have "\<not> grants p True x \<Longrightarrow> put_user (k_umem st) a (take (length (cstr s) + 1) s) x = k_umem st x" for x
      using put_user_granted [OF assms(1), of a b "take (length (cstr s) + 1) s"] ok s(4) by simp
    then show ?thesis using ok True False s sl assms(2) by (simp add: usys_readline_def contained_def kstate_wf_def)
  qed (use ok False contained_reject [OF assms(2)] in \<open>simp add: usys_readline_def\<close>)
qed (use contained_reject [OF assms(2)] in \<open>simp add: usys_readline_def\<close>)

lemma contained_usys_drawtext:
  assumes "tables_wf p" "kstate_wf live st" shows "contained live p st (usys_drawtext sv (Some p) f st)"
proof (cases "s64 (fr_rdi f) < -320 \<or> s64 (fr_rdi f) > 320 \<or> s64 (fr_rsi f) < 0 \<or> s64 (fr_rsi f) > 192 \<or> fr_rcx f > 9")
  case False
  show ?thesis
  proof (cases rule: user_string_spec [OF assms(1) buffers(1), of "k_umem st" "fr_rdx f"])
    case (1 s)
    then show ?thesis using False contained_reject [OF assms(2)] by (simp add: usys_drawtext_def Let_def)
  next
    case (2 s)
    have "contained live p st (serve (sv_drawtext sv (s64 (fr_rdi f)) (s64 (fr_rsi f)) s (int (fr_rcx f))) st)"
      using False 2(2) by (intro contained_serve drawtext_ok live_dev [OF assms(2)] assms(2)) auto
    then show ?thesis using False 2(1) by (simp add: usys_drawtext_def Let_def)
  qed
qed (use contained_reject [OF assms(2)] in \<open>auto simp: usys_drawtext_def Let_def\<close>)

lemma contained_usys_paint:
  assumes "kstate_wf live st" shows "contained live p st (usys_paint sv f st)"
  using contained_reject [OF assms]
  by (auto simp: usys_paint_def Let_def intro!: contained_serve paint_ok live_dev [OF assms] assms)

lemma contained_usys_terminal:
  assumes "tables_wf p" "kstate_wf live st" shows "contained live p st (usys_terminal sv (Some p) a st)"
proof (cases rule: user_string_spec [OF assms(1) buffers(2), of "k_umem st" a])
  case (1 s)
  then show ?thesis using contained_reject [OF assms(2)] by (simp add: usys_terminal_def)
next
  case (2 s)
  then show ?thesis by (auto simp: usys_terminal_def user_text_def intro!: contained_serve terminal_ok live_dev [OF assms(2)] assms(2))
qed

lemma contained_usys_wait:
  assumes "kstate_wf live st" shows "contained live p st (usys_wait sv a st)"
  using contained_reject [OF assms] by (auto simp: usys_wait_def intro!: contained_serve wait_ok live_dev [OF assms] assms)

lemma syscall_is_contained:
  assumes "tables_wf p" "kstate_wf live st" shows "contained live p st (syscall sv (Some p) f st)"
proof -
  have "contained live p st (Some (int (unat (k_pid st)), st))" using assms(2) by (simp add: contained_def)
  then show ?thesis unfolding syscall_def Let_def
    using assms contained_usys_files contained_usys_read_file contained_usys_write_file contained_usys_delete_file
      contained_usys_write contained_usys_readline contained_usys_paint contained_usys_drawtext contained_usys_terminal contained_usys_wait
      contained_reject [OF assms(2)] contained_serve_key [OF assms(2)] contained_serve [OF assms(2)] live_dev [OF assms(2)]
      getc_ok pollc_ok rtl_poll_ok clear_ok
    by (simp split del: if_split) (auto)
qed

end

section \<open>The services of this kernel\<close>

definition on_screen :: "(bytes \<Rightarrow> screen \<Rightarrow> screen option) \<Rightarrow> 'n device \<Rightarrow> 'n device option" where
  "on_screen f d = do { s \<leftarrow> f (d_font d) (d_screen d); Some (d\<lparr>d_screen := s\<rparr>) }"

definition on_pixels :: "(bytes \<Rightarrow> bytes \<Rightarrow> bytes option) \<Rightarrow> bytes \<Rightarrow> screen \<Rightarrow> screen option" where
  "on_pixels f font s = do { px \<leftarrow> f font (sc_pixels s); Some (s\<lparr>sc_pixels := px\<rparr>) }"

definition console_services :: "('n \<Rightarrow> 'n) \<Rightarrow> 'n device services" where
  "console_services rtl_poll = \<lparr>
     sv_write = puts,
     sv_readline = (\<lambda>n b d. do { (b, d) \<leftarrow> read_line rtl_poll (Some b) (int n) d; b \<leftarrow> b; Some (b, d) }),
     sv_getc = get_ch rtl_poll,
     sv_pollc = (\<lambda>d. Some (poll_ch rtl_poll d)),
     sv_rtl_poll = (\<lambda>d. Some (d\<lparr>d_net := rtl_poll (d_net d)\<rparr>)),
     sv_clear = on_screen gui_clear,
     sv_paint = (\<lambda>x y w h color. on_screen (on_pixels (\<lambda>font. gui_paint x y w h color))),
     sv_drawtext = (\<lambda>x y s color. on_screen (on_pixels (\<lambda>font. gui_drawtext font x y s color))),
     sv_terminal = (\<lambda>s. on_screen (\<lambda>font. gui_terminal font s)),
     sv_wait = ape_wait rtl_poll\<rparr>"

lemma on_screen_wf:
  assumes "device_wf d" "\<And>s. screen_wf s \<Longrightarrow> \<exists>s'. f (d_font d) s = Some s' \<and> screen_wf s'"
  shows "\<exists>d'. on_screen f d = Some d' \<and> device_wf d'"
  using assms(2) [of "d_screen d"] assms(1) by (auto simp: on_screen_def device_wf_def)

lemma on_pixels_wf: "paints (f font) \<Longrightarrow> screen_wf s \<Longrightarrow> \<exists>s'. on_pixels f font s = Some s' \<and> screen_wf s'"
  using paintsD [of "f font" "sc_pixels s"] by (auto simp: on_pixels_def screen_wf_def)

lemma get_ch_live: "device_wf d \<Longrightarrow> \<exists>c d'. get_ch rtl_poll d = Some (c, d') \<and> device_wf d'"
proof -
  assume d: "device_wf d"
  then obtain t where "enters (d_ports d) t" "d_polls d \<le> t" by (auto simp: device_wf_def attended_def)
  from get_ch_returns [OF this, of rtl_poll] d show ?thesis by (auto simp: device_wf_def)
qed

interpretation console: kernel_services "console_services rtl_poll" device_wf for rtl_poll :: "'n \<Rightarrow> 'n"
proof unfold_locales
  fix d :: "'n device" assume d: "device_wf d"
  then have font: "length (d_font d) = 1024" by (simp add: device_wf_def)
  show "\<exists>d'. sv_write (console_services rtl_poll) s d = Some d' \<and> device_wf d'" if "is_cstr s" for s
    using puts_same [OF d that] by (auto simp: console_services_def)
  show "\<exists>s d'. sv_readline (console_services rtl_poll) n b d = Some (s, d') \<and> device_wf d' \<and> is_cstr s \<and> length (cstr s) < n"
    if "0 < n" "n \<le> length b" for n b
    using read_line_spec [OF d, of "int n" b rtl_poll] that by (auto simp: console_services_def)
  show "\<exists>c d'. sv_getc (console_services rtl_poll) d = Some (c, d') \<and> device_wf d'"
    using get_ch_live [OF d, of rtl_poll] by (simp add: console_services_def)
  show "\<exists>c d'. sv_pollc (console_services rtl_poll) d = Some (c, d') \<and> device_wf d'"
    using d by (auto simp: console_services_def poll_ch_def device_wf_def split: prod.splits)
  show "\<exists>d'. sv_rtl_poll (console_services rtl_poll) d = Some d' \<and> device_wf d'"
    using d by (simp add: console_services_def device_wf_def)
  show "\<exists>d'. sv_clear (console_services rtl_poll) d = Some d' \<and> device_wf d'"
    using on_screen_wf [OF d, of gui_clear] gui_clear_wf [OF _ font] by (fastforce simp: console_services_def)
  show "\<exists>d'. sv_paint (console_services rtl_poll) x y w h color d = Some d' \<and> device_wf d'"
    if "\<bar>x\<bar> \<le> 320" "\<bar>y\<bar> \<le> 200" "w \<le> 640" "h \<le> 400" for x y w h color
  proof -
    have "\<not> paint_overflows x y w h" using that by (auto simp: paint_overflows_def)
    then have "paints (gui_paint x y w h color)" using gui_paint_eq unfolding paints_def by blast
    then show ?thesis by (auto simp: console_services_def intro!: on_screen_wf d on_pixels_wf)
  qed
  show "\<exists>d'. sv_drawtext (console_services rtl_poll) x y s color d = Some d' \<and> device_wf d'" if "is_cstr s" for x y s color
    using paints_drawtext [OF font that] by (auto simp: console_services_def intro!: on_screen_wf d on_pixels_wf)
  show "\<exists>d'. sv_terminal (console_services rtl_poll) s d = Some d' \<and> device_wf d'" if "is_cstr s" "length (cstr s) < 38" for s
    using on_screen_wf [OF d, of "\<lambda>font. gui_terminal font s"] gui_terminal_wf [OF _ font that(1)] that(2) by (fastforce simp: console_services_def)
  show "\<exists>d'. sv_wait (console_services rtl_poll) ms d = Some d' \<and> device_wf d'" for ms
    using ape_wait_returns [OF d] by (simp add: console_services_def)
qed

section \<open>What a system call may depend on\<close>

text \<open>Two runs from kernel states that differ only in user memory the process cannot read.\<close>

definition same_view :: "Process \<Rightarrow> (int \<times> 'd kstate) option \<Rightarrow> (int \<times> 'd kstate) option \<Rightarrow> bool" where
  "same_view p r r' \<longleftrightarrow> rel_option (\<lambda>(n, st) (n', st'). n = n' \<and> st' = st\<lparr>k_umem := k_umem st'\<rparr> \<and> agree p (k_umem st) (k_umem st')) r r'"

lemma same_view_None [simp]: "same_view p None None" by (simp add: same_view_def)

lemma same_view_Some [simp]: "same_view p (Some (n, st)) (Some (n', st')) \<longleftrightarrow> n = n' \<and> st' = st\<lparr>k_umem := k_umem st'\<rparr> \<and> agree p (k_umem st) (k_umem st')"
  by (simp add: same_view_def)

lemma same_view_bind: "(\<And>x. m = Some x \<Longrightarrow> same_view p (f x) (g x)) \<Longrightarrow> same_view p (Option.bind m f) (Option.bind m g)"
  by (cases m) auto

lemma same_view_reject: "agree p (k_umem st) v \<Longrightarrow> same_view p (reject st) (reject (st\<lparr>k_umem := v\<rparr>))"
  by (simp add: reject_def)

lemma same_view_serve: "agree p (k_umem st) v \<Longrightarrow> same_view p (serve f st) (serve f (st\<lparr>k_umem := v\<rparr>))"
  by (auto simp: serve_def intro: same_view_bind)

lemma same_view_serve_key: "agree p (k_umem st) v \<Longrightarrow> same_view p (serve_key f st) (serve_key f (st\<lparr>k_umem := v\<rparr>))"
  by (auto simp: serve_key_def intro!: same_view_bind)

lemmas same_view_intros = same_view_bind same_view_reject same_view_serve same_view_serve_key put_user_agree

lemma same_view_handlers:
  assumes "tables_wf p" "agree p (k_umem st) v"
  shows "same_view p (usys_write sv (Some p) a st) (usys_write sv (Some p) a (st\<lparr>k_umem := v\<rparr>))"
    "same_view p (usys_readline sv (Some p) a b st) (usys_readline sv (Some p) a b (st\<lparr>k_umem := v\<rparr>))"
    "same_view p (usys_files (Some p) a b st) (usys_files (Some p) a b (st\<lparr>k_umem := v\<rparr>))"
    "same_view p (usys_read_file (Some p) a b c st) (usys_read_file (Some p) a b c (st\<lparr>k_umem := v\<rparr>))"
    "same_view p (usys_delete_file (Some p) a st) (usys_delete_file (Some p) a (st\<lparr>k_umem := v\<rparr>))"
    "same_view p (usys_paint sv f st) (usys_paint sv f (st\<lparr>k_umem := v\<rparr>))"
    "same_view p (usys_drawtext sv (Some p) f st) (usys_drawtext sv (Some p) f (st\<lparr>k_umem := v\<rparr>))"
    "same_view p (usys_terminal sv (Some p) a st) (usys_terminal sv (Some p) a (st\<lparr>k_umem := v\<rparr>))"
    "same_view p (usys_wait sv a st) (usys_wait sv a (st\<lparr>k_umem := v\<rparr>))"
  using assms(2) user_string_agree [OF assms, symmetric]
  by (auto simp: usys_write_def usys_readline_def usys_files_def usys_read_file_def usys_delete_file_def
      usys_paint_def usys_drawtext_def usys_terminal_def usys_wait_def Let_def intro!: same_view_intros)

lemma same_view_write_file:
  assumes "tables_wf p" "agree p (k_umem st) v"
  shows "same_view p (usys_write_file (Some p) a b c st) (usys_write_file (Some p) a b c (st\<lparr>k_umem := v\<rparr>))"
proof -
  have "get_user v b c = get_user (k_umem st) b c" if "user_range (Some p) b c False = Some True"
    using get_user_agree [OF assms that] by simp
  then show ?thesis using assms(2) user_string_agree [OF assms, symmetric]
    by (auto simp: usys_write_file_def intro!: same_view_intros)
qed

lemma syscall_same_view:
  assumes "tables_wf p" "agree p (k_umem st) v"
  shows "same_view p (syscall sv (Some p) f st) (syscall sv (Some p) f (st\<lparr>k_umem := v\<rparr>))"
  unfolding syscall_def Let_def
  using same_view_handlers(1-5,8,9) [OF assms] same_view_handlers(6,7) [OF assms, where f = f] same_view_write_file [OF assms] same_view_serve [OF assms(2)] same_view_serve_key [OF assms(2)]
    same_view_reject [OF assms(2)] assms(2)
  by simp

section \<open>Properties\<close>

text \<open>C2: System calls are contained. For a process whose page tables are well-formed and any register values, a system
  call returns to the caller, keeps the file system, the kernel's I/O buffer and the device (frame buffer, terminal,
  title) well-formed, and changes user memory only at addresses the process itself may write; so no pointer or size a
  process passes makes the kernel write elsewhere or leave its own buffers.\<close>

theorem syscall_contained:
  assumes "tables_wf p" "kstate_wf device_wf st"
  shows "\<exists>n st'. syscall (console_services rtl_poll) (Some p) f st = Some (n, st') \<and>
    kstate_wf device_wf st' \<and> k_pid st' = k_pid st \<and> (\<forall>x. \<not> grants p True x \<longrightarrow> k_umem st' x = k_umem st x)"
  using console.syscall_is_contained [OF assms, of rtl_poll f] by (simp add: contained_def)

definition demo_kstate :: "unit device kstate" where
  "demo_kstate = \<lparr>k_fs = blank_fs, k_umem = (\<lambda>x. 65), k_io = replicate MAX_FILE_SIZE 0, k_rejected = 0, k_pid = 1, k_dev = demo_device\<rparr>"

lemma demo_kstate_wf: "kstate_wf device_wf demo_kstate"
  by (simp add: kstate_wf_def demo_kstate_def blank_fs_wf demo_device_wf)

lemma demo_process:
  obtains p where "prepare [144, 144, 195] demo_image 0x200000 1 0 (Some [97, 0]) = Some p" "tables_wf p"
  using prepare_ring3 [OF demo_image_ok, of 1 0] by auto

theorem syscall_contained_witness:
  "\<exists>p n st'. prepare [144, 144, 195] demo_image 0x200000 1 0 (Some [97, 0]) = Some p \<and>
    syscall (console_services id) (Some p)
      \<lparr>fr_rax = 2, fr_rdi = USER_STARTUP, fr_rsi = 16, fr_rdx = 0, fr_rcx = 0, fr_r8 = 0\<rparr> demo_kstate = Some (n, st') \<and>
    kstate_wf device_wf st' \<and> k_pid st' = k_pid demo_kstate \<and> (\<forall>x. \<not> grants p True x \<longrightarrow> k_umem st' x = k_umem demo_kstate x)"
proof -
  obtain p where p: "prepare [144, 144, 195] demo_image 0x200000 1 0 (Some [97, 0]) = Some p" "tables_wf p" by (rule demo_process)
  from syscall_contained [OF p(2) demo_kstate_wf, of id
    "\<lparr>fr_rax = 2, fr_rdi = USER_STARTUP, fr_rsi = 16, fr_rdx = 0, fr_rcx = 0, fr_r8 = 0\<rparr>"] p(1)
  show ?thesis by blast
qed

text \<open>C4: System calls do not leak. Two kernel states that differ only in memory the process cannot read give the same
  result, the same kernel state afterwards, and again the same readable memory: what the kernel returns, prints, draws or
  stores in a file depends on no byte outside the pages the process may read.\<close>

theorem syscall_no_leak:
  assumes "tables_wf p" "\<forall>x. grants p False x \<longrightarrow> k_umem st x = v x"
    "syscall sv (Some p) f st = Some (n, st1)" "syscall sv (Some p) f (st\<lparr>k_umem := v\<rparr>) = Some (m, st2)"
  shows "n = m \<and> st2 = st1\<lparr>k_umem := k_umem st2\<rparr> \<and> (\<forall>x. grants p False x \<longrightarrow> k_umem st1 x = k_umem st2 x)"
proof -
  have "agree p (k_umem st) v" using assms(2) by (simp add: agree_def)
  from syscall_same_view [OF assms(1) this, of sv f] show ?thesis unfolding assms(3,4) by (simp add: agree_def)
qed

theorem syscall_no_leak_witness:
  "\<exists>p n m st1 st2. prepare [144, 144, 195] demo_image 0x200000 1 0 (Some [97, 0]) = Some p \<and>
    syscall (console_services id) (Some p) \<lparr>fr_rax = 9, fr_rdi = USER_BASE, fr_rsi = USER_BASE, fr_rdx = 8, fr_rcx = 0, fr_r8 = 0\<rparr> demo_kstate = Some (n, st1) \<and>
    syscall (console_services id) (Some p) \<lparr>fr_rax = 9, fr_rdi = USER_BASE, fr_rsi = USER_BASE, fr_rdx = 8, fr_rcx = 0, fr_r8 = 0\<rparr>
      (demo_kstate\<lparr>k_umem := \<lambda>x. if x < USER_BASE then 0 else 65\<rparr>) = Some (m, st2) \<and> n = m"
proof -
  let ?f = "\<lparr>fr_rax = 9, fr_rdi = USER_BASE, fr_rsi = USER_BASE, fr_rdx = 8, fr_rcx = 0, fr_r8 = 0\<rparr>"
  let ?v = "\<lambda>x. if x < USER_BASE then 0 else (65 :: u8)"
  obtain p where p: "prepare [144, 144, 195] demo_image 0x200000 1 0 (Some [97, 0]) = Some p" "tables_wf p" by (rule demo_process)
  have "kstate_wf device_wf (demo_kstate\<lparr>k_umem := ?v\<rparr>)" using demo_kstate_wf by (simp add: kstate_wf_def)
  then obtain n m st1 st2 where r: "syscall (console_services id) (Some p) ?f demo_kstate = Some (n, st1)"
    "syscall (console_services id) (Some p) ?f (demo_kstate\<lparr>k_umem := ?v\<rparr>) = Some (m, st2)"
    using console.syscall_is_contained [OF p(2), of _ id ?f] demo_kstate_wf unfolding contained_def by metis
  have "\<forall>x. grants p False x \<longrightarrow> k_umem demo_kstate x = ?v x" by (auto simp: grants_def in_user_def demo_kstate_def)
  from syscall_no_leak [OF p(2) this r] r p(1) show ?thesis by blast
qed

end
