(* ===== verification/Interrupts.thy ===== *)
theory Interrupts
  imports Syscalls
begin

text \<open>
  Interrupts and process runs of \<^verbatim>\<open>isolation.c\<close>: the descriptor tables, the interrupt handler and
  \<^verbatim>\<open>run\<close>. Between interrupts the process executes its own code; an execution is a list of events, each the
  user memory the process left and the frame of the interrupt it caused.
\<close>

section \<open>Descriptor tables\<close>

record Gate =
  g_low :: u16
  g_selector :: u16
  g_ist :: u8
  g_type :: u8
  g_middle :: u16
  g_high :: u32
  g_reserved :: u32

definition make_gate :: "u64 \<Rightarrow> nat \<Rightarrow> Gate" where
  "make_gate address i = \<lparr>g_low = ucast (address AND 0xffff), g_selector = 0x18, g_ist = (if i = 8 then 1 else 0),
     g_type = (if i = 128 then 0xee else 0x8e), g_middle = ucast (drop_bit 16 address), g_high = ucast (drop_bit 32 address), g_reserved = 0\<rparr>"

definition tss_low :: "u64 \<Rightarrow> u64 \<Rightarrow> u64" where
  "tss_low base limit = (limit AND 0xffff) OR push_bit 16 (base AND 0xffff) OR push_bit 32 (drop_bit 16 base AND 255) OR
     push_bit 40 0x89 OR push_bit 48 (drop_bit 16 limit AND 15) OR push_bit 56 (drop_bit 24 base AND 255)"

definition tss_high :: "u64 \<Rightarrow> u64" where
  "tss_high base = drop_bit 32 base"

record Tss =
  t_rsp0 :: u64
  t_ist0 :: u64
  t_iomap :: u16

record tables =
  dt_tss :: Tss
  dt_gdt :: "u64 list"
  dt_idt :: "Gate list"
  dt_ready :: bool

text \<open>\<open>entry_stack\<close>, \<open>fault_stack\<close> and \<open>tss\<close> are the addresses of the static objects, \<open>isrs\<close> the table of handler addresses.\<close>

definition isolation_init :: "u64 \<Rightarrow> u64 \<Rightarrow> u64 \<Rightarrow> u64 list \<Rightarrow> tables \<Rightarrow> tables option" where
  "isolation_init entry_stack fault_stack tss isrs t = do {
     gdt \<leftarrow> wr (dt_gdt t) 6 (tss_low tss 103);
     gdt \<leftarrow> wr gdt 7 (tss_high tss);
     addresses \<leftarrow> slice isrs 0 256;
     Some (t\<lparr>dt_tss := (dt_tss t)\<lparr>t_rsp0 := entry_stack + 65536, t_ist0 := fault_stack + 8192, t_iomap := 104\<rparr>,
             dt_gdt := gdt, dt_idt := map (\<lambda>i. make_gate (addresses ! i) i) [0..<256], dt_ready := True\<rparr>) }"

text \<open>How the processor reads a gate.\<close>

definition gate_address :: "Gate \<Rightarrow> u64" where
  "gate_address g = ucast (g_low g) OR push_bit 16 (ucast (g_middle g)) OR push_bit 32 (ucast (g_high g))"

definition gate_dpl :: "Gate \<Rightarrow> nat" where
  "gate_dpl g = unat (drop_bit 5 (g_type g) AND 3)"

lemma gate_address_make: "gate_address (make_gate a i) = a"
proof (rule bit_word_eqI)
  fix n assume n: "n < LENGTH(64)"
  have low: "ucast (a AND 0xffff) = (ucast a :: u16)"
  proof (rule bit_word_eqI)
    fix m assume m: "m < LENGTH(16)"
    have "(0xffff :: u64) = mask 16" by (simp add: mask_eq_exp_minus_1)
    then show "bit (ucast (a AND 0xffff) :: u16) m = bit (ucast a :: u16) m" using m by (simp only: bit_ucast_iff bit_and_iff bit_mask_iff) auto
  qed
  show "bit (gate_address (make_gate a i)) n = bit a n"
    unfolding gate_address_def make_gate_def low using n
    by (cases "n < 16"; cases "n < 32") (auto simp: bit_or_iff bit_push_bit_iff bit_ucast_iff bit_drop_bit_eq)
qed

section \<open>Printing numbers\<close>

function number_digits :: "u32 \<Rightarrow> bytes \<Rightarrow> nat \<Rightarrow> (bytes \<times> nat) option" where
  "number_digits n buffer i =
     (if i = 0 then None else do {
        buffer \<leftarrow> wr buffer (i - 1) (48 + ucast (n mod 10));
        if n div 10 \<noteq> 0 then number_digits (n div 10) buffer (i - 1) else Some (buffer, i - 1) })"
  by pat_completeness auto
termination
  by (relation "measure (\<lambda>(n, buffer, i). i)") auto

declare number_digits.simps [simp del]

definition net_print_number :: "(bytes \<Rightarrow> 'd \<Rightarrow> 'd option) \<Rightarrow> u32 \<Rightarrow> 'd \<Rightarrow> 'd option" where
  "net_print_number sys_write n d = do {
     (buffer, i) \<leftarrow> number_digits n (replicate 11 0) 10;
     sys_write (drop i buffer) d }"

definition hex_digits :: bytes where
  "hex_digits = [48, 49, 50, 51, 52, 53, 54, 55, 56, 57, 97, 98, 99, 100, 101, 102]"

primrec hex_loop :: "nat \<Rightarrow> u64 \<Rightarrow> bytes \<Rightarrow> bytes" where
  "hex_loop 0 v acc = acc"
| "hex_loop (Suc k) v acc = hex_loop k (drop_bit 4 v) (hex_digits ! unat (v AND 15) # acc)"

text \<open>The loop fills \<^verbatim>\<open>text[17]\<close> down to \<^verbatim>\<open>text[2]\<close>.\<close>

definition hex :: "(bytes \<Rightarrow> 'd \<Rightarrow> 'd option) \<Rightarrow> u64 \<Rightarrow> 'd \<Rightarrow> 'd option" where
  "hex sys_write v d = sys_write ([48, 120] @ hex_loop 16 v [] @ [0]) d"

section \<open>The interrupt handler\<close>

record iframe = frame +
  fr_vector :: nat
  fr_error :: nat
  fr_rip :: nat
  fr_cs :: nat

record 'd iso =
  is_k :: "'d kstate"
  is_active :: "Process option"
  is_completed :: u32
  is_faults :: u32
  is_last_vector :: nat
  is_last_error :: nat
  is_last_address :: nat
  is_last_status :: int
  is_ready :: bool
  is_faulted :: bool

datatype exit_code = Resume iframe | Leave | Halt

definition with_dev :: "('d \<Rightarrow> 'd option) \<Rightarrow> 'd iso \<Rightarrow> 'd iso option" where
  "with_dev f s = do { d \<leftarrow> f (k_dev (is_k s)); Some (s\<lparr>is_k := (is_k s)\<lparr>k_dev := d\<rparr>\<rparr>) }"

definition report_exception :: "'d services \<Rightarrow> iframe \<Rightarrow> 'd \<Rightarrow> 'd option" where
  "report_exception sv f d = do {
     d \<leftarrow> sv_write sv (ascii ''KERNEL EXCEPTION vector='') d; d \<leftarrow> net_print_number (sv_write sv) (of_nat (fr_vector f)) d;
     d \<leftarrow> sv_write sv (ascii '' rip='') d; d \<leftarrow> hex (sv_write sv) (of_nat (fr_rip f)) d; sv_write sv [10, 0] d }"

definition isolation_interrupt :: "'d services \<Rightarrow> nat \<Rightarrow> iframe \<Rightarrow> 'd iso \<Rightarrow> (exit_code \<times> 'd iso) option" where
  "isolation_interrupt sv cr2 f s =
     (if fr_cs f mod 4 \<noteq> 3 \<or> is_active s = None \<or> fr_vector f = 8 then do {
        s \<leftarrow> with_dev (report_exception sv f) s; Some (Halt, s) }
      else if fr_vector f = 128 then
        if fr_rax f = 0 then Some (Leave, s\<lparr>is_last_status := s64 (fr_rdi f)\<rparr>)
        else do {
          (r, k) \<leftarrow> syscall sv (is_active s) f (is_k s);
          Some (Resume (f\<lparr>fr_rax := nat (r mod 2 ^ 64)\<rparr>), s\<lparr>is_k := k\<rparr>) }
      else Some (Leave, s\<lparr>is_last_vector := fr_vector f, is_last_error := fr_error f,
        is_last_address := (if fr_vector f = 14 then cr2 else is_last_address s),
        is_last_status := -1, is_faulted := True, is_faults := is_faults s + 1\<rparr>))"

section \<open>Running a process\<close>

definition le64 :: "nat \<Rightarrow> bytes" where
  "le64 n = map (\<lambda>i. of_nat (n div 256 ^ i)) [0..<8]"

definition startup_page :: "UserStartup \<Rightarrow> bytes" where
  "startup_page su = le64 (su_mode su) @ le64 (su_peer_address su) @ le64 (su_marker_address su) @ su_command su @
     replicate (PAGE - 24 - length (su_command su)) 0"

text \<open>The memory a fresh process sees; unmapped addresses are never read.\<close>

definition user_view :: "Process \<Rightarrow> nat \<Rightarrow> u8" where
  "user_view p x =
     (if USER_BASE \<le> x \<and> x < USER_STARTUP then p_memory p ! (x - USER_BASE)
      else if USER_STARTUP \<le> x \<and> x < USER_STARTUP + PAGE then startup_page (p_startup p) ! (x - USER_STARTUP)
      else if USER_STACK_BOTTOM \<le> x \<and> x < USER_STACK_TOP then p_stack p ! (x - USER_STACK_BOTTOM)
      else 0)"

record event =
  ev_umem :: "nat \<Rightarrow> u8" \<comment> \<open>user memory when the interrupt is taken\<close>
  ev_cr2 :: nat
  ev_frame :: iframe

text \<open>What \<^verbatim>\<open>isolation_enter\<close> runs: the interrupts of the process, until one leaves. \<open>False\<close> is a halted machine.\<close>

primrec user_run :: "'d services \<Rightarrow> event list \<Rightarrow> 'd iso \<Rightarrow> (bool \<times> 'd iso) option" where
  "user_run sv [] s = None"
| "user_run sv (ev # evs) s = do {
     (c, s) \<leftarrow> isolation_interrupt sv (ev_cr2 ev) (ev_frame ev) (s\<lparr>is_k := (is_k s)\<lparr>k_umem := ev_umem ev\<rparr>\<rparr>);
     (case c of Resume f \<Rightarrow> user_run sv evs s | Leave \<Rightarrow> Some (True, s) | Halt \<Rightarrow> Some (False, s)) }"

text \<open>The state the process has brought the kernel to while every interrupt so far came back to it.\<close>

primrec user_steps :: "'d services \<Rightarrow> event list \<Rightarrow> 'd iso \<Rightarrow> 'd iso option" where
  "user_steps sv [] s = Some s"
| "user_steps sv (ev # evs) s = do {
     (c, s) \<leftarrow> isolation_interrupt sv (ev_cr2 ev) (ev_frame ev) (s\<lparr>is_k := (is_k s)\<lparr>k_umem := ev_umem ev\<rparr>\<rparr>);
     (case c of Resume f \<Rightarrow> user_steps sv evs s | _ \<Rightarrow> None) }"

text \<open>The state a process is entered with.\<close>

definition entered :: "Process \<Rightarrow> 'd iso \<Rightarrow> 'd iso" where
  "entered p s = s\<lparr>is_k := (is_k s)\<lparr>k_pid := k_pid (is_k s) + 1, k_umem := user_view p\<rparr>, is_active := Some p, is_last_vector := 0,
     is_last_error := 0, is_last_address := 0, is_last_status := 0, is_faulted := False\<rparr>"

definition announce_fault :: "'d services \<Rightarrow> 'd iso \<Rightarrow> 'd \<Rightarrow> 'd option" where
  "announce_fault sv s d = do {
     d \<leftarrow> sv_terminal sv (ascii ''JordyOS / Shell'') d;
     d \<leftarrow> sv_write sv (ascii ''Application stopped: CPU fault vector='') d; d \<leftarrow> net_print_number (sv_write sv) (of_nat (is_last_vector s)) d;
     d \<leftarrow> sv_write sv (ascii '' address='') d; d \<leftarrow> hex (sv_write sv) (of_nat (is_last_address s)) d;
     sv_write sv (ascii (''; kernel survived.'' @ [CHR 0x0A])) d }"

definition run :: "'d services \<Rightarrow> bytes \<Rightarrow> UserSegment list \<Rightarrow> nat \<Rightarrow> nat \<Rightarrow> bytes option \<Rightarrow> nat \<Rightarrow> bool \<Rightarrow> event list \<Rightarrow> 'd iso
    \<Rightarrow> (bool \<times> bool \<times> 'd iso) option" where
  "run sv payload segments processes mode command slot announce evs s =
     (if \<not> is_ready s \<or> is_active s \<noteq> None \<or> slot \<ge> SLOTS then Some (True, False, s)
      else do {
        p \<leftarrow> prepare payload segments processes slot mode command;
        (alive, s) \<leftarrow> user_run sv evs (entered p s);
        if \<not> alive then Some (False, False, s)
        else do {
          let s = s\<lparr>is_active := None, is_completed := is_completed s + 1\<rparr>;
          s \<leftarrow> (if is_faulted s \<and> announce then with_dev (announce_fault sv s) s else Some s);
          Some (True, \<not> is_faulted s \<and> is_last_status s = 0, s) } })"

section \<open>What is printed\<close>

lemma digit_byte: "48 + ucast (n mod 10) = (48 + of_nat (unat n mod 10) :: u8)" for n :: u32
proof -
  have "unat (n mod 10) = unat n mod 10" by (simp add: unat_mod)
  then have "(ucast (n mod 10) :: u8) = of_nat (unat n mod 10)" by (metis of_nat_unat)
  then show ?thesis by simp
qed

lemma number_digits_spec:
  "length (dec_digits (unat n)) \<le> i \<Longrightarrow> i \<le> length buf \<Longrightarrow>
   \<exists>buf' i'. number_digits n buf i = Some (buf', i') \<and> length buf' = length buf \<and> i' \<le> i \<and> drop i' buf' = dec_digits (unat n) @ drop i buf"
proof (induction i arbitrary: n buf)
  case 0
  then show ?case using dec_digits_nonempty by simp
next
  case (Suc i)
  let ?b = "buf[i := 48 + ucast (n mod 10)]"
  have i: "i < length buf" using Suc.prems(2) by simp
  then have d: "drop i ?b = (48 + ucast (n mod 10)) # drop (Suc i) buf" by (simp add: Cons_nth_drop_Suc [symmetric])
  have e: "number_digits n buf (Suc i) = (if n div 10 \<noteq> 0 then number_digits (n div 10) ?b i else Some (?b, i))"
    using i by (subst number_digits.simps) (simp add: wr_def)
  have u: "unat (n div 10) = unat n div 10" by (simp add: unat_div)
  have z: "n div 10 = 0 \<longleftrightarrow> unat n < 10" using u by (metis div_eq_0_iff unat_eq_zero zero_neq_numeral)
  show ?case
  proof (cases "unat n < 10")
    case True
    then have "dec_digits (unat n) = [48 + ucast (n mod 10)]" by (subst dec_digits.simps) (simp add: digit_byte)
    then show ?thesis using e z True d i by auto
  next
    case False
    then have dd: "dec_digits (unat n) = dec_digits (unat (n div 10)) @ [48 + ucast (n mod 10)]"
      by (subst dec_digits.simps) (simp add: digit_byte u)
    have "length (dec_digits (unat (n div 10))) \<le> i" "i \<le> length ?b" using dd Suc.prems by simp_all
    from Suc.IH [OF this] obtain buf' i' where "number_digits (n div 10) ?b i = Some (buf', i')" "length buf' = length buf" "i' \<le> i"
      "drop i' buf' = dec_digits (unat (n div 10)) @ drop i ?b" by auto
    then show ?thesis using e z False d dd by auto
  qed
qed

lemma net_print_number_spec: "net_print_number sys_write n d = sys_write (dec_digits (unat n) @ [0]) d"
proof -
  have "unat n < 10 ^ 10" using unat_lt_u32 [of n] by simp
  then have l: "length (dec_digits (unat n)) \<le> 10" using dec_digits_length [of "unat n" 10] by simp
  from number_digits_spec [of n 10 "replicate 11 0"] l obtain buf i where "number_digits n (replicate 11 0) 10 = Some (buf, i)"
    "drop i buf = dec_digits (unat n) @ drop 10 (replicate 11 0)" by auto
  then show ?thesis by (simp add: net_print_number_def)
qed

lemma digits_cstr: "is_cstr (dec_digits n @ [0])"
  by (simp add: is_cstr_def)

lemma hex_cstr: "is_cstr ([48, 120] @ hex_loop 16 v [] @ [0])"
  by (simp add: is_cstr_def)

section \<open>Every run comes back\<close>

definition iso_wf :: "('d \<Rightarrow> bool) \<Rightarrow> 'd iso \<Rightarrow> bool" where
  "iso_wf live s \<longleftrightarrow> kstate_wf live (is_k s) \<and> (\<forall>p. is_active s = Some p \<longrightarrow> tables_wf p)"

text \<open>The frames the processor pushes for an interrupt from ring 3 that is not a double fault.\<close>

definition from_user :: "event \<Rightarrow> bool" where
  "from_user ev \<longleftrightarrow> fr_cs (ev_frame ev) mod 4 = 3 \<and> fr_vector (ev_frame ev) \<noteq> 8"

definition is_exit :: "event \<Rightarrow> bool" where
  "is_exit ev \<longleftrightarrow> fr_vector (ev_frame ev) = 128 \<and> fr_rax (ev_frame ev) = 0"

definition is_fault :: "event \<Rightarrow> bool" where
  "is_fault ev \<longleftrightarrow> fr_vector (ev_frame ev) \<noteq> 128"

context kernel_services
begin

lemma interrupt_resumes:
  assumes "iso_wf live s" "is_active s = Some p" "from_user ev" "\<not> is_exit ev" "\<not> is_fault ev"
  shows "\<exists>f' k. isolation_interrupt sv (ev_cr2 ev) (ev_frame ev) s = Some (Resume f', s\<lparr>is_k := k\<rparr>) \<and> kstate_wf live k \<and> k_pid k = k_pid (is_k s)"
proof -
  have "contained live p (is_k s) (syscall sv (Some p) (ev_frame ev) (is_k s))"
    using syscall_is_contained assms(1,2) unfolding iso_wf_def by blast
  then obtain n k where "syscall sv (Some p) (ev_frame ev) (is_k s) = Some (n, k)" "kstate_wf live k" "k_pid k = k_pid (is_k s)"
    unfolding contained_def by blast
  then show ?thesis using assms(2-5)
    by (intro exI [of _ "(ev_frame ev)\<lparr>fr_rax := nat (n mod 2 ^ 64)\<rparr>"] exI [of _ k])
      (simp add: isolation_interrupt_def from_user_def is_exit_def is_fault_def)
qed

lemma user_run_returns:
  assumes "iso_wf live s" "is_active s = Some p" "\<forall>ev \<in> set evs. from_user ev \<and> \<not> is_exit ev \<and> \<not> is_fault ev"
    "from_user last_ev" "is_exit last_ev \<or> is_fault last_ev" "\<not> is_faulted s"
  shows "\<exists>s'. user_run sv (evs @ [last_ev]) s = Some (True, s') \<and> kstate_wf live (is_k s') \<and> is_ready s' = is_ready s \<and>
    is_completed s' = is_completed s \<and> k_pid (is_k s') = k_pid (is_k s) \<and> is_active s' = is_active s \<and>
    is_faulted s' = is_fault last_ev \<and> is_faults s' = is_faults s + (if is_fault last_ev then 1 else 0) \<and>
    is_last_status s' = (if is_fault last_ev then -1 else s64 (fr_rdi (ev_frame last_ev)))"
  using assms(1,2,3,6)
proof (induction evs arbitrary: s)
  case Nil
  then show ?case using assms(4,5)
    by (auto simp: isolation_interrupt_def from_user_def is_exit_def is_fault_def iso_wf_def kstate_wf_def)
next
  case (Cons ev evs)
  let ?s = "s\<lparr>is_k := (is_k s)\<lparr>k_umem := ev_umem ev\<rparr>\<rparr>"
  have "iso_wf live ?s" "is_active ?s = Some p" using Cons.prems(1,2) by (simp_all add: iso_wf_def kstate_wf_def)
  with interrupt_resumes [of ?s p ev] Cons.prems(3) obtain f' k where
    r: "isolation_interrupt sv (ev_cr2 ev) (ev_frame ev) ?s = Some (Resume f', ?s\<lparr>is_k := k\<rparr>)" "kstate_wf live k" "k_pid k = k_pid (is_k s)" by auto
  let ?t = "s\<lparr>is_k := k\<rparr>"
  have t: "iso_wf live ?t" "is_active ?t = Some p" "\<not> is_faulted ?t" using Cons.prems r(2) by (simp_all add: iso_wf_def)
  have "\<forall>ev \<in> set evs. from_user ev \<and> \<not> is_exit ev \<and> \<not> is_fault ev" using Cons.prems(3) by simp
  from Cons.IH [OF t(1,2) this t(3)] r show ?case by simp
qed

lemma user_run_waits:
  assumes "iso_wf live s" "is_active s = Some p" "\<forall>ev \<in> set evs. from_user ev \<and> \<not> is_exit ev \<and> \<not> is_fault ev"
  shows "user_run sv evs s = None \<and> (\<exists>t. user_steps sv evs s = Some t \<and> iso_wf live t \<and> is_active t = Some p)"
  using assms
proof (induction evs arbitrary: s)
  case (Cons ev evs)
  let ?s = "s\<lparr>is_k := (is_k s)\<lparr>k_umem := ev_umem ev\<rparr>\<rparr>"
  have "iso_wf live ?s" "is_active ?s = Some p" using Cons.prems(1,2) by (simp_all add: iso_wf_def kstate_wf_def)
  with interrupt_resumes [of ?s p ev] Cons.prems(3) obtain f' k where
    r: "isolation_interrupt sv (ev_cr2 ev) (ev_frame ev) ?s = Some (Resume f', ?s\<lparr>is_k := k\<rparr>)" "kstate_wf live k" by auto
  let ?t = "s\<lparr>is_k := k\<rparr>"
  have "iso_wf live ?t" "is_active ?t = Some p" using Cons.prems(1,2) r(2) by (simp_all add: iso_wf_def)
  from Cons.IH [OF this] Cons.prems(3) r(1) show ?case by simp
qed simp

lemma announce_fault_live: "live d \<Longrightarrow> \<exists>d'. announce_fault sv s d = Some d' \<and> live d'"
proof -
  have w: "live d \<Longrightarrow> is_cstr t \<Longrightarrow> \<exists>d'. sv_write sv t d = Some d' \<and> live d'" for d t by (rule write_ok)
  have a: "is_cstr (ascii t)" for t by (simp add: ascii_def is_cstr_def)
  have seq: "\<exists>d'. Option.bind m g = Some d' \<and> live d'" if "\<exists>d'. m = Some d' \<and> live d'" "\<And>d. live d \<Longrightarrow> \<exists>d'. g d = Some d' \<and> live d'" for m g
    using that by auto
  assume "live d"
  then show ?thesis unfolding announce_fault_def net_print_number_spec hex_def
    by (intro seq w terminal_ok a digits_cstr hex_cstr) (simp_all add: ascii_def)
qed

lemma run_comes_back:
  assumes "is_ready s" "is_active s = None" "slot < SLOTS" "kstate_wf live (is_k s)"
    "image_ok payload segments" "command_ok command" "processes_ok processes"
    "\<forall>ev \<in> set evs. from_user ev \<and> \<not> is_exit ev \<and> \<not> is_fault ev" "from_user last_ev" "is_exit last_ev \<or> is_fault last_ev"
  shows "\<exists>s'. run sv payload segments processes mode command slot announce (evs @ [last_ev]) s =
      Some (True, is_exit last_ev \<and> s64 (fr_rdi (ev_frame last_ev)) = 0, s') \<and>
    is_ready s' \<and> is_active s' = None \<and> kstate_wf live (is_k s') \<and> is_completed s' = is_completed s + 1 \<and>
    is_faults s' = is_faults s + (if is_fault last_ev then 1 else 0) \<and> k_pid (is_k s') = k_pid (is_k s) + 1"
proof -
  obtain p where p: "prepare payload segments processes slot mode command = Some p" "tables_wf p"
    using prepare_ring3 [OF assms(5,6,7,3)] by blast
  let ?s = "s\<lparr>is_k := (is_k s)\<lparr>k_pid := k_pid (is_k s) + 1, k_umem := user_view p\<rparr>, is_active := Some p, is_last_vector := 0, is_last_error := 0,
          is_last_address := 0, is_last_status := 0, is_faulted := False\<rparr>"
  have w: "iso_wf live ?s" "is_active ?s = Some p" "\<not> is_faulted ?s" using assms(4) p(2) by (simp_all add: iso_wf_def kstate_wf_def)
  from user_run_returns [OF w(1,2) assms(8-10) w(3)] obtain t where t: "user_run sv (evs @ [last_ev]) ?s = Some (True, t)"
    "kstate_wf live (is_k t)" "is_ready t = is_ready s" "is_completed t = is_completed s" "k_pid (is_k t) = k_pid (is_k s) + 1"
    "is_faulted t = is_fault last_ev" "is_faults t = is_faults s + (if is_fault last_ev then 1 else 0)"
    "is_last_status t = (if is_fault last_ev then -1 else s64 (fr_rdi (ev_frame last_ev)))" by auto
  let ?t = "t\<lparr>is_active := None, is_completed := is_completed t + 1\<rparr>"
  obtain d' where d': "announce_fault sv ?t (k_dev (is_k t)) = Some d'" "live d'"
    using announce_fault_live [of "k_dev (is_k t)" ?t] t(2) by (auto simp: kstate_wf_def)
  let ?u = "if is_faulted t \<and> announce then ?t\<lparr>is_k := (is_k t)\<lparr>k_dev := d'\<rparr>\<rparr> else ?t"
  have "run sv payload segments processes mode command slot announce (evs @ [last_ev]) s = Some (True, \<not> is_faulted t \<and> is_last_status t = 0, ?u)"
    using assms(1-3) p(1) t(1) d'(1) by (simp add: run_def entered_def Let_def with_dev_def)
  moreover have "\<not> is_faulted t \<and> is_last_status t = 0 \<longleftrightarrow> is_exit last_ev \<and> s64 (fr_rdi (ev_frame last_ev)) = 0"
    using t(6,8) assms(10) by (auto simp: is_exit_def is_fault_def)
  ultimately show ?thesis using t(2-7) d'(2) assms(1) by (auto simp: kstate_wf_def)
qed

end

section \<open>Properties\<close>

lemma user_run_prefix: "user_run sv evs s = Some r \<Longrightarrow> user_run sv (evs @ rest) s = Some r"
proof (induction evs arbitrary: s)
  case (Cons ev evs)
  then obtain c t where "isolation_interrupt sv (ev_cr2 ev) (ev_frame ev) (s\<lparr>is_k := (is_k s)\<lparr>k_umem := ev_umem ev\<rparr>\<rparr>) = Some (c, t)"
    by (auto simp: Option.bind_eq_Some_conv)
  then show ?case using Cons by (cases c) simp_all
qed simp

lemma run_prefix:
  assumes "run sv payload segments processes mode command slot announce evs s = Some r"
  shows "run sv payload segments processes mode command slot announce (evs @ rest) s = Some r"
proof (cases "\<not> is_ready s \<or> is_active s \<noteq> None \<or> slot \<ge> SLOTS")
  case True
  then show ?thesis using assms by (simp add: run_def)
next
  case False
  then obtain p x where p: "prepare payload segments processes slot mode command = Some p" "user_run sv evs (entered p s) = Some x"
    using assms by (auto simp: run_def Option.bind_eq_Some_conv)
  have "run sv payload segments processes mode command slot announce (evs @ rest) s = run sv payload segments processes mode command slot announce evs s"
    unfolding run_def p(1) bind.bind_lunit p(2) user_run_prefix [OF p(2)] ..
  then show ?thesis using assms by (rule trans)
qed

lemma find_split: "find P xs = Some x \<Longrightarrow> \<exists>pre post. xs = (pre @ [x]) @ post \<and> P x \<and> (\<forall>y \<in> set pre. \<not> P y)"
proof (induction xs)
  case (Cons y ys)
  show ?case
  proof (cases "P y")
    case True
    then show ?thesis using Cons.prems by (intro exI [of _ "[]"] exI [of _ ys]) simp
  next
    case False
    then obtain pre post where "ys = (pre @ [x]) @ post" "P x" "\<forall>z \<in> set pre. \<not> P z" using Cons by auto
    then show ?thesis using False by (intro exI [of _ "y # pre"] exI [of _ post]) simp
  qed
qed simp

text \<open>C3: A run comes back exactly when the process exits or faults, and meanwhile the kernel stays in order. The interrupts a
  process raises from ring 3 are any list, with whatever registers and memory. If none of them is an exit call or a fault, the
  run has not come back: the process is still active (nothing takes the processor from it), every system call so far was
  answered and the kernel state is well-formed. Otherwise the first exit or fault returns to the caller with no process
  active, a well-formed kernel state and the process and fault counters updated, and the result is true exactly when that
  was the exit call with status 0.\<close>

theorem run_survives:
  assumes "is_ready s" "is_active s = None" "slot < SLOTS" "kstate_wf device_wf (is_k s)"
    "image_ok payload segments" "command_ok command" "processes_ok processes" "\<forall>ev \<in> set evs. from_user ev"
  shows "case find (\<lambda>ev. is_exit ev \<or> is_fault ev) evs of
      None \<Rightarrow> run (console_services rtl_poll) payload segments processes mode command slot announce evs s = None \<and> (\<exists>p t. prepare payload segments processes slot mode command = Some p \<and>
        user_steps (console_services rtl_poll) evs (entered p s) = Some t \<and> is_active t = Some p \<and> kstate_wf device_wf (is_k t))
    | Some l \<Rightarrow> (\<exists>s'. run (console_services rtl_poll) payload segments processes mode command slot announce evs s =
        Some (True, is_exit l \<and> s64 (fr_rdi (ev_frame l)) = 0, s') \<and>
        is_ready s' \<and> is_active s' = None \<and> kstate_wf device_wf (is_k s') \<and> is_completed s' = is_completed s + 1 \<and>
        is_faults s' = is_faults s + (if is_fault l then 1 else 0) \<and> k_pid (is_k s') = k_pid (is_k s) + 1)"
proof (cases "find (\<lambda>ev. is_exit ev \<or> is_fault ev) evs")
  case None
  then have c: "\<forall>ev \<in> set evs. from_user ev \<and> \<not> is_exit ev \<and> \<not> is_fault ev" using assms(8) by (auto simp: find_None_iff)
  obtain p where p: "prepare payload segments processes slot mode command = Some p" "tables_wf p"
    using prepare_ring3 [OF assms(5,6,7,3)] by blast
  have w: "iso_wf device_wf (entered p s)" "is_active (entered p s) = Some p" using assms(4) p(2) by (simp_all add: entered_def iso_wf_def kstate_wf_def)
  from console.user_run_waits [OF w c, of rtl_poll] p(1) assms(1-3) show ?thesis by (auto simp: None run_def iso_wf_def)
next
  case (Some l)
  obtain pre post where s: "evs = (pre @ [l]) @ post" "is_exit l \<or> is_fault l" "\<forall>ev \<in> set pre. \<not> (is_exit ev \<or> is_fault ev)"
    using find_split [OF Some] by blast
  have c: "\<forall>ev \<in> set pre. from_user ev \<and> \<not> is_exit ev \<and> \<not> is_fault ev" "from_user l" using s(1,3) assms(8) by auto
  have f: "find (\<lambda>ev. is_exit ev \<or> is_fault ev) ((pre @ [l]) @ post) = Some l" using Some unfolding s(1) .
  obtain s' where r: "run (console_services rtl_poll) payload segments processes mode command slot announce (pre @ [l]) s =
      Some (True, is_exit l \<and> s64 (fr_rdi (ev_frame l)) = 0, s')"
    "is_ready s' \<and> is_active s' = None \<and> kstate_wf device_wf (is_k s') \<and> is_completed s' = is_completed s + 1 \<and>
    is_faults s' = is_faults s + (if is_fault l then 1 else 0) \<and> k_pid (is_k s') = k_pid (is_k s) + 1"
    using console.run_comes_back [OF assms(1-7) c s(2), of rtl_poll mode announce] by blast
  show ?thesis unfolding s(1) f option.case using run_prefix [OF r(1), of post] r(2) by blast
qed

definition demo_iso :: "unit device iso" where
  "demo_iso = \<lparr>is_k = demo_kstate, is_active = None, is_completed = 0, is_faults = 0, is_last_vector = 0, is_last_error = 0,
     is_last_address = 0, is_last_status = 0, is_ready = True, is_faulted = False\<rparr>"

definition demo_event :: "nat \<Rightarrow> nat \<Rightarrow> event" where
  "demo_event vector rax = \<lparr>ev_umem = (\<lambda>_. 0), ev_cr2 = 0, ev_frame = \<lparr>fr_rax = rax, fr_rdi = 0, fr_rsi = 0, fr_rdx = 0, fr_rcx = 0, fr_r8 = 0,
     fr_vector = vector, fr_error = 0, fr_rip = 0, fr_cs = 0x2b\<rparr>\<rparr>"

theorem run_survives_witness:
  "\<exists>s'. run (console_services id) [144, 144, 195] demo_image 0x200000 0 (Some [97, 0]) 1 True [demo_event 128 6, demo_event 128 99, demo_event 13 0, demo_event 128 6] demo_iso =
      Some (True, False, s') \<and> is_ready s' \<and> is_active s' = None \<and> is_faults s' = 1"
proof -
  let ?evs = "[demo_event 128 6, demo_event 128 99, demo_event 13 0, demo_event 128 6]"
  have f: "find (\<lambda>ev. is_exit ev \<or> is_fault ev) ?evs = Some (demo_event 13 0)" by (simp add: demo_event_def is_exit_def is_fault_def)
  have "\<exists>s'. run (console_services id) [144, 144, 195] demo_image 0x200000 0 (Some [97, 0]) 1 True ?evs demo_iso =
      Some (True, is_exit (demo_event 13 0) \<and> s64 (fr_rdi (ev_frame (demo_event 13 0))) = 0, s') \<and>
    is_ready s' \<and> is_active s' = None \<and> kstate_wf device_wf (is_k s') \<and> is_completed s' = is_completed demo_iso + 1 \<and>
    is_faults s' = is_faults demo_iso + (if is_fault (demo_event 13 0) then 1 else 0) \<and> k_pid (is_k s') = k_pid (is_k demo_iso) + 1"
    using run_survives [OF _ _ _ _ demo_image_ok, of demo_iso 1 ?evs id 0 True] unfolding f option.case
    by (simp add: demo_iso_def demo_kstate_wf demo_event_def from_user_def)
  then show ?thesis by (auto simp: demo_event_def is_exit_def is_fault_def demo_iso_def)
qed

text \<open>C28: The interrupt table. After initialisation every vector leads to its own handler in the kernel code segment,
  only the system call vector 128 can be raised by user code, the double fault runs on its own stack, and the I/O
  permission map lies beyond the limit of the task state segment, so ring 3 has no direct port access.\<close>

theorem isolation_init_gates:
  assumes "length (dt_gdt t) = 8" "length isrs = 256" "i < 256"
  shows "\<exists>t'. isolation_init entry_stack fault_stack tss isrs t = Some t' \<and> dt_ready t' \<and>
    gate_address (dt_idt t' ! i) = isrs ! i \<and> g_selector (dt_idt t' ! i) = 0x18 \<and>
    (gate_dpl (dt_idt t' ! i) = 3 \<longleftrightarrow> i = 128) \<and> (i \<noteq> 128 \<longrightarrow> gate_dpl (dt_idt t' ! i) = 0) \<and>
    (g_ist (dt_idt t' ! i) = 1 \<longleftrightarrow> i = 8) \<and>
    unat (dt_gdt t' ! 6 AND 0xffff) < unat (t_iomap (dt_tss t'))"
proof -
  have l: "tss_low tss 103 AND 0xffff = 103"
  proof (rule bit_word_eqI)
    fix n assume n: "n < LENGTH(64)"
    have m: "(0xffff :: u64) = mask 16" by (simp add: mask_eq_exp_minus_1)
    have k: "\<not> bit (103 :: u64) n" if "16 \<le> n"
    proof -
      have "(103 :: int) < 2 ^ n" using power_increasing [OF that, of "2 :: int"] by simp
      then have "\<not> bit (103 :: int) n" by (simp add: bit_iff_odd)
      then show ?thesis by simp
    qed
    show "bit (tss_low tss 103 AND 0xffff) n = bit (103 :: u64) n"
      unfolding tss_low_def m using k n by (cases "16 \<le> n") (simp_all only: bit_and_iff bit_or_iff bit_mask_iff bit_push_bit_iff, auto)
  qed
  have "unat ((dt_gdt t)[6 := tss_low tss 103, 7 := tss_high tss] ! 6 AND 0xffff) = 103" using assms(1) l by simp
  moreover have "dpl = 3 \<longleftrightarrow> i = 128" "i \<noteq> 128 \<longrightarrow> dpl = 0" if "dpl = gate_dpl (make_gate a i)" for a dpl
    using that by (auto simp: gate_dpl_def make_gate_def)
  ultimately show ?thesis using assms
    by (simp add: isolation_init_def wr_def slice_def gate_address_make) (auto simp: make_gate_def)
qed

theorem isolation_init_gates_witness:
  "\<exists>t'. isolation_init 0 0 0 (replicate 256 0x1234567890) \<lparr>dt_tss = \<lparr>t_rsp0 = 0, t_ist0 = 0, t_iomap = 0\<rparr>, dt_gdt = replicate 8 0, dt_idt = [], dt_ready = False\<rparr> = Some t' \<and>
    dt_ready t' \<and> gate_address (dt_idt t' ! 128) = replicate 256 0x1234567890 ! 128 \<and> g_selector (dt_idt t' ! 128) = 0x18 \<and>
    (gate_dpl (dt_idt t' ! 128) = 3 \<longleftrightarrow> 128 = (128 :: nat)) \<and> (128 \<noteq> (128 :: nat) \<longrightarrow> gate_dpl (dt_idt t' ! 128) = 0) \<and>
    (g_ist (dt_idt t' ! 128) = 1 \<longleftrightarrow> 128 = (8 :: nat)) \<and>
    unat (dt_gdt t' ! 6 AND 0xffff) < unat (t_iomap (dt_tss t'))"
  by (rule isolation_init_gates) simp_all

end
