(* ===== verification/Isolation_Test.thy ===== *)
theory Isolation_Test
  imports Interrupts
begin

text \<open>
  The command \<^verbatim>\<open>isolation\<close> of \<^verbatim>\<open>src/jordyOS/isolation.c\<close>: the status report, and the self-test that runs probe
  processes and checks how each of them ended. The interrupts a process raises are an argument, \<open>pr_play\<close>, of its mode, slot,
  command and the state it is entered in (\<open>User_Program\<close> computes them for the program the kernel ships), as is the
  floating-point control word it leaves. The test also reads the memory of process 0 and the control word of the kernel, so
  the state has the memory of every process and what \<^verbatim>\<open>interrupts.asm\<close> does with the floating-point state. A machine halted
  by an exception in the kernel, and a process that does not end, do not come back: \<open>None\<close>.
\<close>

section \<open>Probes\<close>

record image =
  im_payload :: bytes
  im_segments :: "UserSegment list"
  im_processes :: nat

record 'd probes =
  pr_play :: "nat \<Rightarrow> nat \<Rightarrow> bytes option \<Rightarrow> 'd iso \<Rightarrow> event list" \<comment> \<open>of the mode, the slot, the command and the state it is entered in\<close>
  pr_control :: "nat \<Rightarrow> u32" \<comment> \<open>the control word the process of a mode leaves\<close>
  pr_memory :: "nat \<Rightarrow> nat \<Rightarrow> u8" \<comment> \<open>the memory of the processes before the test\<close>
  pr_mxcsr :: u32 \<comment> \<open>the control word of the kernel before the test\<close>

text \<open>The floating-point control word: \<^verbatim>\<open>isolation_enter\<close> saves it and loads the default, \<^verbatim>\<open>leave_user\<close> restores it.\<close>

record fx =
  fx_mxcsr :: u32
  fx_saved :: u32

definition enter_fx :: "fx \<Rightarrow> fx" where "enter_fx f = f\<lparr>fx_saved := fx_mxcsr f, fx_mxcsr := 0x1f80\<rparr>"
definition leave_fx :: "fx \<Rightarrow> fx" where "leave_fx f = f\<lparr>fx_mxcsr := fx_saved f\<rparr>"

text \<open>The memory of a process is the one it sees at its user addresses.\<close>

record 'd lab =
  lb_iso :: "'d iso"
  lb_memory :: "nat \<Rightarrow> nat \<Rightarrow> u8"
  lb_fx :: fx

text \<open>A run that takes place leaves the memory of its process as the last interrupt found it, and no other process touched.\<close>

definition launch :: "'d services \<Rightarrow> image \<Rightarrow> 'd probes \<Rightarrow> nat \<Rightarrow> nat \<Rightarrow> 'd lab \<Rightarrow> (bool \<times> 'd lab) option" where
  "launch sv im pr mode slot m = (let s = lb_iso m in do {
     (alive, ok, t) \<leftarrow> run sv (im_payload im) (im_segments im) (im_processes im) mode None slot False (pr_play pr mode slot None s) s;
     if \<not> alive then None
     else if \<not> is_ready s \<or> is_active s \<noteq> None \<or> slot \<ge> SLOTS then Some (ok, m\<lparr>lb_iso := t\<rparr>)
     else Some (ok, m\<lparr>lb_iso := t, lb_memory := (lb_memory m)(slot := k_umem (is_k t)),
       lb_fx := leave_fx ((enter_fx (lb_fx m))\<lparr>fx_mxcsr := pr_control pr mode\<rparr>)\<rparr>) })"

definition iso_say :: "'d services \<Rightarrow> string \<Rightarrow> 'd iso \<Rightarrow> 'd iso option" where
  "iso_say sv t s = with_dev (sv_write sv (ascii t)) s"

definition check :: "'d services \<Rightarrow> bool \<Rightarrow> string \<Rightarrow> nat \<Rightarrow> 'd lab \<Rightarrow> (nat \<times> 'd lab) option" where
  "check sv ok name failed m = do {
     s \<leftarrow> iso_say sv (if ok then ''PASS '' else ''FAIL '') (lb_iso m);
     s \<leftarrow> iso_say sv name s;
     s \<leftarrow> iso_say sv [CHR 0x0A] s;
     Some (if \<not> ok then failed + 1 else failed, m\<lparr>lb_iso := s\<rparr>) }"

text \<open>The table: mode, expected vector, name.\<close>

definition fault_tests :: "(nat \<times> nat \<times> string) list" where
  "fault_tests =
     [(2, 14, ''kernel read blocked''), (3, 14, ''kernel write blocked''),
      (4, 14, ''other process memory read blocked''), (5, 14, ''other process memory write blocked''),
      (6, 13, ''privileged HLT blocked''), (7, 13, ''direct device I/O blocked''),
      (8, 13, ''page-table register access blocked''), (9, 14, ''code page write blocked''),
      (19, 0, ''divide-error fault contained''), (20, 6, ''invalid-opcode fault contained''),
      (10, 14, ''data execution blocked by NX''), (11, 14, ''null access blocked''),
      (16, 14, ''read-only startup page write blocked''),
      (12, 14, ''stack guard blocked'')]"

definition fault_seen :: "nat \<Rightarrow> nat \<Rightarrow> 'd iso \<Rightarrow> bool" where
  "fault_seen mode vector s \<longleftrightarrow>
     (let ok = (is_last_vector s = vector \<and> is_last_status s = -1);
          ok = (if is_last_vector s = 14 then ok \<and> is_last_error s AND 4 \<noteq> 0 else ok) in
      if mode = 10 then ok \<and> is_last_error s AND 16 \<noteq> 0 else ok)"

fun fault_loop :: "'d services \<Rightarrow> image \<Rightarrow> 'd probes \<Rightarrow> (nat \<times> nat \<times> string) list \<Rightarrow> nat \<Rightarrow> 'd lab \<Rightarrow> (nat \<times> 'd lab) option" where
  "fault_loop sv im pr [] failed m = Some (failed, m)"
| "fault_loop sv im pr ((mode, vector, name) # tests) failed m = do {
     (ok, m) \<leftarrow> launch sv im pr mode 1 m;
     (failed, m) \<leftarrow> check sv (fault_seen mode vector (lb_iso m)) name failed m;
     fault_loop sv im pr tests failed m }"

definition le_value :: "bytes \<Rightarrow> nat" where
  "le_value bs = foldr (\<lambda>b v. unat b + 256 * v) bs 0"

text \<open>The last page of the image of process 0, which that process sees at the address of the marker.\<close>

definition marker_word :: "(nat \<Rightarrow> u8) \<Rightarrow> nat" where
  "marker_word memory = le_value (get_user memory MARKER 8)"

definition isolation_probes :: "'d services \<Rightarrow> image \<Rightarrow> 'd probes \<Rightarrow> 'd lab \<Rightarrow> (nat \<times> 'd lab) option" where
  "isolation_probes sv im pr m = do {
     (ok, m) \<leftarrow> launch sv im pr 1 0 m;
     (failed, m) \<leftarrow> check sv ok ''ring3 execution and syscall return'' 0 m;
     (ok, m) \<leftarrow> launch sv im pr 14 0 m;
     (ok, m) \<leftarrow> (if ok then launch sv im pr 15 1 m else Some (False, m));
     (failed, m) \<leftarrow> check sv ok ''same virtual address has private physical memory'' failed m;
     (failed, m) \<leftarrow> fault_loop sv im pr fault_tests failed m;
     (failed, m) \<leftarrow> check sv (marker_word (lb_memory m 0) = 0xabcddcba) ''other process memory remains unchanged'' failed m;
     (ok, m) \<leftarrow> launch sv im pr 17 1 m;
     (failed, m) \<leftarrow> check sv ok ''kernel entry clears user direction flag'' failed m;
     let before = fx_mxcsr (lb_fx m);
     (fp, m) \<leftarrow> launch sv im pr 18 1 m;
     (failed, m) \<leftarrow> check sv (fp \<and> fx_mxcsr (lb_fx m) = before) ''user floating-point control cannot contaminate kernel'' failed m;
     (ok, m) \<leftarrow> launch sv im pr 13 0 m;
     (failed, m) \<leftarrow> check sv ok ''kernel validates syscall pointers and sizes'' failed m;
     (ok, m) \<leftarrow> launch sv im pr 1 0 m;
     (failed, m) \<leftarrow> check sv ok ''healthy app runs after all faults'' failed m;
     Some (failed, m) }"

definition isolation_test :: "'d services \<Rightarrow> image \<Rightarrow> 'd probes \<Rightarrow> 'd iso \<Rightarrow> (nat \<times> 'd iso) option" where
  "isolation_test sv im pr s = do {
     (failed, m) \<leftarrow> isolation_probes sv im pr \<lparr>lb_iso = s, lb_memory = pr_memory pr, lb_fx = \<lparr>fx_mxcsr = pr_mxcsr pr, fx_saved = 0\<rparr>\<rparr>;
     s \<leftarrow> iso_say sv ((if failed \<noteq> 0 then ''ISOLATION TESTS FAILED'' else ''ISOLATION TESTS PASS'') @ [CHR 0x0A]) (lb_iso m);
     Some (failed, s) }"

section \<open>The command\<close>

definition iso_number :: "'d services \<Rightarrow> u32 \<Rightarrow> 'd iso \<Rightarrow> 'd iso option" where
  "iso_number sv n s = with_dev (net_print_number (sv_write sv) n) s"

definition isolation_status :: "'d services \<Rightarrow> 'd iso \<Rightarrow> 'd iso option" where
  "isolation_status sv s = do {
     s \<leftarrow> iso_say sv (''Application isolation: ring 3; private CR3 per launch'' @ [CHR 0x0A] @
       ''User pages: private RX code, read-only data/startup, RW+NX heap/stack'' @ [CHR 0x0A] @
       ''Kernel/page tables/devices: supervisor-only; checked int 0x80 services'' @ [CHR 0x0A] @
       ''One foreground app; kernel shell, display, RAM files and network are shared services.'' @ [CHR 0x0A]) s;
     s \<leftarrow> iso_say sv ''processes='' s; s \<leftarrow> iso_number sv (is_completed s) s;
     s \<leftarrow> iso_say sv '' faults='' s; s \<leftarrow> iso_number sv (is_faults s) s;
     s \<leftarrow> iso_say sv '' rejected_syscalls='' s; s \<leftarrow> iso_number sv (k_rejected (is_k s)) s;
     iso_say sv [CHR 0x0A] s }"

definition argument_is :: "bytes \<Rightarrow> string \<Rightarrow> bool option" where
  "argument_is s t = do { v \<leftarrow> strcmp s (ascii t); Some (v = 0) }"

definition isolation_command :: "'d services \<Rightarrow> image \<Rightarrow> 'd probes \<Rightarrow> bytes \<Rightarrow> 'd iso \<Rightarrow> 'd iso option" where
  "isolation_command sv im pr arguments s = do {
     c \<leftarrow> rd arguments 0;
     status \<leftarrow> (if c = 0 then Some True else argument_is arguments ''status'');
     if status then isolation_status sv s
     else do {
       test \<leftarrow> argument_is arguments ''test'';
       if \<not> test then iso_say sv (''isolation [status|test]'' @ [CHR 0x0A]) s
       else do { (failed, s) \<leftarrow> isolation_test sv im pr s; Some s } } }"

text \<open>The application launch of the shell: two process slots in turn.\<close>

definition app_ape :: "'d services \<Rightarrow> image \<Rightarrow> 'd probes \<Rightarrow> bytes \<Rightarrow> u32 \<Rightarrow> 'd iso \<Rightarrow> (u32 \<times> 'd iso) option" where
  "app_ape sv im pr command next_slot s = do {
     (alive, ok, s) \<leftarrow> run sv (im_payload im) (im_segments im) (im_processes im) 0 (Some command) (unat next_slot mod SLOTS) True (pr_play pr 0 (unat next_slot mod SLOTS) (Some command) s) s;
     if alive then Some (next_slot + 1, s) else None }"

section \<open>How a run ended\<close>

lemma interrupt_resume_last:
  assumes "from_user ev" "\<not> is_exit ev" "\<not> is_fault ev" "isolation_interrupt sv cr2 (ev_frame ev) s = Some (r, s')" "is_active s \<noteq> None"
  shows "\<exists>f k. r = Resume f \<and> s' = s\<lparr>is_k := k\<rparr>"
  using assms by (auto simp: isolation_interrupt_def from_user_def is_exit_def is_fault_def Option.bind_eq_Some_conv split: if_splits)

lemma user_run_last:
  "user_run sv (evs @ [l]) s = Some (True, s') \<Longrightarrow> \<forall>ev \<in> set evs. from_user ev \<and> \<not> is_exit ev \<and> \<not> is_fault ev \<Longrightarrow> from_user l \<Longrightarrow>
   is_exit l \<or> is_fault l \<Longrightarrow> is_active s \<noteq> None \<Longrightarrow>
   is_last_vector s' = (if is_fault l then fr_vector (ev_frame l) else is_last_vector s) \<and>
   is_last_error s' = (if is_fault l then fr_error (ev_frame l) else is_last_error s) \<and>
   is_last_status s' = (if is_fault l then -1 else s64 (fr_rdi (ev_frame l))) \<and> k_umem (is_k s') = ev_umem l"
proof (induction evs arbitrary: s)
  case Nil
  then show ?case by (auto simp: isolation_interrupt_def from_user_def is_exit_def is_fault_def Option.bind_eq_Some_conv split: if_splits)
next
  case (Cons ev evs)
  let ?s = "s\<lparr>is_k := (is_k s)\<lparr>k_umem := ev_umem ev\<rparr>\<rparr>"
  obtain r t where r: "isolation_interrupt sv (ev_cr2 ev) (ev_frame ev) ?s = Some (r, t)" using Cons.prems(1) by (auto simp: Option.bind_eq_Some_conv)
  have "is_active ?s \<noteq> None" using Cons.prems(5) by simp
  with interrupt_resume_last [OF _ _ _ r] Cons.prems(2) obtain f k where f: "r = Resume f" "t = ?s\<lparr>is_k := k\<rparr>" by auto
  have go: "user_run sv (evs @ [l]) t = Some (True, s')" using Cons.prems(1) r f(1) by simp
  show ?case using Cons.IH [OF go] Cons.prems(2-5) f(2) by simp
qed

lemma run_last:
  assumes "run sv payload segments processes mode command slot False (evs @ [l]) s = Some (True, ok, s')" "is_ready s" "is_active s = None" "slot < SLOTS"
    "\<forall>ev \<in> set evs. from_user ev \<and> \<not> is_exit ev \<and> \<not> is_fault ev" "from_user l" "is_exit l \<or> is_fault l"
  shows "is_last_vector s' = (if is_fault l then fr_vector (ev_frame l) else 0) \<and> is_last_error s' = (if is_fault l then fr_error (ev_frame l) else 0) \<and>
    is_last_status s' = (if is_fault l then -1 else s64 (fr_rdi (ev_frame l))) \<and> k_umem (is_k s') = ev_umem l"
proof -
  obtain p where "prepare payload segments processes slot mode command = Some p" using assms(1-4) by (auto simp: run_def Option.bind_eq_Some_conv)
  let ?s = "entered p s"
  obtain t where t: "user_run sv (evs @ [l]) ?s = Some (True, t)" "s' = t\<lparr>is_active := None, is_completed := is_completed t + 1\<rparr>"
    using assms(1-4) \<open>prepare _ _ _ _ _ _ = _\<close> by (auto simp: run_def Let_def Option.bind_eq_Some_conv split: if_splits)
  show ?thesis using user_run_last [OF t(1) assms(5-7)] t(2) by (simp add: entered_def)
qed

section \<open>The verdict\<close>

text \<open>A process that ends, with the exit call or a fault, after any system calls, and how its last interrupt was.\<close>

definition ended_with :: "(event \<Rightarrow> bool) \<Rightarrow> event list \<Rightarrow> bool" where
  "ended_with R play \<longleftrightarrow> (\<exists>evs l. play = evs @ [l] \<and> (\<forall>ev \<in> set evs. from_user ev \<and> \<not> is_exit ev \<and> \<not> is_fault ev) \<and>
     from_user l \<and> (is_exit l \<or> is_fault l) \<and> R l)"

definition leaves :: "int \<Rightarrow> event \<Rightarrow> bool" where
  "leaves r l \<longleftrightarrow> is_exit l \<and> s64 (fr_rdi (ev_frame l)) = r"

text \<open>What the test takes for a stopped probe. It cannot tell a process that exits with status -1 from one that divides by zero.\<close>

definition stopped :: "nat \<Rightarrow> nat \<Rightarrow> event \<Rightarrow> bool" where
  "stopped mode vector l \<longleftrightarrow> (let f = ev_frame l in
     if is_fault l then fr_vector f = vector \<and> (vector = 14 \<longrightarrow> fr_error f AND 4 \<noteq> 0) \<and> (mode = 10 \<longrightarrow> fr_error f AND 16 \<noteq> 0)
     else vector = 0 \<and> mode \<noteq> 10 \<and> s64 (fr_rdi f) = -1)"

definition passes :: "nat \<Rightarrow> event \<Rightarrow> bool" where
  "passes mode l \<longleftrightarrow> (case map_of fault_tests mode of None \<Rightarrow> leaves 0 l | Some (vector, name) \<Rightarrow> stopped mode vector l)"

definition marked :: "(nat \<Rightarrow> u8) \<Rightarrow> bool" where "marked memory \<longleftrightarrow> marker_word memory = 0xabcddcba"

text \<open>The modes of the test and their slots.\<close>

definition schedule :: "(nat \<times> nat) list" where
  "schedule = [(1, 0), (14, 0), (15, 1)] @ map (\<lambda>(mode, _). (mode, 1)) fault_tests @ [(17, 1), (18, 1), (13, 0)]"

context kernel_services
begin

definition idle :: "'d iso \<Rightarrow> bool" where
  "idle s \<longleftrightarrow> is_ready s \<and> is_active s = None \<and> kstate_wf live (is_k s)"

text \<open>
  What is known of the plays of processes whose number is not 0: which modes pass (\<open>good\<close>) and whether the marker is written
  (\<open>kept\<close>). During the test: whether all checks so far passed is \<open>P\<close>, after the run of the marker probe the memory of
  process 0 holds it or not, and the numbers of the processes are at most \<open>b\<close>.
\<close>

definition fresh :: "'d iso \<Rightarrow> bool" where
  "fresh s \<longleftrightarrow> idle s \<and> k_pid (is_k s) + 1 \<noteq> 0"

definition behave :: "'d probes \<Rightarrow> (nat \<Rightarrow> bool) \<Rightarrow> bool \<Rightarrow> bool" where
  "behave pr good kept \<longleftrightarrow> (\<forall>(mode, slot) \<in> set schedule. \<forall>s. fresh s \<longrightarrow>
     ended_with (\<lambda>l. passes mode l = good mode \<and> (mode = 14 \<longrightarrow> marked (ev_umem l) = kept)) (pr_play pr mode slot None s))"

definition counted :: "bool \<Rightarrow> bool option \<Rightarrow> nat \<Rightarrow> nat \<Rightarrow> 'd lab \<Rightarrow> bool" where
  "counted P w b failed m \<longleftrightarrow> idle (lb_iso m) \<and> (failed = 0 \<longleftrightarrow> P) \<and> (\<forall>k. w = Some k \<longrightarrow> marked (lb_memory m 0) = k) \<and>
     unat (k_pid (is_k (lb_iso m))) \<le> b"

lemma counted_fresh: "counted P w b failed m \<Longrightarrow> b + 1 < 2 ^ 32 \<Longrightarrow> fresh (lb_iso m) \<and> unat (k_pid (is_k (lb_iso m)) + 1) = unat (k_pid (is_k (lb_iso m))) + 1"
proof -
  assume c: "counted P w b failed m" "b + 1 < 2 ^ 32"
  let ?p = "k_pid (is_k (lb_iso m))"
  have "unat (?p + 1) = unat ?p + 1" using c by (simp add: counted_def unat_word_ariths)
  moreover from this have "?p + 1 \<noteq> 0" by (metis add_eq_0_iff_both_eq_0 unat_0 zero_neq_one)
  ultimately show ?thesis using c(1) by (simp add: counted_def fresh_def)
qed

lemma say_idle:
  assumes "idle s"
  shows "\<exists>d. iso_say sv t s = Some (s\<lparr>is_k := (is_k s)\<lparr>k_dev := d\<rparr>\<rparr>) \<and> idle (s\<lparr>is_k := (is_k s)\<lparr>k_dev := d\<rparr>\<rparr>)"
proof -
  have "live (k_dev (is_k s))" using assms by (simp add: idle_def kstate_wf_def)
  moreover have "is_cstr (ascii t)" by (simp add: ascii_def is_cstr_def)
  ultimately obtain d where "sv_write sv (ascii t) (k_dev (is_k s)) = Some d" "live d" using write_ok by blast
  then show ?thesis using assms by (auto simp: iso_say_def with_dev_def idle_def kstate_wf_def)
qed

lemma check_idle:
  assumes "idle (lb_iso m)"
  shows "\<exists>s'. check sv ok name failed m = Some (if ok then failed else failed + 1, m\<lparr>lb_iso := s'\<rparr>) \<and> idle s' \<and> k_pid (is_k s') = k_pid (is_k (lb_iso m))"
proof -
  obtain s1 where s1: "iso_say sv (if ok then ''PASS '' else ''FAIL '') (lb_iso m) = Some s1" "idle s1" "k_pid (is_k s1) = k_pid (is_k (lb_iso m))"
    using say_idle [OF assms] by fastforce
  obtain s2 where s2: "iso_say sv name s1 = Some s2" "idle s2" "k_pid (is_k s2) = k_pid (is_k (lb_iso m))" using say_idle [OF s1(2)] s1(3) by fastforce
  obtain s3 where s3: "iso_say sv [CHR 0x0A] s2 = Some s3" "idle s3" "k_pid (is_k s3) = k_pid (is_k (lb_iso m))" using say_idle [OF s2(2)] s2(3) by fastforce
  show ?thesis using s3(2,3) unfolding check_def s1(1) bind.bind_lunit s2(1) s3(1) by (intro exI [of _ s3]) simp
qed

lemma check_counted:
  assumes "counted P w b failed m"
  shows "\<exists>m' failed'. check sv ok name failed m = Some (failed', m') \<and> counted (P \<and> ok) w b failed' m'"
proof -
  have i: "idle (lb_iso m)" using assms by (simp add: counted_def)
  from check_idle [OF i] obtain s' where "check sv ok name failed m = Some (if ok then failed else failed + 1, m\<lparr>lb_iso := s'\<rparr>)" "idle s'"
    "k_pid (is_k s') = k_pid (is_k (lb_iso m))" by blast
  then show ?thesis using assms by (intro exI [of _ "m\<lparr>lb_iso := s'\<rparr>"] exI [of _ "if ok then failed else failed + 1"]) (auto simp: counted_def)
qed

lemma launch_ends:
  assumes "idle (lb_iso m)" "slot < SLOTS" "image_ok (im_payload im) (im_segments im)" "processes_ok (im_processes im)"
    "ended_with R (pr_play pr mode slot None (lb_iso m))"
  shows "\<exists>l t. R l \<and> launch sv im pr mode slot m = Some (leaves 0 l, t) \<and> idle (lb_iso t) \<and> k_pid (is_k (lb_iso t)) = k_pid (is_k (lb_iso m)) + 1 \<and> lb_memory t = (lb_memory m)(slot := ev_umem l) \<and>
    (\<forall>v. fault_seen mode v (lb_iso t) = stopped mode v l) \<and> fx_mxcsr (lb_fx t) = fx_mxcsr (lb_fx m)"
proof -
  let ?s = "lb_iso m"
  obtain evs l where l: "pr_play pr mode slot None ?s = evs @ [l]" "\<forall>ev \<in> set evs. from_user ev \<and> \<not> is_exit ev \<and> \<not> is_fault ev" "from_user l"
    "is_exit l \<or> is_fault l" "R l" using assms(5) unfolding ended_with_def by blast
  have s: "is_ready ?s" "is_active ?s = None" "kstate_wf live (is_k ?s)" using assms(1) by (simp_all add: idle_def)
  have cm: "command_ok None" by (simp add: command_ok_def)
  from run_comes_back [OF s(1,2) assms(2) s(3) assms(3) cm assms(4) l(2-4), of mode False] obtain s' where
    r: "run sv (im_payload im) (im_segments im) (im_processes im) mode None slot False (evs @ [l]) ?s = Some (True, leaves 0 l, s')"
    "is_ready s'" "is_active s' = None" "kstate_wf live (is_k s')" "k_pid (is_k s') = k_pid (is_k ?s) + 1" unfolding leaves_def by blast
  note e = run_last [OF r(1) s(1,2) assms(2) l(2-4)]
  let ?t = "m\<lparr>lb_iso := s', lb_memory := (lb_memory m)(slot := k_umem (is_k s')),
    lb_fx := leave_fx ((enter_fx (lb_fx m))\<lparr>fx_mxcsr := pr_control pr mode\<rparr>)\<rparr>"
  have "launch sv im pr mode slot m = Some (leaves 0 l, ?t)"
    unfolding launch_def Let_def l(1) r(1) bind.bind_lunit using s(1,2) assms(2) by simp
  moreover have "fault_seen mode v s' = stopped mode v l" for v using e by (auto simp: fault_seen_def stopped_def Let_def)
  ultimately show ?thesis using l(5) r(2-5) e by (intro exI [of _ l] exI [of _ ?t]) (simp add: idle_def enter_fx_def leave_fx_def)
qed

lemma launch_counted:
  assumes "counted P w b failed m" "b + 1 < 2 ^ 32" "slot < SLOTS" "image_ok (im_payload im) (im_segments im)" "processes_ok (im_processes im)"
    "\<And>s. fresh s \<Longrightarrow> ended_with R (pr_play pr mode slot None s)"
  shows "\<exists>l t. R l \<and> launch sv im pr mode slot m = Some (leaves 0 l, t) \<and>
    counted P (if slot = 0 then Some (marked (ev_umem l)) else w) (b + 1) failed t \<and>
    (\<forall>v. fault_seen mode v (lb_iso t) = stopped mode v l) \<and> fx_mxcsr (lb_fx t) = fx_mxcsr (lb_fx m)"
proof -
  have i: "idle (lb_iso m)" "fresh (lb_iso m)" "unat (k_pid (is_k (lb_iso m)) + 1) = unat (k_pid (is_k (lb_iso m))) + 1"
    using counted_fresh [OF assms(1,2)] by (simp_all add: fresh_def)
  from launch_ends [OF i(1) assms(3-5) assms(6) [OF i(2)]] obtain l t where t: "R l" "launch sv im pr mode slot m = Some (leaves 0 l, t)" "idle (lb_iso t)" "k_pid (is_k (lb_iso t)) = k_pid (is_k (lb_iso m)) + 1"
    "lb_memory t = (lb_memory m)(slot := ev_umem l)" "\<forall>v. fault_seen mode v (lb_iso t) = stopped mode v l" "fx_mxcsr (lb_fx t) = fx_mxcsr (lb_fx m)" by blast
  then show ?thesis using assms(1) i(3) by (intro exI [of _ l] exI [of _ t]) (auto simp: counted_def)
qed

text \<open>The steps of the test, each with what its continuation may rely on.\<close>

lemma probe_then:
  assumes "counted P w b failed m" "b + 1 < 2 ^ 32" "slot < SLOTS" "image_ok (im_payload im) (im_segments im)" "processes_ok (im_processes im)"
    "\<And>s. fresh s \<Longrightarrow> ended_with (\<lambda>l. leaves 0 l = g) (pr_play pr mode slot None s)"
    "\<And>failed m. counted (P \<and> g) None (b + 1) failed m \<Longrightarrow> Q (k failed m)"
  shows "Q (do { (ok, m) \<leftarrow> launch sv im pr mode slot m; (failed, m) \<leftarrow> check sv ok name failed m; k failed m })"
proof -
  from launch_counted [OF assms(1-6)] obtain l t where t: "leaves 0 l = g" "launch sv im pr mode slot m = Some (leaves 0 l, t)"
    "counted P (if slot = 0 then Some (marked (ev_umem l)) else w) (b + 1) failed t" by blast
  have "counted P None (b + 1) failed t" using t(3) by (simp add: counted_def)
  from check_counted [OF this, of g name] obtain f u where u: "check sv g name failed t = Some (f, u)" "counted (P \<and> g) None (b + 1) f u" by blast
  show ?thesis using assms(7) [OF u(2)] unfolding t(2) t(1) bind.bind_lunit prod.case u(1) .
qed

lemma control_then:
  assumes "counted P w b failed m" "b + 1 < 2 ^ 32" "slot < SLOTS" "image_ok (im_payload im) (im_segments im)" "processes_ok (im_processes im)"
    "\<And>s. fresh s \<Longrightarrow> ended_with (\<lambda>l. leaves 0 l = g) (pr_play pr mode slot None s)"
    "\<And>failed m. counted (P \<and> g) None (b + 1) failed m \<Longrightarrow> Q (k failed m)"
  shows "Q (let before = fx_mxcsr (lb_fx m) in do { (ok, m) \<leftarrow> launch sv im pr mode slot m;
    (failed, m) \<leftarrow> check sv (ok \<and> fx_mxcsr (lb_fx m) = before) name failed m; k failed m })"
proof -
  from launch_counted [OF assms(1-6)] obtain l t where t: "leaves 0 l = g" "launch sv im pr mode slot m = Some (leaves 0 l, t)"
    "counted P (if slot = 0 then Some (marked (ev_umem l)) else w) (b + 1) failed t" "fx_mxcsr (lb_fx t) = fx_mxcsr (lb_fx m)" by blast
  have "counted P None (b + 1) failed t" using t(3) by (simp add: counted_def)
  from check_counted [OF this, of g name] obtain f u where u: "check sv g name failed t = Some (f, u)" "counted (P \<and> g) None (b + 1) f u" by blast
  show ?thesis using assms(7) [OF u(2)] unfolding Let_def t(2) t(1) bind.bind_lunit prod.case t(4) simp_thms u(1) .
qed

lemma marker_then:
  assumes "counted P (Some k) b failed m" "\<And>failed m. counted (P \<and> k) None b failed m \<Longrightarrow> Q (f failed m)"
  shows "Q (do { (failed, m) \<leftarrow> check sv (marker_word (lb_memory m 0) = 0xabcddcba) name failed m; f failed m })"
proof -
  have w: "(marker_word (lb_memory m 0) = 0xabcddcba) = k" "counted P None b failed m" using assms(1) by (simp_all add: counted_def marked_def)
  from check_counted [OF w(2), of k name] obtain n u where u: "check sv k name failed m = Some (n, u)" "counted (P \<and> k) None b n u" by blast
  show ?thesis using assms(2) [OF u(2)] unfolding w(1) u(1) bind.bind_lunit prod.case .
qed

lemma pair_then:
  assumes "counted P w b failed m" "b + 2 < 2 ^ 32" "image_ok (im_payload im) (im_segments im)" "processes_ok (im_processes im)"
    "\<And>s. fresh s \<Longrightarrow> ended_with (\<lambda>l. leaves 0 l = g \<and> marked (ev_umem l) = kept) (pr_play pr m0 0 None s)"
    "\<And>s. fresh s \<Longrightarrow> ended_with (\<lambda>l. leaves 0 l = h) (pr_play pr m1 1 None s)"
    "\<And>failed m. counted (P \<and> g \<and> h) (Some kept) (b + 2) failed m \<Longrightarrow> Q (k failed m)"
  shows "Q (do { (ok, m) \<leftarrow> launch sv im pr m0 0 m; (ok, m) \<leftarrow> (if ok then launch sv im pr m1 1 m else Some (False, m));
    (failed, m) \<leftarrow> check sv ok name failed m; k failed m })"
proof -
  have sl: "0 < SLOTS" "1 < SLOTS" "b + 1 < 2 ^ 32" "b + 1 + 1 < 2 ^ 32" using assms(2) by simp_all
  from launch_counted [OF assms(1) sl(3,1) assms(3-5)] obtain l t where t: "leaves 0 l = g" "launch sv im pr m0 0 m = Some (leaves 0 l, t)"
    "counted P (Some kept) (b + 1) failed t" by auto
  from launch_counted [OF t(3) sl(4,2) assms(3,4,6)] obtain l' u where u: "leaves 0 l' = h" "launch sv im pr m1 1 t = Some (leaves 0 l', u)"
    "counted P (Some kept) (b + 1 + 1) failed u" by auto
  let ?v = "if g then u else t"
  have v: "(if g then launch sv im pr m1 1 t else Some (False, t)) = Some (g \<and> h, ?v)" "counted P (Some kept) (b + 2) failed ?v" using t u by (simp_all add: counted_def)
  from check_counted [OF v(2), of "g \<and> h" name] obtain f x where x: "check sv (g \<and> h) name failed ?v = Some (f, x)"
    "counted (P \<and> g \<and> h) (Some kept) (b + 2) f x" by blast
  show ?thesis using assms(7) [OF x(2)] unfolding t(2) t(1) bind.bind_lunit prod.case v(1) x(1) .
qed

lemma fault_loop_then:
  assumes "image_ok (im_payload im) (im_segments im)" "processes_ok (im_processes im)"
  shows "counted P w b failed m \<Longrightarrow> b + length tests < 2 ^ 32 \<Longrightarrow> \<forall>(mode, vector, name) \<in> set tests. \<forall>s. fresh s \<longrightarrow> ended_with (\<lambda>l. stopped mode vector l = good mode) (pr_play pr mode 1 None s) \<Longrightarrow>
    (\<And>failed m. counted (P \<and> (\<forall>mode \<in> fst ` set tests. good mode)) w (b + length tests) failed m \<Longrightarrow> Q (k failed m)) \<Longrightarrow>
    Q (do { (failed, m) \<leftarrow> fault_loop sv im pr tests failed m; k failed m })"
proof (induction tests arbitrary: P b failed m)
  case Nil
  then show ?case by simp
next
  case (Cons x tests)
  obtain mode vector name where x: "x = (mode, vector, name)" by (rule prod_cases3)
  have e: "\<And>s. fresh s \<Longrightarrow> ended_with (\<lambda>l. stopped mode vector l = good mode) (pr_play pr mode 1 None s)" using Cons.prems(3) x by auto
  have l: "b + 1 < 2 ^ 32" "1 < SLOTS" "b + 1 + length tests < 2 ^ 32" using Cons.prems(2) by simp_all
  from launch_counted [OF Cons.prems(1) l(1,2) assms e] obtain l t where t: "stopped mode vector l = good mode" "launch sv im pr mode 1 m = Some (leaves 0 l, t)"
    "counted P w (b + 1) failed t" "fault_seen mode vector (lb_iso t) = stopped mode vector l" by auto
  from check_counted [OF t(3), of "good mode" name] obtain f u where u: "check sv (good mode) name failed t = Some (f, u)"
    "counted (P \<and> good mode) w (b + 1) f u" by blast
  have "fault_loop sv im pr (x # tests) failed m = fault_loop sv im pr tests f u"
    unfolding x fault_loop.simps t(2) bind.bind_lunit prod.case t(4) t(1) u(1) ..
  moreover have "Q (do { (failed, m) \<leftarrow> fault_loop sv im pr tests f u; k failed m })"
  proof (rule Cons.IH [OF u(2) l(3)])
    show "\<forall>(mode, vector, name) \<in> set tests. \<forall>s. fresh s \<longrightarrow> ended_with (\<lambda>l. stopped mode vector l = good mode) (pr_play pr mode 1 None s)"
      using Cons.prems(3) by auto
    show "Q (k failed m)" if "counted ((P \<and> good mode) \<and> (\<forall>mode \<in> fst ` set tests. good mode)) w (b + 1 + length tests) failed m" for failed m
      using Cons.prems(4) [of failed m] that by (simp add: x conj_assoc)
  qed
  ultimately show ?case by simp
qed

lemma behaveD:
  assumes "behave pr good kept"
  shows "(mode, slot) \<in> {(1, 0), (15, 1), (17, 1), (18, 1), (13, 0)} \<Longrightarrow> fresh s \<Longrightarrow> ended_with (\<lambda>l. leaves 0 l = good mode) (pr_play pr mode slot None s)"
    "fresh s \<Longrightarrow> ended_with (\<lambda>l. leaves 0 l = good 14 \<and> marked (ev_umem l) = kept) (pr_play pr 14 0 None s)"
    "\<forall>(mode, vector, name) \<in> set fault_tests. \<forall>s. fresh s \<longrightarrow> ended_with (\<lambda>l. stopped mode vector l = good mode) (pr_play pr mode 1 None s)"
proof -
  have w: "ended_with (\<lambda>l. passes mode l = good mode \<and> (mode = 14 \<longrightarrow> marked (ev_umem l) = kept)) (pr_play pr mode slot None s)"
    if "(mode, slot) \<in> set schedule" "fresh s" for mode slot s using assms that unfolding behave_def by blast
  have n: "map_of fault_tests mode = None" if "mode \<in> {1, 13, 14, 15, 17, 18}" for mode using that by (auto simp: fault_tests_def)
  show "ended_with (\<lambda>l. leaves 0 l = good mode) (pr_play pr mode slot None s)"
    if "(mode, slot) \<in> {(1, 0), (15, 1), (17, 1), (18, 1), (13, 0)}" "fresh s"
    using w [of mode slot s] n [of mode] that by (auto simp: schedule_def passes_def ended_with_def)
  show "ended_with (\<lambda>l. leaves 0 l = good 14 \<and> marked (ev_umem l) = kept) (pr_play pr 14 0 None s)" if "fresh s"
    using w [of 14 0 s] n [of 14] that by (simp add: schedule_def passes_def)
  have d: "distinct (map fst fault_tests)" "14 \<notin> fst ` set fault_tests" by (simp_all add: fault_tests_def)
  show "\<forall>(mode, vector, name) \<in> set fault_tests. \<forall>s. fresh s \<longrightarrow> ended_with (\<lambda>l. stopped mode vector l = good mode) (pr_play pr mode 1 None s)"
  proof (clarify)
    fix mode vector name s
    assume m: "(mode, vector, name) \<in> set fault_tests" "fresh s"
    then have "(mode, 1) \<in> set schedule" "map_of fault_tests mode = Some (vector, name)" "mode \<noteq> 14"
      using d by (force simp: schedule_def)+
    then show "ended_with (\<lambda>l. stopped mode vector l = good mode) (pr_play pr mode 1 None s)" using w [of mode 1 s] m(2) by (simp add: passes_def)
  qed
qed

lemma isolation_probes_count:
  assumes "idle (lb_iso m)" "image_ok (im_payload im) (im_segments im)" "processes_ok (im_processes im)" "behave pr good kept"
    "unat (k_pid (is_k (lb_iso m))) + 21 < 2 ^ 32"
  shows "\<exists>failed m'. isolation_probes sv im pr m = Some (failed, m') \<and> idle (lb_iso m') \<and>
    (failed = 0 \<longleftrightarrow> kept \<and> (\<forall>(mode, slot) \<in> set schedule. good mode))"
proof -
  note im = assms(2,3)
  let ?n = "unat (k_pid (is_k (lb_iso m)))"
  have st: "counted True None ?n 0 m" using assms(1) by (simp add: counted_def)
  have sl: "0 < SLOTS" "1 < SLOTS" "length fault_tests = 14" by (simp_all add: fault_tests_def)
  have n: "?n + 1 < 2 ^ 32" "?n + 1 + 2 < 2 ^ 32" "?n + 1 + 2 + length fault_tests < 2 ^ 32" "?n + 1 + 2 + length fault_tests + 1 < 2 ^ 32"
    "?n + 1 + 2 + length fault_tests + 1 + 1 < 2 ^ 32" "?n + 1 + 2 + length fault_tests + 1 + 1 + 1 < 2 ^ 32"
    "?n + 1 + 2 + length fault_tests + 1 + 1 + 1 + 1 < 2 ^ 32" using assms(5) sl(3) by simp_all
  note d = behaveD [OF assms(4)]
  have b: "\<And>s. fresh s \<Longrightarrow> ended_with (\<lambda>l. leaves 0 l = good 1) (pr_play pr 1 0 None s)"
    "\<And>s. fresh s \<Longrightarrow> ended_with (\<lambda>l. leaves 0 l = good 15) (pr_play pr 15 1 None s)"
    "\<And>s. fresh s \<Longrightarrow> ended_with (\<lambda>l. leaves 0 l = good 17) (pr_play pr 17 1 None s)"
    "\<And>s. fresh s \<Longrightarrow> ended_with (\<lambda>l. leaves 0 l = good 18) (pr_play pr 18 1 None s)"
    "\<And>s. fresh s \<Longrightarrow> ended_with (\<lambda>l. leaves 0 l = good 13) (pr_play pr 13 0 None s)"
    by (rule d(1), simp, assumption)+
  let ?P = "((((((((True \<and> good 1) \<and> good 14 \<and> good 15) \<and> (\<forall>mode \<in> fst ` set fault_tests. good mode)) \<and> kept) \<and> good 17) \<and> good 18) \<and> good 13) \<and> good 1)"
  have "\<exists>failed m'. isolation_probes sv im pr m = Some (failed, m') \<and> counted ?P None (?n + 1 + 2 + length fault_tests + 1 + 1 + 1 + 1) failed m'"
    unfolding isolation_probes_def
    by (rule probe_then [OF st n(1) sl(1) im b(1)], assumption, rule pair_then [OF _ n(2) im d(2) b(2)], assumption, assumption, assumption,
        rule fault_loop_then [OF im _ n(3) d(3)], assumption,
        rule marker_then, assumption, rule probe_then [OF _ n(4) sl(2) im b(3)], assumption, assumption,
        rule control_then [OF _ n(5) sl(2) im b(4)], assumption, assumption,
        rule probe_then [OF _ n(6) sl(1) im b(5)], assumption, assumption,
        rule probe_then [OF _ n(7) sl(1) im b(1)], assumption, assumption, auto)
  moreover have "?P \<longleftrightarrow> kept \<and> (\<forall>(mode, slot) \<in> set schedule. good mode)" by (auto simp: schedule_def)
  ultimately show ?thesis unfolding counted_def by blast
qed

lemma isolation_test_counts:
  assumes "idle s" "image_ok (im_payload im) (im_segments im)" "processes_ok (im_processes im)" "behave pr good kept"
    "unat (k_pid (is_k s)) + 21 < 2 ^ 32"
  shows "\<exists>failed s'. isolation_test sv im pr s = Some (failed, s') \<and> idle s' \<and> (failed = 0 \<longleftrightarrow> kept \<and> (\<forall>(mode, slot) \<in> set schedule. good mode))"
proof -
  let ?m = "\<lparr>lb_iso = s, lb_memory = pr_memory pr, lb_fx = \<lparr>fx_mxcsr = pr_mxcsr pr, fx_saved = 0\<rparr>\<rparr>"
  obtain failed m' where r: "isolation_probes sv im pr ?m = Some (failed, m')" "idle (lb_iso m')"
    "failed = 0 \<longleftrightarrow> kept \<and> (\<forall>(mode, slot) \<in> set schedule. good mode)"
  proof -
    have "idle (lb_iso ?m)" "unat (k_pid (is_k (lb_iso ?m))) + 21 < 2 ^ 32" using assms(1,5) by simp_all
    from isolation_probes_count [OF this(1) assms(2-4) this(2)] show ?thesis using that by blast
  qed
  let ?t = "(if failed \<noteq> 0 then ''ISOLATION TESTS FAILED'' else ''ISOLATION TESTS PASS'') @ [CHR 0x0A]"
  obtain d where d: "iso_say sv ?t (lb_iso m') = Some ((lb_iso m')\<lparr>is_k := (is_k (lb_iso m'))\<lparr>k_dev := d\<rparr>\<rparr>)" "idle ((lb_iso m')\<lparr>is_k := (is_k (lb_iso m'))\<lparr>k_dev := d\<rparr>\<rparr>)"
    using say_idle [OF r(2)] by blast
  show ?thesis unfolding isolation_test_def r(1) bind.bind_lunit prod.case d(1) using d(2) r(3) by auto
qed

lemma number_idle: "idle s \<Longrightarrow> \<exists>d. iso_number sv n s = Some (s\<lparr>is_k := (is_k s)\<lparr>k_dev := d\<rparr>\<rparr>) \<and> idle (s\<lparr>is_k := (is_k s)\<lparr>k_dev := d\<rparr>\<rparr>)"
  using write_ok [of "k_dev (is_k s)" "dec_digits (unat n) @ [0]"] digits_cstr
  by (auto simp: iso_number_def with_dev_def net_print_number_spec idle_def kstate_wf_def)

lemma idle_seq: "\<exists>s'. r = Some s' \<and> idle s' \<Longrightarrow> (\<And>s. idle s \<Longrightarrow> \<exists>s'. f s = Some s' \<and> idle s') \<Longrightarrow> \<exists>s'. Option.bind r f = Some s' \<and> idle s'"
  by auto

lemma idle_print: "idle s \<Longrightarrow> \<exists>s'. iso_say sv t s = Some s' \<and> idle s'" "idle s \<Longrightarrow> \<exists>s'. iso_number sv n s = Some s' \<and> idle s'"
  using say_idle number_idle by blast+

lemma status_idle: "idle s \<Longrightarrow> \<exists>s'. isolation_status sv s = Some s' \<and> idle s'"
  unfolding isolation_status_def by (intro idle_seq idle_print)

lemma isolation_command_returns:
  assumes "idle s" "image_ok (im_payload im) (im_segments im)" "processes_ok (im_processes im)" "behave pr good kept" "unat (k_pid (is_k s)) + 21 < 2 ^ 32" "is_cstr arguments"
  shows "\<exists>s'. isolation_command sv im pr arguments s = Some s' \<and> idle s'"
proof -
  have arg: "\<exists>b. argument_is arguments t = Some b" for t
    using strcmp_cstr [OF assms(6), of "ascii t"] by (auto simp: argument_is_def ascii_def is_cstr_def)
  obtain c where c: "rd arguments 0 = Some c" using assms(6) by (cases arguments) (simp_all add: rd_def)
  obtain b where b: "(if c = 0 then Some True else argument_is arguments ''status'') = Some b" using arg [of "''status''"] by (cases "c = 0") auto
  obtain e where e: "argument_is arguments ''test'' = Some e" using arg by blast
  show ?thesis using status_idle [OF assms(1)] say_idle [OF assms(1), of "''isolation [status|test]'' @ [CHR 0x0A]"] isolation_test_counts [OF assms(1-5)]
    unfolding isolation_command_def c bind.bind_lunit b e by (cases b; cases e) auto
qed

lemma app_ape_returns:
  assumes "idle s" "image_ok (im_payload im) (im_segments im)" "processes_ok (im_processes im)" "ended_with R (pr_play pr 0 (unat slot mod SLOTS) (Some command) s)" "command_ok (Some command)"
  shows "\<exists>s'. app_ape sv im pr command slot s = Some (slot + 1, s') \<and> idle s' \<and> is_completed s' = is_completed s + 1"
proof -
  obtain evs l where l: "pr_play pr 0 (unat slot mod SLOTS) (Some command) s = evs @ [l]" "\<forall>ev \<in> set evs. from_user ev \<and> \<not> is_exit ev \<and> \<not> is_fault ev" "from_user l" "is_exit l \<or> is_fault l"
    using assms(4) unfolding ended_with_def by blast
  have s: "is_ready s" "is_active s = None" "kstate_wf live (is_k s)" "unat slot mod SLOTS < SLOTS" using assms(1) by (simp_all add: idle_def)
  from run_comes_back [OF s(1,2,4,3) assms(2,5,3) l(2-4), of 0 True] show ?thesis using l(1) by (auto simp: app_ape_def idle_def)
qed

end

end
