(* ===== verification/Packet.thy ===== *)
theory Packet
  imports Decimal
begin

text \<open>
  The packet codec of \<^verbatim>\<open>src/jordyOS/net/packet.c\<close>: big-endian accessors, the Internet checksum,
  the IPv4 decoder and the decimal and CIDR parsers.
\<close>

section \<open>Big-endian accessors\<close>

definition net_read16 :: "bytes \<Rightarrow> nat \<Rightarrow> u16 option" where
  "net_read16 p i = do {
     a \<leftarrow> rd p i; b \<leftarrow> rd p (i + 1);
     Some (push_bit 8 (ucast a) OR ucast b) }"

definition net_read32 :: "bytes \<Rightarrow> nat \<Rightarrow> u32 option" where
  "net_read32 p i = do {
     a \<leftarrow> net_read16 p i; b \<leftarrow> net_read16 p (i + 2);
     Some (push_bit 16 (ucast a) OR ucast b) }"

definition net_write16 :: "bytes \<Rightarrow> nat \<Rightarrow> u16 \<Rightarrow> bytes option" where
  "net_write16 p i n = do {
     p \<leftarrow> wr p i (ucast (drop_bit 8 n)); wr p (i + 1) (ucast n) }"

definition net_write32 :: "bytes \<Rightarrow> nat \<Rightarrow> u32 \<Rightarrow> bytes option" where
  "net_write32 p i n = do {
     p \<leftarrow> net_write16 p i (ucast (drop_bit 16 n)); net_write16 p (i + 2) (ucast n) }"

section \<open>The Internet checksum\<close>

text \<open>The first loop adds big-endian 16-bit words, a last odd byte as the high half of a word.\<close>

fun sum_words :: "bytes \<Rightarrow> nat \<Rightarrow> nat \<Rightarrow> u32 \<Rightarrow> u32 option" where
  "sum_words p i len acc =
     (if len \<ge> 2 then do { w \<leftarrow> net_read16 p i; sum_words p (i + 2) (len - 2) (acc + ucast w) }
      else if len \<noteq> 0 then do { b \<leftarrow> rd p i; Some (acc + push_bit 8 (ucast b)) }
      else Some acc)"

declare sum_words.simps [simp del]

text \<open>The second loop folds the carries back in until the sum fits 16 bits.\<close>

lemma fold_step_unat:
  "unat ((s AND 65535) + drop_bit 16 s) = unat s mod 65536 + unat s div 65536" for s :: u32
proof -
  have "unat s mod 65536 + unat s div 65536 < 2 ^ 32"
    using unat_lt_u32 [of s] by simp
  then show ?thesis
    by (simp add: unat_word_ariths(1) unat_drop_bit_div unat_and_mask mask_16_eq)
qed

lemma drop_bit_16_eq_0: "drop_bit 16 s = 0 \<longleftrightarrow> unat s < 65536" for s :: u32
  using unat_drop_bit_div [of 16 s] by (auto simp: unat_eq_zero [symmetric] div_eq_0_iff)

function fold_carries :: "u32 \<Rightarrow> u32" where
  "fold_carries s = (if drop_bit 16 s \<noteq> 0 then fold_carries ((s AND 65535) + drop_bit 16 s) else s)"
  by pat_completeness auto
termination
proof (relation "measure unat")
  fix s :: u32
  assume "drop_bit 16 s \<noteq> 0"
  then have "65536 \<le> unat s" by (simp add: drop_bit_16_eq_0)
  then have "1 \<le> unat s div 65536" by (simp add: Suc_le_eq div_greater_zero_iff)
  then have "unat s mod 65536 + unat s div 65536 < unat s"
    using div_mult_mod_eq [of "unat s" 65536] by linarith
  then show "((s AND 65535) + drop_bit 16 s, s) \<in> measure unat"
    by (simp add: fold_step_unat)
qed simp

declare fold_carries.simps [simp del]

definition net_checksum :: "bytes \<Rightarrow> nat \<Rightarrow> nat \<Rightarrow> u32 \<Rightarrow> u16 option" where
  "net_checksum p i len acc = do {
     total \<leftarrow> sum_words p i len acc; Some (NOT (ucast (fold_carries total))) }"

section \<open>The IPv4 decoder\<close>

abbreviation (input) NET_ICMP :: u8 where "NET_ICMP \<equiv> 1"
abbreviation (input) NET_TCP :: u8 where "NET_TCP \<equiv> 6"
abbreviation (input) NET_UDP :: u8 where "NET_UDP \<equiv> 17"
abbreviation (input) NET_FRAME_MAX :: nat where "NET_FRAME_MAX \<equiv> 1514"
abbreviation (input) NET_IP :: u32 where "NET_IP \<equiv> 0xc0000202"
abbreviation (input) NET_MASK :: u32 where "NET_MASK \<equiv> 0xffffff00"

record packet =
  pkt_source :: u32
  pkt_destination :: u32
  pkt_source_port :: u16
  pkt_destination_port :: u16
  pkt_length :: u16
  pkt_protocol :: u8

text \<open>
  \<open>net_decode ip i available\<close> decodes the datagram at offset \<open>i\<close> of the object \<open>ip\<close>. The outer
  \<open>None\<close> is an access outside the object, \<open>Some None\<close> the C result \<^verbatim>\<open>false\<close>. The transport checks
  are split off as in the three branches of the source; each returns the ports on success.
\<close>

definition pseudo_sum :: "bytes \<Rightarrow> nat \<Rightarrow> u8 \<Rightarrow> nat \<Rightarrow> u32 option" where
  "pseudo_sum ip i protocol sz = do {
     a \<leftarrow> net_read16 ip (i + 12); b \<leftarrow> net_read16 ip (i + 14);
     c \<leftarrow> net_read16 ip (i + 16); d \<leftarrow> net_read16 ip (i + 18);
     Some (ucast a + ucast b + ucast c + ucast d + ucast protocol + of_nat sz) }"

definition decode_icmp :: "bytes \<Rightarrow> nat \<Rightarrow> nat \<Rightarrow> (u16 \<times> u16) option option" where
  "decode_icmp ip body sz =
     (if sz < 8 then Some None else do {
        c \<leftarrow> net_checksum ip body sz 0;
        Some (if c \<noteq> 0 then None else Some (0, 0)) })"

definition decode_udp :: "bytes \<Rightarrow> nat \<Rightarrow> nat \<Rightarrow> u32 \<Rightarrow> (u16 \<times> u16) option option" where
  "decode_udp ip body sz pseudo =
     (if sz < 8 then Some None else do {
        l \<leftarrow> net_read16 ip (body + 4);
        if unat l \<noteq> sz then Some None else do {
          k \<leftarrow> net_read16 ip (body + 6);
          bad \<leftarrow> (if k \<noteq> 0 then do { c \<leftarrow> net_checksum ip body sz pseudo; Some (c \<noteq> 0) } else Some False);
          if bad then Some None else do {
            s \<leftarrow> net_read16 ip body; d \<leftarrow> net_read16 ip (body + 2); Some (Some (s, d)) }}})"

definition decode_tcp :: "bytes \<Rightarrow> nat \<Rightarrow> nat \<Rightarrow> u32 \<Rightarrow> (u16 \<times> u16) option option" where
  "decode_tcp ip body sz pseudo =
     (if sz < 20 then Some None else do {
        h \<leftarrow> rd ip (body + 12);
        if unat (drop_bit 4 h) < 5 \<or> unat (drop_bit 4 h) * 4 > sz then Some None else do {
          c \<leftarrow> net_checksum ip body sz pseudo;
          if c \<noteq> 0 then Some None else do {
            s \<leftarrow> net_read16 ip body; d \<leftarrow> net_read16 ip (body + 2); Some (Some (s, d)) }}})"

definition decode_transport :: "bytes \<Rightarrow> nat \<Rightarrow> nat \<Rightarrow> u8 \<Rightarrow> u32 \<Rightarrow> (u16 \<times> u16) option option" where
  "decode_transport ip body sz protocol pseudo =
     (if protocol = NET_ICMP then decode_icmp ip body sz
      else if protocol = NET_UDP then decode_udp ip body sz pseudo
      else if protocol = NET_TCP then decode_tcp ip body sz pseudo
      else Some None)"

definition ip_header_bad :: "bytes \<Rightarrow> nat \<Rightarrow> nat \<Rightarrow> bool option" where
  "ip_header_bad ip i available =
     (if available < 20 \<or> available > 1500 then Some True else do {
        v \<leftarrow> rd ip i; if v \<noteq> 0x45 then Some True else do {
        ttl \<leftarrow> rd ip (i + 8); if ttl = 0 then Some True else do {
        frag \<leftarrow> net_read16 ip (i + 6); if frag AND 0xbfff \<noteq> 0 then Some True else do {
        c \<leftarrow> net_checksum ip i 20 0; Some (c \<noteq> 0) }}}})"

definition net_decode :: "bytes \<Rightarrow> nat \<Rightarrow> nat \<Rightarrow> packet option option" where
  "net_decode ip i available = do {
     bad \<leftarrow> ip_header_bad ip i available;
     if bad then Some None else do {
       len \<leftarrow> net_read16 ip (i + 2);
       if unat len < 20 \<or> unat len > available then Some None else do {
         protocol \<leftarrow> rd ip (i + 9);
         pseudo \<leftarrow> pseudo_sum ip i protocol (unat len - 20);
         ports \<leftarrow> decode_transport ip (i + 20) (unat len - 20) protocol pseudo;
         (case ports of None \<Rightarrow> Some None
          | Some (sp, dp) \<Rightarrow> do {
              src \<leftarrow> net_read32 ip (i + 12); dst \<leftarrow> net_read32 ip (i + 16);
              Some (Some \<lparr>pkt_source = src, pkt_destination = dst, pkt_source_port = sp,
                pkt_destination_port = dp, pkt_length = len, pkt_protocol = protocol\<rparr>) }) }}}"

section \<open>Decimal and CIDR parsers\<close>

text \<open>
  A \<^verbatim>\<open>const char *\<close> is the list of bytes from the pointer to the end of its object; reading past
  that end is \<open>None\<close>.
\<close>

fun number_loop :: "bytes \<Rightarrow> u32 \<Rightarrow> u32 \<Rightarrow> u32 option option" where
  "number_loop [] maximum n = None"
| "number_loop (c # text) maximum n =
     (if c = 0 then Some (Some n)
      else if \<not> is_digit c then Some None
      else let digit = ucast (c - 48) in
        if digit > maximum \<or> n > (maximum - digit) div 10 then Some None
        else number_loop text maximum (n * 10 + digit))"

definition net_number :: "bytes \<Rightarrow> u32 \<Rightarrow> u32 option option" where
  "net_number text maximum = do {
     c \<leftarrow> rd text 0; if c = 0 then Some None else number_loop text maximum 0 }"

text \<open>\<open>scan_octet text n\<close> copies the digits at \<open>text\<close> into \<^verbatim>\<open>part\<close>, refusing a fourth one.\<close>

fun scan_octet :: "bytes \<Rightarrow> bytes \<Rightarrow> (bytes \<times> bytes) option option" where
  "scan_octet [] part = None"
| "scan_octet (c # text) part =
     (if is_digit c then
        (if length part = 3 then Some None else scan_octet text (part @ [c]))
      else Some (Some (part @ [0], c # text)))"

function cidr_octets :: "nat \<Rightarrow> bytes \<Rightarrow> u32 \<Rightarrow> (u32 \<times> bytes) option option" where
  "cidr_octets octet text ip =
     (if octet < 4 then do {
        scanned \<leftarrow> scan_octet text [];
        (case scanned of None \<Rightarrow> Some None
         | Some (part, text) \<Rightarrow> do {
             value \<leftarrow> net_number part 255;
             (case value of None \<Rightarrow> Some None
              | Some v \<Rightarrow>
                  let ip = push_bit 8 ip OR v in
                  if octet < 3 then
                    (case text of [] \<Rightarrow> None
                     | c # text \<Rightarrow> if c \<noteq> 46 then Some None else cidr_octets (octet + 1) text ip)
                  else cidr_octets (octet + 1) text ip) }) }
      else Some (Some (ip, text)))"
  by pat_completeness auto
termination
  by (relation "measure (\<lambda>(octet, text, ip). 4 - octet)") auto

declare cidr_octets.simps [simp del]

definition cidr_prefix :: "bytes \<Rightarrow> u32 option option" where
  "cidr_prefix text =
     (case text of [] \<Rightarrow> None
      | c # rest \<Rightarrow> if c = 47 then net_number rest 32 else if c \<noteq> 0 then Some None else Some (Some 32))"

definition prefix_mask :: "u32 \<Rightarrow> u32" where
  "prefix_mask prefix = (if prefix \<noteq> 0 then push_bit (unat (32 - prefix)) 0xffffffff else 0)"

definition net_cidr :: "bytes \<Rightarrow> (u32 \<times> u32) option option" where
  "net_cidr text = do {
     parsed \<leftarrow> cidr_octets 0 text 0;
     (case parsed of None \<Rightarrow> Some None
      | Some (ip, rest) \<Rightarrow> do {
          prefix \<leftarrow> cidr_prefix rest;
          Some (case prefix of None \<Rightarrow> None
            | Some p \<Rightarrow> Some (ip AND prefix_mask p, prefix_mask p)) }) }"

section \<open>The checksum is the one's complement sum\<close>

fun words_sum :: "bytes \<Rightarrow> nat" where
  "words_sum (a # b # r) = unat a * 256 + unat b + words_sum r"
| "words_sum [a] = unat a * 256"
| "words_sum [] = 0"

lemma words_sum_append: "even (length xs) \<Longrightarrow> words_sum (xs @ ys) = words_sum xs + words_sum ys"
  by (induction xs rule: words_sum.induct) auto

lemma words_sum_bound: "words_sum xs \<le> 65535 * ((length xs + 1) div 2)"
proof (induction xs rule: words_sum.induct)
  case (1 a b r)
  then show ?case using unat_lt_256 [of a] unat_lt_256 [of b] by simp
next
  case (2 a)
  then show ?case using unat_lt_256 [of a] by simp
qed simp

definition ones_sum :: "nat \<Rightarrow> nat" where
  "ones_sum n = (if n = 0 then 0 else (n - 1) mod 65535 + 1)"

lemma ones_sum_le: "ones_sum n \<le> 65535"
  using mod_less_divisor [of 65535 "n - 1"] by (simp add: ones_sum_def del: mod_less_divisor)

lemma ones_sum_fold:
  assumes "65536 \<le> n" shows "ones_sum (n mod 65536 + n div 65536) = ones_sum n"
proof -
  define q r where "q = n div 65536" and "r = n mod 65536"
  have n: "n = q * 65536 + r" by (simp add: q_def r_def)
  have q: "1 \<le> q" using assms by (simp add: q_def Suc_le_eq div_greater_zero_iff)
  then have "n - 1 = (q + r - 1) + q * 65535" using n by simp
  then have "(n - 1) mod 65535 = (r + q - 1) mod 65535" by (simp add: add.commute)
  then show ?thesis using q assms by (simp add: ones_sum_def flip: q_def r_def)
qed

lemma fold_carries_ones_sum: "unat (fold_carries s) = ones_sum (unat s)"
proof (induction s rule: fold_carries.induct)
  case (1 s)
  show ?case
  proof (cases "drop_bit 16 s = 0")
    case True
    then have "unat s < 65536" by (simp add: drop_bit_16_eq_0)
    with True show ?thesis
      by (cases "unat s") (simp_all add: fold_carries.simps [of s] ones_sum_def)
  next
    case False
    then have "65536 \<le> unat s" by (simp add: drop_bit_16_eq_0)
    with False 1 show ?thesis
      by (simp add: fold_carries.simps [of s] fold_step_unat ones_sum_fold)
  qed
qed
lemma net_read16_Some [buf_simps]:
  "i + 1 < length p \<Longrightarrow> net_read16 p i = Some (push_bit 8 (ucast (p ! i)) OR ucast (p ! (i + 1)))"
  by (simp add: net_read16_def rd_def)

lemma net_read16_eq_None [simp]: "net_read16 p i = None \<longleftrightarrow> length p \<le> i + 1"
  by (auto simp: net_read16_def rd_def)

lemma sum_words_eq:
  "i + len \<le> length p \<Longrightarrow>
   sum_words p i len acc = Some (acc + of_nat (words_sum (take len (drop i p))))"
proof (induction p i len acc rule: sum_words.induct)
  case (1 p i len acc)
  show ?case
  proof (cases "len \<ge> 2")
    case True
    then obtain m where m: "len = Suc (Suc m)" by (metis Suc_le_D add_2_eq_Suc le_Suc_ex)
    let ?w = "push_bit 8 (ucast (p ! i)) OR ucast (p ! (i + 1)) :: u16"
    have w: "net_read16 p i = Some ?w" using 1 m by (simp add: net_read16_Some)
    have d: "drop i p = p ! i # p ! (i + 1) # drop (i + 2) p"
      using 1 m by (intro drop_Cons_nth2) simp
    have "ucast ?w = (of_nat (unat (p ! i) * 256 + unat (p ! (i + 1))) :: u32)"
      by (simp only: flip: or_ucast_add) simp
    with 1 m w d show ?thesis
      by (simp add: sum_words.simps [of p i "Suc (Suc m)"] add.assoc)
  next
    case False
    then consider "len = 0" | "len = 1" by linarith
    then show ?thesis
    proof cases
      case 2
      with 1 have "i < length p" by simp
      then have "take len (drop i p) = [p ! i]" using 2 by (simp add: take_Suc_conv_app_nth)
      with 2 \<open>i < length p\<close> show ?thesis
        by (simp add: sum_words.simps [of p i "Suc 0"] rd_def push_bit_eq_mult)
    qed (simp add: sum_words.simps [of p i 0])
  qed
qed

lemma net_checksum_spec:
  assumes "i + len \<le> length p" and "unat acc + words_sum (take len (drop i p)) < 2 ^ 32"
  shows "net_checksum p i len acc =
    Some (of_nat (65535 - ones_sum (unat acc + words_sum (take len (drop i p)))))"
proof -
  let ?t = "acc + of_nat (words_sum (take len (drop i p)))"
  have "unat ?t = unat acc + words_sum (take len (drop i p))"
    using assms(2) by (simp add: unat_word_ariths unat_of_nat)
  then have "unat (fold_carries ?t) = ones_sum (unat acc + words_sum (take len (drop i p)))"
    by (simp add: fold_carries_ones_sum)
  then have "unat (NOT (ucast (fold_carries ?t)) :: u16) = 65535 - ones_sum (unat acc + words_sum (take len (drop i p)))"
    using ones_sum_le [of "unat acc + words_sum (take len (drop i p))"]
    by (simp add: unat_not_u16 unsigned_ucast_eq take_bit_eq_mod)
  then have "NOT (ucast (fold_carries ?t)) = (of_nat (65535 - ones_sum (unat acc + words_sum (take len (drop i p)))) :: u16)"
    by (simp add: word_unat_eq_iff unsigned_of_nat take_bit_eq_mod)
  then show ?thesis using assms(1) by (simp add: net_checksum_def sum_words_eq)
qed

text \<open>The Internet checksum. Over a range of the buffer that it may read, and while the 32-bit
  accumulator cannot overflow, \<^verbatim>\<open>net_checksum\<close> is the complement of the one's complement sum of the
  big-endian words.\<close>

lemma net_checksum_correct:
  assumes "i + len \<le> length p" and "unat acc + words_sum (take len (drop i p)) < 2 ^ 32"
  shows "net_checksum p i len acc =
    Some (of_nat (65535 - ones_sum (unat acc + words_sum (take len (drop i p)))))"
  using assms by (rule net_checksum_spec)

lemma net_checksum_correct_example:
  "net_checksum [0x45, 0, 0x12] 0 3 1 = Some (of_nat (65535 - ones_sum (1 + words_sum [0x45, 0, 0x12])))"
  using net_checksum_correct [of 0 3 "[0x45, 0, 0x12]" 1] by simp

lemma checksum_zero_iff:
  assumes "i + len \<le> length p" and "unat acc + words_sum (take len (drop i p)) < 2 ^ 32"
  shows "net_checksum p i len acc = Some 0 \<longleftrightarrow>
    ones_sum (unat acc + words_sum (take len (drop i p))) = 65535"
  using ones_sum_le [of "unat acc + words_sum (take len (drop i p))"]
  by (auto simp: net_checksum_spec [OF assms] word_unat_eq_iff unsigned_of_nat take_bit_eq_mod
        simp del: of_nat_diff)

lemma ones_sum_complement: "ones_sum (n + (65535 - ones_sum n)) = 65535"
proof (cases "n = 0")
  case False
  define k where "k = (n - 1) mod 65535"
  have k: "k < 65535" by (simp add: k_def)
  have "n - 1 = (n - 1) div 65535 * 65535 + k" by (simp add: k_def)
  then have n: "n = (n - 1) div 65535 * 65535 + k + 1" using False by simp
  have "ones_sum n = k + 1" using False by (simp add: ones_sum_def k_def)
  then have "n + (65535 - ones_sum n) - 1 = (n - 1) div 65535 * 65535 + 65534"
    using n k by linarith
  then show ?thesis using False by (simp add: ones_sum_def)
qed (simp add: ones_sum_def)

lemma net_write16_eq: "net_write16 p i n = Some q \<longleftrightarrow>
    i + 1 < length p \<and> q = p[i := ucast (drop_bit 8 n), i + 1 := ucast n]"
  by (auto simp: net_write16_def Option.bind_eq_Some_conv)

lemma bytes_u16_unat: "unat (ucast (drop_bit 8 n) :: u8) * 256 + unat (ucast n :: u8) = unat n" for n :: u16
  using unat_lt_65536 [of n]
  by (simp add: unsigned_ucast_eq take_bit_eq_mod unat_drop_bit_div)

lemma words_sum_field:
  assumes "even k" "k + 1 < length xs"
  shows "words_sum (xs[k := a, k + 1 := b]) + unat (xs ! k) * 256 + unat (xs ! (k + 1))
    = words_sum xs + unat a * 256 + unat b"
proof -
  have xs: "xs = take k xs @ xs ! k # xs ! (k + 1) # drop (k + 2) xs"
    using drop_Cons_nth2 [OF assms(2)] by (metis append_take_drop_id)
  have l: "length (take k xs) = k" using assms by simp
  have upd: "xs[k := a, k + 1 := b] = take k xs @ a # b # drop (k + 2) xs"
    using l by (subst xs) (simp add: list_update_append del: length_take append_take_drop_id)
  have "words_sum xs = words_sum (take k xs) + (unat (xs ! k) * 256 + unat (xs ! (k + 1))) + words_sum (drop (k + 2) xs)"
    by (subst xs) (simp add: words_sum_append l assms(1) del: length_take append_take_drop_id)
  moreover have "words_sum (xs[k := a, k + 1 := b]) = words_sum (take k xs) + (unat a * 256 + unat b) + words_sum (drop (k + 2) xs)"
    by (simp only: upd) (simp add: words_sum_append l assms(1) del: length_take append_take_drop_id)
  ultimately show ?thesis by simp
qed

lemma checksum_filled:
  assumes q: "net_write16 p (i + k) 0 = Some q" and c: "net_checksum q i len acc = Some c"
    and r: "net_write16 q (i + k) c = Some r"
    and k: "even k" "k + 1 < len" and len: "i + len \<le> length p"
    and small: "unat acc + words_sum (take len (drop i q)) + 65535 < 2 ^ 32"
  shows "net_checksum r i len acc = Some 0"
proof -
  define xs where "xs = take len (drop i q)"
  have lq: "length q = length p" and z: "q ! (i + k) = 0" "q ! (i + k + 1) = 0"
    using q by (auto simp: net_write16_eq)
  have lr: "length r = length p" using r lq by (auto simp: net_write16_eq)
  have xk: "k + 1 < length xs" "xs ! k = 0" "xs ! (k + 1) = 0"
    using k len lq z by (auto simp: xs_def add.assoc)
  have tr: "take len (drop i r) = xs[k := ucast (drop_bit 8 c), k + 1 := ucast c]"
    using r by (auto simp: xs_def net_write16_eq take_update_swap drop_update_swap)
  have uc: "unat c = 65535 - ones_sum (unat acc + words_sum xs)"
    using c net_checksum_spec [of i len q acc] len lq small
    by (auto simp: xs_def unsigned_of_nat take_bit_eq_mod simp del: of_nat_diff)
  have "words_sum (take len (drop i r)) = words_sum xs + unat c"
    using words_sum_field [OF k(1) xk(1), of "ucast (drop_bit 8 c)" "ucast c"] xk
    by (simp add: tr bytes_u16_unat)
  moreover have "unat acc + words_sum xs + unat c < 2 ^ 32"
    using small uc by (simp add: xs_def)
  ultimately show ?thesis
    using lr len by (subst checksum_zero_iff) (simp_all add: uc ones_sum_complement flip: add.assoc)
qed

text \<open>C15: filling in a checksum makes it verify. Clearing the 16-bit field at an even offset of the
  range, computing the checksum and storing it there (what \<^verbatim>\<open>send_to\<close> and the echo reply of \<^verbatim>\<open>net_receive\<close> do) gives a
  range whose checksum is zero (what \<^verbatim>\<open>net_decode\<close> tests).\<close>

theorem net_checksum_fill_verifies:
  assumes q: "net_write16 p (i + k) 0 = Some q" and c: "net_checksum q i len acc = Some c"
    and r: "net_write16 q (i + k) c = Some r"
    and k: "even k" "k + 1 < len" and len: "i + len \<le> length p"
    and small: "unat acc + words_sum (take len (drop i q)) + 65535 < 2 ^ 32"
  shows "net_checksum r i len acc = Some 0"
  by (rule checksum_filled [OF assms])

theorem net_checksum_fill_verifies_witness:
  "net_checksum [8, 0, 0xf4, 0xfa, 2, 5, 1] 0 7 0 = Some 0"
  by (rule net_checksum_fill_verifies [where p = "[8, 0, 9, 9, 2, 5, 1]" and k = 2 and
        q = "[8, 0, 0, 0, 2, 5, 1]" and c = "0xf4fa"]) (code_simp, code_simp, code_simp, simp_all)

section \<open>The accessors are field codecs\<close>

lemma split_u16: "push_bit 8 (ucast (ucast (drop_bit 8 n) :: u8)) OR ucast (ucast n :: u8) = (n :: u16)"
  by (rule bit_word_eqI) (auto simp: bit_simps)

lemma split_u32: "push_bit 16 (ucast (ucast (drop_bit 16 n) :: u16)) OR ucast (ucast n :: u16) = (n :: u32)"
  by (rule bit_word_eqI) (auto simp: bit_simps)

interpretation n16: byte_field net_read16 net_write16 2
proof
  fix p i and n :: u16
  show "defined (net_write16 p i n) \<longleftrightarrow> i + 2 \<le> length p"
    by (auto simp: net_write16_def wr_def)
next
  fix p q :: bytes and i :: nat
  assume "length p = length q" "\<And>j. i \<le> j \<Longrightarrow> j < i + 2 \<Longrightarrow> p ! j = q ! j"
  then show "net_read16 p i = net_read16 q i"
    by (simp add: net_read16_def rd_def)
qed (auto simp: net_write16_eq net_read16_Some split_u16)

interpretation n32: byte_field net_read32 net_write32 4
proof
  fix p i and n :: u32
  show "defined (net_write32 p i n) \<longleftrightarrow> i + 4 \<le> length p"
    using n16.put_defined [of p i "ucast (drop_bit 16 n)"]
    by (cases "net_write16 p i (ucast (drop_bit 16 n))")
       (auto simp: net_write32_def n16.put_defined dest: n16.put_length)
next
  fix p q i and n :: u32 
  assume a: "net_write32 p i n = Some q"
  then obtain r where r: "net_write16 p i (ucast (drop_bit 16 n)) = Some r"
    "net_write16 r (i + 2) (ucast n) = Some q"
    by (auto simp: net_write32_def Option.bind_eq_Some_conv)
  show "length q = length p" using n16.put_length [OF r(1)] n16.put_length [OF r(2)] by simp
  show "net_read32 q i = Some n"
    using n16.get_after_puts [OF r] by (simp add: net_read32_def split_u32)
  fix j assume "j < i \<or> i + 4 \<le> j"
  then show "q ! j = p ! j" using r by (auto simp: net_write16_eq)
next
  fix p q :: bytes and i :: nat
  assume "length p = length q" "\<And>j. i \<le> j \<Longrightarrow> j < i + 4 \<Longrightarrow> p ! j = q ! j"
  then show "net_read32 p i = net_read32 q i"
    unfolding net_read32_def by (subst (1 2) n16.get_local [of p q]) auto
qed

interpretation n16_32: mixed_fields net_read16 net_write16 2 net_read32 net_write32 4 ..
interpretation n32_16: mixed_fields net_read32 net_write32 4 net_read16 net_write16 2 ..

section \<open>Decoder: bounds and soundness\<close>

lemma defined_net_read16 [simp]: "defined (net_read16 p i) \<longleftrightarrow> i + 1 < length p"
  by (simp add: defined_def net_read16_eq_None not_le del: not_None_eq)

lemma defined_net_read32 [simp]: "i + 4 \<le> length p \<Longrightarrow> defined (net_read32 p i)"
  by (auto simp: net_read32_def)

lemma defined_net_checksum [simp]: "i + len \<le> length p \<Longrightarrow> defined (net_checksum p i len acc)"
  by (simp add: net_checksum_def sum_words_eq)

lemma defined_pseudo_sum [simp]: "i + 20 \<le> length p \<Longrightarrow> defined (pseudo_sum p i pr sz)"
  by (auto simp add: pseudo_sum_def)

lemma defined_decode_transport [simp]:
  "body + sz \<le> length p \<Longrightarrow> defined (decode_transport p body sz pr pseudo)"
  by (auto simp: decode_transport_def decode_icmp_def decode_udp_def decode_tcp_def)

lemma defined_ip_header_bad [simp]:
  "i + available \<le> length p \<Longrightarrow> defined (ip_header_bad p i available)"
  by (auto simp: ip_header_bad_def)

lemma ip_header_okD:
  assumes "ip_header_bad ip i available = Some False"
  shows "20 \<le> available" "available \<le> 1500" "i + 8 < length ip" "ip ! i = 0x45" "ip ! (i + 8) \<noteq> 0"
    "\<exists>f. net_read16 ip (i + 6) = Some f \<and> f AND 0xbfff = 0" "net_checksum ip i 20 0 = Some 0"
  using assms by (auto simp: ip_header_bad_def Option.bind_eq_Some_conv split: if_splits)

lemma net_decode_defined: "i + available \<le> length ip \<Longrightarrow> defined (net_decode ip i available)"
  by (auto simp: net_decode_def split: option.split dest!: ip_header_okD(1))

lemma net_decode_fields:
  assumes "net_decode ip i available = Some (Some p)"
  shows "20 \<le> unat (pkt_length p)" "unat (pkt_length p) \<le> available" "available \<le> 1500"
    "net_read32 ip (i + 12) = Some (pkt_source p)" "net_read32 ip (i + 16) = Some (pkt_destination p)"
    "net_read16 ip (i + 2) = Some (pkt_length p)" "rd ip (i + 9) = Some (pkt_protocol p)"
    "\<exists>pseudo. pseudo_sum ip i (pkt_protocol p) (unat (pkt_length p) - 20) = Some pseudo \<and>
      decode_transport ip (i + 20) (unat (pkt_length p) - 20) (pkt_protocol p) pseudo
        = Some (Some (pkt_source_port p, pkt_destination_port p))"
  using assms by (auto simp: net_decode_def Option.bind_eq_Some_conv dest: ip_header_okD
      split: if_splits option.splits simp del: rd_eq_Some)

text \<open>The decoder never reads past the bytes it is told about: with \<^verbatim>\<open>available\<close> bytes behind the
  pointer every access of \<^verbatim>\<open>net_decode\<close> is inside the object, whatever the bytes are.\<close>

lemma net_decode_in_bounds:
  "i + available \<le> length ip \<Longrightarrow> defined (net_decode ip i available)"
  by (rule net_decode_defined)

lemma net_decode_in_bounds_example: "defined (net_decode [0x45, 0, 0, 60, 1, 2, 3] 0 7)"
  by (rule net_decode_in_bounds) simp

section \<open>The decoder against the wire format\<close>

text \<open>The wire format, over the bytes of the frame: numbers are big-endian, and a checksum verifies when the one's complement sum is all ones.\<close>

definition be16 :: "bytes \<Rightarrow> nat \<Rightarrow> nat" where "be16 d i = unat (d ! i) * 256 + unat (d ! (i + 1))"
definition be32 :: "bytes \<Rightarrow> nat \<Rightarrow> nat" where "be32 d i = be16 d i * 65536 + be16 d (i + 2)"

definition verifies :: "bytes \<Rightarrow> nat \<Rightarrow> bool" where
  "verifies d extra \<longleftrightarrow> 0 < extra + words_sum d \<and> (extra + words_sum d) mod 65535 = 0"

definition transport_format :: "nat \<Rightarrow> bytes \<Rightarrow> nat \<Rightarrow> nat \<Rightarrow> nat \<Rightarrow> bool" where
  "transport_format protocol t pseudo sport dport \<longleftrightarrow>
     protocol = 1 \<and> 8 \<le> length t \<and> verifies t 0 \<and> sport = 0 \<and> dport = 0 \<or>
     protocol = 17 \<and> 8 \<le> length t \<and> be16 t 4 = length t \<and> (be16 t 6 = 0 \<or> verifies t pseudo) \<and> sport = be16 t 0 \<and> dport = be16 t 2 \<or>
     protocol = 6 \<and> 20 \<le> length t \<and> 5 \<le> unat (t ! 12) div 16 \<and> unat (t ! 12) div 16 * 4 \<le> length t \<and> verifies t pseudo \<and>
       sport = be16 t 0 \<and> dport = be16 t 2"

text \<open>The frame \<open>d\<close> holds the datagram \<open>p\<close>, possibly followed by padding. Of the fragment field only the don't-fragment bit may be set.\<close>

definition datagram_format :: "bytes \<Rightarrow> packet \<Rightarrow> bool" where
  "datagram_format d p \<longleftrightarrow> (let n = unat (pkt_length p); protocol = unat (pkt_protocol p) in
     20 \<le> length d \<and> length d \<le> 1500 \<and> unat (d ! 0) = 0x45 \<and> unat (d ! 8) \<noteq> 0 \<and> (be16 d 6 = 0 \<or> be16 d 6 = 0x4000) \<and>
     verifies (take 20 d) 0 \<and> be16 d 2 = n \<and> 20 \<le> n \<and> n \<le> length d \<and> unat (d ! 9) = protocol \<and>
     be32 d 12 = unat (pkt_source p) \<and> be32 d 16 = unat (pkt_destination p) \<and>
     transport_format protocol (drop 20 (take n d)) (be16 d 12 + be16 d 14 + be16 d 16 + be16 d 18 + protocol + (n - 20))
       (unat (pkt_source_port p)) (unat (pkt_destination_port p)))"

lemma read16_be: "i + 1 < length p \<Longrightarrow> \<exists>w. net_read16 p i = Some w \<and> unat w = be16 p i"
  by (simp add: net_read16_Some or_ucast_add be16_def)

lemma be16_drop: "be16 (drop i p) j = be16 p (i + j)" if "i \<le> length p"
  using that by (simp add: be16_def nth_drop add.assoc)

lemma be16_take: "j + 1 < n \<Longrightarrow> be16 (take n p) j = be16 p j"
  by (simp add: be16_def)

lemma read32_be: "i + 3 < length p \<Longrightarrow> \<exists>w. net_read32 p i = Some w \<and> unat w = be32 p i"
proof -
  assume a: "i + 3 < length p"
  obtain v w where v: "net_read16 p i = Some v" "unat v = be16 p i" and w: "net_read16 p (i + 2) = Some w" "unat w = be16 p (i + 2)"
    using read16_be [of i p] read16_be [of "i + 2" p] a by auto
  have "push_bit 16 (ucast v) OR ucast w = push_bit 16 (ucast v) + (ucast w :: u32)"
    by (rule disjunctive_add [symmetric]) (auto simp: bit_simps dest: bit_imp_le_length)
  moreover have "unat (push_bit 16 (ucast v) :: u32) = unat v * 65536"
    using unat_lt_65536 [of v] by (simp add: push_bit_eq_mult unat_word_ariths unsigned_ucast_eq take_bit_eq_mod)
  moreover have "unat (ucast w :: u32) = unat w" using unat_lt_65536 [of w] by (simp add: unsigned_ucast_eq take_bit_eq_mod)
  ultimately have "unat (push_bit 16 (ucast v) OR ucast w :: u32) = unat v * 65536 + unat w"
    using unat_lt_65536 [of v] unat_lt_65536 [of w] by (simp add: unat_word_ariths)
  then show ?thesis using v w by (simp add: net_read32_def be32_def)
qed

lemma checksum_verifies:
  assumes "i + len \<le> length p" "unat acc + words_sum (take len (drop i p)) < 2 ^ 32"
  shows "net_checksum p i len acc = Some c \<Longrightarrow> c = 0 \<longleftrightarrow> verifies (take len (drop i p)) (unat acc)"
proof -
  assume c: "net_checksum p i len acc = Some c"
  let ?n = "unat acc + words_sum (take len (drop i p))"
  have "c = 0 \<longleftrightarrow> ones_sum ?n = 65535" using checksum_zero_iff [OF assms] c by auto
  moreover have "ones_sum ?n = 65535 \<longleftrightarrow> 0 < ?n \<and> ?n mod 65535 = 0"
  proof (cases "?n")
    case (Suc m)
    then have "(m mod 65535 = 65534) = (Suc m mod 65535 = 0)" by (simp add: mod_Suc)
    then show ?thesis using Suc by (simp add: ones_sum_def)
  qed (simp add: ones_sum_def)
  ultimately show ?thesis by (simp add: verifies_def)
qed


lemma fragment_bits: "f AND 0xbfff = 0 \<longleftrightarrow> f = 0 \<or> f = 0x4000" for f :: u16
proof
  assume a: "f AND 0xbfff = 0"
  have "list_all (\<lambda>n. bit (0xbfff :: u16) n = (n \<noteq> 14)) [0..<16]" by code_simp
  then have b: "bit (0xbfff :: u16) n \<longleftrightarrow> n \<noteq> 14" if "n < 16" for n using that by (simp only: list_all_iff set_upt) simp
  have z: "\<not> bit f n" if "n \<noteq> 14" "n < 16" for n
  proof
    assume "bit f n"
    then have "bit (f AND 0xbfff) n" using b that by (simp add: bit_and_iff)
    then show False using a by simp
  qed
  have c: "bit (0x4000 :: u16) n \<longleftrightarrow> n = 14" for n
  proof -
    have "(0x4000 :: u16) = push_bit 14 1" by (simp add: push_bit_eq_mult)
    then show ?thesis by (auto simp only: bit_push_bit_iff bit_1_iff) auto
  qed
  show "f = 0 \<or> f = 0x4000"
  proof (cases "bit f 14")
    case True
    have "f = 0x4000"
    proof (rule bit_word_eqI)
      show "bit f n = bit (0x4000 :: u16) n" if "n < LENGTH(16)" for n unfolding c using True z [of n] that by (cases "n = 14") simp_all
    qed
    then show ?thesis ..
  next
    case False
    have "f = 0"
    proof (rule bit_word_eqI)
      show "bit f n = bit (0 :: u16) n" if "n < LENGTH(16)" for n using False z [of n] that by (cases "n = 14") simp_all
    qed
    then show ?thesis ..
  qed
qed auto

lemma words_sum_small: "length d \<le> 1500 \<Longrightarrow> n < 2 ^ 31 \<Longrightarrow> n + words_sum d < 2 ^ 32"
  using words_sum_bound [of d] by simp

lemma u16_eq_iff: "unat w = n \<Longrightarrow> unat v = m \<Longrightarrow> w = v \<longleftrightarrow> n = m" for w v :: "'a :: len word"
  by (metis word_unat_eq_iff)

lemma transport_decodes:
  assumes "body + sz \<le> length ip" "sz \<le> 1480" "unat pseudo < 2 ^ 31"
  defines "t \<equiv> take sz (drop body ip)"
  shows "\<exists>r. decode_transport ip body sz protocol pseudo = Some r \<and>
    (\<forall>s d. r = Some (s, d) \<longleftrightarrow> transport_format (unat protocol) t (unat pseudo) (unat s) (unat d))"
proof -
  have l: "length t = sz" using assms(1) by (simp add: t_def)
  have f: "be16 ip (body + k) = be16 t k" if "k + 1 < sz" for k using that assms(1) by (simp add: t_def be16_def add.assoc)
  have sm: "unat x + words_sum t < 2 ^ 32" if "unat x < 2 ^ 31" for x :: u32 using words_sum_small [of t "unat x"] that l assms(2) by simp
  have ck: "\<exists>c. net_checksum ip body sz x = Some c \<and> (c = 0 \<longleftrightarrow> verifies t (unat x))" if "unat x < 2 ^ 31" for x :: u32
    using net_checksum_spec [OF assms(1), of x] checksum_verifies [OF assms(1), of x] sm [OF that] by (auto simp: t_def)
  have rd16: "\<exists>w. net_read16 ip (body + k) = Some w \<and> unat w = be16 t k" if "k + 1 < sz" for k
    using read16_be [of "body + k" ip] f [OF that] assms(1) that by auto
  have pr: "protocol = 1 \<longleftrightarrow> unat protocol = 1" "protocol = 6 \<longleftrightarrow> unat protocol = 6" "protocol = 17 \<longleftrightarrow> unat protocol = 17"
    by (auto simp: word_unat_eq_iff)
  have ports: "\<exists>s d. net_read16 ip body = Some s \<and> net_read16 ip (body + 2) = Some d \<and>
      (\<forall>s' d'. (s = s' \<and> d = d') \<longleftrightarrow> (unat s' = be16 t 0 \<and> unat d' = be16 t 2))" if "8 \<le> sz"
  proof -
    have "(0 :: nat) + 1 < sz" "(2 :: nat) + 1 < sz" using that by simp_all
    with rd16 [of 0] rd16 [of 2] obtain s d where "net_read16 ip body = Some s" "unat s = be16 t 0" "net_read16 ip (body + 2) = Some d" "unat d = be16 t 2" by auto
    then show ?thesis by (intro exI [of _ s] exI [of _ d]) (auto simp: word_unat_eq_iff)
  qed
  consider "unat protocol = 1" | "unat protocol = 17" | "unat protocol = 6" | "unat protocol \<noteq> 1 \<and> unat protocol \<noteq> 17 \<and> unat protocol \<noteq> 6" by blast
  then show ?thesis
  proof cases
    case 1
    obtain c where c: "net_checksum ip body sz 0 = Some c" "c = 0 \<longleftrightarrow> verifies t 0" using ck [of 0] by auto
    have "protocol = 1" using 1 pr by simp
    then show ?thesis using c l 1 by (auto simp: decode_transport_def decode_icmp_def transport_format_def word_unat_eq_iff)
  next
    case 2
    have p: "protocol = 17" using 2 pr by simp
    show ?thesis
    proof (cases "sz < 8")
      case True
      then show ?thesis using p 2 l by (auto simp: decode_transport_def decode_udp_def transport_format_def)
    next
      case False
      obtain a b c s d where w: "net_read16 ip (body + 4) = Some a" "unat a = be16 t 4" "net_read16 ip (body + 6) = Some b" "unat b = be16 t 6"
        "net_checksum ip body sz pseudo = Some c" "c = 0 \<longleftrightarrow> verifies t (unat pseudo)" "net_read16 ip body = Some s" "net_read16 ip (body + 2) = Some d"
        "\<forall>s' d'. (s = s' \<and> d = d') \<longleftrightarrow> (unat s' = be16 t 0 \<and> unat d' = be16 t 2)"
      proof -
        have "(4 :: nat) + 1 < sz" "(6 :: nat) + 1 < sz" "8 \<le> sz" using False by simp_all
        with rd16 [of 4] rd16 [of 6] ck [OF assms(3)] ports show ?thesis using that by blast
      qed
      have b: "b = 0 \<longleftrightarrow> be16 t 6 = 0" using w(4) by (metis unat_eq_zero)
      have e: "decode_transport ip body sz protocol pseudo = Some (if be16 t 4 = sz \<and> (be16 t 6 = 0 \<or> verifies t (unat pseudo)) then Some (s, d) else None)"
        using False p w(1-8) b by (simp add: decode_transport_def decode_udp_def)
      show ?thesis unfolding e using w(9) False l 2 by (auto simp: transport_format_def)
    qed
  next
    case 3
    have p: "protocol = 6" using 3 pr by simp
    show ?thesis
    proof (cases "sz < 20")
      case True
      then show ?thesis using p 3 l by (auto simp: decode_transport_def decode_tcp_def transport_format_def)
    next
      case False
      obtain c s d where w: "net_checksum ip body sz pseudo = Some c" "c = 0 \<longleftrightarrow> verifies t (unat pseudo)" "net_read16 ip body = Some s" "net_read16 ip (body + 2) = Some d"
        "\<forall>s' d'. (s = s' \<and> d = d') \<longleftrightarrow> (unat s' = be16 t 0 \<and> unat d' = be16 t 2)"
      proof -
        have "8 \<le> sz" using False by simp
        with ck [OF assms(3)] ports show ?thesis using that by blast
      qed
      have h: "rd ip (body + 12) = Some (t ! 12)" using False assms(1) by (simp add: t_def rd_def)
      have q: "unat (drop_bit 4 (t ! 12)) = unat (t ! 12) div 16" by (simp add: unat_drop_bit_div)
      have e: "decode_transport ip body sz protocol pseudo =
          Some (if 5 \<le> unat (t ! 12) div 16 \<and> unat (t ! 12) div 16 * 4 \<le> sz \<and> verifies t (unat pseudo) then Some (s, d) else None)"
        using False p w(1-4) h q by (simp add: decode_transport_def decode_tcp_def del: rd_eq_Some)
      show ?thesis unfolding e using w(5) False l 3 by (auto simp: transport_format_def)
    qed
  next
    case 4
    then show ?thesis using pr by (auto simp: decode_transport_def transport_format_def)
  qed
qed


lemma net_decode_format:
  assumes "i + available \<le> length ip"
  shows "\<exists>r. net_decode ip i available = Some r \<and> (\<forall>p. r = Some p \<longleftrightarrow> datagram_format (take available (drop i ip)) p)"
proof -
  define d where "d = take available (drop i ip)"
  have l: "length d = available" using assms by (simp add: d_def)
  have n: "i + k < length ip \<and> d ! k = ip ! (i + k)" if "k < available" for k using that assms by (simp add: d_def)
  have f: "be16 ip (i + k) = be16 d k" if "k + 1 < available" for k using n [of k] n [of "k + 1"] that by (simp add: be16_def add.assoc)
  have f32: "be32 ip (i + k) = be32 d k" if "k + 3 < available" for k using f [of k] f [of "k + 2"] that by (simp add: be32_def add.assoc)
  show ?thesis unfolding d_def [symmetric]
  proof (cases "available < 20 \<or> available > 1500")
    case True
    then have "net_decode ip i available = Some None" by (simp add: net_decode_def ip_header_bad_def)
    then show "\<exists>r. net_decode ip i available = Some r \<and> (\<forall>p. r = Some p \<longleftrightarrow> datagram_format d p)"
      using True l by (auto simp: datagram_format_def Let_def)
  next
    case False
    have rd16: "\<exists>w. net_read16 ip (i + k) = Some w \<and> unat w = be16 d k" if "k + 1 < 20" for k
      using read16_be [of "i + k" ip] f [of k] n [of "k + 1"] that False by auto
    have rd32: "\<exists>w. net_read32 ip (i + k) = Some w \<and> unat w = be32 d k" if "k + 3 < 20" for k
      using read32_be [of "i + k" ip] f32 [of k] n [of "k + 3"] that False by auto
    have t20: "take 20 (drop i ip) = take 20 d" using False by (simp add: d_def min_def)
    have "unat (0 :: u32) + words_sum (take 20 (drop i ip)) < 2 ^ 32" using words_sum_small [of "take 20 (drop i ip)" 0] by simp
    moreover have "i + 20 \<le> length ip" using assms False by simp
    ultimately obtain ck where ck: "net_checksum ip i 20 0 = Some ck" "ck = 0 \<longleftrightarrow> verifies (take 20 d) 0"
      using net_checksum_spec [of i 20 ip 0] checksum_verifies [of i 20 ip 0] unfolding t20 by auto
    obtain len frag a b c e src dst where w: "net_read16 ip (i + 2) = Some len" "unat len = be16 d 2" "net_read16 ip (i + 6) = Some frag" "unat frag = be16 d 6"
      "net_read16 ip (i + 12) = Some a" "unat a = be16 d 12" "net_read16 ip (i + 14) = Some b" "unat b = be16 d 14"
      "net_read16 ip (i + 16) = Some c" "unat c = be16 d 16" "net_read16 ip (i + 18) = Some e" "unat e = be16 d 18"
      "net_read32 ip (i + 12) = Some src" "unat src = be32 d 12" "net_read32 ip (i + 16) = Some dst" "unat dst = be32 d 16"
      using rd16 [of 2] rd16 [of 6] rd16 [of 12] rd16 [of 14] rd16 [of 16] rd16 [of 18] rd32 [of 12] rd32 [of 16] by auto
    have bt: "rd ip i = Some (d ! 0)" "rd ip (i + 8) = Some (d ! 8)" "rd ip (i + 9) = Some (d ! 9)"
      using n [of 0] n [of 8] n [of 9] False by (simp_all add: rd_def)
    have fr: "frag AND 0xbfff = 0 \<longleftrightarrow> be16 d 6 = 0 \<or> be16 d 6 = 0x4000" unfolding fragment_bits using w(4) by (auto simp: word_unat_eq_iff)
    have z: "d ! 0 = 0x45 \<longleftrightarrow> unat (d ! 0) = 0x45" "d ! 8 = 0 \<longleftrightarrow> unat (d ! 8) = 0" by (auto simp: word_unat_eq_iff)
    have h: "ip_header_bad ip i available = Some (\<not> (unat (d ! 0) = 0x45 \<and> unat (d ! 8) \<noteq> 0 \<and> (be16 d 6 = 0 \<or> be16 d 6 = 0x4000) \<and> verifies (take 20 d) 0))"
      using False by (simp add: ip_header_bad_def bt w(3) ck fr z del: rd_eq_Some)
    show "\<exists>r. net_decode ip i available = Some r \<and> (\<forall>p. r = Some p \<longleftrightarrow> datagram_format d p)"
    proof (cases "(unat (d ! 0) = 0x45 \<and> unat (d ! 8) \<noteq> 0 \<and> (be16 d 6 = 0 \<or> be16 d 6 = 0x4000) \<and> verifies (take 20 d) 0) \<and> 20 \<le> be16 d 2 \<and> be16 d 2 \<le> available")
      case bad: False
      then have "net_decode ip i available = Some None" using w(1,2) by (auto simp: net_decode_def h)
      then show ?thesis using bad l by (auto simp: datagram_format_def Let_def)
    next
      case good: True
      let ?sz = "unat len - 20" and ?t = "take (unat len - 20) (drop (i + 20) ip)"
      define ps where "ps = ucast a + ucast b + ucast c + ucast e + ucast (d ! 9) + (of_nat ?sz :: u32)"
      have us: "unat ps = be16 d 12 + be16 d 14 + be16 d 16 + be16 d 18 + unat (d ! 9) + ?sz"
      proof -
        let ?n = "unat a + unat b + unat c + unat e + unat (d ! 9) + ?sz"
        have "ps = ucast a + ucast b + ucast c + ucast e + ucast (d ! 9) + of_nat ?sz" by (fact ps_def)
        also have "\<dots> = of_nat ?n" by (simp only: of_nat_add of_nat_unat)
        finally have "unat ps = unat (of_nat ?n :: u32)" by simp
        moreover have "?n < 4294967296" using unat_lt_65536 [of a] unat_lt_65536 [of b] unat_lt_65536 [of c] unat_lt_65536 [of e] unat_lt_256 [of "d ! 9"] unat_lt_65536 [of len] by linarith
        ultimately have "unat ps = ?n" by (simp only: unat_of_nat) simp
        then show ?thesis unfolding w(6,8,10,12) .
      qed
      have sm: "unat ps < 2 ^ 31" using unat_lt_65536 [of a] unat_lt_65536 [of b] unat_lt_65536 [of c] unat_lt_65536 [of e] unat_lt_256 [of "d ! 9"] unat_lt_65536 [of len]
        unfolding us w(6,8,10,12) [symmetric] by simp
      have ps: "pseudo_sum ip i (d ! 9) ?sz = Some ps" by (simp add: pseudo_sum_def w ps_def)
      have bd: "i + 20 + ?sz \<le> length ip" "?sz \<le> 1480" using good assms False w(2) by auto
      obtain r where r: "decode_transport ip (i + 20) ?sz (d ! 9) ps = Some r"
        "\<And>s t. r = Some (s, t) \<longleftrightarrow> transport_format (unat (d ! 9)) ?t (unat ps) (unat s) (unat t)"
        using transport_decodes [OF bd sm, of "d ! 9"] by blast
      have tt: "?t = drop 20 (take (be16 d 2) d)" 
      proof -
        have m: "min (unat len) available = unat len" using good w(2) by simp
        have "drop 20 (take (unat len) d) = take (unat len - 20) (drop (20 + i) ip)" unfolding d_def take_take m drop_take drop_drop ..
        then show ?thesis unfolding w(2) by (simp only: add.commute)
      qed
      have "net_decode ip i available = Some (case r of None \<Rightarrow> None | Some (sp, dp) \<Rightarrow> Some \<lparr>pkt_source = src, pkt_destination = dst, pkt_source_port = sp,
                pkt_destination_port = dp, pkt_length = len, pkt_protocol = d ! 9\<rparr>)"
      proof -
        have hb: "ip_header_bad ip i available = Some False" unfolding h using good by blast
        have g: "(unat len < 20 \<or> unat len > available) = False" using good w(2) by simp
        show ?thesis unfolding net_decode_def hb bind.bind_lunit if_False w(1) g bt(3) ps r(1) w(13,15)
          by (cases r) (simp_all add: split_beta)
      qed
      moreover have "(case r of None \<Rightarrow> None | Some (sp, dp) \<Rightarrow> Some \<lparr>pkt_source = src, pkt_destination = dst, pkt_source_port = sp,
                pkt_destination_port = dp, pkt_length = len, pkt_protocol = d ! 9\<rparr>) = Some p \<longleftrightarrow> datagram_format d p" for p
      proof -
        have "(case r of None \<Rightarrow> None | Some (sp, dp) \<Rightarrow> Some \<lparr>pkt_source = src, pkt_destination = dst, pkt_source_port = sp,
                pkt_destination_port = dp, pkt_length = len, pkt_protocol = d ! 9\<rparr>) = Some p \<longleftrightarrow>
            r = Some (pkt_source_port p, pkt_destination_port p) \<and> src = pkt_source p \<and> dst = pkt_destination p \<and> len = pkt_length p \<and> d ! 9 = pkt_protocol p"
          by (cases p) (auto split: option.splits)
        also have "\<dots> \<longleftrightarrow> datagram_format d p"
          unfolding r(2) datagram_format_def Let_def us tt l using good False w(2,14,16)
          by (auto simp: word_unat_eq_iff)
        finally show ?thesis .
      qed
      ultimately show ?thesis by blast
    qed
  qed
qed

text \<open>C16: the decoder accepts exactly the well-formed datagrams. With \<^verbatim>\<open>available\<close> bytes behind the pointer it always
  answers; it answers with a packet just when the bytes have the format of a datagram and hold the fields of that packet,
  and with \<^verbatim>\<open>false\<close> otherwise. The format is stated over the bytes: version and header length, a live TTL, no fragment,
  the header checksum, the lengths, the addresses, and per protocol the minimal length, the length fields, the checksum
  over the pseudo header (which UDP may leave out) and the ports at their places.\<close>

theorem net_decode_exact:
  assumes "i + available \<le> length ip"
  shows "\<exists>r. net_decode ip i available = Some r \<and> (\<forall>p. r = Some p \<longleftrightarrow> datagram_format (take available (drop i ip)) p)"
  by (rule net_decode_format [OF assms])

definition sample_datagram :: bytes where
  "sample_datagram = [0x45, 0, 0, 28, 0, 0, 0, 0, 64, 17, 0xf6, 0xcd, 192, 0, 2, 1, 192, 0, 2, 2,
     0, 53, 0, 99, 0, 8, 0, 0]"

theorem net_decode_exact_witness:
  "datagram_format sample_datagram \<lparr>pkt_source = 0xc0000201, pkt_destination = 0xc0000202, pkt_source_port = 53,
    pkt_destination_port = 99, pkt_length = 28, pkt_protocol = NET_UDP\<rparr>"
proof -
  have d: "net_decode sample_datagram 0 28 = Some (Some \<lparr>pkt_source = 0xc0000201, pkt_destination = 0xc0000202,
    pkt_source_port = 53, pkt_destination_port = 99, pkt_length = 28, pkt_protocol = NET_UDP\<rparr>)"
    by code_simp
  have l: "0 + 28 \<le> length sample_datagram" "take 28 (drop 0 sample_datagram) = sample_datagram" by (simp_all add: sample_datagram_def)
  from net_decode_exact [OF l(1)] obtain r where r: "net_decode sample_datagram 0 28 = Some r"
    "\<forall>p. r = Some p \<longleftrightarrow> datagram_format sample_datagram p" unfolding l(2) by blast
  from r(1) have "r = Some \<lparr>pkt_source = 0xc0000201, pkt_destination = 0xc0000202, pkt_source_port = 53,
    pkt_destination_port = 99, pkt_length = 28, pkt_protocol = NET_UDP\<rparr>" unfolding d option.inject by (rule sym)
  with r(2) show ?thesis by blast
qed

section \<open>Parsers\<close>

lemma number_overflow_check:
  "digit > m \<or> n > (m - digit) div 10 \<longleftrightarrow> unat m < unat n * 10 + unat digit" for digit m n :: u32
proof (cases "digit \<le> m")
  case True
  then have "unat (m - digit) = unat m - unat digit" by (rule unat_sub)
  moreover have "unat digit \<le> unat m" using True by (simp add: word_le_nat_alt)
  ultimately show ?thesis by (auto simp: word_less_nat_alt unat_div)
next
  case False
  then show ?thesis by (auto simp: word_less_nat_alt not_le)
qed

lemma number_loop_spec:
  assumes "0 \<notin> set ds" "unat n \<le> unat m"
  shows "number_loop (ds @ 0 # rest) m n =
    Some (if (\<forall>c \<in> set ds. is_digit c) \<and> dec_from (unat n) ds \<le> unat m
          then Some (of_nat (dec_from (unat n) ds)) else None)"
  using assms
proof (induction ds arbitrary: n)
  case Nil
  then show ?case by (simp add: dec_from_def)
next
  case (Cons c ds)
  let ?k = "unat n * 10 + unat (c - 48)"
  show ?case
  proof (cases "is_digit c \<and> ?k \<le> unat m")
    case True
    then have "unat (n * 10 + ucast (c - 48)) = ?k"
      using unat_lt_u32 [of m] by (simp add: unat_word_ariths)
    with True Cons.IH [of "n * 10 + ucast (c - 48)"] Cons.prems show ?thesis
      by (simp add: number_overflow_check dec_from_def)
  next
    case False
    then show ?thesis using Cons.prems dec_from_ge [of ?k ds]
      by (auto simp: number_overflow_check dec_from_def)
  qed
qed

text \<open>The decimal parser accepts exactly the non-empty digit strings whose value is at most
  \<^verbatim>\<open>maximum\<close>, and returns that value: its overflow test is exact.\<close>

lemma net_number_spec:
  assumes "0 \<notin> set ds"
  shows "net_number (ds @ 0 # rest) m =
    Some (if ds \<noteq> [] \<and> (\<forall>c \<in> set ds. is_digit c) \<and> dec_from 0 ds \<le> unat m
          then Some (of_nat (dec_from 0 ds)) else None)"
  using assms number_loop_spec [of ds 0 m rest] by (cases ds) (auto simp: net_number_def rd_def)

lemma net_number_spec_example:
  "net_number [50, 53, 53, 0] 255 = Some (Some 255) \<and> net_number [50, 53, 54, 0] 255 = Some None"
  using net_number_spec [of "[50, 53, 53]" "[]" 255] net_number_spec [of "[50, 53, 54]" "[]" 255]
  by (simp add: dec_from_def)

lemma prefix_mask_bit: "unat p \<le> 32 \<Longrightarrow> bit (prefix_mask p) k \<longleftrightarrow> 32 - unat p \<le> k \<and> k < 32"
proof -
  assume p: "unat p \<le> 32"
  then have u: "unat (32 - p) = 32 - unat p" by (subst unat_sub) (auto simp: word_le_nat_alt)
  have e: "(0xffffffff :: u32) = - 1" by simp
  have m: "prefix_mask p = (if p \<noteq> 0 then push_bit (32 - unat p) (- 1) else 0)"
    by (simp only: prefix_mask_def u e)
  show ?thesis using p unfolding m by (cases "p = 0") (auto simp: bit_simps)
qed

lemma number_loop_le: "number_loop s m n = Some (Some v) \<Longrightarrow> n \<le> m \<Longrightarrow> v \<le> m"
proof (induction s m n rule: number_loop.induct)
  case (2 c s maximum n)
  show ?case
  proof (cases "c = 0")
    case False
    let ?d = "ucast (c - 48) :: u32"
    from 2 False have d: "is_digit c" "\<not> (?d > maximum \<or> n > (maximum - ?d) div 10)"
      by (auto simp: Let_def split: if_splits)
    then have le: "unat n * 10 + unat ?d \<le> unat maximum" by (simp add: number_overflow_check)
    then have "n * 10 + ?d \<le> maximum"
      using unat_lt_u32 [of maximum] by (simp add: word_le_nat_alt unat_word_ariths)
    with 2 False d show ?thesis by (simp add: Let_def)
  qed (use 2 in auto)
qed simp

lemma net_number_le: "net_number text m = Some (Some v) \<Longrightarrow> v \<le> m"
  by (auto simp: net_number_def Option.bind_eq_Some_conv split: if_splits dest: number_loop_le)

lemma cidr_prefix_le: "cidr_prefix rest = Some (Some p) \<Longrightarrow> unat p \<le> 32"
  by (auto simp: cidr_prefix_def word_le_nat_alt split: list.splits if_splits dest!: net_number_le)

text \<open>A parsed CIDR block is canonical: the mask is a prefix of at most 32 ones, and the address
  has no bit outside it.\<close>

lemma net_cidr_sound:
  assumes "net_cidr text = Some (Some (address, msk))"
  shows "address AND msk = address \<and>
    (\<exists>p \<le> 32. \<forall>k. bit msk k \<longleftrightarrow> 32 - p \<le> k \<and> k < 32)"
proof -
  from assms obtain ip rest p where
    "cidr_prefix rest = Some (Some p)" "address = ip AND prefix_mask p" "msk = prefix_mask p"
    by (auto simp: net_cidr_def Option.bind_eq_Some_conv split: option.splits)
  then show ?thesis using cidr_prefix_le [of rest p] prefix_mask_bit [of p]
    by (auto simp: and.assoc)
qed

lemma net_cidr_sound_example:
  "(0x0a010000 :: u32) AND 0xffff0000 = 0x0a010000 \<and>
    (\<exists>p \<le> 32. \<forall>k. bit (0xffff0000 :: u32) k \<longleftrightarrow> 32 - p \<le> k \<and> k < 32)"
proof -
  have "net_cidr [49, 48, 46, 49, 46, 50, 46, 51, 47, 49, 54, 0] = Some (Some (0x0a010000, 0xffff0000))"
    by code_simp
  from net_cidr_sound [OF this] show ?thesis .
qed

end
