(* ===== verification/Tcp.thy ===== *)
theory Tcp
  imports Packet
begin

text \<open>
  The active-open TCP stream of \<^verbatim>\<open>src/jordyOS/net/tcp.c\<close>. The congestion controller is the vendored
  header \<^verbatim>\<open>larp_core.h\<close>, which is not part of the sources: its functions and the three fields the code
  uses are the record \<open>larp\<close>, an argument of every definition that calls them. The callback
  \<^verbatim>\<open>c->emit\<close> is an argument over the link state \<open>'w\<close>; \<open>None\<close> is an access outside an object.
\<close>

section \<open>Connections\<close>

abbreviation (input) TCP_BUFFER :: nat where "TCP_BUFFER \<equiv> 16384"
abbreviation (input) TCP_SLOTS :: nat where "TCP_SLOTS \<equiv> 16"
abbreviation (input) TCP_MSS :: nat where "TCP_MSS \<equiv> 536"
abbreviation (input) TCP_FIN :: u8 where "TCP_FIN \<equiv> 1"
abbreviation (input) TCP_SYN :: u8 where "TCP_SYN \<equiv> 2"
abbreviation (input) TCP_RST :: u8 where "TCP_RST \<equiv> 4"
abbreviation (input) TCP_PSH :: u8 where "TCP_PSH \<equiv> 8"
abbreviation (input) TCP_ACK :: u8 where "TCP_ACK \<equiv> 16"

datatype tcp_state = TCP_IDLE | TCP_SYN_SENT | TCP_ESTABLISHED | TCP_CLOSING | TCP_DONE | TCP_FAILED

record TcpSegment =
  sg_sequence :: u32
  sg_offset :: u32
  sg_length :: u32
  sg_delivered :: u32
  sg_sent_us :: u64
  sg_delivered_us :: u64
  sg_flight_us :: u64
  sg_flags :: u8
  sg_retries :: u8
  sg_used :: bool
  sg_app_limited :: bool

record 'm Tcp =
  tc_state :: tcp_state
  tc_error :: "string option"
  tc_local_port :: u16
  tc_peer_port :: u16
  tc_mss :: u16
  tc_peer_window :: u16
  tc_isn :: u32
  tc_una :: u32
  tc_next :: u32
  tc_receive_next :: u32
  tc_window_seq :: u32
  tc_window_ack :: u32
  tc_tx_size :: u32
  tc_tx_offset :: u32
  tc_rx_size :: u32
  tc_delivered :: u32
  tc_cwnd :: u32
  tc_recovery_end :: u32
  tc_srtt_us :: u32
  tc_rttvar_us :: u32
  tc_rto_us :: u32
  tc_dupacks :: u32
  tc_retransmits :: u32
  tc_timeouts :: u32
  tc_fast_retransmits :: u32
  tc_feedbacks :: u32
  tc_invalid_acks :: u32
  tc_paced_packets :: u32
  tc_minimum_gap_us :: u32
  tc_started_us :: u64
  tc_next_send_us :: u64
  tc_timer_us :: u64
  tc_delivered_us :: u64
  tc_flight_us :: u64
  tc_probe_us :: u64
  tc_last_data_us :: u64
  tc_own_fin :: bool
  tc_own_fin_acked :: bool
  tc_peer_fin :: bool
  tc_ack_pending :: bool
  tc_recovery :: bool
  tc_larp :: 'm
  tc_pending :: "TcpSegment list"
  tc_tx :: bytes
  tc_rx :: bytes

section \<open>The congestion controller\<close>

datatype larp_recovery = LARP_OPEN | LARP_RECOVERY | LARP_TIMEOUT

record larp_feedback =
  fb_now_us :: u64
  fb_rtt_us :: u32
  fb_inflight :: u32
  fb_in_recovery :: bool
  fb_loss :: bool
  fb_ecn :: bool
  fb_app_limited :: bool
  fb_window_limited :: bool
  fb_valid_delivery :: bool
  fb_delivery_rate :: u64
  fb_sample_start_us :: u64

record 'm larp =
  lp_zero :: 'm
  lp_start :: "u64 \<Rightarrow> u64 \<Rightarrow> u64 \<Rightarrow> u64 \<Rightarrow> u64 \<Rightarrow> 'm"
  lp_update :: "'m \<Rightarrow> larp_feedback \<Rightarrow> 'm"
  lp_window :: "'m \<Rightarrow> u32 \<Rightarrow> u32 \<Rightarrow> u32"
  lp_ack_window :: "u32 \<Rightarrow> u32 \<Rightarrow> u32 \<Rightarrow> u32 \<Rightarrow> u32 \<Rightarrow> larp_recovery \<Rightarrow> u32"
  lp_rate :: "'m \<Rightarrow> u64"
  lp_min_rtt :: "'m \<Rightarrow> u64"
  lp_learned :: "'m \<Rightarrow> u32"
  lp_set_rtt :: "'m \<Rightarrow> u32 \<Rightarrow> u64 \<Rightarrow> 'm"
  lp_min :: "u64 \<Rightarrow> u64 \<Rightarrow> u64"
  lp_max :: "u64 \<Rightarrow> u64 \<Rightarrow> u64"
  lp_div :: "u64 \<Rightarrow> u64 \<Rightarrow> u64"

section \<open>Sequence numbers and the retransmission queue\<close>

definition before :: "u32 \<Rightarrow> u32 \<Rightarrow> bool" where
  "before a b \<longleftrightarrow> sint (a - b) < 0"

definition min32 :: "u32 \<Rightarrow> u32 \<Rightarrow> u32" where
  "min32 a b = (if a < b then a else b)"

primrec count_used :: "TcpSegment list \<Rightarrow> u32 \<Rightarrow> u32" where
  "count_used [] n = n"
| "count_used (s # ss) n = count_used ss (n + (if sg_used s then 1 else 0))"

definition inflight :: "'m Tcp \<Rightarrow> u32" where
  "inflight c = count_used (tc_pending c) 0"

primrec oldest_loop :: "TcpSegment list \<Rightarrow> nat \<Rightarrow> (nat \<times> TcpSegment) option \<Rightarrow> (nat \<times> TcpSegment) option" where
  "oldest_loop [] i s = s"
| "oldest_loop (p # ps) i s = oldest_loop ps (i + 1)
     (if sg_used p \<and> (case s of None \<Rightarrow> True | Some (_, q) \<Rightarrow> before (sg_sequence p) (sg_sequence q)) then Some (i, p) else s)"

definition oldest :: "'m Tcp \<Rightarrow> (nat \<times> TcpSegment) option" where
  "oldest c = oldest_loop (tc_pending c) 0 None"

primrec free_slot_loop :: "TcpSegment list \<Rightarrow> nat \<Rightarrow> nat option" where
  "free_slot_loop [] i = None"
| "free_slot_loop (p # ps) i = (if \<not> sg_used p then Some i else free_slot_loop ps (i + 1))"

definition zero_segment :: TcpSegment where
  "zero_segment = \<lparr>sg_sequence = 0, sg_offset = 0, sg_length = 0, sg_delivered = 0, sg_sent_us = 0, sg_delivered_us = 0,
     sg_flight_us = 0, sg_flags = 0, sg_retries = 0, sg_used = False, sg_app_limited = False\<rparr>"

section \<open>Sending\<close>

definition tcp_output :: "('w \<Rightarrow> bytes \<Rightarrow> (bool \<times> 'w) option) \<Rightarrow> 'm Tcp \<Rightarrow> u32 \<Rightarrow> u8 \<Rightarrow> bytes \<Rightarrow> 'w \<Rightarrow> (bool \<times> 'w) option" where
  "tcp_output emit c seq flags data w = do {
     let header = (if flags AND TCP_SYN \<noteq> 0 then 24 else 20);
     b \<leftarrow> net_write16 (replicate (24 + TCP_MSS) 0) 0 (tc_local_port c);
     b \<leftarrow> net_write16 b 2 (tc_peer_port c);
     b \<leftarrow> net_write32 b 4 seq;
     b \<leftarrow> net_write32 b 8 (tc_receive_next c);
     b \<leftarrow> wr b 12 (push_bit 4 (of_nat (header div 4)));
     b \<leftarrow> wr b 13 flags;
     b \<leftarrow> net_write16 b 14 (ucast (min32 4096 (of_nat TCP_BUFFER + 1 - tc_rx_size c)));
     b \<leftarrow> (if flags AND TCP_SYN \<noteq> 0 then do {
             b \<leftarrow> wr b 20 2; b \<leftarrow> wr b 21 4; net_write16 b 22 (of_nat TCP_MSS) }
           else Some b);
     b \<leftarrow> (if data \<noteq> [] then splice b header data else Some b);
     b \<leftarrow> slice b 0 (header + length data);
     emit w b }"

definition tcp_abort :: "('w \<Rightarrow> bytes \<Rightarrow> (bool \<times> 'w) option) \<Rightarrow> 'm Tcp \<Rightarrow> string \<Rightarrow> 'w \<Rightarrow> ('m Tcp \<times> 'w) option" where
  "tcp_abort emit c reason w = do {
     w \<leftarrow> (if tc_state c = TCP_ESTABLISHED \<or> tc_state c = TCP_CLOSING
       then do { (_, w) \<leftarrow> tcp_output emit c (tc_next c) (TCP_RST OR TCP_ACK) [] w; Some w } else Some w);
     Some (c\<lparr>tc_state := TCP_FAILED, tc_error := Some reason\<rparr>, w) }"

definition data_sent :: "'m larp \<Rightarrow> 'm Tcp \<Rightarrow> TcpSegment \<Rightarrow> u64 \<Rightarrow> 'm Tcp" where
  "data_sent lp c s now = (let
     gap = now - tc_last_data_us c;
     c = (if tc_last_data_us c \<noteq> 0 \<and> gap < ucast (tc_minimum_gap_us c) then c\<lparr>tc_minimum_gap_us := ucast gap\<rparr> else c);
     rate = lp_rate lp (tc_larp c) in
     c\<lparr>tc_last_data_us := now, tc_paced_packets := tc_paced_packets c + 1,
       tc_next_send_us := now + lp_max lp 1 (lp_div lp (ucast (sg_length s) * 1000000 + rate - 1) rate)\<rparr>)"

definition transmit :: "'m larp \<Rightarrow> ('w \<Rightarrow> bytes \<Rightarrow> (bool \<times> 'w) option) \<Rightarrow> 'm Tcp \<Rightarrow> TcpSegment \<Rightarrow> u64 \<Rightarrow> 'w \<Rightarrow> (bool \<times> TcpSegment \<times> 'm Tcp \<times> 'w) option" where
  "transmit lp emit c s now w = do {
     data \<leftarrow> (if sg_length s \<noteq> 0 then slice (tc_tx c) (unat (sg_offset s)) (unat (sg_length s)) else Some []);
     (ok, w) \<leftarrow> tcp_output emit c (sg_sequence s) (sg_flags s) data w;
     if \<not> ok then Some (False, s, c, w)
     else Some (True, s\<lparr>sg_sent_us := now\<rparr>, if sg_length s \<noteq> 0 then data_sent lp c s now else c, w) }"

definition feedback :: "'m larp \<Rightarrow> 'm Tcp \<Rightarrow> larp_feedback \<Rightarrow> u32 \<Rightarrow> larp_recovery \<Rightarrow> 'm Tcp" where
  "feedback lp c f acked recovery = (let
     c = c\<lparr>tc_larp := lp_update lp (tc_larp c) f, tc_feedbacks := tc_feedbacks c + 1\<rparr>;
     goal = lp_window lp (tc_larp c) (ucast (tc_mss c)) (of_nat TCP_SLOTS) in
     c\<lparr>tc_cwnd := lp_ack_window lp (tc_cwnd c) goal (inflight c) acked (of_nat TCP_SLOTS) recovery\<rparr>)"

definition tcp_zero :: "'m larp \<Rightarrow> 'm Tcp" where
  "tcp_zero lp = \<lparr>tc_state = TCP_IDLE, tc_error = None, tc_local_port = 0, tc_peer_port = 0, tc_mss = 0, tc_peer_window = 0,
     tc_isn = 0, tc_una = 0, tc_next = 0, tc_receive_next = 0, tc_window_seq = 0, tc_window_ack = 0, tc_tx_size = 0,
     tc_tx_offset = 0, tc_rx_size = 0, tc_delivered = 0, tc_cwnd = 0, tc_recovery_end = 0, tc_srtt_us = 0, tc_rttvar_us = 0,
     tc_rto_us = 0, tc_dupacks = 0, tc_retransmits = 0, tc_timeouts = 0, tc_fast_retransmits = 0, tc_feedbacks = 0,
     tc_invalid_acks = 0, tc_paced_packets = 0, tc_minimum_gap_us = 0, tc_started_us = 0, tc_next_send_us = 0, tc_timer_us = 0,
     tc_delivered_us = 0, tc_flight_us = 0, tc_probe_us = 0, tc_last_data_us = 0, tc_own_fin = False, tc_own_fin_acked = False,
     tc_peer_fin = False, tc_ack_pending = False, tc_recovery = False, tc_larp = lp_zero lp,
     tc_pending = replicate TCP_SLOTS zero_segment, tc_tx = replicate TCP_BUFFER 0, tc_rx = replicate TCP_BUFFER 0\<rparr>"

definition tcp_start :: "'m larp \<Rightarrow> u16 \<Rightarrow> u16 \<Rightarrow> u32 \<Rightarrow> bytes option \<Rightarrow> nat \<Rightarrow> u64 \<Rightarrow> 'm Tcp option" where
  "tcp_start lp port peer isn data sz now = (let c = tcp_zero lp in
     if port = 0 \<or> peer = 0 \<or> sz > TCP_BUFFER \<or> (sz \<noteq> 0 \<and> data = None) then
       Some (c\<lparr>tc_state := TCP_FAILED, tc_error := Some ''invalid TCP transfer''\<rparr>)
     else do {
       tx \<leftarrow> (if sz \<noteq> 0 then do { d \<leftarrow> data; d \<leftarrow> slice d 0 sz; splice (tc_tx c) 0 d } else Some (tc_tx c));
       let m = lp_start lp 125000000 125000 0 500 now;
       Some (c\<lparr>tc_tx := tx, tc_tx_size := of_nat sz, tc_local_port := port, tc_peer_port := peer,
         tc_isn := isn, tc_una := isn, tc_next := isn, tc_mss := of_nat TCP_MSS, tc_rto_us := 1000000, tc_minimum_gap_us := -1,
         tc_started_us := now, tc_state := TCP_SYN_SENT, tc_larp := m,
         tc_cwnd := lp_window lp m (of_nat TCP_MSS) (of_nat TCP_SLOTS)\<rparr>) })"

section \<open>Timers and loss\<close>

definition rtt_sample :: "'m larp \<Rightarrow> 'm Tcp \<Rightarrow> u32 \<Rightarrow> 'm Tcp" where
  "rtt_sample lp c rtt = (let
     rtt = (if rtt = 0 then 1 else rtt);
     c = (if tc_srtt_us c = 0 then c\<lparr>tc_srtt_us := rtt, tc_rttvar_us := rtt div 2\<rparr>
       else let difference = (if tc_srtt_us c > rtt then tc_srtt_us c - rtt else rtt - tc_srtt_us c) in
         c\<lparr>tc_rttvar_us := (3 * tc_rttvar_us c + difference) div 4, tc_srtt_us := (7 * tc_srtt_us c + rtt) div 8\<rparr>) in
     c\<lparr>tc_rto_us := ucast (lp_min lp 60000000 (lp_max lp 1000000
       (ucast (tc_srtt_us c) + lp_max lp 1000 (4 * ucast (tc_rttvar_us c)))))\<rparr>)"

definition tcp_loss :: "'m larp \<Rightarrow> ('w \<Rightarrow> bytes \<Rightarrow> (bool \<times> 'w) option) \<Rightarrow> 'm Tcp \<Rightarrow> u64 \<Rightarrow> bool \<Rightarrow> 'w \<Rightarrow> ('m Tcp \<times> 'w) option" where
  "tcp_loss lp emit c now timeout w = (case oldest c of
     None \<Rightarrow> Some (c, w)
   | Some (k, s) \<Rightarrow>
       if sg_retries s \<ge> 8 then tcp_abort emit c ''retransmission limit'' w
       else if now < tc_next_send_us c \<and> sg_length s \<noteq> 0 then Some (c, w)
       else do {
         (ok, s, c, w) \<leftarrow> transmit lp emit c s now w;
         if \<not> ok then Some (c, w)
         else let
           c = c\<lparr>tc_pending := (tc_pending c)[k := s\<lparr>sg_retries := sg_retries s + 1\<rparr>], tc_retransmits := tc_retransmits c + 1, tc_timer_us := now\<rparr>;
           c = (if timeout then c\<lparr>tc_timeouts := tc_timeouts c + 1, tc_rto_us := min32 60000000 (tc_rto_us c * 2)\<rparr>
             else c\<lparr>tc_fast_retransmits := tc_fast_retransmits c + 1\<rparr>) in
           if tc_state c = TCP_SYN_SENT then Some (c, w)
           else let
             c = (if timeout then c\<lparr>tc_cwnd := 1\<rparr> else c);
             c = c\<lparr>tc_recovery := True, tc_recovery_end := tc_next c\<rparr>;
             f = \<lparr>fb_now_us = now, fb_rtt_us = 0, fb_inflight = inflight c, fb_in_recovery = True, fb_loss = True, fb_ecn = False,
               fb_app_limited = False, fb_window_limited = False, fb_valid_delivery = False, fb_delivery_rate = 0, fb_sample_start_us = 0\<rparr> in
             Some (feedback lp c f 0 (if timeout then LARP_TIMEOUT else LARP_RECOVERY), w) })"

section \<open>Acknowledgements\<close>

record ack_sum =
  ak_packets :: u32
  ak_bytes :: u32
  ak_retransmitted :: bool
  ak_sample :: "TcpSegment option"
  ak_fin :: bool

definition ack_segment :: "u32 \<Rightarrow> TcpSegment \<Rightarrow> ack_sum \<Rightarrow> TcpSegment \<times> ack_sum" where
  "ack_segment acknowledgement s k =
     (if \<not> sg_used s \<or> \<not> before (sg_sequence s) acknowledgement then (s, k)
      else let
        consumed = acknowledgement - sg_sequence s;
        sequence_size = sg_length s + (if sg_flags s AND (TCP_SYN OR TCP_FIN) \<noteq> 0 then 1 else 0);
        k = k\<lparr>ak_retransmitted := (ak_retransmitted k \<or> sg_retries s \<noteq> 0)\<rparr>;
        k = (if sg_retries s = 0 \<and> (case ak_sample k of None \<Rightarrow> True | Some q \<Rightarrow> before (sg_sequence q) (sg_sequence s))
          then k\<lparr>ak_sample := Some s\<rparr> else k) in
        if consumed \<ge> sequence_size then
          (s\<lparr>sg_used := False\<rparr>, k\<lparr>ak_bytes := ak_bytes k + sg_length s, ak_packets := ak_packets k + 1,
             ak_fin := (ak_fin k \<or> sg_flags s AND TCP_FIN \<noteq> 0)\<rparr>)
        else (s\<lparr>sg_sequence := sg_sequence s + consumed, sg_offset := sg_offset s + consumed, sg_length := sg_length s - consumed\<rparr>,
             k\<lparr>ak_bytes := ak_bytes k + consumed\<rparr>))"

primrec ack_loop :: "u32 \<Rightarrow> TcpSegment list \<Rightarrow> ack_sum \<Rightarrow> TcpSegment list \<times> ack_sum" where
  "ack_loop acknowledgement [] k = ([], k)"
| "ack_loop acknowledgement (s # ss) k =
     (let (s', k) = ack_segment acknowledgement s k; (ss', k) = ack_loop acknowledgement ss k in (s' # ss', k))"

definition tcp_ack :: "'m larp \<Rightarrow> ('w \<Rightarrow> bytes \<Rightarrow> (bool \<times> 'w) option) \<Rightarrow> 'm Tcp \<Rightarrow> u32 \<Rightarrow> u64 \<Rightarrow> 'w \<Rightarrow> ('m Tcp \<times> 'w) option" where
  "tcp_ack lp emit c acknowledgement now w =
     (if before acknowledgement (tc_una c) \<or> before (tc_next c) acknowledgement then
        Some (c\<lparr>tc_invalid_acks := tc_invalid_acks c + 1\<rparr>, w)
      else if acknowledgement = tc_una c then
        (if oldest c \<noteq> None then
           let c = c\<lparr>tc_dupacks := tc_dupacks c + 1\<rparr> in
           if tc_dupacks c = 3 \<and> \<not> tc_recovery c then tcp_loss lp emit c now False w else Some (c, w)
         else Some (c, w))
      else let
        (pending, k) = ack_loop acknowledgement (tc_pending c)
          \<lparr>ak_packets = 0, ak_bytes = 0, ak_retransmitted = False, ak_sample = None, ak_fin = False\<rparr>;
        c = c\<lparr>tc_pending := pending, tc_own_fin_acked := (tc_own_fin_acked c \<or> ak_fin k),
          tc_una := acknowledgement, tc_dupacks := 0, tc_timer_us := now, tc_delivered := tc_delivered c + ak_bytes k\<rparr>;
        sample = (case ak_sample k of None \<Rightarrow> zero_segment | Some s \<Rightarrow> s);
        have_sample = (ak_sample k \<noteq> None);
        rtt = (if have_sample \<and> \<not> ak_retransmitted k then ucast (lp_min lp (now - sg_sent_us sample) 60000000) else 0);
        c = (if have_sample \<and> \<not> ak_retransmitted k then rtt_sample lp c rtt else c);
        interval = (if have_sample then lp_max lp (now - sg_delivered_us sample) (sg_sent_us sample - sg_flight_us sample) else 0);
        delivered = (if have_sample then tc_delivered c - sg_delivered sample else 0);
        f = \<lparr>fb_now_us = now, fb_rtt_us = rtt, fb_inflight = inflight c, fb_in_recovery = tc_recovery c, fb_loss = False, fb_ecn = False,
          fb_app_limited = (\<not> have_sample \<or> sg_app_limited sample), fb_window_limited = (have_sample \<and> \<not> sg_app_limited sample),
          fb_valid_delivery = (\<not> ak_retransmitted k \<and> delivered \<ge> 4 * ucast (tc_mss c) \<and>
            interval \<ge> lp_max lp (lp_min_rtt lp (tc_larp c) div 8) 1),
          fb_delivery_rate = (if interval \<noteq> 0 then lp_div lp (ucast delivered * 1000000) interval else 0),
          fb_sample_start_us = (if have_sample then sg_delivered_us sample else 0)\<rparr>;
        c = feedback lp c f (ak_packets k) (if tc_recovery c then LARP_RECOVERY else LARP_OPEN);
        c = c\<lparr>tc_delivered_us := now\<rparr> in
        Some (if tc_recovery c \<and> \<not> before acknowledgement (tc_recovery_end c) then c\<lparr>tc_recovery := False\<rparr> else c, w))"

section \<open>Receiving\<close>

text \<open>The option loop: \<open>None\<close> leaves the segment, \<open>Some None\<close> is the C \<^verbatim>\<open>return\<close>.\<close>

function option_loop :: "bytes \<Rightarrow> nat \<Rightarrow> nat \<Rightarrow> u32 \<Rightarrow> u32 option option" where
  "option_loop b header i mss =
     (if i < header then do {
        kind \<leftarrow> rd b i;
        if kind = 0 then Some (Some mss)
        else if kind = 1 then option_loop b header (i + 1) mss
        else if i + 1 \<ge> header then Some None
        else do {
          sz \<leftarrow> rd b (i + 1);
          if sz < 2 \<or> i + unat sz > header then Some None
          else if kind = 2 then do {
            if sz \<noteq> 4 then Some None
            else do {
              n \<leftarrow> net_read16 b (i + 2);
              if n = 0 then Some None else option_loop b header (i + unat sz) (min32 mss (ucast n)) } }
          else option_loop b header (i + unat sz) mss } }
      else Some (Some mss))"
  by pat_completeness auto
termination
  by (relation "measure (\<lambda>(b, header, i, mss). header - i)") (auto simp: word_less_nat_alt not_less)

declare option_loop.simps [simp del]

definition handshake :: "'m larp \<Rightarrow> 'm Tcp \<Rightarrow> bytes \<Rightarrow> nat \<Rightarrow> u32 \<Rightarrow> u32 \<Rightarrow> u64 \<Rightarrow> 'm Tcp option" where
  "handshake lp c b header seq a now = do {
     r \<leftarrow> option_loop b header 20 (of_nat TCP_MSS);
     case r of None \<Rightarrow> Some c
     | Some mss \<Rightarrow> do {
         window \<leftarrow> net_read16 b 14;
         first \<leftarrow> rd (tc_pending c) 0;
         let c = c\<lparr>tc_mss := ucast mss, tc_receive_next := seq + 1, tc_peer_window := window, tc_window_seq := seq, tc_window_ack := a,
           tc_una := a, tc_pending := (tc_pending c)[0 := first\<lparr>sg_used := False\<rparr>]\<rparr>;
         let c = (if sg_retries first = 0 then
             let c = rtt_sample lp c (ucast (lp_min lp (now - sg_sent_us first) 60000000)) in
             c\<lparr>tc_larp := lp_set_rtt lp (tc_larp c) (tc_srtt_us c) now\<rparr>
           else c\<lparr>tc_rto_us := 3000000\<rparr>);
         Some (c\<lparr>tc_state := TCP_ESTABLISHED, tc_ack_pending := True, tc_delivered_us := now\<rparr>) } }"

text \<open>The acceptance test of an established connection.\<close>

definition acceptable :: "'m Tcp \<Rightarrow> u32 \<Rightarrow> u32 \<Rightarrow> bool" where
  "acceptable c seq sequence_length = (let window = min32 4096 (of_nat TCP_BUFFER + 1 - tc_rx_size c) in
     if sequence_length \<noteq> 0 then
       (if \<not> before seq (tc_receive_next c + window) then False else \<not> before (seq + sequence_length - 1) (tc_receive_next c))
     else seq = tc_receive_next c \<or> (window \<noteq> 0 \<and> \<not> before seq (tc_receive_next c) \<and> before seq (tc_receive_next c + window)))"

text \<open>Taking the payload of an accepted segment; \<open>b\<close> and \<open>len\<close> are its bytes and payload length.\<close>

definition take_payload :: "('w \<Rightarrow> bytes \<Rightarrow> (bool \<times> 'w) option) \<Rightarrow> 'm Tcp \<Rightarrow> bytes \<Rightarrow> nat \<Rightarrow> u32 \<Rightarrow> u8 \<Rightarrow> u32 \<Rightarrow> 'w \<Rightarrow> ('m Tcp \<times> 'w) option" where
  "take_payload emit c b header seq flags len w =
     (let c = c\<lparr>tc_ack_pending := True\<rparr>;
        trim = (if before seq (tc_receive_next c) then min32 (tc_receive_next c - seq) len else 0);
        len = len - trim; seq = seq + trim in
      if \<not> tc_peer_fin c \<and> seq = tc_receive_next c then
        if len > of_nat TCP_BUFFER - tc_rx_size c then tcp_abort emit c ''receive file exceeds 16 KiB'' w
        else do {
          rx \<leftarrow> (if len \<noteq> 0 then do { d \<leftarrow> slice b (unat trim + header) (unat len); splice (tc_rx c) (unat (tc_rx_size c)) d } else Some (tc_rx c));
          let c = c\<lparr>tc_rx := rx, tc_rx_size := tc_rx_size c + len, tc_receive_next := tc_receive_next c + len\<rparr>;
          Some (if flags AND TCP_FIN \<noteq> 0 \<and> \<not> tc_peer_fin c then c\<lparr>tc_peer_fin := True, tc_receive_next := tc_receive_next c + 1\<rparr> else c, w) }
      else Some (c, w))"

definition update_window :: "'m Tcp \<Rightarrow> u16 \<Rightarrow> u32 \<Rightarrow> u32 \<Rightarrow> bool \<times> 'm Tcp" where
  "update_window c window seq a =
     (if before (tc_window_seq c) seq \<or> (tc_window_seq c = seq \<and> \<not> before a (tc_window_ack c)) then
        let changed = (tc_peer_window c \<noteq> window);
            c = c\<lparr>tc_peer_window := window, tc_window_seq := seq, tc_window_ack := a\<rparr> in
        (changed, if changed then c\<lparr>tc_dupacks := 0\<rparr> else c)
      else (False, c))"

definition established_input :: "'m larp \<Rightarrow> ('w \<Rightarrow> bytes \<Rightarrow> (bool \<times> 'w) option) \<Rightarrow> 'm Tcp \<Rightarrow> bytes \<Rightarrow> nat \<Rightarrow> u32 \<Rightarrow> u32 \<Rightarrow> u8 \<Rightarrow> u32 \<Rightarrow> u64 \<Rightarrow> 'w \<Rightarrow> ('m Tcp \<times> 'w) option" where
  "established_input lp emit c b header seq a flags len now w =
     (if flags AND TCP_RST \<noteq> 0 then
        Some (if seq = tc_receive_next c then c\<lparr>tc_state := TCP_FAILED, tc_error := Some ''peer reset''\<rparr> else c\<lparr>tc_ack_pending := True\<rparr>, w)
      else if flags AND TCP_SYN \<noteq> 0 \<and> flags AND TCP_ACK \<noteq> 0 \<and> seq + 1 = tc_receive_next c \<and> a = tc_isn c + 1 then
        Some (c\<lparr>tc_ack_pending := True\<rparr>, w)
      else if flags AND TCP_SYN \<noteq> 0 \<or> flags AND TCP_ACK = 0 then Some (c, w)
      else if \<not> acceptable c seq (len + (if flags AND TCP_FIN \<noteq> 0 then 1 else 0)) then Some (c\<lparr>tc_ack_pending := True\<rparr>, w)
      else if before (tc_next c) a then Some (c\<lparr>tc_invalid_acks := tc_invalid_acks c + 1, tc_ack_pending := True\<rparr>, w)
      else if before a (tc_una c) then Some (c, w)
      else do {
        window \<leftarrow> net_read16 b 14;
        let (changed, c) = update_window c window seq a;
        (c, w) \<leftarrow> (if a \<noteq> tc_una c \<or> (len = 0 \<and> flags AND TCP_FIN = 0 \<and> \<not> changed) then tcp_ack lp emit c a now w else Some (c, w));
        if len \<noteq> 0 \<or> flags AND TCP_FIN \<noteq> 0 then take_payload emit c b header seq flags len w else Some (c, w) })"

definition tcp_input :: "'m larp \<Rightarrow> ('w \<Rightarrow> bytes \<Rightarrow> (bool \<times> 'w) option) \<Rightarrow> 'm Tcp \<Rightarrow> bytes \<Rightarrow> nat \<Rightarrow> u64 \<Rightarrow> 'w \<Rightarrow> ('m Tcp \<times> 'w) option" where
  "tcp_input lp emit c b sz now w =
     (if sz < 20 then Some (c, w)
      else do {
        b12 \<leftarrow> rd b 12; sport \<leftarrow> net_read16 b 0; dport \<leftarrow> net_read16 b 2;
        let header = unat (drop_bit 4 b12) * 4;
        if drop_bit 4 b12 < 5 \<or> header > sz \<or> sport \<noteq> tc_peer_port c \<or> dport \<noteq> tc_local_port c then Some (c, w)
        else do {
          seq \<leftarrow> net_read32 b 4; a \<leftarrow> net_read32 b 8; flags \<leftarrow> rd b 13;
          let len = (of_nat (sz - header) :: u32);
          if tc_state c = TCP_SYN_SENT then
            (if flags AND TCP_RST \<noteq> 0 \<and> flags AND TCP_ACK \<noteq> 0 \<and> a = tc_isn c + 1 then tcp_abort emit c ''connection refused'' w
             else if flags AND (TCP_SYN OR TCP_ACK OR TCP_RST OR TCP_FIN) \<noteq> TCP_SYN OR TCP_ACK \<or> a \<noteq> tc_isn c + 1 \<or> tc_next c \<noteq> a \<or> len \<noteq> 0 then Some (c, w)
             else do { c \<leftarrow> handshake lp c b header seq a now; Some (c, w) })
          else if tc_state c \<noteq> TCP_ESTABLISHED \<and> tc_state c \<noteq> TCP_CLOSING \<and> tc_state c \<noteq> TCP_DONE then Some (c, w)
          else established_input lp emit c b header seq a flags len now w } })"

section \<open>The timer\<close>

definition send_syn :: "'m larp \<Rightarrow> ('w \<Rightarrow> bytes \<Rightarrow> (bool \<times> 'w) option) \<Rightarrow> 'm Tcp \<Rightarrow> u64 \<Rightarrow> 'w \<Rightarrow> ('m Tcp \<times> 'w) option" where
  "send_syn lp emit c now w =
     (if tc_next c \<noteq> tc_isn c then Some (c, w)
      else do {
        (ok, s, c, w) \<leftarrow> transmit lp emit c (zero_segment\<lparr>sg_sequence := tc_isn c, sg_flags := TCP_SYN, sg_used := True\<rparr>) now w;
        if ok then do {
          pending \<leftarrow> wr (tc_pending c) 0 s;
          Some (c\<lparr>tc_pending := pending, tc_next := tc_next c + 1, tc_timer_us := now\<rparr>, w) }
        else Some (c, w) })"

definition send_probe :: "('w \<Rightarrow> bytes \<Rightarrow> (bool \<times> 'w) option) \<Rightarrow> 'm Tcp \<Rightarrow> u64 \<Rightarrow> 'w \<Rightarrow> ('m Tcp \<times> 'w) option" where
  "send_probe emit c now w = do {
     byte \<leftarrow> (if tc_tx_offset c \<noteq> 0 then rd (tc_tx c) (unat (tc_tx_offset c - 1)) else Some 0);
     (ok, w) \<leftarrow> tcp_output emit c (tc_next c - 1) TCP_ACK [byte] w;
     Some (if ok then c\<lparr>tc_probe_us := now\<rparr> else c, w) }"

definition send_data :: "'m larp \<Rightarrow> ('w \<Rightarrow> bytes \<Rightarrow> (bool \<times> 'w) option) \<Rightarrow> 'm Tcp \<Rightarrow> u64 \<Rightarrow> 'w \<Rightarrow> ('m Tcp \<times> 'w) option" where
  "send_data lp emit c now w = (let old = oldest c; outstanding = tc_next c - tc_una c in
     if outstanding \<ge> ucast (tc_peer_window c) then Some (c, w)
     else case free_slot_loop (tc_pending c) 0 of
       None \<Rightarrow> Some (c, w)
     | Some slot \<Rightarrow> do {
         let c = (if inflight c = 0 then c\<lparr>tc_flight_us := now, tc_delivered_us := now\<rparr> else c);
         let len = min32 (ucast (tc_mss c)) (min32 (tc_tx_size c - tc_tx_offset c) (ucast (tc_peer_window c) - outstanding));
         let s = \<lparr>sg_sequence = tc_next c, sg_offset = tc_tx_offset c, sg_length = len, sg_delivered = tc_delivered c, sg_sent_us = 0,
           sg_delivered_us = tc_delivered_us c, sg_flight_us = tc_flight_us c, sg_flags = TCP_ACK OR TCP_PSH, sg_retries = 0, sg_used = True,
           sg_app_limited = (tc_tx_size c - (tc_una c - tc_isn c - 1) < min32 (tc_cwnd c * ucast (tc_mss c)) (ucast (tc_peer_window c)))\<rparr>;
         if len = 0 \<and> (tc_tx_offset c \<noteq> tc_tx_size c \<or> inflight c \<noteq> 0) then Some (c, w)
         else do {
           let s = (if len = 0 then s\<lparr>sg_flags := TCP_ACK OR TCP_FIN\<rparr> else s);
           (ok, s, c, w) \<leftarrow> transmit lp emit c s now w;
           if \<not> ok then Some (c, w)
           else do {
             let c = (if old = None then c\<lparr>tc_timer_us := now\<rparr> else c);
             pending \<leftarrow> wr (tc_pending c) slot s;
             let c = c\<lparr>tc_pending := pending, tc_next := tc_next c + sg_length s + (if sg_flags s AND TCP_FIN \<noteq> 0 then 1 else 0),
               tc_tx_offset := tc_tx_offset c + sg_length s\<rparr>;
             Some (if sg_flags s AND TCP_FIN \<noteq> 0 then c\<lparr>tc_own_fin := True, tc_state := TCP_CLOSING\<rparr> else c, w) } } })"

definition tcp_tick :: "'m larp \<Rightarrow> ('w \<Rightarrow> bytes \<Rightarrow> (bool \<times> 'w) option) \<Rightarrow> 'm Tcp \<Rightarrow> u64 \<Rightarrow> 'w \<Rightarrow> ('m Tcp \<times> 'w) option" where
  "tcp_tick lp emit c now w =
     (if tc_state c = TCP_IDLE \<or> tc_state c = TCP_FAILED then Some (c, w)
      else if tc_state c \<noteq> TCP_DONE \<and> now - tc_started_us c > 120000000 then tcp_abort emit c ''120-second transfer deadline'' w
      else do {
        (c, w) \<leftarrow> (if tc_ack_pending c then do {
            (ok, w) \<leftarrow> tcp_output emit c (tc_next c) TCP_ACK [] w;
            Some (if ok then c\<lparr>tc_ack_pending := False\<rparr> else c, w) }
          else Some (c, w));
        if tc_state c = TCP_DONE then Some (c, w)
        else if oldest c \<noteq> None \<and> now - tc_timer_us c \<ge> ucast (tc_rto_us c) then tcp_loss lp emit c now True w
        else if tc_state c = TCP_SYN_SENT then send_syn lp emit c now w
        else if tc_own_fin_acked c \<and> tc_peer_fin c \<and> \<not> tc_ack_pending c then Some (c\<lparr>tc_state := TCP_DONE\<rparr>, w)
        else if tc_peer_window c = 0 \<and> now - tc_probe_us c \<ge> 1000000 then send_probe emit c now w
        else if tc_own_fin c \<or> now < tc_next_send_us c \<or> inflight c \<ge> tc_cwnd c then Some (c, w)
        else send_data lp emit c now w })"

end
