(* ===== verification/Tcp_Stream.thy ===== *)
theory Tcp_Stream
  imports Tcp
begin

text \<open>
  Correctness of the TCP stream of theory Tcp: the bytes of a segment, the invariant of a connection and that
  every operation keeps it, the link a connection needs as a locale, the receiver against an honest peer, and
  runs of arbitrary events with a complete transfer as a concrete one.
\<close>

section \<open>Segments on the wire\<close>

definition header_size :: "u8 \<Rightarrow> nat" where
  "header_size flags = (if flags AND TCP_SYN \<noteq> 0 then 24 else 20)"

definition segment_of :: "u32 \<Rightarrow> u8 \<Rightarrow> bytes \<Rightarrow> bytes \<Rightarrow> bool" where
  "segment_of seq flags data b \<longleftrightarrow> length b = header_size flags + length data \<and> net_read32 b 4 = Some seq \<and>
     b ! 12 = push_bit 4 (of_nat (header_size flags div 4)) \<and> b ! 13 = flags \<and> b ! 16 = 0 \<and> b ! 17 = 0 \<and>
     drop (header_size flags) b = data"

lemma tcp_output_spec:
  assumes "length data \<le> 536"
  shows "\<exists>b. segment_of seq flags data b \<and> tcp_output emit c seq flags data w = emit w b"
proof -
  let ?h = "header_size flags"
  have h: "?h = 20 \<or> ?h = 24" by (simp add: header_size_def)
  obtain b1 where b1: "net_write16 (replicate 560 0) 0 (tc_local_port c) = Some b1" "length b1 = 560"
    using n16.put_Some [of 0 "replicate 560 0" "tc_local_port c"] n16.put_length [of "replicate 560 0"] by auto
  obtain b2 where b2: "net_write16 b1 2 (tc_peer_port c) = Some b2" "length b2 = 560"
    using n16.put_Some [of 2 b1 "tc_peer_port c"] n16.put_length [of b1] b1(2) by auto
  obtain b3 where b3: "net_write32 b2 4 seq = Some b3" "length b3 = 560" "net_read32 b3 4 = Some seq"
    using n32.put_Some [of 4 b2 seq] n32.put_length [of b2] n32.get_put [of b2] b2(2) by auto
  obtain b4 where b4: "net_write32 b3 8 (tc_receive_next c) = Some b4" "length b4 = 560"
    using n32.put_Some [of 8 b3 "tc_receive_next c"] n32.put_length [of b3] b3(2) by auto
  have r4: "net_read32 b4 4 = Some seq" using n32.get_other [OF b4(1), of 4] b3(3) by simp
  let ?b6 = "b4[12 := push_bit 4 (of_nat (?h div 4)), 13 := flags]"
  let ?win = "ucast (min32 4096 (of_nat TCP_BUFFER + 1 - tc_rx_size c)) :: u16"
  obtain b7 where b7: "net_write16 ?b6 14 ?win = Some b7" "length b7 = 560"
    using n16.put_Some [of 14 ?b6 ?win] n16.put_length [of ?b6] b4(2) by auto
  have f7: "b7 ! 12 = push_bit 4 (of_nat (?h div 4))" "b7 ! 13 = flags" "\<And>j. j < 12 \<Longrightarrow> b7 ! j = b4 ! j"
    using n16.put_frame [OF b7(1)] b4(2) by simp_all
  have "net_read32 b7 4 = net_read32 b4 4"
    by (rule n32.get_local) (use f7(3) b7(2) b4(2) in simp_all)
  have z7: "b7 ! j = 0" if "j = 16 \<or> j = 17" for j
    using that b1(2) b2(2) b3(2) b4(2) n16.put_frame [OF b1(1), of j] n16.put_frame [OF b2(1), of j] n32.put_frame [OF b3(1), of j]
      n32.put_frame [OF b4(1), of j] n16.put_frame [OF b7(1), of j] by auto
  from \<open>net_read32 b7 4 = net_read32 b4 4\<close> r4 have r7: "net_read32 b7 4 = Some seq" by simp
  obtain b8 where b8: "(if flags AND TCP_SYN \<noteq> 0 then do { b \<leftarrow> wr b7 20 2; b \<leftarrow> wr b 21 4; net_write16 b 22 (of_nat TCP_MSS) } else Some b7) = Some b8"
    "length b8 = 560" "\<And>j. j < 20 \<Longrightarrow> b8 ! j = b7 ! j"
  proof (cases "flags AND TCP_SYN \<noteq> 0")
    case True
    let ?b = "b7[20 := 2, 21 := 4]"
    obtain q where q: "net_write16 ?b 22 (of_nat TCP_MSS) = Some q" using n16.put_Some [of 22 ?b] b7(2) by auto
    have "length q = 560" "\<And>j. j < 20 \<Longrightarrow> q ! j = b7 ! j" using n16.put_length [OF q] n16.put_frame [OF q] b7(2) by simp_all
    with q True b7(2) that [of q] show ?thesis by (simp add: wr_Some)
  qed (use that b7 in auto)
  define b9 where "b9 = (if data \<noteq> [] then take ?h b8 @ data @ drop (?h + length data) b8 else b8)"
  have s9: "(if data \<noteq> [] then splice b8 ?h data else Some b8) = Some b9" "length b9 = 560" "take ?h b9 = take ?h b8"
    "take (length data) (drop ?h b9) = data"
    using b8(2) assms h by (auto simp: b9_def splice_Some)
  let ?b = "take (?h + length data) b9"
  have l: "length ?b = ?h + length data" using s9(2) h assms by auto
  have p: "?b ! j = b7 ! j" if "j < 20" for j
  proof -
    have "j < ?h" using h that by auto
    then have "?b ! j = take ?h b9 ! j" using that by simp
    also have "\<dots> = b8 ! j" using s9(3) \<open>j < ?h\<close> by simp
    finally show ?thesis using b8(3) that by simp
  qed
  have "net_read32 (?b @ drop (?h + length data) b9) 4 = net_read32 b7 4"
    by (rule n32.get_local) (use p s9(2) b7(2) l h in \<open>auto simp: nth_append simp del: append_take_drop_id\<close>)
  then have rr: "net_read32 (?b @ drop (?h + length data) b9) 4 = Some seq" using r7 by simp
  have r: "net_read32 ?b 4 = Some seq"
    using rr l h by (auto simp: net_read32_def net_read16_def rd_def nth_append bind_eq_Some_conv split: if_splits simp del: append_take_drop_id)
  have "drop ?h ?b = data" using s9(4) by (simp add: take_drop add.commute)
  then have "segment_of seq flags data ?b" using l r p [of 12] p [of 13] f7(1,2) p [of 16] p [of 17] z7 by (simp add: segment_of_def)
  moreover have "tcp_output emit c seq flags data w = emit w ?b"
  proof -
    have hh: "(if flags AND TCP_SYN \<noteq> 0 then 24 else 20) = ?h" by (simp add: header_size_def)
    have sl: "slice b9 0 (?h + length data) = Some ?b" using s9(2) h assms by (auto simp: slice_Some)
    show ?thesis
      unfolding tcp_output_def hh Let_def using b1 b2 b3 b4 b7 b8(1) s9(1) sl
      by (simp add: wr_Some)
  qed
  ultimately show ?thesis by blast
qed

section \<open>Sequence numbers\<close>

lemma sint_of_int_u32: "- 2147483648 \<le> x \<Longrightarrow> x < 2147483648 \<Longrightarrow> sint (of_int x :: u32) = x"
  by (simp add: signed_of_int signed_take_bit_int_eq_self)

lemma before_offsets:
  assumes "k < 2147483648" "r < 2147483648"
  shows "before (base + of_nat k) (base + of_nat r) \<longleftrightarrow> k < r"
proof -
  have "(base + of_nat k) - (base + of_nat r) = (of_int (int k - int r) :: u32)" by simp
  then have "sint ((base + of_nat k) - (base + of_nat r)) = int k - int r"
    using assms by (simp only: sint_of_int_u32)
  then show ?thesis by (simp add: before_def)
qed

lemma before_self [simp]: "\<not> before a a"
  by (simp add: before_def)

lemma offset_inject:
  assumes "k < 4294967296" "r < 4294967296"
  shows "base + of_nat k = (base + of_nat r :: u32) \<longleftrightarrow> k = r"
  using assms by (simp add: word_of_nat_eq_iff take_bit_eq_mod)

lemma unat_add_small: "unat a + unat b < 4294967296 \<Longrightarrow> unat (a + b) = unat a + unat b" for a b :: u32
  by (simp add: unat_word_ariths(1))

lemma min32_unat: "unat (min32 a b) = min (unat a) (unat b)"
  by (simp add: min32_def word_less_nat_alt)

section \<open>The invariant of a connection\<close>

text \<open>A queued segment lies in the sent part of the source and carries it at its place in sequence space.\<close>

definition seg_wf :: "u32 \<Rightarrow> nat \<Rightarrow> bool \<Rightarrow> TcpSegment \<Rightarrow> bool" where
  "seg_wf isn limit fin s \<longleftrightarrow> unat (sg_offset s) + unat (sg_length s) \<le> limit \<and> unat (sg_length s) \<le> TCP_MSS \<and>
     (sg_flags s AND (TCP_SYN OR TCP_FIN) \<noteq> 0 \<longrightarrow> sg_length s = 0) \<and>
     (sg_length s \<noteq> 0 \<longrightarrow> sg_sequence s = isn + 1 + sg_offset s \<and> \<not> fin) \<and> (sg_flags s AND TCP_FIN \<noteq> 0 \<longrightarrow> fin)"

definition tcp_wf :: "u32 \<Rightarrow> bytes \<Rightarrow> 'm Tcp \<Rightarrow> bool" where
  "tcp_wf isn data c \<longleftrightarrow>
     length (tc_pending c) = TCP_SLOTS \<and> length (tc_tx c) = TCP_BUFFER \<and> length (tc_rx c) = TCP_BUFFER \<and>
     unat (tc_rx_size c) \<le> TCP_BUFFER \<and> unat (tc_tx_size c) = length data \<and> take (length data) (tc_tx c) = data \<and>
     unat (tc_tx_offset c) \<le> length data \<and> tc_isn c = isn \<and> unat (tc_mss c) \<le> TCP_MSS \<and>
     (\<forall>s \<in> set (tc_pending c). sg_used s \<longrightarrow> seg_wf isn (unat (tc_tx_offset c)) (tc_own_fin c) s) \<and>
     (tc_own_fin c \<longrightarrow> unat (tc_tx_offset c) = length data) \<and> (tc_own_fin_acked c \<longrightarrow> tc_own_fin c) \<and>
     (tc_next c = isn + 1 + tc_tx_offset c + (if tc_own_fin c then 1 else 0) \<or>
      tc_next c = isn \<and> tc_tx_offset c = 0 \<and> \<not> tc_own_fin c \<and> tc_state c \<in> {TCP_IDLE, TCP_SYN_SENT, TCP_FAILED}) \<and>
     (tc_state c = TCP_DONE \<longrightarrow> tc_own_fin_acked c \<and> tc_peer_fin c) \<and> (tc_state c = TCP_FAILED \<longrightarrow> tc_error c \<noteq> None)"

text \<open>The fields the invariant and the receiver depend on; most steps leave them alone.\<close>

definition tcp_core :: "'m Tcp \<Rightarrow> _" where
  "tcp_core c = (tc_state c, tc_error c, tc_isn c, tc_next c, tc_mss c, tc_tx_size c, tc_tx_offset c, tc_own_fin c, tc_own_fin_acked c, tc_pending c, tc_tx c)"

definition tcp_recv :: "'m Tcp \<Rightarrow> u32 \<times> u32 \<times> bytes \<times> bool" where
  "tcp_recv c = (tc_receive_next c, tc_rx_size c, tc_rx c, tc_peer_fin c)"

named_theorems core_simps \<open>steps that leave the core of a connection alone\<close>

lemma same_core_wf: "tcp_core c' = tcp_core c \<Longrightarrow> tcp_recv c' = tcp_recv c \<Longrightarrow> tcp_wf isn data c' = tcp_wf isn data c"
  by (simp add: tcp_core_def tcp_recv_def tcp_wf_def)

lemma core_updates [core_simps]:
  "tcp_core (data_sent lp c s now) = tcp_core c" "tcp_recv (data_sent lp c s now) = tcp_recv c"
  "tcp_core (feedback lp c f n r) = tcp_core c" "tcp_recv (feedback lp c f n r) = tcp_recv c"
  "tcp_core (rtt_sample lp c rtt) = tcp_core c" "tcp_recv (rtt_sample lp c rtt) = tcp_recv c"
  "tcp_core (snd (update_window c win seq a)) = tcp_core c" "tcp_recv (snd (update_window c win seq a)) = tcp_recv c"
  by (simp_all add: data_sent_def feedback_def rtt_sample_def update_window_def tcp_core_def tcp_recv_def Let_def)

section \<open>The queue\<close>

lemma oldest_loop_some:
  "oldest_loop ps i s = Some (k, q) \<Longrightarrow> s = Some (k, q) \<or> (i \<le> k \<and> k < i + length ps \<and> q = ps ! (k - i) \<and> sg_used q)"
proof (induction ps arbitrary: i s)
  case (Cons p ps)
  from Cons.IH [OF Cons.prems [simplified]] show ?case
    by (auto simp: nth_Cons' Suc_le_eq split: if_splits)
qed simp

lemma oldest_some: "oldest c = Some (k, s) \<Longrightarrow> k < length (tc_pending c) \<and> s = tc_pending c ! k \<and> sg_used s"
  using oldest_loop_some [of "tc_pending c" 0 None k s] by (auto simp: oldest_def)

lemma count_used_zero: "unat n + length ps < 4294967296 \<Longrightarrow> count_used ps n = 0 \<Longrightarrow> n = 0 \<and> (\<forall>s \<in> set ps. \<not> sg_used s)"
proof (induction ps arbitrary: n)
  case (Cons p ps)
  have u: "unat (n + 1) = unat n + 1" using Cons.prems(1) by (simp add: unat_add_small)
  show ?case
  proof (cases "sg_used p")
    case True
    then have "n + 1 = 0" using Cons.IH [of "n + 1"] Cons.prems u by simp
    then show ?thesis using u by simp
  next
    case False
    then show ?thesis using Cons.IH [of n] Cons.prems by simp
  qed
qed simp

lemma free_slot_bound: "free_slot_loop ps i = Some k \<Longrightarrow> i \<le> k \<and> k < i + length ps"
  by (induction ps arbitrary: i) (fastforce split: if_splits)+

section \<open>Acknowledged segments\<close>

lemma ack_segment_wf:
  assumes "sg_used s \<Longrightarrow> seg_wf isn limit fin s" "limit \<le> 16384"
  shows "sg_used (fst (ack_segment a s k)) \<Longrightarrow> seg_wf isn limit fin (fst (ack_segment a s k))"
    and "ak_fin (snd (ack_segment a s k)) \<Longrightarrow> ak_fin k \<or> fin"
proof -
  let ?used = "a - sg_sequence s" and ?size = "sg_length s + (if sg_flags s AND (TCP_SYN OR TCP_FIN) \<noteq> 0 then 1 else 0)"
  assume u: "sg_used (fst (ack_segment a s k))"
  show "seg_wf isn limit fin (fst (ack_segment a s k))"
  proof (cases "\<not> sg_used s \<or> \<not> before (sg_sequence s) a")
    case True
    then show ?thesis using u assms by (auto simp: ack_segment_def)
  next
    case False
    then have wf: "seg_wf isn limit fin s" using assms by simp
    have lt: "?used < ?size" using u False by (auto simp: ack_segment_def Let_def split: if_splits)
    have "?used \<noteq> 0" using False by auto
    then have fl: "sg_flags s AND (TCP_SYN OR TCP_FIN) = 0"
      using lt wf by (auto simp: seg_wf_def word_less_nat_alt unat_eq_0 split: if_splits)
    then have lt: "unat ?used < unat (sg_length s)" using lt by (simp add: word_less_nat_alt)
    have o: "unat (sg_offset s + ?used) = unat (sg_offset s) + unat ?used"
      using wf assms(2) lt by (intro unat_add_small) (simp add: seg_wf_def)
    have l: "unat (sg_length s - ?used) = unat (sg_length s) - unat ?used" using lt by (intro unat_sub) (simp add: word_le_nat_alt)
    have "sg_length s \<noteq> 0" using lt by auto
    then have "seg_wf isn limit fin (s\<lparr>sg_sequence := sg_sequence s + ?used, sg_offset := sg_offset s + ?used, sg_length := sg_length s - ?used\<rparr>)"
      using wf fl o l lt by (auto simp: seg_wf_def)
    then show ?thesis using u False lt fl by (auto simp: ack_segment_def Let_def word_le_nat_alt)
  qed
next
  assume "ak_fin (snd (ack_segment a s k))"
  then show "ak_fin k \<or> fin" using assms(1) by (auto simp: ack_segment_def Let_def seg_wf_def split: if_splits)
qed

lemma ack_loop_wf:
  assumes "\<forall>s \<in> set ss. sg_used s \<longrightarrow> seg_wf isn limit fin s" "limit \<le> 16384"
  shows "length (fst (ack_loop a ss k)) = length ss \<and> (\<forall>s \<in> set (fst (ack_loop a ss k)). sg_used s \<longrightarrow> seg_wf isn limit fin s) \<and>
    (ak_fin (snd (ack_loop a ss k)) \<longrightarrow> ak_fin k \<or> fin)"
  using assms(1)
proof (induction ss arbitrary: k)
  case (Cons s ss)
  obtain s' k' where e: "ack_segment a s k = (s', k')" by fastforce
  obtain ss' k'' where e2: "ack_loop a ss k' = (ss', k'')" by fastforce
  from Cons.IH [of k'] Cons.prems e2 have "length ss' = length ss" "\<forall>s \<in> set ss'. sg_used s \<longrightarrow> seg_wf isn limit fin s" "ak_fin k'' \<Longrightarrow> ak_fin k' \<or> fin"
    by auto
  moreover have "sg_used s' \<Longrightarrow> seg_wf isn limit fin s'" "ak_fin k' \<Longrightarrow> ak_fin k \<or> fin"
    using ack_segment_wf [of s isn limit fin a k] assms(2) Cons.prems e by auto
  ultimately show ?case by (auto simp: e e2)
qed simp

section \<open>The link below a connection\<close>

text \<open>
  What a connection with initial number \<open>isn\<close> and source \<open>data\<close> puts on the wire: segments of at most 560
  bytes that are empty, carry a part of the source at its place in sequence space, or are a one-byte
  zero-window probe, which repeats the byte before \<^verbatim>\<open>c->next\<close>; after the own FIN that number is the FIN's.
\<close>

definition stream_segment :: "u32 \<Rightarrow> bytes \<Rightarrow> bytes \<Rightarrow> bool" where
  "stream_segment isn data b \<longleftrightarrow> (\<exists>seq flags payload. segment_of seq flags payload b \<and> length payload \<le> TCP_MSS \<and>
     (payload = [] \<or>
      (\<exists>k. k + length payload \<le> length data \<and> seq = isn + 1 + of_nat k \<and> payload = take (length payload) (drop k data)) \<or>
      (seq = isn \<and> payload = [0]) \<or>
      (seq = isn + 1 + of_nat (length data) \<and> payload = [if data = [] then 0 else last data])))"

lemma stream_segment_length: "stream_segment isn data b \<Longrightarrow> 20 \<le> length b \<and> length b \<le> 560"
  unfolding stream_segment_def segment_of_def header_size_def by (elim exE conjE) (simp split: if_splits)

text \<open>A step that keeps the invariant, leaves the receiver alone and at most fails the connection.\<close>

definition quiet_step :: "u32 \<Rightarrow> bytes \<Rightarrow> ('w \<Rightarrow> bool) \<Rightarrow> 'm Tcp \<Rightarrow> ('m Tcp \<times> 'w) option \<Rightarrow> bool" where
  "quiet_step isn data I c r \<longleftrightarrow> (\<exists>c' w'. r = Some (c', w') \<and> tcp_wf isn data c' \<and> I w' \<and> tcp_recv c' = tcp_recv c \<and>
     (tc_state c' = tc_state c \<or> tc_state c' = TCP_FAILED))"

lemma quiet_stepI:
  "r = Some (c', w') \<Longrightarrow> tcp_wf isn data c' \<Longrightarrow> I w' \<Longrightarrow> tcp_recv c' = tcp_recv c \<Longrightarrow>
   tc_state c' = tc_state c \<or> tc_state c' = TCP_FAILED \<Longrightarrow> quiet_step isn data I c r"
  by (auto simp: quiet_step_def)

lemma quiet_stepE:
  assumes "quiet_step isn data I c r"
  obtains c' w' where "r = Some (c', w')" "tcp_wf isn data c'" "I w'" "tcp_recv c' = tcp_recv c"
    "tc_state c' = tc_state c \<or> tc_state c' = TCP_FAILED"
  using assms by (auto simp: quiet_step_def)

lemma quiet_step_refl: "tcp_wf isn data c \<Longrightarrow> I w \<Longrightarrow> quiet_step isn data I c (Some (c, w))"
  by (simp add: quiet_step_def)

lemma quiet_step_core:
  "r = Some (c', w) \<Longrightarrow> tcp_core c' = tcp_core c \<Longrightarrow> tcp_recv c' = tcp_recv c \<Longrightarrow> tcp_wf isn data c \<Longrightarrow> I w \<Longrightarrow> quiet_step isn data I c r"
  using same_core_wf [of c' c] by (auto simp: quiet_step_def) (simp add: tcp_core_def)

locale tcp_link =
  fixes emit :: "'w \<Rightarrow> bytes \<Rightarrow> (bool \<times> 'w) option" and isn :: u32 and data :: bytes and Inv :: "'w \<Rightarrow> bool"
  assumes emit_defined: "Inv w \<Longrightarrow> stream_segment isn data b \<Longrightarrow> \<exists>ok w'. emit w b = Some (ok, w') \<and> Inv w'"
begin

lemma output_ok:
  assumes "Inv w" "length payload \<le> TCP_MSS"
    "payload = [] \<or> (\<exists>k. k + length payload \<le> length data \<and> seq = isn + 1 + of_nat k \<and> payload = take (length payload) (drop k data)) \<or>
      (seq = isn \<and> payload = [0]) \<or> (seq = isn + 1 + of_nat (length data) \<and> payload = [if data = [] then 0 else last data])"
  shows "\<exists>ok w'. tcp_output emit c seq flags payload w = Some (ok, w') \<and> Inv w'"
proof -
  obtain b where b: "segment_of seq flags payload b" "tcp_output emit c seq flags payload w = emit w b"
    using tcp_output_spec [OF assms(2), of seq flags emit c w] by blast
  have "stream_segment isn data b" unfolding stream_segment_def using b(1) assms(2,3) by blast
  with emit_defined [OF assms(1)] b(2) show ?thesis by simp
qed

lemma control_ok: "Inv w \<Longrightarrow> \<exists>ok w'. tcp_output emit c seq flags [] w = Some (ok, w') \<and> Inv w'"
  by (rule output_ok) simp_all

lemma abort_ok:
  assumes "tcp_wf isn data c" "Inv w"
  shows "\<exists>c' w'. tcp_abort emit c reason w = Some (c', w') \<and> tcp_wf isn data c' \<and> Inv w' \<and> tcp_recv c' = tcp_recv c \<and> tc_state c' = TCP_FAILED"
proof -
  obtain w' where w': "(if tc_state c = TCP_ESTABLISHED \<or> tc_state c = TCP_CLOSING
      then do { (_, w) \<leftarrow> tcp_output emit c (tc_next c) (TCP_RST OR TCP_ACK) [] w; Some w } else Some w) = Some w'" "Inv w'"
    using control_ok [OF assms(2), of c "tc_next c" "TCP_RST OR TCP_ACK"] assms(2) that
    by (cases "tc_state c = TCP_ESTABLISHED \<or> tc_state c = TCP_CLOSING") auto
  have "tcp_wf isn data (c\<lparr>tc_state := TCP_FAILED, tc_error := Some reason\<rparr>)" using assms(1) by (auto simp: tcp_wf_def)
  with w' show ?thesis unfolding tcp_abort_def w'(1) by (simp add: tcp_recv_def)
qed

lemma abort_quiet: "tcp_wf isn data c \<Longrightarrow> Inv w \<Longrightarrow> quiet_step isn data Inv c (tcp_abort emit c reason w)"
  using abort_ok [of c w reason] by (auto simp: quiet_step_def)

lemma source_slice:
  assumes "tcp_wf isn data c" "off + n \<le> length data"
  shows "slice (tc_tx c) off n = Some (take n (drop off data))"
proof -
  have l: "length (tc_tx c) = 16384" "take (length data) (tc_tx c) = data" using assms(1) by (simp_all add: tcp_wf_def)
  have "length data \<le> 16384" using l by (metis length_take min.cobounded1)
  moreover have "take n (drop off data) = take n (drop off (tc_tx c))"
    using assms(2) by (subst l(2) [symmetric]) (simp add: drop_take min_def)
  ultimately show ?thesis using l assms(2) by (simp add: slice_Some)
qed

lemma source_length: "tcp_wf isn data c \<Longrightarrow> length data \<le> 16384"
  unfolding tcp_wf_def by (metis length_take min.cobounded1)

lemma transmit_ok:
  assumes "tcp_wf isn data c" "Inv w" "seg_wf isn (length data) fin s"
  shows "\<exists>ok s' c' w'. transmit lp emit c s now w = Some (ok, s', c', w') \<and> Inv w' \<and> tcp_core c' = tcp_core c \<and> tcp_recv c' = tcp_recv c \<and>
    (if ok then s' = s\<lparr>sg_sent_us := now\<rparr> else c' = c)"
proof -
  let ?k = "unat (sg_offset s)" and ?n = "unat (sg_length s)"
  define payload where "payload = (if sg_length s \<noteq> 0 then take ?n (drop ?k data) else [])"
  have kn: "?k + ?n \<le> length data" "?n \<le> 536" "sg_length s \<noteq> 0 \<Longrightarrow> sg_sequence s = isn + 1 + of_nat ?k" using assms(3) by (simp_all add: seg_wf_def)
  have p: "(if sg_length s \<noteq> 0 then slice (tc_tx c) ?k ?n else Some []) = Some payload"
    using source_slice [OF assms(1) kn(1)] by (simp add: payload_def)
  have l: "sg_length s \<noteq> 0 \<Longrightarrow> length payload = ?n" using kn by (simp add: payload_def)
  have "\<exists>ok w'. tcp_output emit c (sg_sequence s) (sg_flags s) payload w = Some (ok, w') \<and> Inv w'"
  proof (rule output_ok [OF assms(2)])
    show "length payload \<le> TCP_MSS" using kn by (simp add: payload_def)
    show "payload = [] \<or> (\<exists>k. k + length payload \<le> length data \<and> sg_sequence s = isn + 1 + of_nat k \<and> payload = take (length payload) (drop k data)) \<or>
      (sg_sequence s = isn \<and> payload = [0]) \<or> (sg_sequence s = isn + 1 + of_nat (length data) \<and> payload = [if data = [] then 0 else last data])"
    proof (cases "sg_length s = 0")
      case False
      then show ?thesis using l kn by (intro disjI2 disjI1 exI [of _ ?k]) (simp add: payload_def)
    qed (simp add: payload_def)
  qed
  then obtain ok w' where "tcp_output emit c (sg_sequence s) (sg_flags s) payload w = Some (ok, w')" "Inv w'" by blast
  with p show ?thesis by (cases ok) (auto simp: transmit_def core_simps)
qed

text \<open>Replacing the queue.\<close>

lemma queue_wf:
  assumes "tcp_wf isn data c" "length ps = TCP_SLOTS" "\<forall>s \<in> set ps. sg_used s \<longrightarrow> seg_wf isn (unat (tc_tx_offset c)) (tc_own_fin c) s"
  shows "tcp_wf isn data (c\<lparr>tc_pending := ps\<rparr>)"
  using assms by (simp add: tcp_wf_def)

lemma queued:
  assumes "tcp_wf isn data c" "s \<in> set (tc_pending c)" "sg_used s"
  shows "seg_wf isn (unat (tc_tx_offset c)) (tc_own_fin c) s"
  using assms by (simp add: tcp_wf_def)

lemma seg_wf_limit: "seg_wf isn m fin s \<Longrightarrow> m \<le> n \<Longrightarrow> seg_wf isn n fin s"
  by (auto simp: seg_wf_def)

lemma tx_offset_le: "tcp_wf isn data c \<Longrightarrow> unat (tc_tx_offset c) \<le> length data"
  by (simp add: tcp_wf_def)

lemma loss_ok:
  assumes "tcp_wf isn data c" "Inv w"
  shows "quiet_step isn data Inv c (tcp_loss lp emit c now timeout w)"
proof (cases "oldest c")
  case None
  then show ?thesis using quiet_step_refl [where I = Inv, OF assms] by (simp add: tcp_loss_def)
next
  case (Some kq)
  then obtain k s where k: "oldest c = Some (k, s)" by fastforce
  then have s: "k < length (tc_pending c)" "s = tc_pending c ! k" "sg_used s" "s \<in> set (tc_pending c)" using oldest_some [OF k] by auto
  show ?thesis
  proof (cases "sg_retries s \<ge> 8 \<or> (now < tc_next_send_us c \<and> sg_length s \<noteq> 0)")
    case True
    then show ?thesis using abort_quiet [OF assms, of "''retransmission limit''"] quiet_step_refl [where I = Inv, OF assms]
      by (simp add: tcp_loss_def k split: if_split) blast
  next
    case False
    have q: "seg_wf isn (unat (tc_tx_offset c)) (tc_own_fin c) s" using queued [OF assms(1) s(4,3)] .
    obtain ok s' c' w' where t: "transmit lp emit c s now w = Some (ok, s', c', w')" "Inv w'" "tcp_core c' = tcp_core c" "tcp_recv c' = tcp_recv c"
      "if ok then s' = s\<lparr>sg_sent_us := now\<rparr> else c' = c"
      using transmit_ok [OF assms seg_wf_limit [OF q tx_offset_le [OF assms(1)]]] by blast
    have wf: "tcp_wf isn data c'" using same_core_wf [OF t(3,4)] assms(1) by simp
    show ?thesis
    proof (cases ok)
      case no: False
      then show ?thesis using False t assms by (intro quiet_stepI [of _ c w']) (auto simp: tcp_loss_def k)
    next
      case yes: True
      let ?s = "s'\<lparr>sg_retries := sg_retries s' + 1\<rparr>"
      have c': "tc_pending c' = tc_pending c" "tc_tx_offset c' = tc_tx_offset c" "tc_own_fin c' = tc_own_fin c" "tc_state c' = tc_state c"
        using t(3) by (simp_all add: tcp_core_def)
      have "seg_wf isn (unat (tc_tx_offset c)) (tc_own_fin c) ?s" using q t(5) yes by (simp add: seg_wf_def)
      then have w2: "tcp_wf isn data (c'\<lparr>tc_pending := (tc_pending c')[k := ?s]\<rparr>)"
        using wf c' by (intro queue_wf) (auto simp: tcp_wf_def dest!: set_update_subset_insert [THEN subsetD])
      have "\<exists>c''. tcp_loss lp emit c now timeout w = Some (c'', w') \<and>
          tcp_core c'' = tcp_core (c'\<lparr>tc_pending := (tc_pending c')[k := ?s]\<rparr>) \<and> tcp_recv c'' = tcp_recv c'"
        using False t(1) yes by (auto simp: tcp_loss_def k Let_def core_simps) (auto simp: tcp_core_def tcp_recv_def)
      then obtain c'' where c'': "tcp_loss lp emit c now timeout w = Some (c'', w')"
        "tcp_core c'' = tcp_core (c'\<lparr>tc_pending := (tc_pending c')[k := ?s]\<rparr>)" "tcp_recv c'' = tcp_recv c'" by blast
      have "tcp_recv (c'\<lparr>tc_pending := (tc_pending c')[k := ?s]\<rparr>) = tcp_recv c'" by (simp add: tcp_recv_def)
      then have "tcp_wf isn data c''" using same_core_wf [OF c''(2)] c''(3) w2 by simp
      moreover have "tc_state c'' = tc_state c" using c''(2) c'(4) by (simp add: tcp_core_def)
      ultimately show ?thesis using c''(1,3) t(2,4) by (intro quiet_stepI [OF c''(1)]) simp_all
    qed
  qed
qed

lemma ack_ok:
  assumes "tcp_wf isn data c" "Inv w"
  shows "quiet_step isn data Inv c (tcp_ack lp emit c a now w)"
proof (cases "before a (tc_una c) \<or> before (tc_next c) a \<or> a = tc_una c")
  case True
  let ?c = "c\<lparr>tc_dupacks := tc_dupacks c + 1\<rparr>"
  have "tcp_wf isn data ?c" "tcp_recv ?c = tcp_recv c" "tc_state ?c = tc_state c"
    "tcp_wf isn data (c\<lparr>tc_invalid_acks := tc_invalid_acks c + 1\<rparr>)" "tcp_recv (c\<lparr>tc_invalid_acks := tc_invalid_acks c + 1\<rparr>) = tcp_recv c"
    using assms(1) by (simp_all add: tcp_wf_def tcp_recv_def)
  then show ?thesis using True assms loss_ok [of ?c w lp now False] by (auto simp: tcp_ack_def Let_def quiet_step_def)
next
  case False
  let ?k = "\<lparr>ak_packets = 0, ak_bytes = 0, ak_retransmitted = False, ak_sample = None, ak_fin = False\<rparr>"
  obtain ps k where l: "ack_loop a (tc_pending c) ?k = (ps, k)" by fastforce
  have ss: "\<forall>s \<in> set (tc_pending c). sg_used s \<longrightarrow> seg_wf isn (unat (tc_tx_offset c)) (tc_own_fin c) s" using assms(1) by (simp add: tcp_wf_def)
  have "unat (tc_tx_offset c) \<le> 16384" using tx_offset_le [OF assms(1)] source_length [OF assms(1)] by simp
  from ack_loop_wf [OF ss this, of a ?k] l have p: "length ps = length (tc_pending c)"
    "\<forall>s \<in> set ps. sg_used s \<longrightarrow> seg_wf isn (unat (tc_tx_offset c)) (tc_own_fin c) s" "ak_fin k \<Longrightarrow> tc_own_fin c" by auto
  let ?c = "c\<lparr>tc_pending := ps, tc_own_fin_acked := (tc_own_fin_acked c \<or> ak_fin k)\<rparr>"
  have wf: "tcp_wf isn data ?c" using assms(1) p by (auto simp: tcp_wf_def)
  have "\<exists>c'. tcp_ack lp emit c a now w = Some (c', w) \<and> tcp_core c' = tcp_core ?c \<and> tcp_recv c' = tcp_recv ?c"
  proof -
    have c1: "tcp_core (x\<lparr>tc_delivered_us := now\<rparr>) = tcp_core x" "tcp_core (x\<lparr>tc_recovery := b\<rparr>) = tcp_core x"
      "tcp_recv (x\<lparr>tc_delivered_us := now\<rparr>) = tcp_recv x" "tcp_recv (x\<lparr>tc_recovery := b\<rparr>) = tcp_recv x"
      "tcp_core (x\<lparr>tc_pending := ps, tc_own_fin_acked := f, tc_una := a, tc_dupacks := 0, tc_timer_us := now, tc_delivered := d\<rparr>) = tcp_core (x\<lparr>tc_pending := ps, tc_own_fin_acked := f\<rparr>)"
      "tcp_recv (x\<lparr>tc_pending := ps, tc_own_fin_acked := f, tc_una := a, tc_dupacks := 0, tc_timer_us := now, tc_delivered := d\<rparr>) = tcp_recv (x\<lparr>tc_pending := ps, tc_own_fin_acked := f\<rparr>)"
      for x :: "'m Tcp" and b f d by (simp_all add: tcp_core_def tcp_recv_def)
    show ?thesis using False unfolding tcp_ack_def l
      by (simp add: Let_def c1 core_simps split del: if_split) (simp add: c1 core_simps)
  qed
  then obtain c' where c': "tcp_ack lp emit c a now w = Some (c', w)" "tcp_core c' = tcp_core ?c" "tcp_recv c' = tcp_recv ?c" by blast
  then have "tcp_wf isn data c'" "tc_state c' = tc_state c" "tcp_recv c' = tcp_recv c"
    using same_core_wf [OF c'(2,3)] wf by (simp_all add: tcp_core_def tcp_recv_def)
  with c'(1) assms(2) show ?thesis by (intro quiet_stepI [OF c'(1)]) simp_all
qed

end

section \<open>The receiver\<close>

text \<open>
  \<open>S\<close> is the byte stream of the peer and \<open>base\<close> the sequence number of its first byte. A segment of the peer
  carries a part of \<open>S\<close> at its place; its FIN follows the last byte; its SYN precedes the first. Segments may
  be lost, repeated, reordered or cut differently on each transmission.
\<close>

definition payload_from :: "bytes \<Rightarrow> u32 \<Rightarrow> u32 \<Rightarrow> bytes \<Rightarrow> bool \<Rightarrow> bool" where
  "payload_from S base seq p fin \<longleftrightarrow> (\<exists>k \<le> length S. seq = base + of_nat k \<and> k + length p \<le> length S \<and>
     p = take (length p) (drop k S) \<and> (fin \<longrightarrow> k + length p = length S))"

definition peer_segment :: "bytes \<Rightarrow> u32 \<Rightarrow> bytes \<Rightarrow> nat \<Rightarrow> bool" where
  "peer_segment S base b sz \<longleftrightarrow> sz \<le> length b \<and> sz < 65536 \<and>
     (let header = unat (drop_bit 4 (b ! 12)) * 4; seq = the (net_read32 b 4); flags = b ! 13; p = take (sz - header) (drop header b) in
      20 \<le> sz \<and> header \<le> sz \<longrightarrow>
        (if flags AND TCP_SYN \<noteq> 0 then seq + 1 = base
         else p \<noteq> [] \<or> flags AND TCP_FIN \<noteq> 0 \<longrightarrow> payload_from S base seq p (flags AND TCP_FIN \<noteq> 0)))"

definition recv_ok :: "bytes \<Rightarrow> u32 \<Rightarrow> 'm Tcp \<Rightarrow> bool" where
  "recv_ok S base c \<longleftrightarrow> unat (tc_rx_size c) \<le> length S \<and> take (unat (tc_rx_size c)) (tc_rx c) = take (unat (tc_rx_size c)) S \<and>
     tc_receive_next c = base + of_nat (unat (tc_rx_size c)) + (if tc_peer_fin c then 1 else 0) \<and>
     (tc_peer_fin c \<longrightarrow> unat (tc_rx_size c) = length S)"

definition live :: "tcp_state \<Rightarrow> bool" where
  "live st \<longleftrightarrow> st = TCP_ESTABLISHED \<or> st = TCP_CLOSING \<or> st = TCP_DONE"

lemma live_simps [simp]: "live TCP_ESTABLISHED" "live TCP_CLOSING" "live TCP_DONE" "\<not> live TCP_IDLE" "\<not> live TCP_SYN_SENT" "\<not> live TCP_FAILED"
  by (simp_all add: live_def)

definition recv_inv :: "bytes \<Rightarrow> u32 \<Rightarrow> 'm Tcp \<Rightarrow> bool" where
  "recv_inv S base c \<longleftrightarrow> (tc_state c = TCP_SYN_SENT \<longrightarrow> tc_rx_size c = 0 \<and> \<not> tc_peer_fin c) \<and> (live (tc_state c) \<longrightarrow> recv_ok S base c)"

lemma recv_ok_same: "tcp_recv c' = tcp_recv c \<Longrightarrow> recv_ok S base c' = recv_ok S base c"
  by (simp add: tcp_recv_def recv_ok_def)

lemma recv_inv_same:
  "tcp_recv c' = tcp_recv c \<Longrightarrow> (tc_state c' = TCP_SYN_SENT \<Longrightarrow> tc_state c = TCP_SYN_SENT) \<Longrightarrow> (live (tc_state c') \<Longrightarrow> live (tc_state c)) \<Longrightarrow>
   recv_inv S base c \<Longrightarrow> recv_inv S base c'"
  using recv_ok_same [of c' c S base] by (auto simp: recv_inv_def tcp_recv_def)

lemma taken_bytes:
  assumes "k + n \<le> length S" "p = take n (drop k S)" "length p = n" "t \<le> n" "k + t = r" "take r rx = take r S" "r \<le> length rx"
  shows "take (r + (n - t)) (take r rx @ drop t p @ rest) = take (r + (n - t)) S"
proof -
  have "drop t p = take (n - t) (drop r S)" using assms by (auto simp: drop_take ac_simps)
  moreover have "length (drop t p) = n - t" using assms(3) by simp
  moreover have "r \<le> length S" using assms by simp
  ultimately show ?thesis using assms(6,7) by (simp add: take_add)
qed

text \<open>Where the accepted part of a segment starts.\<close>

lemma trim_offset:
  assumes "k \<le> length S" "r \<le> length S" "length S < 2147483648" "unat len < 65536" "seq = base + of_nat k" "rn = base + of_nat r"
    and "trim = (if before seq rn then min32 (rn - seq) len else 0)" "seq + trim = rn"
  shows "k + unat trim = r"
proof -
  have "seq + trim = base + of_nat (k + unat trim)" using assms(5) by (simp add: of_nat_unat)
  moreover have "unat trim \<le> unat len" using assms(7) by (simp add: min32_unat)
  ultimately show ?thesis using assms(1-4,6,8) offset_inject [of "k + unat trim" r base] by simp
qed

definition trim_of :: "'m Tcp \<Rightarrow> u32 \<Rightarrow> u32 \<Rightarrow> u32" where
  "trim_of c seq len = (if before seq (tc_receive_next c) then min32 (tc_receive_next c - seq) len else 0)"

lemma take_payload_eq:
  "take_payload emit c b header seq flags len w =
     (if \<not> tc_peer_fin c \<and> seq + trim_of c seq len = tc_receive_next c then
        if len - trim_of c seq len > 16384 - tc_rx_size c then tcp_abort emit (c\<lparr>tc_ack_pending := True\<rparr>) ''receive file exceeds 16 KiB'' w
        else do {
          rx \<leftarrow> (if len - trim_of c seq len \<noteq> 0 then do { d \<leftarrow> slice b (unat (trim_of c seq len) + header) (unat (len - trim_of c seq len)); splice (tc_rx c) (unat (tc_rx_size c)) d } else Some (tc_rx c));
          let c' = c\<lparr>tc_ack_pending := True, tc_rx := rx, tc_rx_size := tc_rx_size c + (len - trim_of c seq len),
            tc_receive_next := tc_receive_next c + (len - trim_of c seq len)\<rparr>;
          Some (if flags AND TCP_FIN \<noteq> 0 then c'\<lparr>tc_peer_fin := True, tc_receive_next := tc_receive_next c' + 1\<rparr> else c', w) }
      else Some (c\<lparr>tc_ack_pending := True\<rparr>, w))"
proof -
  have t: "(if before seq (tc_receive_next (c\<lparr>tc_ack_pending := True\<rparr>)) then min32 (tc_receive_next (c\<lparr>tc_ack_pending := True\<rparr>) - seq) len else 0) = trim_of c seq len"
    by (simp add: trim_of_def)
  show ?thesis unfolding take_payload_def Let_def t
    by (cases "flags AND TCP_FIN = 0"; cases "len - trim_of c seq len = 0"; cases "tc_peer_fin c") simp_all
qed

context tcp_link begin

lemma take_payload_ok:
  assumes "tcp_wf isn data c" "Inv w" "header + unat len \<le> length b" "unat len < 65536"
  shows "\<exists>c' w'. take_payload emit c b header seq flags len w = Some (c', w') \<and> tcp_wf isn data c' \<and> Inv w' \<and>
    (tc_state c' = tc_state c \<or> tc_state c' = TCP_FAILED) \<and>
    (recv_ok S base c \<and> length S < 2147483648 \<and> payload_from S base seq (take (unat len) (drop header b)) (flags AND TCP_FIN \<noteq> 0) \<longrightarrow> recv_ok S base c')"
proof -
  let ?c = "c\<lparr>tc_ack_pending := True\<rparr>"
  define trim where "trim = trim_of c seq len"
  have wf: "tcp_wf isn data ?c" using assms(1) by (simp add: tcp_wf_def)
  have ro: "recv_ok S base ?c = recv_ok S base c" by (rule recv_ok_same) (simp add: tcp_recv_def)
  show ?thesis
  proof (cases "\<not> tc_peer_fin c \<and> seq + trim = tc_receive_next c")
    case False
    then show ?thesis using wf ro assms(2)
      by (intro exI [of _ ?c] exI [of _ w]) (auto simp: take_payload_eq trim_def)
  next
    case True
    have tl: "unat trim \<le> unat len" by (simp add: trim_def trim_of_def min32_unat)
    define n where "n = len - trim"
    have un: "unat n = unat len - unat trim" using tl unfolding n_def by (intro unat_sub) (simp add: word_le_nat_alt)
    show ?thesis
    proof (cases "n > of_nat TCP_BUFFER - tc_rx_size c")
      case big: True
      obtain c' w' where a: "tcp_abort emit ?c ''receive file exceeds 16 KiB'' w = Some (c', w')" "tcp_wf isn data c'" "Inv w'"
        "tcp_recv c' = tcp_recv ?c" "tc_state c' = TCP_FAILED" using abort_ok [OF wf assms(2)] by blast
      moreover have "take_payload emit c b header seq flags len w = Some (c', w')"
        using True big a(1) by (simp add: take_payload_eq trim_def [symmetric] n_def [symmetric])
      ultimately show ?thesis using recv_ok_same [OF a(4)] ro by simp
    next
      case fits: False
      let ?r = "unat (tc_rx_size c)"
      have r: "?r \<le> 16384" "length (tc_rx c) = 16384" using assms(1) by (simp_all add: tcp_wf_def)
      have "unat (16384 - tc_rx_size c) = 16384 - ?r" using r(1) by (subst unat_sub) (simp_all add: word_le_nat_alt)
      then have nn: "?r + unat n \<le> 16384" using fits r(1) by (simp add: word_less_nat_alt)
      let ?d = "take (unat n) (drop (unat trim + header) b)"
      define rx where "rx = (if n \<noteq> 0 then take ?r (tc_rx c) @ ?d @ drop (?r + unat n) (tc_rx c) else tc_rx c)"
      have dl: "length ?d = unat n" using assms(3) un tl by simp
      have rxs: "(if n \<noteq> 0 then do { d \<leftarrow> slice b (unat trim + header) (unat n); splice (tc_rx c) ?r d } else Some (tc_rx c)) = Some rx"
        using dl assms(3) un tl nn r by (simp add: rx_def slice_Some splice_Some)
      have rxl: "length rx = 16384" using dl nn r by (simp add: rx_def)
      have sz: "unat (tc_rx_size c + n) = ?r + unat n" using nn by (intro unat_add_small) simp
      define fin where "fin = (flags AND TCP_FIN \<noteq> 0)"
      let ?n = "?c\<lparr>tc_rx := rx, tc_rx_size := tc_rx_size c + n, tc_receive_next := tc_receive_next c + n\<rparr>"
      define c' where "c' = (if fin then ?n\<lparr>tc_peer_fin := True, tc_receive_next := tc_receive_next ?n + 1\<rparr> else ?n)"
      have "take_payload emit c b header seq flags len w = Some (c', w)"
        unfolding take_payload_eq trim_def [symmetric] n_def [symmetric] rxs c'_def fin_def
        using True fits by (simp add: take_payload_eq trim_def [symmetric] n_def [symmetric] c'_def fin_def)
      moreover have "tcp_wf isn data c'" using wf rxl sz nn True unfolding tcp_wf_def c'_def by simp
      moreover have "tc_state c' = tc_state c" by (simp add: c'_def)
      moreover have "recv_ok S base c'"
        if h: "recv_ok S base c \<and> length S < 2147483648 \<and> payload_from S base seq (take (unat len) (drop header b)) fin"
      proof -
        let ?p = "take (unat len) (drop header b)"
        have pl: "length ?p = unat len" using assms(3) by simp
        from h obtain k where k: "k \<le> length S" "seq = base + of_nat k" "k + unat len \<le> length S" "?p = take (unat len) (drop k S)"
          "fin \<Longrightarrow> k + unat len = length S" unfolding payload_from_def pl by blast
        have rn: "tc_receive_next c = base + of_nat ?r" "?r \<le> length S" "take ?r (tc_rx c) = take ?r S" using h True by (simp_all add: recv_ok_def)
        have kt: "k + unat trim = ?r" using trim_offset [OF k(1) rn(2) _ assms(4) k(2) rn(1) trim_def [unfolded trim_of_def]] True h by simp
        have dp: "drop (unat trim) ?p = ?d" using un by (simp add: drop_take ac_simps)
        have "take (?r + (unat len - unat trim)) (take ?r (tc_rx c) @ drop (unat trim) ?p @ drop (?r + unat n) (tc_rx c)) = take (?r + (unat len - unat trim)) S"
          using r by (intro taken_bytes [OF k(3,4) pl tl kt rn(3)]) simp
        then have tk: "take (?r + unat n) rx = take (?r + unat n) S"
          unfolding dp un [symmetric] using rn(3) by (cases "n = 0") (simp_all add: rx_def)
        have ln: "?r + unat n = k + unat len" using kt un tl by simp
        have "tc_receive_next c + n = base + (tc_rx_size c + n)" using rn(1) by simp
        moreover have "of_nat (unat (tc_rx_size c + n)) = tc_rx_size c + n" by simp
        then have "tc_rx_size c + n = of_nat (k + unat len)" unfolding sz ln by simp
        ultimately show ?thesis using tk ln k(3,5) sz True unfolding recv_ok_def c'_def
          by (cases fin) (simp_all del: of_nat_add)
      qed
      ultimately show ?thesis using assms(2) unfolding fin_def by blast
    qed
  qed
qed

end

section \<open>Input\<close>

lemma option_loop_spec:
  "header \<le> length b \<Longrightarrow> \<exists>r. option_loop b header i mss = Some r \<and> (case r of None \<Rightarrow> True | Some m \<Rightarrow> m \<le> mss)"
proof (induction b header i mss rule: option_loop.induct)
  case (1 b header i mss)
  show ?case
  proof (cases "i < header")
    case False
    then show ?thesis by (subst option_loop.simps) simp
  next
    case True
    then have l: "i < length b" using 1(4) by simp
    note r = rd_Some [OF l]
    show ?thesis
    proof (cases "b ! i = 0 \<or> i + 1 \<ge> header \<and> b ! i \<noteq> 1")
      case stop: True
      then show ?thesis using True by (subst option_loop.simps) (auto simp: r)
    next
      case go: False
      show ?thesis
      proof (cases "b ! i = 1")
        case one: True
        then show ?thesis using 1(1) [OF True r] 1(4) True by (subst option_loop.simps) (simp add: r)
      next
        case opt: False
        let ?z = "b ! (i + 1)"
        have l1: "Suc i < length b" using go opt 1(4) by auto
        note rz = rd_Some [OF l1]
        have z: "rd b (i + 1) = Some ?z" "\<not> i + 1 \<ge> header" using go opt 1(4) by (auto simp: rd_Some)
        show ?thesis
        proof (cases "?z < 2 \<or> i + unat ?z > header \<or> (b ! i = 2 \<and> ?z \<noteq> 4)")
          case bad: True
          then show ?thesis using True go opt z(2) by (subst option_loop.simps) (auto simp: r rz)
        next
          case ok: False
          show ?thesis
          proof (cases "b ! i = 2")
            case two: True
            have z4: "?z = 4" using two ok by simp
            have "i + 4 \<le> length b" using ok z4 1(4) by simp
            then obtain n where n: "net_read16 b (i + 2) = Some n" by (auto simp: net_read16_def rd_Some)
            show ?thesis
            proof (cases "n = 0")
              case True
              then show ?thesis using \<open>i < header\<close> go opt z(2) ok two z4 n by (subst option_loop.simps) (simp add: r rz)
            next
              case False
              from 1(2) [OF \<open>i < header\<close> r _ _ z(2) z(1) _ two _ n False] go opt ok z4 1(4)
              obtain q where rr: "option_loop b header (i + unat ?z) (min32 mss (ucast n)) = Some q" "case q of None \<Rightarrow> True | Some m \<Rightarrow> m \<le> min32 mss (ucast n)" by auto
              have "m \<le> min32 mss (ucast n) \<Longrightarrow> m \<le> mss" for m by (auto simp: min32_def split: if_splits)
              with rr have "case q of None \<Rightarrow> True | Some m \<Rightarrow> m \<le> mss" by (auto split: option.splits)
              with rr(1) show ?thesis using \<open>i < header\<close> go opt z(2) ok two z4 n False by (subst option_loop.simps) (simp add: r rz)
            qed
          next
            case other: False
            from 1(3) [OF True r _ _ z(2) z(1) _ other] go opt ok 1(4)
            show ?thesis using True go opt z(2) ok other by (subst option_loop.simps) (auto simp: r rz)
          qed
        qed
      qed
    qed
  qed
qed

lemma handshake_ok:
  assumes "tcp_wf isn data c" "tc_state c = TCP_SYN_SENT" "tc_next c = isn + 1" "20 \<le> header" "header \<le> length b"
  shows "\<exists>c'. handshake lp c b header seq a now = Some c' \<and> tcp_wf isn data c' \<and>
    (c' = c \<or> (tc_state c' = TCP_ESTABLISHED \<and> tcp_recv c' = (seq + 1, tc_rx_size c, tc_rx c, tc_peer_fin c)))"
proof -
  obtain r where r: "option_loop b header 20 536 = Some r" "case r of None \<Rightarrow> True | Some m \<Rightarrow> m \<le> 536"
    using option_loop_spec [OF assms(5), of 20 536] by blast
  show ?thesis
  proof (cases r)
    case None
    then show ?thesis using r assms(1) by (simp add: handshake_def)
  next
    case (Some m)
    have p: "length (tc_pending c) = 16" using assms(1) by (simp add: tcp_wf_def)
    have m: "unat (ucast m :: u16) \<le> 536"
    proof -
      have "unat m \<le> 536" using r(2) Some by (simp add: word_le_nat_alt)
      then show ?thesis by (simp add: unsigned_ucast_eq take_bit_eq_mod)
    qed
    obtain win where win: "net_read16 b 14 = Some win" using assms(4,5) by (auto simp: net_read16_def rd_Some)
    let ?f = "tc_pending c ! 0"
    let ?c = "c\<lparr>tc_mss := ucast m, tc_receive_next := seq + 1, tc_pending := (tc_pending c)[0 := ?f\<lparr>sg_used := False\<rparr>], tc_state := TCP_ESTABLISHED\<rparr>"
    have "tc_next c = isn + 1 + tc_tx_offset c + (if tc_own_fin c then 1 else 0)"
      using assms(1,3) by (auto simp: tcp_wf_def)
    then have wf: "tcp_wf isn data ?c" using assms(1,2) m p unfolding tcp_wf_def
      by (auto dest!: set_update_subset_insert [THEN subsetD])
    have "\<exists>c'. handshake lp c b header seq a now = Some c' \<and> tcp_core c' = tcp_core ?c \<and> tcp_recv c' = tcp_recv ?c"
    proof -
      let ?d = "c\<lparr>tc_mss := ucast m, tc_receive_next := seq + 1, tc_peer_window := win, tc_window_seq := seq, tc_window_ack := a,
           tc_una := a, tc_pending := (tc_pending c)[0 := ?f\<lparr>sg_used := False\<rparr>]\<rparr>"
      have c1: "tcp_core (x\<lparr>tc_larp := l\<rparr>) = tcp_core x" "tcp_recv (x\<lparr>tc_larp := l\<rparr>) = tcp_recv x"
        "tcp_core (x\<lparr>tc_rto_us := t\<rparr>) = tcp_core x" "tcp_recv (x\<lparr>tc_rto_us := t\<rparr>) = tcp_recv x" for x :: "'a Tcp" and l t
        by (simp_all add: tcp_core_def tcp_recv_def)
      have e: "tcp_core x = tcp_core ?d \<Longrightarrow> tcp_recv x = tcp_recv ?d \<Longrightarrow>
          tcp_core (x\<lparr>tc_state := TCP_ESTABLISHED, tc_ack_pending := True, tc_delivered_us := now\<rparr>) = tcp_core ?c \<and>
          tcp_recv (x\<lparr>tc_state := TCP_ESTABLISHED, tc_ack_pending := True, tc_delivered_us := now\<rparr>) = tcp_recv ?c" for x :: "'a Tcp"
        by (simp add: tcp_core_def tcp_recv_def)
      show ?thesis
      proof (cases "sg_retries ?f = 0")
        case True
        let ?x = "rtt_sample lp ?d (ucast (lp_min lp (now - sg_sent_us ?f) 60000000))"
        let ?y = "?x\<lparr>tc_larp := lp_set_rtt lp (tc_larp ?x) (tc_srtt_us ?x) now\<rparr>"
        have "handshake lp c b header seq a now = Some (?y\<lparr>tc_state := TCP_ESTABLISHED, tc_ack_pending := True, tc_delivered_us := now\<rparr>)"
          using r Some win p True by (simp add: handshake_def Let_def rd_Some)
        with e [of ?y] show ?thesis by (simp only: c1 core_simps) blast
      next
        case False
        let ?y = "?d\<lparr>tc_rto_us := 3000000\<rparr>"
        have "handshake lp c b header seq a now = Some (?y\<lparr>tc_state := TCP_ESTABLISHED, tc_ack_pending := True, tc_delivered_us := now\<rparr>)"
          using r Some win p False by (simp add: handshake_def Let_def rd_Some)
        with e [of ?y] show ?thesis by (simp only: c1) blast
      qed
    qed
    then obtain c' where c': "handshake lp c b header seq a now = Some c'" "tcp_core c' = tcp_core ?c" "tcp_recv c' = tcp_recv ?c" by blast
    then have "tcp_wf isn data c'" using same_core_wf [OF c'(2,3)] wf by simp
    with c' show ?thesis by (auto simp: tcp_core_def tcp_recv_def)
  qed
qed

text \<open>What one event establishes: it is defined, keeps the invariant, and keeps the receiver's under \<open>P\<close>.\<close>

definition step_ok :: "u32 \<Rightarrow> bytes \<Rightarrow> ('w \<Rightarrow> bool) \<Rightarrow> bytes \<Rightarrow> u32 \<Rightarrow> bool \<Rightarrow> 'm Tcp \<Rightarrow> ('m Tcp \<times> 'w) option \<Rightarrow> bool" where
  "step_ok isn data I S base P c r \<longleftrightarrow> (\<exists>c' w'. r = Some (c', w') \<and> tcp_wf isn data c' \<and> I w' \<and> (P \<longrightarrow> recv_inv S base c \<longrightarrow> recv_inv S base c'))"

lemma step_okI:
  "r = Some (c', w') \<Longrightarrow> tcp_wf isn data c' \<Longrightarrow> I w' \<Longrightarrow> (P \<Longrightarrow> recv_inv S base c \<Longrightarrow> recv_inv S base c') \<Longrightarrow> step_ok isn data I S base P c r"
  by (auto simp: step_ok_def)

lemma quiet_step_ok: "quiet_step isn data I c r \<Longrightarrow> step_ok isn data I S base P c r"
  by (erule quiet_stepE) (auto simp: step_ok_def intro: recv_inv_same)

lemma net_read16_ex: "i + 2 \<le> length b \<Longrightarrow> \<exists>v. net_read16 b i = Some v"
  by (simp add: net_read16_def rd_Some)

lemma net_read32_ex: "i + 4 \<le> length b \<Longrightarrow> \<exists>v. net_read32 b i = Some v"
  by (simp add: net_read32_def net_read16_def rd_Some)

context tcp_link begin

lemma same_step:
  assumes "tcp_wf isn data c" "Inv w" "tcp_core c' = tcp_core c" "tcp_recv c' = tcp_recv c"
  shows "step_ok isn data Inv S base P c (Some (c', w))"
  by (rule quiet_step_ok, rule quiet_step_core [OF refl]) (use assms in auto)

lemma established_ok:
  assumes wf: "tcp_wf isn data c" and w: "Inv w" and st: "live (tc_state c)" and b: "20 \<le> header" "header + unat len \<le> length b" "unat len < 65536"
  shows "step_ok isn data Inv S base (length S < 2147483648 \<and> (flags AND TCP_SYN = 0 \<and> (len \<noteq> 0 \<or> flags AND TCP_FIN \<noteq> 0) \<longrightarrow>
      payload_from S base seq (take (unat len) (drop header b)) (flags AND TCP_FIN \<noteq> 0))) c
    (established_input lp emit c b header seq a flags len now w)" (is "step_ok _ _ _ _ _ ?P _ ?r")
proof -
  let ?FIN = "flags AND TCP_FIN \<noteq> 0"
  have pend: "step_ok isn data Inv S base Q c (Some (c\<lparr>tc_ack_pending := True\<rparr>, w))"
    "step_ok isn data Inv S base Q c (Some (c\<lparr>tc_invalid_acks := tc_invalid_acks c + 1, tc_ack_pending := True\<rparr>, w))"
    "step_ok isn data Inv S base Q c (Some (c, w))" for Q
    by (rule same_step [OF wf w]; simp add: tcp_core_def tcp_recv_def)+
  have failed: "step_ok isn data Inv S base Q c (Some (c\<lparr>tc_state := TCP_FAILED, tc_error := Some ''peer reset''\<rparr>, w))" for Q
    using wf w by (intro step_okI [OF refl]) (auto simp: tcp_wf_def recv_inv_def)
  define acc where "acc = acceptable c seq (len + (if ?FIN then 1 else 0))"
  define early where "early \<longleftrightarrow> flags AND TCP_RST \<noteq> 0 \<or> (flags AND TCP_SYN \<noteq> 0 \<and> flags AND TCP_ACK \<noteq> 0 \<and> seq + 1 = tc_receive_next c \<and> a = tc_isn c + 1) \<or>
    flags AND TCP_SYN \<noteq> 0 \<or> flags AND TCP_ACK = 0 \<or> \<not> acc \<or> before (tc_next c) a \<or> before a (tc_una c)"
  show ?thesis
  proof (cases early)
    case True
    have "step_ok isn data Inv S base Q c ?r" for Q
      using True pend [of Q] failed [of Q] unfolding established_input_def early_def acc_def [symmetric] by (simp split: if_split) blast
    then show ?thesis .
  next
    case False
    obtain win where win: "net_read16 b 14 = Some win" using b net_read16_ex [of 14 b] by auto
    obtain ch c1 where u: "update_window c win seq a = (ch, c1)" by fastforce
    have c1: "tcp_core c1 = tcp_core c" "tcp_recv c1 = tcp_recv c" using core_updates(7,8) [of c win seq a] u by simp_all
    have wf1: "tcp_wf isn data c1" using same_core_wf [OF c1] wf by simp
    have s1: "tc_state c1 = tc_state c" using c1 by (simp add: tcp_core_def)
    have "quiet_step isn data Inv c1 (if a \<noteq> tc_una c1 \<or> (len = 0 \<and> \<not> ?FIN \<and> \<not> ch) then tcp_ack lp emit c1 a now w else Some (c1, w))"
      using ack_ok [OF wf1 w] quiet_step_refl [where I = Inv, OF wf1 w] by simp
    then obtain c2 w2 where c2: "(if a \<noteq> tc_una c1 \<or> (len = 0 \<and> \<not> ?FIN \<and> \<not> ch) then tcp_ack lp emit c1 a now w else Some (c1, w)) = Some (c2, w2)"
      "tcp_wf isn data c2" "Inv w2" "tcp_recv c2 = tcp_recv c1" "tc_state c2 = tc_state c1 \<or> tc_state c2 = TCP_FAILED" by (rule quiet_stepE)
    have r: "?r = (if len \<noteq> 0 \<or> ?FIN then take_payload emit c2 b header seq flags len w2 else Some (c2, w2))"
      using False win u c2(1) unfolding established_input_def early_def acc_def [symmetric] by (simp del: if_image_distrib)
    have ro: "recv_ok S base c2 = recv_ok S base c" using recv_ok_same [of c2 c] c2(4) c1(2) by simp
    show ?thesis
    proof (cases "len \<noteq> 0 \<or> ?FIN")
      case no: False
      then show ?thesis unfolding r using c2 st s1 ro by (intro step_okI [of _ c2 w2]) (auto simp: recv_inv_def)
    next
      case yes: True
      from take_payload_ok [OF c2(2,3) b(2,3), of seq flags S base] obtain c3 w3 where
        c3: "take_payload emit c2 b header seq flags len w2 = Some (c3, w3)" "tcp_wf isn data c3" "Inv w3"
          "tc_state c3 = tc_state c2 \<or> tc_state c3 = TCP_FAILED"
          "recv_ok S base c2 \<and> length S < 2147483648 \<and> payload_from S base seq (take (unat len) (drop header b)) ?FIN \<longrightarrow> recv_ok S base c3" by blast
      have "flags AND TCP_SYN = 0" using False by (simp add: early_def)
      then show ?thesis unfolding r using yes c3 c2(5) s1 st ro by (intro step_okI [of _ c3 w3]) (auto simp: recv_inv_def)
    qed
  qed
qed

lemma input_ok:
  assumes wf: "tcp_wf isn data c" and w: "Inv w" and sz: "sz \<le> length b" "sz < 65536"
  shows "step_ok isn data Inv S base (length S < 2147483648 \<and> peer_segment S base b sz) c (tcp_input lp emit c b sz now w)"
proof (cases "sz < 20")
  case True
  then show ?thesis using same_step [OF wf w] by (simp add: tcp_input_def)
next
  case False
  obtain sp where sp: "net_read16 b 0 = Some sp" using sz False net_read16_ex [of 0 b] by auto
  obtain dp where dp: "net_read16 b 2 = Some dp" using sz False net_read16_ex [of 2 b] by auto
  obtain seq where seq: "net_read32 b 4 = Some seq" using sz False net_read32_ex [of 4 b] by auto
  obtain a where a: "net_read32 b 8 = Some a" using sz False net_read32_ex [of 8 b] by auto
  have l: "12 < length b" "13 < length b" using sz False by simp_all
  note rr = rd_Some [OF l(1)] rd_Some [OF l(2)]
  define header flags len where "header = unat (drop_bit 4 (b ! 12)) * 4" and "flags = b ! 13" and "len = (of_nat (sz - header) :: u32)"
  note eq = tcp_input_def [of lp emit c b sz now w, unfolded rr sp dp seq a bind.bind_lunit Let_def, folded header_def, folded flags_def, folded len_def]
  show ?thesis
  proof (cases "drop_bit 4 (b ! 12) < 5 \<or> header > sz \<or> sp \<noteq> tc_peer_port c \<or> dp \<noteq> tc_local_port c")
    case True
    then show ?thesis using False same_step [OF wf w] by (simp add: eq)
  next
    case go: False
    have h: "20 \<le> header" "header \<le> sz" using go by (auto simp: header_def word_less_nat_alt not_less)
    have len: "unat len = sz - header" using sz by (simp add: len_def unat_of_nat take_bit_eq_mod)
    show ?thesis
    proof (cases "tc_state c = TCP_SYN_SENT")
      case syn: True
      define P where "P \<longleftrightarrow> length S < 2147483648 \<and> peer_segment S base b sz"
      have isn: "tc_isn c = isn" using wf by (simp add: tcp_wf_def)
      show ?thesis
      proof (cases "flags AND TCP_RST \<noteq> 0 \<and> flags AND TCP_ACK \<noteq> 0 \<and> a = tc_isn c + 1")
        case True
        then show ?thesis using False go syn quiet_step_ok [OF abort_quiet [OF wf w]] by (simp add: eq)
      next
        case norst: False
        show ?thesis
        proof (cases "flags AND (TCP_SYN OR TCP_ACK OR TCP_RST OR TCP_FIN) \<noteq> TCP_SYN OR TCP_ACK \<or> a \<noteq> tc_isn c + 1 \<or> tc_next c \<noteq> a \<or> len \<noteq> 0")
          case True
          then have "tcp_input lp emit c b sz now w = Some (c, w)" using False go syn norst by (auto simp: eq)
          then show ?thesis using same_step [OF wf w, OF refl refl] by simp
        next
          case ok: False
          then have "tc_next c = isn + 1" using isn by simp
          from handshake_ok [OF wf syn this h(1), of b] h sz obtain c' where c': "handshake lp c b header seq a now = Some c'" "tcp_wf isn data c'"
            "c' = c \<or> (tc_state c' = TCP_ESTABLISHED \<and> tcp_recv c' = (seq + 1, tc_rx_size c, tc_rx c, tc_peer_fin c))" by fastforce
          have "flags AND TCP_SYN \<noteq> 0"
          proof
            assume z: "flags AND TCP_SYN = 0"
            have "(flags AND (TCP_SYN OR TCP_ACK OR TCP_RST OR TCP_FIN)) AND TCP_SYN = (TCP_SYN OR TCP_ACK) AND TCP_SYN" using ok by simp
            then have "flags AND TCP_SYN = TCP_SYN" by (simp add: and.assoc)
            with z show False by simp
          qed
          then have "P \<Longrightarrow> seq + 1 = base" using h False seq
            by (auto simp: P_def peer_segment_def Let_def header_def [symmetric] flags_def [symmetric])
          then have "P \<Longrightarrow> recv_inv S base c \<Longrightarrow> recv_inv S base c'"
            using c'(3) syn by (auto simp: recv_inv_def recv_ok_def tcp_recv_def)
          moreover have "tcp_input lp emit c b sz now w = Some (c', w)" using False go syn norst ok c'(1) by (auto simp: eq)
          ultimately show ?thesis using c'(2) w unfolding P_def [symmetric] by (intro step_okI [of _ c' w])
        qed
      qed
    next
      case nosyn: False
      show ?thesis
      proof (cases "live (tc_state c)")
        case dead: False
        then show ?thesis using False go nosyn same_step [OF wf w, OF refl refl] by (simp add: eq live_def)
      next
        case lv: True
        have r: "tcp_input lp emit c b sz now w = established_input lp emit c b header seq a flags len now w"
          using False go nosyn lv by (auto simp: eq live_def)
        have lb: "header + unat len \<le> length b" "unat len < 65536" using h sz len by simp_all
        have tk: "take (sz - header) (drop header b) = take (unat len) (drop header b)" by (simp add: len)
        have ne: "take (unat len) (drop header b) \<noteq> [] \<longleftrightarrow> len \<noteq> 0" using h sz lb unat_gt_0 [of len] by auto
        have "length S < 2147483648 \<and> peer_segment S base b sz \<Longrightarrow> length S < 2147483648 \<and> (flags AND TCP_SYN = 0 \<and> (len \<noteq> 0 \<or> flags AND TCP_FIN \<noteq> 0) \<longrightarrow>
            payload_from S base seq (take (unat len) (drop header b)) (flags AND TCP_FIN \<noteq> 0))"
          using h False seq ne unfolding peer_segment_def Let_def header_def [symmetric] flags_def [symmetric] tk by auto
        then show ?thesis unfolding r using established_ok [OF wf w lv h(1) lb, of S base flags seq lp a now]
          unfolding step_ok_def by blast
      qed
    qed
  qed
qed

end

section \<open>The timer\<close>

lemma wf_pending: "tcp_wf isn data c \<Longrightarrow> length (tc_pending c) = 16"
  by (simp add: tcp_wf_def)

context tcp_link begin

lemma send_syn_ok:
  assumes wf: "tcp_wf isn data c" and w: "Inv w" and st: "tc_state c = TCP_SYN_SENT"
  shows "quiet_step isn data Inv c (send_syn lp emit c now w)"
proof (cases "tc_next c = tc_isn c")
  case False
  then show ?thesis using quiet_step_refl [where I = Inv, OF wf w] by (simp add: send_syn_def)
next
  case True
  let ?s = "zero_segment\<lparr>sg_sequence := tc_isn c, sg_flags := TCP_SYN, sg_used := True\<rparr>"
  have isn: "tc_isn c = isn" using wf by (simp add: tcp_wf_def)
  have zero: "tc_tx_offset c = 0 \<and> \<not> tc_own_fin c"
  proof (rule ccontr)
    assume n: "\<not> ?thesis"
    then have "isn = isn + 1 + tc_tx_offset c + (if tc_own_fin c then 1 else 0)" using wf True isn by (auto simp: tcp_wf_def)
    then have "1 + tc_tx_offset c + (if tc_own_fin c then 1 else 0) = 0" by (simp add: add.assoc)
    moreover have "unat (tc_tx_offset c) \<le> 16384" using tx_offset_le [OF wf] source_length [OF wf] by simp
    then have "unat (1 + tc_tx_offset c + (if tc_own_fin c then 1 else 0)) = 1 + unat (tc_tx_offset c) + (if tc_own_fin c then 1 else 0)"
      by (auto simp: unat_add_small)
    ultimately show False by simp
  qed
  have "seg_wf isn (length data) (tc_own_fin c) ?s" by (simp add: seg_wf_def zero_segment_def zero)
  from transmit_ok [OF wf w this] obtain ok s' c' w' where t: "transmit lp emit c ?s now w = Some (ok, s', c', w')" "Inv w'"
    "tcp_core c' = tcp_core c" "tcp_recv c' = tcp_recv c" "if ok then s' = ?s\<lparr>sg_sent_us := now\<rparr> else c' = c" by blast
  have wf': "tcp_wf isn data c'" using same_core_wf [OF t(3,4)] wf by simp
  show ?thesis
  proof (cases ok)
    case no: False
    then show ?thesis using True t wf by (intro quiet_stepI [of _ c w']) (auto simp: send_syn_def)
  next
    case yes: True
    have c': "tc_next c' = isn" "tc_tx_offset c' = 0" "\<not> tc_own_fin c'" "tc_state c' = TCP_SYN_SENT"
      using t(3) True isn zero st by (simp_all add: tcp_core_def)
    let ?c = "c'\<lparr>tc_pending := (tc_pending c')[0 := s'], tc_next := tc_next c' + 1, tc_timer_us := now\<rparr>"
    have "seg_wf isn (unat (tc_tx_offset c')) (tc_own_fin c') s'" using t(5) yes c' by (simp add: seg_wf_def zero_segment_def)
    then have "tcp_wf isn data ?c" using wf' c' unfolding tcp_wf_def by (auto dest!: set_update_subset_insert [THEN subsetD])
    moreover have "send_syn lp emit c now w = Some (?c, w')"
      using True yes t(1) wf_pending [OF wf'] by (simp add: send_syn_def wr_Some)
    moreover have "tcp_recv ?c = tcp_recv c" "tc_state ?c = tc_state c" using t(4) c'(4) st by (simp_all add: tcp_recv_def)
    ultimately show ?thesis using t(2) by (intro quiet_stepI [of _ ?c w']) simp_all
  qed
qed

text \<open>After the handshake the next sequence number follows the sent part of the source.\<close>

lemma next_number:
  "tcp_wf isn data c \<Longrightarrow> tc_state c \<notin> {TCP_IDLE, TCP_SYN_SENT, TCP_FAILED} \<Longrightarrow>
   tc_next c = isn + 1 + tc_tx_offset c + (if tc_own_fin c then 1 else 0)"
  by (auto simp: tcp_wf_def)

lemma probe_ok:
  assumes wf: "tcp_wf isn data c" and w: "Inv w" and st: "tc_state c \<notin> {TCP_IDLE, TCP_SYN_SENT, TCP_FAILED}"
  shows "quiet_step isn data Inv c (send_probe emit c now w)"
proof -
  let ?o = "tc_tx_offset c"
  have l: "length (tc_tx c) = 16384" "take (length data) (tc_tx c) = data" "unat ?o \<le> length data" using wf by (simp_all add: tcp_wf_def)
  have dl: "length data \<le> 16384" by (rule source_length [OF wf])
  define byte where "byte = (if ?o \<noteq> 0 then data ! (unat ?o - 1) else 0)"
  have pred: "?o \<noteq> 0 \<Longrightarrow> unat (?o - 1) = unat ?o - 1" by (simp add: unat_minus_one)
  have pos: "?o \<noteq> 0 \<Longrightarrow> 0 < unat ?o" by (simp add: unat_gt_0)
  have "?o \<noteq> 0 \<Longrightarrow> tc_tx c ! (unat ?o - 1) = data ! (unat ?o - 1)"
    using l(3) pos by (subst l(2) [symmetric]) (simp add: nth_take)
  then have b: "(if ?o \<noteq> 0 then rd (tc_tx c) (unat (?o - 1)) else Some 0) = Some byte"
    using pred pos l dl by (auto simp: byte_def rd_Some)
  have nx: "tc_next c = isn + 1 + ?o + (if tc_own_fin c then 1 else 0)" by (rule next_number [OF wf st])
  have "\<exists>ok w'. tcp_output emit c (tc_next c - 1) TCP_ACK [byte] w = Some (ok, w') \<and> Inv w'"
  proof (rule output_ok [OF w])
    show "[byte] = [] \<or> (\<exists>k. k + length [byte] \<le> length data \<and> tc_next c - 1 = isn + 1 + of_nat k \<and> [byte] = take (length [byte]) (drop k data)) \<or>
      (tc_next c - 1 = isn \<and> [byte] = [0]) \<or> (tc_next c - 1 = isn + 1 + of_nat (length data) \<and> [byte] = [if data = [] then 0 else last data])"
    proof (cases "tc_own_fin c")
      case True
      then have o: "unat ?o = length data" using wf by (simp add: tcp_wf_def)
      then have "byte = (if data = [] then 0 else last data)" by (auto simp: byte_def last_conv_nth unat_gt_0 [symmetric])
      moreover have "of_nat (length data) = ?o" unfolding o [symmetric] by simp
      ultimately show ?thesis using nx True by simp
    next
      case False
      show ?thesis
      proof (cases "?o = 0")
        case True
        then show ?thesis using nx False by (simp add: byte_def)
      next
        case o: False
        let ?k = "unat ?o - 1"
        have k: "?k < length data" using pos [OF o] l(3) by simp
        have "of_nat ?k = ?o - 1" unfolding pred [OF o, symmetric] by simp
        moreover have "take 1 (drop ?k data) = [byte]" using k o by (simp add: byte_def take_Suc_conv_app_nth hd_drop_conv_nth take_Suc)
        ultimately show ?thesis using nx False k by (intro disjI2 disjI1 exI [of _ ?k]) simp
      qed
    qed
  qed simp
  then obtain ok w' where o: "tcp_output emit c (tc_next c - 1) TCP_ACK [byte] w = Some (ok, w')" "Inv w'" by blast
  have "tcp_core (c\<lparr>tc_probe_us := now\<rparr>) = tcp_core c" "tcp_recv (c\<lparr>tc_probe_us := now\<rparr>) = tcp_recv c" by (simp_all add: tcp_core_def tcp_recv_def)
  then show ?thesis using b o wf unfolding send_probe_def by (intro quiet_step_core [where c' = "if ok then c\<lparr>tc_probe_us := now\<rparr> else c" and w = w']) auto
qed

lemma send_data_ok:
  assumes wf: "tcp_wf isn data c" and w: "Inv w" and st: "tc_state c = TCP_ESTABLISHED \<or> tc_state c = TCP_CLOSING" and nofin: "\<not> tc_own_fin c"
  shows "\<exists>c' w'. send_data lp emit c now w = Some (c', w') \<and> tcp_wf isn data c' \<and> Inv w' \<and> tcp_recv c' = tcp_recv c \<and>
    (tc_state c' = tc_state c \<or> tc_state c' = TCP_CLOSING)"
proof -
  let ?out = "tc_next c - tc_una c"
  have stay: "\<exists>c' w'. Some (c, w) = Some (c', w') \<and> tcp_wf isn data c' \<and> Inv w' \<and> tcp_recv c' = tcp_recv c \<and> (tc_state c' = tc_state c \<or> tc_state c' = TCP_CLOSING)"
    using wf w by simp
  show ?thesis
  proof (cases "?out \<ge> ucast (tc_peer_window c) \<or> free_slot_loop (tc_pending c) 0 = None")
    case True
    then show ?thesis using stay by (auto simp: send_data_def Let_def split: option.split)
  next
    case False
    then obtain slot where slot: "free_slot_loop (tc_pending c) 0 = Some slot" by auto
    have sl: "slot < 16" using free_slot_bound [OF slot] wf_pending [OF wf] by simp
    define d where "d = (if inflight c = 0 then c\<lparr>tc_flight_us := now, tc_delivered_us := now\<rparr> else c)"
    have d: "tcp_core d = tcp_core c" "tcp_recv d = tcp_recv c" by (simp_all add: d_def tcp_core_def tcp_recv_def)
    have inf: "inflight d = inflight c" using d(1) by (simp add: tcp_core_def inflight_def)
    have wfd: "tcp_wf isn data d" using same_core_wf [OF d] wf by simp
    have df: "tc_tx_offset d = tc_tx_offset c" "tc_tx_size d = tc_tx_size c" "tc_next d = tc_next c" "\<not> tc_own_fin d" "tc_state d = tc_state c" "tc_pending d = tc_pending c"
      using d(1) nofin by (simp_all add: tcp_core_def)
    define len where "len = min32 (ucast (tc_mss d)) (min32 (tc_tx_size d - tc_tx_offset d) (ucast (tc_peer_window d) - ?out))"
    have sz: "unat (tc_tx_size c) = length data" "unat (tc_tx_offset c) \<le> length data" "unat (tc_mss d) \<le> 536" using wf wfd by (simp_all add: tcp_wf_def)
    have "unat (tc_tx_size c - tc_tx_offset c) = length data - unat (tc_tx_offset c)" using sz by (subst unat_sub) (simp_all add: word_le_nat_alt)
    then have ln: "unat len \<le> 536" "unat (tc_tx_offset c) + unat len \<le> length data"
      using sz by (auto simp: len_def min32_unat df)
    define s0 where "s0 = \<lparr>sg_sequence = tc_next d, sg_offset = tc_tx_offset d, sg_length = len, sg_delivered = tc_delivered d, sg_sent_us = 0,
           sg_delivered_us = tc_delivered_us d, sg_flight_us = tc_flight_us d, sg_flags = TCP_ACK OR TCP_PSH, sg_retries = 0, sg_used = True,
           sg_app_limited = (tc_tx_size d - (tc_una d - tc_isn d - 1) < min32 (tc_cwnd d * ucast (tc_mss d)) (ucast (tc_peer_window d)))\<rparr>"
    define s where "s = (if len = 0 then s0\<lparr>sg_flags := TCP_ACK OR TCP_FIN\<rparr> else s0)"
    have pw: "tc_peer_window d = tc_peer_window c" "tc_una d = tc_una c" by (simp_all add: d_def)
    show ?thesis
    proof (cases "len = 0 \<and> (tc_tx_offset d \<noteq> tc_tx_size d \<or> inflight d \<noteq> 0)")
      case True
      have "send_data lp emit c now w = Some (d, w)"
        using False slot True unfolding send_data_def Let_def d_def [symmetric] len_def [symmetric] by (simp add: len_def [symmetric])
      then show ?thesis using wfd w d(2) df(5) by simp
    next
      case go: False
      have nx: "tc_next d = isn + 1 + tc_tx_offset d" using next_number [OF wfd] st df(4,5) by auto
      have flags: "(TCP_ACK OR TCP_PSH) AND (TCP_SYN OR TCP_FIN) = 0" "(TCP_ACK OR TCP_PSH) AND TCP_FIN = 0" "(TCP_ACK OR TCP_FIN) AND TCP_FIN \<noteq> 0" by simp_all
      have sw: "seg_wf isn (length data) (len = 0) s" using ln nx flags by (auto simp: seg_wf_def s_def s0_def df)
      from transmit_ok [OF wfd w sw] obtain ok s' c1 w1 where t: "transmit lp emit d s now w = Some (ok, s', c1, w1)" "Inv w1"
        "tcp_core c1 = tcp_core d" "tcp_recv c1 = tcp_recv d" "if ok then s' = s\<lparr>sg_sent_us := now\<rparr> else c1 = d" by blast
      have eq: "send_data lp emit c now w = (do {
           (ok, s, c1, w) \<leftarrow> transmit lp emit d s now w;
           if \<not> ok then Some (c1, w)
           else do {
             let c1 = (if oldest c = None then c1\<lparr>tc_timer_us := now\<rparr> else c1);
             pending \<leftarrow> wr (tc_pending c1) slot s;
             let c1 = c1\<lparr>tc_pending := pending, tc_next := tc_next c1 + sg_length s + (if sg_flags s AND TCP_FIN \<noteq> 0 then 1 else 0),
               tc_tx_offset := tc_tx_offset c1 + sg_length s\<rparr>;
             Some (if sg_flags s AND TCP_FIN \<noteq> 0 then c1\<lparr>tc_own_fin := True, tc_state := TCP_CLOSING\<rparr> else c1, w) } })"
        unfolding send_data_def Let_def d_def [symmetric] len_def [symmetric] s0_def [symmetric] s_def [symmetric]
        using False slot go by (simp only: if_False if_not_P option.case not_False_eq_True de_Morgan_disj)
      show ?thesis
      proof (cases ok)
        case no: False
        then show ?thesis using t wfd d(2) df(5) by (simp add: eq)
      next
        case yes: True
        let ?e = "if oldest c = None then c1\<lparr>tc_timer_us := now\<rparr> else c1"
        have e: "tcp_core ?e = tcp_core d" "tcp_recv ?e = tcp_recv d" using t(3,4) by (auto simp: tcp_core_def tcp_recv_def)
        have wfe: "tcp_wf isn data ?e" using same_core_wf [OF e] wfd by simp
        have s': "s' = s\<lparr>sg_sent_us := now\<rparr>" using t(5) yes by simp
        define fin where "fin \<longleftrightarrow> len = 0"
        have sf: "sg_length s' = len" "sg_flags s' AND TCP_FIN \<noteq> 0 \<longleftrightarrow> fin" by (simp_all add: s' s_def s0_def fin_def)
        let ?f = "?e\<lparr>tc_pending := (tc_pending ?e)[slot := s'], tc_next := tc_next ?e + len + (if fin then 1 else 0), tc_tx_offset := tc_tx_offset ?e + len\<rparr>"
        let ?g = "if fin then ?f\<lparr>tc_own_fin := True, tc_state := TCP_CLOSING\<rparr> else ?f"
        have ef: "tc_pending ?e = tc_pending c" "tc_next ?e = isn + 1 + tc_tx_offset c" "tc_tx_offset ?e = tc_tx_offset c" "tc_state ?e = tc_state c" "\<not> tc_own_fin ?e"
          using e(1) d(1) nx nofin by (simp_all add: tcp_core_def)
        have res: "send_data lp emit c now w = Some (?g, w1)"
          using yes t(1) sl wf_pending [OF wf] ef(1) unfolding eq by (simp add: wr_Some sf Let_def)
        have off: "unat (tc_tx_offset c + len) = unat (tc_tx_offset c) + unat len"
          using ln source_length [OF wf] by (intro unat_add_small) simp
        have s'w: "seg_wf isn (unat (tc_tx_offset c) + unat len) fin s'"
          using ln nx flags unfolding s' by (auto simp: seg_wf_def s_def s0_def df fin_def)
        have old: "\<forall>q \<in> set (tc_pending c). sg_used q \<longrightarrow> seg_wf isn (unat (tc_tx_offset c) + unat len) fin q"
        proof (cases fin)
          case True
          then have "inflight c = 0" using go inf by (simp add: fin_def)
          then have "\<forall>q \<in> set (tc_pending c). \<not> sg_used q" using count_used_zero [of 0 "tc_pending c"] wf_pending [OF wf] by (simp add: inflight_def)
          then show ?thesis by simp
        next
          case False
          then show ?thesis using queued [OF wf] nofin seg_wf_limit [OF _ le_add1] by fastforce
        qed
        have q: "\<forall>q \<in> set ((tc_pending c)[slot := s']). sg_used q \<longrightarrow> seg_wf isn (unat (tc_tx_offset c) + unat len) fin q"
          using old s'w by (auto dest!: set_update_subset_insert [THEN subsetD])
        have whole: "fin \<Longrightarrow> unat (tc_tx_offset c) + unat len = length data"
          using go sz by (auto simp: fin_def df)
        have acked: "\<not> tc_own_fin_acked ?e" using wfe ef(5) by (auto simp: tcp_wf_def)
        have "tcp_wf isn data ?g"
          using wfe q off ln(2) whole acked ef st unfolding tcp_wf_def by (cases fin) (simp_all add: add_ac)
        moreover have "tcp_recv ?g = tcp_recv c" using e(2) d(2) by (simp add: tcp_recv_def)
        moreover have "tc_state ?g = tc_state c \<or> tc_state ?g = TCP_CLOSING" using ef(4) by simp
        ultimately show ?thesis using res t(2) by blast
      qed
    qed
  qed
qed

end

lemma step_ok_mono: "step_ok isn data I S base P c r \<Longrightarrow> (Q \<Longrightarrow> P) \<Longrightarrow> step_ok isn data I S base Q c r"
  by (auto simp: step_ok_def)

context tcp_link begin

lemma tick_ok:
  assumes wf: "tcp_wf isn data c" and w: "Inv w"
  shows "step_ok isn data Inv S base True c (tcp_tick lp emit c now w)"
proof (cases "tc_state c = TCP_IDLE \<or> tc_state c = TCP_FAILED \<or> (tc_state c \<noteq> TCP_DONE \<and> now - tc_started_us c > 120000000)")
  case True
  then have "tcp_tick lp emit c now w = Some (c, w) \<or> tcp_tick lp emit c now w = tcp_abort emit c ''120-second transfer deadline'' w"
    unfolding tcp_tick_def by (simp only: split: if_split) blast
  then show ?thesis using quiet_step_ok [OF abort_quiet [OF wf w]] same_step [OF wf w, OF refl refl] by (elim disjE) simp_all
next
  case False
  let ?pre = "if tc_ack_pending c then do { (ok, w) \<leftarrow> tcp_output emit c (tc_next c) TCP_ACK [] w; Some (if ok then c\<lparr>tc_ack_pending := False\<rparr> else c, w) } else Some (c, w)"
  have "\<exists>d w'. ?pre = Some (d, w') \<and> Inv w' \<and> tcp_core d = tcp_core c \<and> tcp_recv d = tcp_recv c"
  proof (cases "tc_ack_pending c")
    case True
    obtain ok w' where "tcp_output emit c (tc_next c) TCP_ACK [] w = Some (ok, w')" "Inv w'" using control_ok [OF w] by blast
    then show ?thesis using True by (cases ok) (simp_all add: tcp_core_def tcp_recv_def)
  qed (use w in simp)
  then obtain d w' where d: "?pre = Some (d, w')" "Inv w'" "tcp_core d = tcp_core c" "tcp_recv d = tcp_recv c" by blast
  have wfd: "tcp_wf isn data d" using same_core_wf [OF d(3,4)] wf by simp
  have sd: "tc_state d = tc_state c" using d(3) by (simp add: tcp_core_def)
  let ?r = "if tc_state d = TCP_DONE then Some (d, w')
        else if oldest d \<noteq> None \<and> now - tc_timer_us d \<ge> ucast (tc_rto_us d) then tcp_loss lp emit d now True w'
        else if tc_state d = TCP_SYN_SENT then send_syn lp emit d now w'
        else if tc_own_fin_acked d \<and> tc_peer_fin d \<and> \<not> tc_ack_pending d then Some (d\<lparr>tc_state := TCP_DONE\<rparr>, w')
        else if tc_peer_window d = 0 \<and> now - tc_probe_us d \<ge> 1000000 then send_probe emit d now w'
        else if tc_own_fin d \<or> now < tc_next_send_us d \<or> inflight d \<ge> tc_cwnd d then Some (d, w')
        else send_data lp emit d now w'"
  have r: "tcp_tick lp emit c now w = ?r" using False unfolding tcp_tick_def d(1) by (simp only: bind.bind_lunit prod.case if_False de_Morgan_disj simp_thms)
  have lift: "step_ok isn data Inv S base True c q" if "step_ok isn data Inv S base True d q" for q
    using that recv_inv_same [OF d(4), of S base] sd unfolding step_ok_def by auto
  have fin: "step_ok isn data Inv S base True d (Some (d\<lparr>tc_state := TCP_DONE\<rparr>, w'))"
    if "tc_own_fin_acked d" "tc_peer_fin d" "tc_state d \<noteq> TCP_SYN_SENT"
  proof (rule step_okI [OF refl])
    have "tc_next d = isn + 1 + tc_tx_offset d + (if tc_own_fin d then 1 else 0)" using next_number [OF wfd] False sd that(3) by auto
    then show "tcp_wf isn data (d\<lparr>tc_state := TCP_DONE\<rparr>)" using wfd that unfolding tcp_wf_def by auto
    have "tc_state d = TCP_ESTABLISHED \<or> tc_state d = TCP_CLOSING \<or> tc_state d = TCP_DONE" using False sd that(3) by (cases "tc_state d") auto
    then show "recv_inv S base d \<Longrightarrow> recv_inv S base (d\<lparr>tc_state := TCP_DONE\<rparr>)" by (auto simp: recv_inv_def recv_ok_def)
  qed (rule d(2))
  have data: "step_ok isn data Inv S base True d (send_data lp emit d now w')"
    if "tc_state d \<noteq> TCP_DONE" "tc_state d \<noteq> TCP_SYN_SENT" "\<not> tc_own_fin d"
  proof -
    have st: "tc_state d = TCP_ESTABLISHED \<or> tc_state d = TCP_CLOSING" using False sd that by (cases "tc_state d") auto
    note nofin = that(3)
    obtain c' w2 where c': "send_data lp emit d now w' = Some (c', w2)" "tcp_wf isn data c'" "Inv w2" "tcp_recv c' = tcp_recv d"
      "tc_state c' = tc_state d \<or> tc_state c' = TCP_CLOSING" using send_data_ok [OF wfd d(2) st nofin] by blast
    show ?thesis by (rule step_okI [where I = Inv, OF c'(1-3)]) (use recv_inv_same [OF c'(4), of S base] c'(5) st in auto)
  qed
  have stay: "step_ok isn data Inv S base True d (Some (d, w'))" by (rule same_step [OF wfd d(2) refl refl])
  have probe: "step_ok isn data Inv S base True d (send_probe emit d now w')" if "tc_state d \<noteq> TCP_SYN_SENT"
    by (rule quiet_step_ok, rule probe_ok [OF wfd d(2)]) (use False sd that in auto)
  show ?thesis unfolding r
    by (rule lift)
      (simp split: if_split add: stay fin data probe quiet_step_ok [OF loss_ok [OF wfd d(2)]] quiet_step_ok [OF send_syn_ok [OF wfd d(2)]])
qed

end

section \<open>Runs\<close>

datatype tcp_event = Segment bytes nat u64 | Tick u64 | Cancel string

definition tcp_event :: "'m larp \<Rightarrow> ('w \<Rightarrow> bytes \<Rightarrow> (bool \<times> 'w) option) \<Rightarrow> tcp_event \<Rightarrow> 'm Tcp \<Rightarrow> 'w \<Rightarrow> ('m Tcp \<times> 'w) option" where
  "tcp_event lp emit e c w = (case e of Segment b sz now \<Rightarrow> tcp_input lp emit c b sz now w | Tick now \<Rightarrow> tcp_tick lp emit c now w
     | Cancel reason \<Rightarrow> tcp_abort emit c reason w)"

fun tcp_run :: "'m larp \<Rightarrow> ('w \<Rightarrow> bytes \<Rightarrow> (bool \<times> 'w) option) \<Rightarrow> tcp_event list \<Rightarrow> 'm Tcp \<Rightarrow> 'w \<Rightarrow> ('m Tcp \<times> 'w) option" where
  "tcp_run lp emit [] c w = Some (c, w)"
| "tcp_run lp emit (e # es) c w = do { (c, w) \<leftarrow> tcp_event lp emit e c w; tcp_run lp emit es c w }"

text \<open>Any bytes the network delivers, and the bytes of an honest peer.\<close>

definition event_ok :: "tcp_event \<Rightarrow> bool" where
  "event_ok e = (case e of Segment b sz now \<Rightarrow> sz \<le> length b \<and> sz < 65536 | _ \<Rightarrow> True)"

definition event_from :: "bytes \<Rightarrow> u32 \<Rightarrow> tcp_event \<Rightarrow> bool" where
  "event_from S base e = (case e of Segment b sz now \<Rightarrow> peer_segment S base b sz | _ \<Rightarrow> True)"

context tcp_link begin

lemma event_step:
  assumes "tcp_wf isn data c" "Inv w" "event_ok e"
  shows "step_ok isn data Inv S base (length S < 2147483648 \<and> event_from S base e) c (tcp_event lp emit e c w)"
proof (cases e)
  case (Segment b sz now)
  then show ?thesis using assms(3) input_ok [OF assms(1,2), of sz b S base lp now] by (simp add: event_ok_def event_from_def tcp_event_def)
next
  case (Tick now)
  then show ?thesis using step_ok_mono [OF tick_ok [OF assms(1,2), of S base lp now]] by (simp add: tcp_event_def)
next
  case (Cancel reason)
  then show ?thesis using quiet_step_ok [OF abort_quiet [OF assms(1,2)]] by (simp add: tcp_event_def)
qed

lemma run_steps:
  "tcp_wf isn data c \<Longrightarrow> Inv w \<Longrightarrow> \<forall>e \<in> set es. event_ok e \<Longrightarrow>
   step_ok isn data Inv S base (length S < 2147483648 \<and> (\<forall>e \<in> set es. event_from S base e)) c (tcp_run lp emit es c w)"
proof (induction es arbitrary: c w)
  case Nil
  then show ?case by (simp add: step_ok_def)
next
  case (Cons e es)
  from event_step [OF Cons.prems(1,2), of e S base lp] Cons.prems(3) obtain c1 w1 where
    c1: "tcp_event lp emit e c w = Some (c1, w1)" "tcp_wf isn data c1" "Inv w1"
      "length S < 2147483648 \<and> event_from S base e \<Longrightarrow> recv_inv S base c \<Longrightarrow> recv_inv S base c1" by (auto simp: step_ok_def)
  from Cons.IH [OF c1(2,3)] Cons.prems(3) show ?case using c1 by (auto simp: step_ok_def)
qed

lemma delivered:
  assumes "tcp_wf isn data c" "tc_state c = TCP_DONE"
  shows "unat (tc_tx_offset c) = length data" "s \<in> set (tc_pending c) \<Longrightarrow> sg_used s \<Longrightarrow> sg_length s = 0" "tc_own_fin_acked c" "tc_peer_fin c"
  using assms by (auto simp: tcp_wf_def seg_wf_def)

end

lemma tcp_start_ok:
  assumes "port \<noteq> 0" "peer \<noteq> 0" "length d \<le> TCP_BUFFER"
  shows "\<exists>c. tcp_start lp port peer isn (Some d) (length d) now = Some c \<and> tcp_wf isn d c \<and> tc_state c = TCP_SYN_SENT \<and>
    tc_rx_size c = 0 \<and> \<not> tc_peer_fin c"
proof -
  define tx where "tx = d @ drop (length d) (replicate TCP_BUFFER (0 :: u8))"
  have tx: "(if length d \<noteq> 0 then do { d' \<leftarrow> Some d; d' \<leftarrow> slice d' 0 (length d); splice (tc_tx (tcp_zero lp)) 0 d' } else Some (tc_tx (tcp_zero lp))) = Some tx"
    using assms(3) by (auto simp: tcp_zero_def tx_def slice_Some splice_Some)
  have l: "length tx = 16384" "take (length d) tx = d" using assms(3) by (simp_all add: tx_def)
  have sz: "unat (of_nat (length d) :: u32) = length d" using assms(3) by (simp add: unat_of_nat take_bit_eq_mod)
  show ?thesis
    using assms l sz unfolding tcp_start_def Let_def tx
    by (simp add: tcp_wf_def) (simp add: tcp_zero_def zero_segment_def)
qed

text \<open>C7: A transfer started with valid ports and at most 16 KiB survives every sequence of timer ticks,
  cancellations and received segments, whatever their bytes: no step reads or writes outside a segment, a
  buffer or the queue, the invariant of the connection holds after every step, and everything handed to the
  link is a segment of at most 560 bytes that is empty, carries bytes of the source at their place in the
  sequence space, or is a one-byte window probe. The link and the congestion controller are arbitrary.\<close>

theorem tcp_run_safe:
  assumes "\<And>w b. I w \<Longrightarrow> stream_segment isn d b \<Longrightarrow> \<exists>ok w'. emit w b = Some (ok, w') \<and> I w'"
    and "I w" "port \<noteq> 0" "peer \<noteq> 0" "length d \<le> TCP_BUFFER" "\<forall>e \<in> set es. event_ok e"
  shows "\<exists>c c' w'. tcp_start lp port peer isn (Some d) (length d) now = Some c \<and> tcp_run lp emit es c w = Some (c', w') \<and>
    tcp_wf isn d c' \<and> I w'"
proof -
  have l: "tcp_link emit isn d I" by (rule tcp_link.intro [OF assms(1)])
  from tcp_start_ok [OF assms(3-5)] obtain c where c: "tcp_start lp port peer isn (Some d) (length d) now = Some c" "tcp_wf isn d c" by blast
  from tcp_link.run_steps [OF l c(2) assms(2,6), of "[]" 0 lp] show ?thesis using c(1) by (auto simp: step_ok_def)
qed

text \<open>C6: End to end, against a peer that sends the stream \<open>S\<close>, cut, repeated, delayed and reordered in any
  way and with any acknowledgements: while the connection lives the receive buffer holds a prefix of \<open>S\<close>, and
  when it reaches \<open>TCP_DONE\<close> it holds exactly \<open>S\<close>, all of the source has been sent and acknowledged up to the
  own FIN, and nothing with payload is queued any more.\<close>

theorem tcp_delivers:
  assumes "\<And>w b. I w \<Longrightarrow> stream_segment isn d b \<Longrightarrow> \<exists>ok w'. emit w b = Some (ok, w') \<and> I w'"
    and "I w" "port \<noteq> 0" "peer \<noteq> 0" "length d \<le> TCP_BUFFER" "\<forall>e \<in> set es. event_ok e"
    and "length S < 2147483648" "\<forall>e \<in> set es. event_from S base e"
    and "tcp_start lp port peer isn (Some d) (length d) now = Some c" "tcp_run lp emit es c w = Some (c', w')"
  shows "(live (tc_state c') \<longrightarrow> unat (tc_rx_size c') \<le> length S \<and> take (unat (tc_rx_size c')) (tc_rx c') = take (unat (tc_rx_size c')) S) \<and>
    (tc_state c' = TCP_DONE \<longrightarrow> take (unat (tc_rx_size c')) (tc_rx c') = S \<and> unat (tc_tx_offset c') = length d \<and> tc_own_fin_acked c' \<and>
      (\<forall>s \<in> set (tc_pending c'). sg_used s \<longrightarrow> sg_length s = 0))"
proof -
  have l: "tcp_link emit isn d I" by (rule tcp_link.intro [OF assms(1)])
  from tcp_start_ok [OF assms(3-5), of lp isn now] assms(9) have c: "tcp_wf isn d c" "recv_inv S base c" by (auto simp: recv_inv_def)
  from tcp_link.run_steps [OF l c(1) assms(2,6), of S base lp] assms(7,8,10) c(2)
  have r: "tcp_wf isn d c'" "recv_inv S base c'" by (auto simp: step_ok_def)
  then show ?thesis using tcp_link.delivered [OF l r(1)] by (auto simp: recv_inv_def recv_ok_def)
qed

section \<open>A complete transfer\<close>

definition plain_larp :: "unit larp" where
  "plain_larp = \<lparr>lp_zero = (), lp_start = (\<lambda>_ _ _ _ _. ()), lp_update = (\<lambda>m _. m), lp_window = (\<lambda>_ _ n. n),
     lp_ack_window = (\<lambda>cwnd goal _ _ _ _. goal), lp_rate = (\<lambda>_. 1000000), lp_min_rtt = (\<lambda>_. 0), lp_learned = (\<lambda>m. 0), lp_set_rtt = (\<lambda>m _ _. m),
     lp_min = min, lp_max = max, lp_div = (\<lambda>a b. a div b)\<rparr>"

definition lossless :: "unit \<Rightarrow> bytes \<Rightarrow> (bool \<times> unit) option" where
  "lossless w b = Some (True, w)"

lemma lossless_output: "length payload \<le> 536 \<Longrightarrow> tcp_output lossless c seq flags payload w = Some (True, w)"
  using tcp_output_spec [of payload seq flags lossless c w] by (auto simp: lossless_def)

text \<open>One byte each way: SYN, SYN/ACK, data, data with FIN, FIN, acknowledgement of the FIN.\<close>

definition sample_start :: "unit Tcp" where
  "sample_start = the (tcp_start plain_larp 49152 7 100 (Some [65]) 1 0)"

definition syn_ack :: bytes where
  "syn_ack = [0, 7, 192, 0, 0, 0, 3, 231, 0, 0, 0, 101, 80, 18, 16, 0, 0, 0, 0, 0]"

definition data_fin :: bytes where
  "data_fin = [0, 7, 192, 0, 0, 0, 3, 232, 0, 0, 0, 102, 80, 17, 16, 0, 0, 0, 0, 0, 66]"

definition last_ack :: bytes where
  "last_ack = [0, 7, 192, 0, 0, 0, 3, 234, 0, 0, 0, 103, 80, 16, 16, 0, 0, 0, 0, 0]"

definition sample_events :: "tcp_event list" where
  "sample_events = [Tick 1, Segment syn_ack 20 2, Tick 3, Segment data_fin 21 4, Tick 10, Segment last_ack 20 11, Tick 12]"

lemmas tcp_eval = tcp_event_def tcp_tick_def tcp_input_def established_input_def handshake_def send_syn_def send_data_def
  transmit_def data_sent_def feedback_def rtt_sample_def tcp_ack_def ack_segment_def take_payload_def update_window_def acceptable_def
  oldest_def inflight_def plain_larp_def lossless_output zero_segment_def min32_def before_def Let_def

lemma slots16: "replicate 16 x = [x, x, x, x, x, x, x, x, x, x, x, x, x, x, x, x]"
  by (simp add: numeral_eq_Suc)

lemma read_simps:
  "net_read16 b i = (if i + 1 < length b then Some (push_bit 8 (ucast (b ! i)) OR ucast (b ! (i + 1))) else None)"
  by (simp add: net_read16_def rd_def)

lemma sample_start_ok: "tcp_start plain_larp 49152 7 100 (Some [65]) 1 0 = Some sample_start"
  by (simp add: sample_start_def tcp_start_def Let_def tcp_zero_def slice_def splice_def plain_larp_def)

text \<open>The connection after the first three events.\<close>

definition sample_mid :: "unit Tcp" where
  "sample_mid = (tcp_zero plain_larp)\<lparr>tc_state := TCP_ESTABLISHED, tc_local_port := 49152, tc_peer_port := 7, tc_mss := 536, tc_peer_window := 4096,
     tc_isn := 100, tc_una := 101, tc_next := 102, tc_receive_next := 1000, tc_window_seq := 999, tc_window_ack := 101, tc_tx_size := 1,
     tc_tx_offset := 1, tc_cwnd := 16, tc_srtt_us := 1, tc_rto_us := 1000000, tc_paced_packets := 1, tc_minimum_gap_us := -1, tc_next_send_us := 4,
     tc_timer_us := 3, tc_delivered_us := 3, tc_flight_us := 3, tc_last_data_us := 3,
     tc_pending := \<lparr>sg_sequence = 101, sg_offset = 0, sg_length = 1, sg_delivered = 0, sg_sent_us = 3, sg_delivered_us = 3,
        sg_flight_us = 3, sg_flags = 24, sg_retries = 0, sg_used = True, sg_app_limited = True\<rparr> # replicate 15 zero_segment,
     tc_tx := 65 # replicate 16383 0\<rparr>"

lemma slots15: "replicate 15 x = [x, x, x, x, x, x, x, x, x, x, x, x, x, x, x]"
  by (simp add: numeral_eq_Suc)

lemmas tcp_data = tcp_zero_def slice_def splice_def slots16 slots15 wr_def syn_ack_def data_fin_def last_ack_def
    read_simps net_read32_def rd_def option_loop.simps

lemma bind_weak_cong: "m = m' \<Longrightarrow> Option.bind m f = Option.bind m' f"
  by simp

lemma sample_first: "tcp_run plain_larp lossless (take 3 sample_events) sample_start () = Some (sample_mid, ())"
  by (simp add: tcp_eval sample_start_def tcp_start_def sample_mid_def sample_events_def tcp_data cong: let_weak_cong bind_weak_cong)

lemma sample_4: "tcp_event plain_larp lossless (Segment data_fin 21 4) sample_mid () = established_input plain_larp lossless sample_mid data_fin 20 1000 102 17 1 4 ()"
  by (simp add: tcp_event_def tcp_input_def sample_mid_def tcp_data Let_def cong: let_weak_cong bind_weak_cong)

definition sample_late :: "unit Tcp" where
  "sample_late = sample_mid\<lparr>tc_una := 102, tc_receive_next := 1002, tc_window_seq := 1000, tc_window_ack := 102, tc_rx_size := 1, tc_delivered := 1,
     tc_feedbacks := 1, tc_timer_us := 4, tc_delivered_us := 4, tc_peer_fin := True, tc_ack_pending := True,
     tc_pending := \<lparr>sg_sequence = 101, sg_offset = 0, sg_length = 1, sg_delivered = 0, sg_sent_us = 3, sg_delivered_us = 3,
        sg_flight_us = 3, sg_flags = 24, sg_retries = 0, sg_used = False, sg_app_limited = True\<rparr> # replicate 15 zero_segment,
     tc_rx := 66 # replicate 16383 0\<rparr>"

lemma sample_4': "established_input plain_larp lossless sample_mid data_fin 20 1000 102 17 1 4 () = Some (sample_late, ())"
  by (simp add: tcp_eval sample_late_def sample_mid_def tcp_data cong: let_weak_cong bind_weak_cong)

definition sample_closing :: "unit Tcp" where
  "sample_closing = sample_late\<lparr>tc_state := TCP_CLOSING, tc_next := 103, tc_timer_us := 10, tc_delivered_us := 10, tc_flight_us := 10,
     tc_own_fin := True, tc_ack_pending := False,
     tc_pending := \<lparr>sg_sequence = 102, sg_offset = 1, sg_length = 0, sg_delivered = 1, sg_sent_us = 10, sg_delivered_us = 10,
        sg_flight_us = 10, sg_flags = 17, sg_retries = 0, sg_used = True, sg_app_limited = True\<rparr> # replicate 15 zero_segment\<rparr>"

lemma sample_5: "tcp_event plain_larp lossless (Tick 10) sample_late () = Some (sample_closing, ())"
  by (simp add: tcp_eval sample_late_def sample_mid_def sample_closing_def tcp_data cong: let_weak_cong bind_weak_cong)

lemma sample_6: "tcp_event plain_larp lossless (Segment last_ack 20 11) sample_closing () = established_input plain_larp lossless sample_closing last_ack 20 1002 103 16 0 11 ()"
  by (simp add: tcp_event_def tcp_input_def sample_closing_def sample_late_def sample_mid_def tcp_data Let_def cong: let_weak_cong bind_weak_cong)

definition sample_acked :: "unit Tcp" where
  "sample_acked = sample_closing\<lparr>tc_una := 103, tc_window_seq := 1002, tc_window_ack := 103, tc_feedbacks := 2, tc_timer_us := 11, tc_delivered_us := 11,
     tc_own_fin_acked := True,
     tc_pending := \<lparr>sg_sequence = 102, sg_offset = 1, sg_length = 0, sg_delivered = 1, sg_sent_us = 10, sg_delivered_us = 10,
        sg_flight_us = 10, sg_flags = 17, sg_retries = 0, sg_used = False, sg_app_limited = True\<rparr> # replicate 15 zero_segment\<rparr>"

lemma sample_6': "established_input plain_larp lossless sample_closing last_ack 20 1002 103 16 0 11 () = Some (sample_acked, ())"
  by (simp add: tcp_eval sample_acked_def sample_closing_def sample_late_def sample_mid_def tcp_data cong: let_weak_cong bind_weak_cong)

lemma sample_7: "tcp_event plain_larp lossless (Tick 12) sample_acked () = Some (sample_acked\<lparr>tc_state := TCP_DONE\<rparr>, ())"
  by (simp add: tcp_eval sample_acked_def sample_closing_def sample_late_def sample_mid_def tcp_data cong: let_weak_cong bind_weak_cong)

lemma tcp_run_append: "tcp_run lp emit (xs @ ys) c w = do { (c, w) \<leftarrow> tcp_run lp emit xs c w; tcp_run lp emit ys c w }"
  by (induction xs arbitrary: c w) (auto split: Option.bind_split)

lemma sample_run: "tcp_run plain_larp lossless sample_events sample_start () = Some (sample_acked\<lparr>tc_state := TCP_DONE\<rparr>, ())"
proof -
  have "sample_events = take 3 sample_events @ [Segment data_fin 21 4, Tick 10, Segment last_ack 20 11, Tick 12]" by (simp add: sample_events_def)
  then have "tcp_run plain_larp lossless sample_events sample_start () =
      tcp_run plain_larp lossless [Segment data_fin 21 4, Tick 10, Segment last_ack 20 11, Tick 12] sample_mid ()"
    by (metis (no_types, lifting) tcp_run_append sample_first bind.bind_lunit prod.case)
  then show ?thesis by (simp add: sample_4 sample_4' sample_5 sample_6 sample_6' sample_7)
qed

lemma sample_events_ok: "\<forall>e \<in> set sample_events. event_ok e" "\<forall>e \<in> set sample_events. event_from [66] 1000 e"
  by (simp_all add: sample_events_def event_ok_def event_from_def peer_segment_def payload_from_def syn_ack_def data_fin_def last_ack_def
    read_simps net_read32_def Let_def)

lemma lossless_link: "(\<lambda>_. True) w \<Longrightarrow> stream_segment 100 [65] b \<Longrightarrow> \<exists>ok w'. lossless w b = Some (ok, w') \<and> (\<lambda>_. True) w'"
  by (intro exI [of _ True] exI [of _ w]) (simp add: lossless_def)

theorem tcp_run_safe_witness:
  "\<exists>c c' w'. tcp_start plain_larp 49152 7 100 (Some [65]) 1 0 = Some c \<and> tcp_run plain_larp lossless sample_events c () = Some (c', w') \<and> tcp_wf 100 [65] c'"
  using tcp_run_safe [of "\<lambda>_. True" 100 "[65]" lossless "()" 49152 7 sample_events plain_larp 0, OF lossless_link] sample_events_ok(1)
  by simp

theorem tcp_delivers_witness:
  "\<exists>c'. tcp_run plain_larp lossless sample_events sample_start () = Some (c', ()) \<and> tc_state c' = TCP_DONE \<and>
     take (unat (tc_rx_size c')) (tc_rx c') = [66] \<and> unat (tc_tx_offset c') = 1"
proof -
  let ?c = "sample_acked\<lparr>tc_state := TCP_DONE\<rparr>"
  have "tc_state ?c = TCP_DONE \<longrightarrow> take (unat (tc_rx_size ?c)) (tc_rx ?c) = [66] \<and> unat (tc_tx_offset ?c) = length [65 :: u8] \<and>
      tc_own_fin_acked ?c \<and> (\<forall>s \<in> set (tc_pending ?c). sg_used s \<longrightarrow> sg_length s = 0)"
    by (rule tcp_delivers [of "\<lambda>_. True" 100 "[65]" lossless "()" 49152 7 sample_events "[66]" 1000 plain_larp 0,
        OF lossless_link _ _ _ _ sample_events_ok(1) _ sample_events_ok(2) _ sample_run, THEN conjunct2])
      (simp_all add: sample_start_ok [simplified])
  then have "tc_state ?c = TCP_DONE" "take (unat (tc_rx_size ?c)) (tc_rx ?c) = [66]" "unat (tc_tx_offset ?c) = 1" by simp_all
  then show ?thesis using sample_run by blast
qed

text \<open>
  The window probe is one byte at \<^verbatim>\<open>c->next - 1\<close>. Before the own FIN this repeats a byte already sent; after it, the
  number is the FIN's, so the probe offers the peer a byte of payload where the stream ends.
\<close>

lemma probe_after_fin:
  assumes "tcp_wf isn data c" "tc_state c = TCP_CLOSING" "tc_own_fin c" "data \<noteq> []"
  shows "\<exists>b. segment_of (isn + 1 + of_nat (length data)) TCP_ACK [last data] b \<and>
    send_probe (\<lambda>w b. Some (True, w @ [b])) c now w = Some (c\<lparr>tc_probe_us := now\<rparr>, w @ [b])"
proof -
  have wf: "tc_next c = isn + 1 + tc_tx_offset c + 1" "unat (tc_tx_offset c) = length data" "take (length data) (tc_tx c) = data" "length (tc_tx c) = 16384"
    using assms by (auto simp: tcp_wf_def)
  have n0: "tc_tx_offset c \<noteq> 0" using wf(2) assms(4) by auto
  have "unat (tc_tx_offset c - 1) = length data - 1" using n0 wf(2) by (simp add: unat_minus_one)
  moreover have "length data \<le> 16384" using wf(3,4) by (metis length_take min.cobounded1)
  moreover have "tc_tx c ! (length data - 1) = last data"
    using assms(4) wf(3) by (metis diff_less last_conv_nth length_greater_0_conv nth_take zero_less_one)
  ultimately have b: "rd (tc_tx c) (unat (tc_tx_offset c - 1)) = Some (last data)" using wf(4) assms(4) by (simp add: rd_def)
  have o: "tc_tx_offset c = of_nat (length data)" using wf(2) unfolding wf(2) [symmetric] by simp
  have e: "(if tc_tx_offset c \<noteq> 0 then rd (tc_tx c) (unat (tc_tx_offset c - 1)) else Some 0) = Some (last data)"
    unfolding b using n0 by simp
  obtain b' where b': "segment_of (tc_next c - 1) TCP_ACK [last data] b'"
    "tcp_output (\<lambda>w b. Some (True, w @ [b])) c (tc_next c - 1) TCP_ACK [last data] w = Some (True, w @ [b'])"
    using tcp_output_spec [of "[last data]" "tc_next c - 1" TCP_ACK "\<lambda>w b. Some (True, w @ [b])" c w] by auto
  have "send_probe (\<lambda>w b. Some (True, w @ [b])) c now w = Some (c\<lparr>tc_probe_us := now\<rparr>, w @ [b'])"
    unfolding send_probe_def e by (simp add: b'(2))
  then show ?thesis using b'(1) wf(1) o by (auto simp: add_ac)
qed

end
