(* ===== verification/Bpf_Vm.thy ===== *)
theory Bpf_Vm
  imports Kernel_Prelude
begin

text \<open>
  The eBPF interpreter of \<^verbatim>\<open>src/jordyOS/net/bpf_vm.c\<close>: the structural validator, the checked memory
  map, the map-lookup helper, the shift-and-subtract division and the fuelled dispatch loop. An
  outer \<open>None\<close> is an access outside a C object (undefined behaviour); the interpreter's own
  failures are values.
\<close>

section \<open>Instructions, maps and environment\<close>

record BpfInsn =
  i_code :: u8
  i_regs :: u8
  i_offset :: u16 \<comment> \<open>\<^verbatim>\<open>int16_t\<close>, read with \<open>sint\<close>\<close>
  i_immediate :: u32 \<comment> \<open>\<^verbatim>\<open>int32_t\<close>, read with \<open>sint\<close>\<close>

abbreviation (input) BPF_MAX_INSNS :: nat where "BPF_MAX_INSNS \<equiv> 4096"
abbreviation (input) BPF_FUEL :: nat where "BPF_FUEL \<equiv> 65536"
abbreviation (input) BPF_MAPS :: nat where "BPF_MAPS \<equiv> 7"
abbreviation (input) BPF_CTX :: u64 where "BPF_CTX \<equiv> 0x10000000"
abbreviation (input) BPF_DATA :: u64 where "BPF_DATA \<equiv> 0x20000000"
abbreviation (input) BPF_STACK :: u64 where "BPF_STACK \<equiv> 0x30000000"
abbreviation (input) BPF_VALUES :: u64 where "BPF_VALUES \<equiv> 0x40000000"
abbreviation (input) BPF_HANDLES :: u64 where "BPF_HANDLES \<equiv> 0x80000000"
abbreviation (input) BPF_ARRAY :: u32 where "BPF_ARRAY \<equiv> 2"
abbreviation (input) BPF_PERCPU_ARRAY :: u32 where "BPF_PERCPU_ARRAY \<equiv> 6"
abbreviation (input) BPF_LPM :: u32 where "BPF_LPM \<equiv> 11"
abbreviation (input) BPF_MAP_ARRAY :: u32 where "BPF_MAP_ARRAY \<equiv> 12"

record BpfMap =
  m_type :: u32
  m_key_size :: u32
  m_value_size :: u32
  m_capacity :: u32
  m_entries :: u32
  m_values :: "bytes option" \<comment> \<open>\<open>None\<close> is the null pointer\<close>
  m_keys :: "bytes option"
  m_writable :: bool

record BpfEnvironment =
  e_context :: bytes
  e_packet :: bytes
  e_context_size :: u32
  e_packet_size :: u32
  e_maps :: "BpfMap list"

record BpfResult =
  r_ok :: bool
  r_value :: u64
  r_steps :: nat

section \<open>The validator\<close>

text \<open>The code array and its element count are one list.\<close>

definition target :: "BpfInsn list \<Rightarrow> nat \<Rightarrow> u16 \<Rightarrow> bool option" where
  "target code pc offset =
     (let nxt = int pc + 1 + sint offset in
      if 0 \<le> nxt \<and> nat nxt < length code
      then do { t \<leftarrow> rd code (nat nxt); Some (i_code t \<noteq> 0) } else Some False)"

abbreviation dst :: "BpfInsn \<Rightarrow> u8" where "dst i \<equiv> i_regs i AND 15"
abbreviation src :: "BpfInsn \<Rightarrow> u8" where "src i \<equiv> drop_bit 4 (i_regs i)"
abbreviation cls :: "BpfInsn \<Rightarrow> u8" where "cls i \<equiv> i_code i AND 7"
abbreviation opc :: "BpfInsn \<Rightarrow> u8" where "opc i \<equiv> i_code i AND 0xf0"
abbreviation reg_operand :: "BpfInsn \<Rightarrow> bool" where "reg_operand i \<equiv> i_code i AND 8 \<noteq> 0"

definition alu_ok :: "BpfInsn \<Rightarrow> bool" where
  "alu_ok i =
     (if dst i = 10 \<or> i_offset i \<noteq> 0 then False
      else if opc i = 0xd0 then
        \<not> (cls i \<noteq> 4 \<or> src i \<noteq> 0 \<or> (i_immediate i \<noteq> 16 \<and> i_immediate i \<noteq> 32 \<and> i_immediate i \<noteq> 64))
      else if opc i > 0xc0 \<or> (opc i = 0x80 \<and> reg_operand i) then False
      else if (if reg_operand i then i_immediate i \<noteq> 0 else src i \<noteq> 0) then False
      else \<not> (opc i = 0x80 \<and> i_immediate i \<noteq> 0))"

definition mem_ok :: "BpfInsn \<Rightarrow> bool" where
  "mem_ok i =
     (if i_code i AND 0xe0 \<noteq> 0x60 then False
      else if cls i = 1 \<and> (dst i = 10 \<or> i_immediate i \<noteq> 0) then False
      else if cls i = 2 \<and> src i \<noteq> 0 then False
      else \<not> (cls i = 3 \<and> i_immediate i \<noteq> 0))"

text \<open>A jump-class check returns the new value of the \<^verbatim>\<open>exit\<close> flag, or \<open>None\<close> to reject.\<close>

definition jmp_ok :: "BpfInsn list \<Rightarrow> nat \<Rightarrow> BpfInsn \<Rightarrow> bool \<Rightarrow> bool option option" where
  "jmp_ok code pc i ex =
     (if opc i = 0x80 then
        Some (if i_code i \<noteq> 0x85 \<or> i_regs i \<noteq> 0 \<or> i_offset i \<noteq> 0 \<or> i_immediate i \<noteq> 1 then None else Some ex)
      else if opc i = 0x90 then
        Some (if i_code i \<noteq> 0x95 \<or> i_regs i \<noteq> 0 \<or> i_offset i \<noteq> 0 \<or> i_immediate i \<noteq> 0 then None else Some True)
      else if opc i > 0xd0 \<or> opc i = 0xe0 \<or> opc i = 0xf0 then Some None
      else if opc i = 0 \<and> (i_code i \<noteq> 0x05 \<or> i_regs i \<noteq> 0 \<or> i_immediate i \<noteq> 0) then Some None
      else if opc i \<noteq> 0 \<and> (if reg_operand i then i_immediate i \<noteq> 0 else src i \<noteq> 0) then Some None
      else do { t \<leftarrow> target code pc (i_offset i); Some (if t then Some ex else None) })"

text \<open>
  One iteration of the loop: \<open>Some None\<close> rejects, \<open>Some (Some (skip, exit))\<close> accepts with the extra
  increment of \<^verbatim>\<open>pc\<close> made by a wide immediate and the \<^verbatim>\<open>exit\<close> flag after the instruction.
\<close>

definition check_insn :: "BpfInsn list \<Rightarrow> nat \<Rightarrow> bool \<Rightarrow> (nat \<times> bool) option option" where
  "check_insn code pc ex = do {
     i \<leftarrow> rd code pc;
     if dst i > 10 \<or> src i > 10 then Some None
     else if i_code i = 0x18 then
       if dst i = 10 \<or> i_offset i \<noteq> 0 \<or> src i > 1 \<or> pc + 1 \<ge> length code then Some None
       else do {
         hi \<leftarrow> rd code (pc + 1);
         if i_code hi \<noteq> 0 \<or> i_regs hi \<noteq> 0 \<or> i_offset hi \<noteq> 0 then Some None
         else if src i \<noteq> 0 \<and> (sint (i_immediate i) < 0 \<or> sint (i_immediate i) \<ge> int BPF_MAPS
           \<or> i_immediate hi \<noteq> 0) then Some None
         else Some (Some (1, ex)) }
     else if cls i = 4 \<or> cls i = 7 then Some (if alu_ok i then Some (0, ex) else None)
     else if cls i = 1 \<or> cls i = 2 \<or> cls i = 3 then Some (if mem_ok i then Some (0, ex) else None)
     else if cls i = 5 \<or> cls i = 6 then do { e \<leftarrow> jmp_ok code pc i ex; Some (map_option (Pair 0) e) }
     else Some None }"

function validate_loop :: "BpfInsn list \<Rightarrow> nat \<Rightarrow> bool \<Rightarrow> bool option" where
  "validate_loop code pc ex =
     (if pc < length code then do {
        v \<leftarrow> check_insn code pc ex;
        (case v of None \<Rightarrow> Some False | Some (skip, ex) \<Rightarrow> validate_loop code (pc + skip + 1) ex) }
      else Some ex)"
  by pat_completeness auto
termination
  by (relation "measure (\<lambda>(code, pc, ex). length code - pc)") auto

declare validate_loop.simps [simp del]

definition bpf_validate :: "BpfInsn list \<Rightarrow> bool option" where
  "bpf_validate code =
     (if length code = 0 \<or> length code > BPF_MAX_INSNS then Some False else validate_loop code 0 False)"

section \<open>Checked memory\<close>

function read_le_loop :: "bytes \<Rightarrow> nat \<Rightarrow> nat \<Rightarrow> nat \<Rightarrow> u64 \<Rightarrow> u64 option" where
  "read_le_loop p off i sz n =
     (if i < sz then do { b \<leftarrow> rd p (off + i); read_le_loop p off (i + 1) sz (n OR push_bit (i * 8) (ucast b)) }
      else Some n)"
  by pat_completeness auto
termination
  by (relation "measure (\<lambda>(p, off, i, sz, n). sz - i)") auto

declare read_le_loop.simps [simp del]

definition read_le :: "bytes \<Rightarrow> nat \<Rightarrow> nat \<Rightarrow> u64 option" where
  "read_le p off sz = read_le_loop p off 0 sz 0"

text \<open>A host pointer is the object it points into and an offset there.\<close>

datatype bpf_ptr = InStack nat | InContext nat | InPacket nat | InMap nat nat

text \<open>The window of the map values, 1 MiB per map and 256 bytes per cell.\<close>

definition map_memory :: "BpfEnvironment \<Rightarrow> u64 \<Rightarrow> u32 \<Rightarrow> bool \<Rightarrow> bpf_ptr option option" where
  "map_memory e address sz wrt =
     (if address < BPF_VALUES \<or> address \<ge> BPF_VALUES + 7 * 0x100000 then Some None
      else
        let rel = ucast (address - BPF_VALUES) :: u32;
            ident = drop_bit 20 rel; offset = rel AND 0xfffff;
            index = drop_bit 8 offset; within = offset AND 255
        in do {
          m \<leftarrow> rd (e_maps e) (unat ident);
          if m_values m = None \<or> m_value_size m > 256 \<or> index \<ge> m_capacity m \<or>
             within > m_value_size m \<or> sz > m_value_size m - within \<or> (wrt \<and> \<not> m_writable m)
          then Some None
          else Some (Some (InMap (unat ident) (unat (index * m_value_size m) + unat within))) })"

definition memory :: "BpfEnvironment \<Rightarrow> u64 \<Rightarrow> u32 \<Rightarrow> bool \<Rightarrow> bpf_ptr option option" where
  "memory e address sz wrt =
     (if address \<ge> BPF_STACK \<and> address - BPF_STACK \<le> 512 \<and> ucast sz \<le> 512 - (address - BPF_STACK)
      then Some (Some (InStack (unat (address - BPF_STACK))))
      else if \<not> wrt \<and> address \<ge> BPF_CTX \<and> address - BPF_CTX \<le> ucast (e_context_size e) \<and>
        ucast sz \<le> ucast (e_context_size e) - (address - BPF_CTX)
      then Some (Some (InContext (unat (address - BPF_CTX))))
      else if \<not> wrt \<and> address \<ge> BPF_DATA \<and> address - BPF_DATA \<le> ucast (e_packet_size e) \<and>
        ucast sz \<le> ucast (e_packet_size e) - (address - BPF_DATA)
      then Some (Some (InPacket (unat (address - BPF_DATA))))
      else map_memory e address sz wrt)"

definition ptr_read :: "BpfEnvironment \<Rightarrow> bytes \<Rightarrow> bpf_ptr \<Rightarrow> nat \<Rightarrow> u64 option" where
  "ptr_read e stack p sz = (case p of
       InStack off \<Rightarrow> read_le stack off sz
     | InContext off \<Rightarrow> read_le (e_context e) off sz
     | InPacket off \<Rightarrow> read_le (e_packet e) off sz
     | InMap k off \<Rightarrow> do { m \<leftarrow> rd (e_maps e) k; v \<leftarrow> m_values m; read_le v off sz })"

definition ptr_byte :: "BpfEnvironment \<Rightarrow> bytes \<Rightarrow> bpf_ptr \<Rightarrow> nat \<Rightarrow> u8 option" where
  "ptr_byte e stack p i = (case p of
       InStack off \<Rightarrow> rd stack (off + i)
     | InContext off \<Rightarrow> rd (e_context e) (off + i)
     | InPacket off \<Rightarrow> rd (e_packet e) (off + i)
     | InMap k off \<Rightarrow> do { m \<leftarrow> rd (e_maps e) k; v \<leftarrow> m_values m; rd v (off + i) })"

function store_loop :: "bytes \<Rightarrow> nat \<Rightarrow> nat \<Rightarrow> nat \<Rightarrow> u64 \<Rightarrow> bytes option" where
  "store_loop p off byte sz v =
     (if byte < sz then do { p \<leftarrow> wr p (off + byte) (ucast (drop_bit (byte * 8) v)); store_loop p off (byte + 1) sz v }
      else Some p)"
  by pat_completeness auto
termination
  by (relation "measure (\<lambda>(p, off, byte, sz, v). sz - byte)") auto

declare store_loop.simps [simp del]

text \<open>A store goes through a pointer the memory check granted for writing.\<close>

definition ptr_write :: "BpfEnvironment \<Rightarrow> bytes \<Rightarrow> bpf_ptr \<Rightarrow> nat \<Rightarrow> u64 \<Rightarrow> (BpfEnvironment \<times> bytes) option" where
  "ptr_write e stack p sz v = (case p of
       InStack off \<Rightarrow> do { s \<leftarrow> store_loop stack off 0 sz v; Some (e, s) }
     | InContext off \<Rightarrow> do { b \<leftarrow> store_loop (e_context e) off 0 sz v; Some (e\<lparr>e_context := b\<rparr>, stack) }
     | InPacket off \<Rightarrow> do { b \<leftarrow> store_loop (e_packet e) off 0 sz v; Some (e\<lparr>e_packet := b\<rparr>, stack) }
     | InMap k off \<Rightarrow> do {
         m \<leftarrow> rd (e_maps e) k; vals \<leftarrow> m_values m; b \<leftarrow> store_loop vals off 0 sz v;
         Some (e\<lparr>e_maps := (e_maps e)[k := m\<lparr>m_values := Some b\<rparr>]\<rparr>, stack) })"

section \<open>The lookup helper\<close>

text \<open>\<open>prefix_match\<close> is the inner loop over the \<open>bits\<close> leading bits of the key.\<close>

function prefix_match :: "BpfEnvironment \<Rightarrow> bytes \<Rightarrow> bpf_ptr \<Rightarrow> bytes \<Rightarrow> nat \<Rightarrow> nat \<Rightarrow> nat \<Rightarrow> bool option" where
  "prefix_match e stack key keys prefix b bits =
     (if b < bits then do {
        x \<leftarrow> ptr_byte e stack key (4 + b div 8); y \<leftarrow> rd keys (prefix + (4 + b div 8));
        if (x XOR y) AND drop_bit (b mod 8) 0x80 \<noteq> 0 then Some False
        else prefix_match e stack key keys prefix (b + 1) bits }
      else Some True)"
  by pat_completeness auto
termination
  by (relation "measure (\<lambda>(e, stack, key, keys, prefix, b, bits). bits - b)") auto

declare prefix_match.simps [simp del]

text \<open>The scan of the prefixes keeps the best index so far (\<open>-1\<close> is none) and its length.\<close>

function lpm_scan :: "BpfEnvironment \<Rightarrow> bytes \<Rightarrow> bpf_ptr \<Rightarrow> bytes \<Rightarrow> u32 \<Rightarrow> nat \<Rightarrow> nat \<Rightarrow> int \<Rightarrow> u32 \<Rightarrow> int option" where
  "lpm_scan e stack key keys index i entries best best_bits =
     (if i < entries then do {
        bits64 \<leftarrow> read_le keys (i * 20) 4;
        let bits = ucast bits64 in
        if bits > index \<or> bits > 128 \<or> (best \<ge> 0 \<and> bits \<le> best_bits)
        then lpm_scan e stack key keys index (i + 1) entries best best_bits
        else do {
          matched \<leftarrow> prefix_match e stack key keys (i * 20) 0 (unat bits);
          if matched then lpm_scan e stack key keys index (i + 1) entries (int i) bits
          else lpm_scan e stack key keys index (i + 1) entries best best_bits } }
      else Some best)"
  by pat_completeness auto
termination
  by (relation "measure (\<lambda>(e, stack, key, keys, index, i, entries, best, best_bits). entries - i)") auto

declare lpm_scan.simps [simp del]

text \<open>The common tail of the helper: the array cell, or the inner map of a map of maps.\<close>

definition lookup_cell :: "BpfMap \<Rightarrow> u64 \<Rightarrow> u32 \<Rightarrow> u64 option option" where
  "lookup_cell m ident index =
     (if index \<ge> m_capacity m then Some (Some 0)
      else if m_type m = BPF_MAP_ARRAY then
        (if m_value_size m \<noteq> 4 then Some None
         else do {
           vals \<leftarrow> m_values m; w \<leftarrow> read_le vals (unat (index * 4)) 4;
           let inner = ucast w :: u32 in
           Some (if inner \<ge> 7 then None else Some (BPF_HANDLES + ucast inner)) })
      else Some (Some (BPF_VALUES + ident * 0x100000 + ucast (index * 256))))"

text \<open>\<open>Some (Some v)\<close> is \<^verbatim>\<open>true\<close> with the result \<open>v\<close>, \<open>Some None\<close> is \<^verbatim>\<open>false\<close>.\<close>

definition lookup :: "BpfEnvironment \<Rightarrow> bytes \<Rightarrow> u64 \<Rightarrow> u64 \<Rightarrow> u64 option option" where
  "lookup e stack handle key_address =
     (if handle < BPF_HANDLES \<or> handle \<ge> BPF_HANDLES + 7 then Some None
      else let ident = handle - BPF_HANDLES in do {
        m \<leftarrow> rd (e_maps e) (unat ident);
        if m_values m = None \<or> m_value_size m = 0 \<or> m_value_size m > 256 \<or> m_capacity m > 4096 \<or>
          (m_key_size m \<noteq> 4 \<and> m_key_size m \<noteq> 20) then Some None
        else do {
          p \<leftarrow> memory e key_address (m_key_size m) False;
          (case p of None \<Rightarrow> Some None
           | Some key \<Rightarrow> do {
               w \<leftarrow> ptr_read e stack key 4;
               let index = ucast w :: u32 in
               if m_type m = BPF_LPM then
                 (if m_key_size m \<noteq> 20 \<or> m_keys m = None \<or> index > 128 \<or> m_entries m > m_capacity m
                  then Some None
                  else do {
                    keys \<leftarrow> m_keys m;
                    best \<leftarrow> lpm_scan e stack key keys index 0 (unat (m_entries m)) (-1) 0;
                    if best < 0 then Some (Some 0) else lookup_cell m ident (of_int best) })
               else if m_type m \<noteq> BPF_ARRAY \<and> m_type m \<noteq> BPF_PERCPU_ARRAY \<and> m_type m \<noteq> BPF_MAP_ARRAY
               then Some None
               else lookup_cell m ident index }) } })"

section \<open>Division\<close>

primrec divide_loop :: "nat \<Rightarrow> u64 \<Rightarrow> u64 \<Rightarrow> u64 \<Rightarrow> u64 \<Rightarrow> u64 \<times> u64" where
  "divide_loop 0 n d q r = (q, r)"
| "divide_loop (Suc i) n d q r =
     (let high = drop_bit 63 r \<noteq> 0; r = push_bit 1 r OR (drop_bit i n AND 1) in
      if high \<or> r \<ge> d then divide_loop i n d (q OR push_bit i 1) (r - d)
      else divide_loop i n d q r)"

definition divide :: "u64 \<Rightarrow> u64 \<Rightarrow> bool \<Rightarrow> u64" where
  "divide n d remainder =
     (if d = 0 then (if remainder then n else 0)
      else case divide_loop 64 n d 0 0 of (q, r) \<Rightarrow> if remainder then r else q)"

section \<open>Execution\<close>

record bpf_state =
  s_regs :: "u64 list" \<comment> \<open>\<^verbatim>\<open>r[11]\<close>\<close>
  s_stack :: bytes \<comment> \<open>\<^verbatim>\<open>stack[512]\<close>\<close>
  s_env :: BpfEnvironment
  s_pc :: nat

text \<open>Every \<^verbatim>\<open>return result\<close> of the dispatch loop is a failure; the label says which check it is.\<close>

datatype bpf_failure = BadInsn | BadAccess | BadLookup | BadJump

datatype bpf_outcome = Continue bpf_state | Exit u64 | Failure bpf_failure

abbreviation sext32 :: "u32 \<Rightarrow> u64" where "sext32 w \<equiv> scast w"

definition trunc32 :: "u64 \<Rightarrow> u64" where
  "trunc32 w = ucast (ucast w :: u32)"

definition set_reg :: "bpf_state \<Rightarrow> u8 \<Rightarrow> u64 \<Rightarrow> bpf_state option" where
  "set_reg st d v = do { r \<leftarrow> wr (s_regs st) (unat d) v; Some (st\<lparr>s_regs := r\<rparr>) }"

definition alu_op :: "bool \<Rightarrow> u8 \<Rightarrow> u64 \<Rightarrow> u64 \<Rightarrow> u64 option" where
  "alu_op wide oper a b =
     (let shift = (if wide then unat (b AND 63) else unat (b AND 31)) in
      if oper = 0x00 then Some (a + b) else if oper = 0x10 then Some (a - b)
      else if oper = 0x20 then Some (a * b) else if oper = 0x30 then Some (divide a b False)
      else if oper = 0x40 then Some (a OR b) else if oper = 0x50 then Some (a AND b)
      else if oper = 0x60 then Some (push_bit shift a) else if oper = 0x70 then Some (drop_bit shift a)
      else if oper = 0x80 then Some (0 - a) else if oper = 0x90 then Some (divide a b True)
      else if oper = 0xa0 then Some (a XOR b) else if oper = 0xb0 then Some b
      else if oper = 0xc0 then
        Some (if wide then signed_drop_bit shift a else ucast (signed_drop_bit shift (ucast a :: u32)))
      else None)"

primrec swap_bytes :: "nat \<Rightarrow> u64 \<Rightarrow> u64 \<Rightarrow> u64" where
  "swap_bytes 0 a swapped = swapped"
| "swap_bytes (Suc k) a swapped = swap_bytes k (drop_bit 8 a) (push_bit 8 swapped OR (a AND 255))"

definition byte_order :: "BpfInsn \<Rightarrow> u64 \<Rightarrow> u64" where
  "byte_order i a =
     (let bits = unat (i_immediate i); a = (if bits < 64 then a AND (push_bit bits 1 - 1) else a) in
      if reg_operand i then swap_bytes (bits div 8) a 0 else a)"

definition step_alu :: "bpf_state \<Rightarrow> BpfInsn \<Rightarrow> bpf_outcome option" where
  "step_alu st i =
     (if dst i = 10 then Some (Failure BadInsn)
      else let wide = (cls i = 7) in do {
        rd_val \<leftarrow> rd (s_regs st) (unat (dst i));
        rs_val \<leftarrow> (if reg_operand i then rd (s_regs st) (unat (src i)) else Some (sext32 (i_immediate i)));
        if opc i = 0xd0 then
          if wide \<or> (i_immediate i \<noteq> 16 \<and> i_immediate i \<noteq> 32 \<and> i_immediate i \<noteq> 64)
          then Some (Failure BadInsn)
          else do { st \<leftarrow> set_reg st (dst i) (byte_order i rd_val); Some (Continue st) }
        else (case alu_op wide (opc i) (if wide then rd_val else trunc32 rd_val)
                (if wide then rs_val else trunc32 rs_val) of
            None \<Rightarrow> Some (Failure BadInsn)
          | Some a \<Rightarrow> do { st \<leftarrow> set_reg st (dst i) (if wide then a else trunc32 a); Some (Continue st) }) })"

definition access_size :: "BpfInsn \<Rightarrow> nat" where
  "access_size i = (if i_code i AND 0x18 = 0 then 4 else if i_code i AND 0x18 = 8 then 2
     else if i_code i AND 0x18 = 16 then 1 else 8)"

definition step_mem :: "bpf_state \<Rightarrow> BpfInsn \<Rightarrow> bpf_outcome option" where
  "step_mem st i =
     (if i_code i AND 0xe0 \<noteq> 0x60 \<or> (cls i = 1 \<and> dst i = 10) then Some (Failure BadInsn)
      else do {
        base \<leftarrow> rd (s_regs st) (unat (if cls i = 1 then src i else dst i));
        p \<leftarrow> memory (s_env st) (base + scast (i_offset i)) (of_nat (access_size i)) (cls i \<noteq> 1);
        (case p of None \<Rightarrow> Some (Failure BadAccess)
         | Some p \<Rightarrow>
             if cls i = 1 then do {
               v \<leftarrow> ptr_read (s_env st) (s_stack st) p (access_size i);
               st \<leftarrow> set_reg st (dst i) v; Some (Continue st) }
             else do {
               v \<leftarrow> (if cls i = 3 then rd (s_regs st) (unat (src i)) else Some (sext32 (i_immediate i)));
               (e, stack) \<leftarrow> ptr_write (s_env st) (s_stack st) p (access_size i) v;
               Some (Continue (st\<lparr>s_env := e, s_stack := stack\<rparr>)) }) })"

definition jump_taken :: "BpfInsn \<Rightarrow> u64 \<Rightarrow> u64 \<Rightarrow> bool option" where
  "jump_taken i a b =
     (let (a, b, sa, sb) =
        (if cls i = 6 then (trunc32 a, trunc32 b, sint (ucast a :: u32), sint (ucast b :: u32))
         else (a, b, sint a, sint b)) in
      if opc i = 0x00 then Some True else if opc i = 0x10 then Some (a = b)
      else if opc i = 0x20 then Some (a > b) else if opc i = 0x30 then Some (a \<ge> b)
      else if opc i = 0x40 then Some (a AND b \<noteq> 0) else if opc i = 0x50 then Some (a \<noteq> b)
      else if opc i = 0x60 then Some (sa > sb) else if opc i = 0x70 then Some (sa \<ge> sb)
      else if opc i = 0xa0 then Some (a < b) else if opc i = 0xb0 then Some (a \<le> b)
      else if opc i = 0xc0 then Some (sa < sb) else if opc i = 0xd0 then Some (sa \<le> sb)
      else None)"

definition step_call :: "bpf_state \<Rightarrow> BpfInsn \<Rightarrow> bpf_outcome option" where
  "step_call st i =
     (if i_immediate i \<noteq> 1 then Some (Failure BadInsn)
      else do {
        handle \<leftarrow> rd (s_regs st) 1; key \<leftarrow> rd (s_regs st) 2;
        v \<leftarrow> lookup (s_env st) (s_stack st) handle key;
        (case v of None \<Rightarrow> Some (Failure BadLookup)
         | Some v \<Rightarrow> do {
             r \<leftarrow> wr (s_regs st) 0 v; r \<leftarrow> wr r 1 0; r \<leftarrow> wr r 2 0; r \<leftarrow> wr r 3 0; r \<leftarrow> wr r 4 0; r \<leftarrow> wr r 5 0;
             Some (Continue (st\<lparr>s_regs := r\<rparr>)) }) })"

text \<open>In the jump classes \<open>s_pc\<close> is already past the instruction, as in the source.\<close>

definition step_jmp :: "BpfInsn list \<Rightarrow> bpf_state \<Rightarrow> BpfInsn \<Rightarrow> bpf_outcome option" where
  "step_jmp code st i =
     (if i_code i = 0x95 then do { v \<leftarrow> rd (s_regs st) 0; Some (Exit v) }
      else if i_code i = 0x85 then step_call st i
      else do {
        a \<leftarrow> rd (s_regs st) (unat (dst i));
        b \<leftarrow> (if reg_operand i then rd (s_regs st) (unat (src i)) else Some (sext32 (i_immediate i)));
        (case jump_taken i a b of
            None \<Rightarrow> Some (Failure BadInsn)
          | Some False \<Rightarrow> Some (Continue st)
          | Some True \<Rightarrow>
              let nxt = int (s_pc st) + sint (i_offset i) in
              if nxt < 0 \<or> nat nxt \<ge> length code then Some (Failure BadJump)
              else do { t \<leftarrow> rd code (nat nxt);
                if i_code t = 0 then Some (Failure BadJump)
                else Some (Continue (st\<lparr>s_pc := nat nxt\<rparr>)) }) })"

definition step_lddw :: "BpfInsn list \<Rightarrow> bpf_state \<Rightarrow> BpfInsn \<Rightarrow> bpf_outcome option" where
  "step_lddw code st i =
     (if s_pc st \<ge> length code \<or> dst i = 10 \<or> src i > 1 then Some (Failure BadInsn)
      else do {
        hi \<leftarrow> rd code (s_pc st);
        let v = ucast (i_immediate i) OR push_bit 32 (ucast (i_immediate hi));
            st = st\<lparr>s_pc := s_pc st + 1\<rparr>
        in if src i \<noteq> 0 then
             if v \<ge> 7 then Some (Failure BadInsn)
             else do { st \<leftarrow> set_reg st (dst i) (v + BPF_HANDLES); Some (Continue st) }
           else do { st \<leftarrow> set_reg st (dst i) v; Some (Continue st) } })"

text \<open>One iteration of the loop body, the loop guard \<open>s_pc st < length code\<close> having been checked.\<close>

definition bpf_step :: "BpfInsn list \<Rightarrow> bpf_state \<Rightarrow> bpf_outcome option" where
  "bpf_step code st = do {
     i \<leftarrow> rd code (s_pc st);
     let st = st\<lparr>s_pc := s_pc st + 1\<rparr> in
     if dst i > 10 \<or> src i > 10 then Some (Failure BadInsn)
     else if i_code i = 0x18 then step_lddw code st i
     else if cls i = 4 \<or> cls i = 7 then step_alu st i
     else if cls i = 1 \<or> cls i = 2 \<or> cls i = 3 then step_mem st i
     else if cls i = 5 \<or> cls i = 6 then step_jmp code st i
     else Some (Failure BadInsn) }"

function bpf_loop :: "BpfInsn list \<Rightarrow> bpf_state \<Rightarrow> nat \<Rightarrow> (BpfResult \<times> BpfEnvironment) option" where
  "bpf_loop code st steps =
     (if s_pc st < length code \<and> steps < BPF_FUEL then do {
        out \<leftarrow> bpf_step code st;
        (case out of
            Continue st' \<Rightarrow> bpf_loop code st' (steps + 1)
          | Exit v \<Rightarrow> Some (\<lparr>r_ok = True, r_value = v, r_steps = steps + 1\<rparr>, s_env st)
          | Failure f \<Rightarrow> Some (\<lparr>r_ok = False, r_value = 0, r_steps = steps + 1\<rparr>, s_env st)) }
      else Some (\<lparr>r_ok = False, r_value = 0, r_steps = steps\<rparr>, s_env st))"
  by pat_completeness auto
termination
  by (relation "measure (\<lambda>(code, st, steps). BPF_FUEL - steps)") auto

declare bpf_loop.simps [simp del]

definition bpf_initial :: "BpfEnvironment \<Rightarrow> bpf_state" where
  "bpf_initial e =
     \<lparr>s_regs = (replicate 11 0)[1 := BPF_CTX, 10 := BPF_STACK + 512], s_stack = replicate 512 0,
      s_env = e, s_pc = 0\<rparr>"

definition bpf_execute :: "BpfInsn list \<Rightarrow> BpfEnvironment \<Rightarrow> (BpfResult \<times> BpfEnvironment) option" where
  "bpf_execute code e =
     (if length code = 0 \<or> length code > BPF_MAX_INSNS
      then Some (\<lparr>r_ok = False, r_value = 0, r_steps = 0\<rparr>, e)
      else bpf_loop code (bpf_initial e) 0)"

end
