(* ===== verification/Bpf_Safety.thy ===== *)
theory Bpf_Safety
  imports Bpf_Vm
begin

text \<open>
  Memory safety and termination of the eBPF interpreter: on a well-formed environment every program,
  validated or not, runs inside its objects, changes nothing but the writable map values, keeps the
  frame pointer, and stops within the fuel. The shift-and-subtract division is division.
\<close>

section \<open>Division\<close>

lemma shift_in_unat:
  "unat (push_bit 1 r OR (drop_bit i n AND 1)) = (2 * unat r + (unat n div 2 ^ i) mod 2) mod 2 ^ 64"
  for r n :: u64
proof -
  have "push_bit 1 r OR (drop_bit i n AND 1) = push_bit 1 r + (drop_bit i n AND 1)"
    by (rule disjunctive_add [symmetric]) (simp only: bit_push_bit_iff bit_and_iff bit_1_iff, simp)
  moreover have "unat (drop_bit i n AND 1) = (unat n div 2 ^ i) mod 2"
    using unat_and_mask [of "drop_bit i n" 1] by (simp add: unat_drop_bit_div)
  moreover have "unat (push_bit 1 r) = (2 * unat r) mod 2 ^ 64"
    by (simp add: push_bit_eq_mult unat_word_ariths mult.commute)
  ultimately show ?thesis by (simp add: unat_word_ariths mod_simps)
qed

lemma high_bit_unat: "drop_bit 63 r \<noteq> 0 \<longleftrightarrow> 2 ^ 63 \<le> unat r" for r :: u64
  using unat_drop_bit_div [of 63 r] by (auto simp: unat_eq_zero [symmetric] div_eq_0_iff)

lemma unat_power_2: "i < LENGTH('a) \<Longrightarrow> unat (2 ^ i :: 'a::len word) = 2 ^ i"
proof -
  assume "i < LENGTH('a)"
  then have "(2 :: nat) ^ i < 2 ^ LENGTH('a)" by simp
  then have "unat (of_nat (2 ^ i) :: 'a word) = 2 ^ i"
    by (simp add: unsigned_of_nat take_bit_eq_mod del: of_nat_power)
  then show ?thesis by simp
qed

lemma set_low_bit_unat:
  fixes q :: u64
  assumes "i < 64" "2 ^ Suc i dvd unat q"
  shows "unat (q OR push_bit i 1) = unat q + 2 ^ i"
proof -
  obtain k where k: "unat q = 2 ^ Suc i * k" using assms(2) by (auto elim: dvdE)
  have nb: "\<not> bit q i"
  proof -
    have "bit (unat q) i \<longleftrightarrow> odd (unat q div 2 ^ i)" by (simp add: bit_iff_odd)
    also have "unat q div 2 ^ i = 2 * k" by (simp add: k)
    finally show ?thesis by (simp add: bit_unsigned_iff)
  qed
  have "q OR push_bit i 1 = q + push_bit i 1"
    by (rule disjunctive_add [symmetric]) (use nb in \<open>auto simp: bit_simps\<close>)
  moreover have p: "unat (push_bit i 1 :: u64) = 2 ^ i"
    using assms(1) by (simp add: unat_power_2)
  moreover have "unat q + 2 ^ i < 2 ^ 64"
  proof -
    have e: "(2 :: nat) ^ 64 = 2 ^ Suc i * 2 ^ (63 - i)"
      using assms(1) by (simp flip: power_add power_Suc)
    have "unat q < 2 ^ 64" using unsigned_less [of q, where 'a = nat] by simp
    then have "k + 1 \<le> 2 ^ (63 - i)" unfolding k e by simp
    then have "2 ^ Suc i * (k + 1) \<le> (2 :: nat) ^ 64" unfolding e by (rule mult_le_mono2)
    moreover have "(0 :: nat) < 2 ^ i" by simp
    ultimately show ?thesis unfolding k power_Suc by (simp only: distrib_left)
  qed
  ultimately show ?thesis by (simp add: unat_word_ariths)
qed

lemma divide_loop_correct:
  assumes "d \<noteq> 0" "i \<le> 64" "unat r < unat d" "2 ^ i dvd unat q"
    "unat n div 2 ^ i = unat q div 2 ^ i * unat d + unat r"
    "divide_loop i n d q r = (q', r')"
  shows "unat q' = unat n div unat d \<and> unat r' = unat n mod unat d"
  using assms(2-)
proof (induction i arbitrary: q r)
  case 0
  then show ?case using assms(1) by simp
next
  case (Suc i)
  define b where "b = (unat n div 2 ^ i) mod 2"
  define R where "R = 2 * unat r + b"
  define r1 where "r1 = push_bit 1 r OR (drop_bit i n AND 1)"
  have r1: "unat r1 = R mod 2 ^ 64" unfolding r1_def R_def b_def by (rule shift_in_unat)
  have "R < 2 * unat d" using Suc.prems(2) by (auto simp: R_def b_def)
  have high: "drop_bit 63 r \<noteq> 0 \<longleftrightarrow> 2 ^ 64 \<le> R" 
    by (auto simp: high_bit_unat R_def b_def)
  define Q where "Q = unat q div 2 ^ Suc i"
  have q: "unat q = Q * 2 ^ Suc i" using Suc.prems(3) by (simp add: Q_def)
  have nn: "unat n div 2 ^ i = 2 * Q * unat d + R"
  proof -
    have "unat n div 2 ^ i = 2 * (unat n div 2 ^ i div 2) + b" by (simp add: b_def)
    also have "unat n div 2 ^ i div 2 = Q * unat d + unat r"
      using Suc.prems(4) unfolding Q_def power_Suc2 div_mult2_eq .
    finally show ?thesis by (simp add: R_def algebra_simps)
  qed
  show ?case
  proof (cases "unat d \<le> R")
    case True
    then have c: "drop_bit 63 r \<noteq> 0 \<or> r1 \<ge> d"
      by (cases "R < 2 ^ 64") (simp_all add: high word_le_nat_alt r1)
    have rd: "unat (r1 - d) = R - unat d"
    proof (cases "R < 2 ^ 64")
      case False
      have "R mod 2 ^ 64 = R - 2 ^ 64"
        using False \<open>R < 2 * unat d\<close> unat_lt_u64 [of d] by (simp add: mod_if)
      then show ?thesis using False \<open>R < 2 * unat d\<close> unat_lt_u64 [of d]
        by (simp add: unat_sub_if' r1)
    qed (use True in \<open>simp add: unat_sub_if' r1\<close>)
    have q1: "unat (q OR push_bit i 1) = (2 * Q + 1) * 2 ^ i"
      using set_low_bit_unat [of i q] Suc.prems(1,3) q by simp
    have "unat n div 2 ^ i = unat (q OR push_bit i 1) div 2 ^ i * unat d + unat (r1 - d)"
      using nn True unfolding q1 rd by (simp add: algebra_simps)
    moreover have "divide_loop i n d (q OR push_bit i 1) (r1 - d) = (q', r')"
      using Suc.prems(5) c by (simp add: Let_def r1_def)
    moreover have "unat (r1 - d) < unat d" using rd \<open>R < 2 * unat d\<close> True by simp
    moreover have "2 ^ i dvd unat (q OR push_bit i 1)" unfolding q1 by simp
    ultimately show ?thesis using Suc.IH Suc.prems(1) by simp
  next
    case False
    then have c: "\<not> (drop_bit 63 r \<noteq> 0 \<or> r1 \<ge> d)" and rr: "unat r1 = R"
      using unat_lt_u64 [of d] by (simp_all add: high word_le_nat_alt r1)
    have "unat n div 2 ^ i = unat q div 2 ^ i * unat d + unat r1"
      using nn by (simp add: q rr)
    moreover have "divide_loop i n d q r1 = (q', r')"
      using Suc.prems(5) c by (simp add: Let_def r1_def)
    moreover have "2 ^ i dvd unat q" by (simp add: q)
    ultimately show ?thesis using Suc.prems(1) rr False by (intro Suc.IH [of r1 q]) simp_all
  qed
qed
text \<open>The 64-step shift-and-subtract loop is unsigned division and remainder on every operand,
  with eBPF's convention for a zero divisor (quotient 0, remainder the dividend).\<close>

lemma divide_correct:
  "divide n d False = n div d \<and> divide n d True = n mod d"
proof (cases "d = 0")
  case False
  obtain q r where qr: "divide_loop 64 n d 0 0 = (q, r)" by fastforce
  have "unat q = unat n div unat d \<and> unat r = unat n mod unat d"
    using False unat_lt_u64 [of n] by (intro divide_loop_correct [OF False _ _ _ _ qr]) (simp_all add: word_neq_0_conv flip: word_less_nat_alt [of 0 d, simplified])
  then show ?thesis using False qr
    by (simp add: divide_def word_unat_eq_iff unat_div unat_mod)
qed (simp add: divide_def)

section \<open>Granted pointers stay inside their objects\<close>

definition map_wf :: "BpfMap \<Rightarrow> bool" where
  "map_wf m \<longleftrightarrow>
     (case m_values m of None \<Rightarrow> True | Some v \<Rightarrow> unat (m_capacity m) * unat (m_value_size m) \<le> length v) \<and>
     (case m_keys m of None \<Rightarrow> True | Some k \<Rightarrow> unat (m_entries m) * 20 \<le> length k)"

definition env_wf :: "BpfEnvironment \<Rightarrow> bool" where
  "env_wf e \<longleftrightarrow> length (e_maps e) = BPF_MAPS \<and> unat (e_context_size e) \<le> length (e_context e) \<and>
     unat (e_packet_size e) \<le> length (e_packet e) \<and> (\<forall>m \<in> set (e_maps e). map_wf m)"

definition ptr_ok :: "BpfEnvironment \<Rightarrow> bpf_ptr \<Rightarrow> nat \<Rightarrow> bool" where
  "ptr_ok e p n = (case p of
       InStack off \<Rightarrow> off + n \<le> 512
     | InContext off \<Rightarrow> off + n \<le> length (e_context e)
     | InPacket off \<Rightarrow> off + n \<le> length (e_packet e)
     | InMap k off \<Rightarrow> k < length (e_maps e) \<and>
         (case m_values (e_maps e ! k) of None \<Rightarrow> False | Some v \<Rightarrow> off + n \<le> length v))"

definition ptr_writable :: "BpfEnvironment \<Rightarrow> bpf_ptr \<Rightarrow> bool" where
  "ptr_writable e p = (case p of InStack _ \<Rightarrow> True | InContext _ \<Rightarrow> False | InPacket _ \<Rightarrow> False
     | InMap k _ \<Rightarrow> m_writable (e_maps e ! k))"

lemma window_fits:
  "a \<le> lim \<Longrightarrow> ucast sz \<le> lim - a \<Longrightarrow> unat a + unat sz \<le> unat lim" for a lim :: u64 and sz :: u32
  by (simp add: word_le_nat_alt unat_sub)

lemma value_window:
  fixes rel :: u32
  assumes "unat rel < 7 * 2 ^ 20"
  shows "unat (drop_bit 20 rel) < 7" "unat (drop_bit 8 (rel AND 0xfffff)) < 4096"
    "unat ((rel AND 0xfffff) AND 255) \<le> 255"
proof -
  have m: "(0xfffff :: u32) = mask 20" "(255 :: u32) = mask 8" by (simp_all add: mask_eq_exp_minus_1)
  show "unat (drop_bit 20 rel) < 7"
    using assms by (simp add: unat_drop_bit_div less_mult_imp_div_less)
  show "unat (drop_bit 8 (rel AND 0xfffff)) < 4096"
    unfolding unat_drop_bit_div m unat_and_mask by (simp add: less_mult_imp_div_less)
  show "unat ((rel AND 0xfffff) AND 255) \<le> 255"
    unfolding m unat_and_mask by simp
qed

lemma cell_fits:
  fixes index vs cap within sz :: u32
  assumes "unat index < 4096" "vs \<le> 256" "index < cap" "within \<le> vs" "sz \<le> vs - within"
  shows "unat (index * vs) + unat within + unat sz \<le> unat cap * unat vs"
proof -
  have "unat index * unat vs \<le> 4096 * 256"
    using assms(1,2) by (intro mult_le_mono) (simp_all add: word_le_nat_alt)
  then have "unat (index * vs) = unat index * unat vs" by (simp add: unat_word_ariths)
  moreover have "unat within + unat sz \<le> unat vs"
    using assms(4,5) by (simp add: word_le_nat_alt unat_sub)
  moreover have "Suc (unat index) * unat vs \<le> unat cap * unat vs"
    using assms(3) by (intro mult_le_mono1) (simp add: word_less_nat_alt)
  ultimately show ?thesis by simp
qed

lemma map_memory_sound:
  assumes "env_wf e"
  shows "defined (map_memory e a sz w)"
    and "map_memory e a sz w = Some (Some p) \<Longrightarrow> ptr_ok e p (unat sz) \<and> (w \<longrightarrow> ptr_writable e p)"
proof -
  let ?rel = "ucast (a - BPF_VALUES) :: u32"
  have rel: "unat ?rel < 7 * 2 ^ 20" if "\<not> (a < BPF_VALUES \<or> a \<ge> BPF_VALUES + 7 * 0x100000)"
  proof -
    have "unat (a - BPF_VALUES) < 7 * 2 ^ 20"
      using that by (auto simp: word_less_nat_alt word_le_nat_alt unat_sub not_less not_le)
    then show ?thesis by (simp add: unsigned_ucast_eq take_bit_eq_mod)
  qed
  note vw = value_window [OF rel]
  show "defined (map_memory e a sz w)"
    using assms vw(1) by (auto simp: map_memory_def Let_def env_wf_def)
  assume mem: "map_memory e a sz w = Some (Some p)"
  then have r: "\<not> (a < BPF_VALUES \<or> a \<ge> BPF_VALUES + 7 * 0x100000)"
    by (auto simp: map_memory_def)
  define k index within where "k = unat (drop_bit 20 ?rel)" and "index = drop_bit 8 (?rel AND 0xfffff)"
    and "within = (?rel AND 0xfffff) AND 255"
  define m where "m = e_maps e ! k"
  from mem r have c: "k < length (e_maps e)" "m_values m \<noteq> None" "m_value_size m \<le> 256" "index < m_capacity m"
    "within \<le> m_value_size m" "sz \<le> m_value_size m - within" "w \<longrightarrow> m_writable m"
    "p = InMap k (unat (index * m_value_size m) + unat within)"
    unfolding map_memory_def Let_def k_def [symmetric] index_def [symmetric] within_def [symmetric]
    by (auto simp: Option.bind_eq_Some_conv m_def not_less not_le split: if_splits)
  have "map_wf m" using assms c(1) by (simp add: env_wf_def m_def)
  with c(2) obtain v where v: "m_values m = Some v" "unat (m_capacity m) * unat (m_value_size m) \<le> length v"
    by (auto simp: map_wf_def)
  have "unat index < 4096" using vw(2) [OF r] by (simp add: index_def)
  from cell_fits [OF this c(3-6)] v show "ptr_ok e p (unat sz) \<and> (w \<longrightarrow> ptr_writable e p)"
    using c by (simp add: ptr_ok_def ptr_writable_def m_def)
qed

lemma memory_sound:
  assumes "env_wf e"
  shows "defined (memory e a sz w)"
    and "memory e a sz w = Some (Some p) \<Longrightarrow> ptr_ok e p (unat sz) \<and> (w \<longrightarrow> ptr_writable e p)"
proof -
  show "defined (memory e a sz w)"
    using map_memory_sound(1) [OF assms] by (auto simp: memory_def)
  assume mem: "memory e a sz w = Some (Some p)"
  note w = window_fits [of "a - BPF_STACK" 512 sz]
    window_fits [of "a - BPF_CTX" "ucast (e_context_size e)" sz]
    window_fits [of "a - BPF_DATA" "ucast (e_packet_size e)" sz]
  show "ptr_ok e p (unat sz) \<and> (w \<longrightarrow> ptr_writable e p)"
    using mem w assms map_memory_sound(2) [OF assms] unfolding memory_def
    by (auto simp: ptr_ok_def ptr_writable_def env_wf_def split: if_split_asm)
qed

lemma defined_read_le_loop: "off + sz \<le> length p \<Longrightarrow> defined (read_le_loop p off i sz n)"
proof (induction p off i sz n rule: read_le_loop.induct)
  case (1 p off i sz n)
  then show ?case by (subst read_le_loop.simps) auto
qed

lemma defined_read_le [simp]: "off + sz \<le> length p \<Longrightarrow> defined (read_le p off sz)"
  by (simp add: read_le_def defined_read_le_loop)

lemma defined_ptr_read:
  "ptr_ok e p n \<Longrightarrow> k \<le> n \<Longrightarrow> length stack = 512 \<Longrightarrow> defined (ptr_read e stack p k)"
  by (auto simp: ptr_ok_def ptr_read_def split: bpf_ptr.splits option.splits)

lemma defined_ptr_byte:
  "ptr_ok e p n \<Longrightarrow> k < n \<Longrightarrow> length stack = 512 \<Longrightarrow> defined (ptr_byte e stack p k)"
  by (auto simp: ptr_ok_def ptr_byte_def split: bpf_ptr.splits option.splits)

lemma store_loop_sound:
  "off + sz \<le> length p \<Longrightarrow> defined (store_loop p off i sz v)"
  "store_loop p off i sz v = Some q \<Longrightarrow> length q = length p"
proof (induction p off i sz v rule: store_loop.induct)
  case (1 p off i sz v)
  { case 1
    then show ?case using "1.IH"(1) by (subst store_loop.simps) auto }
  { case 2
    then show ?case using "1.IH"(2) by (subst (asm) store_loop.simps) (auto simp: Option.bind_eq_Some_conv split: if_splits) }
qed

section \<open>What a run leaves alone\<close>

definition map_frame :: "BpfMap \<Rightarrow> BpfMap \<Rightarrow> bool" where
  "map_frame m m' \<longleftrightarrow> m_type m' = m_type m \<and> m_key_size m' = m_key_size m \<and>
     m_value_size m' = m_value_size m \<and> m_capacity m' = m_capacity m \<and> m_entries m' = m_entries m \<and>
     m_keys m' = m_keys m \<and> m_writable m' = m_writable m \<and>
     map_option length (m_values m') = map_option length (m_values m) \<and>
     (\<not> m_writable m \<longrightarrow> m_values m' = m_values m)"

definition env_frame :: "BpfEnvironment \<Rightarrow> BpfEnvironment \<Rightarrow> bool" where
  "env_frame e e' \<longleftrightarrow> e_context e' = e_context e \<and> e_packet e' = e_packet e \<and>
     e_context_size e' = e_context_size e \<and> e_packet_size e' = e_packet_size e \<and>
     list_all2 map_frame (e_maps e) (e_maps e')"

lemma map_frame_refl [simp]: "map_frame m m"
  by (simp add: map_frame_def)

lemma map_frame_trans: "map_frame a b \<Longrightarrow> map_frame b c \<Longrightarrow> map_frame a c"
  by (auto simp: map_frame_def)

lemma env_frame_refl [simp]: "env_frame e e"
  by (simp add: env_frame_def list.rel_refl)

lemma env_frame_trans: "env_frame a b \<Longrightarrow> env_frame b c \<Longrightarrow> env_frame a c"
  unfolding env_frame_def
  by (elim conjE, intro conjI) (auto intro: list_all2_trans [OF map_frame_trans])

lemma map_frame_wf: "map_frame m m' \<Longrightarrow> map_wf m \<Longrightarrow> map_wf m'"
  unfolding map_frame_def map_wf_def
  by (cases "m_values m"; cases "m_values m'"; cases "m_keys m") auto

lemma env_frame_wf: "env_frame e e' \<Longrightarrow> env_wf e \<Longrightarrow> env_wf e'"
proof -
  assume f: "env_frame e e'" and wf: "env_wf e"
  have la: "list_all2 map_frame (e_maps e) (e_maps e')" using f by (simp add: env_frame_def)
  have "map_wf m" if "m \<in> set (e_maps e')" for m
    using that la wf unfolding env_wf_def
    by (metis in_set_conv_nth list_all2_conv_all_nth map_frame_wf nth_mem)
  with f wf list_all2_lengthD [OF la] show ?thesis by (simp add: env_frame_def env_wf_def)
qed

lemma defined_prefix_match:
  assumes "ptr_ok e key 20" "length stack = 512" "bits \<le> 128" "prefix + 20 \<le> length keys"
  shows "defined (prefix_match e stack key keys prefix b bits)"
  using assms
proof (induction e stack key keys prefix b bits rule: prefix_match.induct)
  case (1 e stack key keys prefix b bits)
  have "b < bits \<Longrightarrow> defined (ptr_byte e stack key (4 + b div 8))"
    using 1 by (intro defined_ptr_byte [of _ _ 20]) auto
  then show ?case using 1 by (subst prefix_match.simps) auto
qed

lemma not_less_unat: "\<not> (k :: u32) < w \<Longrightarrow> unat w \<le> unat k"
  by (simp add: word_less_nat_alt)

lemma lpm_scan_sound:
  assumes "ptr_ok e key 20" "length stack = 512" "entries * 20 \<le> length keys"
  shows "defined (lpm_scan e stack key keys index i entries best bb)"
   "lpm_scan e stack key keys index i entries best bb = Some r \<Longrightarrow> r = best \<or> (int i \<le> r \<and> r < int entries)"
  using assms
proof (induction e stack key keys index i entries best bb rule: lpm_scan.induct)
  case (1 e stack key keys index i entries best bb)
  { case 1
    then show ?case using "1.IH"
     by (subst lpm_scan.simps) (auto simp: Let_def word_less_nat_alt intro!: defined_prefix_match) }
  { case 2
    then show ?case using "1.IH" 
     by (subst (asm) lpm_scan.simps) (fastforce simp: Let_def Option.bind_eq_Some_conv split: if_splits) }
qed

section \<open>The lookup helper and stores\<close>

lemma defined_lookup_cell:
  assumes "map_wf m" "m_values m \<noteq> None" "m_capacity m \<le> 4096"
  shows "defined (lookup_cell m ident index)"
proof -
  obtain v where v: "m_values m = Some v" using assms(2) by auto
  have "unat (index * 4) + 4 \<le> length v" if "index < m_capacity m" "m_value_size m = 4"
  proof -
    have "unat index < unat (m_capacity m)" "unat (m_capacity m) \<le> 4096"
      using that assms(3) by (simp_all add: word_less_nat_alt word_le_nat_alt)
    moreover from this have "unat (index * 4) = unat index * 4" by (simp add: unat_word_ariths)
    ultimately show ?thesis using assms(1) v that(2) by (simp add: map_wf_def)
  qed
  then show ?thesis using v by (auto simp: lookup_cell_def not_le Let_def)
qed

lemma defined_lookup:
  assumes wf: "env_wf e" and st: "length stack = 512"
  shows "defined (lookup e stack handle key_address)"
proof (cases "handle < BPF_HANDLES \<or> handle \<ge> BPF_HANDLES + 7")
  case False
  let ?k = "unat (handle - BPF_HANDLES)"
  have k: "?k < length (e_maps e)"
    using False wf by (auto simp: env_wf_def word_less_nat_alt word_le_nat_alt unat_sub not_less not_le)
  define m where "m = e_maps e ! ?k"
  have mwf: "map_wf m" using wf k by (simp add: env_wf_def m_def)
  show ?thesis
  proof (cases "m_values m = None \<or> m_value_size m = 0 \<or> m_value_size m > 256 \<or> m_capacity m > 4096 \<or>
      (m_key_size m \<noteq> 4 \<and> m_key_size m \<noteq> 20)")
    case ok: False
    have cell: "defined (lookup_cell m ident index)" for ident index
      using mwf ok by (intro defined_lookup_cell) auto
    have scan: "defined (lpm_scan e stack key keys index 0 (unat (m_entries m)) (-1) 0)"
      if "memory e key_address (m_key_size m) False = Some (Some key)" "m_key_size m = 20" "m_keys m = Some keys"
      for key keys index
      using memory_sound(2) [OF wf that(1)] that mwf st
      by (intro lpm_scan_sound(1)) (simp_all add: map_wf_def)
    have key: "defined (ptr_read e stack key 4)"
      if "memory e key_address (m_key_size m) False = Some (Some key)" for key
      using memory_sound(2) [OF wf that] ok st by (intro defined_ptr_read [of _ _ "unat (m_key_size m)"]) auto
    show ?thesis using False k ok memory_sound(1) [OF wf] cell scan key
      by (auto simp: lookup_def Let_def m_def split: option.split)
  next
    case True
    then show ?thesis using False k by (auto simp: lookup_def Let_def m_def)
  qed
qed (simp add: lookup_def)

definition state_wf :: "bpf_state \<Rightarrow> bool" where
  "state_wf st \<longleftrightarrow> length (s_regs st) = 11 \<and> length (s_stack st) = 512 \<and> env_wf (s_env st)"

text \<open>What one instruction keeps: well-formedness, the read-only parts of the environment, and the frame pointer.\<close>

definition keeps :: "bpf_state \<Rightarrow> bpf_state \<Rightarrow> bool" where
  "keeps st st' \<longleftrightarrow> state_wf st' \<and> env_frame (s_env st) (s_env st') \<and> s_regs st' ! 10 = s_regs st ! 10"

lemma ptr_write_sound:
  assumes "env_wf e" "length stack = 512" "ptr_ok e p n" "ptr_writable e p"
  shows "defined (ptr_write e stack p n v)"
    and "ptr_write e stack p n v = Some (e', stack') \<Longrightarrow> env_frame e e' \<and> length stack' = 512"
proof -
  show "defined (ptr_write e stack p n v)"
    using assms by (auto simp: ptr_write_def ptr_ok_def store_loop_sound(1) split: bpf_ptr.split option.splits)
  assume w: "ptr_write e stack p n v = Some (e', stack')"
  show "env_frame e e' \<and> length stack' = 512"
  proof (cases p)
    case (InMap k off)
    with w obtain vals b where b: "k < length (e_maps e)" "m_values (e_maps e ! k) = Some vals"
      "store_loop vals off 0 n v = Some b" "e' = e\<lparr>e_maps := (e_maps e)[k := (e_maps e ! k)\<lparr>m_values := Some b\<rparr>]\<rparr>" "stack' = stack"
      by (auto simp: ptr_write_def Option.bind_eq_Some_conv)
    have "map_frame (e_maps e ! k) ((e_maps e ! k)\<lparr>m_values := Some b\<rparr>)"
      using b InMap assms(4) store_loop_sound(2) [OF b(3)] by (simp add: map_frame_def ptr_writable_def)
    then show ?thesis using b assms(2)
      by (auto simp: env_frame_def list_all2_conv_all_nth nth_list_update)
  qed (use w assms store_loop_sound(2) in \<open>auto simp: ptr_write_def ptr_writable_def Option.bind_eq_Some_conv\<close>)
qed

lemma keeps_set_reg:
  assumes "state_wf st" "d \<noteq> 10" "set_reg st d v = Some st'"
  shows "keeps st st'"
  using assms by (auto simp: set_reg_def Option.bind_eq_Some_conv keeps_def state_wf_def nth_list_update word_unat_eq_iff)

lemma defined_set_reg [simp]: "defined (set_reg st d v) \<longleftrightarrow> unat d < length (s_regs st)"
  by (simp add: set_reg_def wr_def)

section \<open>Every instruction is safe\<close>

definition step_safe :: "bpf_state \<Rightarrow> bpf_outcome option \<Rightarrow> bool" where
  "step_safe st r \<longleftrightarrow> defined r \<and> (\<forall>st'. r = Some (Continue st') \<longrightarrow> keeps st st')"

lemma step_safe_simps [simp]:
  "step_safe st (Some (Failure f))" "step_safe st (Some (Exit v))" "\<not> step_safe st None"
  "step_safe st (Some (Continue st')) \<longleftrightarrow> keeps st st'"
  by (simp_all add: step_safe_def)

lemma step_safe_bindI [intro!]:
  "defined m \<Longrightarrow> (\<And>x. m = Some x \<Longrightarrow> step_safe st (f x)) \<Longrightarrow> step_safe st (Option.bind m f)"
  by (auto simp: step_safe_def Option.bind_eq_Some_conv)

lemma reg_bound: "\<not> w > (10 :: u8) \<Longrightarrow> unat w < 11"
  by (simp add: word_less_nat_alt)

lemma keeps_refl: "state_wf st \<Longrightarrow> keeps st st"
  by (simp add: keeps_def)

lemma state_wf_pc [simp]: "state_wf (st\<lparr>s_pc := k\<rparr>) = state_wf st"
  by (simp add: state_wf_def)

lemma keeps_pc [simp]: "keeps (st\<lparr>s_pc := k\<rparr>) st' = keeps st st'" "keeps st (st'\<lparr>s_pc := k\<rparr>) = keeps st st'"
  by (simp_all add: keeps_def)

lemma step_alu_safe:
  assumes "state_wf st" "unat (dst i) < 11" "unat (src i) < 11"
  shows "step_safe st (step_alu st i)"
  using assms keeps_set_reg [OF assms(1)]
  by (auto simp: step_alu_def Let_def state_wf_def split: option.split)

lemma step_mem_safe:
  assumes "state_wf st" "unat (dst i) < 11" "unat (src i) < 11"
  shows "step_safe st (step_mem st i)"
proof -
  have sz: "unat (of_nat (access_size i) :: u32) = access_size i"
    by (simp add: access_size_def)
  have wf: "env_wf (s_env st)" "length (s_stack st) = 512" "length (s_regs st) = 11"
    using assms(1) by (simp_all add: state_wf_def)
  note m = memory_sound [OF wf(1), of _ "of_nat (access_size i)", unfolded sz]
  have rdp: "defined (ptr_read (s_env st) (s_stack st) p (access_size i))"
    if "memory (s_env st) a (of_nat (access_size i)) w = Some (Some p)" for a w p
    using m(2) [OF that] wf by (intro defined_ptr_read [of _ _ "access_size i"]) auto
  have wrp: "defined (ptr_write (s_env st) (s_stack st) p (access_size i) v)"
     "ptr_write (s_env st) (s_stack st) p (access_size i) v = Some (e', s') \<Longrightarrow>
        keeps st (st\<lparr>s_env := e', s_stack := s'\<rparr>)"
    if "memory (s_env st) a (of_nat (access_size i)) True = Some (Some p)" for a p v e' s'
    using ptr_write_sound [OF wf(1,2), of p "access_size i" v] m(2) [OF that] assms(1)
    by (auto simp: keeps_def state_wf_def intro: env_frame_wf)
  show ?thesis
    using assms keeps_set_reg [OF assms(1)] m(1) rdp wrp wf
    by (auto simp: step_mem_def Let_def split: option.split)
qed

lemma step_call_safe:
  assumes "state_wf st" shows "step_safe st (step_call st i)"
proof -
  have wf: "env_wf (s_env st)" "length (s_stack st) = 512" "length (s_regs st) = 11"
    using assms(1) by (simp_all add: state_wf_def)
  show ?thesis using defined_lookup [OF wf(1,2)] wf
    by (auto simp: step_call_def keeps_def state_wf_def split: option.split)
qed

lemma step_jmp_safe:
  assumes "state_wf st" "unat (dst i) < 11" "unat (src i) < 11"
  shows "step_safe st (step_jmp code st i)"
  using assms step_call_safe [OF assms(1)]
  by (auto simp: step_jmp_def Let_def state_wf_def keeps_def split: option.split bool.split)

lemma step_lddw_safe:
  assumes "state_wf st" "unat (dst i) < 11"
  shows "step_safe st (step_lddw code st i)"
proof -
  have "state_wf (st\<lparr>s_pc := k\<rparr>)" for k using assms by simp
  note k = keeps_set_reg [OF this, simplified]
  show ?thesis using assms k
    by (auto simp: step_lddw_def Let_def state_wf_def)
qed

lemma bpf_step_safe:
  assumes "state_wf st" "s_pc st < length code"
  shows "step_safe st (bpf_step code st)"
proof -
  define i where "i = code ! s_pc st"
  let ?st = "st\<lparr>s_pc := s_pc st + 1\<rparr>"
  have wf: "state_wf ?st" using assms(1) by simp
  have r: "rd code (s_pc st) = Some i" using assms(2) by (simp add: i_def)
  have sub: "step_safe ?st x \<Longrightarrow> step_safe st x" for x by (simp add: step_safe_def)
  show ?thesis
  proof (cases "dst i > 10 \<or> src i > 10")
    case False
    then have b: "unat (dst i) < 11" "unat (src i) < 11" by (auto dest: reg_bound)
    note parts = sub [OF step_lddw_safe [OF wf b(1)], of code] sub [OF step_alu_safe [OF wf b]]
      sub [OF step_mem_safe [OF wf b]] sub [OF step_jmp_safe [OF wf b], of code]
    show ?thesis using False parts by (simp add: bpf_step_def r Let_def)
  qed (simp add: bpf_step_def r Let_def)
qed

lemma bpf_loop_safe:
  assumes "state_wf st"
  shows "\<exists>res e'. bpf_loop code st steps = Some (res, e') \<and> env_frame (s_env st) e' \<and>
    r_steps res \<le> max steps BPF_FUEL"
  using assms
proof (induction code st steps rule: bpf_loop.induct)
  case (1 code st steps)
  show ?case
  proof (cases "s_pc st < length code \<and> steps < BPF_FUEL")
    case True
    then have safe: "step_safe st (bpf_step code st)" using 1 by (simp add: bpf_step_safe)
    then obtain out where out: "bpf_step code st = Some out" by (auto simp: step_safe_def elim: definedE)
    show ?thesis
    proof (cases out)
      case (Continue st')
      with safe out have k: "keeps st st'" by simp
      then obtain res e' where "bpf_loop code st' (steps + 1) = Some (res, e')" "env_frame (s_env st') e'"
        "r_steps res \<le> max (steps + 1) BPF_FUEL"
        using 1 True out Continue by (auto simp: keeps_def)
      with k True out Continue show ?thesis
        by (auto simp: bpf_loop.simps [of code st steps] keeps_def intro: env_frame_trans)
    qed (use True out in \<open>simp_all add: bpf_loop.simps [of code st steps]\<close>)
  qed (auto simp: bpf_loop.simps [of code st steps])
qed

lemma bpf_initial_wf: "env_wf e \<Longrightarrow> state_wf (bpf_initial e)"
  by (simp add: state_wf_def bpf_initial_def)

lemma bpf_execute_spec:
  assumes "env_wf e"
  shows "\<exists>res e'. bpf_execute code e = Some (res, e') \<and> env_frame e e' \<and> env_wf e' \<and> r_steps res \<le> BPF_FUEL"
proof -
  have "s_env (bpf_initial e) = e" by (simp add: bpf_initial_def)
  then show ?thesis
    using bpf_loop_safe [OF bpf_initial_wf [OF assms], of code 0] assms
    by (auto simp: bpf_execute_def intro: env_frame_wf)
qed

text \<open>C12: the interpreter is memory safe and terminates for every program, validated or not: on a
  well-formed environment \<^verbatim>\<open>bpf_execute\<close> returns within \<^verbatim>\<open>BPF_FUEL\<close> steps, no access leaves an object, and
  the context, the packet, the keys and every read-only map are unchanged.\<close>

theorem bpf_execute_safe:
  assumes "env_wf e"
  shows "\<exists>res e'. bpf_execute code e = Some (res, e') \<and> env_frame e e' \<and> env_wf e' \<and> r_steps res \<le> BPF_FUEL"
  by (rule bpf_execute_spec [OF assms])

definition null_map :: BpfMap where
  "null_map = \<lparr>m_type = 0, m_key_size = 0, m_value_size = 0, m_capacity = 0, m_entries = 0,
     m_values = None, m_keys = None, m_writable = False\<rparr>"

definition sample_env :: BpfEnvironment where
  "sample_env = \<lparr>e_context = [1, 0, 0, 0], e_packet = [69, 0], e_context_size = 4, e_packet_size = 2,
     e_maps = replicate 6 null_map @ [\<lparr>m_type = BPF_ARRAY, m_key_size = 4, m_value_size = 4, m_capacity = 1,
       m_entries = 1, m_values = Some [7, 0, 0, 0], m_keys = None, m_writable = True\<rparr>]\<rparr>"

lemma sample_env_wf: "env_wf sample_env"
  by (simp add: env_wf_def sample_env_def map_wf_def null_map_def)

theorem bpf_execute_safe_witness:
  "\<exists>res e'. bpf_execute [\<lparr>i_code = 0x61, i_regs = 0x10, i_offset = 0, i_immediate = 0\<rparr>,
      \<lparr>i_code = 0x95, i_regs = 0, i_offset = 0, i_immediate = 0\<rparr>] sample_env = Some (res, e') \<and>
    env_frame sample_env e' \<and> env_wf e' \<and> r_steps res \<le> BPF_FUEL"
  by (rule bpf_execute_safe [OF sample_env_wf])

end
