(* ===== verification/Bpf_Validate.thy ===== *)
theory Bpf_Validate
  imports Bpf_Safety
begin

text \<open>
  What the structural validator buys: of an accepted program, no reachable instruction is rejected
  by the interpreter for its encoding or for a bad jump.
\<close>

inductive bpf_reach :: "BpfInsn list \<Rightarrow> BpfEnvironment \<Rightarrow> bpf_state \<Rightarrow> bool" for code e where
  start: "bpf_reach code e (bpf_initial e)"
| step: "bpf_reach code e st \<Longrightarrow> s_pc st < length code \<Longrightarrow> bpf_step code st = Some (Continue st') \<Longrightarrow>
    bpf_reach code e st'"

definition insn_valid :: "BpfInsn list \<Rightarrow> nat \<Rightarrow> bool" where
  "insn_valid code q \<longleftrightarrow> (let i = code ! q in
     dst i \<le> 10 \<and> src i \<le> 10 \<and>
     (if i_code i = 0x18 then dst i \<noteq> 10 \<and> src i \<le> 1 \<and> q + 1 < length code \<and>
        (src i \<noteq> 0 \<longrightarrow> 0 \<le> sint (i_immediate i) \<and> sint (i_immediate i) < 7 \<and> i_immediate (code ! (q + 1)) = 0) \<and>
        (q + 2 < length code \<longrightarrow> i_code (code ! (q + 2)) \<noteq> 0)
      else (q + 1 < length code \<longrightarrow> i_code (code ! (q + 1)) \<noteq> 0) \<and>
        (if cls i = 4 \<or> cls i = 7 then alu_ok i
         else if cls i = 1 \<or> cls i = 2 \<or> cls i = 3 then mem_ok i
         else (cls i = 5 \<or> cls i = 6) \<and> (\<exists>ex ex'. jmp_ok code q i ex = Some (Some ex')))))"

definition checked_from :: "BpfInsn list \<Rightarrow> nat \<Rightarrow> bool" where
  "checked_from code pc \<longleftrightarrow> (pc < length code \<longrightarrow> i_code (code ! pc) \<noteq> 0) \<and>
     (\<forall>q \<ge> pc. q < length code \<longrightarrow> i_code (code ! q) \<noteq> 0 \<longrightarrow> insn_valid code q)"

lemma checked_from_step:
  assumes "checked_from code (pc + skip + 1)" "insn_valid code pc" "i_code (code ! pc) \<noteq> 0"
    "\<forall>q. pc < q \<and> q \<le> pc + skip \<longrightarrow> i_code (code ! q) = 0"
  shows "checked_from code pc"
proof -
  have "q = pc \<or> (pc < q \<and> q \<le> pc + skip) \<or> pc + skip + 1 \<le> q" if "pc \<le> q" for q
    using that by linarith
  with assms show ?thesis unfolding checked_from_def by metis
qed

text \<open>What one accepted instruction guarantees about itself, its successor being checked.\<close>

lemma check_insn_accepts:
  assumes "check_insn code pc ex = Some (Some (skip, ex'))"
  defines "i \<equiv> code ! pc"
  shows "dst i \<le> 10 \<and> src i \<le> 10 \<and>
    (if i_code i = 0x18 then skip = 1 \<and> dst i \<noteq> 10 \<and> src i \<le> 1 \<and> pc + 1 < length code \<and>
       i_code (code ! (pc + 1)) = 0 \<and>
       (src i \<noteq> 0 \<longrightarrow> 0 \<le> sint (i_immediate i) \<and> sint (i_immediate i) < 7 \<and> i_immediate (code ! (pc + 1)) = 0)
     else skip = 0 \<and>
       (if cls i = 4 \<or> cls i = 7 then alu_ok i
        else if cls i = 1 \<or> cls i = 2 \<or> cls i = 3 then mem_ok i
        else (cls i = 5 \<or> cls i = 6) \<and> jmp_ok code pc i ex = Some (Some ex')))"
proof -
  have r: "rd code pc = Some i" using assms(1) by (auto simp: check_insn_def i_def Option.bind_eq_Some_conv)
  have "\<not> (dst i > 10 \<or> src i > 10)" using assms(1) by (auto simp: check_insn_def r)
  with assms(1) show ?thesis
    by (simp add: check_insn_def r not_less Option.bind_eq_Some_conv split: if_split_asm) auto
qed

lemma check_insn_valid:
  assumes "check_insn code pc ex = Some (Some (skip, ex'))" "checked_from code (pc + skip + 1)"
  shows "insn_valid code pc" "i_code (code ! pc) \<noteq> 0"
    "\<forall>q. pc < q \<and> q \<le> pc + skip \<longrightarrow> i_code (code ! q) = 0"
proof -
  note a = check_insn_accepts [OF assms(1)]
  show "i_code (code ! pc) \<noteq> 0"
  proof
    assume "i_code (code ! pc) = 0"
    with a show False by simp
  qed
  have nxt: "pc + skip + 1 < length code \<longrightarrow> i_code (code ! (pc + skip + 1)) \<noteq> 0"
    using assms(2) by (simp add: checked_from_def)
  show "insn_valid code pc"
  proof (cases "i_code (code ! pc) = 0x18")
    case True
    with a nxt show ?thesis by (simp add: insn_valid_def Let_def)
  next
    case False
    with a nxt show ?thesis
      by (simp add: insn_valid_def Let_def) (auto split: if_splits)
  qed
  show "\<forall>q. pc < q \<and> q \<le> pc + skip \<longrightarrow> i_code (code ! q) = 0"
  proof (intro allI impI)
    fix q assume q: "pc < q \<and> q \<le> pc + skip"
    with a have "skip = 1 \<and> i_code (code ! (pc + 1)) = 0" by (auto split: if_splits)
    with q show "i_code (code ! q) = 0" by (metis Suc_eq_plus1 le_antisym less_eq_Suc_le)
  qed
qed

lemma validate_loop_checked: "validate_loop code pc ex = Some True \<Longrightarrow> checked_from code pc"
proof (induction code pc ex rule: validate_loop.induct)
  case (1 code pc ex)
  show ?case
  proof (cases "pc < length code")
    case True
    with "1.prems" obtain skip ex' where c: "check_insn code pc ex = Some (Some (skip, ex'))"
      "validate_loop code (pc + skip + 1) ex' = Some True"
      by (auto simp: validate_loop.simps [of code pc ex] Option.bind_eq_Some_conv split: option.splits)
    have cf: "checked_from code (pc + skip + 1)" by (rule "1.IH" [OF True c(1) refl refl c(2)])
    show ?thesis by (rule checked_from_step [OF cf check_insn_valid [OF c(1) cf]])
  qed (simp add: checked_from_def)
qed

lemma opc_cases:
  "w AND 0xf0 \<in> {0, 0x10, 0x20, 0x30, 0x40, 0x50, 0x60, 0x70, 0x80, 0x90, 0xa0, 0xb0, 0xc0, 0xd0, 0xe0, 0xf0}"
  for w :: u8
proof -
  have m: "(0xf0 :: u8) = NOT (mask 4)" by (simp add: mask_eq_exp_minus_1)
  have "w AND 0xf0 = push_bit 4 (drop_bit 4 w)"
    unfolding m by (rule bit_word_eqI) (auto simp: bit_simps not_less)
  also have "drop_bit 4 w = of_nat (unat w div 16)"
    using unat_lt_256 [of w]
    by (simp add: word_unat_eq_iff unat_drop_bit_div unsigned_of_nat take_bit_eq_mod)
  finally have w: "w AND 0xf0 = of_nat (16 * (unat w div 16))" by (simp add: push_bit_eq_mult)
  have "unat w div 16 < 16" using unat_lt_256 [of w] by (simp add: less_mult_imp_div_less)
  moreover have "k \<in> {0, 1, 2, 3, 4, 5, 6, 7, 8, 9, 10, 11, 12, 13, 14, 15}" if "k < 16" for k :: nat
    using that by simp presburger
  ultimately have "unat w div 16 \<in> {0, 1, 2, 3, 4, 5, 6, 7, 8, 9, 10, 11, 12, 13, 14, 15}" by blast
  with w show ?thesis by (elim insertE emptyE) (simp_all del: of_nat_mult)
qed

lemma alu_op_supported:
  assumes "alu_ok i" "opc i \<noteq> 0xd0" shows "alu_op wide (opc i) a b \<noteq> None"
  using opc_cases [of "i_code i"] assms
  by (elim insertE emptyE) (auto simp: alu_ok_def alu_op_def Let_def split: if_splits)

text \<open>
  An instruction that was accepted runs without a structural failure, and leaves \<open>pc\<close> at an
  instruction that was accepted (or past the end).
\<close>

definition well_behaved :: "BpfInsn list \<Rightarrow> bpf_outcome option \<Rightarrow> bool" where
  "well_behaved code r \<longleftrightarrow>
     (\<forall>f. r = Some (Failure f) \<longrightarrow> f = BadAccess \<or> f = BadLookup) \<and>
     (\<forall>st'. r = Some (Continue st') \<longrightarrow> s_pc st' < length code \<longrightarrow> i_code (code ! s_pc st') \<noteq> 0)"

definition at_insn :: "BpfInsn list \<Rightarrow> bpf_state \<Rightarrow> bool" where
  "at_insn code st \<longleftrightarrow> (s_pc st < length code \<longrightarrow> i_code (code ! s_pc st) \<noteq> 0)"

lemma well_behaved_simps [simp]:
  "well_behaved code None" "well_behaved code (Some (Exit v))"
  "well_behaved code (Some (Failure f)) \<longleftrightarrow> f = BadAccess \<or> f = BadLookup"
  "well_behaved code (Some (Continue st)) \<longleftrightarrow> at_insn code st"
  by (auto simp: well_behaved_def at_insn_def)

lemma well_behaved_bindI [intro!]:
  "(\<And>x. m = Some x \<Longrightarrow> well_behaved code (f x)) \<Longrightarrow> well_behaved code (Option.bind m f)"
  by (cases m) auto

lemma at_insn_set_reg: "set_reg st d v = Some st' \<Longrightarrow> at_insn code st' = at_insn code st"
  by (auto simp: set_reg_def at_insn_def Option.bind_eq_Some_conv)

lemma at_insn_update [simp]:
  "at_insn code (st\<lparr>s_env := e, s_stack := stk\<rparr>) = at_insn code st"
  "at_insn code (st\<lparr>s_regs := r\<rparr>) = at_insn code st"
  by (simp_all add: at_insn_def)

lemma step_alu_behaved:
  assumes "alu_ok i" "at_insn code st" shows "well_behaved code (step_alu st i)"
proof (cases "opc i = 0xd0")
  case True
  with assms(1) have "dst i \<noteq> 10" "cls i = 4" "i_immediate i = 16 \<or> i_immediate i = 32 \<or> i_immediate i = 64"
    by (auto simp: alu_ok_def split: if_splits)
  with True assms(2) show ?thesis
    unfolding step_alu_def Let_def
    by (simp only: if_False if_True simp_thms) (auto simp: at_insn_set_reg)
next
  case False
  with assms(1) have "dst i \<noteq> 10" by (auto simp: alu_ok_def)
  moreover have "well_behaved code (case alu_op wide (opc i) a b of None \<Rightarrow> Some (Failure BadInsn)
      | Some a \<Rightarrow> do { st \<leftarrow> set_reg st (dst i) (f a); Some (Continue st) })" for wide a b f
    using alu_op_supported [OF assms(1) False, of wide a b] assms(2)
    by (cases "alu_op wide (opc i) a b") (auto simp: at_insn_set_reg)
  ultimately show ?thesis
    using False unfolding step_alu_def Let_def by (simp only: if_False) (intro well_behaved_bindI)
qed

lemma step_mem_behaved:
  assumes "mem_ok i" "at_insn code st" shows "well_behaved code (step_mem st i)"
  using assms by (auto simp: step_mem_def at_insn_set_reg mem_ok_def split: option.split if_splits)

lemma jump_taken_supported:
  assumes "jmp_ok code q i ex = Some (Some ex')" "i_code i \<noteq> 0x85" "i_code i \<noteq> 0x95"
  shows "jump_taken i a b \<noteq> None"
  using opc_cases [of "i_code i"] assms
  by (elim insertE emptyE) (auto simp: jmp_ok_def jump_taken_def Let_def split: if_splits)

lemma step_call_behaved:
  assumes "i_immediate i = 1" "at_insn code st" shows "well_behaved code (step_call st i)"
  using assms by (auto simp: step_call_def split: option.split)

lemma target_next:
  assumes "target code pc off = Some True"
  shows "0 \<le> int pc + 1 + sint off" "nat (int pc + 1 + sint off) < length code"
    "i_code (code ! nat (int pc + 1 + sint off)) \<noteq> 0"
  using assms by (auto simp: target_def Let_def Option.bind_eq_Some_conv split: if_splits)

lemma jmp_ok_target:
  assumes "jmp_ok code q i ex = Some (Some ex')" "i_code i \<noteq> 0x85" "i_code i \<noteq> 0x95"
  shows "target code q (i_offset i) = Some True"
  using assms by (auto simp: jmp_ok_def Option.bind_eq_Some_conv split: if_splits)

lemma step_jmp_behaved:
  assumes "jmp_ok code q i ex = Some (Some ex')" "s_pc st = q + 1" "at_insn code st"
  shows "well_behaved code (step_jmp code st i)"
proof (cases "i_code i = 0x85 \<or> i_code i = 0x95")
  case True
  with assms(1) have "i_code i = 0x85 \<longrightarrow> i_immediate i = 1" by (auto simp: jmp_ok_def split: if_splits)
  with True assms(3) show ?thesis by (auto simp: step_jmp_def step_call_behaved)
next
  case False
  note s = jump_taken_supported [OF assms(1)] and t = target_next [OF jmp_ok_target [OF assms(1)]]
  have pc: "int (s_pc st) + sint (i_offset i) = int q + 1 + sint (i_offset i)" using assms(2) by simp
  from False assms(3) s t show ?thesis
    unfolding step_jmp_def pc Let_def by (auto simp: at_insn_def split: option.split bool.split)
qed

lemma small_immediate: "0 \<le> sint w \<Longrightarrow> sint w < 7 \<Longrightarrow> (ucast w :: u64) < 7" for w :: u32
proof -
  assume a: "0 \<le> sint w" "sint w < 7"
  have l: "0 \<le> uint w" "uint w < 2 ^ 32" using uint_lt2p [of w] by simp_all
  have "sint w = uint w - 2 ^ 32 * of_bool (bit (uint w) 31)"
    using l by (simp add: sint_uint signed_take_bit_eq_take_bit_minus take_bit_int_eq_self)
  with a l have "uint w < 7" by (cases "bit (uint w) 31") simp_all
  then show ?thesis by (simp add: word_less_def uint_up_ucast is_up)
qed

lemma step_lddw_behaved:
  assumes v: "insn_valid code q" "i_code (code ! q) = 0x18" and pc: "s_pc st = q + 1"
  shows "well_behaved code (step_lddw code st (code ! q))"
proof -
  let ?i = "code ! q"
  have d: "dst ?i \<noteq> 10" "\<not> src ?i > 1" "q + 1 < length code" "q + 2 < length code \<longrightarrow> i_code (code ! (q + 2)) \<noteq> 0"
    using v by (simp_all add: insn_valid_def Let_def not_less)
  have w: "ucast (i_immediate ?i) < (7 :: u64)" "i_immediate (code ! (q + 1)) = 0" if "src ?i \<noteq> 0"
    using v that by (simp_all add: insn_valid_def Let_def small_immediate)
  have nxt: "at_insn code st'" if "s_pc st' = q + 2" for st' using d(4) that by (simp add: at_insn_def)
  have s: "well_behaved code (do { st \<leftarrow> set_reg (st\<lparr>s_pc := q + 2\<rparr>) d x; Some (Continue st) })" for d x
    by (auto simp: at_insn_set_reg nxt)
  show ?thesis
  proof (cases "src ?i = 0")
    case True
    with d s show ?thesis by (simp add: step_lddw_def pc Let_def rd_def)
  next
    case False
    with d s w show ?thesis by (simp add: step_lddw_def pc Let_def not_le rd_def)
  qed
qed

lemma bpf_step_behaved:
  assumes "insn_valid code (s_pc st)"
  shows "well_behaved code (bpf_step code st)"
proof (cases "s_pc st < length code")
  case True
  define i where "i = code ! s_pc st"
  define st1 where "st1 = st\<lparr>s_pc := s_pc st + 1\<rparr>"
  have regs: "\<not> (dst i > 10 \<or> src i > 10)" using assms by (auto simp: insn_valid_def Let_def i_def)
  have step: "bpf_step code st = (if i_code i = 0x18 then step_lddw code st1 i
     else if cls i = 4 \<or> cls i = 7 then step_alu st1 i
     else if cls i = 1 \<or> cls i = 2 \<or> cls i = 3 then step_mem st1 i
     else if cls i = 5 \<or> cls i = 6 then step_jmp code st1 i
     else Some (Failure BadInsn))"
    using regs True by (simp add: bpf_step_def rd_def i_def st1_def)
  show ?thesis
  proof (cases "i_code i = 0x18")
    case True
    with step step_lddw_behaved [OF assms, of st1] show ?thesis by (simp add: i_def st1_def)
  next
    case False
    with assms have at: "at_insn code st1" by (simp add: insn_valid_def Let_def at_insn_def i_def st1_def)
    from False assms have c: "if cls i = 4 \<or> cls i = 7 then alu_ok i
         else if cls i = 1 \<or> cls i = 2 \<or> cls i = 3 then mem_ok i
         else (cls i = 5 \<or> cls i = 6) \<and> (\<exists>ex ex'. jmp_ok code (s_pc st) i ex = Some (Some ex'))"
      unfolding insn_valid_def Let_def i_def [symmetric] by (simp only: if_False simp_thms) (elim conjE)
    have j: "jmp_ok code (s_pc st) i ex = Some (Some ex') \<Longrightarrow> well_behaved code (step_jmp code st1 i)" for ex ex'
      using at by (rule step_jmp_behaved [rotated 2]) (simp_all add: st1_def)
    show ?thesis
    proof (cases "cls i = 4 \<or> cls i = 7")
      case True
      with c have "alu_ok i" by (simp only: if_True)
      with True at show ?thesis by (simp only: step False if_True if_False) (rule step_alu_behaved)
    next
      case alu: False
      show ?thesis
      proof (cases "cls i = 1 \<or> cls i = 2 \<or> cls i = 3")
        case True
        with c alu have "mem_ok i" by (simp only: if_True if_False)
        with True alu at show ?thesis by (simp only: step False if_True if_False) (rule step_mem_behaved)
      next
        case mem: False
        with c alu have "cls i = 5 \<or> cls i = 6" "\<exists>ex ex'. jmp_ok code (s_pc st) i ex = Some (Some ex')"
          by (simp_all only: if_False simp_thms)
        with mem alu j show ?thesis by (simp only: step False if_True if_False) blast
      qed
    qed
  qed
qed (simp add: bpf_step_def rd_def)

text \<open>Of a program the validator accepts, no reachable instruction fails for a structural reason.\<close>

lemma bpf_reach_at_insn:
  assumes "bpf_validate code = Some True" "bpf_reach code e st"
  shows "at_insn code st"
  using assms(2)
proof induction
  case start
  show ?case using validate_loop_checked [of code 0 False] assms(1)
    by (simp add: bpf_validate_def at_insn_def checked_from_def bpf_initial_def split: if_splits)
next
  case (step st st')
  have "insn_valid code (s_pc st)"
    using validate_loop_checked [of code 0 False] assms(1) step
    by (simp add: bpf_validate_def at_insn_def checked_from_def split: if_splits)
  from bpf_step_behaved [OF this] step show ?case by simp
qed

lemma bpf_reach_keeps:
  assumes "env_wf e" "bpf_reach code e st" shows "keeps (bpf_initial e) st"
  using assms(2)
proof induction
  case start
  show ?case by (rule keeps_refl [OF bpf_initial_wf [OF assms(1)]])
next
  case (step st st')
  then have "state_wf st" by (simp add: keeps_def)
  with step have "keeps st st'" using bpf_step_safe [of st code] by (metis step_safe_simps(4))
  with step show ?case by (auto simp: keeps_def intro: env_frame_trans)
qed

text \<open>C13: validated programs cannot go wrong structurally: at every state a run of an accepted program
  reaches, the next instruction continues, exits, or fails one of the two run-time checks (a memory
  access or a lookup argument); an unknown opcode, a bad register or a bad jump target never occurs.\<close>

theorem bpf_validated_progress:
  assumes "env_wf e" "bpf_validate code = Some True" "bpf_reach code e st" "s_pc st < length code"
  shows "(\<exists>st'. bpf_step code st = Some (Continue st')) \<or> (\<exists>v. bpf_step code st = Some (Exit v)) \<or>
    bpf_step code st = Some (Failure BadAccess) \<or> bpf_step code st = Some (Failure BadLookup)"
proof -
  have "at_insn code st" by (rule bpf_reach_at_insn [OF assms(2,3)])
  then have "insn_valid code (s_pc st)"
    using validate_loop_checked [of code 0 False] assms(2,4)
    by (simp add: bpf_validate_def at_insn_def checked_from_def split: if_splits)
  from bpf_step_behaved [OF this] have w: "well_behaved code (bpf_step code st)" .
  have "state_wf st" using bpf_reach_keeps [OF assms(1,3)] by (simp add: keeps_def)
  then obtain out where "bpf_step code st = Some out"
    using bpf_step_safe [of st code] assms(4) by (auto simp: step_safe_def elim: definedE)
  with w show ?thesis by (cases out) auto
qed

definition sample_code :: "BpfInsn list" where
  "sample_code = [\<lparr>i_code = 0x61, i_regs = 0x10, i_offset = 0, i_immediate = 0\<rparr>,
     \<lparr>i_code = 0x95, i_regs = 0, i_offset = 0, i_immediate = 0\<rparr>]"

theorem bpf_validated_progress_witness:
  "(\<exists>st'. bpf_step sample_code (bpf_initial sample_env) = Some (Continue st')) \<or>
   (\<exists>v. bpf_step sample_code (bpf_initial sample_env) = Some (Exit v)) \<or>
   bpf_step sample_code (bpf_initial sample_env) = Some (Failure BadAccess) \<or>
   bpf_step sample_code (bpf_initial sample_env) = Some (Failure BadLookup)"
proof (rule bpf_validated_progress [OF sample_env_wf])
  show "bpf_validate sample_code = Some True" by code_simp
  show "bpf_reach sample_code sample_env (bpf_initial sample_env)" by (rule bpf_reach.start)
qed (simp add: bpf_initial_def sample_code_def)

text \<open>C17: the frame pointer is constant and the machine keeps its shape: at every reachable state
  \<^verbatim>\<open>r[10]\<close> is the top of the stack, there are 11 registers and 512 stack bytes, and only writable map
  values have changed.\<close>

theorem bpf_reach_frame_pointer:
  assumes "env_wf e" "bpf_reach code e st"
  shows "s_regs st ! 10 = BPF_STACK + 512 \<and> length (s_regs st) = 11 \<and> length (s_stack st) = 512 \<and>
    env_wf (s_env st) \<and> env_frame e (s_env st)"
  using bpf_reach_keeps [OF assms] by (simp add: keeps_def state_wf_def bpf_initial_def)

theorem bpf_reach_frame_pointer_witness:
  "s_regs (bpf_initial sample_env) ! 10 = BPF_STACK + 512 \<and> length (s_regs (bpf_initial sample_env)) = 11 \<and>
   length (s_stack (bpf_initial sample_env)) = 512 \<and> env_wf (s_env (bpf_initial sample_env)) \<and>
   env_frame sample_env (s_env (bpf_initial sample_env))"
  by (rule bpf_reach_frame_pointer [OF sample_env_wf bpf_reach.start [of sample_code]])

section \<open>Validation is decided without a stray read\<close>

lemma defined_target [simp]: "defined (target code pc off)"
  by (auto simp: target_def Let_def)

lemma defined_check_insn: "pc < length code \<Longrightarrow> defined (check_insn code pc ex)"
  by (auto simp: check_insn_def jmp_ok_def not_le)

text \<open>The validator terminates with a verdict on every instruction sequence and never reads past it,
  not even for a wide immediate at the end or a jump out of the program.\<close>

lemma bpf_validate_total: "defined (bpf_validate code)"
proof -
  have "defined (validate_loop code pc ex)" for pc ex
  proof (induction code pc ex rule: validate_loop.induct)
    case (1 code pc ex)
    then show ?case
      by (cases "pc < length code")
        (auto simp: validate_loop.simps [of code pc ex] defined_check_insn split: option.split)
  qed
  then show ?thesis by (simp add: bpf_validate_def)
qed

end
