(* ===== verification/Firewall.thy ===== *)
theory Firewall
  imports Packet Bpf_Validate
begin

text \<open>
  The packet firewall: the rule table of \<^verbatim>\<open>src/jordyOS/net/firewall.c\<close>, its translation into eBPF maps in
  \<^verbatim>\<open>fw_bpf.c\<close> and the policy program \<^verbatim>\<open>bpf/program.bpf.c\<close>. The map structures and the rule matcher come
  from the upstream headers \<^verbatim>\<open>ebpfw_shared.h\<close> and \<^verbatim>\<open>ebpfw_count.h\<close>, which are not part of the sources:
  their byte layout is a record of encoders and the matcher is an argument. The compiled programs are
  generated and are arguments as well.
\<close>

section \<open>The rule table\<close>

abbreviation (input) FW_RULES :: nat where "FW_RULES \<equiv> 32"
abbreviation (input) FW_IN :: nat where "FW_IN \<equiv> 0"
abbreviation (input) FW_OUT :: nat where "FW_OUT \<equiv> 1"
abbreviation (input) NET_ICMP :: u8 where "NET_ICMP \<equiv> 1"
abbreviation (input) NET_TCP :: u8 where "NET_TCP \<equiv> 6"
abbreviation (input) NET_UDP :: u8 where "NET_UDP \<equiv> 17"

record FirewallRule =
  rl_source :: u32
  rl_source_mask :: u32
  rl_destination :: u32
  rl_destination_mask :: u32
  rl_hits :: u32
  rl_port :: u16
  rl_protocol :: u8
  rl_direction :: u8
  rl_allow :: bool
  rl_block :: bool

record Firewall =
  fw_rules :: "FirewallRule list"
  fw_count :: nat
  fw_enabled :: bool
  fw_defaults :: "bool list"
  fw_allowed :: "u32 list"
  fw_denied :: "u32 list"

definition zero_native :: FirewallRule where
  "zero_native = \<lparr>rl_source = 0, rl_source_mask = 0, rl_destination = 0, rl_destination_mask = 0, rl_hits = 0,
     rl_port = 0, rl_protocol = 0, rl_direction = 0, rl_allow = False, rl_block = False\<rparr>"

definition fw_reset :: "Firewall" where
  "fw_reset = \<lparr>fw_rules = replicate FW_RULES zero_native, fw_count = 0, fw_enabled = False, fw_defaults = [False, True],
     fw_allowed = [0, 0], fw_denied = [0, 0]\<rparr>"

definition rule_ok :: "FirewallRule \<Rightarrow> bool" where
  "rule_ok r \<longleftrightarrow> \<not> (rl_direction r > 1 \<or>
     (rl_protocol r \<noteq> 0 \<and> rl_protocol r \<noteq> NET_ICMP \<and> rl_protocol r \<noteq> NET_TCP \<and> rl_protocol r \<noteq> NET_UDP) \<or>
     (rl_port r \<noteq> 0 \<and> rl_protocol r \<noteq> NET_TCP \<and> rl_protocol r \<noteq> NET_UDP))"

definition fw_add :: "FirewallRule \<Rightarrow> Firewall \<Rightarrow> (bool \<times> Firewall) option" where
  "fw_add r fw =
     (if fw_count fw \<ge> FW_RULES \<or> \<not> rule_ok r then Some (False, fw)
      else do {
        rules \<leftarrow> wr (fw_rules fw) (fw_count fw) (r\<lparr>rl_hits := 0\<rparr>);
        Some (True, fw\<lparr>fw_rules := rules, fw_count := fw_count fw + 1\<rparr>) })"

function delete_loop :: "FirewallRule list \<Rightarrow> nat \<Rightarrow> nat \<Rightarrow> FirewallRule list option" where
  "delete_loop rules i n =
     (if i < n then if i = 0 then None else do { r \<leftarrow> rd rules i; rules \<leftarrow> wr rules (i - 1) r; delete_loop rules (i + 1) n }
      else Some rules)"
  by pat_completeness auto
termination
  by (relation "measure (\<lambda>(rules, i, n). n - i)") auto

declare delete_loop.simps [simp del]

definition fw_delete :: "nat \<Rightarrow> Firewall \<Rightarrow> (bool \<times> Firewall) option" where
  "fw_delete number fw =
     (if number = 0 \<or> number > fw_count fw then Some (False, fw)
      else do {
        rules \<leftarrow> delete_loop (fw_rules fw) number (fw_count fw);
        Some (True, fw\<lparr>fw_rules := rules, fw_count := fw_count fw - 1\<rparr>) })"

section \<open>Map contents\<close>

record bpf_rule =
  br_action :: nat
  br_direction :: nat
  br_family :: nat
  br_proto :: u8
  br_src_bits :: nat
  br_dst_bits :: nat
  br_src :: bytes
  br_dst :: bytes
  br_dport_lo :: u16
  br_dport_hi :: u16
  br_index :: nat

record bpf_header =
  bh_count :: nat
  bh_ready :: nat
  bh_schema :: nat
  bh_generation :: nat
  bh_defaults :: "nat list"
  bh_blocks :: nat

record bpf_packet =
  bp_direction :: nat
  bp_family :: nat
  bp_proto :: u8
  bp_sport :: u16
  bp_dport :: u16
  bp_len :: u16
  bp_src :: bytes
  bp_dst :: bytes

definition zero_rule :: bpf_rule where
  "zero_rule = \<lparr>br_action = 0, br_direction = 0, br_family = 0, br_proto = 0, br_src_bits = 0, br_dst_bits = 0,
     br_src = replicate 16 0, br_dst = replicate 16 0, br_dport_lo = 0, br_dport_hi = 0, br_index = 0\<rparr>"

definition zero_packet :: bpf_packet where
  "zero_packet = \<lparr>bp_direction = 0, bp_family = 0, bp_proto = 0, bp_sport = 0, bp_dport = 0, bp_len = 0,
     bp_src = replicate 16 0, bp_dst = replicate 16 0\<rparr>"

text \<open>\<open>mp_rules\<close> are the entries 1 to 32 of the policy array.\<close>

record fw_maps =
  mp_enabled :: bool
  mp_header :: bpf_header
  mp_rules :: "bpf_rule list"
  mp_prefixes :: "(nat \<times> bytes) list"
  mp_indexes :: "nat list"

lemma shift_out: "push_bit 32 w = 0" for w :: u32
  by (rule bit_word_eqI) (auto simp: bit_push_bit_iff)

function bits_loop :: "u32 \<Rightarrow> nat \<Rightarrow> nat" where
  "bits_loop msk n = (if msk \<noteq> 0 then bits_loop (push_bit 1 msk) (n + 1) else n)"
  by pat_completeness auto
termination
proof (relation "measure (\<lambda>(msk, n). LEAST k. push_bit k msk = 0)")
  fix msk :: u32 and n assume "msk \<noteq> 0"
  let ?P = "\<lambda>k. push_bit k msk = 0"
  have P: "?P (Least ?P)" using shift_out by (rule LeastI)
  then have "Least ?P \<noteq> 0" using \<open>msk \<noteq> 0\<close> by (metis push_bit_of_0 push_bit_0_id id_apply)
  then obtain j where j: "Least ?P = Suc j" by (cases "Least ?P") auto
  have "push_bit j (push_bit 1 msk) = 0" using P unfolding j by (simp add: push_bit_push_bit)
  then have "(LEAST k. push_bit k (push_bit 1 msk) = 0) \<le> j" by (rule Least_le)
  then show "((push_bit 1 msk, n + 1), msk, n) \<in> measure (\<lambda>(msk, n). LEAST k. push_bit k msk = 0)" using j by simp
qed simp

declare bits_loop.simps [simp del]

definition mask_bits :: "u32 \<Rightarrow> nat" where
  "mask_bits msk = bits_loop msk 0"

definition to_bpf :: "nat \<Rightarrow> FirewallRule \<Rightarrow> bpf_rule option" where
  "to_bpf i native = do {
     src \<leftarrow> net_write32 (br_src zero_rule) 0 (rl_source native);
     dst \<leftarrow> net_write32 (br_dst zero_rule) 0 (rl_destination native);
     Some \<lparr>br_action = (if rl_block native then 5 else if rl_allow native then 1 else 2),
       br_direction = (if rl_block native then 0 else unat (rl_direction native) + 1),
       br_family = 4, br_proto = rl_protocol native,
       br_src_bits = mask_bits (rl_source_mask native), br_dst_bits = mask_bits (rl_destination_mask native),
       br_src = src, br_dst = dst, br_dport_lo = rl_port native, br_dport_hi = rl_port native, br_index = i\<rparr> }"

text \<open>One pass over the rules; \<open>entry\<close> is the next free entry of the policy array, \<open>blocked\<close> of the prefix table.\<close>

function pass_loop :: "Firewall \<Rightarrow> bool \<Rightarrow> nat \<Rightarrow> nat \<Rightarrow> nat \<Rightarrow> fw_maps \<Rightarrow> (nat \<times> nat \<times> fw_maps) option" where
  "pass_loop fw first i entry blocked m =
     (if i < fw_count fw \<and> i < FW_RULES then do {
        native \<leftarrow> rd (fw_rules fw) i;
        if rl_block native \<noteq> first then pass_loop fw first (i + 1) entry blocked m
        else do {
          r \<leftarrow> to_bpf i native;
          rules \<leftarrow> (if entry = 0 then None else wr (mp_rules m) (entry - 1) r);
          if rl_block native then do {
            prefixes \<leftarrow> wr (mp_prefixes m) blocked (br_src_bits r, br_src r);
            indexes \<leftarrow> wr (mp_indexes m) blocked i;
            pass_loop fw first (i + 1) (entry + 1) (blocked + 1) (m\<lparr>mp_rules := rules, mp_prefixes := prefixes, mp_indexes := indexes\<rparr>) }
          else pass_loop fw first (i + 1) (entry + 1) blocked (m\<lparr>mp_rules := rules\<rparr>) } }
      else Some (entry, blocked, m))"
  by pat_completeness auto
termination
  by (relation "measure (\<lambda>(fw, first, i, entry, blocked, m). FW_RULES - i)") auto

declare pass_loop.simps [simp del]

definition fw_prepare :: "Firewall \<Rightarrow> fw_maps \<Rightarrow> fw_maps option" where
  "fw_prepare fw old = do {
     d0 \<leftarrow> rd (fw_defaults fw) 0; d1 \<leftarrow> rd (fw_defaults fw) 1;
     let h = \<lparr>bh_count = fw_count fw, bh_ready = 1, bh_schema = 2, bh_generation = 1,
       bh_defaults = [if d0 then 1 else 2, if d1 then 1 else 2], bh_blocks = 0\<rparr>;
     let m = old\<lparr>mp_enabled := fw_enabled fw, mp_header := h, mp_rules := replicate FW_RULES zero_rule\<rparr>;
     (entry, blocked, m) \<leftarrow> pass_loop fw True 0 1 0 m;
     (entry, blocked, m) \<leftarrow> pass_loop fw False 0 entry blocked m;
     Some (m\<lparr>mp_header := h\<lparr>bh_blocks := blocked\<rparr>\<rparr>) }"

section \<open>The policy program\<close>

text \<open>
  \<^verbatim>\<open>jordyos_policy\<close> over the prepared maps. The result is the verdict and the index \<^verbatim>\<open>count\<close> is called with;
  \<open>None\<close> inside the program's own \<^verbatim>\<open>return 1\<close> for a missing map entry is written out.
\<close>

function policy_loop :: "(bpf_rule \<Rightarrow> bpf_packet \<Rightarrow> bool) \<Rightarrow> fw_maps \<Rightarrow> bpf_packet \<Rightarrow> nat \<Rightarrow> nat \<Rightarrow> nat \<Rightarrow> nat \<times> nat option" where
  "policy_loop matches m p number action i =
     (if i < 32 \<and> i < number then
        (case rd (mp_rules m) i of None \<Rightarrow> (1, None)
         | Some r \<Rightarrow> if matches r p then (if br_action r = 1 then 2 else 1, Some (br_index r))
                     else policy_loop matches m p number action (i + 1))
      else (if action = 1 then 2 else 1, None))"
  by pat_completeness auto
termination
  by (relation "measure (\<lambda>(matches, m, p, number, action, i). 32 - i)") auto

declare policy_loop.simps [simp del]

definition jordyos_policy :: "(bpf_rule \<Rightarrow> bpf_packet \<Rightarrow> bool) \<Rightarrow> fw_maps \<Rightarrow> bpf_packet \<Rightarrow> nat \<times> nat option" where
  "jordyos_policy matches m p =
     (if \<not> mp_enabled m then (2, None)
      else let h = mp_header m in
        if bh_ready h = 0 \<or> bh_schema h \<noteq> 2 \<or> bh_count h > 32 \<or> bp_direction p < 1 \<or> bp_direction p > 2 then (1, None)
        else (case rd (bh_defaults h) (bp_direction p - 1) of None \<Rightarrow> (1, None)
          | Some action \<Rightarrow> policy_loop matches m p (bh_count h) action 0))"

section \<open>Running a compiled program\<close>

record abi =
  ab_header :: "bpf_header \<Rightarrow> bytes"
  ab_rule :: "bpf_rule \<Rightarrow> bytes"
  ab_key :: "nat \<times> bytes \<Rightarrow> bytes"
  ab_packet :: "bpf_packet \<Rightarrow> bytes"
  ab_packet_size :: nat
  ab_counter_size :: nat
  ab_packets :: "bytes \<Rightarrow> u64"

definition le32 :: "nat \<Rightarrow> bytes" where
  "le32 n = map (\<lambda>i. of_nat (n div 256 ^ i)) [0..<4]"

definition fw_environment :: "abi \<Rightarrow> fw_maps \<Rightarrow> bpf_packet \<Rightarrow> BpfEnvironment" where
  "fw_environment ab m meta = \<lparr>e_context = [], e_packet = [], e_context_size = 0, e_packet_size = 0, e_maps = [
     \<lparr>m_type = BPF_ARRAY, m_key_size = 4, m_value_size = 96, m_capacity = 33, m_entries = 0,
       m_values = Some (ab_header ab (mp_header m) @ concat (map (ab_rule ab) (mp_rules m))), m_keys = None, m_writable = False\<rparr>,
     \<lparr>m_type = BPF_MAP_ARRAY, m_key_size = 4, m_value_size = 4, m_capacity = 1, m_entries = 0,
       m_values = Some (le32 0), m_keys = None, m_writable = False\<rparr>,
     \<lparr>m_type = BPF_PERCPU_ARRAY, m_key_size = 4, m_value_size = of_nat (ab_counter_size ab), m_capacity = 48, m_entries = 0,
       m_values = Some (replicate (48 * ab_counter_size ab) 0), m_keys = None, m_writable = True\<rparr>,
     \<lparr>m_type = BPF_LPM, m_key_size = 20, m_value_size = 4, m_capacity = 32, m_entries = of_nat (bh_blocks (mp_header m)),
       m_values = Some (concat (map le32 (mp_indexes m))), m_keys = Some (concat (map (ab_key ab) (mp_prefixes m))), m_writable = False\<rparr>,
     \<lparr>m_type = BPF_LPM, m_key_size = 20, m_value_size = 4, m_capacity = 32, m_entries = 0,
       m_values = Some (concat (map le32 (mp_indexes m))), m_keys = Some (concat (map (ab_key ab) (mp_prefixes m))), m_writable = False\<rparr>,
     \<lparr>m_type = BPF_ARRAY, m_key_size = 4, m_value_size = 4, m_capacity = 1, m_entries = 0,
       m_values = Some (le32 (if mp_enabled m then 1 else 0)), m_keys = None, m_writable = False\<rparr>,
     \<lparr>m_type = BPF_ARRAY, m_key_size = 4, m_value_size = of_nat (ab_packet_size ab), m_capacity = 1, m_entries = 0,
       m_values = Some (ab_packet ab meta), m_keys = None, m_writable = False\<rparr>]\<rparr>"

record FirewallBpfStats =
  st_policy_runs :: u32
  st_xdp_runs :: u32
  st_xdp_drops :: u32
  st_faults :: u32
  st_steps :: u32

record fw_state =
  fs_fw :: Firewall
  fs_maps :: fw_maps
  fs_checked :: int
  fs_stats :: FirewallBpfStats

definition fw_bpf_ready :: "BpfInsn list \<Rightarrow> BpfInsn list \<Rightarrow> fw_state \<Rightarrow> (bool \<times> fw_state) option" where
  "fw_bpf_ready policy_code xdp_code s = do {
     checked \<leftarrow> (if fs_checked s \<noteq> 0 then Some (fs_checked s)
       else do { a \<leftarrow> bpf_validate policy_code; b \<leftarrow> (if a then bpf_validate xdp_code else Some False); Some (if a \<and> b then 1 else -1) });
     Some (checked = 1, s\<lparr>fs_checked := checked\<rparr>) }"

definition counter_packets :: "abi \<Rightarrow> BpfEnvironment \<Rightarrow> nat \<Rightarrow> u64 option" where
  "counter_packets ab e i = do {
     m \<leftarrow> rd (e_maps e) 2; v \<leftarrow> m_values m;
     c \<leftarrow> slice v (i * ab_counter_size ab) (ab_counter_size ab); Some (ab_packets ab c) }"

function hits_loop :: "abi \<Rightarrow> BpfEnvironment \<Rightarrow> nat \<Rightarrow> Firewall \<Rightarrow> Firewall option" where
  "hits_loop ab e i fw =
     (if i < fw_count fw \<and> i < FW_RULES then do {
        r \<leftarrow> rd (fw_rules fw) i; n \<leftarrow> counter_packets ab e i;
        rules \<leftarrow> wr (fw_rules fw) i (r\<lparr>rl_hits := rl_hits r + ucast n\<rparr>);
        hits_loop ab e (i + 1) (fw\<lparr>fw_rules := rules\<rparr>) }
      else Some fw)"
  by pat_completeness auto
termination
  by (relation "measure (\<lambda>(ab, e, i, fw). FW_RULES - i)") auto

declare hits_loop.simps [simp del]

definition bump_faults :: "fw_state \<Rightarrow> fw_state" where
  "bump_faults s = s\<lparr>fs_stats := (fs_stats s)\<lparr>st_faults := st_faults (fs_stats s) + 1\<rparr>\<rparr>"

definition fw_finish :: "abi \<Rightarrow> BpfResult \<Rightarrow> BpfEnvironment \<Rightarrow> fw_state \<Rightarrow> (bool \<times> fw_state) option" where
  "fw_finish ab res e s = (let s = s\<lparr>fs_stats := (fs_stats s)\<lparr>st_steps := st_steps (fs_stats s) + of_nat (r_steps res)\<rparr>\<rparr> in
     if \<not> r_ok res \<or> (r_value res \<noteq> 1 \<and> r_value res \<noteq> 2) then Some (False, bump_faults s)
     else do { fw \<leftarrow> hits_loop ab e 0 (fs_fw s); Some (r_value res = 2, s\<lparr>fs_fw := fw\<rparr>) })"

definition packet_meta :: "packet \<Rightarrow> nat \<Rightarrow> bpf_packet option" where
  "packet_meta p direction = do {
     src \<leftarrow> net_write32 (bp_src zero_packet) 0 (pkt_source p);
     dst \<leftarrow> net_write32 (bp_dst zero_packet) 0 (pkt_destination p);
     Some \<lparr>bp_direction = direction + 1, bp_family = 4, bp_proto = pkt_protocol p, bp_sport = pkt_source_port p,
       bp_dport = pkt_destination_port p, bp_len = pkt_length p, bp_src = src, bp_dst = dst\<rparr> }"

definition fw_bpf_policy :: "abi \<Rightarrow> BpfInsn list \<Rightarrow> BpfInsn list \<Rightarrow> packet \<Rightarrow> nat \<Rightarrow> fw_state \<Rightarrow> (bool \<times> fw_state) option" where
  "fw_bpf_policy ab policy_code xdp_code p direction s = do {
     (ready, s) \<leftarrow> fw_bpf_ready policy_code xdp_code s;
     if \<not> ready \<or> fw_count (fs_fw s) > FW_RULES then Some (False, bump_faults s)
     else do {
       m \<leftarrow> fw_prepare (fs_fw s) (fs_maps s);
       meta \<leftarrow> packet_meta p direction;
       (res, e) \<leftarrow> bpf_execute policy_code (fw_environment ab m meta);
       fw_finish ab res e (s\<lparr>fs_maps := m, fs_stats := (fs_stats s)\<lparr>st_policy_runs := st_policy_runs (fs_stats s) + 1\<rparr>\<rparr>) } }"

definition xdp_context :: "nat \<Rightarrow> bytes" where
  "xdp_context sz = le32 (unat BPF_DATA) @ le32 (unat BPF_DATA + sz) @ le32 (unat BPF_DATA) @ le32 1 @ le32 0 @ le32 0"

definition fw_bpf_xdp :: "abi \<Rightarrow> BpfInsn list \<Rightarrow> BpfInsn list \<Rightarrow> bytes \<Rightarrow> nat \<Rightarrow> fw_state \<Rightarrow> (bool \<times> fw_state) option" where
  "fw_bpf_xdp ab policy_code xdp_code frame sz s = do {
     (ready, s) \<leftarrow> fw_bpf_ready policy_code xdp_code s;
     if \<not> ready \<or> sz > 1514 \<or> fw_count (fs_fw s) > FW_RULES then Some (False, bump_faults s)
     else do {
       m \<leftarrow> fw_prepare (fs_fw s) (fs_maps s);
       (res, e) \<leftarrow> bpf_execute xdp_code ((fw_environment ab m zero_packet)\<lparr>e_context := xdp_context sz, e_context_size := 24,
         e_packet := frame, e_packet_size := of_nat sz\<rparr>);
       (pass, s) \<leftarrow> fw_finish ab res e (s\<lparr>fs_maps := m, fs_stats := (fs_stats s)\<lparr>st_xdp_runs := st_xdp_runs (fs_stats s) + 1\<rparr>\<rparr>);
       if pass then Some (True, s)
       else do {
         n \<leftarrow> rd (fw_denied (fs_fw s)) FW_IN; denied \<leftarrow> wr (fw_denied (fs_fw s)) FW_IN (n + 1);
         Some (False, s\<lparr>fs_fw := (fs_fw s)\<lparr>fw_denied := denied\<rparr>, fs_stats := (fs_stats s)\<lparr>st_xdp_drops := st_xdp_drops (fs_stats s) + 1\<rparr>\<rparr>) } } }"

definition fw_accept :: "abi \<Rightarrow> BpfInsn list \<Rightarrow> BpfInsn list \<Rightarrow> packet \<Rightarrow> nat \<Rightarrow> fw_state \<Rightarrow> (bool \<times> fw_state) option" where
  "fw_accept ab policy_code xdp_code p direction s =
     (if direction > FW_OUT then Some (False, s)
      else do {
        (allow, s) \<leftarrow> fw_bpf_policy ab policy_code xdp_code p direction s;
        let fw = fs_fw s;
        if allow then do {
          n \<leftarrow> rd (fw_allowed fw) direction; allowed \<leftarrow> wr (fw_allowed fw) direction (n + 1);
          Some (True, s\<lparr>fs_fw := fw\<lparr>fw_allowed := allowed\<rparr>\<rparr>) }
        else do {
          n \<leftarrow> rd (fw_denied fw) direction; denied \<leftarrow> wr (fw_denied fw) direction (n + 1);
          Some (False, s\<lparr>fs_fw := fw\<lparr>fw_denied := denied\<rparr>\<rparr>) } })"

section \<open>The table as a list of rules\<close>

definition fw_wf :: "Firewall \<Rightarrow> bool" where
  "fw_wf fw \<longleftrightarrow> length (fw_rules fw) = FW_RULES \<and> fw_count fw \<le> FW_RULES \<and> length (fw_defaults fw) = 2 \<and>
     length (fw_allowed fw) = 2 \<and> length (fw_denied fw) = 2 \<and> (\<forall>r \<in> set (take (fw_count fw) (fw_rules fw)). rule_ok r)"

definition fw_list :: "Firewall \<Rightarrow> FirewallRule list" where
  "fw_list fw = take (fw_count fw) (fw_rules fw)"

lemma fw_list_length: "fw_wf fw \<Longrightarrow> length (fw_list fw) = fw_count fw"
  by (simp add: fw_wf_def fw_list_def)

lemma fw_reset_wf: "fw_wf fw_reset" "fw_list fw_reset = []"
  by (simp_all add: fw_wf_def fw_list_def fw_reset_def)

lemma fw_add_spec:
  assumes "fw_wf fw"
  shows "\<exists>fw'. fw_add r fw = Some (length (fw_list fw) < FW_RULES \<and> rule_ok r, fw') \<and> fw_wf fw' \<and>
    fw_list fw' = (if length (fw_list fw) < FW_RULES \<and> rule_ok r then fw_list fw @ [r\<lparr>rl_hits := 0\<rparr>] else fw_list fw)"
proof (cases "fw_count fw \<ge> FW_RULES \<or> \<not> rule_ok r")
  case True
  then show ?thesis using assms fw_list_length [OF assms] by (auto simp: fw_add_def)
next
  case False
  have l: "length (fw_rules fw) = FW_RULES" using assms by (simp add: fw_wf_def)
  let ?fw = "fw\<lparr>fw_rules := (fw_rules fw)[fw_count fw := r\<lparr>rl_hits := 0\<rparr>], fw_count := fw_count fw + 1\<rparr>"
  have "fw_list ?fw = fw_list fw @ [r\<lparr>rl_hits := 0\<rparr>]" using l False by (simp add: fw_list_def take_Suc_conv_app_nth)
  moreover have "rule_ok (r\<lparr>rl_hits := 0\<rparr>)" using False by (simp add: rule_ok_def)
  ultimately have "fw_wf ?fw" using assms False l unfolding fw_wf_def fw_list_def by auto
  with \<open>fw_list ?fw = _\<close> show ?thesis using False l fw_list_length [OF assms] by (simp add: fw_add_def wr_def)
qed

lemma delete_loop_eq:
  "0 < i \<Longrightarrow> i \<le> n \<Longrightarrow> n \<le> length rules \<Longrightarrow>
   delete_loop rules i n = Some (take (i - 1) rules @ take (n - i) (drop i rules) @ drop (n - 1) rules)"
proof (induction "n - i" arbitrary: i rules)
  case 0
  then have "i = n" by simp
  then show ?case using 0 by (simp add: delete_loop.simps)
next
  case (Suc k)
  then have i: "i < n" "i < length rules" "i - 1 < length rules" by simp_all
  let ?r = "rules[i - 1 := rules ! i]"
  have "delete_loop rules i n = delete_loop ?r (i + 1) n"
    using i Suc.prems(1) by (subst delete_loop.simps) (simp add: rd_Some wr_Some)
  also have "\<dots> = Some (take i ?r @ take (n - (i + 1)) (drop (i + 1) ?r) @ drop (n - 1) ?r)"
    using Suc.hyps(2) Suc.prems i by (subst Suc.hyps(1)) simp_all
  also have "take i ?r = take (i - 1) rules @ [rules ! i]"
    using i Suc.prems(1) take_Suc_conv_app_nth [of "i - 1" ?r] by simp
  also have "drop (i + 1) ?r = drop (i + 1) rules" using i Suc.prems(1) by simp
  also have "drop (n - 1) ?r = drop (n - 1) rules" using i Suc.prems(1) by simp
  also have "(take (i - 1) rules @ [rules ! i]) @ take (n - (i + 1)) (drop (i + 1) rules) @ drop (n - 1) rules =
      take (i - 1) rules @ take (n - i) (drop i rules) @ drop (n - 1) rules"
    using i by (simp add: Cons_nth_drop_Suc [symmetric] take_Cons' )
  finally show ?case .
qed

lemma fw_delete_spec:
  assumes "fw_wf fw"
  shows "\<exists>fw'. fw_delete n fw = Some (0 < n \<and> n \<le> length (fw_list fw), fw') \<and> fw_wf fw' \<and>
    fw_list fw' = (if 0 < n \<and> n \<le> length (fw_list fw) then take (n - 1) (fw_list fw) @ drop n (fw_list fw) else fw_list fw)"
proof (cases "n = 0 \<or> n > fw_count fw")
  case True
  then show ?thesis using assms fw_list_length [OF assms] by (auto simp: fw_delete_def)
next
  case False
  have l: "length (fw_rules fw) = FW_RULES" "fw_count fw \<le> FW_RULES" using assms by (simp_all add: fw_wf_def)
  let ?l = "take (n - 1) (fw_rules fw) @ take (fw_count fw - n) (drop n (fw_rules fw)) @ drop (fw_count fw - 1) (fw_rules fw)"
  let ?fw = "fw\<lparr>fw_rules := ?l, fw_count := fw_count fw - 1\<rparr>"
  have d: "delete_loop (fw_rules fw) n (fw_count fw) = Some ?l" using False l by (intro delete_loop_eq) simp_all
  have "fw_list ?fw = take (n - 1) (fw_rules fw) @ take (fw_count fw - n) (drop n (fw_rules fw))"
  proof -
    have "n - 1 \<le> fw_count fw - 1" "length (take (n - 1) (fw_rules fw) @ take (fw_count fw - n) (drop n (fw_rules fw))) = fw_count fw - 1"
      using False l by auto
    then have "take (fw_count fw - 1) ((take (n - 1) (fw_rules fw) @ take (fw_count fw - n) (drop n (fw_rules fw))) @ drop (fw_count fw - 1) (fw_rules fw)) =
        take (n - 1) (fw_rules fw) @ take (fw_count fw - n) (drop n (fw_rules fw))" by (metis append_eq_conv_conj)
    moreover have "fw_list ?fw = take (fw_count fw - 1) ?l" by (simp add: fw_list_def del: take_append)
    ultimately show ?thesis by simp
  qed
  also have "\<dots> = take (n - 1) (fw_list fw) @ drop n (fw_list fw)" using False by (auto simp: fw_list_def drop_take min_def)
  finally have e: "fw_list ?fw = take (n - 1) (fw_list fw) @ drop n (fw_list fw)" .
  have "\<forall>r \<in> set (fw_list ?fw). rule_ok r" unfolding e using assms
    by (auto simp: fw_wf_def fw_list_def simp del: take_take dest: in_set_takeD in_set_dropD)
  moreover have "length (fw_rules ?fw) = FW_RULES" using False l by simp arith
  moreover have "fw_count ?fw \<le> FW_RULES" "length (fw_defaults ?fw) = 2" "length (fw_allowed ?fw) = 2" "length (fw_denied ?fw) = 2"
    using assms by (auto simp: fw_wf_def)
  ultimately have "fw_wf ?fw" unfolding fw_wf_def fw_list_def by blast
  with e d show ?thesis using False fw_list_length [OF assms] by (simp add: fw_delete_def)
qed

section \<open>Prefix lengths\<close>

lemma bits_loop_eq: "bits_loop msk n = n + (LEAST k. push_bit k msk = 0)"
proof (induction msk n rule: bits_loop.induct)
  case (1 msk n)
  let ?P = "\<lambda>k. push_bit k msk = 0"
  show ?case
  proof (cases "msk = 0")
    case True
    then show ?thesis by (subst bits_loop.simps) (simp add: Least_eq_0)
  next
    case False
    have "(LEAST k. ?P k) = Suc (LEAST k. ?P (Suc k))" using shift_out False by (intro Least_Suc [of ?P 32]) simp_all
    moreover have "?P (Suc k) \<longleftrightarrow> push_bit k (push_bit 1 msk) = 0" for k by (simp add: push_bit_push_bit)
    ultimately show ?thesis using 1 False by (subst bits_loop.simps) simp
  qed
qed

lemma mask_bits_prefix: "unat p \<le> 32 \<Longrightarrow> mask_bits (prefix_mask p) = unat p"
proof -
  assume p: "unat p \<le> 32"
  have "push_bit k (prefix_mask p) = 0 \<longleftrightarrow> unat p \<le> k" for k
  proof
    assume z: "push_bit k (prefix_mask p) = 0"
    show "unat p \<le> k"
    proof (rule ccontr)
      assume "\<not> unat p \<le> k"
      then have "bit (push_bit k (prefix_mask p)) (32 - unat p + k)" using p by (auto simp: bit_push_bit_iff prefix_mask_bit)
      with z show False by simp
    qed
  next
    assume "unat p \<le> k"
    then show "push_bit k (prefix_mask p) = 0" by (intro bit_word_eqI) (auto simp: bit_push_bit_iff prefix_mask_bit [OF p])
  qed
  then have "(LEAST k. push_bit k (prefix_mask p) = 0) = unat p" by (intro Least_equality) simp_all
  then show ?thesis by (simp add: mask_bits_def bits_loop_eq)
qed

section \<open>The prepared policy\<close>

definition addr16 :: "u32 \<Rightarrow> bytes" where
  "addr16 a = the (net_write32 (replicate 16 0) 0 a)"

lemma addr16: "net_write32 (replicate 16 0) 0 a = Some (addr16 a)" "length (addr16 a) = 16"
proof -
  obtain q where "net_write32 (replicate 16 0) 0 a = Some q" using n32.put_Some [of 0 "replicate 16 0" a] by auto
  then show "net_write32 (replicate 16 0) 0 a = Some (addr16 a)" "length (addr16 a) = 16"
    using n32.put_length [of "replicate 16 0" 0 a q] by (simp_all add: addr16_def)
qed

text \<open>A native rule in the shape of the policy array.\<close>

definition bpf_of :: "nat \<Rightarrow> FirewallRule \<Rightarrow> bpf_rule" where
  "bpf_of i native = \<lparr>br_action = (if rl_block native then 5 else if rl_allow native then 1 else 2),
       br_direction = (if rl_block native then 0 else unat (rl_direction native) + 1),
       br_family = 4, br_proto = rl_protocol native,
       br_src_bits = mask_bits (rl_source_mask native), br_dst_bits = mask_bits (rl_destination_mask native),
       br_src = addr16 (rl_source native), br_dst = addr16 (rl_destination native),
       br_dport_lo = rl_port native, br_dport_hi = rl_port native, br_index = i\<rparr>"

lemma to_bpf_eq: "to_bpf i r = Some (bpf_of i r)"
  by (simp add: to_bpf_def zero_rule_def addr16 bpf_of_def)

definition chosen :: "Firewall \<Rightarrow> bool \<Rightarrow> nat \<Rightarrow> nat list" where
  "chosen fw first i = filter (\<lambda>j. rl_block (fw_rules fw ! j) = first) [i..<fw_count fw]"

lemma chosen_step: "i < fw_count fw \<Longrightarrow> chosen fw first i =
    (if rl_block (fw_rules fw ! i) = first then i # chosen fw first (i + 1) else chosen fw first (i + 1))"
  by (simp add: chosen_def upt_conv_Cons)

lemma chosen_end: "fw_count fw \<le> i \<Longrightarrow> chosen fw first i = []"
  by (simp add: chosen_def)

definition same_tables :: "fw_maps \<Rightarrow> fw_maps \<Rightarrow> bool" where
  "same_tables m m' \<longleftrightarrow> mp_enabled m' = mp_enabled m \<and> mp_header m' = mp_header m \<and>
     length (mp_prefixes m') = length (mp_prefixes m) \<and> length (mp_indexes m') = length (mp_indexes m) \<and>
     ((\<forall>x \<in> set (mp_prefixes m). length (snd x) = 16) \<longrightarrow> (\<forall>x \<in> set (mp_prefixes m'). length (snd x) = 16))"

lemma same_tables_trans: "same_tables a b \<Longrightarrow> same_tables b c \<Longrightarrow> same_tables a c"
  by (simp add: same_tables_def)

lemma pass_loop_eq:
  assumes "fw_wf fw"
  shows "entry + length (chosen fw first i) \<le> 32 \<Longrightarrow> length (mp_rules m) = 32 \<Longrightarrow> length (mp_prefixes m) = 32 \<Longrightarrow>
    length (mp_indexes m) = 32 \<Longrightarrow> blocked \<le> entry \<Longrightarrow>
    \<exists>m'. pass_loop fw first i (entry + 1) blocked m =
      Some (entry + 1 + length (chosen fw first i), blocked + (if first then length (chosen fw first i) else 0), m') \<and>
      same_tables m m' \<and>
      mp_rules m' = take entry (mp_rules m) @ map (\<lambda>j. bpf_of j (fw_rules fw ! j)) (chosen fw first i) @ drop (entry + length (chosen fw first i)) (mp_rules m)"
proof (induction "fw_count fw - i" arbitrary: i entry blocked m)
  case 0
  then have "chosen fw first i = []" "\<not> i < fw_count fw" by (simp_all add: chosen_end)
  then show ?case by (subst pass_loop.simps) (cases first, simp_all add: same_tables_def)
next
  case (Suc k)
  have l: "length (fw_rules fw) = FW_RULES" "fw_count fw \<le> FW_RULES" using assms by (simp_all add: fw_wf_def)
  have i: "i < fw_count fw" "i < FW_RULES" using Suc.hyps(2) l by simp_all
  have k: "k = fw_count fw - (i + 1)" using Suc.hyps(2) by simp
  let ?r = "fw_rules fw ! i"
  show ?case
  proof (cases "rl_block ?r = first")
    case False
    then have step: "pass_loop fw first i (entry + 1) blocked m = pass_loop fw first (i + 1) (entry + 1) blocked m"
      using i l by (subst pass_loop.simps) (simp add: rd_Some)
    have c: "chosen fw first i = chosen fw first (i + 1)" using i(1) False by (simp add: chosen_step)
    show ?thesis using Suc.prems unfolding step c by (rule Suc.hyps(1) [OF k])
  next
    case True
    have c: "chosen fw first i = i # chosen fw first (i + 1)" using True i by (simp add: chosen_step)
    let ?m = "m\<lparr>mp_rules := (mp_rules m)[entry := bpf_of i ?r]\<rparr>"
    let ?mb = "?m\<lparr>mp_prefixes := (mp_prefixes m)[blocked := (br_src_bits (bpf_of i ?r), br_src (bpf_of i ?r))], mp_indexes := (mp_indexes m)[blocked := i]\<rparr>"
    let ?n = "if first then ?mb else ?m" and ?b = "if first then blocked + 1 else blocked"
    have e: "entry < 32" "blocked < 32" using Suc.prems(1,5) c by simp_all
    have step: "pass_loop fw first i (entry + 1) blocked m = pass_loop fw first (i + 1) (entry + 1 + 1) ?b ?n"
      using i l e True Suc.prems(2-4) by (subst pass_loop.simps) (simp add: rd_Some wr_Some to_bpf_eq)
    have "length (br_src (bpf_of i ?r)) = 16" by (simp add: bpf_of_def addr16)
    then have st: "same_tables m ?n" by (auto simp: same_tables_def dest!: set_update_subset_insert [THEN subsetD])
    have r: "mp_rules ?n = (mp_rules m)[entry := bpf_of i ?r]" by simp
    have "entry + 1 + length (chosen fw first (i + 1)) \<le> 32" "length (mp_rules ?n) = 32" "length (mp_prefixes ?n) = 32" "length (mp_indexes ?n) = 32" "?b \<le> entry + 1"
      using Suc.prems c by simp_all
    from Suc.hyps(1) [OF k this] obtain m' where m': "pass_loop fw first (i + 1) (entry + 1 + 1) ?b ?n =
        Some (entry + 1 + 1 + length (chosen fw first (i + 1)), ?b + (if first then length (chosen fw first (i + 1)) else 0), m')"
      "same_tables ?n m'" "mp_rules m' = take (entry + 1) (mp_rules ?n) @ map (\<lambda>j. bpf_of j (fw_rules fw ! j)) (chosen fw first (i + 1)) @
        drop (entry + 1 + length (chosen fw first (i + 1))) (mp_rules ?n)" by blast
    have "same_tables m m'" using st m'(2) by (rule same_tables_trans)
    moreover have "mp_rules m' = take entry (mp_rules m) @ map (\<lambda>j. bpf_of j (fw_rules fw ! j)) (chosen fw first i) @
        drop (entry + length (chosen fw first i)) (mp_rules m)"
      unfolding m'(3) r c using e(1) Suc.prems(2) by (simp add: take_Suc_conv_app_nth)
    ultimately show ?thesis using step m'(1) c by (simp split: if_splits)
  qed
qed

lemma chosen_lengths: "length (chosen fw True 0) + length (chosen fw False 0) = fw_count fw"
  using sum_length_filter_compl [of "\<lambda>j. rl_block (fw_rules fw ! j)" "[0..<fw_count fw]"] by (simp add: chosen_def)

definition maps_ok :: "fw_maps \<Rightarrow> bool" where
  "maps_ok m \<longleftrightarrow> length (mp_prefixes m) = 32 \<and> length (mp_indexes m) = 32 \<and> (\<forall>x \<in> set (mp_prefixes m). length (snd x) = 16)"

text \<open>Blocks first, then the other rules, each in table order.\<close>

definition policy_order :: "Firewall \<Rightarrow> nat list" where
  "policy_order fw = chosen fw True 0 @ chosen fw False 0"

lemma fw_prepare_eq:
  assumes "fw_wf fw" "maps_ok old"
  obtains m where "fw_prepare fw old = Some m" "maps_ok m" "mp_enabled m = fw_enabled fw"
    "mp_rules m = map (\<lambda>j. bpf_of j (fw_rules fw ! j)) (policy_order fw) @ replicate (32 - fw_count fw) zero_rule"
    "mp_header m = \<lparr>bh_count = fw_count fw, bh_ready = 1, bh_schema = 2, bh_generation = 1,
       bh_defaults = map (\<lambda>d. if d then 1 else 2) (fw_defaults fw), bh_blocks = length (chosen fw True 0)\<rparr>"
proof -
  let ?B = "chosen fw True 0" and ?N = "chosen fw False 0"
  obtain d0 d1 where d: "fw_defaults fw = [d0, d1]" using assms(1) by (auto simp: fw_wf_def numeral_2_eq_2 length_Suc_conv)
  have n: "length ?B + length ?N = fw_count fw" "fw_count fw \<le> 32" using chosen_lengths assms(1) by (simp_all add: fw_wf_def)
  define h where "h = \<lparr>bh_count = fw_count fw, bh_ready = 1, bh_schema = 2, bh_generation = 1,
       bh_defaults = [if d0 then 1 else 2 :: nat, if d1 then 1 else 2], bh_blocks = 0\<rparr>"
  define m0 where "m0 = old\<lparr>mp_enabled := fw_enabled fw, mp_header := h, mp_rules := replicate FW_RULES zero_rule\<rparr>"
  have m0: "maps_ok m0" "mp_rules m0 = replicate 32 zero_rule" "length (mp_rules m0) = 32" "length (mp_prefixes m0) = 32" "length (mp_indexes m0) = 32" "mp_enabled m0 = fw_enabled fw"
    using assms(2) by (simp_all add: m0_def maps_ok_def)
  obtain m1 where m1: "pass_loop fw True 0 1 0 m0 = Some (1 + length ?B, length ?B, m1)" "same_tables m0 m1"
    "mp_rules m1 = map (\<lambda>j. bpf_of j (fw_rules fw ! j)) ?B @ drop (length ?B) (mp_rules m0)"
    using pass_loop_eq [OF assms(1), of 0 True 0 m0 0] n m0 by auto
  have l1: "length (mp_rules m1) = 32" "length (mp_prefixes m1) = 32" "length (mp_indexes m1) = 32"
    using m1(2,3) n m0 by (simp_all add: same_tables_def)
  obtain m2 where m2: "pass_loop fw False 0 (1 + length ?B) (length ?B) m1 = Some (1 + length ?B + length ?N, length ?B, m2)" "same_tables m1 m2"
    "mp_rules m2 = take (length ?B) (mp_rules m1) @ map (\<lambda>j. bpf_of j (fw_rules fw ! j)) ?N @ drop (length ?B + length ?N) (mp_rules m1)"
    using pass_loop_eq [OF assms(1), of "length ?B" False 0 m1 "length ?B"] n l1 by auto
  let ?m = "m2\<lparr>mp_header := h\<lparr>bh_blocks := length ?B\<rparr>\<rparr>"
  have "rd (fw_defaults fw) 0 = Some d0" "rd (fw_defaults fw) 1 = Some d1" by (simp_all add: d rd_def)
  then have "fw_prepare fw old = Some ?m"
    by (simp only: fw_prepare_def Let_def bind.bind_lunit h_def [symmetric] m0_def [symmetric] m1(1) m2(1) prod.case)
  moreover have "mp_rules ?m = map (\<lambda>j. bpf_of j (fw_rules fw ! j)) (policy_order fw) @ replicate (32 - fw_count fw) zero_rule"
    using m1(3) m2(3) n m0(2) by (simp add: policy_order_def)
  moreover have st: "same_tables m0 m2" by (rule same_tables_trans [OF m1(2) m2(2)])
  then have "\<forall>x \<in> set (mp_prefixes m2). length (snd x) = 16" using m0(1) unfolding same_tables_def maps_ok_def by blast
  then have "maps_ok ?m" using st m0(4,5) by (simp add: same_tables_def maps_ok_def)
  moreover have "mp_enabled ?m = fw_enabled fw" using st m0(6) by (simp add: same_tables_def)
  ultimately show ?thesis using that by (simp add: d h_def)
qed

section \<open>First match\<close>

lemma policy_loop_find:
  "length xs \<le> 32 \<Longrightarrow> i \<le> length xs \<Longrightarrow> mp_rules m = map f xs @ rest \<Longrightarrow>
   policy_loop matches m p (length xs) action i =
     (case find (\<lambda>j. matches (f j) p) (drop i xs) of
        Some j \<Rightarrow> (if br_action (f j) = 1 then 2 else 1, Some (br_index (f j)))
      | None \<Rightarrow> (if action = 1 then 2 else 1, None))"
proof (induction "length xs - i" arbitrary: i)
  case 0
  then have "i = length xs" by simp
  then show ?case by (subst policy_loop.simps) simp
next
  case (Suc k)
  then have i: "i < length xs" "i < 32" by simp_all
  then have n: "rd (mp_rules m) i = Some (f (xs ! i))" using Suc.prems by (simp add: rd_def nth_append)
  have d: "drop i xs = xs ! i # drop (i + 1) xs" using i(1) by (simp add: Cons_nth_drop_Suc)
  have k: "k = length xs - (i + 1)" "i + 1 \<le> length xs" using Suc.hyps(2) by simp_all
  show ?case
    using Suc.hyps(1) [OF k(1) Suc.prems(1) k(2) Suc.prems(3)] i unfolding d by (subst policy_loop.simps) (simp add: n)
qed

text \<open>
  The reference policy over the native table: a disabled firewall passes everything; otherwise the first
  block rule that matches denies, then the first ordinary rule that matches decides, then the default of
  the direction.
\<close>

definition fw_verdict :: "(bpf_rule \<Rightarrow> bpf_packet \<Rightarrow> bool) \<Rightarrow> Firewall \<Rightarrow> bpf_packet \<Rightarrow> nat \<Rightarrow> nat \<times> nat option" where
  "fw_verdict matches fw p direction = (let hit = (\<lambda>j. matches (bpf_of j (fw_rules fw ! j)) p) in
     if \<not> fw_enabled fw then (2, None)
     else case find hit (filter (\<lambda>j. rl_block (fw_rules fw ! j)) [0..<fw_count fw]) of
       Some j \<Rightarrow> (1, Some j)
     | None \<Rightarrow> (case find hit (filter (\<lambda>j. \<not> rl_block (fw_rules fw ! j)) [0..<fw_count fw]) of
         Some j \<Rightarrow> (if rl_allow (fw_rules fw ! j) then 2 else 1, Some j)
       | None \<Rightarrow> (if fw_defaults fw ! direction then 2 else 1, None)))"

lemma find_append: "find P (xs @ ys) = (case find P xs of Some x \<Rightarrow> Some x | None \<Rightarrow> find P ys)"
  by (induction xs) auto

lemma find_Some_prop: "find P xs = Some x \<Longrightarrow> x \<in> set xs \<and> P x"
  by (auto simp: find_Some_iff in_set_conv_nth)

lemma chosen_filter: "chosen fw True 0 = filter (\<lambda>j. rl_block (fw_rules fw ! j)) [0..<fw_count fw]"
  "chosen fw False 0 = filter (\<lambda>j. \<not> rl_block (fw_rules fw ! j)) [0..<fw_count fw]"
  by (simp_all add: chosen_def)

lemma policy_order_length: "length (policy_order fw) = fw_count fw"
  using chosen_lengths by (simp add: policy_order_def)

lemma bpf_action: "br_index (bpf_of j r) = j"
  "br_action (bpf_of j r) = Suc 0 \<longleftrightarrow> \<not> rl_block r \<and> rl_allow r"
  by (simp_all add: bpf_of_def)

text \<open>C30: For every well-formed rule table and every packet of direction in or out, translating the table into
  the policy map succeeds, and the policy program on that map gives the verdict of the reference policy and
  counts the rule the reference policy selects: blocks before all ordinary rules, each group in table order,
  first match wins, the direction's default last, everything passed when disabled. The rule matcher of the
  upstream header is arbitrary.\<close>

theorem policy_first_match:
  assumes "fw_wf fw" "maps_ok old" "d \<le> 1" "bp_direction p = d + 1"
  shows "\<exists>m. fw_prepare fw old = Some m \<and> jordyos_policy matches m p = fw_verdict matches fw p d"
proof -
  obtain m where m: "fw_prepare fw old = Some m" "mp_enabled m = fw_enabled fw"
    "mp_rules m = map (\<lambda>j. bpf_of j (fw_rules fw ! j)) (policy_order fw) @ replicate (32 - fw_count fw) zero_rule"
    "mp_header m = \<lparr>bh_count = fw_count fw, bh_ready = 1, bh_schema = 2, bh_generation = 1,
       bh_defaults = map (\<lambda>d. if d then 1 else 2) (fw_defaults fw), bh_blocks = length (chosen fw True 0)\<rparr>"
    by (rule fw_prepare_eq [OF assms(1,2)])
  have n: "fw_count fw \<le> 32" "length (fw_defaults fw) = 2" using assms(1) by (simp_all add: fw_wf_def)
  have dd: "rd (bh_defaults (mp_header m)) d = Some (if fw_defaults fw ! d then 1 else 2)"
    using n(2) assms(3) unfolding m(4) by (simp add: rd_def)
  let ?hit = "\<lambda>j. matches (bpf_of j (fw_rules fw ! j)) p"
  note loop = policy_loop_find [of "policy_order fw" 0 m "\<lambda>j. bpf_of j (fw_rules fw ! j)", OF _ _ m(3), where p = p and matches = matches, unfolded policy_order_length]
  have block: "rl_block (fw_rules fw ! j)" if "find ?hit (chosen fw True 0) = Some j" for j
    using find_Some_prop [OF that] by (simp add: chosen_def)
  have rest: "\<not> rl_block (fw_rules fw ! j)" if "find ?hit (chosen fw False 0) = Some j" for j
    using find_Some_prop [OF that] by (simp add: chosen_def)
  have "jordyos_policy matches m p = fw_verdict matches fw p d"
  proof (cases "fw_enabled fw")
    case False
    then show ?thesis by (simp add: jordyos_policy_def fw_verdict_def m(2))
  next
    case True
    have "jordyos_policy matches m p = policy_loop matches m p (fw_count fw) (if fw_defaults fw ! d then 1 else 2) 0"
    proof -
      have "bh_ready (mp_header m) = 1" "bh_schema (mp_header m) = 2" "bh_count (mp_header m) = fw_count fw"
        by (simp_all add: m(4))
      moreover have "bp_direction p - 1 = d" "\<not> bp_direction p < 1" "\<not> bp_direction p > 2" using assms(3,4) by simp_all
      ultimately show ?thesis using True n(1) unfolding jordyos_policy_def Let_def m(2) by (simp only: dd option.case) simp
    qed
    also have "\<dots> = fw_verdict matches fw p d"
    proof (cases "find ?hit (chosen fw True 0)")
      case (Some j)
      then show ?thesis using n(1) True block [OF Some]
        by (simp add: loop fw_verdict_def policy_order_def find_append chosen_filter [symmetric] bpf_action)
    next
      case None
      then show ?thesis using n(1) True rest
        by (cases "find ?hit (chosen fw False 0)")
          (simp_all add: loop fw_verdict_def policy_order_def find_append chosen_filter [symmetric] bpf_action)
    qed
    finally show ?thesis .
  qed
  with m(1) show ?thesis by blast
qed

section \<open>The environment of the compiled programs\<close>

text \<open>What the C layouts promise: 96-byte policy entries, 20-byte prefixes, fixed-size packets.\<close>

definition abi_wf :: "abi \<Rightarrow> bool" where
  "abi_wf ab \<longleftrightarrow> (\<forall>h. length (ab_header ab h) = 96) \<and> (\<forall>r. length (ab_rule ab r) = 96) \<and>
     (\<forall>n a. length a = 16 \<longrightarrow> length (ab_key ab (n, a)) = 20) \<and>
     (\<forall>p. length (ab_packet ab p) = ab_packet_size ab) \<and> ab_packet_size ab \<le> 256 \<and> ab_counter_size ab \<le> 256"

lemma length_concat_const: "(\<And>x. x \<in> set xs \<Longrightarrow> length (f x) = n) \<Longrightarrow> length (concat (map f xs)) = length xs * n"
  by (induction xs) auto

lemma le32_length [simp]: "length (le32 n) = 4"
  by (simp add: le32_def)

lemma of_nat_u32: "n < 4294967296 \<Longrightarrow> unat (of_nat n :: u32) = n"
  by (simp add: unat_of_nat take_bit_eq_mod)

lemma fw_environment_wf:
  assumes "abi_wf ab" "maps_ok m" "length (mp_rules m) = 32" "bh_blocks (mp_header m) \<le> 32"
  shows "env_wf (fw_environment ab m meta)"
proof -
  have k: "length (concat (map (ab_key ab) (mp_prefixes m))) = 640"
    using assms(1,2) by (subst length_concat_const [where n = 20]) (auto simp: maps_ok_def abi_wf_def)
  have r: "length (concat (map (ab_rule ab) (mp_rules m))) = 3072"
    using assms(1,3) by (subst length_concat_const [where n = 96]) (auto simp: abi_wf_def)
  have i: "length (concat (map le32 (mp_indexes m))) = 128"
    using assms(2) by (subst length_concat_const [where n = 4]) (auto simp: maps_ok_def)
  have h: "length (ab_header ab h) = 96" "length (ab_packet ab meta) = ab_packet_size ab" for h
    using assms(1) by (simp_all add: abi_wf_def)
  have s: "unat (of_nat (ab_packet_size ab) :: u32) = ab_packet_size ab" "unat (of_nat (ab_counter_size ab) :: u32) = ab_counter_size ab"
    "unat (of_nat (bh_blocks (mp_header m)) :: u32) = bh_blocks (mp_header m)"
    using assms(1,4) by (intro of_nat_u32; simp add: abi_wf_def)+
  show ?thesis using assms(4) by (simp add: env_wf_def fw_environment_def map_wf_def k r i h s)
qed

lemma env_wf_packet:
  "env_wf e \<Longrightarrow> length c = unat cs \<Longrightarrow> unat ps \<le> length f \<Longrightarrow>
   env_wf (e\<lparr>e_context := c, e_context_size := cs, e_packet := f, e_packet_size := ps\<rparr>)"
  by (simp add: env_wf_def)

section \<open>Counting\<close>

definition same_policy :: "Firewall \<Rightarrow> Firewall \<Rightarrow> bool" where
  "same_policy fw fw' \<longleftrightarrow> map (rl_hits_update (\<lambda>_. 0)) (fw_list fw') = map (rl_hits_update (\<lambda>_. 0)) (fw_list fw) \<and>
     fw_enabled fw' = fw_enabled fw \<and> fw_defaults fw' = fw_defaults fw"

lemma same_policy_refl [simp]: "same_policy fw fw"
  by (simp add: same_policy_def)

lemma same_policy_trans: "same_policy a b \<Longrightarrow> same_policy b c \<Longrightarrow> same_policy a c"
  by (simp add: same_policy_def)

lemma rule_ok_hits: "rule_ok (r\<lparr>rl_hits := n\<rparr>) = rule_ok r"
  by (simp add: rule_ok_def)

lemma hits_step:
  assumes "fw_wf fw" "i < fw_count fw"
  shows "fw_wf (fw\<lparr>fw_rules := (fw_rules fw)[i := (fw_rules fw ! i)\<lparr>rl_hits := n\<rparr>]\<rparr>)"
    and "same_policy fw (fw\<lparr>fw_rules := (fw_rules fw)[i := (fw_rules fw ! i)\<lparr>rl_hits := n\<rparr>]\<rparr>)"
proof -
  let ?x = "(fw_rules fw ! i)\<lparr>rl_hits := n\<rparr>"
  let ?fw = "fw\<lparr>fw_rules := (fw_rules fw)[i := ?x]\<rparr>"
  have l: "fw_list ?fw = (fw_list fw)[i := ?x]" by (simp add: fw_list_def take_update_swap)
  have i: "i < length (fw_list fw)" "fw_list fw ! i = fw_rules fw ! i"
    using assms fw_list_length [OF assms(1)] by (simp_all add: fw_list_def)
  have "rule_ok ?x" using assms(1) i nth_mem [OF i(1)] by (simp add: rule_ok_hits fw_wf_def fw_list_def)
  then have "\<forall>r \<in> set (fw_list ?fw). rule_ok r" using assms(1) unfolding l
    by (auto simp: fw_wf_def fw_list_def dest!: set_update_subset_insert [THEN subsetD])
  moreover have "length (fw_rules ?fw) = FW_RULES" "fw_count ?fw \<le> FW_RULES" "length (fw_defaults ?fw) = 2"
    "length (fw_allowed ?fw) = 2" "length (fw_denied ?fw) = 2" using assms(1) by (simp_all add: fw_wf_def)
  ultimately show "fw_wf ?fw" unfolding fw_wf_def fw_list_def by blast
  have "map (rl_hits_update (\<lambda>_. 0)) (fw_list ?fw) = map (rl_hits_update (\<lambda>_. 0)) (fw_list fw)"
    unfolding l map_update using i by (intro list_update_same_conv [THEN iffD2]) simp_all
  then show "same_policy fw ?fw" by (simp add: same_policy_def)
qed

lemma hits_loop_spec:
  assumes "\<And>i. i < 32 \<Longrightarrow> defined (counter_packets ab e i)" "fw_wf fw"
  shows "\<exists>fw'. hits_loop ab e i fw = Some fw' \<and> fw_wf fw' \<and> same_policy fw fw' \<and>
    fw_allowed fw' = fw_allowed fw \<and> fw_denied fw' = fw_denied fw"
  using assms
proof (induction ab e i fw rule: hits_loop.induct)
  case (1 ab e i fw)
  show ?case
  proof (cases "i < fw_count fw \<and> i < FW_RULES")
    case False
    then show ?thesis using 1(3) by (subst hits_loop.simps) auto
  next
    case True
    then have i: "i < length (fw_rules fw)" using 1(3) by (simp add: fw_wf_def)
    obtain n where n: "counter_packets ab e i = Some n" using 1(2) True by (auto elim!: definedE)
    let ?n = "rl_hits (fw_rules fw ! i) + ucast n"
    let ?fw = "fw\<lparr>fw_rules := (fw_rules fw)[i := (fw_rules fw ! i)\<lparr>rl_hits := ?n\<rparr>]\<rparr>"
    have s: "fw_wf ?fw" "same_policy fw ?fw" using hits_step [OF 1(3)] True by blast+
    have step: "hits_loop ab e i fw = hits_loop ab e (i + 1) ?fw"
      using True i n by (subst hits_loop.simps) (simp add: rd_Some wr_Some)
    from 1(1) [OF True rd_Some [OF i] n _ 1(2) s(1)] obtain fw' where fw': "hits_loop ab e (i + 1) ?fw = Some fw'" "fw_wf fw'"
      "same_policy ?fw fw'" "fw_allowed fw' = fw_allowed fw" "fw_denied fw' = fw_denied fw" using i by (auto simp: wr_Some)
    show ?thesis unfolding step using fw' same_policy_trans [OF s(2) fw'(3)] by blast
  qed
qed

lemma counter_defined:
  assumes "env_frame (fw_environment ab m meta\<lparr>e_context := c, e_context_size := cs, e_packet := f, e_packet_size := ps\<rparr>) e" "i < 32"
  shows "defined (counter_packets ab e i)"
proof -
  have la: "list_all2 map_frame (e_maps (fw_environment ab m meta)) (e_maps e)" using assms(1) by (simp add: env_frame_def)
  then have l: "length (e_maps e) = 7" by (auto dest!: list_all2_lengthD simp: fw_environment_def)
  have "map_frame (e_maps (fw_environment ab m meta) ! 2) (e_maps e ! 2)"
    using la by (rule list_all2_nthD) (simp add: fw_environment_def)
  then obtain v where v: "m_values (e_maps e ! 2) = Some v" "length v = 48 * ab_counter_size ab"
    by (auto simp: map_frame_def fw_environment_def)
  have "i * ab_counter_size ab + ab_counter_size ab \<le> 48 * ab_counter_size ab"
    using mult_le_mono1 [of "i + 1" 48 "ab_counter_size ab"] assms(2) by simp
  then show ?thesis using l v by (auto simp: counter_packets_def)
qed

definition fw_state_wf :: "BpfInsn list \<Rightarrow> BpfInsn list \<Rightarrow> fw_state \<Rightarrow> bool" where
  "fw_state_wf policy_code xdp_code s \<longleftrightarrow> fw_wf (fs_fw s) \<and> maps_ok (fs_maps s) \<and>
     (fs_checked s = 1 \<longrightarrow> bpf_validate policy_code = Some True \<and> bpf_validate xdp_code = Some True)"

lemma fw_bpf_ready_spec:
  assumes "fw_state_wf pc xc s"
  shows "\<exists>ready s'. fw_bpf_ready pc xc s = Some (ready, s') \<and> fw_state_wf pc xc s' \<and> fs_fw s' = fs_fw s \<and> fs_maps s' = fs_maps s \<and>
    fs_stats s' = fs_stats s \<and>
    (ready \<longrightarrow> bpf_validate pc = Some True \<and> bpf_validate xc = Some True)"
proof -
  obtain a b where ab: "bpf_validate pc = Some a" "bpf_validate xc = Some b"
    using bpf_validate_total by (metis definedE)
  show ?thesis using assms by (auto simp: fw_bpf_ready_def fw_state_wf_def ab)
qed

lemma fw_finish_spec:
  assumes "fw_wf (fs_fw s)"
    and "env_frame (fw_environment ab m meta\<lparr>e_context := c, e_context_size := cs, e_packet := f, e_packet_size := ps\<rparr>) e"
  shows "\<exists>s'. fw_finish ab res e s = Some (r_ok res \<and> r_value res = 2, s') \<and> fw_wf (fs_fw s') \<and> same_policy (fs_fw s) (fs_fw s') \<and>
    fw_allowed (fs_fw s') = fw_allowed (fs_fw s) \<and> fw_denied (fs_fw s') = fw_denied (fs_fw s) \<and>
    fs_maps s' = fs_maps s \<and> fs_checked s' = fs_checked s"
  using hits_loop_spec [OF counter_defined [OF assms(2)] assms(1), of 0] assms(1)
  by (auto simp: fw_finish_def Let_def bump_faults_def)

lemma packet_meta_defined: "\<exists>meta. packet_meta p d = Some meta"
  by (simp add: packet_meta_def zero_packet_def addr16)

text \<open>What one run of a compiled program in the prepared environment establishes.\<close>

definition program_passes :: "BpfInsn list \<Rightarrow> BpfEnvironment \<Rightarrow> bool" where
  "program_passes code env \<longleftrightarrow> (\<exists>res e. bpf_execute code env = Some (res, e) \<and> r_ok res \<and> r_value res = 2)"

lemma run_spec:
  assumes "fw_wf (fs_fw s)" "abi_wf ab" "maps_ok m" "length (mp_rules m) = 32" "bh_blocks (mp_header m) \<le> 32"
    and "length c = unat cs" "unat ps \<le> length f"
  shows "\<exists>res e s'. bpf_execute code (fw_environment ab m meta\<lparr>e_context := c, e_context_size := cs, e_packet := f, e_packet_size := ps\<rparr>) = Some (res, e) \<and>
    fw_finish ab res e s = Some (program_passes code (fw_environment ab m meta\<lparr>e_context := c, e_context_size := cs, e_packet := f, e_packet_size := ps\<rparr>), s') \<and>
    fw_wf (fs_fw s') \<and> same_policy (fs_fw s) (fs_fw s') \<and>
    fw_allowed (fs_fw s') = fw_allowed (fs_fw s) \<and> fw_denied (fs_fw s') = fw_denied (fs_fw s) \<and>
    fs_maps s' = fs_maps s \<and> fs_checked s' = fs_checked s"
proof -
  let ?env = "fw_environment ab m meta\<lparr>e_context := c, e_context_size := cs, e_packet := f, e_packet_size := ps\<rparr>"
  have "env_wf ?env" by (rule env_wf_packet [OF fw_environment_wf [OF assms(2-5)] assms(6,7)])
  from bpf_execute_spec [OF this, of code] obtain res e where re: "bpf_execute code ?env = Some (res, e)" "env_frame ?env e" by blast
  from fw_finish_spec [OF assms(1) re(2), of res] re(1) show ?thesis by (auto simp: program_passes_def)
qed

lemma environment_plain:
  "fw_environment ab m meta = fw_environment ab m meta\<lparr>e_context := [], e_context_size := 0, e_packet := [], e_packet_size := 0\<rparr>"
  by (simp add: fw_environment_def)

definition policy_passes :: "abi \<Rightarrow> BpfInsn list \<Rightarrow> packet \<Rightarrow> nat \<Rightarrow> fw_state \<Rightarrow> bool" where
  "policy_passes ab code p d s \<longleftrightarrow> (\<exists>m meta. fw_prepare (fs_fw s) (fs_maps s) = Some m \<and> packet_meta p d = Some meta \<and>
     program_passes code (fw_environment ab m meta))"

definition xdp_passes :: "abi \<Rightarrow> BpfInsn list \<Rightarrow> bytes \<Rightarrow> nat \<Rightarrow> fw_state \<Rightarrow> bool" where
  "xdp_passes ab code frame sz s \<longleftrightarrow> (\<exists>m. fw_prepare (fs_fw s) (fs_maps s) = Some m \<and>
     program_passes code ((fw_environment ab m zero_packet)\<lparr>e_context := xdp_context sz, e_context_size := 24,
       e_packet := frame, e_packet_size := of_nat sz\<rparr>))"

definition programs_valid :: "BpfInsn list \<Rightarrow> BpfInsn list \<Rightarrow> bool" where
  "programs_valid pc xc \<longleftrightarrow> bpf_validate pc = Some True \<and> bpf_validate xc = Some True"

lemma fw_bpf_policy_spec:
  assumes "fw_state_wf pc xc s" "abi_wf ab"
  shows "\<exists>ok s'. fw_bpf_policy ab pc xc p d s = Some (ok, s') \<and> fw_state_wf pc xc s' \<and> same_policy (fs_fw s) (fs_fw s') \<and>
    (ok \<longrightarrow> programs_valid pc xc \<and> policy_passes ab pc p d s) \<and>
    fw_allowed (fs_fw s') = fw_allowed (fs_fw s) \<and> fw_denied (fs_fw s') = fw_denied (fs_fw s)"
proof -
  obtain ready t where r: "fw_bpf_ready pc xc s = Some (ready, t)" "fw_state_wf pc xc t" "fs_fw t = fs_fw s" "fs_maps t = fs_maps s"
    "ready \<Longrightarrow> programs_valid pc xc" using fw_bpf_ready_spec [OF assms(1)] by (auto simp: programs_valid_def)
  show ?thesis
  proof (cases ready)
    case False
    then show ?thesis using r
      by (intro exI [of _ False] exI [of _ "bump_faults t"]) (simp add: fw_bpf_policy_def bump_faults_def fw_state_wf_def)
  next
    case True
    have w: "fw_wf (fs_fw s)" "maps_ok (fs_maps s)" "fw_count (fs_fw s) \<le> 32" using assms(1) by (simp_all add: fw_state_wf_def fw_wf_def)
    obtain m where m: "fw_prepare (fs_fw s) (fs_maps s) = Some m" "maps_ok m" "length (mp_rules m) = 32" "bh_blocks (mp_header m) \<le> 32"
      using w(3) chosen_lengths [of "fs_fw s"] by (rule_tac fw_prepare_eq [OF w(1,2)]) (simp add: policy_order_length)
    obtain meta where meta: "packet_meta p d = Some meta" using packet_meta_defined by blast
    let ?t = "t\<lparr>fs_maps := m, fs_stats := (fs_stats t)\<lparr>st_policy_runs := st_policy_runs (fs_stats t) + 1\<rparr>\<rparr>"
    have "fw_wf (fs_fw ?t)" using w r by simp
    from run_spec [OF this assms(2) m(2-4), of "[]" 0 0 "[]" pc meta, folded environment_plain] obtain res e s' where
      run: "bpf_execute pc (fw_environment ab m meta) = Some (res, e)"
      "fw_finish ab res e ?t = Some (program_passes pc (fw_environment ab m meta), s')"
      "fw_wf (fs_fw s')" "same_policy (fs_fw ?t) (fs_fw s')"
      "fw_allowed (fs_fw s') = fw_allowed (fs_fw ?t)" "fw_denied (fs_fw s') = fw_denied (fs_fw ?t)"
      "fs_maps s' = m" "fs_checked s' = fs_checked ?t" by auto
    have "fw_bpf_policy ab pc xc p d s = Some (program_passes pc (fw_environment ab m meta), s')"
      using r True w m(1) meta run(1,2) by (simp add: fw_bpf_policy_def)
    moreover have "fw_state_wf pc xc s'" using r(2) run m(2) by (simp add: fw_state_wf_def)
    ultimately show ?thesis using run r True m(1) meta by (auto simp: policy_passes_def)
  qed
qed

lemma same_policy_count: "same_policy fw (fw\<lparr>fw_denied := x\<rparr>)" "same_policy fw (fw\<lparr>fw_allowed := x\<rparr>)"
  by (simp_all add: same_policy_def fw_list_def)

lemma fw_wf_count: "fw_wf fw \<Longrightarrow> length x = 2 \<Longrightarrow> fw_wf (fw\<lparr>fw_denied := x\<rparr>)" "fw_wf fw \<Longrightarrow> length x = 2 \<Longrightarrow> fw_wf (fw\<lparr>fw_allowed := x\<rparr>)"
  by (simp_all add: fw_wf_def)

lemma fw_wf_lengths: "fw_wf fw \<Longrightarrow> length (fw_denied fw) = 2 \<and> length (fw_allowed fw) = 2"
  by (simp add: fw_wf_def)

lemma fw_bpf_xdp_spec:
  assumes "fw_state_wf pc xc s" "abi_wf ab" "sz \<le> length frame"
  shows "\<exists>ok s'. fw_bpf_xdp ab pc xc frame sz s = Some (ok, s') \<and> fw_state_wf pc xc s' \<and> same_policy (fs_fw s) (fs_fw s') \<and>
    (ok \<longrightarrow> programs_valid pc xc \<and> sz \<le> 1514 \<and> xdp_passes ab xc frame sz s)"
proof -
  obtain ready t where r: "fw_bpf_ready pc xc s = Some (ready, t)" "fw_state_wf pc xc t" "fs_fw t = fs_fw s" "fs_maps t = fs_maps s"
    "ready \<Longrightarrow> programs_valid pc xc" using fw_bpf_ready_spec [OF assms(1)] by (auto simp: programs_valid_def)
  show ?thesis
  proof (cases "ready \<and> sz \<le> 1514")
    case False
    then show ?thesis using r by (auto simp: fw_bpf_xdp_def bump_faults_def fw_state_wf_def)
  next
    case True
    have w: "fw_wf (fs_fw s)" "maps_ok (fs_maps s)" "fw_count (fs_fw s) \<le> 32" using assms(1) by (simp_all add: fw_state_wf_def fw_wf_def)
    obtain m where m: "fw_prepare (fs_fw s) (fs_maps s) = Some m" "maps_ok m" "length (mp_rules m) = 32" "bh_blocks (mp_header m) \<le> 32"
      using w(3) chosen_lengths [of "fs_fw s"] by (rule_tac fw_prepare_eq [OF w(1,2)]) (simp add: policy_order_length)
    let ?t = "t\<lparr>fs_maps := m, fs_stats := (fs_stats t)\<lparr>st_xdp_runs := st_xdp_runs (fs_stats t) + 1\<rparr>\<rparr>"
    let ?env = "(fw_environment ab m zero_packet)\<lparr>e_context := xdp_context sz, e_context_size := 24, e_packet := frame, e_packet_size := of_nat sz\<rparr>"
    have "fw_wf (fs_fw ?t)" "length (xdp_context sz) = unat (24 :: u32)" "unat (of_nat sz :: u32) \<le> length frame"
      using w r True assms(3) by (simp_all add: xdp_context_def of_nat_u32)
    from run_spec [OF this(1) assms(2) m(2-4) this(2,3), of xc zero_packet] obtain res e s' where
      run: "bpf_execute xc ?env = Some (res, e)" "fw_finish ab res e ?t = Some (program_passes xc ?env, s')"
      "fw_wf (fs_fw s')" "same_policy (fs_fw ?t) (fs_fw s')" "fs_maps s' = m" "fs_checked s' = fs_checked ?t" by auto
    have wf: "fw_state_wf pc xc s'" using r(2) run m(2) by (simp add: fw_state_wf_def)
    show ?thesis
    proof (cases "program_passes xc ?env")
      case pass: True
      then have "fw_bpf_xdp ab pc xc frame sz s = Some (True, s')" using r True w m(1) run(1,2) by (simp add: fw_bpf_xdp_def)
      then show ?thesis using wf run r True m(1) pass by (auto simp: xdp_passes_def)
    next
      case fail: False
      have l: "length (fw_denied (fs_fw s')) = 2" using run(3) fw_wf_lengths by blast
      then have "fw_bpf_xdp ab pc xc frame sz s = Some (False, s'\<lparr>fs_fw := (fs_fw s')\<lparr>fw_denied := (fw_denied (fs_fw s'))[0 := fw_denied (fs_fw s') ! 0 + 1]\<rparr>,
          fs_stats := (fs_stats s')\<lparr>st_xdp_drops := st_xdp_drops (fs_stats s') + 1\<rparr>\<rparr>)"
        using r True w m(1) run(1,2) fail by (simp add: fw_bpf_xdp_def rd_Some wr_Some)
      moreover have "fw_wf ((fs_fw s')\<lparr>fw_denied := (fw_denied (fs_fw s'))[0 := fw_denied (fs_fw s') ! 0 + 1]\<rparr>)"
        using fw_wf_count(1) [OF run(3)] l by simp
      ultimately show ?thesis using wf run(4) r(3) same_policy_trans [OF _ same_policy_count(1)] by (auto simp: fw_state_wf_def)
    qed
  qed
qed

lemma fw_accept_spec:
  assumes "fw_state_wf pc xc s" "abi_wf ab"
  shows "\<exists>ok s'. fw_accept ab pc xc p d s = Some (ok, s') \<and> fw_state_wf pc xc s' \<and> same_policy (fs_fw s) (fs_fw s') \<and>
    (ok \<longrightarrow> d \<le> 1 \<and> programs_valid pc xc \<and> policy_passes ab pc p d s) \<and>
    fw_allowed (fs_fw s') = (if d \<le> 1 \<and> ok then (fw_allowed (fs_fw s))[d := fw_allowed (fs_fw s) ! d + 1] else fw_allowed (fs_fw s)) \<and>
    fw_denied (fs_fw s') = (if d \<le> 1 \<and> \<not> ok then (fw_denied (fs_fw s))[d := fw_denied (fs_fw s) ! d + 1] else fw_denied (fs_fw s))"
proof (cases "d \<le> 1")
  case False
  then show ?thesis using assms(1) by (intro exI [of _ False] exI [of _ s]) (simp add: fw_accept_def)
next
  case True
  obtain ok t where t: "fw_bpf_policy ab pc xc p d s = Some (ok, t)" "fw_state_wf pc xc t" "same_policy (fs_fw s) (fs_fw t)"
    "ok \<Longrightarrow> programs_valid pc xc \<and> policy_passes ab pc p d s"
    "fw_allowed (fs_fw t) = fw_allowed (fs_fw s)" "fw_denied (fs_fw t) = fw_denied (fs_fw s)"
    using fw_bpf_policy_spec [OF assms, of p d] by blast
  have w: "fw_wf (fs_fw t)" using t(2) by (simp add: fw_state_wf_def)
  note l = fw_wf_lengths [OF w]
  show ?thesis
  proof (cases ok)
    case ok: True
    let ?x = "(fw_allowed (fs_fw t))[d := fw_allowed (fs_fw t) ! d + 1]"
    have "fw_accept ab pc xc p d s = Some (True, t\<lparr>fs_fw := (fs_fw t)\<lparr>fw_allowed := ?x\<rparr>\<rparr>)"
      using True ok t(1) l by (simp add: fw_accept_def Let_def rd_Some wr_Some)
    moreover have "fw_wf ((fs_fw t)\<lparr>fw_allowed := ?x\<rparr>)" using fw_wf_count(2) [OF w] l by simp
    ultimately show ?thesis using t True ok same_policy_trans [OF t(3) same_policy_count(2)] by (auto simp: fw_state_wf_def)
  next
    case ok: False
    let ?x = "(fw_denied (fs_fw t))[d := fw_denied (fs_fw t) ! d + 1]"
    have "fw_accept ab pc xc p d s = Some (False, t\<lparr>fs_fw := (fs_fw t)\<lparr>fw_denied := ?x\<rparr>\<rparr>)"
      using True ok t(1) l by (simp add: fw_accept_def Let_def rd_Some wr_Some)
    moreover have "fw_wf ((fs_fw t)\<lparr>fw_denied := ?x\<rparr>)" using fw_wf_count(1) [OF w] l by simp
    ultimately show ?thesis using t True ok same_policy_trans [OF t(3) same_policy_count(1)] by (auto simp: fw_state_wf_def)
  qed
qed

text \<open>C29: For every packet, direction and programs, the decision on a packet is defined, keeps the table well
  formed and its policy unchanged up to the hit counters, and fails closed: the packet is accepted only when the
  direction is valid, both programs passed the validator, and the policy program ran to its end on the prepared
  maps and returned exactly 2. One counter of the packet's direction, allowed or denied, is incremented and no
  other.\<close>

theorem fw_accept_fails_closed:
  assumes "fw_state_wf pc xc s" "abi_wf ab"
  shows "\<exists>ok s'. fw_accept ab pc xc p d s = Some (ok, s') \<and> fw_state_wf pc xc s' \<and> same_policy (fs_fw s) (fs_fw s') \<and>
    (ok \<longrightarrow> d \<le> 1 \<and> programs_valid pc xc \<and> policy_passes ab pc p d s) \<and>
    fw_allowed (fs_fw s') = (if d \<le> 1 \<and> ok then (fw_allowed (fs_fw s))[d := fw_allowed (fs_fw s) ! d + 1] else fw_allowed (fs_fw s)) \<and>
    fw_denied (fs_fw s') = (if d \<le> 1 \<and> \<not> ok then (fw_denied (fs_fw s))[d := fw_denied (fs_fw s) ! d + 1] else fw_denied (fs_fw s))"
  by (rule fw_accept_spec [OF assms])
text \<open>A concrete layout, state and program for the witnesses.\<close>

definition sample_abi :: abi where
  "sample_abi = \<lparr>ab_header = (\<lambda>h. le32 (bh_count h) @ replicate 92 0), ab_rule = (\<lambda>r. le32 (br_action r) @ replicate 92 0),
     ab_key = (\<lambda>(n, a). le32 n @ a), ab_packet = (\<lambda>p. le32 (bp_direction p) @ replicate 40 0), ab_packet_size = 44,
     ab_counter_size = 16, ab_packets = (\<lambda>b. ucast (b ! 0))\<rparr>"

definition sample_rule :: FirewallRule where
  "sample_rule = zero_native\<lparr>rl_protocol := 17, rl_port := 7777, rl_allow := True\<rparr>"

definition sample_maps :: fw_maps where
  "sample_maps = \<lparr>mp_enabled = False, mp_header = \<lparr>bh_count = 0, bh_ready = 0, bh_schema = 0, bh_generation = 0, bh_defaults = [0, 0], bh_blocks = 0\<rparr>,
     mp_rules = replicate 32 zero_rule, mp_prefixes = replicate 32 (0, replicate 16 0), mp_indexes = replicate 32 0\<rparr>"

definition sample_fw :: Firewall where
  "sample_fw = fw_reset\<lparr>fw_rules := sample_rule # replicate 31 zero_native, fw_count := 1, fw_enabled := True\<rparr>"

definition sample_state :: fw_state where
  "sample_state = \<lparr>fs_fw = sample_fw, fs_maps = sample_maps, fs_checked = 0,
     fs_stats = \<lparr>st_policy_runs = 0, st_xdp_runs = 0, st_xdp_drops = 0, st_faults = 0, st_steps = 0\<rparr>\<rparr>"

lemma sample_wf: "abi_wf sample_abi" "maps_ok sample_maps" "fw_wf sample_fw" "fw_state_wf pc xc sample_state"
  by (simp_all add: abi_wf_def sample_abi_def maps_ok_def sample_maps_def fw_wf_def sample_fw_def fw_reset_def
    sample_rule_def rule_ok_def zero_native_def fw_state_wf_def sample_state_def)

text \<open>C31: On a well-formed table of 32 slots, \<open>fw_add\<close> and \<open>fw_delete\<close> implement append and removal on the list
  of rules: adding is refused exactly when 32 rules are stored or the rule is malformed, deleting exactly when
  the number is not that of a rule; both keep the table well formed and a refused call changes nothing.\<close>

theorem fw_table_refines_list:
  assumes "fw_wf fw"
  shows "(\<exists>fw'. fw_add r fw = Some (length (fw_list fw) < FW_RULES \<and> rule_ok r, fw') \<and> fw_wf fw' \<and>
      fw_list fw' = (if length (fw_list fw) < FW_RULES \<and> rule_ok r then fw_list fw @ [r\<lparr>rl_hits := 0\<rparr>] else fw_list fw)) \<and>
    (\<exists>fw'. fw_delete n fw = Some (0 < n \<and> n \<le> length (fw_list fw), fw') \<and> fw_wf fw' \<and>
      fw_list fw' = (if 0 < n \<and> n \<le> length (fw_list fw) then take (n - 1) (fw_list fw) @ drop n (fw_list fw) else fw_list fw))"
  by (intro conjI fw_add_spec [OF assms] fw_delete_spec [OF assms])

theorem fw_table_refines_list_witness:
  "fw_wf sample_fw \<and> (\<exists>fw'. fw_delete 1 sample_fw = Some (True, fw') \<and> fw_wf fw' \<and> fw_list fw' = [])"
  using fw_table_refines_list [OF sample_wf(3), of zero_native 1] sample_wf(3) by (simp add: fw_list_def sample_fw_def)

theorem policy_first_match_witness:
  "fw_wf sample_fw \<and> maps_ok sample_maps \<and>
   (\<exists>m. fw_prepare sample_fw sample_maps = Some m \<and> jordyos_policy (\<lambda>r p. br_dport_lo r = bp_dport p) m (zero_packet\<lparr>bp_direction := 1, bp_dport := 7777\<rparr>) = (2, Some 0))"
proof -
  have "fw_verdict (\<lambda>r p. br_dport_lo r = bp_dport p) sample_fw (zero_packet\<lparr>bp_direction := 1, bp_dport := 7777\<rparr>) 0 = (2, Some 0)"
    by (simp add: fw_verdict_def sample_fw_def sample_rule_def fw_reset_def zero_native_def bpf_of_def)
  then show ?thesis
    using policy_first_match [OF sample_wf(3,2), of 0 "zero_packet\<lparr>bp_direction := 1, bp_dport := 7777\<rparr>" "\<lambda>r p. br_dport_lo r = bp_dport p"]
      sample_wf(2,3) by simp
qed

theorem fw_accept_fails_closed_witness:
  "fw_state_wf [] [] sample_state \<and> abi_wf sample_abi \<and>
   (\<exists>s'. fw_accept sample_abi [] [] \<lparr>pkt_source = 1, pkt_destination = 2, pkt_source_port = 3, pkt_destination_port = 7777, pkt_length = 28, pkt_protocol = 17\<rparr> 0 sample_state = Some (False, s') \<and>
      fw_denied (fs_fw s') = [1, 0] \<and> fw_allowed (fs_fw s') = [0, 0])"
proof -
  let ?p = "\<lparr>pkt_source = 1, pkt_destination = 2, pkt_source_port = 3, pkt_destination_port = 7777, pkt_length = 28, pkt_protocol = 17\<rparr>"
  have "\<not> programs_valid [] []" by (simp add: programs_valid_def bpf_validate_def)
  moreover obtain ok s' where s': "fw_accept sample_abi [] [] ?p 0 sample_state = Some (ok, s')" "ok \<longrightarrow> programs_valid [] []"
    "fw_allowed (fs_fw s') = (if ok then (fw_allowed (fs_fw sample_state))[0 := fw_allowed (fs_fw sample_state) ! 0 + 1] else fw_allowed (fs_fw sample_state))"
    "fw_denied (fs_fw s') = (if \<not> ok then (fw_denied (fs_fw sample_state))[0 := fw_denied (fs_fw sample_state) ! 0 + 1] else fw_denied (fs_fw sample_state))"
    using fw_accept_fails_closed [OF sample_wf(4,1), of "[]" "[]" ?p 0] by auto
  moreover have "fw_allowed (fs_fw sample_state) = [0, 0]" "fw_denied (fs_fw sample_state) = [0, 0]"
    by (simp_all add: sample_state_def sample_fw_def fw_reset_def)
  ultimately show ?thesis using sample_wf(1) sample_wf(4) [of "[]" "[]"] by simp
qed

end
