(* ===== verification/Nic.thy ===== *)
theory Nic
  imports Tcp_Stream Firewall
begin

text \<open>
  The state below the protocols: the interface counters of \<^verbatim>\<open>net/network.h\<close>, the driver state of
  \<^verbatim>\<open>net/rtl8139.c\<close> and the statics of \<^verbatim>\<open>net/tcp_native.c\<close>, with transmission (\<^verbatim>\<open>rtl_send\<close>), the IPv4
  output of TCP (\<^verbatim>\<open>send_to\<close>) and its entry points. The I/O ports, the receive ring the card writes by DMA and
  the time stamp counter are hardware: an argument over a hardware state \<open>'h\<close>, as are the congestion controller,
  the layouts of the upstream firewall headers and the compiled programs.
\<close>

section \<open>Hardware and state\<close>

record 'h nic =
  hw_in8 :: "u16 \<Rightarrow> 'h \<Rightarrow> u8 \<times> 'h"
  hw_in16 :: "u16 \<Rightarrow> 'h \<Rightarrow> u16 \<times> 'h"
  hw_in32 :: "u16 \<Rightarrow> 'h \<Rightarrow> u32 \<times> 'h"
  hw_out8 :: "u16 \<Rightarrow> u8 \<Rightarrow> 'h \<Rightarrow> 'h"
  hw_out16 :: "u16 \<Rightarrow> u16 \<Rightarrow> 'h \<Rightarrow> 'h"
  hw_out32 :: "u16 \<Rightarrow> u32 \<Rightarrow> 'h \<Rightarrow> 'h"
  hw_ring :: "nat \<Rightarrow> 'h \<Rightarrow> u8 \<times> 'h"
  hw_tsc :: "'h \<Rightarrow> u64 \<times> 'h"
  hw_cpuid :: u32 \<comment> \<open>\<^verbatim>\<open>edx\<close> of leaf 1\<close>

record ('m, 'h) net_env =
  en_hw :: "'h nic"
  en_larp :: "'m larp"
  en_abi :: abi
  en_policy :: "BpfInsn list"
  en_xdp :: "BpfInsn list"
  en_ring_address :: u64
  en_tx_address :: "nat \<Rightarrow> u64"

record Network =
  nw_up :: bool
  nw_echo :: bool
  nw_received :: u32
  nw_transmitted :: u32
  nw_invalid :: u32
  nw_ignored :: u32
  nw_tx_dropped :: u32
  nw_driver_errors :: u32

record TimeWait =
  tw_ip :: u32
  tw_next :: u32
  tw_acknowledgement :: u32
  tw_local :: u16
  tw_remote :: u16
  tw_mac :: bytes
  tw_expires :: u64

record ('m, 'h) net_state =
  ns_net :: Network
  ns_fw :: fw_state
  ns_mac :: bytes
  ns_io :: u16
  ns_rx_offset :: nat
  ns_tx_slot :: nat
  ns_tx :: "bytes list"
  ns_frame :: bytes
  ns_hw :: 'h
  ns_tcp :: "'m Tcp"
  ns_running :: bool
  ns_resolving :: bool
  ns_have_mac :: bool
  ns_clock_ready :: bool
  ns_peer_ip :: u32
  ns_peer_mac :: bytes
  ns_clock_origin :: u64
  ns_ticks :: u64
  ns_timewait :: "TimeWait list"
  ns_next_port :: u32
  ns_source :: bytes

definition count_net :: "(Network \<Rightarrow> Network) \<Rightarrow> ('m, 'h) net_state \<Rightarrow> ('m, 'h) net_state" where
  "count_net f s = s\<lparr>ns_net := f (ns_net s)\<rparr>"

section \<open>Transmission\<close>

definition rtl_send :: "('m, 'h) net_env \<Rightarrow> bytes \<Rightarrow> nat \<Rightarrow> ('m, 'h) net_state \<Rightarrow> (bool \<times> ('m, 'h) net_state) option" where
  "rtl_send env data sz s =
     (if \<not> nw_up (ns_net s) \<or> sz < 14 \<or> sz > NET_FRAME_MAX then Some (False, s)
      else let
        port = ns_io s + 0x10 + of_nat (ns_tx_slot s) * 4;
        (status, h) = hw_in32 (en_hw env) port (ns_hw s);
        s = s\<lparr>ns_hw := h\<rparr> in
        if status AND 0x2000 = 0 then Some (False, count_net (\<lambda>n. n\<lparr>nw_tx_dropped := nw_tx_dropped n + 1\<rparr>) s)
        else do {
          let wire_size = (if sz < 60 then 60 else sz);
          b \<leftarrow> rd (ns_tx s) (ns_tx_slot s);
          b \<leftarrow> splice b 0 (replicate wire_size 0);
          d \<leftarrow> slice data 0 sz;
          b \<leftarrow> splice b 0 d;
          tx \<leftarrow> wr (ns_tx s) (ns_tx_slot s) b;
          let s = s\<lparr>ns_tx := tx, ns_hw := hw_out32 (en_hw env) port (of_nat wire_size) (ns_hw s), ns_tx_slot := (ns_tx_slot s + 1) mod 4\<rparr>;
          Some (True, count_net (\<lambda>n. n\<lparr>nw_transmitted := nw_transmitted n + 1\<rparr>) s) })"

section \<open>TCP over IPv4\<close>

definition firewall_out :: "('m, 'h) net_env \<Rightarrow> packet \<Rightarrow> nat \<Rightarrow> ('m, 'h) net_state \<Rightarrow> (bool \<times> ('m, 'h) net_state) option" where
  "firewall_out env p direction s = do {
     (ok, fw) \<leftarrow> fw_accept (en_abi env) (en_policy env) (en_xdp env) p direction (ns_fw s);
     Some (ok, s\<lparr>ns_fw := fw\<rparr>) }"

definition ip_frame :: "bytes \<Rightarrow> bytes \<Rightarrow> u32 \<Rightarrow> bytes \<Rightarrow> nat \<Rightarrow> bytes option" where
  "ip_frame mac own ip body sz = do {
     d \<leftarrow> slice mac 0 6; f \<leftarrow> splice (replicate (14 + 20 + 24 + TCP_MSS) 0) 0 d;
     d \<leftarrow> slice own 0 6; f \<leftarrow> splice f 6 d;
     f \<leftarrow> net_write16 f 12 0x0800;
     f \<leftarrow> wr f 14 0x45; f \<leftarrow> wr f 22 64; f \<leftarrow> wr f 23 NET_TCP;
     f \<leftarrow> net_write16 f 16 (of_nat (20 + sz));
     f \<leftarrow> net_write32 f 26 NET_IP; f \<leftarrow> net_write32 f 30 ip;
     c \<leftarrow> net_checksum f 14 20 0; f \<leftarrow> net_write16 f 24 c;
     d \<leftarrow> slice body 0 sz; f \<leftarrow> splice f 34 d;
     p1 \<leftarrow> net_read16 f 26; p2 \<leftarrow> net_read16 f 28; p3 \<leftarrow> net_read16 f 30; p4 \<leftarrow> net_read16 f 32;
     c \<leftarrow> net_checksum f 34 sz (ucast p1 + ucast p2 + ucast p3 + ucast p4 + ucast NET_TCP + of_nat sz);
     net_write16 f 50 c }"

definition send_to :: "('m, 'h) net_env \<Rightarrow> u32 \<Rightarrow> bytes \<Rightarrow> bytes \<Rightarrow> nat \<Rightarrow> ('m, 'h) net_state \<Rightarrow> (bool \<times> ('m, 'h) net_state) option" where
  "send_to env ip mac body sz s = do {
     f \<leftarrow> ip_frame mac (ns_mac s) ip body sz;
     outgoing \<leftarrow> net_decode f 14 (20 + sz);
     (case outgoing of None \<Rightarrow> Some (False, s)
      | Some p \<Rightarrow> do {
          (ok, s) \<leftarrow> firewall_out env p FW_OUT s;
          if \<not> ok then Some (False, s) else rtl_send env f (14 + 20 + sz) s }) }"

definition emit_native :: "('m, 'h) net_env \<Rightarrow> ('m, 'h) net_state \<Rightarrow> bytes \<Rightarrow> (bool \<times> ('m, 'h) net_state) option" where
  "emit_native env s body = (if ns_have_mac s then send_to env (ns_peer_ip s) (ns_peer_mac s) body (length body) s else Some (False, s))"

definition arp_request :: "('m, 'h) net_env \<Rightarrow> ('m, 'h) net_state \<Rightarrow> (bool \<times> ('m, 'h) net_state) option" where
  "arp_request env s = do {
     f \<leftarrow> splice (replicate 42 0) 0 (replicate 6 255);
     d \<leftarrow> slice (ns_mac s) 0 6; f \<leftarrow> splice f 6 d; f \<leftarrow> net_write16 f 12 0x0806;
     f \<leftarrow> net_write16 f 14 1; f \<leftarrow> net_write16 f 16 0x0800;
     f \<leftarrow> wr f 18 6; f \<leftarrow> wr f 19 4; f \<leftarrow> net_write16 f 20 1;
     f \<leftarrow> splice f 22 d; f \<leftarrow> net_write32 f 28 NET_IP;
     f \<leftarrow> net_write32 f 38 (ns_peer_ip s); rtl_send env f 42 s }"

definition tcp_net_arp :: "bytes \<Rightarrow> nat \<Rightarrow> ('m, 'h) net_state \<Rightarrow> ('m, 'h) net_state option" where
  "tcp_net_arp f sz s =
     (if \<not> ns_resolving s \<or> sz < 42 then Some s
      else do {
        hw \<leftarrow> net_read16 f 14; proto \<leftarrow> net_read16 f 16; hlen \<leftarrow> rd f 18; plen \<leftarrow> rd f 19; op \<leftarrow> net_read16 f 20;
        dst \<leftarrow> slice f 0 6; src \<leftarrow> slice f 6 6; sender \<leftarrow> slice f 22 6; own \<leftarrow> slice (ns_mac s) 0 6; f6 \<leftarrow> rd f 6;
        sip \<leftarrow> net_read32 f 28; tmac \<leftarrow> slice f 32 6; tip \<leftarrow> net_read32 f 38;
        if hw \<noteq> 1 \<or> proto \<noteq> 0x0800 \<or> hlen \<noteq> 6 \<or> plen \<noteq> 4 \<or> op \<noteq> 2 \<or> dst \<noteq> own \<or> src \<noteq> sender \<or> f6 AND 1 \<noteq> 0 \<or>
           sip \<noteq> ns_peer_ip s \<or> tmac \<noteq> own \<or> tip \<noteq> NET_IP then Some s
        else Some (s\<lparr>ns_peer_mac := sender, ns_have_mac := True\<rparr>) })"

definition now_us :: "('m, 'h) net_env \<Rightarrow> ('m, 'h) net_state \<Rightarrow> (u64 \<times> ('m, 'h) net_state) option" where
  "now_us env s = (let (t, h) = hw_tsc (en_hw env) (ns_hw s) in
     if ns_ticks s = 0 then None else Some ((t - ns_clock_origin s) div ns_ticks s, s\<lparr>ns_hw := h\<rparr>))"

text \<open>The acknowledgement of a repeated FIN of a finished connection.\<close>

definition wait_reply :: "TimeWait \<Rightarrow> bytes option" where
  "wait_reply w = do {
     r \<leftarrow> net_write16 (replicate 20 0) 0 (tw_local w); r \<leftarrow> net_write16 r 2 (tw_remote w);
     r \<leftarrow> net_write32 r 4 (tw_next w); r \<leftarrow> net_write32 r 8 (tw_acknowledgement w);
     r \<leftarrow> wr r 12 0x50; wr r 13 TCP_ACK }"

text \<open>The scan of the TIME-WAIT table; the result says whether an entry matched, which ends the handler.\<close>

function timewait_loop :: "('m, 'h) net_env \<Rightarrow> bytes \<Rightarrow> nat \<Rightarrow> packet \<Rightarrow> u64 \<Rightarrow> nat \<Rightarrow> ('m, 'h) net_state \<Rightarrow> (bool \<times> ('m, 'h) net_state) option" where
  "timewait_loop env b sz p now i s =
     (if i < 8 then do {
        w \<leftarrow> rd (ns_timewait s) i;
        if tw_expires w \<le> now \<or> tw_ip w \<noteq> pkt_source p \<or> tw_local w \<noteq> pkt_destination_port p \<or> tw_remote w \<noteq> pkt_source_port p
        then timewait_loop env b sz p now (i + 1) s
        else do {
          flags \<leftarrow> rd b 13; seq \<leftarrow> net_read32 b 4; b12 \<leftarrow> rd b 12;
          if flags AND (TCP_FIN OR TCP_RST) = TCP_FIN \<and>
             seq + (of_nat sz - ucast (drop_bit 4 b12) * 4) + 1 = tw_acknowledgement w
          then do {
            reply \<leftarrow> wait_reply w;
            (_, s) \<leftarrow> send_to env (tw_ip w) (tw_mac w) reply 20 s;
            tws \<leftarrow> wr (ns_timewait s) i (w\<lparr>tw_expires := now + 120000000\<rparr>);
            Some (True, s\<lparr>ns_timewait := tws\<rparr>) }
          else Some (True, s) } }
      else Some (False, s))"
  by pat_completeness auto
termination
  by (relation "measure (\<lambda>(env, b, sz, p, now, i, s). 8 - i)") auto

declare timewait_loop.simps [simp del]

definition tcp_net_input :: "('m, 'h) net_env \<Rightarrow> bytes \<Rightarrow> packet \<Rightarrow> ('m, 'h) net_state \<Rightarrow> ('m, 'h) net_state option" where
  "tcp_net_input env frame p s = (let b = drop 34 frame; sz = unat (pkt_length p) - 20 in
     if unat (pkt_length p) < 20 then None
     else if \<not> ns_clock_ready s then Some s
     else do {
       (now, s) \<leftarrow> now_us env s;
       (matched, s) \<leftarrow> timewait_loop env b sz p now 0 s;
       if matched then Some s
       else if ns_running s \<and> pkt_source p = ns_peer_ip s then do {
         src \<leftarrow> slice frame 6 6; peer \<leftarrow> slice (ns_peer_mac s) 0 6;
         if src = peer then do {
           (c, s) \<leftarrow> tcp_input (en_larp env) (emit_native env) (ns_tcp s) b sz now s;
           Some (s\<lparr>ns_tcp := c\<rparr>) }
         else Some s }
       else Some s })"

definition tcp_net_poll :: "('m, 'h) net_env \<Rightarrow> ('m, 'h) net_state \<Rightarrow> ('m, 'h) net_state option" where
  "tcp_net_poll env s =
     (if ns_running s then do {
        (now, s) \<leftarrow> now_us env s;
        (c, s) \<leftarrow> tcp_tick (en_larp env) (emit_native env) (ns_tcp s) now s;
        Some (s\<lparr>ns_tcp := c\<rparr>) }
      else Some s)"

definition tcp_net_down :: "('m, 'h) net_env \<Rightarrow> ('m, 'h) net_state \<Rightarrow> ('m, 'h) net_state option" where
  "tcp_net_down env s = do {
     s \<leftarrow> (if ns_running s then do {
         (c, s) \<leftarrow> tcp_abort (emit_native env) (ns_tcp s) ''network interface stopped'' s;
         Some (s\<lparr>ns_tcp := c\<rparr>) }
       else Some s);
     Some (s\<lparr>ns_have_mac := False\<rparr>) }"

section \<open>The invariant of the network state\<close>

definition net_wf :: "('m, 'h) net_env \<Rightarrow> ('m, 'h) net_state \<Rightarrow> bool" where
  "net_wf env s \<longleftrightarrow> fw_state_wf (en_policy env) (en_xdp env) (ns_fw s) \<and> length (ns_mac s) = 6 \<and> ns_tx_slot s < 4 \<and>
     length (ns_tx s) = 4 \<and> (\<forall>b \<in> set (ns_tx s). length b = 1536) \<and> ns_rx_offset s < 8192 \<and> length (ns_frame s) = NET_FRAME_MAX \<and>
     length (ns_peer_mac s) = 6 \<and> length (ns_timewait s) = 8 \<and> (\<forall>w \<in> set (ns_timewait s). length (tw_mac w) = 6) \<and>
     (ns_clock_ready s \<longrightarrow> ns_ticks s \<noteq> 0) \<and> (ns_running s \<longrightarrow> ns_clock_ready s) \<and> length (ns_source s) = TCP_BUFFER"

definition tcp_alive :: "('m, 'h) net_state \<Rightarrow> bool" where
  "tcp_alive s \<longleftrightarrow> (ns_running s \<longrightarrow> (\<exists>isn data. tcp_wf isn data (ns_tcp s)))"

text \<open>Sending changes the counters, the firewall's counters and the driver only.\<close>

definition same_link :: "('m, 'h) net_state \<Rightarrow> ('m, 'h) net_state \<Rightarrow> bool" where
  "same_link s s' \<longleftrightarrow> ns_tcp s' = ns_tcp s \<and> ns_running s' = ns_running s \<and> ns_resolving s' = ns_resolving s \<and>
     ns_have_mac s' = ns_have_mac s \<and> ns_clock_ready s' = ns_clock_ready s \<and> ns_peer_ip s' = ns_peer_ip s \<and>
     ns_peer_mac s' = ns_peer_mac s \<and> ns_timewait s' = ns_timewait s \<and> ns_mac s' = ns_mac s \<and> ns_frame s' = ns_frame s \<and>
     ns_rx_offset s' = ns_rx_offset s \<and> ns_io s' = ns_io s \<and> same_policy (fs_fw (ns_fw s)) (fs_fw (ns_fw s')) \<and>
     nw_up (ns_net s') = nw_up (ns_net s) \<and> nw_echo (ns_net s') = nw_echo (ns_net s)"

lemma same_link_refl [simp]: "same_link s s"
  by (simp add: same_link_def)

lemma same_link_trans: "same_link a b \<Longrightarrow> same_link b c \<Longrightarrow> same_link a c"
  using same_policy_trans by (auto simp: same_link_def)

lemma same_link_alive: "same_link s s' \<Longrightarrow> tcp_alive s' = tcp_alive s"
  by (simp add: same_link_def tcp_alive_def)

text \<open>A step that is defined, keeps the invariant and relates the states by \<open>R\<close>.\<close>

definition net_step :: "('m, 'h) net_env \<Rightarrow> (('m, 'h) net_state \<Rightarrow> bool) \<Rightarrow> (bool \<times> ('m, 'h) net_state) option \<Rightarrow> bool" where
  "net_step env R r \<longleftrightarrow> (\<exists>ok s'. r = Some (ok, s') \<and> net_wf env s' \<and> R s')"

lemma net_stepI: "r = Some (ok, s') \<Longrightarrow> net_wf env s' \<Longrightarrow> R s' \<Longrightarrow> net_step env R r"
  by (auto simp: net_step_def)

lemma rtl_send_ok:
  assumes "net_wf env s" "sz \<le> length data"
  shows "net_step env (same_link s) (rtl_send env data sz s)"
proof (cases "nw_up (ns_net s) \<and> 14 \<le> sz \<and> sz \<le> NET_FRAME_MAX")
  case False
  then have "rtl_send env data sz s = Some (False, s)" by (auto simp: rtl_send_def)
  then show ?thesis using assms(1) by (intro net_stepI [of _ False s]) simp_all
next
  case True
  obtain status h where h: "hw_in32 (en_hw env) (ns_io s + 0x10 + of_nat (ns_tx_slot s) * 4) (ns_hw s) = (status, h)" by fastforce
  let ?s = "s\<lparr>ns_hw := h\<rparr>"
  show ?thesis
  proof (cases "status AND 0x2000 = 0")
    case busy: True
    have "rtl_send env data sz s = Some (False, count_net (\<lambda>n. n\<lparr>nw_tx_dropped := nw_tx_dropped n + 1\<rparr>) ?s)"
      using True h busy by (simp add: rtl_send_def Let_def)
    from net_stepI [OF this] show ?thesis using assms(1) by (simp add: net_wf_def same_link_def count_net_def)
  next
    case ready: False
    let ?w = "if sz < 60 then 60 else sz" and ?slot = "ns_tx_slot s"
    have l: "?slot < length (ns_tx s)" "length (ns_tx s ! ?slot) = 1536" using assms(1) by (simp_all add: net_wf_def)
    define b where "b = take sz data @ drop sz (replicate ?w 0 @ drop ?w (ns_tx s ! ?slot))"
    have w: "?w \<le> 1536" "sz \<le> ?w" using True by simp_all
    have lb: "length b = 1536" using l(2) w assms(2) by (auto simp: b_def)
    have e: "rtl_send env data sz s = Some (True, count_net (\<lambda>n. n\<lparr>nw_transmitted := nw_transmitted n + 1\<rparr>)
        (?s\<lparr>ns_tx := (ns_tx s)[?slot := b], ns_hw := hw_out32 (en_hw env) (ns_io s + 0x10 + of_nat ?slot * 4) (of_nat ?w) h, ns_tx_slot := (?slot + 1) mod 4\<rparr>))"
      using True h ready l w assms(2) by (auto simp: rtl_send_def Let_def rd_Some wr_Some slice_Some splice_Some b_def)
    have "\<forall>x \<in> set ((ns_tx s)[?slot := b]). length x = 1536"
      using assms(1) lb by (auto simp: net_wf_def dest!: set_update_subset_insert [THEN subsetD])
    then show ?thesis using assms(1) by (intro net_stepI [OF e]) (simp_all add: net_wf_def same_link_def count_net_def)
  qed
qed

lemma firewall_out_ok:
  assumes "net_wf env s" "abi_wf (en_abi env)"
  shows "net_step env (same_link s) (firewall_out env p d s)"
proof -
  have w: "fw_state_wf (en_policy env) (en_xdp env) (ns_fw s)" using assms(1) by (simp add: net_wf_def)
  obtain ok fw where "fw_accept (en_abi env) (en_policy env) (en_xdp env) p d (ns_fw s) = Some (ok, fw)"
    "fw_state_wf (en_policy env) (en_xdp env) fw" "same_policy (fs_fw (ns_fw s)) (fs_fw fw)"
    using fw_accept_spec [OF w assms(2), of p d] by blast
  then show ?thesis using assms(1) by (intro net_stepI [of _ ok "s\<lparr>ns_fw := fw\<rparr>"]) (simp_all add: firewall_out_def net_wf_def same_link_def)
qed

section \<open>The frames TCP sends\<close>

text \<open>The frame as list updates: Ethernet and IPv4 headers, then the two checksums.\<close>

definition ip_header :: "bytes \<Rightarrow> bytes \<Rightarrow> u32 \<Rightarrow> u16 \<Rightarrow> bytes" where
  "ip_header mac own ip n = (mac @ own @ [8, 0, 0x45, 0, ucast (drop_bit 8 n), ucast n, 0, 0, 0, 0, 64, 6, 0, 0, 192, 0, 2, 2,
     ucast (drop_bit 8 (ucast (drop_bit 16 ip) :: u16)), ucast (ucast (drop_bit 16 ip) :: u16),
     ucast (drop_bit 8 (ucast ip :: u16)), ucast (ucast ip :: u16)]) @ replicate 560 0"

lemma ip_header_built:
  assumes "length mac = 6" "length own = 6"
  shows "(do { d \<leftarrow> slice mac 0 6; f \<leftarrow> splice (replicate (14 + 20 + 24 + TCP_MSS) 0) 0 d;
     d \<leftarrow> slice own 0 6; f \<leftarrow> splice f 6 d;
     f \<leftarrow> net_write16 f 12 0x0800;
     f \<leftarrow> wr f 14 0x45; f \<leftarrow> wr f 22 64; f \<leftarrow> wr f 23 NET_TCP;
     f \<leftarrow> net_write16 f 16 n;
     f \<leftarrow> net_write32 f 26 NET_IP; net_write32 f 30 ip }) = Some (ip_header mac own ip n)"
proof -
  have m: "take 6 mac = mac" "take 6 own = own" using assms by simp_all
  have "replicate 22 (0 :: u8) = [0, 0, 0, 0, 0, 0, 0, 0, 0, 0, 0, 0, 0, 0, 0, 0, 0, 0, 0, 0, 0, 0]" by (simp add: numeral_eq_Suc)
  then have r: "replicate 582 (0 :: u8) = [0, 0, 0, 0, 0, 0, 0, 0, 0, 0, 0, 0, 0, 0, 0, 0, 0, 0, 0, 0, 0, 0] @ replicate 560 0"
    using replicate_add [of 22 560 "0 :: u8"] by simp
  show ?thesis using assms
    by (simp add: r ip_header_def slice_Some splice_Some m net_write32_def net_write16_def wr_def list_update_append)
qed

lemma net_checksum_cong:
  "i + len \<le> length p \<Longrightarrow> j + len \<le> length q \<Longrightarrow> take len (drop i p) = take len (drop j q) \<Longrightarrow> net_checksum p i len acc = net_checksum q j len acc"
  by (simp add: net_checksum_def sum_words_eq)

text \<open>A checksum field that is zero before it is filled in.\<close>

lemma fill_zero_field:
  assumes "i + len \<le> length p" "even k" "k + 1 < len" "p ! (i + k) = 0" "p ! (i + k + 1) = 0" "unat acc < 1048576" "len \<le> 65536"
  shows "\<exists>c. net_checksum p i len acc = Some c \<and> net_write16 p (i + k) c = Some (p[i + k := ucast (drop_bit 8 c), i + k + 1 := ucast c]) \<and>
    net_checksum (p[i + k := ucast (drop_bit 8 c), i + k + 1 := ucast c]) i len acc = Some 0"
proof -
  have "defined (net_checksum p i len acc)" using assms(1) by simp
  then obtain c where c: "net_checksum p i len acc = Some c" by (auto elim: definedE)
  have l: "i + k + 1 < length p" using assms by simp
  have w0: "net_write16 p (i + k) 0 = Some p" using l assms(4,5) by (simp add: net_write16_eq) (metis list_update_id Suc_eq_plus1)
  have w: "net_write16 p (i + k) c = Some (p[i + k := ucast (drop_bit 8 c), i + k + 1 := ucast c])" using l by (simp add: net_write16_eq)
  have "words_sum (take len (drop i p)) \<le> 65535 * ((len + 1) div 2)"
    using words_sum_bound [of "take len (drop i p)"] assms(1) by simp
  also have "\<dots> \<le> 65535 * 32768" using assms(7) by simp
  finally have "unat acc + words_sum (take len (drop i p)) + 65535 < 2 ^ 32" using assms(6) by simp
  from checksum_filled [OF w0 c w assms(2,3,1) this] c w show ?thesis by blast
qed

text \<open>What a body must look like for the frame to pass the decoder.\<close>

definition tcp_body :: "bytes \<Rightarrow> bool" where
  "tcp_body b \<longleftrightarrow> 20 \<le> length b \<and> length b \<le> 560 \<and> b ! 16 = 0 \<and> b ! 17 = 0 \<and> 5 \<le> unat (drop_bit 4 (b ! 12)) \<and>
     unat (drop_bit 4 (b ! 12)) * 4 \<le> length b"

lemma segment_tcp_body: "segment_of seq flags payload b \<Longrightarrow> length payload \<le> 536 \<Longrightarrow> tcp_body b"
  by (auto simp: segment_of_def tcp_body_def header_size_def)

lemma stream_tcp_body: "stream_segment isn data b \<Longrightarrow> tcp_body b"
  unfolding stream_segment_def using segment_tcp_body by blast

lemma wait_reply_body: "\<exists>r. wait_reply w = Some r \<and> tcp_body r \<and> length r = 20"
proof -
  obtain r1 where r1: "net_write16 (replicate 20 0) 0 (tw_local w) = Some r1" "length r1 = 20"
    using n16.put_Some [of 0 "replicate 20 0" "tw_local w"] n16.put_length [of "replicate 20 0"] by auto
  obtain r2 where r2: "net_write16 r1 2 (tw_remote w) = Some r2" "length r2 = 20"
    using n16.put_Some [of 2 r1 "tw_remote w"] n16.put_length [of r1] r1(2) by auto
  obtain r3 where r3: "net_write32 r2 4 (tw_next w) = Some r3" "length r3 = 20"
    using n32.put_Some [of 4 r2 "tw_next w"] n32.put_length [of r2] r2(2) by auto
  obtain r4 where r4: "net_write32 r3 8 (tw_acknowledgement w) = Some r4" "length r4 = 20"
    using n32.put_Some [of 8 r3 "tw_acknowledgement w"] n32.put_length [of r3] r3(2) by auto
  have "r4 ! j = 0" if "j = 16 \<or> j = 17" for j
    using that r1(2) r2(2) r3(2) n16.put_frame [OF r1(1), of j] n16.put_frame [OF r2(1), of j] n32.put_frame [OF r3(1), of j] n32.put_frame [OF r4(1), of j]
    by auto
  then show ?thesis using r1 r2 r3 r4 by (simp add: wait_reply_def wr_Some tcp_body_def)
qed

lemma ip_frame_ok:
  assumes m: "length mac = 6" "length own = 6" and b: "tcp_body b"
  shows "\<exists>f p. ip_frame mac own ip b (length b) = Some f \<and> length f = 594 \<and> net_decode f 14 (20 + length b) = Some (Some p) \<and>
    pkt_source p = NET_IP \<and> pkt_destination p = ip \<and> pkt_protocol p = NET_TCP \<and> unat (pkt_length p) = 20 + length b \<and>
    net_read16 b 0 = Some (pkt_source_port p) \<and> net_read16 b 2 = Some (pkt_destination_port p)"
proof -
  let ?n = "of_nat (20 + length b) :: u16" and ?z = "length b"
  have z: "20 \<le> ?z" "?z \<le> 560" using b by (simp_all add: tcp_body_def)
  define H where "H = ip_header mac own ip ?n"
  have lH: "length H = 594" using m by (simp add: H_def ip_header_def)
  have zH: "H ! 24 = 0" "H ! 25 = 0" using m by (simp_all add: H_def ip_header_def nth_append)
  obtain c1 where c1: "net_checksum H 14 20 0 = Some c1" "net_write16 H 24 c1 = Some (H[24 := ucast (drop_bit 8 c1), 25 := ucast c1])"
    "net_checksum (H[24 := ucast (drop_bit 8 c1), 25 := ucast c1]) 14 20 0 = Some 0"
    using fill_zero_field [of 14 20 H 10 0] lH zH by auto
  define H1 where "H1 = H[24 := ucast (drop_bit 8 c1), 25 := ucast c1]"
  define F0 where "F0 = take 34 H1 @ b @ drop (34 + ?z) H1"
  have lH1: "length H1 = 594" using lH by (simp add: H1_def)
  have lF0: "length F0 = 594" using lH1 z by (simp add: F0_def)
  have bF0: "take ?z (drop 34 F0) = b" using lH1 by (simp add: F0_def)
  have f0: "F0 ! j = H1 ! j" if "j < 34" for j using that lH1 by (simp add: F0_def nth_append)
  have fb: "F0 ! (34 + j) = b ! j" if "j < ?z" for j using that lH1 by (simp add: F0_def nth_append)
  define pseudo :: u32 where "pseudo = ucast (push_bit 8 (ucast (F0 ! 26)) OR ucast (F0 ! 27) :: u16) + ucast (push_bit 8 (ucast (F0 ! 28)) OR ucast (F0 ! 29) :: u16) +
     ucast (push_bit 8 (ucast (F0 ! 30)) OR ucast (F0 ! 31) :: u16) + ucast (push_bit 8 (ucast (F0 ! 32)) OR ucast (F0 ! 33) :: u16) + ucast NET_TCP + of_nat ?z"
  have small: "unat pseudo < 1048576"
  proof -
    have a: "unat (x + y) \<le> unat x + unat y" for x y :: u32 by (simp add: unat_word_ariths)
    have w: "unat (ucast x :: u32) \<le> 65535" for x :: u16 using unat_lt_65536 [of x] by simp
    have n: "unat (ucast NET_TCP :: u32) = 6" "unat (of_nat ?z :: u32) \<le> 560" using z by (simp_all add: unat_of_nat take_bit_eq_mod)
    show ?thesis unfolding pseudo_def
      by (rule order.strict_trans1 [OF order.trans [OF a add_mono [OF order.trans [OF a add_mono [OF order.trans [OF a add_mono [OF order.trans [OF a
        add_mono [OF order.trans [OF a add_mono [OF w w]] w]] w]] eq_refl [OF n(1)]]] n(2)]]]) simp
  qed
  have "F0 ! 50 = 0" "F0 ! 51 = 0" using fb [of 16] fb [of 17] b z by (simp_all add: tcp_body_def)
  then obtain c2 where c2: "net_checksum F0 34 ?z pseudo = Some c2" "net_write16 F0 50 c2 = Some (F0[50 := ucast (drop_bit 8 c2), 51 := ucast c2])"
    "net_checksum (F0[50 := ucast (drop_bit 8 c2), 51 := ucast c2]) 34 ?z pseudo = Some 0"
    using fill_zero_field [of 34 ?z F0 16 pseudo] lF0 z small by auto
  define F where "F = F0[50 := ucast (drop_bit 8 c2), 51 := ucast c2]"
  have lF: "length F = 594" using lF0 by (simp add: F_def)
  have built: "ip_frame mac own ip b ?z = Some F"
  proof -
    have "ip_frame mac own ip b ?z = Option.bind (do { d \<leftarrow> slice mac 0 6; f \<leftarrow> splice (replicate (14 + 20 + 24 + TCP_MSS) 0) 0 d;
     d \<leftarrow> slice own 0 6; f \<leftarrow> splice f 6 d;
     f \<leftarrow> net_write16 f 12 0x0800;
     f \<leftarrow> wr f 14 0x45; f \<leftarrow> wr f 22 64; f \<leftarrow> wr f 23 NET_TCP;
     f \<leftarrow> net_write16 f 16 ?n;
     f \<leftarrow> net_write32 f 26 NET_IP; net_write32 f 30 ip })
     (\<lambda>f. do { c \<leftarrow> net_checksum f 14 20 0; f \<leftarrow> net_write16 f 24 c;
     d \<leftarrow> slice b 0 ?z; f \<leftarrow> splice f 34 d;
     p1 \<leftarrow> net_read16 f 26; p2 \<leftarrow> net_read16 f 28; p3 \<leftarrow> net_read16 f 30; p4 \<leftarrow> net_read16 f 32;
     c \<leftarrow> net_checksum f 34 ?z (ucast p1 + ucast p2 + ucast p3 + ucast p4 + ucast NET_TCP + of_nat ?z);
     net_write16 f 50 c })"
      by (simp only: ip_frame_def Option.bind_assoc)
    also have "\<dots> = Some F" unfolding ip_header_built [OF m] H_def [symmetric]
      using c1(1,2) c2(1,2) lF0 lH1 z
      by (simp add: H1_def [symmetric] F_def slice_Some splice_Some F0_def [symmetric] net_read16_Some pseudo_def [simplified, symmetric])
    finally show ?thesis .
  qed
  have fF: "F ! j = F0 ! j" if "j < 50 \<or> 52 \<le> j" for j using that by (auto simp: F_def)
  have fH: "F ! j = H1 ! j" if "j < 34" for j using that fF [of j] f0 [of j] by simp
  have hs: "H1 ! 14 = 0x45" "H1 ! 16 = ucast (drop_bit 8 ?n)" "H1 ! 17 = ucast ?n" "H1 ! 20 = 0" "H1 ! 21 = 0" "H1 ! 22 = 64" "H1 ! 23 = 6"
    "H1 ! 26 = 192" "H1 ! 27 = 0" "H1 ! 28 = 2" "H1 ! 29 = 2"
    "H1 ! 30 = ucast (drop_bit 8 (ucast (drop_bit 16 ip) :: u16))" "H1 ! 31 = ucast (ucast (drop_bit 16 ip) :: u16)"
    "H1 ! 32 = ucast (drop_bit 8 (ucast ip :: u16))" "H1 ! 33 = ucast (ucast ip :: u16)"
    using m by (simp_all add: H1_def H_def ip_header_def nth_append)
  have r: "rd F 14 = Some 0x45" "rd F 22 = Some 64" "rd F 23 = Some 6" "net_read16 F 20 = Some 0" "net_read16 F 16 = Some ?n"
    "net_read32 F 26 = Some NET_IP" "net_read32 F 30 = Some ip"
    using lF by (simp_all add: rd_Some net_read16_Some net_read32_def fH hs split_u16 split_u32)
  have c20: "net_checksum F 14 20 0 = Some 0"
  proof -
    have "take 20 (drop 14 F) = take 20 (drop 14 H1)" using fH lF lH1 by (intro nth_equalityI) simp_all
    then have "net_checksum F 14 20 0 = net_checksum H1 14 20 0" using lF lH1 by (intro net_checksum_cong) simp_all
    then show ?thesis using c1(3) by (simp add: H1_def)
  qed
  have ps: "pseudo_sum F 14 NET_TCP ?z = Some pseudo" using lF by (simp add: pseudo_sum_def net_read16_Some fF pseudo_def)
  have tb: "F ! (34 + j) = b ! j" if "j < 16" for j using that fF [of "34 + j"] fb [of j] z by simp
  obtain sp where sp: "net_read16 b 0 = Some sp" using net_read16_ex [of 0 b] z by auto
  obtain dp where dp: "net_read16 b 2 = Some dp" using net_read16_ex [of 2 b] z by auto
  have fp: "rd F 46 = Some (b ! 12)" "net_read16 F 34 = Some sp" "net_read16 F 36 = Some dp"
    using tb [of 12] tb [of 0] tb [of 1] tb [of 2] tb [of 3] lF sp dp z by (simp_all add: rd_Some net_read16_Some)
  have dt: "decode_transport F 34 ?z NET_TCP pseudo = Some (Some (sp, dp))"
    using b z c2(3) by (simp add: decode_transport_def decode_tcp_def tcp_body_def F_def [symmetric] fp)
  have n: "unat ?n = 20 + ?z" using z by (simp add: unat_of_nat take_bit_eq_mod del: of_nat_add)
  have "ip_header_bad F 14 (20 + ?z) = Some False" using z by (simp add: ip_header_bad_def r c20)
  then have "net_decode F 14 (20 + ?z) = Some (Some \<lparr>pkt_source = NET_IP, pkt_destination = ip, pkt_source_port = sp, pkt_destination_port = dp,
      pkt_length = ?n, pkt_protocol = NET_TCP\<rparr>)"
    using n by (simp add: net_decode_def r ps dt)
  then show ?thesis using built lF n sp dp by simp
qed

text \<open>C11: Every segment the connection emits becomes a frame that the machine's own decoder accepts: the Ethernet and
  IPv4 headers, the header checksum and the TCP checksum over the pseudo header that \<^verbatim>\<open>send_to\<close> writes decode to
  a TCP packet from the fixed address to the peer with the ports and the length of the segment. So the sanity
  check before the firewall never drops a segment of TCP.\<close>

theorem tcp_frame_decodes:
  assumes "length mac = 6" "length own = 6" and "segment_of seq flags payload b" "length payload \<le> 536"
  shows "\<exists>f p. ip_frame mac own ip b (length b) = Some f \<and> net_decode f 14 (20 + length b) = Some (Some p) \<and>
    pkt_source p = NET_IP \<and> pkt_destination p = ip \<and> pkt_protocol p = NET_TCP \<and> unat (pkt_length p) = 20 + length b \<and>
    net_read16 b 0 = Some (pkt_source_port p) \<and> net_read16 b 2 = Some (pkt_destination_port p)"
  using ip_frame_ok [OF assms(1,2) segment_tcp_body [OF assms(3,4)], of ip] by blast

text \<open>A bare acknowledgement.\<close>

definition bare_ack :: bytes where
  "bare_ack = [192, 0, 0, 7, 0, 0, 0, 5, 0, 0, 0, 9, 0x50, 16, 16, 0, 0, 0, 0, 0]"

theorem tcp_frame_decodes_witness:
  "segment_of 5 16 [] bare_ack \<and> (\<exists>f p. ip_frame (replicate 6 1) (replicate 6 2) 0xc0000201 bare_ack 20 = Some f \<and> net_decode f 14 40 = Some (Some p) \<and>
     pkt_destination p = 0xc0000201)"
proof -
  have s: "segment_of 5 16 [] bare_ack"
    by (simp add: segment_of_def bare_ack_def header_size_def net_read32_def net_read16_Some)
  have l: "length bare_ack = 20" by (simp add: bare_ack_def)
  have m: "length (replicate 6 (1 :: u8)) = 6" "length (replicate 6 (2 :: u8)) = 6" by simp_all
  from tcp_frame_decodes [OF m s, of "0xc0000201"] s show ?thesis by (auto simp: l)
qed

end
