(* ===== verification/Network.thy ===== *)
theory Network
  imports Nic
begin

text \<open>
  The packet path of \<^verbatim>\<open>src/jordyOS/net/network.c\<close>, on top of the link: TCP rests on the link through the
  interface \<open>tcp_link\<close>, interpreted here on the code's own \<^verbatim>\<open>emit\<close>; then \<^verbatim>\<open>net_receive\<close> with its ARP and
  echo answers, and what every frame does to the invariant of the network state.
\<close>

section \<open>TCP on this network\<close>

lemma send_to_ok:
  assumes "net_wf env s" "abi_wf (en_abi env)" "length mac = 6" "tcp_body b"
  shows "net_step env (same_link s) (send_to env ip mac b (length b) s)"
proof -
  have "length (ns_mac s) = 6" using assms(1) by (simp add: net_wf_def)
  from ip_frame_ok [OF assms(3) this assms(4), of ip] obtain f p where f: "ip_frame mac (ns_mac s) ip b (length b) = Some f" "length f = 594"
    "net_decode f 14 (20 + length b) = Some (Some p)" by blast
  obtain ok t where t: "firewall_out env p FW_OUT s = Some (ok, t)" "net_wf env t" "same_link s t"
    using firewall_out_ok [OF assms(1,2), of p FW_OUT] by (auto simp: net_step_def)
  show ?thesis
  proof (cases ok)
    case False
    then show ?thesis using f t by (intro net_stepI [of _ False t]) (simp_all add: send_to_def)
  next
    case True
    have l: "34 + length b \<le> length f" using assms(4) f(2) by (simp add: tcp_body_def)
    from rtl_send_ok [OF t(2) l] obtain ok' u where "rtl_send env f (34 + length b) t = Some (ok', u)" "net_wf env u" "same_link t u"
      by (auto simp: net_step_def)
    then show ?thesis using True f t same_link_trans [OF t(3)] by (intro net_stepI [of _ ok' u]) (simp_all add: send_to_def)
  qed
qed

interpretation native: tcp_link "emit_native env" isn data "\<lambda>s. net_wf env s \<and> abi_wf (en_abi env) \<and> same_link s0 s" for env isn data s0
proof
  fix s :: "('a, 'b) net_state" and b
  assume s: "net_wf env s \<and> abi_wf (en_abi env) \<and> same_link s0 s" and b: "stream_segment isn data b"
  show "\<exists>ok s'. emit_native env s b = Some (ok, s') \<and> net_wf env s' \<and> abi_wf (en_abi env) \<and> same_link s0 s'"
  proof (cases "ns_have_mac s")
    case False
    then show ?thesis using s by (auto simp: emit_native_def)
  next
    case True
    have "length (ns_peer_mac s) = 6" using s by (simp add: net_wf_def)
    from send_to_ok [OF _ _ this stream_tcp_body [OF b], of env s "ns_peer_ip s"] s True show ?thesis
      using same_link_trans by (auto simp: net_step_def emit_native_def)
  qed
qed

text \<open>A step of the whole network that is defined and keeps both invariants.\<close>

definition net_ok :: "('m, 'h) net_env \<Rightarrow> ('m, 'h) net_state \<Rightarrow> ('m, 'h) net_state option \<Rightarrow> bool" where
  "net_ok env s r \<longleftrightarrow> (\<exists>s'. r = Some s' \<and> net_wf env s' \<and> tcp_alive s' \<and>
     same_policy (fs_fw (ns_fw s)) (fs_fw (ns_fw s')) \<and> ns_running s' = ns_running s)"

lemma net_okI: "r = Some s' \<Longrightarrow> net_wf env s' \<Longrightarrow> tcp_alive s' \<Longrightarrow> same_policy (fs_fw (ns_fw s)) (fs_fw (ns_fw s')) \<Longrightarrow>
    ns_running s' = ns_running s \<Longrightarrow> net_ok env s r"
  by (auto simp: net_ok_def)

lemma net_ok_refl: "net_wf env s \<Longrightarrow> tcp_alive s \<Longrightarrow> net_ok env s (Some s)"
  by (simp add: net_ok_def)

lemma net_ok_trans: "net_ok env s (Some t) \<Longrightarrow> net_ok env t r \<Longrightarrow> net_ok env s r"
  using same_policy_trans by (auto simp: net_ok_def)

lemma net_ok_link: "same_link s s' \<Longrightarrow> net_wf env s' \<Longrightarrow> tcp_alive s \<Longrightarrow> net_ok env s (Some s')"
  using same_link_alive [of s s'] by (simp add: net_ok_def same_link_def)

lemma net_step_ok: "net_step env (same_link s) r \<Longrightarrow> tcp_alive s \<Longrightarrow> net_ok env s (map_option snd r)"
  by (auto simp: net_step_def intro: net_ok_link)

text \<open>Writing back the connection after one of its events.\<close>

lemma write_back:
  assumes "net_wf env t" "same_link s t" "tcp_wf isn data c"
  shows "net_ok env s (Some (t\<lparr>ns_tcp := c\<rparr>))"
  using assms by (intro net_okI [OF refl]) (auto simp: net_wf_def tcp_alive_def same_link_def)

lemma tcp_net_arp_ok:
  assumes "net_wf env s" "tcp_alive s" "sz \<le> length f"
  shows "net_ok env s (tcp_net_arp f sz s)"
proof (cases "ns_resolving s \<and> 42 \<le> sz")
  case False
  then show ?thesis using net_ok_refl [OF assms(1,2)] by (auto simp: tcp_net_arp_def)
next
  case True
  then have l: "42 \<le> length f" using assms(3) by simp
  have m: "slice (ns_mac s) 0 6 = Some (ns_mac s)" using assms(1) by (simp add: slice_Some net_wf_def)
  have "net_ok env s (Some s)" "net_ok env s (Some (s\<lparr>ns_peer_mac := take 6 (drop 22 f), ns_have_mac := True\<rparr>))"
    using assms l by (auto simp: net_ok_def net_wf_def tcp_alive_def)
  then show ?thesis using True l by (simp add: tcp_net_arp_def m slice_Some rd_Some net_read16_Some net_read32_def)
qed

lemma now_us_ok:
  assumes "net_wf env s" "ns_clock_ready s"
  shows "\<exists>now h. now_us env s = Some (now, s\<lparr>ns_hw := h\<rparr>)"
proof -
  obtain t h where "hw_tsc (en_hw env) (ns_hw s) = (t, h)" by fastforce
  then have "now_us env s = Some ((t - ns_clock_origin s) div ns_ticks s, s\<lparr>ns_hw := h\<rparr>)" using assms by (simp add: now_us_def net_wf_def)
  then show ?thesis by blast
qed

lemma hw_link: "net_wf env s \<Longrightarrow> net_wf env (s\<lparr>ns_hw := h\<rparr>) \<and> same_link s (s\<lparr>ns_hw := h\<rparr>)"
  by (simp add: net_wf_def same_link_def)

lemma timewait_loop_ok:
  assumes "abi_wf (en_abi env)" "20 \<le> length b"
  shows "net_wf env s \<Longrightarrow> tcp_alive s \<Longrightarrow>
    \<exists>m s'. timewait_loop env b sz p now i s = Some (m, s') \<and> net_ok env s (Some s') \<and> (\<not> m \<longrightarrow> s' = s)"
  using assms
proof (induction env b sz p now i s rule: timewait_loop.induct)
  case (1 env b sz p now i s)
  show ?case
  proof (cases "i < 8")
    case False
    then have "timewait_loop env b sz p now i s = Some (False, s)" by (subst timewait_loop.simps) simp
    then show ?thesis using net_ok_refl [OF 1(2,3)] by blast
  next
    case True
    let ?w = "ns_timewait s ! i"
    have tw: "length (ns_timewait s) = 8" using 1(2) by (simp add: net_wf_def)
    have i: "i < length (ns_timewait s)" using tw True by simp
    note r = rd_Some [OF i]
    show ?thesis
    proof (cases "tw_expires ?w \<le> now \<or> tw_ip ?w \<noteq> pkt_source p \<or> tw_local ?w \<noteq> pkt_destination_port p \<or> tw_remote ?w \<noteq> pkt_source_port p")
      case skip: True
      then show ?thesis using 1(1) [OF True r skip 1(2-5)] True by (subst timewait_loop.simps) (simp add: r)
    next
      case hit: False
      have l: "13 < length b" "12 < length b" using 1(5) by simp_all
      obtain seq where seq: "net_read32 b 4 = Some seq" using net_read32_ex [of 4 b] 1(5) by auto
      note rb = rd_Some [OF l(1)] rd_Some [OF l(2)] seq
      show ?thesis
      proof (cases "b ! 13 AND (TCP_FIN OR TCP_RST) = TCP_FIN \<and> seq + (of_nat sz - ucast (drop_bit 4 (b ! 12)) * 4) + 1 = tw_acknowledgement ?w")
        case no: False
        have "timewait_loop env b sz p now i s = Some (True, s)" using True hit no by (subst timewait_loop.simps) (auto simp: r rb)
        then show ?thesis using net_ok_refl [OF 1(2,3)] by blast
      next
        case yes: True
        obtain reply where reply: "wait_reply ?w = Some reply" "tcp_body reply" "length reply = 20" using wait_reply_body by blast
        have mac: "length (tw_mac ?w) = 6" using 1(2) i by (auto simp: net_wf_def)
        from send_to_ok [OF 1(2,4) mac reply(2), of "tw_ip ?w"] reply(3) obtain ok t where
          t: "send_to env (tw_ip ?w) (tw_mac ?w) reply 20 s = Some (ok, t)" "net_wf env t" "same_link s t" by (auto simp: net_step_def)
        have it: "i < length (ns_timewait t)" using t(3) i by (simp add: same_link_def)
        let ?t = "t\<lparr>ns_timewait := (ns_timewait t)[i := ?w\<lparr>tw_expires := now + 120000000\<rparr>]\<rparr>"
        have "timewait_loop env b sz p now i s = Some (True, ?t)"
          using True hit yes t(1) it by (subst timewait_loop.simps) (simp add: r rb reply(1) wr_Some)
        moreover have "net_wf env ?t" using t(2) mac by (auto simp: net_wf_def dest!: set_update_subset_insert [THEN subsetD])
        then have "net_ok env s (Some ?t)" using t(3) same_link_alive [OF t(3)] 1(3)
          by (intro net_okI [OF refl]) (auto simp: same_link_def tcp_alive_def)
        ultimately show ?thesis by blast
      qed
    qed
  qed
qed

lemma tcp_net_input_ok:
  assumes wf: "net_wf env s" and al: "tcp_alive s" and abi: "abi_wf (en_abi env)"
    and f: "14 + unat (pkt_length p) \<le> length frame" "20 \<le> unat (pkt_length p)" "pkt_protocol p = NET_TCP \<Longrightarrow> 54 \<le> length frame" "pkt_protocol p = NET_TCP"
  shows "net_ok env s (tcp_net_input env frame p s)"
proof (cases "ns_clock_ready s")
  case False
  then show ?thesis using net_ok_refl [OF wf al] f by (simp add: tcp_net_input_def Let_def)
next
  case True
  let ?b = "drop 34 frame" and ?sz = "unat (pkt_length p) - 20"
  obtain now h where now: "now_us env s = Some (now, s\<lparr>ns_hw := h\<rparr>)" using now_us_ok [OF wf True] by blast
  let ?s = "s\<lparr>ns_hw := h\<rparr>"
  have ws: "net_wf env ?s" "same_link s ?s" using hw_link [OF wf] by simp_all
  have as: "tcp_alive ?s" using same_link_alive [OF ws(2)] al by simp
  have ok0: "net_ok env s (Some ?s)" by (rule net_ok_link [OF ws(2,1) al])
  have lb: "20 \<le> length ?b" using f by simp
  obtain m t where t: "timewait_loop env ?b ?sz p now 0 ?s = Some (m, t)" "net_ok env ?s (Some t)" "\<not> m \<longrightarrow> t = ?s"
    using timewait_loop_ok [OF abi lb ws(1) as] by blast
  have okt: "net_ok env s (Some t)" by (rule net_ok_trans [OF ok0 t(2)])
  have wt: "net_wf env t" "tcp_alive t" using t(2) by (simp_all add: net_ok_def)
  have src: "slice frame 6 6 = Some (take 6 (drop 6 frame))" "slice (ns_peer_mac t) 0 6 = Some (ns_peer_mac t)"
    using f wt(1) by (simp_all add: slice_Some net_wf_def)
  show ?thesis
  proof (cases "m \<or> \<not> (ns_running t \<and> pkt_source p = ns_peer_ip t) \<or> take 6 (drop 6 frame) \<noteq> ns_peer_mac t")
    case stop: True
    then have "tcp_net_input env frame p s = Some t" using True f now t(1) src by (auto simp: tcp_net_input_def Let_def)
    then show ?thesis using okt by simp
  next
    case go: False
    obtain isn data where c: "tcp_wf isn data (ns_tcp t)" using wt(2) go by (auto simp: tcp_alive_def)
    have sz: "?sz \<le> length ?b" "?sz < 65536" using f unat_lt_65536 [of "pkt_length p"] by simp_all
    from native.input_ok [OF c _ sz, of env t t "[]" 0 "en_larp env" now] wt(1) abi obtain c' u where
      u: "tcp_input (en_larp env) (emit_native env) (ns_tcp t) ?b ?sz now t = Some (c', u)" "tcp_wf isn data c'" "net_wf env u" "same_link t u"
      by (auto simp: step_ok_def)
    have "tcp_net_input env frame p s = Some (u\<lparr>ns_tcp := c'\<rparr>)" using True f now t(1) src go u(1) by (simp add: tcp_net_input_def Let_def)
    then show ?thesis using net_ok_trans [OF okt write_back [OF u(3,4,2)]] by simp
  qed
qed

lemma tcp_net_poll_ok:
  assumes wf: "net_wf env s" and al: "tcp_alive s" and abi: "abi_wf (en_abi env)"
  shows "net_ok env s (tcp_net_poll env s)"
proof (cases "ns_running s")
  case False
  then show ?thesis using net_ok_refl [OF wf al] by (simp add: tcp_net_poll_def)
next
  case True
  then have "ns_clock_ready s" using wf by (simp add: net_wf_def)
  then obtain now h where now: "now_us env s = Some (now, s\<lparr>ns_hw := h\<rparr>)" using now_us_ok [OF wf] by blast
  let ?s = "s\<lparr>ns_hw := h\<rparr>"
  have ws: "net_wf env ?s" "same_link s ?s" using hw_link [OF wf] by simp_all
  obtain isn data where c: "tcp_wf isn data (ns_tcp s)" using al True by (auto simp: tcp_alive_def)
  from native.tick_ok [OF c, of env ?s s "[]" 0 "en_larp env" now] ws abi obtain c' u where
    u: "tcp_tick (en_larp env) (emit_native env) (ns_tcp s) now ?s = Some (c', u)" "tcp_wf isn data c'" "net_wf env u" "same_link s u"
    by (auto simp: step_ok_def)
  have "tcp_net_poll env s = Some (u\<lparr>ns_tcp := c'\<rparr>)" using True now u(1) by (simp add: tcp_net_poll_def)
  then show ?thesis using write_back [OF u(3,4,2)] by simp
qed

lemma tcp_net_down_ok:
  assumes wf: "net_wf env s" and al: "tcp_alive s" and abi: "abi_wf (en_abi env)"
  shows "net_ok env s (tcp_net_down env s)"
proof -
  have fin: "net_ok env s (Some (t\<lparr>ns_have_mac := False\<rparr>))" if "net_ok env s (Some t)" for t
    using that by (auto simp: net_ok_def net_wf_def tcp_alive_def)
  show ?thesis
  proof (cases "ns_running s")
    case False
    then show ?thesis using fin [OF net_ok_refl [OF wf al]] by (simp add: tcp_net_down_def)
  next
    case True
    obtain isn data where c: "tcp_wf isn data (ns_tcp s)" using al True by (auto simp: tcp_alive_def)
    from native.abort_ok [OF c, of env s s "''network interface stopped''"] wf abi obtain c' u where
      u: "tcp_abort (emit_native env) (ns_tcp s) ''network interface stopped'' s = Some (c', u)" "tcp_wf isn data c'" "net_wf env u" "same_link s u"
      by auto
    then show ?thesis using fin [OF write_back [OF u(3,4,2)]] True by (simp add: tcp_net_down_def)
  qed
qed

section \<open>The packet path\<close>

definition net_init :: "('m, 'h) net_state \<Rightarrow> ('m, 'h) net_state" where
  "net_init s = s\<lparr>ns_fw := (ns_fw s)\<lparr>fs_fw := fw_reset\<rparr>\<rparr>"

definition peer_ip :: "u32 \<Rightarrow> bool" where
  "peer_ip ip \<longleftrightarrow> ip AND NET_MASK = NET_IP AND NET_MASK \<and> ip AND 255 \<noteq> 0 \<and> ip AND 255 \<noteq> 255 \<and> ip \<noteq> NET_IP"

abbreviation (input) ignored :: "('m, 'h) net_state \<Rightarrow> ('m, 'h) net_state" where
  "ignored \<equiv> count_net (\<lambda>n. n\<lparr>nw_ignored := nw_ignored n + 1\<rparr>)"

abbreviation (input) invalid :: "('m, 'h) net_state \<Rightarrow> ('m, 'h) net_state" where
  "invalid \<equiv> count_net (\<lambda>n. n\<lparr>nw_invalid := nw_invalid n + 1\<rparr>)"

abbreviation (input) driver_error :: "('m, 'h) net_state \<Rightarrow> ('m, 'h) net_state" where
  "driver_error \<equiv> count_net (\<lambda>n. n\<lparr>nw_driver_errors := nw_driver_errors n + 1\<rparr>)"

text \<open>The ARP branch: the request must ask for the fixed address; the reply is built in a buffer of its own.\<close>

definition arp_refused :: "bytes \<Rightarrow> nat \<Rightarrow> bool option" where
  "arp_refused f sz =
     (if sz < 42 then Some True
      else do {
        hw \<leftarrow> net_read16 f 14; proto \<leftarrow> net_read16 f 16; hlen \<leftarrow> rd f 18; plen \<leftarrow> rd f 19; op \<leftarrow> net_read16 f 20;
        src \<leftarrow> slice f 6 6; sender \<leftarrow> slice f 22 6; sip \<leftarrow> net_read32 f 28; tip \<leftarrow> net_read32 f 38;
        Some (hw \<noteq> 1 \<or> proto \<noteq> 0x0800 \<or> hlen \<noteq> 6 \<or> plen \<noteq> 4 \<or> op \<noteq> 1 \<or> src \<noteq> sender \<or> \<not> peer_ip sip \<or> tip \<noteq> NET_IP) })"

definition arp_reply :: "bytes \<Rightarrow> bytes \<Rightarrow> bytes option" where
  "arp_reply mac f = do {
     d \<leftarrow> slice f 6 6; r \<leftarrow> splice (replicate 42 0) 0 d; m \<leftarrow> slice mac 0 6; r \<leftarrow> splice r 6 m;
     r \<leftarrow> net_write16 r 12 0x0806; d \<leftarrow> slice f 14 8; r \<leftarrow> splice r 14 d;
     r \<leftarrow> net_write16 r 20 2; r \<leftarrow> splice r 22 m;
     r \<leftarrow> net_write32 r 28 NET_IP; d \<leftarrow> slice f 22 10; splice r 32 d }"

text \<open>The in-place echo: \<open>None\<close> inside the option is the branch that returns without an answer.\<close>

definition echo_body :: "bool \<Rightarrow> packet \<Rightarrow> bytes \<Rightarrow> bytes option option" where
  "echo_body on p f = do {
     ping \<leftarrow> (if pkt_protocol p = NET_ICMP then do { a \<leftarrow> rd f 34; if a = 8 then do { b \<leftarrow> rd f 35; Some (b = 0) } else Some False } else Some False);
     if ping then do {
       f \<leftarrow> wr f 34 0; f \<leftarrow> net_write16 f 36 0;
       c \<leftarrow> net_checksum f 34 (unat (pkt_length p) - 20) 0;
       f \<leftarrow> net_write16 f 36 c; Some (Some f) }
     else if pkt_protocol p = NET_UDP \<and> pkt_destination_port p = 7777 \<and> on then do {
       f \<leftarrow> net_write16 f 34 (pkt_destination_port p); f \<leftarrow> net_write16 f 36 (pkt_source_port p);
       f \<leftarrow> net_write16 f 40 0; Some (Some f) }
     else Some None }"

definition echo_header :: "packet \<Rightarrow> bytes \<Rightarrow> bytes option" where
  "echo_header p f = do {
     f \<leftarrow> net_write32 f 26 NET_IP; f \<leftarrow> net_write32 f 30 (pkt_source p);
     f \<leftarrow> wr f 22 64; f \<leftarrow> net_write16 f 24 0; c \<leftarrow> net_checksum f 14 20 0; net_write16 f 24 c }"

definition echo_ethernet :: "bytes \<Rightarrow> bytes \<Rightarrow> bytes option" where
  "echo_ethernet mac f = do { d \<leftarrow> slice f 6 6; f \<leftarrow> splice f 0 d; m \<leftarrow> slice mac 0 6; splice f 6 m }"

definition echo :: "('m, 'h) net_env \<Rightarrow> packet \<Rightarrow> bytes \<Rightarrow> ('m, 'h) net_state \<Rightarrow> (bytes \<times> ('m, 'h) net_state) option" where
  "echo env p f s = do {
     body \<leftarrow> echo_body (nw_echo (ns_net s)) p f;
     (case body of None \<Rightarrow> Some (f, s)
      | Some f \<Rightarrow> do {
          f \<leftarrow> echo_header p f;
          outgoing \<leftarrow> net_decode f 14 (unat (pkt_length p));
          (case outgoing of None \<Rightarrow> Some (f, s)
           | Some q \<Rightarrow> do {
               (ok, s) \<leftarrow> firewall_out env q FW_OUT s;
               if \<not> ok then Some (f, s)
               else do {
                 f \<leftarrow> echo_ethernet (ns_mac s) f;
                 (_, s) \<leftarrow> rtl_send env f (14 + unat (pkt_length p)) s;
                 Some (f, s) } }) }) }"

text \<open>The two branches of the handler, by Ethernet type; both return the buffer too, which the echo rewrites.\<close>

definition arp_input :: "('m, 'h) net_env \<Rightarrow> bytes \<Rightarrow> nat \<Rightarrow> ('m, 'h) net_state \<Rightarrow> (bytes \<times> ('m, 'h) net_state) option" where
  "arp_input env f sz s = do {
     s \<leftarrow> tcp_net_arp f sz s;
     refused \<leftarrow> arp_refused f sz;
     if refused then Some (f, ignored s)
     else do {
       reply \<leftarrow> arp_reply (ns_mac s) f;
       (_, s) \<leftarrow> rtl_send env reply 42 s;
       Some (f, s) } }"

definition ip_input :: "('m, 'h) net_env \<Rightarrow> bytes \<Rightarrow> nat \<Rightarrow> ('m, 'h) net_state \<Rightarrow> (bytes \<times> ('m, 'h) net_state) option" where
  "ip_input env f sz s = do {
     decoded \<leftarrow> net_decode f 14 (sz - 14);
     (case decoded of None \<Rightarrow> Some (f, invalid s)
      | Some p \<Rightarrow>
          if pkt_destination p \<noteq> NET_IP \<or> \<not> peer_ip (pkt_source p) then Some (f, ignored s)
          else do {
            (ok, s) \<leftarrow> firewall_out env p FW_IN s;
            if \<not> ok then Some (f, s)
            else if pkt_protocol p = NET_TCP then do { s \<leftarrow> tcp_net_input env f p s; Some (f, s) }
            else echo env p f s }) }"

text \<open>The part behind the XDP program, and the whole handler.\<close>

definition frame_input :: "('m, 'h) net_env \<Rightarrow> bytes \<Rightarrow> nat \<Rightarrow> ('m, 'h) net_state \<Rightarrow> (bytes \<times> ('m, 'h) net_state) option" where
  "frame_input env f sz s = do {
     dst \<leftarrow> slice f 0 6; own \<leftarrow> slice (ns_mac s) 0 6; f6 \<leftarrow> rd f 6;
     let local = (dst = own);
     if (\<not> local \<and> dst \<noteq> replicate 6 255) \<or> f6 AND 1 \<noteq> 0 then Some (f, ignored s)
     else do {
       type \<leftarrow> net_read16 f 12;
       if type = 0x0806 then arp_input env f sz s
       else if type \<noteq> 0x0800 \<or> \<not> local then Some (f, ignored s)
       else ip_input env f sz s } }"

definition net_receive :: "('m, 'h) net_env \<Rightarrow> bytes \<Rightarrow> nat \<Rightarrow> ('m, 'h) net_state \<Rightarrow> (bytes \<times> ('m, 'h) net_state) option" where
  "net_receive env f sz s = (let s = count_net (\<lambda>n. n\<lparr>nw_received := nw_received n + 1\<rparr>) s in
     if sz < 14 \<or> sz > NET_FRAME_MAX then Some (f, invalid s)
     else do {
       (pass, fw) \<leftarrow> fw_bpf_xdp (en_abi env) (en_policy env) (en_xdp env) f sz (ns_fw s);
       let s = s\<lparr>ns_fw := fw\<rparr>;
       if \<not> pass then Some (f, s) else frame_input env f sz s })"

section \<open>Safety of the packet path\<close>

lemma ex_bool [simp]: "Ex Not" "\<exists>b. b" "\<exists>b. \<not> b"
  by auto

text \<open>The same promise for a step with a result of its own beside the state.\<close>

definition net_ok_with :: "('m, 'h) net_env \<Rightarrow> ('m, 'h) net_state \<Rightarrow> ('a \<Rightarrow> bool) \<Rightarrow> ('a \<times> ('m, 'h) net_state) option \<Rightarrow> bool" where
  "net_ok_with env s P r \<longleftrightarrow> (\<exists>x s'. r = Some (x, s') \<and> P x \<and> net_ok env s (Some s'))"

lemma net_ok_withI: "r = Some (x, s') \<Longrightarrow> P x \<Longrightarrow> net_ok env s (Some s') \<Longrightarrow> net_ok_with env s P r"
  by (auto simp: net_ok_with_def)

lemma net_ok_withE:
  assumes "net_ok_with env s P r"
  obtains x s' where "r = Some (x, s')" "P x" "net_ok env s (Some s')"
  using assms by (auto simp: net_ok_with_def)

lemma net_ok_with_trans: "net_ok env s (Some t) \<Longrightarrow> net_ok_with env t P r \<Longrightarrow> net_ok_with env s P r"
  unfolding net_ok_with_def using net_ok_trans by blast

lemma net_okE:
  assumes "net_ok env s r"
  obtains s' where "r = Some s'" "net_ok env s (Some s')"
  using assms by (auto simp: net_ok_def)

lemma net_okD: "net_ok env s (Some s') \<Longrightarrow> net_wf env s' \<and> tcp_alive s'"
  by (simp add: net_ok_def)

text \<open>Updates of the fields that no component's invariant mentions.\<close>

lemma net_ok_fields:
  "net_ok env s (Some t) \<Longrightarrow> net_ok env s (Some (count_net g t))"
  "net_ok env s (Some t) \<Longrightarrow> net_ok env s (Some (t\<lparr>ns_hw := h\<rparr>))"
  "net_ok env s (Some t) \<Longrightarrow> net_ok env s (Some (t\<lparr>ns_io := p\<rparr>))"
  "net_ok env s (Some t) \<Longrightarrow> i < 8192 \<Longrightarrow> net_ok env s (Some (t\<lparr>ns_rx_offset := i\<rparr>))"
  "net_ok env s (Some t) \<Longrightarrow> length f = NET_FRAME_MAX \<Longrightarrow> net_ok env s (Some (t\<lparr>ns_frame := f\<rparr>))"
  "net_ok env s (Some t) \<Longrightarrow> length m = 6 \<Longrightarrow> net_ok env s (Some (t\<lparr>ns_mac := m\<rparr>))"
  "net_ok env s (Some t) \<Longrightarrow> j < 4 \<Longrightarrow> net_ok env s (Some (t\<lparr>ns_rx_offset := 0, ns_tx_slot := j\<rparr>))"
  by (auto simp: net_ok_def net_wf_def tcp_alive_def count_net_def)

lemma rtl_send_net_ok: "net_wf env s \<Longrightarrow> tcp_alive s \<Longrightarrow> sz \<le> length d \<Longrightarrow> net_ok_with env s (\<lambda>_. True) (rtl_send env d sz s)"
  using rtl_send_ok [of env s sz d] by (auto simp: net_step_def net_ok_with_def intro: net_ok_link)

lemma net_write16_val: "i + 1 < length p \<Longrightarrow> net_write16 p i n = Some (p[i := ucast (drop_bit 8 n), i + 1 := ucast n])"
  by (simp add: net_write16_eq)

lemma net_write32_ex: "i + 3 < length p \<Longrightarrow> \<exists>q. net_write32 p i n = Some q \<and> length q = length p"
  by (simp add: net_write32_def net_write16_val)

lemma arp_request_ok:
  assumes "net_wf env s" "tcp_alive s"
  shows "net_ok_with env s (\<lambda>_. True) (arp_request env s)"
proof -
  have m: "length (ns_mac s) = 6" using assms(1) by (simp add: net_wf_def)
  obtain f where f: "arp_request env s = rtl_send env f 42 s" "length f = 42"
    using m by (auto simp add: arp_request_def slice_Some splice_Some net_write16_val net_write32_def wr_Some)
  show ?thesis unfolding f(1) using rtl_send_net_ok [OF assms] f(2) by simp
qed
text \<open>What the echo does to the buffer: the length is kept, and every access is inside.\<close>

lemma echo_body_ok:
  assumes "length f = NET_FRAME_MAX" "unat (pkt_length p) \<le> 1500" "20 \<le> unat (pkt_length p)"
  shows "echo_body on p f = Some None \<or> (\<exists>g. echo_body on p f = Some (Some g) \<and> length g = NET_FRAME_MAX)"
proof -
  have d: "defined (net_checksum g 34 (unat (pkt_length p) - 20) 0)" if "length g = 1514" for g :: bytes
    using that assms(2,3) by simp
  have c: "\<exists>c. net_checksum (f[34 := 0, 36 := 0, 37 := 0]) 34 (unat (pkt_length p) - 20) 0 = Some c"
    using d [of "f[34 := 0, 36 := 0, 37 := 0]"] assms(1) by (auto elim: definedE)
  then show ?thesis using assms(1) by (auto simp: echo_body_def rd_Some wr_Some net_write16_val)
qed

lemma echo_header_ok:
  assumes "length f = NET_FRAME_MAX"
  shows "\<exists>g. echo_header p f = Some g \<and> length g = NET_FRAME_MAX"
proof -
  obtain a where a: "net_write32 f 26 NET_IP = Some a" "length a = NET_FRAME_MAX" using net_write32_ex [of 26 f] assms by auto
  obtain b where b: "net_write32 a 30 (pkt_source p) = Some b" "length b = NET_FRAME_MAX" using net_write32_ex [of 30 a] a(2) by auto
  have "\<exists>c. net_checksum (b[22 := 64, 24 := 0, 25 := 0]) 14 20 0 = Some c"
    using b(2) by (simp add: net_checksum_def sum_words_eq)
  then show ?thesis using a(1) b by (auto simp: echo_header_def wr_Some net_write16_val)
qed

lemma echo_ethernet_ok:
  "length f = NET_FRAME_MAX \<Longrightarrow> length mac = 6 \<Longrightarrow> \<exists>g. echo_ethernet mac f = Some g \<and> length g = NET_FRAME_MAX"
  by (auto simp: echo_ethernet_def slice_Some splice_Some)

lemma firewall_out_net_ok:
  assumes "net_wf env s" "tcp_alive s" "abi_wf (en_abi env)"
  shows "net_ok_with env s (\<lambda>_. True) (firewall_out env p d s)"
  using firewall_out_ok [OF assms(1,3), of p d] assms(2) by (auto simp: net_step_def net_ok_with_def intro: net_ok_link)

lemma echo_ok:
  assumes wf: "net_wf env s" and al: "tcp_alive s" and abi: "abi_wf (en_abi env)"
    and f: "length f = NET_FRAME_MAX" and p: "unat (pkt_length p) \<le> 1500" "20 \<le> unat (pkt_length p)"
  shows "net_ok_with env s (\<lambda>g. length g = NET_FRAME_MAX) (echo env p f s)"
proof -
  have refl: "net_ok env s (Some s)" by (rule net_ok_refl [OF wf al])
  show ?thesis
  proof (cases "echo_body (nw_echo (ns_net s)) p f = Some None")
    case True
    then show ?thesis using refl f by (intro net_ok_withI [of _ f s]) (simp_all add: echo_def)
  next
    case False
    then obtain b where b: "echo_body (nw_echo (ns_net s)) p f = Some (Some b)" "length b = NET_FRAME_MAX"
      using echo_body_ok [OF f p] by blast
    obtain g where g: "echo_header p b = Some g" "length g = NET_FRAME_MAX" using echo_header_ok [OF b(2)] by blast
    have "defined (net_decode g 14 (unat (pkt_length p)))" using g(2) p by (intro net_decode_defined) simp
    then obtain out where out: "net_decode g 14 (unat (pkt_length p)) = Some out" by (auto elim: definedE)
    show ?thesis
    proof (cases out)
      case None
      then show ?thesis using refl b g out by (intro net_ok_withI [of _ g s]) (simp_all add: echo_def)
    next
      case (Some q)
      obtain ok t where t: "firewall_out env q FW_OUT s = Some (ok, t)" "net_ok env s (Some t)"
        using firewall_out_net_ok [OF wf al abi] by (rule net_ok_withE)
      have wt: "net_wf env t" "tcp_alive t" "length (ns_mac t) = 6" using t(2) by (simp_all add: net_ok_def net_wf_def)
      obtain h where h: "echo_ethernet (ns_mac t) g = Some h" "length h = NET_FRAME_MAX" using echo_ethernet_ok [OF g(2) wt(3)] by blast
      have "14 + unat (pkt_length p) \<le> length h" using h(2) p by simp
      then obtain ok' u where u: "rtl_send env h (14 + unat (pkt_length p)) t = Some (ok', u)" "net_ok env t (Some u)"
        using rtl_send_net_ok [OF wt(1,2)] by (blast elim: net_ok_withE)
      have e: "echo env p f s = (if ok then Some (h, u) else Some (g, t))"
        using b(1) g(1) out Some t(1) h(1) u(1) by (simp add: echo_def)
      show ?thesis unfolding e using net_ok_trans [OF t(2) u(2)] t(2) g(2) h(2) by (cases ok) (auto simp: net_ok_with_def)
    qed
  qed
qed

lemma arp_reply_ok:
  "length mac = 6 \<Longrightarrow> 42 \<le> length f \<Longrightarrow> \<exists>r. arp_reply mac f = Some r \<and> length r = 42"
  by (auto simp: arp_reply_def slice_Some splice_Some net_write16_val net_write32_def)

lemma arp_refused_ok: "sz \<le> length f \<Longrightarrow> \<exists>b. arp_refused f sz = Some b \<and> (\<not> b \<longrightarrow> 42 \<le> sz)"
  by (auto simp: arp_refused_def slice_Some rd_Some net_read16_Some net_read32_def)

lemma arp_input_ok:
  assumes wf: "net_wf env s" and al: "tcp_alive s" and f: "sz \<le> length f"
  shows "net_ok_with env s (\<lambda>g. g = f) (arp_input env f sz s)"
proof -
  obtain t where t: "tcp_net_arp f sz s = Some t" "net_ok env s (Some t)" using tcp_net_arp_ok [OF wf al f] by (rule net_okE)
  have wt: "net_wf env t" "tcp_alive t" "length (ns_mac t) = 6" using t(2) by (simp_all add: net_ok_def net_wf_def)
  obtain b where b: "arp_refused f sz = Some b" "\<not> b \<longrightarrow> 42 \<le> sz" using arp_refused_ok [OF f] by blast
  show ?thesis
  proof (cases b)
    case True
    then show ?thesis using t b net_ok_fields(1) [OF t(2)] by (intro net_ok_withI [of _ f "ignored t"]) (simp_all add: arp_input_def)
  next
    case False
    then have "42 \<le> length f" using b(2) f by simp
    then obtain r where r: "arp_reply (ns_mac t) f = Some r" "length r = 42" using arp_reply_ok [OF wt(3)] by blast
    obtain ok u where u: "rtl_send env r 42 t = Some (ok, u)" "net_ok env t (Some u)"
      using rtl_send_net_ok [OF wt(1,2), of 42 r] r(2) by (auto elim: net_ok_withE)
    show ?thesis using False t(1) b(1) r(1) u(1) net_ok_trans [OF t(2) u(2)] by (intro net_ok_withI [of _ f u]) (simp_all add: arp_input_def)
  qed
qed

lemma ip_input_ok:
  assumes wf: "net_wf env s" and al: "tcp_alive s" and abi: "abi_wf (en_abi env)"
    and f: "length f = NET_FRAME_MAX" and n: "14 \<le> sz" "sz \<le> NET_FRAME_MAX"
  shows "net_ok_with env s (\<lambda>g. length g = NET_FRAME_MAX) (ip_input env f sz s)"
proof -
  have refl: "net_ok env s (Some s)" by (rule net_ok_refl [OF wf al])
  have "defined (net_decode f 14 (sz - 14))" using f n by (intro net_decode_defined) simp
  then obtain out where out: "net_decode f 14 (sz - 14) = Some out" by (auto elim: definedE)
  show ?thesis
  proof (cases out)
    case None
    then show ?thesis using out f net_ok_fields(1) [OF refl] by (intro net_ok_withI [of _ f "invalid s"]) (simp_all add: ip_input_def)
  next
    case (Some p)
    note d = net_decode_fields [OF out [unfolded Some]]
    show ?thesis
    proof (cases "pkt_destination p \<noteq> NET_IP \<or> \<not> peer_ip (pkt_source p)")
      case True
      then show ?thesis using out Some f net_ok_fields(1) [OF refl] by (intro net_ok_withI [of _ f "ignored s"]) (auto simp: ip_input_def)
    next
      case False
      obtain ok t where t: "firewall_out env p FW_IN s = Some (ok, t)" "net_ok env s (Some t)"
        using firewall_out_net_ok [OF wf al abi] by (rule net_ok_withE)
      have wt: "net_wf env t" "tcp_alive t" using t(2) by (simp_all add: net_ok_def)
      have len: "unat (pkt_length p) \<le> 1500" "14 + unat (pkt_length p) \<le> length f" using d(2,3) f by simp_all
      obtain g u where u: "echo env p f t = Some (g, u)" "length g = NET_FRAME_MAX" "net_ok env t (Some u)"
        using echo_ok [OF wt abi f len(1) d(1)] by (rule net_ok_withE)
      have "net_ok env t (tcp_net_input env f p t)" if "pkt_protocol p = NET_TCP"
        using tcp_net_input_ok [OF wt abi len(2) d(1) _ that] f by simp
      then have tcp: "\<exists>v. tcp_net_input env f p t = Some v \<and> net_ok env t (Some v)" if "pkt_protocol p = NET_TCP"
        using that by (auto elim: net_okE)
      have e: "ip_input env f sz s = (if \<not> ok then Some (f, t) else if pkt_protocol p = NET_TCP then map_option (Pair f) (tcp_net_input env f p t) else Some (g, u))"
        using out Some False t(1) u(1) by (cases "tcp_net_input env f p t") (simp_all add: ip_input_def)
      show ?thesis unfolding e
        using tcp t(2) f u(2) net_ok_trans [OF t(2)] u(3) by (auto simp: net_ok_with_def)
    qed
  qed
qed

lemma frame_input_ok:
  assumes wf: "net_wf env s" and al: "tcp_alive s" and abi: "abi_wf (en_abi env)"
    and f: "length f = NET_FRAME_MAX" and n: "14 \<le> sz" "sz \<le> NET_FRAME_MAX"
  shows "net_ok_with env s (\<lambda>g. length g = NET_FRAME_MAX) (frame_input env f sz s)"
proof -
  have ok: "net_ok env s (Some s)" by (rule net_ok_refl [OF wf al])
  have sl: "sz \<le> length f" "6 < length f" using f n by simp_all
  obtain type where type: "net_read16 f 12 = Some type" using f by (simp add: net_read16_Some)
  have rd: "slice f 0 6 = Some (take 6 f)" "slice (ns_mac s) 0 6 = Some (ns_mac s)"
    using f wf by (simp_all add: slice_Some net_wf_def)
  have skip: "net_ok_with env s (\<lambda>g. length g = NET_FRAME_MAX) (Some (f, ignored s))"
    using f net_ok_fields(1) [OF ok] by (auto simp: net_ok_with_def)
  have arp: "net_ok_with env s (\<lambda>g. length g = NET_FRAME_MAX) (arp_input env f sz s)"
    using arp_input_ok [OF wf al sl(1)] f by (auto simp: net_ok_with_def)
  show ?thesis using type rd skip arp ip_input_ok [OF wf al abi f n]
    by (simp add: frame_input_def rd_Some [OF sl(2)] Let_def)
qed

lemma net_receive_ok:
  assumes wf: "net_wf env s" and al: "tcp_alive s" and abi: "abi_wf (en_abi env)" and f: "length f = NET_FRAME_MAX"
  shows "net_ok_with env s (\<lambda>g. length g = NET_FRAME_MAX) (net_receive env f sz s)"
proof -
  let ?s = "count_net (\<lambda>n. n\<lparr>nw_received := nw_received n + 1\<rparr>) s"
  have ok: "net_ok env s (Some ?s)" by (rule net_ok_fields(1) [OF net_ok_refl [OF wf al]])
  show ?thesis
  proof (cases "sz < 14 \<or> sz > NET_FRAME_MAX")
    case True
    then have "net_receive env f sz s = Some (f, invalid ?s)" by (simp add: net_receive_def)
    then show ?thesis using net_ok_fields(1) [OF ok] f by (intro net_ok_withI) simp_all
  next
    case sz: False
    obtain pass fw where fw: "fw_bpf_xdp (en_abi env) (en_policy env) (en_xdp env) f sz (ns_fw ?s) = Some (pass, fw)"
      "fw_state_wf (en_policy env) (en_xdp env) fw" "same_policy (fs_fw (ns_fw ?s)) (fs_fw fw)"
      using fw_bpf_xdp_spec [of "en_policy env" "en_xdp env" "ns_fw ?s" "en_abi env" sz f] wf abi sz f
      by (auto simp: net_wf_def count_net_def)
    define t where "t = ?s\<lparr>ns_fw := fw\<rparr>"
    have okt: "net_ok env s (Some t)" using ok fw(2,3) by (auto simp: net_ok_def t_def net_wf_def tcp_alive_def count_net_def)
    have e: "net_receive env f sz s = (if \<not> pass then Some (f, t) else frame_input env f sz t)"
      using sz fw(1) by (simp add: net_receive_def t_def Let_def)
    have wt: "net_wf env t" "tcp_alive t" using okt by (simp_all add: net_ok_def)
    have n: "14 \<le> sz" "sz \<le> NET_FRAME_MAX" using sz by simp_all
    show ?thesis unfolding e using okt f net_ok_with_trans [OF okt frame_input_ok [OF wt abi f n]]
      by (auto simp: net_ok_with_def)
  qed
qed

section \<open>The echo\<close>

text \<open>The bytes a reply inherits from the request it answers.\<close>

definition echo_of :: "packet \<Rightarrow> bytes \<Rightarrow> bytes \<Rightarrow> bool" where
  "echo_of p f b \<longleftrightarrow> length b = length f \<and> (\<forall>j. j < 34 \<longrightarrow> b ! j = f ! j) \<and> (\<forall>j. 42 \<le> j \<longrightarrow> j < 14 + unat (pkt_length p) \<longrightarrow> b ! j = f ! j)"

lemma echo_body_icmp:
  assumes f: "14 + n \<le> length f" and d: "net_decode f 14 n = Some (Some p)" and i: "pkt_protocol p = NET_ICMP"
    and e: "echo_body on p f = Some (Some b)"
  shows "echo_of p f b \<and> 28 \<le> unat (pkt_length p) \<and> net_checksum b 34 (unat (pkt_length p) - 20) 0 = Some 0"
proof -
  note fd = net_decode_fields [OF d]
  let ?n = "unat (pkt_length p) - 20"
  have n: "8 \<le> ?n" using fd(8) i by (auto simp: decode_transport_def decode_icmp_def split: if_splits)
  have lens: "unat (pkt_length p) \<le> 1500" "34 + ?n \<le> length f" "42 \<le> length f" using fd(1-3) f n by linarith+
  let ?q = "f[34 := 0, 36 := 0, 37 := 0]"
  obtain c where c: "net_checksum ?q 34 ?n 0 = Some c" "b = ?q[36 := ucast (drop_bit 8 c), 37 := ucast c]"
    using e i lens(3) by (auto simp: echo_body_def rd_Some wr_Some net_write16_val Option.bind_eq_Some_conv split: if_splits)
  have "words_sum (take ?n (drop 34 ?q)) \<le> 65535 * ((?n + 1) div 2)" using words_sum_bound [of "take ?n (drop 34 ?q)"] lens by simp
  also have "\<dots> \<le> 65535 * 1000" using lens by simp
  finally have small: "unat (0 :: u32) + words_sum (take ?n (drop 34 ?q)) + 65535 < 2 ^ 32" by simp
  have w: "net_write16 (f[34 := 0]) (34 + 2) 0 = Some ?q" "net_write16 ?q (34 + 2) c = Some b" using lens(3) by (simp_all add: net_write16_val c(2))
  have "net_checksum b 34 ?n 0 = Some 0"
    by (rule checksum_filled [OF w(1) c(1) w(2)]) (use n lens small in simp_all)
  then show ?thesis using n c(2) by (simp add: echo_of_def)
qed

lemma echo_body_udp:
  assumes f: "14 + n \<le> length f" and d: "net_decode f 14 n = Some (Some p)" and i: "pkt_protocol p = NET_UDP"
    and e: "echo_body on p f = Some (Some b)"
  shows "echo_of p f b \<and> 28 \<le> unat (pkt_length p) \<and> net_read16 b 34 = Some (pkt_destination_port p) \<and> net_read16 b 36 = Some (pkt_source_port p) \<and>
    net_read16 b 38 = Some (of_nat (unat (pkt_length p) - 20)) \<and> net_read16 b 40 = Some 0"
proof -
  note fd = net_decode_fields [OF d]
  let ?n = "unat (pkt_length p) - 20"
  obtain l where l: "8 \<le> ?n" "net_read16 f 38 = Some l" "unat l = ?n" using fd(8) i
    by (auto simp: decode_transport_def decode_udp_def Option.bind_eq_Some_conv split: if_splits simp del: rd_eq_Some)
  have "of_nat (unat l) = l" by simp
  then have l': "l = of_nat ?n" unfolding l(3) by simp
  have f42: "42 \<le> length f" using f fd(2) l(1) by linarith
  have b: "b = f[34 := ucast (drop_bit 8 (pkt_destination_port p)), 35 := ucast (pkt_destination_port p),
      36 := ucast (drop_bit 8 (pkt_source_port p)), 37 := ucast (pkt_source_port p), 40 := 0, 41 := 0]"
    using e i f42 by (auto simp: echo_body_def net_write16_val split: if_splits)
  have "net_read16 b 38 = Some (of_nat ?n)" using l(2) f42 unfolding l' b by (simp add: net_read16_Some)
  then show ?thesis using l(1) f42 by (simp add: b net_read16_Some split_u16 echo_of_def)
qed

lemma echo_header_fields:
  assumes f: "34 \<le> length b"
  shows "\<exists>g. echo_header p b = Some g \<and> length g = length b \<and> (\<forall>j. j < 22 \<or> j = 23 \<or> 34 \<le> j \<longrightarrow> g ! j = b ! j) \<and> g ! 22 = 64 \<and>
    net_read32 g 26 = Some NET_IP \<and> net_read32 g 30 = Some (pkt_source p) \<and> net_checksum g 14 20 0 = Some 0"
proof -
  obtain a1 where a1: "net_write32 b 26 NET_IP = Some a1" "length a1 = length b" using net_write32_ex [of 26 b] f by auto
  obtain a2 where a2: "net_write32 a1 30 (pkt_source p) = Some a2" "length a2 = length b" using net_write32_ex [of 30 a1] a1(2) f by auto
  let ?h = "a2[22 := 64]"
  let ?q = "?h[24 := 0, 25 := 0]"
  have "defined (net_checksum ?q 14 20 0)" using a2(2) f by simp
  then obtain c where c: "net_checksum ?q 14 20 0 = Some c" by (auto elim: definedE)
  let ?g = "?q[24 := ucast (drop_bit 8 c), 25 := ucast c]"
  have g: "echo_header p b = Some ?g" using a1 a2 c f by (simp add: echo_header_def wr_Some net_write16_val)
  have w: "net_write16 ?h (14 + 10) 0 = Some ?q" "net_write16 ?q (14 + 10) c = Some ?g" using a2(2) f by (simp_all add: net_write16_val)
  have "words_sum (take 20 (drop 14 ?q)) \<le> 65535 * 10" using words_sum_bound [of "take 20 (drop 14 ?q)"] a2(2) f by simp
  then have sum: "net_checksum ?g 14 20 0 = Some 0"
    by (intro checksum_filled [OF w(1) c w(2)]) (use a2(2) f in simp_all)
  have frame: "?g ! j = b ! j" if "j < 22 \<or> j = 23 \<or> 34 \<le> j" for j
    using that n32.put_frame [OF a1(1), of j] n32.put_frame [OF a2(1), of j] by auto
  have r: "net_read32 ?g 26 = net_read32 a2 26" "net_read32 ?g 30 = net_read32 a2 30"
    by (rule n32.get_local; auto)+
  have "net_read32 a2 26 = Some NET_IP" "net_read32 a2 30 = Some (pkt_source p)"
    using n32.get_after_puts [OF a1(1) a2(1)] n32.get_put [OF a1(1)] n32.get_put [OF a2(1)] by simp_all
  then show ?thesis using g a2(2) f frame sum r by (intro exI [of _ ?g]) simp
qed

lemma echo_decodes:
  assumes f: "14 + n \<le> length f" and d: "net_decode f 14 n = Some (Some p)" and e: "echo_body on p f = Some (Some b)"
  shows "\<exists>g q. echo_header p b = Some g \<and> length g = length f \<and> net_decode g 14 (unat (pkt_length p)) = Some (Some q) \<and>
    pkt_source q = NET_IP \<and> pkt_destination q = pkt_source p \<and> pkt_protocol q = pkt_protocol p \<and> pkt_length q = pkt_length p \<and>
    pkt_source_port q = pkt_destination_port p \<and> pkt_destination_port q = pkt_source_port p \<and>
    (\<forall>j. 42 \<le> j \<longrightarrow> j < 14 + unat (pkt_length p) \<longrightarrow> g ! j = f ! j)"
proof -
  note fd = net_decode_fields [OF d]
  let ?len = "unat (pkt_length p)" and ?n = "unat (pkt_length p) - 20"
  have proto: "pkt_protocol p = NET_ICMP \<or> pkt_protocol p = NET_UDP" using e by (auto simp: echo_body_def split: if_splits)
  have b: "echo_of p f b" "28 \<le> ?len" using proto echo_body_icmp [OF f d _ e] echo_body_udp [OF f d _ e] by auto
  have n8: "\<not> ?n < 8" using b(2) by linarith
  have f42: "42 \<le> length f" using f fd(2) b(2) by linarith
  have lb: "length b = length f" "34 \<le> length b" using b(1) f42 by (simp_all add: echo_of_def)
  obtain g where g: "echo_header p b = Some g" "length g = length f" "\<forall>j. j < 22 \<or> j = 23 \<or> 34 \<le> j \<longrightarrow> g ! j = b ! j" "g ! 22 = 64"
    "net_read32 g 26 = Some NET_IP" "net_read32 g 30 = Some (pkt_source p)" "net_checksum g 14 20 0 = Some 0"
    using echo_header_fields [OF lb(2)] unfolding lb(1) by blast
  have hf: "g ! j = f ! j" if "j < 22 \<or> j = 23" for j using g(3) b(1) that by (auto simp: echo_of_def)
  have ok: "ip_header_bad f 14 n = Some False" using d by (auto simp: net_decode_def Option.bind_eq_Some_conv split: if_splits)
  obtain fr where fr: "f ! 14 = 0x45" "net_read16 f 20 = Some fr" "fr AND 0xbfff = 0" using ip_header_okD(4,6) [OF ok] by auto
  have r: "net_read16 g 20 = Some fr" "net_read16 g 16 = Some (pkt_length p)"
    using fr(2) fd(6) g(2) f42 by (simp_all add: net_read16_Some hf)
  have l23: "23 < length g" using g(2) f42 by simp
  have p9: "g ! 23 = pkt_protocol p" using fd(7) by (simp add: hf)
  have bad: "ip_header_bad g 14 ?len = Some False" using b(2) fd(2,3) g(2,4,7) f42 fr r(1) by (simp add: ip_header_bad_def rd_Some hf)
  have "defined (pseudo_sum g 14 (pkt_protocol p) ?n)" using g(2) f42 by simp
  then obtain ps where ps: "pseudo_sum g 14 (pkt_protocol p) ?n = Some ps" by (auto elim: definedE)
  have "decode_transport g 34 ?n (pkt_protocol p) ps = Some (Some (pkt_destination_port p, pkt_source_port p))"
  proof (cases "pkt_protocol p = NET_ICMP")
    case True
    have zero: "pkt_source_port p = 0" "pkt_destination_port p = 0"
      using fd(8) True by (auto simp: decode_transport_def decode_icmp_def Option.bind_eq_Some_conv split: if_splits)
    have "net_checksum g 34 ?n 0 = net_checksum b 34 ?n 0"
      using g(2,3) lb fd(2) f f42 by (intro net_checksum_cong) (auto intro!: nth_equalityI)
    then show ?thesis using True zero n8 echo_body_icmp [OF f d True e] by (simp add: decode_transport_def decode_icmp_def)
  next
    case False
    then have udp: "pkt_protocol p = NET_UDP" using proto by simp
    have u: "net_read16 g j = net_read16 b j" if "34 \<le> j" "j < 41" for j using that g(2,3) lb f42 by (simp add: net_read16_Some)
    have "?n < 65536" using unat_lt_65536 [of "pkt_length p"] by simp
    then have "unat (of_nat ?n :: u16) = ?n" by (simp add: unat_of_nat take_bit_eq_mod)
    then show ?thesis using udp n8 echo_body_udp [OF f d udp e] u by (simp add: decode_transport_def decode_udp_def)
  qed
  then have "net_decode g 14 ?len = Some (Some \<lparr>pkt_source = NET_IP, pkt_destination = pkt_source p, pkt_source_port = pkt_destination_port p,
      pkt_destination_port = pkt_source_port p, pkt_length = pkt_length p, pkt_protocol = pkt_protocol p\<rparr>)"
    using bad r(2) p9 ps g(5,6) b(2) by (simp add: net_decode_def rd_Some [OF l23])
  then show ?thesis using g(1,2,3) b(1) by (simp add: echo_of_def)
qed

section \<open>What the network does to a frame\<close>

text \<open>The states that differ in counters and the firewall's records only.\<close>

definition quiet :: "('m, 'h) net_state \<Rightarrow> ('m, 'h) net_state \<Rightarrow> bool" where
  "quiet s s' \<longleftrightarrow> s' = s\<lparr>ns_net := ns_net s', ns_fw := ns_fw s'\<rparr>"

lemma quiet_simps [simp]: "quiet s s" "quiet s (count_net g s)" "quiet s (s\<lparr>ns_fw := fw\<rparr>)"
  by (simp_all add: quiet_def count_net_def)

lemma quiet_trans: "quiet a b \<Longrightarrow> quiet b c \<Longrightarrow> quiet a c"
  by (cases a; cases b; cases c) (simp add: quiet_def)

lemma quiet_count [simp]: "quiet s t \<Longrightarrow> quiet s (count_net g t)"
  by (rule quiet_trans [of s t]) simp_all

text \<open>A frame was let in: both programs are valid, the XDP program passed the frame, and an IPv4 frame decodes to
  a packet between a peer and this machine that the policy program passed.\<close>

definition let_in :: "('m, 'h) net_env \<Rightarrow> bytes \<Rightarrow> nat \<Rightarrow> ('m, 'h) net_state \<Rightarrow> bool" where
  "let_in env f sz s \<longleftrightarrow> 14 \<le> sz \<and> sz \<le> NET_FRAME_MAX \<and> programs_valid (en_policy env) (en_xdp env) \<and>
     xdp_passes (en_abi env) (en_xdp env) f sz (ns_fw s) \<and>
     (net_read16 f 12 = Some 0x0800 \<longrightarrow> (\<exists>p t. net_decode f 14 (sz - 14) = Some (Some p) \<and> pkt_destination p = NET_IP \<and> peer_ip (pkt_source p) \<and>
        same_policy (fs_fw (ns_fw s)) (fs_fw t) \<and> policy_passes (en_abi env) (en_policy env) p FW_IN t))"

lemma ip_input_gated:
  assumes wf: "net_wf env s" and abi: "abi_wf (en_abi env)" and r: "ip_input env f sz s = Some (g, s')"
  shows "quiet s s' \<or> (\<exists>p. net_decode f 14 (sz - 14) = Some (Some p) \<and> pkt_destination p = NET_IP \<and> peer_ip (pkt_source p) \<and>
     policy_passes (en_abi env) (en_policy env) p FW_IN (ns_fw s))"
proof -
  obtain out where out: "net_decode f 14 (sz - 14) = Some out" using r by (auto simp: ip_input_def Option.bind_eq_Some_conv)
  show ?thesis
  proof (cases "\<exists>p. out = Some p \<and> pkt_destination p = NET_IP \<and> peer_ip (pkt_source p)")
    case False
    then have "s' = invalid s \<or> s' = ignored s" using r out by (cases out) (auto simp: ip_input_def split: if_splits)
    then show ?thesis by auto
  next
    case True
    then obtain p where p: "out = Some p" "pkt_destination p = NET_IP" "peer_ip (pkt_source p)" by blast
    have w: "fw_state_wf (en_policy env) (en_xdp env) (ns_fw s)" using wf by (simp add: net_wf_def)
    obtain ok fw where fw: "fw_accept (en_abi env) (en_policy env) (en_xdp env) p FW_IN (ns_fw s) = Some (ok, fw)"
      "ok \<Longrightarrow> policy_passes (en_abi env) (en_policy env) p FW_IN (ns_fw s)" using fw_accept_spec [OF w abi, of p FW_IN] by blast
    show ?thesis
    proof (cases ok)
      case False
      then have "s' = s\<lparr>ns_fw := fw\<rparr>" using r out p fw(1) by (simp add: ip_input_def firewall_out_def)
      then show ?thesis by simp
    next
      case True
      then show ?thesis using out p fw(2) by blast
    qed
  qed
qed

lemma frame_input_gated:
  assumes wf: "net_wf env s" and abi: "abi_wf (en_abi env)" and f: "length f = NET_FRAME_MAX" and r: "frame_input env f sz s = Some (g, s')"
  shows "quiet s s' \<or> (net_read16 f 12 = Some 0x0800 \<longrightarrow> (\<exists>p. net_decode f 14 (sz - 14) = Some (Some p) \<and> pkt_destination p = NET_IP \<and>
    peer_ip (pkt_source p) \<and> policy_passes (en_abi env) (en_policy env) p FW_IN (ns_fw s)))"
proof (cases "net_read16 f 12 = Some 0x0800")
  case True
  have m: "slice f 0 6 = Some (take 6 f)" "slice (ns_mac s) 0 6 = Some (ns_mac s)" "6 < length f" using wf f by (simp_all add: net_wf_def slice_Some)
  have "s' = ignored s \<or> ip_input env f sz s = Some (g, s')"
    using r True m by (auto simp: frame_input_def rd_Some [OF m(3)] Let_def split: if_splits)
  then show ?thesis using ip_input_gated [OF wf abi] by auto
qed simp

lemma net_receive_gate:
  assumes wf: "net_wf env s" and abi: "abi_wf (en_abi env)" and f: "length f = NET_FRAME_MAX" and r: "net_receive env f sz s = Some (g, s')"
  shows "quiet s s' \<or> let_in env f sz s"
proof (cases "14 \<le> sz \<and> sz \<le> NET_FRAME_MAX")
  case False
  then have "s' = invalid (count_net (\<lambda>n. n\<lparr>nw_received := nw_received n + 1\<rparr>) s)" using r by (auto simp: net_receive_def Let_def split: if_splits)
  then show ?thesis by simp
next
  case sz: True
  let ?s = "count_net (\<lambda>n. n\<lparr>nw_received := nw_received n + 1\<rparr>) s"
  have w: "fw_state_wf (en_policy env) (en_xdp env) (ns_fw s)" "ns_fw ?s = ns_fw s" using wf by (simp_all add: net_wf_def count_net_def)
  have sl: "sz \<le> length f" using f sz by simp
  from fw_bpf_xdp_spec [OF w(1) abi sl] obtain pass fw where fw:
    "fw_bpf_xdp (en_abi env) (en_policy env) (en_xdp env) f sz (ns_fw s) = Some (pass, fw)" "fw_state_wf (en_policy env) (en_xdp env) fw"
    "same_policy (fs_fw (ns_fw s)) (fs_fw fw)" "pass \<Longrightarrow> programs_valid (en_policy env) (en_xdp env) \<and> xdp_passes (en_abi env) (en_xdp env) f sz (ns_fw s)" by blast
  define t where "t = ?s\<lparr>ns_fw := fw\<rparr>"
  have qt: "quiet s t" unfolding t_def by (rule quiet_trans [of s ?s]) simp_all
  have wt: "net_wf env t" "ns_fw t = fw" using wf fw(2) by (simp_all add: t_def net_wf_def count_net_def)
  have e: "(if \<not> pass then Some (f, t) else frame_input env f sz t) = Some (g, s')"
    using r sz fw(1) by (cases pass) (simp_all add: net_receive_def w(2) t_def Let_def)
  show ?thesis
  proof (cases pass)
    case False
    then show ?thesis using e qt by simp
  next
    case True
    then have "frame_input env f sz t = Some (g, s')" using e by simp
    from frame_input_gated [OF wt(1) abi f this] show ?thesis
      using True fw(3,4) sz quiet_trans [OF qt] wt(2) unfolding let_in_def by blast
  qed
qed

text \<open>C9: Whatever bytes the card delivers and whatever their claimed size, the handler of a received frame makes no
  access outside its buffers and keeps the invariant of the network state and of the TCP connection; and unless
  the frame was let in by the firewall - the size is that of an Ethernet frame, both BPF programs are valid, the
  XDP program passed the frame, and an IPv4 frame decodes to a packet from a peer to this machine that the
  policy program passed under the current rules - nothing but counters and the firewall's records changes: no byte
  is sent, the hardware is not touched, and TCP, the ARP result and the TIME-WAIT table are as before.\<close>

theorem net_receive_gated:
  assumes "net_wf env s" "tcp_alive s" "abi_wf (en_abi env)" and "length f = NET_FRAME_MAX"
  shows "\<exists>g s'. net_receive env f sz s = Some (g, s') \<and> length g = NET_FRAME_MAX \<and> net_wf env s' \<and> tcp_alive s' \<and>
    (quiet s s' \<or> let_in env f sz s)"
  using net_receive_ok [OF assms, of sz] net_receive_gate [OF assms(1,3,4)] unfolding net_ok_with_def net_ok_def by blast

text \<open>C10: For every decoded ICMP echo request and UDP datagram to the echo port, whatever its length, the reply
  written in place over the request is a datagram that decodes: it comes from the fixed address, goes to the
  sender, has the ports swapped, the protocol, length and payload of the request and correct checksums.\<close>

theorem echo_reply_valid:
  assumes "14 + n \<le> length f" and "net_decode f 14 n = Some (Some p)" and "echo_body on p f = Some (Some b)"
  shows "\<exists>g q. echo_header p b = Some g \<and> length g = length f \<and> net_decode g 14 (unat (pkt_length p)) = Some (Some q) \<and>
    pkt_source q = NET_IP \<and> pkt_destination q = pkt_source p \<and> pkt_protocol q = pkt_protocol p \<and> pkt_length q = pkt_length p \<and>
    pkt_source_port q = pkt_destination_port p \<and> pkt_destination_port q = pkt_source_port p \<and>
    (\<forall>j. 42 \<le> j \<longrightarrow> j < 14 + unat (pkt_length p) \<longrightarrow> g ! j = f ! j)"
  by (rule echo_decodes [OF assms])

text \<open>A concrete network for the witnesses: hardware that always reads zero.\<close>

definition sample_env :: "(unit, unit) net_env" where
  "sample_env = \<lparr>en_hw = \<lparr>hw_in8 = (\<lambda>p h. (0, h)), hw_in16 = (\<lambda>p h. (0, h)), hw_in32 = (\<lambda>p h. (0, h)), hw_out8 = (\<lambda>p v h. h),
     hw_out16 = (\<lambda>p v h. h), hw_out32 = (\<lambda>p v h. h), hw_ring = (\<lambda>i h. (0, h)), hw_tsc = (\<lambda>h. (0, h)), hw_cpuid = 0\<rparr>, en_larp = plain_larp,
     en_abi = sample_abi, en_policy = [], en_xdp = [], en_ring_address = 0, en_tx_address = (\<lambda>i. 0)\<rparr>"

definition sample_net :: "(unit, unit) net_state" where
  "sample_net = \<lparr>ns_net = \<lparr>nw_up = True, nw_echo = True, nw_received = 0, nw_transmitted = 0, nw_invalid = 0, nw_ignored = 0,
       nw_tx_dropped = 0, nw_driver_errors = 0\<rparr>,
     ns_fw = sample_state, ns_mac = [82, 84, 0, 18, 52, 86], ns_io = 0xc000, ns_rx_offset = 0, ns_tx_slot = 0, ns_tx = replicate 4 (replicate 1536 0),
     ns_frame = replicate 1514 0, ns_hw = (), ns_tcp = tcp_zero plain_larp, ns_running = False, ns_resolving = False, ns_have_mac = False,
     ns_clock_ready = False, ns_peer_ip = 0, ns_peer_mac = replicate 6 0, ns_clock_origin = 0, ns_ticks = 0,
     ns_timewait = replicate 8 \<lparr>tw_ip = 0, tw_next = 0, tw_acknowledgement = 0, tw_local = 0, tw_remote = 0, tw_mac = replicate 6 0, tw_expires = 0\<rparr>, ns_next_port = 49152, ns_source = replicate 16384 0\<rparr>"

lemma sample_net_wf: "net_wf sample_env sample_net" "tcp_alive sample_net" "abi_wf (en_abi sample_env)"
  using sample_wf(4) [of "[]" "[]"] sample_wf(1)
  by (simp_all add: net_wf_def tcp_alive_def sample_env_def sample_net_def)

theorem net_receive_gated_witness:
  "net_wf sample_env sample_net \<and> tcp_alive sample_net \<and> abi_wf (en_abi sample_env) \<and>
   (\<exists>g s'. net_receive sample_env (replicate 1514 255) 60 sample_net = Some (g, s') \<and> quiet sample_net s')"
proof -
  have "\<not> let_in sample_env (replicate 1514 255) 60 sample_net"
    by (simp add: let_in_def programs_valid_def bpf_validate_def sample_env_def)
  then show ?thesis using net_receive_gated [OF sample_net_wf, of "replicate 1514 255" 60] sample_net_wf by auto
qed

text \<open>A ping of eight bytes from 192.0.2.1.\<close>

definition ping :: bytes where
  "ping = [82, 84, 0, 18, 52, 86, 2, 0, 0, 0, 0, 1, 8, 0, 0x45, 0, 0, 28, 0, 0, 0, 0, 64, 1, 0xf6, 0xdd, 192, 0, 2, 1, 192, 0, 2, 2,
     8, 0, 0xf7, 0xff, 0, 0, 0, 0]"

definition ping_packet :: packet where
  "ping_packet = \<lparr>pkt_source = 0xc0000201, pkt_destination = 0xc0000202, pkt_source_port = 0, pkt_destination_port = 0, pkt_length = 28, pkt_protocol = 1\<rparr>"

theorem echo_reply_valid_witness:
  "\<exists>b g q. echo_body False ping_packet ping = Some (Some b) \<and> echo_header ping_packet b = Some g \<and> net_decode g 14 28 = Some (Some q) \<and>
     pkt_source q = 0xc0000202 \<and> pkt_destination q = 0xc0000201"
proof -
  have d: "net_decode ping 14 28 = Some (Some ping_packet)" by code_simp
  have b: "echo_body False ping_packet ping = Some (Some (ping[34 := 0, 36 := 255, 37 := 255]))" by code_simp
  have l: "14 + 28 \<le> length ping" by (simp add: ping_def)
  from echo_reply_valid [OF l d b] b show ?thesis by (auto simp: ping_packet_def)
qed

end
