(* ===== verification/Driver.thy ===== *)
theory Driver
  imports Network
begin

text \<open>
  The polled RTL8139 driver of \<^verbatim>\<open>src/jordyOS/net/rtl8139.c\<close>: bringing the card up and down and the receive loop,
  which hands what the card wrote into the ring to \<^verbatim>\<open>net_receive\<close> and then lets TCP send.
\<close>

section \<open>The driver\<close>

definition in8 :: "('m, 'h) net_env \<Rightarrow> u16 \<Rightarrow> ('m, 'h) net_state \<Rightarrow> u8 \<times> ('m, 'h) net_state" where
  "in8 env port s = (let (v, h) = hw_in8 (en_hw env) port (ns_hw s) in (v, s\<lparr>ns_hw := h\<rparr>))"

definition in16 :: "('m, 'h) net_env \<Rightarrow> u16 \<Rightarrow> ('m, 'h) net_state \<Rightarrow> u16 \<times> ('m, 'h) net_state" where
  "in16 env port s = (let (v, h) = hw_in16 (en_hw env) port (ns_hw s) in (v, s\<lparr>ns_hw := h\<rparr>))"

definition in32 :: "('m, 'h) net_env \<Rightarrow> u16 \<Rightarrow> ('m, 'h) net_state \<Rightarrow> u32 \<times> ('m, 'h) net_state" where
  "in32 env port s = (let (v, h) = hw_in32 (en_hw env) port (ns_hw s) in (v, s\<lparr>ns_hw := h\<rparr>))"

definition out8 :: "('m, 'h) net_env \<Rightarrow> u16 \<Rightarrow> u8 \<Rightarrow> ('m, 'h) net_state \<Rightarrow> ('m, 'h) net_state" where
  "out8 env port v s = s\<lparr>ns_hw := hw_out8 (en_hw env) port v (ns_hw s)\<rparr>"

definition out16 :: "('m, 'h) net_env \<Rightarrow> u16 \<Rightarrow> u16 \<Rightarrow> ('m, 'h) net_state \<Rightarrow> ('m, 'h) net_state" where
  "out16 env port v s = s\<lparr>ns_hw := hw_out16 (en_hw env) port v (ns_hw s)\<rparr>"

definition out32 :: "('m, 'h) net_env \<Rightarrow> u16 \<Rightarrow> u32 \<Rightarrow> ('m, 'h) net_state \<Rightarrow> ('m, 'h) net_state" where
  "out32 env port v s = s\<lparr>ns_hw := hw_out32 (en_hw env) port v (ns_hw s)\<rparr>"

text \<open>A read of the receive ring, at an index inside it.\<close>

definition ring_read :: "('m, 'h) net_env \<Rightarrow> nat \<Rightarrow> ('m, 'h) net_state \<Rightarrow> (u8 \<times> ('m, 'h) net_state) option" where
  "ring_read env i s = (if i < 8192 then let (v, h) = hw_ring (en_hw env) i (ns_hw s) in Some (v, s\<lparr>ns_hw := h\<rparr>) else None)"

definition pci_read :: "('m, 'h) net_env \<Rightarrow> nat \<Rightarrow> nat \<Rightarrow> nat \<Rightarrow> ('m, 'h) net_state \<Rightarrow> u32 \<times> ('m, 'h) net_state" where
  "pci_read env slot fn reg s =
     in32 env 0xcfc (out32 env 0xcf8 (0x80000000 OR push_bit 11 (of_nat slot) OR push_bit 8 (of_nat fn) OR of_nat reg) s)"

text \<open>The bounded wait for the reset bit: the result is the number of tries left.\<close>

fun reset_wait :: "('m, 'h) net_env \<Rightarrow> nat \<Rightarrow> ('m, 'h) net_state \<Rightarrow> nat \<times> ('m, 'h) net_state" where
  "reset_wait env 0 s = (0, s)"
| "reset_wait env (Suc tries) s =
     (let (v, s) = in8 env (ns_io s + 0x37) s in
      if v AND 0x10 \<noteq> 0 then (if tries = 0 then (0, s) else reset_wait env tries s) else (Suc tries, s))"

function mac_loop :: "('m, 'h) net_env \<Rightarrow> nat \<Rightarrow> ('m, 'h) net_state \<Rightarrow> ('m, 'h) net_state option" where
  "mac_loop env i s =
     (if i < 6 then do {
        let (v, s) = in8 env (ns_io s + of_nat i) s;
        mac \<leftarrow> wr (ns_mac s) i v;
        mac_loop env (i + 1) (s\<lparr>ns_mac := mac\<rparr>) }
      else Some s)"
  by pat_completeness auto
termination
  by (relation "measure (\<lambda>(env, i, s). 6 - i)") auto

declare mac_loop.simps [simp del]

function tx_loop :: "('m, 'h) net_env \<Rightarrow> nat \<Rightarrow> ('m, 'h) net_state \<Rightarrow> ('m, 'h) net_state" where
  "tx_loop env i s =
     (if i < 4 then tx_loop env (i + 1) (out32 env (ns_io s + 0x20 + of_nat i * 4) (ucast (en_tx_address env i)) s) else s)"
  by pat_completeness auto
termination
  by (relation "measure (\<lambda>(env, i, s). 4 - i)") auto

declare tx_loop.simps [simp del]

text \<open>Programming the card after its reset.\<close>

definition rtl_program :: "('m, 'h) net_env \<Rightarrow> ('m, 'h) net_state \<Rightarrow> ('m, 'h) net_state" where
  "rtl_program env s = (let
     s = s\<lparr>ns_rx_offset := 0, ns_tx_slot := 0\<rparr>;
     s = out16 env (ns_io s + 0x3c) 0 s;
     s = out16 env (ns_io s + 0x3e) 0xffff s;
     s = out32 env (ns_io s + 0x30) (ucast (en_ring_address env)) s;
     s = tx_loop env 0 s;
     s = out8 env (ns_io s + 0x37) 0x0c s;
     s = out32 env (ns_io s + 0x44) 0x0000070a s;
     s = out32 env (ns_io s + 0x40) 0x03000700 s;
     s = out16 env (ns_io s + 0x38) (- 16) s in
     count_net (\<lambda>n. n\<lparr>nw_up := True\<rparr>) s)"

text \<open>The body of the scan for a device that matched.\<close>

definition rtl_start :: "('m, 'h) net_env \<Rightarrow> nat \<Rightarrow> nat \<Rightarrow> ('m, 'h) net_state \<Rightarrow> (bool \<times> ('m, 'h) net_state) option" where
  "rtl_start env slot fn s = (let (bar, s) = pci_read env slot fn 0x10 s in
     if bar AND 1 = 0 \<or> bar AND NOT 3 > 0xff00 \<or> bar AND NOT 3 = 0 then Some (False, s)
     else let s = s\<lparr>ns_io := ucast (bar AND NOT 3)\<rparr> in
     if en_ring_address env > 0xffffffff - 8192 \<or> en_tx_address env 0 > 0xffffffff - 6144 then Some (False, s)
     else let
       (command, s) = pci_read env slot fn 4 s;
       s = out16 env 0xcfc (ucast command OR 5) s;
       s = out8 env (ns_io s + 0x52) 0 s;
       s = out8 env (ns_io s + 0x37) 0x10 s;
       (tries, s) = reset_wait env 100000 s in
     if tries = 0 then Some (False, s)
     else do { s \<leftarrow> mac_loop env 0 s; Some (True, rtl_program env s) })"

function fn_loop :: "('m, 'h) net_env \<Rightarrow> nat \<Rightarrow> nat \<Rightarrow> ('m, 'h) net_state \<Rightarrow> (bool option \<times> ('m, 'h) net_state) option" where
  "fn_loop env slot fn s =
     (if fn < 8 then let (ident, s) = pci_read env slot fn 0 s in
        if ident \<noteq> 0x813910ec then fn_loop env slot (fn + 1) s
        else do { (ok, s) \<leftarrow> rtl_start env slot fn s; Some (Some ok, s) }
      else Some (None, s))"
  by pat_completeness auto
termination
  by (relation "measure (\<lambda>(env, slot, fn, s). 8 - fn)") auto

declare fn_loop.simps [simp del]

function slot_loop :: "('m, 'h) net_env \<Rightarrow> nat \<Rightarrow> ('m, 'h) net_state \<Rightarrow> (bool \<times> ('m, 'h) net_state) option" where
  "slot_loop env slot s =
     (if slot < 32 then do {
        (r, s) \<leftarrow> fn_loop env slot 0 s;
        (case r of Some ok \<Rightarrow> Some (ok, s) | None \<Rightarrow> slot_loop env (slot + 1) s) }
      else Some (False, s))"
  by pat_completeness auto
termination
  by (relation "measure (\<lambda>(env, slot, s). 32 - slot)") auto

declare slot_loop.simps [simp del]

definition rtl_up :: "('m, 'h) net_env \<Rightarrow> ('m, 'h) net_state \<Rightarrow> (bool \<times> ('m, 'h) net_state) option" where
  "rtl_up env s = (if nw_up (ns_net s) then Some (True, s) else slot_loop env 0 s)"

definition rtl_down :: "('m, 'h) net_env \<Rightarrow> ('m, 'h) net_state \<Rightarrow> ('m, 'h) net_state option" where
  "rtl_down env s = do {
     s \<leftarrow> tcp_net_down env s;
     let s = (if ns_io s \<noteq> 0 then out8 env (ns_io s + 0x37) 0 s else s);
     Some (count_net (\<lambda>n. n\<lparr>nw_up := False\<rparr>) s) }"

definition rtl_restart :: "('m, 'h) net_env \<Rightarrow> ('m, 'h) net_state \<Rightarrow> ('m, 'h) net_state option" where
  "rtl_restart env s = do { s \<leftarrow> rtl_down env (driver_error s); (_, s) \<leftarrow> rtl_up env s; Some s }"

function copy_ring :: "('m, 'h) net_env \<Rightarrow> nat \<Rightarrow> nat \<Rightarrow> ('m, 'h) net_state \<Rightarrow> ('m, 'h) net_state option" where
  "copy_ring env i n s =
     (if i < n then do {
        (v, s) \<leftarrow> ring_read env ((ns_rx_offset s + 4 + i) mod 8192) s;
        f \<leftarrow> wr (ns_frame s) i v;
        copy_ring env (i + 1) n (s\<lparr>ns_frame := f\<rparr>) }
      else Some s)"
  by pat_completeness auto
termination
  by (relation "measure (\<lambda>(env, i, n, s). n - i)") auto

declare copy_ring.simps [simp del]

definition ring_header :: "('m, 'h) net_env \<Rightarrow> ('m, 'h) net_state \<Rightarrow> ((u16 \<times> nat) \<times> ('m, 'h) net_state) option" where
  "ring_header env s = do {
     (b0, s) \<leftarrow> ring_read env (ns_rx_offset s) s;
     (b1, s) \<leftarrow> ring_read env ((ns_rx_offset s + 1) mod 8192) s;
     (b2, s) \<leftarrow> ring_read env ((ns_rx_offset s + 2) mod 8192) s;
     (b3, s) \<leftarrow> ring_read env ((ns_rx_offset s + 3) mod 8192) s;
     Some ((ucast b0 OR push_bit 8 (ucast b1), unat (ucast b2 OR push_bit 8 (ucast b3) :: u32)), s) }"

definition ring_packet :: "('m, 'h) net_env \<Rightarrow> u16 \<Rightarrow> nat \<Rightarrow> ('m, 'h) net_state \<Rightarrow> ('m, 'h) net_state option" where
  "ring_packet env status sz s =
     (if status AND 0x3f = 1 then do {
        s \<leftarrow> copy_ring env 0 (sz - 4) s;
        (f, s) \<leftarrow> net_receive env (ns_frame s) (sz - 4) s;
        Some (s\<lparr>ns_frame := f\<rparr>) }
      else Some (driver_error s))"

text \<open>
  The receive loop. Its result says whether the loop ended regularly, or returned after a restart. The
  rounding \<^verbatim>\<open>& ~3u\<close> is written on naturals.
\<close>

function poll_loop :: "('m, 'h) net_env \<Rightarrow> nat \<Rightarrow> ('m, 'h) net_state \<Rightarrow> (bool \<times> ('m, 'h) net_state) option" where
  "poll_loop env budget s =
     (if budget < 8 then let (v, s) = in8 env (ns_io s + 0x37) s in
        if v AND 1 \<noteq> 0 then Some (True, s)
        else do {
          ((status, sz), s) \<leftarrow> ring_header env s;
          if sz = 0xfff0 then Some (True, s)
          else if sz < 4 \<or> sz > NET_FRAME_MAX + 4 then do { s \<leftarrow> rtl_restart env s; Some (False, s) }
          else do {
            s \<leftarrow> ring_packet env status sz s;
            let s = s\<lparr>ns_rx_offset := ((ns_rx_offset s + sz + 4 + 3) div 4 * 4) mod 8192\<rparr>;
            poll_loop env (budget + 1) (out16 env (ns_io s + 0x38) (of_nat (ns_rx_offset s) - 16) s) } }
      else Some (True, s))"
  by pat_completeness auto
termination
  by (relation "measure (\<lambda>(env, budget, s). 8 - budget)") auto

declare poll_loop.simps [simp del]

definition rtl_poll :: "('m, 'h) net_env \<Rightarrow> ('m, 'h) net_state \<Rightarrow> ('m, 'h) net_state option" where
  "rtl_poll env s =
     (if \<not> nw_up (ns_net s) then Some s
      else let (v, s) = in16 env (ns_io s + 0x3e) s in
        if v AND 0x50 \<noteq> 0 then rtl_restart env s
        else do {
          (regular, s) \<leftarrow> poll_loop env 0 s;
          if regular then tcp_net_poll env (out16 env (ns_io s + 0x3e) 0x0f s) else Some s })"

section \<open>Safety of the driver\<close>

lemma port_ok:
  "net_ok env s (Some t) \<Longrightarrow> net_ok env s (Some (out8 env p v8 t))"
  "net_ok env s (Some t) \<Longrightarrow> net_ok env s (Some (out16 env p v16 t))"
  "net_ok env s (Some t) \<Longrightarrow> net_ok env s (Some (out32 env p v32 t))"
  "net_ok env s (Some t) \<Longrightarrow> net_ok env s (Some (snd (in8 env p t)))"
  "net_ok env s (Some t) \<Longrightarrow> net_ok env s (Some (snd (in16 env p t)))"
  "net_ok env s (Some t) \<Longrightarrow> net_ok env s (Some (snd (in32 env p t)))"
  "net_ok env s (Some t) \<Longrightarrow> net_ok env s (Some (snd (pci_read env i j k t)))"
  by (simp_all add: out8_def out16_def out32_def in8_def in16_def in32_def pci_read_def net_ok_fields split_beta)

lemma reset_wait_ok: "net_ok env s (Some t) \<Longrightarrow> net_ok env s (Some (snd (reset_wait env n t)))"
proof (induction env n t rule: reset_wait.induct)
  case (2 env n t)
  obtain v u where "in8 env (ns_io t + 0x37) t = (v, u)" by fastforce
  moreover have "net_ok env s (Some (snd (in8 env (ns_io t + 0x37) t)))" by (rule port_ok(4) [OF 2(2)])
  ultimately show ?case using 2(1) by (auto simp: split_beta)
qed simp

lemma mac_loop_ok: "net_ok env s (Some t) \<Longrightarrow> net_ok env s (mac_loop env i t)"
proof (induction env i t rule: mac_loop.induct)
  case (1 env i t)
  show ?case
  proof (cases "i < 6")
    case False
    then show ?thesis using 1(2) by (subst mac_loop.simps) simp
  next
    case True
    obtain v u where u: "in8 env (ns_io t + of_nat i) t = (v, u)" by fastforce
    have ok: "net_ok env s (Some u)" using port_ok(4) [OF 1(2), of "ns_io t + of_nat i"] u by simp
    then have m: "length (ns_mac u) = 6" by (simp add: net_ok_def net_wf_def)
    have "net_ok env s (Some (u\<lparr>ns_mac := (ns_mac u)[i := v]\<rparr>))" using net_ok_fields(6) [OF ok] m by simp
    then show ?thesis using 1(1) [OF True u [symmetric] refl] True u m by (subst mac_loop.simps) (simp add: wr_Some)
  qed
qed

lemma tx_loop_ok: "net_ok env s (Some t) \<Longrightarrow> net_ok env s (Some (tx_loop env i t))"
proof (induction env i t rule: tx_loop.induct)
  case (1 env i t)
  then show ?case using port_ok(3) [OF 1(2)] by (subst tx_loop.simps) simp
qed

lemma net_ok_fresh: "net_ok env s (Some t) \<Longrightarrow> net_ok env s (Some (t\<lparr>ns_rx_offset := 0, ns_tx_slot := 0\<rparr>))"
  by (rule net_ok_fields(7)) simp_all

lemma rtl_start_ok:
  assumes "net_ok env s (Some t)"
  shows "net_ok_with env s (\<lambda>_. True) (rtl_start env slot fn t)"
proof -
  obtain bar t1 where t1: "pci_read env slot fn 0x10 t = (bar, t1)" by fastforce
  have o1: "net_ok env s (Some t1)" using port_ok(7) [OF assms, of slot fn 16] t1 by simp
  let ?t2 = "t1\<lparr>ns_io := ucast (bar AND NOT 3)\<rparr>"
  have o2: "net_ok env s (Some ?t2)" by (rule net_ok_fields(3) [OF o1])
  obtain command t3 where t3: "pci_read env slot fn 4 ?t2 = (command, t3)" by fastforce
  have o3: "net_ok env s (Some t3)" using port_ok(7) [OF o2, of slot fn 4] t3 by simp
  define t4 where "t4 = out16 env 0xcfc (ucast command OR 5) t3"
  define t5 where "t5 = out8 env (ns_io t4 + 0x52) 0 t4"
  define t6 where "t6 = out8 env (ns_io t5 + 0x37) 0x10 t5"
  have o6: "net_ok env s (Some t6)" unfolding t6_def t5_def t4_def by (intro port_ok o3)
  obtain tries t7 where t7: "reset_wait env 100000 t6 = (tries, t7)" by fastforce
  have o7: "net_ok env s (Some t7)" using reset_wait_ok [OF o6, of 100000] t7 by simp
  obtain t8 where t8: "mac_loop env 0 t7 = Some t8" "net_ok env s (Some t8)" using mac_loop_ok [OF o7] by (rule net_okE)
  have of: "net_ok env s (Some (rtl_program env t8))" unfolding rtl_program_def Let_def
    by (intro net_ok_fields(1) port_ok(1,2,3) tx_loop_ok net_ok_fresh t8(2))
  show ?thesis
  proof (cases "bar AND 1 = 0 \<or> bar AND NOT 3 > 0xff00 \<or> bar AND NOT 3 = 0")
    case True
    then show ?thesis using t1 o1 by (intro net_ok_withI [of _ False t1]) (auto simp: rtl_start_def)
  next
    case False
    have e: "rtl_start env slot fn t = (if en_ring_address env > 0xffffffff - 8192 \<or> en_tx_address env 0 > 0xffffffff - 6144 then Some (False, ?t2)
        else if tries = 0 then Some (False, t7) else Some (True, rtl_program env t8))"
      using False t1 t3 t7 t8(1) unfolding rtl_start_def
      by (simp add: Let_def t6_def [symmetric] t5_def [symmetric] t4_def [symmetric])
    show ?thesis unfolding e using o2 o7 of by (simp add: net_ok_with_def)
  qed
qed

lemma fn_loop_ok: "net_ok env s (Some t) \<Longrightarrow> net_ok_with env s (\<lambda>_. True) (fn_loop env slot fn t)"
proof (induction env slot fn t rule: fn_loop.induct)
  case (1 env slot fn t)
  show ?case
  proof (cases "fn < 8")
    case False
    then show ?thesis using 1(2) by (subst fn_loop.simps) (simp add: net_ok_with_def)
  next
    case True
    obtain d u where u: "pci_read env slot fn 0 t = (d, u)" by fastforce
    have ok: "net_ok env s (Some u)" using port_ok(7) [OF 1(2), of slot fn 0] u by simp
    show ?thesis
    proof (cases "d = 0x813910ec")
      case False
      then show ?thesis using 1(1) [OF True u [symmetric] refl False ok] True u by (subst fn_loop.simps) simp
    next
      case match: True
      obtain r v where "rtl_start env slot fn u = Some (r, v)" "net_ok env s (Some v)" using rtl_start_ok [OF ok] by (rule net_ok_withE)
      then show ?thesis using True u match by (subst fn_loop.simps) (simp add: net_ok_with_def)
    qed
  qed
qed

lemma slot_loop_ok: "net_ok env s (Some t) \<Longrightarrow> net_ok_with env s (\<lambda>_. True) (slot_loop env slot t)"
proof (induction env slot t rule: slot_loop.induct)
  case (1 env slot t)
  obtain r u where u: "fn_loop env slot 0 t = Some (r, u)" "net_ok env s (Some u)" using fn_loop_ok [OF 1(2)] by (rule net_ok_withE)
  have step: "net_ok_with env s (\<lambda>_. True) (slot_loop env (slot + 1) u)" if "slot < 32" "r = None"
    by (rule 1(1) [OF that(1) u(1) refl that(2) u(2)])
  show ?case
  proof (cases r)
    case None
    then show ?thesis using step u 1(2) by (subst slot_loop.simps) (simp add: net_ok_with_def)
  next
    case (Some ok)
    then show ?thesis using u 1(2) by (subst slot_loop.simps) (simp add: net_ok_with_def)
  qed
qed

lemma rtl_up_ok: "net_ok env s (Some t) \<Longrightarrow> net_ok_with env s (\<lambda>_. True) (rtl_up env t)"
  using slot_loop_ok [of env s t 0] by (auto simp: rtl_up_def net_ok_with_def)

lemma rtl_down_ok:
  assumes "net_ok env s (Some t)" "abi_wf (en_abi env)"
  shows "net_ok env s (rtl_down env t)"
proof -
  have w: "net_wf env t" "tcp_alive t" using assms(1) by (simp_all add: net_ok_def)
  obtain u where u: "tcp_net_down env t = Some u" "net_ok env t (Some u)" using tcp_net_down_ok [OF w assms(2)] by (rule net_okE)
  have ok: "net_ok env s (Some u)" by (rule net_ok_trans [OF assms(1) u(2)])
  then show ?thesis using u(1) by (simp add: rtl_down_def Let_def net_ok_fields(1) port_ok(1))
qed

lemma rtl_restart_ok:
  assumes "net_ok env s (Some t)" "abi_wf (en_abi env)"
  shows "net_ok env s (rtl_restart env t)"
proof -
  obtain u where u: "rtl_down env (driver_error t) = Some u" "net_ok env s (Some u)"
    using rtl_down_ok [OF net_ok_fields(1) [OF assms(1)] assms(2)] by (rule net_okE)
  obtain r v where "rtl_up env u = Some (r, v)" "net_ok env s (Some v)" using rtl_up_ok [OF u(2)] by (rule net_ok_withE)
  then show ?thesis using u(1) by (simp add: rtl_restart_def)
qed

section \<open>Safety of the receive loop\<close>

lemma ring_read_ok:
  assumes "net_ok env s (Some t)" "i < 8192"
  shows "\<exists>v h. ring_read env i t = Some (v, t\<lparr>ns_hw := h\<rparr>) \<and> net_ok env s (Some (t\<lparr>ns_hw := h\<rparr>))"
proof -
  obtain v h where "hw_ring (en_hw env) i (ns_hw t) = (v, h)" by fastforce
  then have "ring_read env i t = Some (v, t\<lparr>ns_hw := h\<rparr>)" using assms(2) by (simp add: ring_read_def)
  then show ?thesis using net_ok_fields(2) [OF assms(1)] by blast
qed

lemma copy_ring_ok: "net_ok env s (Some t) \<Longrightarrow> n \<le> NET_FRAME_MAX \<Longrightarrow> net_ok env s (copy_ring env i n t)"
proof (induction env i n t rule: copy_ring.induct)
  case (1 env i n t)
  show ?case
  proof (cases "i < n")
    case False
    then show ?thesis using 1(2) by (subst copy_ring.simps) simp
  next
    case True
    have "(ns_rx_offset t + 4 + i) mod 8192 < 8192" by simp
    from ring_read_ok [OF 1(2) this] obtain v h where
      u: "ring_read env ((ns_rx_offset t + 4 + i) mod 8192) t = Some (v, t\<lparr>ns_hw := h\<rparr>)" "net_ok env s (Some (t\<lparr>ns_hw := h\<rparr>))" by blast
    have f: "length (ns_frame t) = NET_FRAME_MAX" using 1(2) by (simp add: net_ok_def net_wf_def)
    then have w: "wr (ns_frame (t\<lparr>ns_hw := h\<rparr>)) i v = Some ((ns_frame t)[i := v])" using True 1(3) by (simp add: wr_Some)
    have "net_ok env s (Some (t\<lparr>ns_hw := h, ns_frame := (ns_frame t)[i := v]\<rparr>))" using net_ok_fields(5) [OF u(2)] f by simp
    from 1(1) [OF True u(1) refl w this 1(3)] show ?thesis using True u(1) f 1(3) by (subst copy_ring.simps) (simp add: wr_Some)
  qed
qed

text \<open>The four header bytes of the next packet in the ring.\<close>

lemma ring_header_ok:
  assumes "net_ok env s (Some t)"
  shows "net_ok_with env s (\<lambda>_. True) (ring_header env t)"
proof -
  have o: "ns_rx_offset t < 8192" using assms by (simp add: net_ok_def net_wf_def)
  have m: "i mod 8192 < 8192" for i :: nat by simp
  from ring_read_ok [OF assms o] obtain b0 h0 where 0: "ring_read env (ns_rx_offset t) t = Some (b0, t\<lparr>ns_hw := h0\<rparr>)"
    "net_ok env s (Some (t\<lparr>ns_hw := h0\<rparr>))" by blast
  from ring_read_ok [OF 0(2) m] obtain b1 h1 where 1: "ring_read env ((ns_rx_offset t + 1) mod 8192) (t\<lparr>ns_hw := h0\<rparr>) = Some (b1, t\<lparr>ns_hw := h1\<rparr>)"
    "net_ok env s (Some (t\<lparr>ns_hw := h1\<rparr>))" by fastforce
  from ring_read_ok [OF 1(2) m] obtain b2 h2 where 2: "ring_read env ((ns_rx_offset t + 2) mod 8192) (t\<lparr>ns_hw := h1\<rparr>) = Some (b2, t\<lparr>ns_hw := h2\<rparr>)"
    "net_ok env s (Some (t\<lparr>ns_hw := h2\<rparr>))" by fastforce
  from ring_read_ok [OF 2(2) m] obtain b3 h3 where 3: "ring_read env ((ns_rx_offset t + 3) mod 8192) (t\<lparr>ns_hw := h2\<rparr>) = Some (b3, t\<lparr>ns_hw := h3\<rparr>)"
    "net_ok env s (Some (t\<lparr>ns_hw := h3\<rparr>))" by fastforce
  show ?thesis using 0(1) 1(1) 2(1) 3 by (intro net_ok_withI [OF _ _ 3(2)]) (simp_all add: ring_header_def)
qed

text \<open>Taking one packet of a sane size out of the ring.\<close>

lemma ring_packet_ok:
  assumes ok: "net_ok env s (Some t)" and abi: "abi_wf (en_abi env)" and n: "sz \<le> NET_FRAME_MAX + 4"
  shows "net_ok env s (ring_packet env status sz t)"
proof (cases "status AND 0x3f = 1")
  case False
  then show ?thesis using net_ok_fields(1) [OF ok] by (simp add: ring_packet_def)
next
  case True
  have le: "sz - 4 \<le> NET_FRAME_MAX" using n by simp
  obtain u where u: "copy_ring env 0 (sz - 4) t = Some u" "net_ok env s (Some u)"
    using copy_ring_ok [OF ok le] by (rule net_okE)
  have w: "net_wf env u" "tcp_alive u" "length (ns_frame u) = NET_FRAME_MAX" using u(2) by (simp_all add: net_ok_def net_wf_def)
  obtain g v where v: "net_receive env (ns_frame u) (sz - 4) u = Some (g, v)" "length g = NET_FRAME_MAX" "net_ok env u (Some v)"
    using net_receive_ok [OF w(1,2) abi w(3)] by (rule net_ok_withE)
  show ?thesis using True u(1) v(1) net_ok_fields(5) [OF net_ok_trans [OF u(2) v(3)] v(2)] by (simp add: ring_packet_def)
qed

lemma poll_loop_ok:
  assumes abi: "abi_wf (en_abi env)"
  shows "net_ok env s (Some t) \<Longrightarrow> net_ok_with env s (\<lambda>_. True) (poll_loop env budget t)"
  using assms
proof (induction env budget t rule: poll_loop.induct)
  case (1 env budget t)
  show ?case
  proof (cases "budget < 8")
    case False
    then show ?thesis using 1(2) by (subst poll_loop.simps) (simp add: net_ok_with_def)
  next
    case True
    obtain v u where u: "in8 env (ns_io t + 0x37) t = (v, u)" by fastforce
    have ok: "net_ok env s (Some u)" using port_ok(4) [OF 1(2), of "ns_io t + 0x37"] u by simp
    show ?thesis
    proof (cases "v AND 1 = 0")
      case False
      then show ?thesis using True u ok by (subst poll_loop.simps) (simp add: net_ok_with_def)
    next
      case more: True
      obtain status sz w where r: "ring_header env u = Some ((status, sz), w)" "net_ok env s (Some w)"
        using ring_header_ok [OF ok] by (auto elim: net_ok_withE)
      define after where "after x = (let x = x\<lparr>ns_rx_offset := ((ns_rx_offset x + sz + 4 + 3) div 4 * 4) mod 8192\<rparr> in
        out16 env (ns_io x + 0x38) (of_nat (ns_rx_offset x) - 16) x)" for x
      have e: "poll_loop env budget t = (if sz = 0xfff0 then Some (True, w)
          else if sz < 4 \<or> sz > NET_FRAME_MAX + 4 then do { s \<leftarrow> rtl_restart env w; Some (False, s) }
          else do { w \<leftarrow> ring_packet env status sz w; poll_loop env (budget + 1) (after w) })"
        using True u more r(1) by (subst poll_loop.simps) (simp add: after_def Let_def)
      obtain y where "rtl_restart env w = Some y" "net_ok env s (Some y)" using rtl_restart_ok [OF r(2) 1(3)] by (rule net_okE)
      then have restart: "net_ok_with env s (\<lambda>_. True) (do { s \<leftarrow> rtl_restart env w; Some (False, s) })"
        by (simp add: net_ok_with_def)
      have packet: "net_ok_with env s (\<lambda>_. True) (do { w \<leftarrow> ring_packet env status sz w; poll_loop env (budget + 1) (after w) })"
        if n: "\<not> (sz < 4 \<or> sz > NET_FRAME_MAX + 4)" "sz \<noteq> 0xfff0"
      proof -
        have le: "sz \<le> NET_FRAME_MAX + 4" using n by simp
        obtain x where x: "ring_packet env status sz w = Some x" "net_ok env s (Some x)"
          using ring_packet_ok [OF r(2) 1(3) le] by (rule net_okE)
        have "net_ok env s (Some (after x))" unfolding after_def Let_def by (intro port_ok(2) net_ok_fields(4) x(2)) simp
        then have ok': "net_ok env s (Some (after x))" .
        have m: "\<not> v AND 1 \<noteq> 0" using more by simp
        from 1(1) [OF True refl u [symmetric] m r(1) refl refl n(2,1) x(1) refl, folded after_def [unfolded Let_def], OF ok' 1(3)] x(1)
        show ?thesis by simp
      qed
      show ?thesis unfolding e using restart packet r(2) by (auto simp: net_ok_with_def)
    qed
  qed
qed

lemma rtl_poll_ok:
  assumes wf: "net_wf env s" and al: "tcp_alive s" and abi: "abi_wf (en_abi env)"
  shows "net_ok env s (rtl_poll env s)"
proof (cases "nw_up (ns_net s)")
  case False
  then show ?thesis using net_ok_refl [OF wf al] by (simp add: rtl_poll_def)
next
  case True
  obtain v t where t: "in16 env (ns_io s + 0x3e) s = (v, t)" by fastforce
  have ok: "net_ok env s (Some t)" using port_ok(5) [OF net_ok_refl [OF wf al], of "ns_io s + 0x3e"] t by simp
  obtain r u where u: "poll_loop env 0 t = Some (r, u)" "net_ok env s (Some u)" using poll_loop_ok [OF abi ok] by (rule net_ok_withE)
  have ok2: "net_ok env s (Some (out16 env (ns_io u + 0x3e) 0x0f u))" by (rule port_ok(2) [OF u(2)])
  then have "net_ok env s (tcp_net_poll env (out16 env (ns_io u + 0x3e) 0x0f u))"
    using net_ok_trans [OF ok2] tcp_net_poll_ok [OF _ _ abi] net_okD by blast
  then show ?thesis using True t u rtl_restart_ok [OF ok abi] by (simp add: rtl_poll_def)
qed

section \<open>Polling\<close>

text \<open>C8: One poll of the network - the card's status, up to eight packets out of the receive ring with everything
  they set off (firewall, ARP, echo, TCP), a restart of the card on an overflow or a broken ring header, and the
  timer of TCP - is always defined, whatever values the ports and the ring return: no access leaves a buffer, the
  loops end, and the invariant of the network state and of the TCP connection holds again; the firewall's rules,
  defaults and switch are those from before, up to the hit counters.\<close>

theorem rtl_poll_safe:
  assumes "net_wf env s" "tcp_alive s" "abi_wf (en_abi env)"
  shows "\<exists>s'. rtl_poll env s = Some s' \<and> net_wf env s' \<and> tcp_alive s' \<and> same_policy (fs_fw (ns_fw s)) (fs_fw (ns_fw s')) \<and>
    ns_running s' = ns_running s"
  using rtl_poll_ok [OF assms] by (simp add: net_ok_def)

theorem rtl_poll_safe_witness:
  "net_wf sample_env sample_net \<and> tcp_alive sample_net \<and> abi_wf (en_abi sample_env) \<and>
   (\<exists>s'. rtl_poll sample_env sample_net = Some s' \<and> net_wf sample_env s')"
  using rtl_poll_safe [OF sample_net_wf] sample_net_wf by auto

end
