(* ===== verification/Command.thy ===== *)
theory Command
  imports Driver Interrupts
begin

text \<open>
  The firewall and network commands of \<^verbatim>\<open>src/jordyOS/net/command.c\<close>. A command takes the text behind its name,
  which it cuts into words in place, changes the network state and writes to the console through \<^verbatim>\<open>sys_write\<close>, an
  argument over a console state \<open>'d\<close>.
\<close>

section \<open>Printing\<close>

type_synonym 'd writer = "bytes \<Rightarrow> 'd \<Rightarrow> 'd option"

definition say :: "'d writer \<Rightarrow> string \<Rightarrow> 'd \<Rightarrow> 'd option" where
  "say sys_write s d = sys_write (ascii s) d"

abbreviation (input) line :: "string \<Rightarrow> string" where "line s \<equiv> s @ [CHR 0x0A]"

function print_ip_loop :: "'d writer \<Rightarrow> u32 \<Rightarrow> nat \<Rightarrow> 'd \<Rightarrow> 'd option" where
  "print_ip_loop sys_write ip i d =
     (if i < 4 then do {
        d \<leftarrow> (if i \<noteq> 0 then say sys_write ''.'' d else Some d);
        d \<leftarrow> net_print_number sys_write (drop_bit (24 - i * 8) ip AND 255) d;
        print_ip_loop sys_write ip (i + 1) d }
      else Some d)"
  by pat_completeness auto
termination
  by (relation "measure (\<lambda>(sys_write, ip, i, d). 4 - i)") auto

declare print_ip_loop.simps [simp del]

definition net_print_ip :: "'d writer \<Rightarrow> u32 \<Rightarrow> 'd \<Rightarrow> 'd option" where
  "net_print_ip sys_write ip d = print_ip_loop sys_write ip 0 d"

definition cidr :: "'d writer \<Rightarrow> u32 \<Rightarrow> u32 \<Rightarrow> 'd \<Rightarrow> 'd option" where
  "cidr sys_write ip msk d =
     (if msk = 0 then say sys_write ''any'' d
      else do {
        d \<leftarrow> net_print_ip sys_write ip d;
        d \<leftarrow> say sys_write ''/'' d;
        net_print_number sys_write (of_nat (bits_loop msk 0)) d })"

section \<open>Words\<close>

abbreviation (input) is_blank :: "u8 \<Rightarrow> bool" where "is_blank c \<equiv> c = 32 \<or> c = 9"

function skip_blanks :: "(u8 \<Rightarrow> bool) \<Rightarrow> bytes \<Rightarrow> nat \<Rightarrow> nat option" where
  "skip_blanks blank text i = do { c \<leftarrow> rd text i; if blank c then skip_blanks blank text (i + 1) else Some i }"
  by pat_completeness auto
termination
  by (relation "measure (\<lambda>(blank, text, i). length text - i)") auto

declare skip_blanks.simps [simp del]

function skip_word :: "(u8 \<Rightarrow> bool) \<Rightarrow> bytes \<Rightarrow> nat \<Rightarrow> nat option" where
  "skip_word blank text i = do { c \<leftarrow> rd text i; if c \<noteq> 0 \<and> \<not> blank c then skip_word blank text (i + 1) else Some i }"
  by pat_completeness auto
termination
  by (relation "measure (\<lambda>(blank, text, i). length text - i)") auto

declare skip_word.simps [simp del]

text \<open>
  The words are recorded by their offsets. Each round takes one word; \<open>None\<close> inside the option stands for the
  result \<open>-1\<close>. A round that makes no progress cannot happen, so the loop stops there.
\<close>

lemma skip_blanks_ge: "skip_blanks blank buf i = Some j \<Longrightarrow> i \<le> j"
proof (induction blank buf i rule: skip_blanks.induct)
  case (1 blank buf i)
  show ?case
  proof (cases "i < length buf \<and> blank (buf ! i)")
    case True
    then have "skip_blanks blank buf (i + 1) = Some j" using 1(2) by (subst (asm) skip_blanks.simps) (simp add: rd_Some)
    then have "i + 1 \<le> j" using 1(1) True by (auto simp: rd_Some)
    then show ?thesis by simp
  next
    case False
    then show ?thesis using 1(2) by (subst (asm) skip_blanks.simps) (auto simp: rd_def split: if_splits)
  qed
qed

lemma skip_word_ge: "skip_word blank buf i = Some j \<Longrightarrow> i \<le> j \<and> j < length buf"
proof (induction blank buf i rule: skip_word.induct)
  case (1 blank buf i)
  show ?case
  proof (cases "i < length buf \<and> buf ! i \<noteq> 0 \<and> \<not> blank (buf ! i)")
    case True
    then have "skip_word blank buf (i + 1) = Some j" using 1(2) by (subst (asm) skip_word.simps) (simp add: rd_Some)
    then have "i + 1 \<le> j \<and> j < length buf" using 1(1) True by (auto simp: rd_Some)
    then show ?thesis by simp
  next
    case False
    then show ?thesis using 1(2) by (subst (asm) skip_word.simps) (auto simp: rd_def split: if_splits)
  qed
qed

function words_loop :: "(u8 \<Rightarrow> bool) \<Rightarrow> bytes \<Rightarrow> nat \<Rightarrow> nat \<Rightarrow> nat list \<Rightarrow> (bytes \<times> nat list option) option" where
  "words_loop blank text i maximum out = do {
     c \<leftarrow> rd text i;
     if c = 0 then Some (text, Some out)
     else do {
       i \<leftarrow> skip_blanks blank text i;
       c \<leftarrow> rd text i;
       if c = 0 then Some (text, Some out)
       else if length out = maximum then Some (text, None)
       else do {
         j \<leftarrow> skip_word blank text i;
         e \<leftarrow> rd text j;
         if e \<noteq> 0 then do { text \<leftarrow> wr text j 0; words_loop blank text (j + 1) maximum (out @ [i]) }
         else Some (text, Some (out @ [i])) } } }"
  by pat_completeness auto
termination
  by (relation "measure (\<lambda>(blank, text, i, maximum, out). length text - i)") (auto dest!: skip_word_ge skip_blanks_ge)

declare words_loop.simps [simp del]

definition words :: "bytes \<Rightarrow> nat \<Rightarrow> (bytes \<times> nat list option) option" where
  "words text maximum = words_loop (\<lambda>c. is_blank c) text 0 maximum []"

definition word_is :: "bytes \<Rightarrow> nat list \<Rightarrow> nat \<Rightarrow> string \<Rightarrow> bool option" where
  "word_is text w k s = do { i \<leftarrow> rd w k; c \<leftarrow> strcmp (drop i text) (ascii s); Some (c = 0) }"

section \<open>Parts of a rule\<close>

text \<open>\<open>None\<close> is the result \<^verbatim>\<open>false\<close>; the text at offset \<open>i\<close> is the word.\<close>

definition text_is :: "bytes \<Rightarrow> nat \<Rightarrow> string \<Rightarrow> bool option" where
  "text_is text i s = do { c \<leftarrow> strcmp (drop i text) (ascii s); Some (c = 0) }"

definition action :: "bytes \<Rightarrow> nat \<Rightarrow> bool option option" where
  "action text i = do {
     allow \<leftarrow> text_is text i ''allow''; deny \<leftarrow> text_is text i ''deny'';
     Some (if allow then Some True else if deny then Some False else None) }"

definition protocol :: "u8 \<Rightarrow> string" where
  "protocol p = (if p = 1 then ''icmp'' else if p = 6 then ''tcp'' else if p = 17 then ''udp'' else ''all'')"

function find_slash :: "bytes \<Rightarrow> nat \<Rightarrow> nat option" where
  "find_slash text i = do { c \<leftarrow> rd text i; if c \<noteq> 0 \<and> c \<noteq> 47 then find_slash text (i + 1) else Some i }"
  by pat_completeness auto
termination
  by (relation "measure (\<lambda>(text, i). length text - i)") auto

declare find_slash.simps [simp del]

definition service :: "bytes \<Rightarrow> nat \<Rightarrow> FirewallRule \<Rightarrow> (bytes \<times> FirewallRule option) option" where
  "service text i rule = do {
     all \<leftarrow> text_is text i ''all''; icmp \<leftarrow> text_is text i ''icmp''; tcp \<leftarrow> text_is text i ''tcp''; udp \<leftarrow> text_is text i ''udp'';
     if all then Some (text, Some rule)
     else if icmp then Some (text, Some (rule\<lparr>rl_protocol := 1\<rparr>))
     else if tcp then Some (text, Some (rule\<lparr>rl_protocol := 6\<rparr>))
     else if udp then Some (text, Some (rule\<lparr>rl_protocol := 17\<rparr>))
     else do {
       j \<leftarrow> find_slash text i;
       c \<leftarrow> rd text j;
       if c = 0 then Some (text, None)
       else do {
         text \<leftarrow> wr text j 0;
         number \<leftarrow> net_number (drop i text) 65535;
         (case number of None \<Rightarrow> Some (text, None)
          | Some port \<Rightarrow>
              if port = 0 then Some (text, None)
              else do {
                tcp \<leftarrow> text_is text (j + 1) ''tcp''; udp \<leftarrow> text_is text (j + 1) ''udp'';
                if tcp then Some (text, Some (rule\<lparr>rl_protocol := 6, rl_port := ucast port\<rparr>))
                else if udp then Some (text, Some (rule\<lparr>rl_protocol := 17, rl_port := ucast port\<rparr>))
                else Some (text, None) }) } } }"

section \<open>Status\<close>

definition print_rule :: "'d writer \<Rightarrow> u32 \<Rightarrow> FirewallRule \<Rightarrow> 'd \<Rightarrow> 'd option" where
  "print_rule sys_write n r d = do {
     d \<leftarrow> net_print_number sys_write n d;
     d \<leftarrow> (if rl_block r then do { d \<leftarrow> say sys_write '' block from '' d; cidr sys_write (rl_source r) (rl_source_mask r) d }
       else do {
         d \<leftarrow> say sys_write (if rl_allow r then '' allow '' else '' deny '') d;
         d \<leftarrow> say sys_write (if rl_direction r = 0 then ''in '' else ''out '') d;
         d \<leftarrow> (if rl_port r \<noteq> 0 then do { d \<leftarrow> net_print_number sys_write (ucast (rl_port r)) d; say sys_write ''/'' d } else Some d);
         d \<leftarrow> say sys_write (protocol (rl_protocol r)) d;
         d \<leftarrow> say sys_write '' from '' d; d \<leftarrow> cidr sys_write (rl_source r) (rl_source_mask r) d;
         d \<leftarrow> say sys_write '' to '' d; cidr sys_write (rl_destination r) (rl_destination_mask r) d });
     d \<leftarrow> say sys_write '' hits='' d; d \<leftarrow> net_print_number sys_write (rl_hits r) d; say sys_write (line '''') d }"

function status_loop :: "'d writer \<Rightarrow> Firewall \<Rightarrow> nat \<Rightarrow> 'd \<Rightarrow> 'd option" where
  "status_loop sys_write fw i d =
     (if i < fw_count fw then do {
        r \<leftarrow> rd (fw_rules fw) i;
        d \<leftarrow> print_rule sys_write (of_nat (i + 1)) r d;
        status_loop sys_write fw (i + 1) d }
      else Some d)"
  by pat_completeness auto
termination
  by (relation "measure (\<lambda>(sys_write, fw, i, d). fw_count fw - i)") auto

declare status_loop.simps [simp del]

definition fw_status :: "'d writer \<Rightarrow> Firewall \<Rightarrow> 'd \<Rightarrow> 'd option" where
  "fw_status sys_write fw d = do {
     d \<leftarrow> say sys_write ''Native JordyOS firewall: '' d; d \<leftarrow> say sys_write (line (if fw_enabled fw then ''enabled'' else ''disabled'')) d;
     d \<leftarrow> say sys_write (line ''Backend: eBPF interpreter; upstream ebpfw XDP + stateless policy.'') d;
     i \<leftarrow> rd (fw_defaults fw) FW_IN; e \<leftarrow> rd (fw_defaults fw) FW_OUT;
     d \<leftarrow> say sys_write ''Defaults: incoming '' d; d \<leftarrow> say sys_write (if i then ''allow'' else ''deny'') d;
     d \<leftarrow> say sys_write '', outgoing '' d; d \<leftarrow> say sys_write (line (if e then ''allow'' else ''deny'')) d;
     d \<leftarrow> say sys_write ''Rules: '' d; d \<leftarrow> net_print_number sys_write (of_nat (fw_count fw)) d;
     d \<leftarrow> say sys_write (line ''/32 (blocks first; ordinary first match)'') d;
     status_loop sys_write fw 0 d }"

definition help_text :: string where
  "help_text = line ''ebpfw: interpreted eBPF/XDP; native stateless IPv4 adaptation'' @
     line ''  ebpfw enable | disable | status [numbered] | stats | doctor'' @
     line ''  ebpfw allow|deny [in|out] SERVICE [from CIDR] [to CIDR]'' @
     line ''  SERVICE: all, icmp, tcp, udp, PORT/tcp, PORT/udp'' @
     line ''  ebpfw default allow|deny incoming|outgoing'' @
     line ''  ebpfw block from CIDR | bpf'' @
     line ''  ebpfw delete NUMBER | reset'' @
     line ''Omitted direction means in. Ports match destination, including out.'' @
     line ''ARP bypasses IP policy; IPv6/options/fragments are unsupported.'' @
     line ''Rules and counters are RAM-only. No connection tracking or forwarding.''"

definition fw_help :: "'d writer \<Rightarrow> 'd \<Rightarrow> 'd option" where
  "fw_help sys_write d = say sys_write help_text d"

function stats_loop :: "'d writer \<Rightarrow> Firewall \<Rightarrow> nat \<Rightarrow> 'd \<Rightarrow> 'd option" where
  "stats_loop sys_write fw k d =
     (if k < 2 then do {
        allowed \<leftarrow> rd (fw_allowed fw) k; denied \<leftarrow> rd (fw_denied fw) k;
        d \<leftarrow> say sys_write (if k = FW_IN then ''in allowed='' else ''out allowed='') d; d \<leftarrow> net_print_number sys_write allowed d;
        d \<leftarrow> say sys_write '' denied='' d; d \<leftarrow> net_print_number sys_write denied d; d \<leftarrow> say sys_write (line '''') d;
        stats_loop sys_write fw (k + 1) d }
      else Some d)"
  by pat_completeness auto
termination
  by (relation "measure (\<lambda>(sys_write, fw, k, d). 2 - k)") auto

declare stats_loop.simps [simp del]

definition fw_stats :: "'d writer \<Rightarrow> fw_state \<Rightarrow> 'd \<Rightarrow> 'd option" where
  "fw_stats sys_write s d = do {
     d \<leftarrow> stats_loop sys_write (fs_fw s) 0 d;
     d \<leftarrow> say sys_write ''bpf policy_runs='' d; d \<leftarrow> net_print_number sys_write (st_policy_runs (fs_stats s)) d;
     d \<leftarrow> say sys_write '' xdp_runs='' d; d \<leftarrow> net_print_number sys_write (st_xdp_runs (fs_stats s)) d;
     d \<leftarrow> say sys_write '' xdp_drops='' d; d \<leftarrow> net_print_number sys_write (st_xdp_drops (fs_stats s)) d;
     d \<leftarrow> say sys_write '' faults='' d; d \<leftarrow> net_print_number sys_write (st_faults (fs_stats s)) d; say sys_write (line '''') d }"

section \<open>The firewall command\<close>

definition set_fw :: "('m, 'h) net_state \<Rightarrow> Firewall \<Rightarrow> ('m, 'h) net_state" where
  "set_fw s fw = s\<lparr>ns_fw := (ns_fw s)\<lparr>fs_fw := fw\<rparr>\<rparr>"

abbreviation (input) fw_of :: "('m, 'h) net_state \<Rightarrow> Firewall" where "fw_of s \<equiv> fs_fw (ns_fw s)"

definition bpf_ready :: "('m, 'h) net_env \<Rightarrow> ('m, 'h) net_state \<Rightarrow> (bool \<times> ('m, 'h) net_state) option" where
  "bpf_ready env s = do { (ready, fw) \<leftarrow> fw_bpf_ready (en_policy env) (en_xdp env) (ns_fw s); Some (ready, s\<lparr>ns_fw := fw\<rparr>) }"

definition answer :: "'d writer \<Rightarrow> string \<Rightarrow> ('m, 'h) net_state \<Rightarrow> 'd \<Rightarrow> (('m, 'h) net_state \<times> 'd) option" where
  "answer sys_write reply s d = do { d \<leftarrow> say sys_write reply d; Some (s, d) }"

definition invalid_text :: string where
  "invalid_text = line ''Invalid command; policy unchanged. Type ebpfw help.''"

definition enable_command :: "'d writer \<Rightarrow> ('m, 'h) net_env \<Rightarrow> ('m, 'h) net_state \<Rightarrow> 'd \<Rightarrow> (('m, 'h) net_state \<times> 'd) option" where
  "enable_command sys_write env s d = do {
     (ready, s) \<leftarrow> bpf_ready env s;
     if \<not> ready then answer sys_write (line ''BPF program validation failed; firewall not enabled.'') s d
     else answer sys_write (line ''Native firewall enabled.'') (set_fw s ((fw_of s)\<lparr>fw_enabled := True\<rparr>)) d }"

definition bpf_command :: "'d writer \<Rightarrow> bytes \<Rightarrow> ('m, 'h) net_env \<Rightarrow> ('m, 'h) net_state \<Rightarrow> 'd \<Rightarrow> (('m, 'h) net_state \<times> 'd) option" where
  "bpf_command sys_write hash env s d = do {
     (ready, s) \<leftarrow> bpf_ready env s;
     d \<leftarrow> say sys_write (line (if ready then ''BPF validation: passed'' else ''BPF validation: FAILED'')) d;
     d \<leftarrow> say sys_write ''eBPF instructions: policy='' d; d \<leftarrow> net_print_number sys_write (of_nat (length (en_policy env))) d;
     d \<leftarrow> say sys_write '' xdp='' d; d \<leftarrow> net_print_number sys_write (of_nat (length (en_xdp env))) d; d \<leftarrow> say sys_write (line '''') d;
     d \<leftarrow> say sys_write ''ELF SHA256: '' d; d \<leftarrow> sys_write hash d; d \<leftarrow> say sys_write (line '''') d;
     answer sys_write (line ''Interpreter: 11 registers, 512B stack, checked memory, 65536-step limit.'' @
       line ''Maps: arrays, map-of-maps, LPM; helper 1 (lookup). No JIT/Netfilter/conntrack.'') s d }"

definition doctor_command :: "'d writer \<Rightarrow> ('m, 'h) net_env \<Rightarrow> ('m, 'h) net_state \<Rightarrow> 'd \<Rightarrow> (('m, 'h) net_state \<times> 'd) option" where
  "doctor_command sys_write env s d = do {
     d \<leftarrow> say sys_write (line ''Backend: eBPF interpreter; upstream ebpfw XDP, stateless IPv4 policy.'') d;
     (ready, s) \<leftarrow> bpf_ready env s;
     d \<leftarrow> say sys_write (line (if ready then ''BPF validation: passed; XDP PASS/DROP hook installed.'' else ''BPF validation: FAILED.'')) d;
     d \<leftarrow> say sys_write (line (if nw_up (ns_net s) then ''RTL8139: up, receive/transmit hooks active.''
       else ''RTL8139: down; attach -device rtl8139 and run net up.'')) d;
     answer sys_write (line ''Validation: IPv4/transport lengths and checksums; fragments/options rejected.'' @
       line ''Services: ICMP echo; optional UDP echo at 7777; active TCP file transfers.'' @
       line ''Polling requires console activity, yields, or guest wait calls.'') s d }"

text \<open>Adding a parsed rule; \<open>suffix\<close> is the end of the message.\<close>

definition add_command :: "'d writer \<Rightarrow> string \<Rightarrow> FirewallRule \<Rightarrow> ('m, 'h) net_state \<Rightarrow> 'd \<Rightarrow> (('m, 'h) net_state \<times> 'd) option" where
  "add_command sys_write suffix rule s d = do {
     (ok, fw) \<leftarrow> fw_add rule (fw_of s);
     if \<not> ok then answer sys_write (line ''Rule table full (32).'') s d
     else do {
       d \<leftarrow> say sys_write ''Rule added: '' d; d \<leftarrow> net_print_number sys_write (of_nat (fw_count fw)) d;
       answer sys_write (line suffix) (set_fw s fw) d } }"

definition block_command :: "'d writer \<Rightarrow> bytes \<Rightarrow> nat \<Rightarrow> ('m, 'h) net_state \<Rightarrow> 'd \<Rightarrow> (('m, 'h) net_state \<times> 'd) option" where
  "block_command sys_write text i s d = do {
     parsed \<leftarrow> net_cidr (drop i text);
     (case parsed of None \<Rightarrow> answer sys_write invalid_text s d
      | Some (ip, msk) \<Rightarrow> add_command sys_write '' (XDP source block)'' (zero_native\<lparr>rl_block := True, rl_source := ip, rl_source_mask := msk\<rparr>) s d) }"

definition default_command :: "'d writer \<Rightarrow> bytes \<Rightarrow> nat list \<Rightarrow> bool \<Rightarrow> ('m, 'h) net_state \<Rightarrow> 'd \<Rightarrow> (('m, 'h) net_state \<times> 'd) option" where
  "default_command sys_write text w allow s d = do {
     incoming \<leftarrow> word_is text w 2 ''incoming''; outgoing \<leftarrow> word_is text w 2 ''outgoing'';
     if incoming \<or> outgoing then do {
       defaults \<leftarrow> wr (fw_defaults (fw_of s)) (if incoming then FW_IN else FW_OUT) allow;
       answer sys_write (line ''Default updated.'') (set_fw s ((fw_of s)\<lparr>fw_defaults := defaults\<rparr>)) d }
     else answer sys_write invalid_text s d }"

text \<open>The address of an option: \<open>None\<close> is an invalid one, \<^verbatim>\<open>any\<close> leaves the fields alone.\<close>

definition option_cidr :: "bytes \<Rightarrow> nat list \<Rightarrow> nat \<Rightarrow> (u32 \<times> u32) \<Rightarrow> (u32 \<times> u32) option option" where
  "option_cidr text w k old = do {
     any \<leftarrow> word_is text w k ''any'';
     if any then Some (Some old) else do { i \<leftarrow> rd w k; net_cidr (drop i text) } }"

function rule_options :: "bytes \<Rightarrow> nat list \<Rightarrow> nat \<Rightarrow> bool \<Rightarrow> bool \<Rightarrow> FirewallRule \<Rightarrow> FirewallRule option option" where
  "rule_options text w i seen_from seen_to rule =
     (if i < length w then
        if i + 1 \<ge> length w then Some None
        else do {
          is_from \<leftarrow> word_is text w i ''from''; is_to \<leftarrow> word_is text w i ''to'';
          if is_from \<and> \<not> seen_from then do {
            parsed \<leftarrow> option_cidr text w (i + 1) (rl_source rule, rl_source_mask rule);
            (case parsed of None \<Rightarrow> Some None
             | Some (ip, msk) \<Rightarrow> rule_options text w (i + 2) True seen_to (rule\<lparr>rl_source := ip, rl_source_mask := msk\<rparr>)) }
          else if is_to \<and> \<not> seen_to then do {
            parsed \<leftarrow> option_cidr text w (i + 1) (rl_destination rule, rl_destination_mask rule);
            (case parsed of None \<Rightarrow> Some None
             | Some (ip, msk) \<Rightarrow> rule_options text w (i + 2) seen_from True (rule\<lparr>rl_destination := ip, rl_destination_mask := msk\<rparr>)) }
          else Some None }
      else Some (Some rule))"
  by pat_completeness auto
termination
  by (relation "measure (\<lambda>(text, w, i, f, t, r). length w - i)") auto

declare rule_options.simps [simp del]

definition parse_rule :: "bytes \<Rightarrow> nat list \<Rightarrow> bool \<Rightarrow> FirewallRule option option" where
  "parse_rule text w allow = do {
     is_in \<leftarrow> word_is text w 1 ''in''; is_out \<leftarrow> word_is text w 1 ''out'';
     let rule = zero_native\<lparr>rl_allow := allow, rl_direction := (if is_in then 0 else if is_out then 1 else 0)\<rparr>;
     let i = (if is_in \<or> is_out then 2 else 1);
     if i \<ge> length w then Some None
     else do {
       p \<leftarrow> rd w i;
       (text, parsed) \<leftarrow> service text p rule;
       (case parsed of None \<Rightarrow> Some None | Some rule \<Rightarrow> rule_options text w (i + 1) False False rule) } }"

definition rule_command :: "'d writer \<Rightarrow> bytes \<Rightarrow> nat list \<Rightarrow> bool \<Rightarrow> ('m, 'h) net_state \<Rightarrow> 'd \<Rightarrow> (('m, 'h) net_state \<times> 'd) option" where
  "rule_command sys_write text w allow s d = do {
     parsed \<leftarrow> parse_rule text w allow;
     (case parsed of None \<Rightarrow> answer sys_write invalid_text s d | Some rule \<Rightarrow> add_command sys_write '''' rule s d) }"

text \<open>The commands of one word, of two and of three; \<open>None\<close> means that none of them matched.\<close>

definition fw_single :: "'d writer \<Rightarrow> bytes \<Rightarrow> ('m, 'h) net_env \<Rightarrow> bytes \<Rightarrow> nat list \<Rightarrow> ('m, 'h) net_state \<Rightarrow> 'd \<Rightarrow> (('m, 'h) net_state \<times> 'd) option option" where
  "fw_single sys_write hash env text w s d = do {
     is_help \<leftarrow> word_is text w 0 ''help''; is_enable \<leftarrow> word_is text w 0 ''enable''; is_disable \<leftarrow> word_is text w 0 ''disable'';
     is_status \<leftarrow> word_is text w 0 ''status''; is_stats \<leftarrow> word_is text w 0 ''stats''; is_bpf \<leftarrow> word_is text w 0 ''bpf'';
     is_doctor \<leftarrow> word_is text w 0 ''doctor''; is_reset \<leftarrow> word_is text w 0 ''reset'';
     if is_help then do { d \<leftarrow> fw_help sys_write d; Some (Some (s, d)) }
     else if is_enable then do { r \<leftarrow> enable_command sys_write env s d; Some (Some r) }
     else if is_disable then do {
       r \<leftarrow> answer sys_write (line ''Native firewall disabled; packet validation remains active.'') (set_fw s ((fw_of s)\<lparr>fw_enabled := False\<rparr>)) d;
       Some (Some r) }
     else if is_status then do { d \<leftarrow> fw_status sys_write (fw_of s) d; Some (Some (s, d)) }
     else if is_stats then do { d \<leftarrow> fw_stats sys_write (ns_fw s) d; Some (Some (s, d)) }
     else if is_bpf then do { r \<leftarrow> bpf_command sys_write hash env s d; Some (Some r) }
     else if is_doctor then do { r \<leftarrow> doctor_command sys_write env s d; Some (Some r) }
     else if is_reset then do { r \<leftarrow> answer sys_write (line ''Rules/counters reset; firewall disabled.'') (set_fw s fw_reset) d; Some (Some r) }
     else Some None }"

definition fw_pair :: "'d writer \<Rightarrow> bytes \<Rightarrow> nat list \<Rightarrow> ('m, 'h) net_state \<Rightarrow> 'd \<Rightarrow> (('m, 'h) net_state \<times> 'd) option option" where
  "fw_pair sys_write text w s d = do {
     is_status \<leftarrow> word_is text w 0 ''status''; numbered \<leftarrow> word_is text w 1 ''numbered''; is_delete \<leftarrow> word_is text w 0 ''delete'';
     if is_status \<and> numbered then do { d \<leftarrow> fw_status sys_write (fw_of s) d; Some (Some (s, d)) }
     else if is_delete then do {
       i \<leftarrow> rd w 1; parsed \<leftarrow> net_number (drop i text) (of_nat FW_RULES);
       (case parsed of None \<Rightarrow> Some None
        | Some number \<Rightarrow> do {
            (ok, fw) \<leftarrow> fw_delete (unat number) (fw_of s);
            if ok then do { r \<leftarrow> answer sys_write (line ''Rule deleted.'') (set_fw s fw) d; Some (Some r) } else Some None }) }
     else Some None }"

definition fw_triple :: "'d writer \<Rightarrow> bytes \<Rightarrow> nat list \<Rightarrow> ('m, 'h) net_state \<Rightarrow> 'd \<Rightarrow> (('m, 'h) net_state \<times> 'd) option option" where
  "fw_triple sys_write text w s d = do {
     is_block \<leftarrow> word_is text w 0 ''block''; is_from \<leftarrow> word_is text w 1 ''from''; is_default \<leftarrow> word_is text w 0 ''default'';
     i1 \<leftarrow> rd w 1; i2 \<leftarrow> rd w 2;
     allow \<leftarrow> action text i1;
     if is_block \<and> is_from then do { r \<leftarrow> block_command sys_write text i2 s d; Some (Some r) }
     else if is_default then
       (case allow of Some allow \<Rightarrow> do { r \<leftarrow> default_command sys_write text w allow s d; Some (Some r) } | None \<Rightarrow> Some None)
     else Some None }"

definition fw_other :: "'d writer \<Rightarrow> bytes \<Rightarrow> nat list \<Rightarrow> ('m, 'h) net_state \<Rightarrow> 'd \<Rightarrow> (('m, 'h) net_state \<times> 'd) option" where
  "fw_other sys_write text w s d =
     (if length w < 2 then answer sys_write invalid_text s d
      else do {
        i \<leftarrow> rd w 0; allow \<leftarrow> action text i;
        (case allow of Some allow \<Rightarrow> rule_command sys_write text w allow s d | None \<Rightarrow> answer sys_write invalid_text s d) })"

definition fw_command :: "'d writer \<Rightarrow> bytes \<Rightarrow> ('m, 'h) net_env \<Rightarrow> bytes \<Rightarrow> ('m, 'h) net_state \<Rightarrow> 'd \<Rightarrow> (('m, 'h) net_state \<times> 'd) option" where
  "fw_command sys_write hash env arguments s d = do {
     (text, found) \<leftarrow> words arguments 10;
     (case found of None \<Rightarrow> answer sys_write invalid_text s d
      | Some w \<Rightarrow>
          if w = [] then do { d \<leftarrow> fw_help sys_write d; Some (s, d) }
          else do {
            r \<leftarrow> (if length w = 1 then fw_single sys_write hash env text w s d
               else if length w = 2 then fw_pair sys_write text w s d
               else if length w = 3 then fw_triple sys_write text w s d
               else Some None);
            (case r of Some r \<Rightarrow> Some r | None \<Rightarrow> fw_other sys_write text w s d) }) }"

section \<open>The network command\<close>

definition net_status :: "'d writer \<Rightarrow> Network \<Rightarrow> 'd \<Rightarrow> 'd option" where
  "net_status sys_write n d = do {
     d \<leftarrow> say sys_write (if nw_up n then ''Network: up, '' else ''Network: down, '') d;
     d \<leftarrow> net_print_ip sys_write NET_IP d; d \<leftarrow> say sys_write (line ''/24, RTL8139, polled'') d;
     d \<leftarrow> say sys_write (line (if nw_echo n then ''UDP echo 7777: on'' else ''UDP echo 7777: off'')) d;
     d \<leftarrow> say sys_write ''rx='' d; d \<leftarrow> net_print_number sys_write (nw_received n) d;
     d \<leftarrow> say sys_write '' tx='' d; d \<leftarrow> net_print_number sys_write (nw_transmitted n) d;
     d \<leftarrow> say sys_write '' invalid='' d; d \<leftarrow> net_print_number sys_write (nw_invalid n) d;
     d \<leftarrow> say sys_write '' ignored='' d; d \<leftarrow> net_print_number sys_write (nw_ignored n) d;
     d \<leftarrow> say sys_write '' tx_dropped='' d; d \<leftarrow> net_print_number sys_write (nw_tx_dropped n) d;
     d \<leftarrow> say sys_write '' driver_errors='' d; d \<leftarrow> net_print_number sys_write (nw_driver_errors n) d; say sys_write (line '''') d }"

definition net_usage :: string where
  "net_usage = line ''net status | up | down | echo on|off''"

definition net_single :: "'d writer \<Rightarrow> ('m, 'h) net_env \<Rightarrow> bytes \<Rightarrow> nat list \<Rightarrow> ('m, 'h) net_state \<Rightarrow> 'd \<Rightarrow> (('m, 'h) net_state \<times> 'd) option" where
  "net_single sys_write env text w s d = do {
     is_status \<leftarrow> word_is text w 0 ''status''; is_up \<leftarrow> word_is text w 0 ''up''; is_down \<leftarrow> word_is text w 0 ''down'';
     if is_status then do { d \<leftarrow> net_status sys_write (ns_net s) d; Some (s, d) }
     else if is_up then do {
       (ok, s) \<leftarrow> rtl_up env s;
       answer sys_write (line (if ok then ''RTL8139 up at 192.0.2.2/24.'' else ''No usable RTL8139 on PCI bus 0.'')) s d }
     else if is_down then do { s \<leftarrow> rtl_down env s; answer sys_write (line ''Network down.'') s d }
     else answer sys_write net_usage s d }"

definition echo_command :: "'d writer \<Rightarrow> bytes \<Rightarrow> nat list \<Rightarrow> ('m, 'h) net_state \<Rightarrow> 'd \<Rightarrow> (('m, 'h) net_state \<times> 'd) option" where
  "echo_command sys_write text w s d = do {
     is_echo \<leftarrow> word_is text w 0 ''echo''; on \<leftarrow> word_is text w 1 ''on''; off \<leftarrow> word_is text w 1 ''off'';
     if is_echo \<and> (on \<or> off) then
       answer sys_write (line (if on then ''UDP echo 7777 enabled.'' else ''UDP echo 7777 disabled.'')) (count_net (\<lambda>n. n\<lparr>nw_echo := on\<rparr>) s) d
     else answer sys_write net_usage s d }"

definition net_command :: "'d writer \<Rightarrow> ('m, 'h) net_env \<Rightarrow> bytes \<Rightarrow> ('m, 'h) net_state \<Rightarrow> 'd \<Rightarrow> (('m, 'h) net_state \<times> 'd) option" where
  "net_command sys_write env arguments s d = do {
     (text, found) \<leftarrow> words arguments 3;
     (case found of None \<Rightarrow> answer sys_write net_usage s d
      | Some w \<Rightarrow>
          if w = [] then do { d \<leftarrow> net_status sys_write (ns_net s) d; Some (s, d) }
          else if length w = 1 then net_single sys_write env text w s d
          else if length w = 2 then echo_command sys_write text w s d
          else answer sys_write net_usage s d) }"

section \<open>The LARP command\<close>

text \<open>\<open>failure\<close> is the answer of \<^verbatim>\<open>larp_selftest\<close>: the text of the failed check, or none.\<close>

definition larp_command :: "'d writer \<Rightarrow> bytes option \<Rightarrow> bytes \<Rightarrow> 'd \<Rightarrow> 'd option" where
  "larp_command sys_write failure arguments d = do {
     test \<leftarrow> strcmp arguments (ascii ''test''); first \<leftarrow> rd arguments 0; status \<leftarrow> strcmp arguments (ascii ''status'');
     if test = 0 then do {
       d \<leftarrow> (case failure of
            Some text \<Rightarrow> do { d \<leftarrow> say sys_write ''LARP core self-test: FAIL: '' d; d \<leftarrow> sys_write text d; say sys_write (line '''') d }
          | None \<Rightarrow> do { d \<leftarrow> say sys_write (line ''LARP core self-test: PASS'') d;
              say sys_write (line ''Launch, growth, loss/ECN, RTT probe, recovery, arithmetic checked.'') d });
       say sys_write (line ''Synthetic feedback only; no TCP packets were sent.'') d }
     else if first = 0 \<or> status = 0 then
       say sys_write (line ''LARP: upstream portable core compiled natively into the kernel.'' @
         line ''Source: pinned vendor/tcplarp/larp_core.h (GPL-2.0-only).'' @
         line ''LARP is the default TCP sender controller; type tcp for transfer status.'' @
         line ''Type larp test for synthetic feedback checks; tcp demo IP PORT for real traffic.'') d
     else say sys_write (line ''larp status | test'') d }"

section \<open>Texts\<close>

text \<open>A buffer with a NUL at \<open>k\<close>: every offset up to \<open>k\<close> is a C string.\<close>

definition nul_at :: "bytes \<Rightarrow> nat \<Rightarrow> bool" where
  "nul_at buf k \<longleftrightarrow> k < length buf \<and> buf ! k = 0"

lemma nul_at_exists: "is_cstr buf \<Longrightarrow> \<exists>k. nul_at buf k"
  by (auto simp: is_cstr_def nul_at_def in_set_conv_nth)

lemma nul_at_cstr: "nul_at buf k \<Longrightarrow> i \<le> k \<Longrightarrow> is_cstr (drop i buf)"
  unfolding is_cstr_def nul_at_def in_set_conv_nth by (intro exI [of _ "k - i"]) auto

lemma nul_at_zero [simp]: "nul_at buf k \<Longrightarrow> nul_at (buf[j := 0]) k"
  by (cases "j = k") (simp_all add: nul_at_def)

lemma nul_at_rd: "nul_at buf k \<Longrightarrow> i \<le> k \<Longrightarrow> rd buf i = Some (buf ! i)"
  by (simp add: nul_at_def rd_Some)

lemma ascii_is_cstr [simp]: "is_cstr (ascii s)"
  by (simp add: ascii_def is_cstr_def)

lemma text_is_ok: "nul_at buf k \<Longrightarrow> i \<le> k \<Longrightarrow> \<exists>b. text_is buf i s = Some b"
  using strcmp_cstr [OF nul_at_cstr ascii_is_cstr, of buf k i s] by (auto simp: text_is_def)

lemma word_is_eq: "n < length w \<Longrightarrow> word_is buf w n s = text_is buf (w ! n) s"
  by (simp add: word_is_def text_is_def rd_Some)

lemma skip_blanks_ok: "nul_at buf k \<Longrightarrow> i \<le> k \<Longrightarrow> \<not> blank 0 \<Longrightarrow> \<exists>j. skip_blanks blank buf i = Some j \<and> j \<le> k"
proof (induction blank buf i rule: skip_blanks.induct)
  case (1 blank buf i)
  note r = nul_at_rd [OF 1(2,3)]
  show ?case
  proof (cases "blank (buf ! i)")
    case True
    then have "i \<noteq> k" using 1(2,4) by (auto simp: nul_at_def)
    then show ?thesis using 1(1) [OF r True 1(2)] 1(3,4) True by (subst skip_blanks.simps) (auto simp: r)
  next
    case False
    then show ?thesis using 1(3) by (subst skip_blanks.simps) (auto simp: r)
  qed
qed

lemma skip_word_ok: "nul_at buf k \<Longrightarrow> i \<le> k \<Longrightarrow> \<exists>j. skip_word blank buf i = Some j \<and> j \<le> k"
proof (induction blank buf i rule: skip_word.induct)
  case (1 blank buf i)
  note r = nul_at_rd [OF 1(2,3)]
  show ?case
  proof (cases "buf ! i \<noteq> 0 \<and> \<not> blank (buf ! i)")
    case True
    then have "i \<noteq> k" using 1(2) by (auto simp: nul_at_def)
    then show ?thesis using 1(1) [OF r True 1(2)] 1(3) True by (subst skip_word.simps) (auto simp: r)
  next
    case False
    then show ?thesis using 1(3) by (subst skip_word.simps) (auto simp: r)
  qed
qed

lemma find_slash_ok: "nul_at buf k \<Longrightarrow> i \<le> k \<Longrightarrow> \<exists>j. find_slash buf i = Some j \<and> i \<le> j \<and> j \<le> k"
proof (induction buf i rule: find_slash.induct)
  case (1 buf i)
  note r = nul_at_rd [OF 1(2,3)]
  show ?case
  proof (cases "buf ! i \<noteq> 0 \<and> buf ! i \<noteq> 47")
    case True
    then have "i \<noteq> k" using 1(2) by (auto simp: nul_at_def)
    then show ?thesis using 1(1) [OF r True 1(2)] 1(3) True by (subst find_slash.simps) (auto simp: r)
  next
    case False
    then show ?thesis using 1(3) by (subst find_slash.simps) (auto simp: r)
  qed
qed

lemma words_loop_ok:
  "nul_at buf k \<Longrightarrow> i \<le> k \<Longrightarrow> length out \<le> maximum \<Longrightarrow> \<forall>x \<in> set out. x \<le> k \<Longrightarrow> \<not> blank 0 \<Longrightarrow>
   \<exists>buf' found. words_loop blank buf i maximum out = Some (buf', found) \<and> nul_at buf' k \<and>
     (\<forall>w. found = Some w \<longrightarrow> length w \<le> maximum \<and> (\<forall>x \<in> set w. x \<le> k))"
proof (induction blank buf i maximum out rule: words_loop.induct)
  case (1 blank buf i maximum out)
  note r = nul_at_rd [OF 1(2,3)]
  obtain j where j: "skip_blanks blank buf i = Some j" "j \<le> k" using skip_blanks_ok [where blank = blank, OF 1(2,3,6)] by blast
  note rj = nul_at_rd [OF 1(2) j(2)]
  obtain e where e: "skip_word blank buf j = Some e" "e \<le> k" using skip_word_ok [OF 1(2) j(2)] by blast
  note re = nul_at_rd [OF 1(2) e(2)]
  show ?case
  proof (cases "buf ! i = 0 \<or> buf ! j = 0 \<or> length out = maximum \<or> buf ! e = 0")
    case True
    then show ?thesis using 1(2,4,5) j e by (subst words_loop.simps) (auto simp: r rj re)
  next
    case False
    then have "e \<noteq> k" using 1(2) by (auto simp: nul_at_def)
    then have ek: "e + 1 \<le> k" using e(2) by simp
    have l: "e < length buf" using e(2) 1(2) by (simp add: nul_at_def)
    have w: "wr buf e 0 = Some (buf[e := 0])" using l by (simp add: wr_Some)
    have n: "nul_at (buf[e := 0]) k" using 1(2) by simp
    have lo: "length (out @ [j]) \<le> maximum" using 1(4) False by simp
    have os: "\<forall>x \<in> set (out @ [j]). x \<le> k" using 1(5) j(2) by simp
    have f: "buf ! i \<noteq> 0" "buf ! j \<noteq> 0" "length out \<noteq> maximum" "buf ! e \<noteq> 0" using False by simp_all
    from 1(1) [OF r f(1) j(1) rj f(2,3) e(1) re f(4) w n ek lo os 1(6)]
    show ?thesis using f j(1) e(1) l by (subst words_loop.simps) (simp add: wr_Some r rj re)
  qed
qed

lemma words_ok:
  "nul_at buf k \<Longrightarrow> \<exists>buf' found. words buf maximum = Some (buf', found) \<and> nul_at buf' k \<and>
     (\<forall>w. found = Some w \<longrightarrow> length w \<le> maximum \<and> (\<forall>x \<in> set w. x \<le> k))"
  unfolding words_def by (rule words_loop_ok) simp_all

section \<open>Parsers never leave the text\<close>

lemma number_loop_ok: "is_cstr s \<Longrightarrow> \<exists>r. number_loop s m n = Some r"
  by (induction s m n rule: number_loop.induct) (auto simp: Let_def)

lemma net_number_ok: "is_cstr s \<Longrightarrow> \<exists>r. net_number s m = Some r"
  using number_loop_ok [of s m 0] by (cases s) (auto simp: net_number_def rd_def)

lemma scan_octet_ok: "is_cstr s \<Longrightarrow> \<exists>r. scan_octet s part = Some r \<and> (\<forall>p t. r = Some (p, t) \<longrightarrow> is_cstr p \<and> is_cstr t)"
  by (induction s part rule: scan_octet.induct) (auto simp: is_cstr_def)

lemma cidr_octets_ok: "is_cstr s \<Longrightarrow> \<exists>r. cidr_octets i s ip = Some r \<and> (\<forall>a t. r = Some (a, t) \<longrightarrow> is_cstr t)"
proof (induction i s ip rule: cidr_octets.induct)
  case (1 i s ip)
  obtain r where r: "scan_octet s [] = Some r" "\<forall>p t. r = Some (p, t) \<longrightarrow> is_cstr p \<and> is_cstr t" using scan_octet_ok [OF 1(3)] by blast
  show ?case
  proof (cases "i < 4 \<and> r \<noteq> None")
    case False
    then show ?thesis using r(1) 1(3) by (subst cidr_octets.simps) (cases r, auto)
  next
    case True
    then obtain p t where pt: "r = Some (p, t)" "is_cstr p" "is_cstr t" using r(2) by (cases r) auto
    obtain v where v: "net_number p 255 = Some v" using net_number_ok [OF pt(2)] by blast
    obtain c u where c: "t = c # u" using pt(3) by (cases t) auto
    show ?thesis
    proof (cases v)
      case None
      then show ?thesis using True r(1) pt(1) v by (subst cidr_octets.simps) simp
    next
      case (Some b)
      have cu: "c = 46 \<Longrightarrow> is_cstr u" using pt(3) c by simp
      show ?thesis using True r(1) pt v c Some cu
          1(1) [OF _ r(1) pt(1) refl v Some refl _ c] 1(2) [OF _ r(1) pt(1) refl v Some refl]
        by (subst cidr_octets.simps) (auto simp: Let_def)
    qed
  qed
qed

lemma net_cidr_ok: "is_cstr s \<Longrightarrow> \<exists>r. net_cidr s = Some r"
proof -
  assume "is_cstr s"
  then obtain r where r: "cidr_octets 0 s 0 = Some r" "\<forall>a t. r = Some (a, t) \<longrightarrow> is_cstr t" using cidr_octets_ok by blast
  show ?thesis
  proof (cases r)
    case None
    then show ?thesis using r(1) by (simp add: net_cidr_def)
  next
    case (Some at)
    obtain a c t where act: "at = (a, c # t)" "is_cstr (c # t)" using r(2) Some by (cases at; cases "snd at") auto
    have "\<exists>v. cidr_prefix (c # t) = Some v" using act(2) net_number_ok [of t 32] by (auto simp: cidr_prefix_def)
    then obtain v where "cidr_prefix (c # t) = Some v" by blast
    then show ?thesis using r(1) Some act(1) by (simp add: net_cidr_def)
  qed
qed

section \<open>The edits of the policy\<close>

text \<open>What a command may do to the firewall. A rule that is added is well formed and its addresses are CIDR blocks.\<close>

definition cidr_block :: "u32 \<Rightarrow> u32 \<Rightarrow> bool" where
  "cidr_block ip msk \<longleftrightarrow> (\<exists>p. unat p \<le> 32 \<and> msk = prefix_mask p) \<and> ip AND msk = ip"

definition fw_edit :: "Firewall \<Rightarrow> Firewall \<Rightarrow> bool" where
  "fw_edit fw fw' \<longleftrightarrow> fw' = fw \<or> (\<exists>b. fw' = fw\<lparr>fw_enabled := b\<rparr>) \<or> fw' = fw_reset \<or>
     (\<exists>k b. k < 2 \<and> fw' = fw\<lparr>fw_defaults := (fw_defaults fw)[k := b]\<rparr>) \<or>
     (\<exists>n. fw_delete n fw = Some (True, fw')) \<or>
     (\<exists>r. rule_ok r \<and> cidr_block (rl_source r) (rl_source_mask r) \<and> cidr_block (rl_destination r) (rl_destination_mask r) \<and>
        fw_add r fw = Some (True, fw'))"

lemma fw_edit_wf: "fw_edit fw fw' \<Longrightarrow> fw_wf fw \<Longrightarrow> fw_wf fw'"
proof -
  assume wf: "fw_wf fw"
  have a: "fw_wf fw'" if "fw_add r fw = Some (b, fw')" for r b using fw_add_spec [OF wf, of r] that by auto
  have d: "fw_wf fw'" if "fw_delete n fw = Some (b, fw')" for n b using fw_delete_spec [OF wf, of n] that by auto
  have "fw_wf (fw\<lparr>fw_enabled := b\<rparr>)" "fw_wf (fw\<lparr>fw_defaults := (fw_defaults fw)[k := b]\<rparr>)" for b k
    using wf by (simp_all add: fw_wf_def)
  moreover assume "fw_edit fw fw'"
  ultimately show ?thesis using wf a d fw_reset_wf(1) unfolding fw_edit_def by blast
qed

text \<open>The state after a command: only the firewall changed, by one edit.\<close>

definition edited :: "('m, 'h) net_env \<Rightarrow> ('m, 'h) net_state \<Rightarrow> ('m, 'h) net_state \<Rightarrow> bool" where
  "edited env s s' \<longleftrightarrow> net_wf env s' \<and> fw_edit (fw_of s) (fw_of s') \<and> s' = s\<lparr>ns_fw := ns_fw s'\<rparr> \<and>
     fs_maps (ns_fw s') = fs_maps (ns_fw s) \<and> fs_stats (ns_fw s') = fs_stats (ns_fw s)"

lemma edited_refl: "net_wf env s \<Longrightarrow> edited env s s"
  by (simp add: edited_def fw_edit_def)

lemma edited_set_fw: "net_wf env s \<Longrightarrow> fw_edit (fw_of s) fw \<Longrightarrow> edited env s (set_fw s fw)"
  using fw_edit_wf [of "fw_of s" fw] by (simp add: edited_def set_fw_def net_wf_def fw_state_wf_def)

lemma bpf_ready_ok:
  assumes "net_wf env s"
  shows "\<exists>ready s'. bpf_ready env s = Some (ready, s') \<and> edited env s s' \<and> fw_of s' = fw_of s"
proof -
  have w: "fw_state_wf (en_policy env) (en_xdp env) (ns_fw s)" using assms by (simp add: net_wf_def)
  from fw_bpf_ready_spec [OF w] obtain ready fw where
    fw: "fw_bpf_ready (en_policy env) (en_xdp env) (ns_fw s) = Some (ready, fw)" "fw_state_wf (en_policy env) (en_xdp env) fw"
    "fs_fw fw = fs_fw (ns_fw s)" "fs_maps fw = fs_maps (ns_fw s)" "fs_stats fw = fs_stats (ns_fw s)" by blast
  have "edited env s (s\<lparr>ns_fw := fw\<rparr>)" using assms fw(2-5) by (simp add: edited_def net_wf_def fw_edit_def)
  then show ?thesis using fw(1,3) by (simp add: bpf_ready_def)
qed

lemma edited_switch: "edited env s t \<Longrightarrow> fw_of t = fw_of s \<Longrightarrow> edited env s (set_fw t ((fw_of t)\<lparr>fw_enabled := b\<rparr>))"
  by (cases s; cases t) (auto simp: edited_def set_fw_def net_wf_def fw_state_wf_def fw_wf_def fw_edit_def)

section \<open>Printing never fails\<close>

text \<open>
  The console as the commands see it: writing a C string succeeds and keeps an invariant of the device. The
  commands are shown to be defined against this interface; the console and a plain log provide it.
\<close>

locale console_writer =
  fixes sys_write :: "bytes \<Rightarrow> 'd \<Rightarrow> 'd option" and dev_ok :: "'d \<Rightarrow> bool"
  assumes write_ok: "dev_ok d \<Longrightarrow> is_cstr t \<Longrightarrow> \<exists>d'. sys_write t d = Some d' \<and> dev_ok d'"
begin

definition prints :: "'d option \<Rightarrow> bool" where
  "prints r \<longleftrightarrow> (\<exists>d'. r = Some d' \<and> dev_ok d')"

lemma prints_Some [intro!]: "dev_ok d \<Longrightarrow> prints (Some d)"
  by (simp add: prints_def)

lemma prints_bind [intro!]: "prints m \<Longrightarrow> (\<And>d. dev_ok d \<Longrightarrow> prints (f d)) \<Longrightarrow> prints (Option.bind m f)"
  by (auto simp: prints_def)

lemma prints_if [intro!]: "(c \<Longrightarrow> prints m) \<Longrightarrow> (\<not> c \<Longrightarrow> prints n) \<Longrightarrow> prints (if c then m else n)"
  by simp

lemma prints_write [intro!]: "dev_ok d \<Longrightarrow> is_cstr t \<Longrightarrow> prints (sys_write t d)"
  using write_ok by (simp add: prints_def)

lemma prints_say [intro!]: "dev_ok d \<Longrightarrow> prints (say sys_write s d)"
  by (auto simp: say_def)

lemma prints_number [intro!]: "dev_ok d \<Longrightarrow> prints (net_print_number sys_write n d)"
  by (auto simp: net_print_number_spec is_cstr_def)

lemma prints_ip_loop: "dev_ok d \<Longrightarrow> prints (print_ip_loop sys_write ip i d)"
proof (induction "4 - i" arbitrary: i d)
  case 0
  then show ?case by (subst print_ip_loop.simps) auto
next
  case (Suc n)
  have n: "n = 4 - (i + 1)" using Suc(2) by simp
  show ?case using Suc(3) Suc(1) [OF n] by (subst print_ip_loop.simps) auto
qed

lemma prints_ip [intro!]: "dev_ok d \<Longrightarrow> prints (net_print_ip sys_write ip d)"
  by (simp add: net_print_ip_def prints_ip_loop)

lemma prints_cidr [intro!]: "dev_ok d \<Longrightarrow> prints (cidr sys_write ip msk d)"
  by (auto simp: cidr_def)

lemma prints_rule [intro!]: "dev_ok d \<Longrightarrow> prints (print_rule sys_write n r d)"
  unfolding print_rule_def by auto

lemma prints_status_loop: "fw_wf fw \<Longrightarrow> dev_ok d \<Longrightarrow> prints (status_loop sys_write fw i d)"
proof (induction "fw_count fw - i" arbitrary: i d)
  case 0
  then show ?case by (subst status_loop.simps) auto
next
  case (Suc n)
  have l: "i < length (fw_rules fw)" "i < fw_count fw" using Suc(2,3) unfolding fw_wf_def by linarith+
  have n: "n = fw_count fw - (i + 1)" using Suc(2) by simp
  show ?case using Suc(4) l Suc(1) [OF n Suc(3)] by (subst status_loop.simps) (auto simp: rd_Some)
qed

lemma prints_status: "fw_wf fw \<Longrightarrow> dev_ok d \<Longrightarrow> prints (fw_status sys_write fw d)"
  unfolding fw_status_def fw_wf_def by (auto simp: rd_Some fw_wf_def intro!: prints_status_loop)

lemma prints_stats_loop: "fw_wf fw \<Longrightarrow> dev_ok d \<Longrightarrow> prints (stats_loop sys_write fw k d)"
proof (induction "2 - k" arbitrary: k d)
  case 0
  then show ?case by (subst stats_loop.simps) auto
next
  case (Suc n)
  have l: "k < length (fw_allowed fw)" "k < length (fw_denied fw)" "k < 2" using Suc(2,3) by (simp_all add: fw_wf_def)
  have n: "n = 2 - (k + 1)" using Suc(2) by simp
  show ?case using Suc(4) l(3) Suc(1) [OF n Suc(3)] by (subst stats_loop.simps) (auto simp: rd_Some [OF l(1)] rd_Some [OF l(2)])
qed

lemma prints_stats: "fw_wf (fs_fw s) \<Longrightarrow> dev_ok d \<Longrightarrow> prints (fw_stats sys_write s d)"
  unfolding fw_stats_def by (auto intro!: prints_stats_loop)

lemma prints_net_status: "dev_ok d \<Longrightarrow> prints (net_status sys_write n d)"
  unfolding net_status_def by auto

lemma prints_help: "dev_ok d \<Longrightarrow> prints (fw_help sys_write d)"
  unfolding fw_help_def by auto

text \<open>A command, and a part of the command table that may not match.\<close>

definition runs :: "('s \<Rightarrow> bool) \<Rightarrow> ('s \<times> 'd) option \<Rightarrow> bool" where
  "runs P r \<longleftrightarrow> (\<exists>s' d'. r = Some (s', d') \<and> dev_ok d' \<and> P s')"

definition tries :: "('s \<Rightarrow> bool) \<Rightarrow> ('s \<times> 'd) option option \<Rightarrow> bool" where
  "tries P r \<longleftrightarrow> (\<exists>x. r = Some x \<and> (\<forall>s' d'. x = Some (s', d') \<longrightarrow> dev_ok d' \<and> P s'))"

lemma runs_print: "prints m \<Longrightarrow> (\<And>d. dev_ok d \<Longrightarrow> runs P (f d)) \<Longrightarrow> runs P (Option.bind m f)"
  by (auto simp: prints_def)

lemma runs_after: "prints m \<Longrightarrow> P s \<Longrightarrow> runs P (do { d \<leftarrow> m; Some (s, d) })"
  by (auto simp: prints_def runs_def)

lemma tries_runs: "runs P m \<Longrightarrow> tries P (do { r \<leftarrow> m; Some (Some r) })"
  by (auto simp: runs_def tries_def)

lemma tries_after: "prints m \<Longrightarrow> P s \<Longrightarrow> tries P (do { d \<leftarrow> m; Some (Some (s, d)) })"
  by (auto simp: prints_def tries_def)

lemma tries_None: "tries P (Some None)"
  by (simp add: tries_def)

lemma runs_answer: "dev_ok d \<Longrightarrow> P s \<Longrightarrow> runs P (answer sys_write reply s d)"
  unfolding answer_def by (rule runs_after) auto

lemma runs_add:
  assumes "dev_ok d" "net_wf env s" "cidr_block (rl_source r) (rl_source_mask r)" "cidr_block (rl_destination r) (rl_destination_mask r)"
  shows "runs (edited env s) (add_command sys_write suffix r s d)"
proof -
  have "fw_wf (fw_of s)" using assms(2) by (simp add: net_wf_def fw_state_wf_def)
  from fw_add_spec [OF this, of r] obtain fw where fw: "fw_add r (fw_of s) = Some (length (fw_list (fw_of s)) < FW_RULES \<and> rule_ok r, fw)" by blast
  show ?thesis
  proof (cases "length (fw_list (fw_of s)) < FW_RULES \<and> rule_ok r")
    case True
    then have a: "fw_add r (fw_of s) = Some (True, fw)" using fw by simp
    then have "edited env s (set_fw s fw)" using assms True by (intro edited_set_fw) (auto simp: fw_edit_def)
    then show ?thesis using a assms(1) unfolding add_command_def by (auto intro!: runs_print runs_answer)
  next
    case False
    then show ?thesis using fw assms(1,2) unfolding add_command_def by (auto intro!: runs_answer edited_refl)
  qed
qed

end

section \<open>Parsing a rule\<close>

lemma action_ok: "nul_at buf k \<Longrightarrow> i \<le> k \<Longrightarrow> \<exists>r. action buf i = Some r"
  using text_is_ok [of buf k i "''allow''"] text_is_ok [of buf k i "''deny''"] by (auto simp: action_def)

lemma net_cidr_block: "net_cidr t = Some (Some (ip, msk)) \<Longrightarrow> cidr_block ip msk"
  using cidr_prefix_le by (auto simp: net_cidr_def cidr_block_def Option.bind_eq_Some_conv and.assoc split: option.splits)

lemma cidr_block_any [simp]: "cidr_block 0 0"
  unfolding cidr_block_def by (intro conjI exI [of _ 0]) (simp_all add: prefix_mask_def)

definition rule_cidr :: "FirewallRule \<Rightarrow> bool" where
  "rule_cidr r \<longleftrightarrow> cidr_block (rl_source r) (rl_source_mask r) \<and> cidr_block (rl_destination r) (rl_destination_mask r)"

lemma service_ok:
  assumes n: "nul_at buf k" "i \<le> k" and r: "rule_cidr rule"
  shows "\<exists>buf' p. service buf i rule = Some (buf', p) \<and> nul_at buf' k \<and> (\<forall>r. p = Some r \<longrightarrow> rule_cidr r)"
proof -
  obtain a1 a2 a3 a4 where a: "text_is buf i ''all'' = Some a1" "text_is buf i ''icmp'' = Some a2" "text_is buf i ''tcp'' = Some a3" "text_is buf i ''udp'' = Some a4"
    using text_is_ok [OF n] by metis
  obtain j where j: "find_slash buf i = Some j" "i \<le> j" "j \<le> k" using find_slash_ok [OF n] by blast
  note rj = nul_at_rd [OF n(1) j(3)]
  show ?thesis
  proof (cases "a1 \<or> a2 \<or> a3 \<or> a4 \<or> buf ! j = 0")
    case True
    then show ?thesis using a j(1) n r by (auto simp: service_def rj rule_cidr_def)
  next
    case False
    let ?b = "buf[j := 0]"
    have l: "j < length buf" "j \<noteq> k" using j(3) n(1) False by (auto simp: nul_at_def)
    have nb: "nul_at ?b k" "j + 1 \<le> k" using n(1) l(2) j(3) by simp_all
    obtain v where v: "net_number (drop i ?b) 65535 = Some v" using net_number_ok [OF nul_at_cstr [OF nb(1) n(2)]] by blast
    obtain t u where tu: "text_is ?b (j + 1) ''tcp'' = Some t" "text_is ?b (j + 1) ''udp'' = Some u" using text_is_ok [OF nb] by metis
    show ?thesis using False a j(1) l(1) v tu nb(1) r by (cases v) (auto simp: service_def rj wr_Some rule_cidr_def)
  qed
qed

lemma option_cidr_ok:
  assumes n: "nul_at buf k" "\<forall>x \<in> set w. x \<le> k" "i < length w" and o: "cidr_block (fst old) (snd old)"
  shows "\<exists>r. option_cidr buf w i old = Some r \<and> (\<forall>ip msk. r = Some (ip, msk) \<longrightarrow> cidr_block ip msk)"
proof -
  have wi: "w ! i \<le> k" using n(2,3) by simp
  obtain b where b: "word_is buf w i ''any'' = Some b" using text_is_ok [OF n(1) wi] n(3) by (auto simp: word_is_eq)
  obtain r where r: "net_cidr (drop (w ! i) buf) = Some r" using net_cidr_ok [OF nul_at_cstr [OF n(1) wi]] by blast
  show ?thesis using b r o n(3) net_cidr_block by (cases b) (auto simp: option_cidr_def rd_Some)
qed

lemma rule_options_ok:
  "nul_at buf k \<Longrightarrow> \<forall>x \<in> set w. x \<le> k \<Longrightarrow> rule_cidr rule \<Longrightarrow>
   \<exists>p. rule_options buf w i f t rule = Some p \<and> (\<forall>r. p = Some r \<longrightarrow> rule_cidr r)"
proof (induction "length w - i" arbitrary: i f t rule rule: less_induct)
  case less
  show ?case
  proof (cases "i + 1 < length w")
    case False
    then show ?thesis using less.prems(3) by (subst rule_options.simps) auto
  next
    case True
    then have l: "i < length w" "i + 1 < length w" "w ! i \<le> k" using less.prems(2) by simp_all
    obtain a b where ab: "word_is buf w i ''from'' = Some a" "word_is buf w i ''to'' = Some b"
      using text_is_ok [OF less.prems(1) l(3)] l(1) by (metis word_is_eq)
    obtain x where x: "option_cidr buf w (i + 1) (rl_source rule, rl_source_mask rule) = Some x" "\<And>ip msk. x = Some (ip, msk) \<Longrightarrow> cidr_block ip msk"
      using option_cidr_ok [OF less.prems(1,2) l(2), of "(rl_source rule, rl_source_mask rule)"] less.prems(3) by (auto simp: rule_cidr_def)
    obtain y where y: "option_cidr buf w (i + 1) (rl_destination rule, rl_destination_mask rule) = Some y" "\<And>ip msk. y = Some (ip, msk) \<Longrightarrow> cidr_block ip msk"
      using option_cidr_ok [OF less.prems(1,2) l(2), of "(rl_destination rule, rl_destination_mask rule)"] less.prems(3) by (auto simp: rule_cidr_def)
    have dec: "length w - (i + 2) < length w - i" using l by simp
    have fr: "\<exists>p. rule_options buf w (i + 2) True t (rule\<lparr>rl_source := ip, rl_source_mask := msk\<rparr>) = Some p \<and> (\<forall>r. p = Some r \<longrightarrow> rule_cidr r)"
      if "x = Some (ip, msk)" for ip msk
      by (rule less.hyps [OF dec less.prems(1,2)]) (use that x(2) less.prems(3) in \<open>simp add: rule_cidr_def\<close>)
    have to: "\<exists>p. rule_options buf w (i + 2) f True (rule\<lparr>rl_destination := ip, rl_destination_mask := msk\<rparr>) = Some p \<and> (\<forall>r. p = Some r \<longrightarrow> rule_cidr r)"
      if "y = Some (ip, msk)" for ip msk
      by (rule less.hyps [OF dec less.prems(1,2)]) (use that y(2) less.prems(3) in \<open>simp add: rule_cidr_def\<close>)
    show ?thesis using l(1,2) ab x(1) y(1) fr to by (subst rule_options.simps) (auto split: option.split)
  qed
qed

lemma parse_rule_ok:
  assumes n: "nul_at buf k" "\<forall>x \<in> set w. x \<le> k" "2 \<le> length w"
  shows "\<exists>p. parse_rule buf w allow = Some p \<and> (\<forall>r. p = Some r \<longrightarrow> rule_cidr r)"
proof -
  have w1: "w ! 1 \<le> k" "1 < length w" using n(2,3) by simp_all
  obtain a b where ab: "word_is buf w 1 ''in'' = Some a" "word_is buf w 1 ''out'' = Some b"
    using text_is_ok [OF n(1) w1(1)] w1(2) by (metis word_is_eq)
  define rule where "rule = zero_native\<lparr>rl_allow := allow, rl_direction := (if a then 0 else if b then 1 else 0)\<rparr>"
  define i :: nat where "i = (if a \<or> b then 2 else 1)"
  have rc: "rule_cidr rule" by (simp add: rule_def rule_cidr_def zero_native_def)
  show ?thesis
  proof (cases "i < length w")
    case False
    then show ?thesis using ab by (simp add: parse_rule_def rule_def [symmetric] i_def [symmetric])
  next
    case True
    then have wi: "w ! i \<le> k" using n(2) by simp
    obtain buf' p where s: "service buf (w ! i) rule = Some (buf', p)" "nul_at buf' k" "\<And>r. p = Some r \<Longrightarrow> rule_cidr r"
      using service_ok [OF n(1) wi rc] by blast
    have e: "parse_rule buf w allow = (case p of None \<Rightarrow> Some None | Some r \<Rightarrow> rule_options buf' w (i + 1) False False r)"
      using ab True s(1) unfolding parse_rule_def by (cases a; cases b; cases p) (simp_all add: rule_def i_def Let_def rd_Some)
    show ?thesis unfolding e using s(3) rule_options_ok [OF s(2) n(2)] by (cases p) auto
  qed
qed

section \<open>Every command is an edit of the policy\<close>

context console_writer begin

lemma runs_enable:
  assumes "dev_ok d" "net_wf env s"
  shows "runs (edited env s) (enable_command sys_write env s d)"
proof -
  obtain ready t where t: "bpf_ready env s = Some (ready, t)" "edited env s t" "fw_of t = fw_of s" using bpf_ready_ok [OF assms(2)] by blast
  show ?thesis unfolding enable_command_def t(1)
    using assms(1) t(2) edited_switch [OF t(2,3), of True] by (cases ready) (simp_all add: runs_answer)
qed

lemma runs_bpf:
  assumes "dev_ok d" "net_wf env s" "is_cstr hash"
  shows "runs (edited env s) (bpf_command sys_write hash env s d)"
proof -
  obtain ready t where t: "bpf_ready env s = Some (ready, t)" "edited env s t" using bpf_ready_ok [OF assms(2)] by blast
  show ?thesis unfolding bpf_command_def t(1) bind.bind_lunit prod.case
    by (intro runs_print runs_answer prints_say prints_number prints_write assms t(2))
qed

lemma runs_doctor:
  assumes "dev_ok d" "net_wf env s"
  shows "runs (edited env s) (doctor_command sys_write env s d)"
proof -
  obtain ready t where t: "bpf_ready env s = Some (ready, t)" "edited env s t" using bpf_ready_ok [OF assms(2)] by blast
  show ?thesis unfolding doctor_command_def t(1) bind.bind_lunit prod.case
    by (intro runs_print runs_answer prints_say assms t(2))
qed

lemma runs_block:
  assumes "dev_ok d" "net_wf env s" "nul_at buf k" "i \<le> k"
  shows "runs (edited env s) (block_command sys_write buf i s d)"
proof -
  obtain r where r: "net_cidr (drop i buf) = Some r" using net_cidr_ok [OF nul_at_cstr [OF assms(3,4)]] by blast
  show ?thesis
  proof (cases r)
    case None
    then show ?thesis using r assms(1,2) by (simp add: block_command_def runs_answer edited_refl)
  next
    case (Some a)
    then show ?thesis using r assms(1,2) net_cidr_block [of "drop i buf"]
      by (cases a) (simp add: block_command_def runs_add zero_native_def)
  qed
qed

lemma runs_default:
  assumes "dev_ok d" "net_wf env s" "nul_at buf k" "w ! 2 \<le> k" "length w = 3"
  shows "runs (edited env s) (default_command sys_write buf w allow s d)"
proof -
  obtain a b where ab: "word_is buf w 2 ''incoming'' = Some a" "word_is buf w 2 ''outgoing'' = Some b"
    using text_is_ok [OF assms(3,4)] assms(5) by (metis word_is_eq lessI numeral_2_eq_2 numeral_3_eq_3)
  have l: "length (fw_defaults (fw_of s)) = 2" using assms(2) by (simp add: net_wf_def fw_state_wf_def fw_wf_def)
  have "fw_edit (fw_of s) ((fw_of s)\<lparr>fw_defaults := (fw_defaults (fw_of s))[j := allow]\<rparr>)" if "j < 2" for j
    using that unfolding fw_edit_def by blast
  then have e: "edited env s (set_fw s ((fw_of s)\<lparr>fw_defaults := (fw_defaults (fw_of s))[j := allow]\<rparr>))" if "j < 2" for j
    using that by (intro edited_set_fw assms(2)) simp
  show ?thesis using ab l e assms(1,2) by (simp add: default_command_def wr_Some runs_answer edited_refl)
qed

lemma runs_rule:
  assumes "dev_ok d" "net_wf env s" "nul_at buf k" "\<forall>x \<in> set w. x \<le> k" "2 \<le> length w"
  shows "runs (edited env s) (rule_command sys_write buf w allow s d)"
proof -
  obtain p where p: "parse_rule buf w allow = Some p" "\<And>r. p = Some r \<Longrightarrow> rule_cidr r" using parse_rule_ok [OF assms(3-5)] by blast
  show ?thesis using p assms(1,2) by (cases p) (simp_all add: rule_command_def runs_answer edited_refl runs_add rule_cidr_def)
qed

lemma runs_other:
  assumes "dev_ok d" "net_wf env s" "nul_at buf k" "\<forall>x \<in> set w. x \<le> k" "w \<noteq> []"
  shows "runs (edited env s) (fw_other sys_write buf w s d)"
proof (cases "length w < 2")
  case True
  then show ?thesis using assms(1,2) by (simp add: fw_other_def runs_answer edited_refl)
next
  case False
  have "w ! 0 \<le> k" using assms(4,5) by simp
  then obtain r where r: "action buf (w ! 0) = Some r" using action_ok [OF assms(3)] by blast
  show ?thesis using False r assms runs_rule [OF assms(1-4)]
    by (cases r) (simp_all add: fw_other_def rd_Some runs_answer edited_refl)
qed

lemma tries_if: "tries P m \<Longrightarrow> tries P n \<Longrightarrow> tries P (if c then m else n)"
  by simp

lemma runs_if: "runs P m \<Longrightarrow> runs P n \<Longrightarrow> runs P (if c then m else n)"
  by simp

lemma tries_single:
  assumes "dev_ok d" "net_wf env s" "is_cstr hash" "nul_at buf k" "w ! 0 \<le> k" "length w = 1"
  shows "tries (edited env s) (fw_single sys_write hash env buf w s d)"
proof -
  have wf: "fw_wf (fw_of s)" using assms(2) by (simp add: net_wf_def fw_state_wf_def)
  have t: "\<exists>b. word_is buf w 0 x = Some b" for x using text_is_ok [OF assms(4,5)] assms(6) by (simp add: word_is_eq)
  obtain b1 b2 b3 b4 b5 b6 b7 b8 where b: "word_is buf w 0 ''help'' = Some b1" "word_is buf w 0 ''enable'' = Some b2" "word_is buf w 0 ''disable'' = Some b3"
    "word_is buf w 0 ''status'' = Some b4" "word_is buf w 0 ''stats'' = Some b5" "word_is buf w 0 ''bpf'' = Some b6" "word_is buf w 0 ''doctor'' = Some b7"
    "word_is buf w 0 ''reset'' = Some b8" using t by meson
  have e: "edited env s (set_fw s ((fw_of s)\<lparr>fw_enabled := False\<rparr>))" "edited env s (set_fw s fw_reset)"
    using assms(2) by (auto intro!: edited_set_fw simp: fw_edit_def)
  show ?thesis unfolding fw_single_def b bind.bind_lunit
    by (intro tries_if tries_None tries_after tries_runs prints_help prints_status prints_stats runs_enable runs_bpf runs_doctor runs_answer edited_refl e wf assms(1-3))
qed

lemma tries_pair:
  assumes "dev_ok d" "net_wf env s" "nul_at buf k" "\<forall>x \<in> set w. x \<le> k" "length w = 2"
  shows "tries (edited env s) (fw_pair sys_write buf w s d)"
proof -
  have wf: "fw_wf (fw_of s)" using assms(2) by (simp add: net_wf_def fw_state_wf_def)
  have w: "w ! 0 \<le> k" "w ! 1 \<le> k" "0 < length w" "1 < length w" using assms(4,5) by simp_all
  obtain b1 b2 b3 where b: "word_is buf w 0 ''status'' = Some b1" "word_is buf w 1 ''numbered'' = Some b2" "word_is buf w 0 ''delete'' = Some b3"
    using text_is_ok [OF assms(3) w(1)] text_is_ok [OF assms(3) w(2)] by (metis word_is_eq w(3,4))
  obtain v where v: "net_number (drop (w ! 1) buf) (of_nat FW_RULES) = Some v" using net_number_ok [OF nul_at_cstr [OF assms(3) w(2)]] by blast
  have del: "tries (edited env s) (do { (ok, fw) \<leftarrow> fw_delete n (fw_of s);
      if ok then do { r \<leftarrow> answer sys_write (line ''Rule deleted.'') (set_fw s fw) d; Some (Some r) } else Some None })" for n
  proof -
    obtain ok fw where fw: "fw_delete n (fw_of s) = Some (ok, fw)" using fw_delete_spec [OF wf, of n] by auto
    have "edited env s (set_fw s fw)" if ok using fw that by (intro edited_set_fw assms(2)) (auto simp: fw_edit_def)
    then show ?thesis using fw assms(1) by (cases ok) (simp_all add: tries_runs runs_answer tries_None)
  qed
  have r1: "rd w 1 = Some (w ! 1)" using w(4) by (simp add: rd_Some)
  show ?thesis unfolding fw_pair_def b bind.bind_lunit r1 v
    using prints_status [OF wf assms(1)] edited_refl [OF assms(2)] del
    by (cases v) (simp_all add: tries_after tries_None)
qed

lemma tries_triple:
  assumes "dev_ok d" "net_wf env s" "nul_at buf k" "\<forall>x \<in> set w. x \<le> k" "length w = 3"
  shows "tries (edited env s) (fw_triple sys_write buf w s d)"
proof -
  have w: "w ! 0 \<le> k" "w ! 1 \<le> k" "w ! 2 \<le> k" "0 < length w" "1 < length w" "2 < length w" using assms(4,5) by simp_all
  obtain b1 b2 b3 where b: "word_is buf w 0 ''block'' = Some b1" "word_is buf w 1 ''from'' = Some b2" "word_is buf w 0 ''default'' = Some b3"
    using text_is_ok [OF assms(3) w(1)] text_is_ok [OF assms(3) w(2)] by (metis word_is_eq w(4,5))
  obtain a where a: "action buf (w ! 1) = Some a" using action_ok [OF assms(3) w(2)] by blast
  have r: "rd w 1 = Some (w ! 1)" "rd w 2 = Some (w ! 2)" using w(5,6) by (simp_all add: rd_Some)
  show ?thesis unfolding fw_triple_def b bind.bind_lunit r a
    using runs_block [OF assms(1-3) w(3)] runs_default [OF assms(1-3) w(3) assms(5)]
    by (cases a) (simp_all add: tries_runs tries_None)
qed

lemma fw_command_runs:
  assumes "dev_ok d" "net_wf env s" "is_cstr hash" "is_cstr buf"
  shows "runs (edited env s) (fw_command sys_write hash env buf s d)"
proof -
  obtain k where k: "nul_at buf k" using nul_at_exists [OF assms(4)] by blast
  obtain buf' found where w: "words buf 10 = Some (buf', found)" "nul_at buf' k" "\<And>w. found = Some w \<Longrightarrow> \<forall>x \<in> set w. x \<le> k"
    using words_ok [OF k, of 10] by blast
  note er = edited_refl [OF assms(2)]
  show ?thesis
  proof (cases "found = None \<or> found = Some []")
    case True
    then show ?thesis using w(1) runs_answer [where P = "edited env s", OF assms(1) er] runs_after [where P = "edited env s", OF prints_help [OF assms(1)] er]
      by (auto simp: fw_command_def)
  next
    case False
    then obtain v where v: "found = Some v" "v \<noteq> []" by auto
    note wk = w(3) [OF v(1)]
    have v0: "v ! 0 \<le> k" using wk v(2) by simp
    define r where "r = (if length v = 1 then fw_single sys_write hash env buf' v s d else if length v = 2 then fw_pair sys_write buf' v s d
      else if length v = 3 then fw_triple sys_write buf' v s d else Some None)"
    have "tries (edited env s) r"
      using tries_single [OF assms(1-3) w(2) v0] tries_pair [OF assms(1,2) w(2) wk] tries_triple [OF assms(1,2) w(2) wk] by (simp add: r_def tries_None)
    then obtain x where x: "r = Some x" "\<And>s' d'. x = Some (s', d') \<Longrightarrow> dev_ok d' \<and> edited env s s'" by (auto simp: tries_def)
    have "fw_command sys_write hash env buf s d = (case x of Some y \<Rightarrow> Some y | None \<Rightarrow> fw_other sys_write buf' v s d)"
      using w(1) v x(1) by (simp add: fw_command_def r_def)
    then show ?thesis using x(2) runs_other [OF assms(1,2) w(2) wk v(2)] by (cases x) (auto simp: runs_def)
  qed
qed

end

section \<open>The network command keeps the network well formed\<close>

context console_writer begin

lemma net_command_runs:
  assumes "dev_ok d" "net_wf env s" "tcp_alive s" "abi_wf (en_abi env)" "is_cstr buf"
  shows "runs (\<lambda>t. net_ok env s (Some t)) (net_command sys_write env buf s d)"
proof -
  obtain k where k: "nul_at buf k" using nul_at_exists [OF assms(5)] by blast
  obtain buf' found where w: "words buf 3 = Some (buf', found)" "nul_at buf' k" "\<And>w. found = Some w \<Longrightarrow> \<forall>x \<in> set w. x \<le> k"
    using words_ok [OF k, of 3] by blast
  note ok = net_ok_refl [OF assms(2,3)]
  have matched: "\<exists>b. word_is buf' v n x = Some b" if "found = Some v" "n < length v" for v n x
    using text_is_ok [OF w(2), of "v ! n"] w(3) [OF that(1)] that(2) by (simp add: word_is_eq)
  have usage: "runs (\<lambda>t. net_ok env s (Some t)) (answer sys_write net_usage s d)" by (rule runs_answer [where P = "\<lambda>t. net_ok env s (Some t)", OF assms(1) ok])
  show ?thesis
  proof (cases found)
    case None
    then show ?thesis using w(1) usage by (simp add: net_command_def)
  next
    case (Some v)
    have one: "runs (\<lambda>t. net_ok env s (Some t)) (net_single sys_write env buf' v s d)" if l: "length v = 1"
    proof -
      obtain b1 b2 b3 where b: "word_is buf' v 0 ''status'' = Some b1" "word_is buf' v 0 ''up'' = Some b2" "word_is buf' v 0 ''down'' = Some b3"
        using matched [OF Some, of 0 "''status''"] matched [OF Some, of 0 "''up''"] matched [OF Some, of 0 "''down''"] l by auto
      obtain r s1 where up: "rtl_up env s = Some (r, s1)" "net_ok env s (Some s1)" using rtl_up_ok [OF ok] by (auto simp: net_ok_with_def)
      obtain s2 where down: "rtl_down env s = Some s2" "net_ok env s (Some s2)" using rtl_down_ok [OF ok assms(4)] by (auto simp: net_ok_def)
      show ?thesis unfolding net_single_def b up(1) down(1) bind.bind_lunit prod.case
        by (intro runs_if runs_after prints_net_status runs_answer assms(1) ok up(2) down(2))
    qed
    have two: "runs (\<lambda>t. net_ok env s (Some t)) (echo_command sys_write buf' v s d)" if l: "length v = 2"
    proof -
      obtain b1 b2 b3 where b: "word_is buf' v 0 ''echo'' = Some b1" "word_is buf' v 1 ''on'' = Some b2" "word_is buf' v 1 ''off'' = Some b3"
        using matched [OF Some, of 0 "''echo''"] matched [OF Some, of 1 "''on''"] matched [OF Some, of 1 "''off''"] l by auto
      show ?thesis unfolding echo_command_def b bind.bind_lunit
        by (intro runs_if runs_answer assms(1) ok net_ok_fields(1) [OF ok])
    qed
    have status: "runs (\<lambda>t. net_ok env s (Some t)) (do { d \<leftarrow> net_status sys_write (ns_net s) d; Some (s, d) })"
      by (rule runs_after [where P = "\<lambda>t. net_ok env s (Some t)", OF prints_net_status [OF assms(1)] ok])
    show ?thesis unfolding net_command_def w(1) Some bind.bind_lunit prod.case option.case
      using status one two usage by (simp only: split: if_split) blast
  qed
qed

lemma larp_command_prints: "dev_ok d \<Longrightarrow> is_cstr buf \<Longrightarrow> (\<And>t. failure = Some t \<Longrightarrow> is_cstr t) \<Longrightarrow> prints (larp_command sys_write failure buf d)"
proof -
  assume d: "dev_ok d" and b: "is_cstr buf" and f: "\<And>t. failure = Some t \<Longrightarrow> is_cstr t"
  obtain x y where xy: "strcmp buf (ascii ''test'') = Some x" "strcmp buf (ascii ''status'') = Some y"
    using strcmp_cstr [OF b ascii_is_cstr] by metis
  obtain c where c: "rd buf 0 = Some c" using b by (cases buf) (simp_all add: rd_def)
  show ?thesis unfolding larp_command_def xy c bind.bind_lunit
    using d f by (cases failure) auto
qed

end

section \<open>The providers\<close>

text \<open>The console, and a transcript of what was written.\<close>

definition transcript :: "bytes \<Rightarrow> bytes \<Rightarrow> bytes option" where
  "transcript t d = (if is_cstr t then Some (d @ cstr t) else None)"

interpretation screen: console_writer puts device_wf
  using puts_same by unfold_locales blast

interpretation log: console_writer transcript "\<lambda>_. True"
  by unfold_locales (simp add: transcript_def)

section \<open>The commands on the console\<close>

text \<open>C32: a firewall command never leaves its text, and edits the policy at most once. For every NUL-terminated text,
  well-formed network and console in order, the command comes back with the console in order; in the network only the
  firewall changed, its counters and maps did not, and its policy changed by nothing, by the enable flag, one default,
  a reset, the deletion of one rule or the addition of one well-formed rule on CIDR blocks.\<close>

theorem fw_command_edits:
  assumes "device_wf d" "net_wf env s" "is_cstr hash" "is_cstr arguments"
  shows "\<exists>s' d'. fw_command puts hash env arguments s d = Some (s', d') \<and> device_wf d' \<and> net_wf env s' \<and>
    fw_edit (fw_of s) (fw_of s') \<and> s' = s\<lparr>ns_fw := ns_fw s'\<rparr> \<and> fs_maps (ns_fw s') = fs_maps (ns_fw s) \<and> fs_stats (ns_fw s') = fs_stats (ns_fw s)"
  using screen.fw_command_runs [OF assms] by (auto simp: screen.runs_def edited_def)

theorem fw_command_edits_witness:
  "\<exists>s' d'. fw_command puts [0] sample_env (ascii ''deny in udp'') sample_net demo_device = Some (s', d') \<and> device_wf d' \<and> net_wf sample_env s' \<and>
    fw_edit (fw_of sample_net) (fw_of s') \<and> s' = sample_net\<lparr>ns_fw := ns_fw s'\<rparr> \<and> fs_maps (ns_fw s') = fs_maps (ns_fw sample_net) \<and>
    fs_stats (ns_fw s') = fs_stats (ns_fw sample_net)"
proof -
  have h: "is_cstr [0]" by simp
  show ?thesis by (rule fw_command_edits [OF demo_device_wf sample_net_wf(1) h ascii_is_cstr])
qed

lemma net_command_keeps:
  assumes "device_wf d" "net_wf env s" "tcp_alive s" "abi_wf (en_abi env)" "is_cstr arguments"
  shows "\<exists>s' d'. net_command puts env arguments s d = Some (s', d') \<and> device_wf d' \<and> net_ok env s (Some s')"
  using screen.net_command_runs [OF assms] by (auto simp: screen.runs_def)

end
