(* ===== verification/App_Console.thy ===== *)
theory App_Console
  imports Command
begin

text \<open>
  What the applications rely on of the console: a text written to it is what appears on its log. The interface extends
  the one of \<open>Command\<close> by the log; it is interpreted on the console of \<open>Console\<close>, whose log is the serial line, and on a
  transcript. With it, texts compared with literals and numbers read and printed.
\<close>

section \<open>Texts\<close>

text \<open>The bytes of a text determine it, and only the NUL character becomes the byte 0.\<close>

definition text_of :: "string \<Rightarrow> bytes" where
  "text_of s = map of_char s"

lemma of_char_byte_inj: "of_char c = (of_char e :: u8) \<Longrightarrow> c = e"
proof -
  assume "of_char c = (of_char e :: u8)"
  then have "(of_nat (of_char c) :: u8) = of_nat (of_char e)" by (simp only: of_nat_of_char)
  then have "(of_char c :: nat) mod 256 = of_char e mod 256" by (simp only: word_of_nat_eq_iff) (simp add: take_bit_eq_mod)
  then have "(of_char c :: nat) = of_char e" by (simp only: of_char_mod_256)
  then show "c = e" by (metis char_of_char)
qed

lemma text_of_eq [simp]: "text_of s = text_of t \<longleftrightarrow> s = t"
  using inj_map_eq_map [of "of_char :: char \<Rightarrow> u8"] of_char_byte_inj by (simp add: text_of_def inj_def)

definition plain :: "string \<Rightarrow> bool" where
  "plain s \<longleftrightarrow> CHR 0x00 \<notin> set s"

lemma text_of_no_nul: "plain s \<Longrightarrow> 0 \<notin> set (text_of s)"
proof -
  have "c = CHR 0x00" if "of_char c = (0 :: u8)" for c by (rule of_char_byte_inj) (simp add: that)
  moreover assume "plain s"
  ultimately show ?thesis unfolding text_of_def plain_def by fastforce
qed

lemma cstr_ascii: "plain s \<Longrightarrow> cstr (ascii s) = text_of s"
  using text_of_no_nul [of s] by (simp add: ascii_def text_of_def)

definition cstr_is :: "bytes \<Rightarrow> string \<Rightarrow> bool option" where
  "cstr_is s t = do { v \<leftarrow> strcmp s (ascii t); Some (v = 0) }"

lemma cstr_is_eq: "is_cstr s \<Longrightarrow> plain t \<Longrightarrow> cstr_is s t = Some (cstr s = text_of t)"
  using strcmp_cstr [OF _ ascii_is_cstr, of s t] by (auto simp: cstr_is_def cstr_ascii)

section \<open>The log of a console\<close>

locale logged_writer = console_writer sys_write dev_ok
  for sys_write :: "bytes \<Rightarrow> 'd \<Rightarrow> 'd option" and dev_ok :: "'d \<Rightarrow> bool" +
  fixes logged :: "'d \<Rightarrow> bytes" and shown :: "bytes \<Rightarrow> bytes"
  assumes write_log: "dev_ok d \<Longrightarrow> is_cstr t \<Longrightarrow> sys_write t d = Some d' \<Longrightarrow> logged d' = logged d @ shown (cstr t)"
    and shown_append: "shown (s @ t) = shown s @ shown t"
begin

text \<open>A computation that only prints the text \<open>t\<close>.\<close>

definition shows_text :: "bytes \<Rightarrow> 'd \<Rightarrow> 'd option \<Rightarrow> bool" where
  "shows_text t d r \<longleftrightarrow> (\<exists>d'. r = Some d' \<and> dev_ok d' \<and> logged d' = logged d @ shown t)"

lemma write_shows: "dev_ok d \<Longrightarrow> is_cstr t \<Longrightarrow> shows_text (cstr t) d (sys_write t d)"
  using write_ok write_log unfolding shows_text_def by blast

lemma say_shows: "dev_ok d \<Longrightarrow> plain s \<Longrightarrow> shows_text (text_of s) d (say sys_write s d)"
  using write_shows [of d "ascii s"] by (simp add: say_def cstr_ascii)

lemma shows_bind: "shows_text s d r \<Longrightarrow> (\<And>d. dev_ok d \<Longrightarrow> shows_text t d (f d)) \<Longrightarrow> shows_text (s @ t) d (Option.bind r f)"
  unfolding shows_text_def by (auto simp: shown_append) (metis append_assoc)

end

text \<open>The serial line carries a carriage return before every line feed.\<close>

definition serial_text :: "bytes \<Rightarrow> bytes" where
  "serial_text s = concat (map (\<lambda>c. if c = 10 then [13, 10] else [c]) s)"

lemma putc_serial: "putc c d = Some d' \<Longrightarrow> d_serial d' = d_serial d @ serial_text [c]"
  by (auto simp: putc_def serial_text_def Option.bind_eq_Some_conv)

lemma puts_serial: "puts s d = Some d' \<Longrightarrow> d_serial d' = d_serial d @ serial_text (cstr s)"
proof (induction s arbitrary: d)
  case (Cons c s)
  show ?case
  proof (cases "c = 0")
    case True
    then show ?thesis using Cons.prems by (simp add: serial_text_def)
  next
    case False
    then obtain d1 where d1: "putc c d = Some d1" "puts s d1 = Some d'" using Cons.prems by (auto simp: Option.bind_eq_Some_conv)
    show ?thesis using Cons.IH [OF d1(2)] putc_serial [OF d1(1)] False by (simp add: serial_text_def)
  qed
qed simp

interpretation serial: logged_writer puts device_wf d_serial serial_text
  by unfold_locales (simp_all add: puts_serial serial_text_def)

interpretation transcribed: logged_writer transcript "\<lambda>_. True" id id
  by unfold_locales (auto simp: transcript_def split: if_splits)

text \<open>Printing does not change what the input ports will hold.\<close>

definition on_ports :: "(nat \<Rightarrow> ports) \<Rightarrow> 'n device \<Rightarrow> bool" where
  "on_ports inp d \<longleftrightarrow> device_wf d \<and> d_ports d = inp"

interpretation typing: console_writer puts "on_ports inp" for inp
proof
  fix d :: "'n device" and t
  assume "on_ports inp d" "is_cstr t"
  then show "\<exists>d'. puts t d = Some d' \<and> on_ports inp d'" using puts_same [of d t] by (auto simp: on_ports_def same_input_def)
qed

section \<open>Numbers\<close>

lemma dec_int_cases:
  obtains ds where "dec_int n = (if n < 0 then 45 # ds else ds)" "ds \<noteq> []" "\<forall>c \<in> set ds. is_digit c" "dec_from 0 ds = nat \<bar>n\<bar>"
  using dec_digits_nonempty [of "nat \<bar>n\<bar>"] dec_digits_digit [of "nat \<bar>n\<bar>"] dec_from_digits [of "nat \<bar>n\<bar>"]
  by (intro that [of "dec_digits (nat \<bar>n\<bar>)"]) (auto simp: dec_int_def)

lemma dec_int_no_nul: "0 \<notin> set (dec_int n)"
  by (rule dec_int_cases [of n]) auto

lemma atoi_decimal:
  assumes "\<not> is_digit c" "\<bar>n\<bar> \<le> 2147483647"
  shows "atoi (dec_int n @ c # r) = Some n"
proof -
  obtain ds where d: "dec_int n = (if n < 0 then 45 # ds else ds)" "ds \<noteq> []" "\<forall>c \<in> set ds. is_digit c" "dec_from 0 ds = nat \<bar>n\<bar>"
    by (rule dec_int_cases)
  have "dec_from 0 ds \<le> 2147483647" using d(4) assms(2) by linarith
  then have l0: "atoi_loop (ds @ c # r) 0 = Some \<bar>n\<bar>" using atoi_loop_spec [OF d(3) assms(1), of r 0] d(4) by simp
  obtain e es where e: "ds = e # es" using d(2) by (cases ds) auto
  show ?thesis using l0 d(1,3) e by (auto simp: atoi_def)
qed

end
