(* ===== verification/Runtime.thy ===== *)
theory Runtime
  imports Syscalls
begin

text \<open>
  The string functions and the formatted output of the application runtime, \<^verbatim>\<open>src/jordyOS/ape/platform.c\<close>. As in
  \<open>Clib\<close> a \<^verbatim>\<open>char *\<close> is the list of bytes from the pointer on, and an access past the end is \<open>None\<close>. A returned
  pointer into the argument is its offset. The text of a double is an argument, since the sources' floating point
  arithmetic is not modelled.
\<close>

section \<open>String functions\<close>

fun memcmp :: "bytes \<Rightarrow> bytes \<Rightarrow> nat \<Rightarrow> int option" where
  "memcmp a b 0 = Some 0"
| "memcmp (x # a) (y # b) (Suc n) = (if x \<noteq> y then Some (int (unat x) - int (unat y)) else memcmp a b n)"
| "memcmp _ _ (Suc n) = None"

definition strcat :: "bytes \<Rightarrow> bytes \<Rightarrow> bytes option" where
  "strcat d s = do { n \<leftarrow> strlen d; strcpy d n s }"

fun strrchr_loop :: "bytes \<Rightarrow> u8 \<Rightarrow> nat \<Rightarrow> nat option \<Rightarrow> nat option option" where
  "strrchr_loop [] c i found = None"
| "strrchr_loop (x # s) c i found = (let found = (if x = c then Some i else found) in if x \<noteq> 0 then strrchr_loop s c (i + 1) found else Some found)"

definition strrchr :: "bytes \<Rightarrow> u8 \<Rightarrow> nat option option" where
  "strrchr s c = strrchr_loop s c 0 None"

text \<open>\<open>needle_at\<close> is the inner loop of \<^verbatim>\<open>strstr\<close>: whether it stopped at the end of the needle.\<close>

fun needle_at :: "bytes \<Rightarrow> bytes \<Rightarrow> bool option" where
  "needle_at s [] = None"
| "needle_at s (n # needle) =
     (if n = 0 then Some True else case s of [] \<Rightarrow> None | c # s \<Rightarrow> if c \<noteq> 0 \<and> n = c then needle_at s needle else Some False)"

fun strstr_loop :: "bytes \<Rightarrow> bytes \<Rightarrow> nat \<Rightarrow> nat option option" where
  "strstr_loop [] needle i = None"
| "strstr_loop (c # s) needle i = do {
     hit \<leftarrow> needle_at (c # s) needle;
     if hit then Some (Some i) else if c \<noteq> 0 then strstr_loop s needle (i + 1) else Some None }"

definition strstr :: "bytes \<Rightarrow> bytes \<Rightarrow> nat option option" where
  "strstr s needle = strstr_loop s needle 0"

fun in_reject :: "u8 \<Rightarrow> bytes \<Rightarrow> bool option" where
  "in_reject c [] = None"
| "in_reject c (r # refuse) = (if r = 0 then Some False else if c = r then Some True else in_reject c refuse)"

fun strcspn_loop :: "bytes \<Rightarrow> bytes \<Rightarrow> nat \<Rightarrow> nat option" where
  "strcspn_loop [] refuse n = None"
| "strcspn_loop (c # s) refuse n =
     (if c = 0 then Some n else do { hit \<leftarrow> in_reject c refuse; if hit then Some n else strcspn_loop s refuse (n + 1) })"

definition strcspn :: "bytes \<Rightarrow> bytes \<Rightarrow> nat option" where
  "strcspn s refuse = strcspn_loop s refuse 0"

definition isspace :: "int \<Rightarrow> bool" where "isspace c \<longleftrightarrow> c = 32 \<or> (c \<ge> 9 \<and> c \<le> 13)"
definition isdigit :: "int \<Rightarrow> bool" where "isdigit c \<longleftrightarrow> c \<ge> 48 \<and> c \<le> 57"
definition isalpha :: "int \<Rightarrow> bool" where "isalpha c \<longleftrightarrow> (c \<ge> 97 \<and> c \<le> 122) \<or> (c \<ge> 65 \<and> c \<le> 90)"
definition isalnum :: "int \<Rightarrow> bool" where "isalnum c \<longleftrightarrow> isalpha c \<or> isdigit c"

section \<open>Keys\<close>

text \<open>The name of a key code; a character is the one-character text.\<close>

definition key_text :: "u8 \<Rightarrow> bytes" where
  "key_text c =
     (if c = 0x11 then ascii ''left'' else if c = 0x12 then ascii ''right'' else if c = 0x13 then ascii ''up''
      else if c = 0x14 then ascii ''down'' else if c = 27 then ascii ''escape'' else if c = 10 then ascii ''enter'' else [c, 0])"

definition ape_key :: "('n \<Rightarrow> 'n) \<Rightarrow> 'n device \<Rightarrow> bytes \<times> 'n device" where
  "ape_key rtl_poll d = (let (c, d) = poll_ch rtl_poll d in (key_text c, d))"

section \<open>Formatted output\<close>

record Output =
  o_data :: bytes
  o_capacity :: nat
  o_used :: nat

text \<open>The counter is of type \<^verbatim>\<open>size_t\<close>.\<close>

definition emit :: "Output \<Rightarrow> u8 \<Rightarrow> Output option" where
  "emit out c = (let used = (o_used out + 1) mod 2 ^ 64 in do {
     out \<leftarrow> (if used < o_capacity out then do { d \<leftarrow> wr (o_data out) (o_used out) c; Some (out\<lparr>o_data := d\<rparr>) } else Some out);
     Some (out\<lparr>o_used := used\<rparr>) })"

primrec emit_all :: "Output \<Rightarrow> bytes \<Rightarrow> Output option" where
  "emit_all out [] = Some out"
| "emit_all out (c # s) = do { out \<leftarrow> emit out c; emit_all out s }"

text \<open>\<^verbatim>\<open>precision--\<close> is a signed decrement.\<close>

fun emit_text :: "Output \<Rightarrow> bytes \<Rightarrow> int \<Rightarrow> Output option" where
  "emit_text out [] precision = None"
| "emit_text out (c # s) precision =
     (if c = 0 then Some out
      else if precision = 0 then Some out
      else if precision - 1 < -2147483648 then None
      else do { out \<leftarrow> emit out c; emit_text out s (precision - 1) })"

function integer_digits :: "u64 \<Rightarrow> bytes \<Rightarrow> nat \<Rightarrow> (bytes \<times> nat) option" where
  "integer_digits n buffer i = do {
     buffer \<leftarrow> wr buffer i (48 + ucast (n mod 10));
     if n div 10 \<noteq> 0 then integer_digits (n div 10) buffer (i + 1) else Some (buffer, i + 1) }"
  by pat_completeness auto
termination
proof (relation "measure (\<lambda>(n, buffer, i). unat n)")
  fix n :: u64
  assume "n div 10 \<noteq> 0"
  then have "0 < n div 10" by (simp add: word_gt_0)
  then have "unat n div 10 < unat n" by (simp add: word_less_nat_alt unat_div)
  then show "((n div 10, t', i + 1), n, t, i) \<in> measure (\<lambda>(n, buffer, i). unat n)" for t t' i
    by (simp add: unat_div)
qed simp

declare integer_digits.simps [simp del]

fun emit_back :: "Output \<Rightarrow> bytes \<Rightarrow> nat \<Rightarrow> Output option" where
  "emit_back out buffer 0 = Some out"
| "emit_back out buffer (Suc i) = do { c \<leftarrow> rd buffer i; out \<leftarrow> emit out c; emit_back out buffer i }"

definition emit_integer :: "Output \<Rightarrow> u64 \<Rightarrow> Output option" where
  "emit_integer out n = do { (buffer, i) \<leftarrow> integer_digits n (replicate 24 0) 0; emit_back out buffer i }"

text \<open>The variable arguments; one of another type than the conversion asks for is an error.\<close>

datatype 'f argument = Int_arg u32 | Long_arg u64 | Str_arg "bytes option" | Double_arg 'f

definition signed_text :: "Output \<Rightarrow> u64 \<Rightarrow> Output option" where
  "signed_text out n = do {
     out \<leftarrow> (if sint n < 0 then emit out 45 else Some out);
     emit_integer out (if sint n < 0 then 0 - n else n) }"

definition conversion :: "('f \<Rightarrow> bytes) \<Rightarrow> u8 \<Rightarrow> bool \<Rightarrow> int \<Rightarrow> Output \<Rightarrow> 'f argument list \<Rightarrow> (Output \<times> 'f argument list) option" where
  "conversion double_text k wide precision out args =
     (if k = 37 then do { out \<leftarrow> emit out 37; Some (out, args) }
      else if k = 115 then (case args of
          Str_arg s # args \<Rightarrow> do { out \<leftarrow> emit_text out (case s of Some s \<Rightarrow> s | None \<Rightarrow> ascii ''(null)'') precision; Some (out, args) }
        | _ \<Rightarrow> None)
      else if k = 99 then (case args of Int_arg c # args \<Rightarrow> do { out \<leftarrow> emit out (ucast c); Some (out, args) } | _ \<Rightarrow> None)
      else if k = 100 then (case args of
          Int_arg n # args \<Rightarrow> if wide then None else do { out \<leftarrow> signed_text out (scast n); Some (out, args) }
        | Long_arg n # args \<Rightarrow> if wide then do { out \<leftarrow> signed_text out n; Some (out, args) } else None
        | _ \<Rightarrow> None)
      else if k = 117 then (case args of
          Int_arg n # args \<Rightarrow> if wide then None else do { out \<leftarrow> emit_integer out (ucast n); Some (out, args) }
        | Long_arg n # args \<Rightarrow> if wide then do { out \<leftarrow> emit_integer out n; Some (out, args) } else None
        | _ \<Rightarrow> None)
      else if k = 103 then (case args of
          Double_arg v # args \<Rightarrow> do { out \<leftarrow> emit_all out (double_text v); Some (out, args) }
        | _ \<Rightarrow> None)
      else do { out \<leftarrow> emit out 63; Some (out, args) })"

definition precision_of :: "bytes \<Rightarrow> 'f argument list \<Rightarrow> (int \<times> bytes \<times> 'f argument list) option" where
  "precision_of f args =
     (case f of
        [] \<Rightarrow> None
      | c # g \<Rightarrow> if c \<noteq> 46 then Some (-1, f, args) else (case g of
            [] \<Rightarrow> None
          | s # h \<Rightarrow> if s \<noteq> 42 then Some (-1, g, args)
              else (case args of Int_arg p # args \<Rightarrow> Some (sint p, h, args) | _ \<Rightarrow> None)))"

lemma precision_of_length: "precision_of f args = Some (p, g, a) \<Longrightarrow> length g \<le> length f"
  by (auto simp: precision_of_def split: list.splits if_splits argument.splits)

definition width_of :: "bytes \<Rightarrow> (bool \<times> bytes) option" where
  "width_of f = (case f of [] \<Rightarrow> None | c # g \<Rightarrow> if c = 108 \<or> c = 122 then Some (True, g) else Some (False, f))"

lemma width_of_length: "width_of f = Some (w, g) \<Longrightarrow> length g \<le> length f"
  by (auto simp: width_of_def split: list.splits if_splits)

function format_loop :: "('f \<Rightarrow> bytes) \<Rightarrow> Output \<Rightarrow> bytes \<Rightarrow> 'f argument list \<Rightarrow> Output option" where
  "format_loop double_text out [] args = None"
| "format_loop double_text out (c # f) args =
     (if c = 0 then Some out
      else if c \<noteq> 37 then do { out \<leftarrow> emit out c; format_loop double_text out f args }
      else do {
        (precision, f, args) \<leftarrow> precision_of f args;
        (wide, f) \<leftarrow> width_of f;
        (case f of [] \<Rightarrow> None
         | k # f \<Rightarrow> do { (out, args) \<leftarrow> conversion double_text k wide precision out args; format_loop double_text out f args }) })"
  by pat_completeness auto
termination
  by (relation "measure (\<lambda>(show, out, f, args). length f)") (auto dest!: precision_of_length width_of_length)

declare format_loop.simps(2) [simp del]

text \<open>The counter is returned as an \<^verbatim>\<open>int\<close>, its low 32 bits.\<close>

definition vsnprintf :: "('f \<Rightarrow> bytes) \<Rightarrow> bytes \<Rightarrow> nat \<Rightarrow> bytes \<Rightarrow> 'f argument list \<Rightarrow> (bytes \<times> int) option" where
  "vsnprintf double_text buffer sz format args = do {
     out \<leftarrow> format_loop double_text \<lparr>o_data = buffer, o_capacity = sz, o_used = 0\<rparr> format args;
     b \<leftarrow> (if sz \<noteq> 0 then wr (o_data out) (if o_used out < sz then o_used out else sz - 1) 0 else Some (o_data out));
     Some (b, sint (of_nat (o_used out) :: u32)) }"

text \<open>The callers: \<^verbatim>\<open>printf\<close> writes to the console, \<^verbatim>\<open>sprintf\<close> into a buffer of unknown size.\<close>

definition printf :: "('f \<Rightarrow> bytes) \<Rightarrow> (bytes \<Rightarrow> 'd \<Rightarrow> 'd option) \<Rightarrow> bytes \<Rightarrow> 'f argument list \<Rightarrow> 'd \<Rightarrow> (int \<times> 'd) option" where
  "printf double_text sys_write format args d = do {
     (buffer, n) \<leftarrow> vsnprintf double_text (replicate 2048 0) 2048 format args;
     d \<leftarrow> sys_write buffer d;
     Some (n, d) }"

definition sprintf :: "('f \<Rightarrow> bytes) \<Rightarrow> bytes \<Rightarrow> bytes \<Rightarrow> 'f argument list \<Rightarrow> (bytes \<times> int) option" where
  "sprintf double_text buffer format args = vsnprintf double_text buffer (2 ^ 64 - 1) format args"

section \<open>The text a format stands for\<close>

text \<open>The reference: the text of every conversion, with decimal notation and prefixes of strings.\<close>

definition conversion_text :: "('f \<Rightarrow> bytes) \<Rightarrow> u8 \<Rightarrow> bool \<Rightarrow> int \<Rightarrow> 'f argument list \<Rightarrow> (bytes \<times> 'f argument list) option" where
  "conversion_text double_text k wide precision args =
     (if k = 37 then Some ([37], args)
      else if k = 115 then (case args of
          Str_arg s # args \<Rightarrow> (let t = (case s of Some s \<Rightarrow> s | None \<Rightarrow> ascii ''(null)'') in
            if is_cstr t \<and> length t < 2147483647 \<and> - 1 \<le> precision
            then Some (if precision < 0 then cstr t else take (nat precision) (cstr t), args) else None)
        | _ \<Rightarrow> None)
      else if k = 99 then (case args of Int_arg c # args \<Rightarrow> Some ([ucast c], args) | _ \<Rightarrow> None)
      else if k = 100 then (case args of
          Int_arg n # args \<Rightarrow> if wide then None else Some (dec_int (sint n), args)
        | Long_arg n # args \<Rightarrow> if wide then Some (dec_int (sint n), args) else None
        | _ \<Rightarrow> None)
      else if k = 117 then (case args of
          Int_arg n # args \<Rightarrow> if wide then None else Some (dec_digits (unat n), args)
        | Long_arg n # args \<Rightarrow> if wide then Some (dec_digits (unat n), args) else None
        | _ \<Rightarrow> None)
      else if k = 103 then (case args of Double_arg v # args \<Rightarrow> Some (double_text v, args) | _ \<Rightarrow> None)
      else Some ([63], args))"

function expand :: "('f \<Rightarrow> bytes) \<Rightarrow> bytes \<Rightarrow> 'f argument list \<Rightarrow> bytes option" where
  "expand double_text [] args = None"
| "expand double_text (c # f) args =
     (if c = 0 then Some []
      else if c \<noteq> 37 then do { t \<leftarrow> expand double_text f args; Some (c # t) }
      else do {
        (precision, f, args) \<leftarrow> precision_of f args;
        (wide, f) \<leftarrow> width_of f;
        (case f of [] \<Rightarrow> None
         | k # f \<Rightarrow> do { (t, args) \<leftarrow> conversion_text double_text k wide precision args; u \<leftarrow> expand double_text f args; Some (t @ u) }) })"
  by pat_completeness auto
termination
  by (relation "measure (\<lambda>(show, f, args). length f)") (auto dest!: precision_of_length width_of_length)

declare expand.simps(2) [simp del]

section \<open>Truncated output\<close>

text \<open>The state of the output after the text \<open>t\<close>: what fits is in front of the buffer, all of it is counted. While the
  counter can hold its length, an operation \<open>adds\<close> to the text.\<close>

definition printed_text :: "bytes \<Rightarrow> nat \<Rightarrow> bytes \<Rightarrow> Output \<Rightarrow> bool" where
  "printed_text b n t out \<longleftrightarrow> o_capacity out = n \<and> o_used out = length t \<and> o_data out = take (n - 1) t @ drop (min (length t) (n - 1)) b"

definition adds :: "bytes \<Rightarrow> nat \<Rightarrow> bytes \<Rightarrow> Output option \<Rightarrow> bool" where
  "adds b n t r \<longleftrightarrow> (length t < 2 ^ 64 \<longrightarrow> (\<exists>out. r = Some out \<and> printed_text b n t out))"

lemma adds_Some: "printed_text b n t out \<Longrightarrow> adds b n t (Some out)"
  by (simp add: adds_def)

lemma adds_bind: "adds b n t r \<Longrightarrow> (\<And>out. printed_text b n t out \<Longrightarrow> adds b n u (f out)) \<Longrightarrow> length t \<le> length u \<Longrightarrow> adds b n u (Option.bind r f)"
  by (auto simp: adds_def)

lemma emit_adds:
  assumes fits: "n \<le> length b" and "printed_text b n t out"
  shows "adds b n (t @ [c]) (emit out c)"
proof (cases "length t + 1 < 2 ^ 64")
  case False
  then show ?thesis by (simp add: adds_def)
next
  case small: True
  have f: "o_capacity out = n" "o_used out = length t" using assms(2) by (simp_all add: printed_text_def)
  have m: "(length t + 1) mod 2 ^ 64 = length t + 1" using small by simp
  show ?thesis
  proof (cases "length t + 1 < n")
    case True
    have d: "o_data out = t @ drop (length t) b" using assms(2) True by (simp add: printed_text_def)
    have l: "length t < length b" using True fits by simp
    have w: "wr (o_data out) (length t) c = Some (t @ [c] @ drop (length t + 1) b)"
      unfolding d using l by (simp add: wr_def list_update_append) (simp add: Cons_nth_drop_Suc [symmetric])
    have "emit out c = Some (out\<lparr>o_data := t @ [c] @ drop (length t + 1) b, o_used := length t + 1\<rparr>)"
      unfolding emit_def Let_def f m if_P [OF True] w by simp
    then show ?thesis using assms(2) True by (simp add: adds_def printed_text_def)
  next
    case False
    then have "emit out c = Some (out\<lparr>o_used := length t + 1\<rparr>)" unfolding emit_def Let_def f m by simp
    then show ?thesis using assms False by (simp add: adds_def printed_text_def)
  qed
qed

lemma emit_all_adds: "n \<le> length b \<Longrightarrow> printed_text b n t out \<Longrightarrow> adds b n (t @ s) (emit_all out s)"
proof (induction s arbitrary: t out)
  case Nil
  then show ?case by (simp add: adds_Some)
next
  case (Cons c s)
  from adds_bind [OF emit_adds [OF Cons.prems, of c], of "t @ c # s" "\<lambda>out. emit_all out s"] Cons.IH [OF Cons.prems(1), of "t @ [c]"] show ?case by simp
qed

lemma emit_text_adds:
  "n \<le> length b \<Longrightarrow> printed_text b n t out \<Longrightarrow> is_cstr s \<Longrightarrow> - 2147483647 + int (length s) \<le> precision + 1 \<or> 0 \<le> precision \<Longrightarrow>
   adds b n (t @ (if precision < 0 then cstr s else take (nat precision) (cstr s))) (emit_text out s precision)"
proof (induction out s precision arbitrary: t rule: emit_text.induct)
  case (2 out c s precision)
  show ?case
  proof (cases "c = 0 \<or> precision = 0")
    case True
    then show ?thesis using 2(3) by (auto simp: adds_Some)
  next
    case False
    have p: "\<not> precision - 1 < - 2147483648" using 2(5) by auto
    have q: "- 2147483647 + int (length s) \<le> precision - 1 + 1 \<or> 0 \<le> precision - 1" using 2(5) False by auto
    have cs: "is_cstr s" using 2(4) False by simp
    have "adds b n ((t @ [c]) @ (if precision - 1 < 0 then cstr s else take (nat (precision - 1)) (cstr s))) (emit_text out' s (precision - 1))"
      if e: "emit out c = Some out'" "printed_text b n (t @ [c]) out'" for out'
      by (rule 2(1) [OF _ _ p e(1) 2(2) e(2) cs q]) (use False in simp_all)
    then have "adds b n ((t @ [c]) @ (if precision - 1 < 0 then cstr s else take (nat (precision - 1)) (cstr s))) (do { out \<leftarrow> emit out c; emit_text out s (precision - 1) })"
      using emit_adds [OF 2(2,3), of c] by (auto simp: adds_def)
    moreover have "(t @ [c]) @ (if precision - 1 < 0 then cstr s else take (nat (precision - 1)) (cstr s)) =
        t @ (if precision < 0 then cstr (c # s) else take (nat precision) (cstr (c # s)))"
      using False by (auto simp: take_Cons' nat_diff_distrib)
    ultimately show ?thesis using False p by simp
  qed
qed simp

lemma integer_digits_spec:
  assumes "i + length (dec_digits (unat m)) \<le> length t"
  shows "integer_digits m t i = Some (take i t @ rev (dec_digits (unat m)) @ drop (i + length (dec_digits (unat m))) t,
    i + length (dec_digits (unat m)))"
  using assms
proof (induction m t i rule: integer_digits.induct)
  case (1 m t i)
  have i: "i < length t" using 1(2) dec_digits_nonempty [of "unat m"] by (cases "dec_digits (unat m)") auto
  have dig: "48 + ucast (m mod 10) = (48 + of_nat (unat m mod 10) :: u8)"
  proof -
    have "ucast (m mod 10) = (of_nat (unat (m mod 10)) :: u8)" by simp
    then show ?thesis by (simp add: unat_mod)
  qed
  have z: "m div 10 \<noteq> 0 \<longleftrightarrow> \<not> unat m < 10"
  proof -
    have u: "unat (m div 10) = unat m div 10" by (simp add: unat_div)
    have "m div 10 = 0 \<longleftrightarrow> unat m div 10 = 0" unfolding u [symmetric] by (simp only: unsigned_eq_0_iff)
    then show ?thesis by (simp add: div_eq_0_iff)
  qed
  show ?case
  proof (cases "unat m < 10")
    case False
    then have d: "dec_digits (unat m) = dec_digits (unat (m div 10)) @ [48 + of_nat (unat m mod 10)]"
      by (subst dec_digits.simps) (simp add: unat_div)
    let ?t = "t[i := 48 + ucast (m mod 10)]"
    have w: "wr t i (48 + ucast (m mod 10)) = Some ?t" using i by simp
    have "integer_digits m t i = integer_digits (m div 10) ?t (i + 1)"
      using False z i by (subst integer_digits.simps) (simp add: wr_def)
    also note "1.IH" [OF w]
    finally show ?thesis using 1(2) i d False z by (simp add: dig take_Suc_conv_app_nth)
  next
    case True
    then have "dec_digits (unat m) = [48 + of_nat (unat m mod 10)]" by (subst dec_digits.simps) simp
    then show ?thesis using True z i by (subst integer_digits.simps) (simp add: dig wr_def upd_conv_take_nth_drop)
  qed
qed

lemma emit_back_eq: "i \<le> length buf \<Longrightarrow> emit_back out buf i = emit_all out (rev (take i buf))"
  by (induction i arbitrary: out) (simp_all add: rd_Some take_Suc_conv_app_nth)

lemma emit_integer_adds:
  assumes "n \<le> length b" "printed_text b n t out"
  shows "adds b n (t @ dec_digits (unat v)) (emit_integer out v)"
proof -
  have "unat v < 10 ^ 20" using unat_lt_u64 [of v] by simp
  then have l: "length (dec_digits (unat v)) \<le> 20" using dec_digits_length [of "unat v" 20] by simp
  then have "emit_integer out v = emit_all out (dec_digits (unat v))"
    unfolding emit_integer_def by (subst integer_digits_spec) (simp_all add: emit_back_eq)
  then show ?thesis using emit_all_adds [OF assms] by simp
qed

lemma magnitude_64: "unat (if sint v < 0 then 0 - v else v) = nat \<bar>sint v\<bar>" for v :: u64
proof -
  let ?w = "if sint v < 0 then 0 - v else v"
  have "word_of_int (sint v) = v" by simp
  then have w: "?w = word_of_int \<bar>sint v\<bar>" by (metis abs_if diff_0 wi_hom_neg)
  have "- (2 ^ 63) \<le> sint v" "sint v < 2 ^ 63" using sint_greater_eq [of v] sint_less [of v] by simp_all
  then have "uint (word_of_int \<bar>sint v\<bar> :: u64) = \<bar>sint v\<bar>" by (simp add: uint_word_of_int)
  then show ?thesis unfolding w by (simp add: unat_eq_nat_uint)
qed

lemma signed_text_adds:
  assumes "n \<le> length b" "printed_text b n t out"
  shows "adds b n (t @ dec_int (sint v)) (signed_text out v)"
proof -
  have m: "unat (if sint v < 0 then 0 - v else v) = nat \<bar>sint v\<bar>" by (rule magnitude_64)
  show ?thesis
  proof (cases "sint v < 0")
    case False
    then show ?thesis using emit_integer_adds [OF assms, of v] m by (simp add: signed_text_def dec_int_def)
  next
    case True
    have "adds b n ((t @ [45]) @ dec_digits (nat (- sint v))) (emit_integer out' (0 - v))" if "printed_text b n (t @ [45]) out'" for out'
      using emit_integer_adds [OF assms(1) that, of "0 - v"] m True by simp
    then show ?thesis using True adds_bind [OF emit_adds [OF assms, of 45], of "t @ dec_int (sint v)"]
      by (simp add: signed_text_def dec_int_def)
  qed
qed

lemma emit_text_string:
  assumes "n \<le> length b" "printed_text b n t out" "is_cstr s" "length s < 2147483647" "- 1 \<le> p"
  shows "adds b n (t @ (if p < 0 then cstr s else take (nat p) (cstr s))) (emit_text out s p)"
  using emit_text_adds [OF assms(1-3), of p] assms(4,5) by auto

lemma scast_sint: "sint (scast n :: u64) = sint n" for n :: u32
proof -
  have "- (2 ^ 31) \<le> sint n" "sint n < 2 ^ 31" using sint_greater_eq [of n] sint_less [of n] by simp_all
  then show ?thesis by (simp add: signed_scast_eq signed_take_bit_int_eq_self_iff)
qed

lemma conversion_adds:
  assumes "n \<le> length b" "printed_text b n t out" "conversion_text double_text k wide p args = Some (u, rest)" "length (t @ u) < 2 ^ 64"
  shows "\<exists>out'. conversion double_text k wide p out args = Some (out', rest) \<and> printed_text b n (t @ u) out'"
proof -
  have one: "\<exists>out'. do { out \<leftarrow> r; Some (out, rest) } = Some (out', rest) \<and> printed_text b n (t @ u) out'" if "adds b n (t @ u) r" for r
    using that assms(4) by (auto simp: adds_def)
  note c = assms(3) [unfolded conversion_text_def]
  show ?thesis
  proof (cases "k = 115")
    case True
    then obtain s as where s: "args = Str_arg s # as" using c by (auto split: list.splits argument.splits)
    define str where "str = (case s of Some s \<Rightarrow> s | None \<Rightarrow> ascii ''(null)'')"
    have h: "is_cstr str" "length str < 2147483647" "- 1 \<le> p" "u = (if p < 0 then cstr str else take (nat p) (cstr str))" "rest = as"
      using c True s by (auto simp: str_def Let_def split: if_splits)
    show ?thesis using one [OF emit_text_string [OF assms(1,2) h(1-3), folded h(4)]] True s h(5) by (simp add: conversion_def str_def)
  next
    case False
    have narrow: "adds b n (t @ dec_int (sint v)) (signed_text out (scast v))" "adds b n (t @ dec_digits (unat v)) (emit_integer out (ucast v))" for v :: u32
      using signed_text_adds [OF assms(1,2), of "scast v"] emit_integer_adds [OF assms(1,2), of "ucast v"] by (simp_all add: scast_sint ucast_32_64_unat)
    show ?thesis using False
      using narrow c one emit_adds [OF assms(1,2)] emit_all_adds [OF assms(1,2)] emit_integer_adds [OF assms(1,2)] signed_text_adds [OF assms(1,2)]
      unfolding conversion_def
      by (auto split: list.splits argument.splits if_splits) 
  qed
qed

lemma format_adds:
  "n \<le> length b \<Longrightarrow> printed_text b n t out \<Longrightarrow> expand double_text f args = Some u \<Longrightarrow> adds b n (t @ u) (format_loop double_text out f args)"
proof (induction double_text f args arbitrary: t out u rule: expand.induct)
  case (2 double_text c f args)
  show ?case
  proof (cases "c = 0 \<or> c \<noteq> 37")
    case True
    show ?thesis
    proof (cases "c = 0")
      case True
      then show ?thesis using 2(4,5) by (simp add: format_loop.simps expand.simps adds_Some)
    next
      case False
      then obtain v where v: "expand double_text f args = Some v" "u = c # v" using 2(5) True by (auto simp: expand.simps Option.bind_eq_Some_conv)
      have "adds b n ((t @ [c]) @ v) (format_loop double_text out' f args)" if "printed_text b n (t @ [c]) out'" for out'
        by (rule 2(1) [OF _ _ 2(3) that v(1)]) (use False True in simp_all)
      then show ?thesis using False True v(2) adds_bind [OF emit_adds [OF 2(3,4), of c]] by (simp add: format_loop.simps)
    qed
  next
    case False
    obtain p g as where p: "precision_of f args = Some (p, g, as)" using 2(5) False by (auto simp: expand.simps Option.bind_eq_Some_conv)
    obtain w h where w: "width_of g = Some (w, h)" using 2(5) False p by (auto simp: expand.simps Option.bind_eq_Some_conv)
    obtain k h' where h: "h = k # h'" using 2(5) False p w by (cases h) (auto simp: expand.simps)
    obtain x as' y where x: "conversion_text double_text k w p as = Some (x, as')" "expand double_text h' as' = Some y" "u = x @ y"
      using 2(5) False p w h by (auto simp: expand.simps Option.bind_eq_Some_conv)
    show ?thesis
    proof (cases "length (t @ u) < 2 ^ 64")
      case True
      then have "length (t @ x) < 2 ^ 64" using x(3) by simp
      from conversion_adds [OF 2(3,4) x(1) this] obtain out' where o: "conversion double_text k w p out as = Some (out', as')" "printed_text b n (t @ x) out'" by blast
      have "adds b n ((t @ x) @ y) (format_loop double_text out' h' as')"
        by (rule 2(2) [OF _ _ p refl refl w refl h x(1) refl 2(3) o(2) x(2)]) (use False in simp_all)
      then show ?thesis using False p w h o(1) x(3) by (simp add: format_loop.simps)
    qed (simp add: adds_def)
  qed
qed simp

lemma vsnprintf_spec:
  assumes "expand double_text f args = Some t" "n \<le> length b" "length t < 2 ^ 64"
  shows "vsnprintf double_text b n f args =
    Some (if n = 0 then b else take (n - 1) t @ 0 # drop (min (length t) (n - 1) + 1) b, sint (of_nat (length t) :: u32))"
proof -
  have "printed_text b n [] \<lparr>o_data = b, o_capacity = n, o_used = 0\<rparr>" by (simp add: printed_text_def)
  from format_adds [OF assms(2) this assms(1)] obtain out where o: "format_loop double_text \<lparr>o_data = b, o_capacity = n, o_used = 0\<rparr> f args = Some out"
    "o_used out = length t" "o_data out = take (n - 1) t @ drop (min (length t) (n - 1)) b" using assms(3) by (auto simp: adds_def printed_text_def)
  show ?thesis
  proof (cases "n = 0")
    case True
    then show ?thesis using o by (simp add: vsnprintf_def)
  next
    case False
    let ?i = "min (length t) (n - 1)"
    have i: "(if o_used out < n then o_used out else n - 1) = ?i" "?i < length b" "length (take (n - 1) t) = ?i" using o(2) False assms(2) by auto
    have "wr (o_data out) ?i 0 = Some (take (n - 1) t @ 0 # drop (?i + 1) b)"
      unfolding o(3) using i(2) by (simp add: wr_def list_update_append min_def) (auto simp: Cons_nth_drop_Suc [symmetric])
    then show ?thesis unfolding vsnprintf_def o(1) bind.bind_lunit i(1) o(2) [symmetric]
      using False by (simp only: if_not_P if_P bind.bind_lunit simp_thms o(2) if_True if_False not_False_eq_True)
  qed
qed

section \<open>Searching\<close>

lemma needle_at_prefix: "is_cstr s \<Longrightarrow> is_cstr needle \<Longrightarrow> needle_at s needle = Some (\<exists>r. cstr s = cstr needle @ r)"
proof (induction s needle rule: needle_at.induct)
  case (2 s n needle)
  show ?case
  proof (cases "n = 0")
    case False
    obtain c r where s: "s = c # r" using 2(2) by (cases s) auto
    show ?thesis using 2(1) [OF False s] 2(2,3) s False by (cases "c \<noteq> 0 \<and> n = c") auto
  qed simp
qed simp

definition occurs :: "bytes \<Rightarrow> bytes \<Rightarrow> nat \<Rightarrow> bool" where
  "occurs s needle k \<longleftrightarrow> k \<le> length (cstr s) \<and> (\<exists>r. drop k (cstr s) = cstr needle @ r)"

lemma strstr_loop_spec:
  "is_cstr s \<Longrightarrow> is_cstr needle \<Longrightarrow> (strstr_loop s needle i = Some None \<and> (\<forall>k. \<not> occurs s needle k)) \<or>
   (\<exists>k. strstr_loop s needle i = Some (Some (i + k)) \<and> occurs s needle k \<and> (\<forall>j < k. \<not> occurs s needle j))"
proof (induction s arbitrary: i)
  case (Cons c s)
  have z: "occurs (c # s) needle 0 \<longleftrightarrow> (\<exists>r. cstr (c # s) = cstr needle @ r)" by (auto simp: occurs_def)
  note n = needle_at_prefix [OF Cons.prems]
  show ?case
  proof (cases "occurs (c # s) needle 0")
    case True
    then show ?thesis using n z by (intro disjI2 exI [of _ 0]) simp
  next
    case False
    show ?thesis
    proof (cases "c = 0")
      case True
      then show ?thesis using n z False by (auto simp: occurs_def)
    next
      case c: False
      have sh: "occurs (c # s) needle (Suc k) \<longleftrightarrow> occurs s needle k" for k using c by (simp add: occurs_def)
      have st: "strstr_loop (c # s) needle i = strstr_loop s needle (i + 1)" using n z False c by simp
      have cs: "is_cstr s" using Cons.prems(1) c by simp
      from Cons.IH [OF cs Cons.prems(2), of "i + 1"] show ?thesis
      proof (elim disjE exE conjE)
        assume "strstr_loop s needle (i + 1) = Some None" and no: "\<forall>k. \<not> occurs s needle k"
        moreover have "\<not> occurs (c # s) needle k" for k using False sh no by (cases k) auto
        ultimately show ?thesis using st by simp
      next
        fix k
        assume k: "strstr_loop s needle (i + 1) = Some (Some (i + 1 + k))" "occurs s needle k" "\<forall>j < k. \<not> occurs s needle j"
        have "\<not> occurs (c # s) needle j" if "j < Suc k" for j using that False sh k(3) by (cases j) auto
        then show ?thesis using st k(1,2) sh by (intro disjI2 exI [of _ "Suc k"]) auto
      qed
    qed
  qed
qed simp

lemma in_reject_spec: "is_cstr r \<Longrightarrow> in_reject c r = Some (c \<in> set (cstr r))"
  by (induction c r rule: in_reject.induct) auto

lemma strcspn_loop_spec: "is_cstr s \<Longrightarrow> is_cstr r \<Longrightarrow> strcspn_loop s r n = Some (n + length (takeWhile (\<lambda>c. c \<notin> set (cstr r)) (cstr s)))"
  by (induction s r n rule: strcspn_loop.induct) (auto simp: in_reject_spec)

lemma memcmp_spec: "n \<le> length a \<Longrightarrow> n \<le> length b \<Longrightarrow> \<exists>r. memcmp a b n = Some r \<and> (r = 0 \<longleftrightarrow> take n a = take n b)"
  by (induction a b n rule: memcmp.induct) (auto dest: unsigned_word_eqI)

section \<open>Properties\<close>

lemma sint_of_length: "n < 2147483648 \<Longrightarrow> sint (of_nat n :: u32) = int n"
  by (simp add: signed_of_nat signed_take_bit_int_eq_self_iff)

text \<open>C35: formatted output is truncated, never overflowed. When the format and its arguments fit together and the length of
  the whole text fits \<^verbatim>\<open>size_t\<close>, the formatter writes as much of the text (decimal numbers, characters, strings up to their
  precision) as the buffer of the given size holds, ends it with a NUL inside that size, and leaves the rest of the buffer
  alone. It returns the length of the whole text if that is an \<^verbatim>\<open>int\<close>, and otherwise the low 32 bits of the length.\<close>

theorem vsnprintf_truncates:
  assumes "expand double_text f args = Some t" "n \<le> length b" "length t < 2 ^ 64"
  shows "vsnprintf double_text b n f args =
    Some (if n = 0 then b else take (n - 1) t @ 0 # drop (min (length t) (n - 1) + 1) b,
      if length t < 2147483648 then int (length t) else sint (of_nat (length t) :: u32))"
  using vsnprintf_spec [OF assms] sint_of_length [of "length t"] by simp

theorem vsnprintf_truncates_witness:
  "expand (\<lambda>v :: unit. []) (ascii ''n=%d'') [Int_arg (- 5)] = Some [110, 61, 45, 53] \<and>
   vsnprintf (\<lambda>v :: unit. []) (replicate 6 9) 4 (ascii ''n=%d'') [Int_arg (- 5)] = Some ([110, 61, 45, 0, 9, 9], 4)"
proof -
  have e: "expand (\<lambda>v :: unit. []) (ascii ''n=%d'') [Int_arg (- 5)] = Some [110, 61, 45, 53]"
    by (simp add: ascii_def expand.simps precision_of_def width_of_def conversion_text_def dec_int_def dec_digits.simps)
  have l: "length [110, 61, 45, 53 :: u8] < 2 ^ 64" by simp
  have r: "replicate 6 (9 :: u8) = [9, 9, 9, 9, 9, 9]" by (simp add: numeral_eq_Suc)
  from vsnprintf_truncates [OF e _ l, of 4 "replicate 6 9"]
  have "vsnprintf (\<lambda>v :: unit. []) (replicate 6 9) 4 (ascii ''n=%d'') [Int_arg (- 5)] = Some ([110, 61, 45, 0, 9, 9], 4)"
    unfolding r by (simp add: take_Cons' drop_Cons')
  with e show ?thesis by blast
qed

end
