(* ===== verification/Runtime_Files.thy ===== *)
theory Runtime_Files
  imports Runtime
begin

text \<open>
  The files of the application runtime, \<^verbatim>\<open>src/jordyOS/ape/platform.c\<close>: a file is a growing buffer in the heap that
  \<^verbatim>\<open>fopen\<close> fills from the RAM file system and \<^verbatim>\<open>fclose\<close> writes back. What the heap answers is an argument: the
  block \<^verbatim>\<open>malloc\<close> returns with whatever bytes it holds, or none; and \<open>realloc\<close>, a function from a block and a
  size to the moved block, or none. The console streams are the kinds 1 and 2.
\<close>

section \<open>Files\<close>

record ApeFile =
  fl_data :: bytes
  fl_size :: nat
  fl_capacity :: nat
  fl_pos :: nat
  fl_out :: bool
  fl_kind :: nat
  fl_writable :: bool
  fl_name :: bytes

definition zero_file :: ApeFile where
  "zero_file = \<lparr>fl_data = [], fl_size = 0, fl_capacity = 0, fl_pos = 0, fl_out = False, fl_kind = 0, fl_writable = False, fl_name = replicate MAX_FILENAME_LEN 0\<rparr>"

text \<open>\<open>block\<close> says whether the structure was allocated, \<open>data\<close> is the block for the bytes.\<close>

definition open_memstream :: "bool \<Rightarrow> bytes option \<Rightarrow> ApeFile option" where
  "open_memstream block data =
     (if \<not> block then None
      else case data of None \<Rightarrow> None
      | Some d \<Rightarrow> Some (zero_file\<lparr>fl_writable := True, fl_out := True, fl_data := d, fl_capacity := 1\<rparr>))"

definition fopen :: "bool \<Rightarrow> bytes option \<Rightarrow> bytes \<Rightarrow> bytes \<Rightarrow> fs \<Rightarrow> ApeFile option option" where
  "fopen block data path mode fs = do {
     n \<leftarrow> strlen path;
     if n \<ge> MAX_FILENAME_LEN then Some None
     else if \<not> block then Some None
     else do {
       name \<leftarrow> strcpy (fl_name zero_file) 0 path;
       (case data of None \<Rightarrow> Some None
        | Some d \<Rightarrow> do {
            m \<leftarrow> rd mode 0;
            let f = zero_file\<lparr>fl_name := name, fl_capacity := MAX_FILE_SIZE + 1, fl_writable := (m = 119)\<rparr>;
            opened \<leftarrow> (if m \<noteq> 119 then do {
                 (sz, d) \<leftarrow> sys_read_file (Some path) (Some d) (int MAX_FILE_SIZE) fs;
                 d \<leftarrow> d;
                 Some (if sz < 0 then None else Some (f\<lparr>fl_data := d, fl_size := nat sz\<rparr>)) }
               else Some (Some (f\<lparr>fl_data := d\<rparr>)));
            (case opened of None \<Rightarrow> Some None
             | Some f \<Rightarrow> do { d \<leftarrow> wr (fl_data f) (fl_size f) 0; Some (Some (f\<lparr>fl_data := d\<rparr>)) }) }) } }"

text \<open>What \<^verbatim>\<open>fflush\<close> stores through the pointers of a memory stream.\<close>

definition fflush :: "ApeFile \<Rightarrow> (bytes \<times> nat) option" where
  "fflush f = (if fl_out f then Some (fl_data f, fl_size f) else None)"

definition fclose :: "ApeFile \<Rightarrow> fs \<Rightarrow> (int \<times> (bytes \<times> nat) option \<times> fs) option" where
  "fclose f fs = do {
     c \<leftarrow> rd (fl_name f) 0;
     (status, fs) \<leftarrow> (if c \<noteq> 0 \<and> fl_writable f then sys_write_file (Some (fl_name f)) (Some (fl_data f)) (int (fl_size f)) fs else Some (0, fs));
     Some (status, fflush f, fs) }"

text \<open>The origins are \<^verbatim>\<open>SEEK_SET\<close>, \<^verbatim>\<open>SEEK_CUR\<close> and \<^verbatim>\<open>SEEK_END\<close>; the sum is of type \<^verbatim>\<open>long\<close>.\<close>

definition fseek :: "ApeFile \<Rightarrow> int \<Rightarrow> nat \<Rightarrow> (int \<times> ApeFile) option" where
  "fseek f offset origin =
     (let pos = (if origin = 0 then 0 else if origin = 1 then int (fl_pos f) else int (fl_size f)) + offset in
      if pos < - 9223372036854775808 \<or> pos > 9223372036854775807 then None
      else if pos < 0 \<or> pos > int (fl_size f) then Some (-1, f) else Some (0, f\<lparr>fl_pos := nat pos\<rparr>))"

definition ftell :: "ApeFile \<Rightarrow> nat" where "ftell f = fl_pos f"

definition rewind :: "ApeFile \<Rightarrow> ApeFile" where "rewind f = f\<lparr>fl_pos := 0\<rparr>"

definition fread :: "bytes \<Rightarrow> nat \<Rightarrow> nat \<Rightarrow> ApeFile \<Rightarrow> (nat \<times> bytes \<times> ApeFile) option" where
  "fread ptr sz count f =
     (if sz = 0 then Some (0, ptr, f)
      else if fl_size f < fl_pos f then None
      else let count = (if count > (fl_size f - fl_pos f) div sz then (fl_size f - fl_pos f) div sz else count) in do {
        ptr \<leftarrow> memcpy ptr 0 (fl_data f) (fl_pos f) (sz * count);
        Some (count, ptr, f\<lparr>fl_pos := fl_pos f + sz * count\<rparr>) })"

definition grow :: "(bytes \<Rightarrow> nat \<Rightarrow> bytes option) \<Rightarrow> nat \<Rightarrow> ApeFile \<Rightarrow> ApeFile option" where
  "grow realloc need f =
     (if need > fl_capacity f then let cap = need * 2 mod 2 ^ 64 in
        (case realloc (fl_data f) cap of None \<Rightarrow> None | Some d \<Rightarrow> Some (f\<lparr>fl_data := d, fl_capacity := cap\<rparr>))
      else Some f)"

definition fwrite :: "(bytes \<Rightarrow> nat \<Rightarrow> bytes option) \<Rightarrow> bytes \<Rightarrow> nat \<Rightarrow> nat \<Rightarrow> ApeFile \<Rightarrow> (nat \<times> ApeFile) option" where
  "fwrite realloc ptr sz count f =
     (if sz = 0 \<or> count > (2 ^ 64 - 1 - fl_pos f - 1) div sz \<or> \<not> fl_writable f then Some (0, f)
      else let n = sz * count in
        (case grow realloc (fl_pos f + n + 1) f of
           None \<Rightarrow> Some (0, f)
         | Some f \<Rightarrow> do {
             d \<leftarrow> memcpy (fl_data f) (fl_pos f) ptr 0 n;
             let f = f\<lparr>fl_data := d, fl_pos := fl_pos f + n\<rparr>;
             let f = (if fl_pos f > fl_size f then f\<lparr>fl_size := fl_pos f\<rparr> else f);
             d \<leftarrow> wr (fl_data f) (fl_size f) 0;
             Some (count, f\<lparr>fl_data := d\<rparr>) }))"

function fgets_loop :: "bytes \<Rightarrow> nat \<Rightarrow> nat \<Rightarrow> ApeFile \<Rightarrow> (nat \<times> bytes \<times> ApeFile) option" where
  "fgets_loop buffer sz n f =
     (if n < sz - 1 \<and> fl_pos f < fl_size f then do {
        c \<leftarrow> rd (fl_data f) (fl_pos f);
        buffer \<leftarrow> wr buffer n c;
        let f = f\<lparr>fl_pos := fl_pos f + 1\<rparr>;
        if c = 10 then Some (n + 1, buffer, f) else fgets_loop buffer sz (n + 1) f }
      else Some (n, buffer, f))"
  by pat_completeness auto
termination
  by (relation "measure (\<lambda>(buffer, sz, n, f). sz - n)") auto

declare fgets_loop.simps [simp del]

text \<open>The line, or \<open>None\<close> inside for the null pointer; the console stream reads a line from the keyboard.\<close>

definition fgets :: "('n \<Rightarrow> 'n) \<Rightarrow> bytes \<Rightarrow> nat \<Rightarrow> ApeFile \<Rightarrow> 'n device \<Rightarrow> (bytes option \<times> ApeFile \<times> 'n device) option" where
  "fgets rtl_poll buffer sz f d =
     (if sz < 2 then Some (None, f, d)
      else if fl_kind f = 1 then do { (b, d) \<leftarrow> read_line rtl_poll (Some buffer) (int sz) d; Some (b, f, d) }
      else do {
        (n, buffer, f) \<leftarrow> fgets_loop buffer sz 0 f;
        buffer \<leftarrow> wr buffer n 0;
        Some (if n \<noteq> 0 then Some buffer else None, f, d) })"

definition fprintf ::
  "('f \<Rightarrow> bytes) \<Rightarrow> (bytes \<Rightarrow> nat \<Rightarrow> bytes option) \<Rightarrow> (bytes \<Rightarrow> 'd \<Rightarrow> 'd option) \<Rightarrow> ApeFile \<Rightarrow> bytes \<Rightarrow> 'f argument list \<Rightarrow> 'd \<Rightarrow> (int \<times> ApeFile \<times> 'd) option" where
  "fprintf double_text realloc sys_write f format args d = do {
     (buffer, n) \<leftarrow> vsnprintf double_text (replicate 2048 0) 2048 format args;
     if fl_kind f = 2 then do { d \<leftarrow> sys_write buffer d; Some (n, f, d) }
     else do { l \<leftarrow> strlen buffer; (_, f) \<leftarrow> fwrite realloc buffer 1 l f; Some (n, f, d) } }"

definition remove_file :: "bytes \<Rightarrow> fs \<Rightarrow> (int \<times> fs) option" where
  "remove_file path fs = sys_delete_file (Some path) fs"

definition ape_list_files :: "bytes option \<Rightarrow> fs \<Rightarrow> bytes option option" where
  "ape_list_files block fs =
     (case block of None \<Rightarrow> Some None
      | Some b \<Rightarrow> do {
          (n, b) \<leftarrow> sys_list_files (Some b) (int (MAX_FILES * (MAX_FILENAME_LEN + 1))) fs;
          Some (if n < 0 then None else b) })"

section \<open>The invariant\<close>

definition file_ok :: "ApeFile \<Rightarrow> bool" where
  "file_ok f \<longleftrightarrow> fl_pos f \<le> fl_size f \<and> fl_size f < fl_capacity f \<and> fl_capacity f \<le> length (fl_data f) \<and>
     length (fl_name f) = MAX_FILENAME_LEN \<and> is_cstr (fl_name f)"

definition bytes_of :: "ApeFile \<Rightarrow> bytes" where
  "bytes_of f = take (fl_size f) (fl_data f)"

text \<open>What the heap promises of \<^verbatim>\<open>realloc\<close>: a block of at least the size that keeps the old bytes.\<close>

definition keeps_block :: "(bytes \<Rightarrow> nat \<Rightarrow> bytes option) \<Rightarrow> bool" where
  "keeps_block realloc \<longleftrightarrow> (\<forall>d n b. realloc d n = Some b \<longrightarrow> n \<le> length b \<and> take (min n (length d)) b = take (min n (length d)) d)"

lemma grow_ok:
  assumes "file_ok f" "keeps_block realloc" "need < 2 ^ 63" "grow realloc need f = Some g"
  shows "g = f\<lparr>fl_data := fl_data g, fl_capacity := fl_capacity g\<rparr>" "need \<le> fl_capacity g" "fl_size f < fl_capacity g" "fl_capacity g \<le> length (fl_data g)"
    "take (fl_size f) (fl_data g) = bytes_of f"
proof -
  have "g = f\<lparr>fl_data := fl_data g, fl_capacity := fl_capacity g\<rparr> \<and> need \<le> fl_capacity g \<and> fl_size f < fl_capacity g \<and> fl_capacity g \<le> length (fl_data g) \<and>
    take (fl_size f) (fl_data g) = bytes_of f"
  proof (cases "need > fl_capacity f")
    case False
    then show ?thesis using assms(1,4) by (auto simp: grow_def file_ok_def bytes_of_def)
  next
    case True
    have m: "need * 2 mod 2 ^ 64 = need * 2" using assms(3) by simp
    obtain d where d: "realloc (fl_data f) (need * 2) = Some d" "g = f\<lparr>fl_data := d, fl_capacity := need * 2\<rparr>"
      using True assms(4) unfolding grow_def Let_def m by (auto split: option.splits)
    have k: "need * 2 \<le> length d" "take (min (need * 2) (length (fl_data f))) d = take (min (need * 2) (length (fl_data f))) (fl_data f)"
      using assms(2) d(1) unfolding keeps_block_def by blast+
    have s: "fl_size f \<le> min (need * 2) (length (fl_data f))" using assms(1) True by (simp add: file_ok_def)
    have "take (fl_size f) d = take (fl_size f) (take (min (need * 2) (length (fl_data f))) d)" using s by (simp add: take_take min_absorb1)
    also have "\<dots> = bytes_of f" unfolding k(2) bytes_of_def using s by (simp add: take_take min_absorb1)
    finally show ?thesis using d(2) k(1) True assms(1) by (simp add: file_ok_def)
  qed
  then show "g = f\<lparr>fl_data := fl_data g, fl_capacity := fl_capacity g\<rparr>" "need \<le> fl_capacity g" "fl_size f < fl_capacity g" "fl_capacity g \<le> length (fl_data g)"
    "take (fl_size f) (fl_data g) = bytes_of f" by blast+
qed

text \<open>A write replaces the bytes at the position and moves behind them, or does nothing when the heap is exhausted.\<close>

definition written :: "ApeFile \<Rightarrow> bytes \<Rightarrow> ApeFile \<Rightarrow> bool" where
  "written f bs g \<longleftrightarrow> file_ok g \<and> bytes_of g = take (fl_pos f) (bytes_of f) @ bs @ drop (fl_pos f + length bs) (bytes_of f) \<and>
     fl_pos g = fl_pos f + length bs \<and> fl_name g = fl_name f \<and> fl_writable g = fl_writable f \<and> fl_out g = fl_out f \<and> fl_kind g = fl_kind f"

lemma fwrite_spec:
  assumes "file_ok f" "keeps_block realloc" "fl_writable f" "0 < sz" "sz * count \<le> length ptr" "fl_pos f + sz * count + 1 < 2 ^ 63"
  shows "fwrite realloc ptr sz count f = Some (0, f) \<and> grow realloc (fl_pos f + sz * count + 1) f = None \<or>
    (\<exists>g. fwrite realloc ptr sz count f = Some (count, g) \<and> written f (take (sz * count) ptr) g)"
proof -
  let ?n = "sz * count"
  have "count * sz \<le> 2 ^ 64 - 1 - fl_pos f - 1" using assms(6) by (simp add: mult.commute)
  then have "count \<le> (2 ^ 64 - 1 - fl_pos f - 1) div sz" using assms(4) by (simp add: less_eq_div_iff_mult_less_eq)
  then have go: "\<not> (sz = 0 \<or> count > (2 ^ 64 - 1 - fl_pos f - 1) div sz \<or> \<not> fl_writable f)" using assms(3,4) by auto
  show ?thesis
  proof (cases "grow realloc (fl_pos f + ?n + 1) f")
    case None
    then show ?thesis using go by (simp add: fwrite_def Let_def)
  next
    case (Some g)
    note gr = grow_ok [OF assms(1,2,6) Some]
    obtain d c where g: "g = f\<lparr>fl_data := d, fl_capacity := c\<rparr>" "d = fl_data g" "c = fl_capacity g" using gr(1) by blast
    have l: "fl_pos f + ?n < length d" "fl_size f < length d" "fl_pos f \<le> fl_size f" "fl_pos f + ?n < c" "fl_size f < c" "c \<le> length d"
      using gr(2-4) g(2,3) assms(1) by (simp_all add: file_ok_def)
    define e where "e = take (fl_pos f) d @ take ?n ptr @ drop (fl_pos f + ?n) d"
    have m: "memcpy d (fl_pos f) ptr 0 ?n = Some e" using l assms(5) by (simp add: memcpy_eq e_def)
    have le: "length e = length d" using l(1) assms(5) by (simp add: e_def)
    define z where "z = max (fl_size f) (fl_pos f + ?n)"
    have zl: "z < length e" "z < c" using l le by (auto simp: z_def)
    let ?g = "f\<lparr>fl_data := e[z := 0], fl_size := z, fl_capacity := c, fl_pos := fl_pos f + ?n\<rparr>"
    have w: "fwrite realloc ptr sz count f = Some (count, ?g)"
      using go Some m zl(1) g(1) unfolding fwrite_def Let_def
      by (auto simp: wr_Some z_def max_def split: if_splits)
    have td: "take (fl_size f) d = bytes_of f" using gr(5) g(2) by simp
    have "take z (e[z := 0]) = take z e" by simp
    also have "\<dots> = take (fl_pos f) (bytes_of f) @ take ?n ptr @ drop (fl_pos f + ?n) (bytes_of f)"
    proof -
      have a: "take (fl_pos f) (bytes_of f) = take (fl_pos f) d" using l(3) by (simp add: td [symmetric] take_take min_absorb1)
      have b: "drop (fl_pos f + ?n) (bytes_of f) = take (z - (fl_pos f + ?n)) (drop (fl_pos f + ?n) d)"
        by (auto simp: td [symmetric] drop_take z_def max_def)
      show ?thesis unfolding a b using l assms(5) by (simp add: e_def z_def)
    qed
    finally have "bytes_of ?g = take (fl_pos f) (bytes_of f) @ take ?n ptr @ drop (fl_pos f + ?n) (bytes_of f)" by (simp add: bytes_of_def)
    then have "written f (take ?n ptr) ?g" using assms(1,5) zl le l by (simp add: written_def file_ok_def z_def)
    then show ?thesis using w by blast
  qed
qed

lemma fread_spec:
  assumes "file_ok f" "0 < sz" "sz * min count ((fl_size f - fl_pos f) div sz) \<le> length ptr"
  defines "n \<equiv> min count ((fl_size f - fl_pos f) div sz)"
  shows "fread ptr sz count f = Some (n, take (sz * n) (drop (fl_pos f) (bytes_of f)) @ drop (sz * n) ptr, f\<lparr>fl_pos := fl_pos f + sz * n\<rparr>) \<and>
    file_ok (f\<lparr>fl_pos := fl_pos f + sz * n\<rparr>)"
proof -
  have "sz * n \<le> sz * ((fl_size f - fl_pos f) div sz)" by (simp add: n_def)
  also have "\<dots> \<le> fl_size f - fl_pos f" by simp
  finally have le: "sz * n \<le> fl_size f - fl_pos f" .
  have l: "fl_pos f \<le> fl_size f" "fl_size f \<le> length (fl_data f)" using assms(1) by (simp_all add: file_ok_def)
  have c: "(if count > (fl_size f - fl_pos f) div sz then (fl_size f - fl_pos f) div sz else count) = n" by (simp add: n_def)
  have p: "sz * n \<le> length ptr" using assms(3) by (simp add: n_def)
  have m: "memcpy ptr 0 (fl_data f) (fl_pos f) (sz * n) = Some (take (sz * n) (drop (fl_pos f) (bytes_of f)) @ drop (sz * n) ptr)"
    using le l p by (simp add: memcpy_eq bytes_of_def drop_take)
  show ?thesis using assms(1,2) l le m unfolding fread_def Let_def c by (simp add: file_ok_def)
qed

section \<open>Opening and closing\<close>

lemma fopen_name:
  assumes "is_cstr path" "length (cstr path) < MAX_FILENAME_LEN"
  shows "\<exists>name. strcpy (fl_name zero_file) 0 path = Some name \<and> length name = MAX_FILENAME_LEN \<and> is_cstr name \<and> cstr name = cstr path"
  using strcpy_eq [OF assms(1), of 0 "fl_name zero_file"] assms(2) cstr_no_nul [of path]
  by (auto simp: zero_file_def is_cstr_def)

lemma fopen_write:
  assumes "is_cstr path" "length (cstr path) < MAX_FILENAME_LEN" "MAX_FILE_SIZE + 1 \<le> length d" "rd mode 0 = Some 119"
  shows "\<exists>f. fopen True (Some d) path mode fs = Some (Some f) \<and> file_ok f \<and> bytes_of f = [] \<and> fl_pos f = 0 \<and> fl_writable f \<and>
    fl_capacity f = MAX_FILE_SIZE + 1 \<and> \<not> fl_out f \<and> cstr (fl_name f) = cstr path"
proof -
  obtain name where n: "strcpy (fl_name zero_file) 0 path = Some name" "length name = MAX_FILENAME_LEN" "is_cstr name" "cstr name = cstr path"
    using fopen_name [OF assms(1,2)] by blast
  have sl: "strlen path = Some (length (cstr path))" by (rule strlen_cstr [OF assms(1)])
  have l: "0 < length d" using assms(3) by linarith
  have "fopen True (Some d) path mode fs = Some (Some (zero_file\<lparr>fl_name := name, fl_capacity := MAX_FILE_SIZE + 1, fl_writable := True, fl_data := d[0 := 0]\<rparr>))"
    using assms(2) l unfolding fopen_def sl n(1) bind.bind_lunit assms(4) by (simp add: wr_Some zero_file_def)
  then show ?thesis using n(2-4) assms(3) by (auto simp: file_ok_def bytes_of_def zero_file_def)
qed

lemma fopen_read:
  assumes "fs_wf fs" "is_cstr path" "length (cstr path) < MAX_FILENAME_LEN" "MAX_FILE_SIZE + 1 \<le> length d" "rd mode 0 = Some m" "m \<noteq> 119"
    "fs_abs fs (cstr path) = Some bs" "length bs \<le> MAX_FILE_SIZE"
  shows "\<exists>f. fopen True (Some d) path mode fs = Some (Some f) \<and> file_ok f \<and> bytes_of f = bs \<and> fl_pos f = 0 \<and> fl_size f = length bs"
proof -
  obtain name where n: "strcpy (fl_name zero_file) 0 path = Some name" "length name = MAX_FILENAME_LEN" "is_cstr name" "cstr name = cstr path"
    using fopen_name [OF assms(2,3)] by blast
  have sl: "strlen path = Some (length (cstr path))" by (rule strlen_cstr [OF assms(2)])
  have l: "nat (int MAX_FILE_SIZE) \<le> length d" "length bs < length d" using assms(4,8) by linarith+
  have r: "sys_read_file (Some path) (Some d) (int MAX_FILE_SIZE) fs = Some (int (length bs), Some (bs @ drop (length bs) d))"
    using sys_read_file_spec [OF assms(1,2) l(1)] assms(7,8) by (simp add: spec_read_def)
  have "fopen True (Some d) path mode fs = Some (Some (zero_file\<lparr>fl_name := name, fl_capacity := MAX_FILE_SIZE + 1, fl_writable := False,
      fl_data := (bs @ drop (length bs) d)[length bs := 0], fl_size := length bs\<rparr>))"
    using assms(3,6) l(2) unfolding fopen_def sl n(1) bind.bind_lunit assms(5) by (simp add: r [simplified] wr_Some zero_file_def)
  then show ?thesis using n(2-4) assms(4,8) l(2) by (auto simp: file_ok_def bytes_of_def zero_file_def)
qed

lemma fclose_write:
  assumes "fs_wf fs" "file_ok f" "fl_writable f" "cstr (fl_name f) \<noteq> []"
  shows "\<exists>fs'. fclose f fs = Some (fst (spec_write (cstr (fl_name f)) (fl_data f) (int (fl_size f)) (fs_abs fs)), fflush f, fs') \<and> fs_wf fs' \<and>
    fs_abs fs' = snd (spec_write (cstr (fl_name f)) (fl_data f) (int (fl_size f)) (fs_abs fs))"
proof -
  have n: "is_cstr (fl_name f)" using assms(2) by (simp add: file_ok_def)
  have l: "nat (int (fl_size f)) \<le> length (fl_data f)" using assms(2) by (simp add: file_ok_def)
  obtain c r where c: "fl_name f = c # r" "c \<noteq> 0" using n assms(4) by (cases "fl_name f") (auto split: if_splits)
  show ?thesis using sys_write_file_spec [OF assms(1) n l] assms(3) c by (auto simp: fclose_def rd_def)
qed

text \<open>C36: what a program writes to a file is what it reads back. On a well-formed RAM file system with room for the
  file and a heap that answers, opening a path for writing, writing at most 16 KiB of bytes and closing stores exactly
  those bytes under the path and nothing else; opening the path again and reading delivers them, whatever the heap
  blocks held before.\<close>

theorem file_write_read:
  assumes "fs_wf fs" "is_cstr path" "cstr path \<noteq> []" "length (cstr path) < MAX_FILENAME_LEN" "length bs \<le> MAX_FILE_SIZE"
    and "fs_abs fs (cstr path) \<noteq> None \<or> Finite_Set.card (dom (fs_abs fs)) < MAX_FILES"
    and "rd wmode 0 = Some 119" "rd rmode 0 = Some m" "m \<noteq> 119" "MAX_FILE_SIZE + 1 \<le> length d1" "MAX_FILE_SIZE + 1 \<le> length d2"
    and "keeps_block realloc" "length bs \<le> length ptr"
  shows "\<exists>f g fs' h h'. fopen True (Some d1) path wmode fs = Some (Some f) \<and> fwrite realloc bs 1 (length bs) f = Some (length bs, g) \<and>
    fclose g fs = Some (0, None, fs') \<and> fs_wf fs' \<and> fs_abs fs' = (fs_abs fs)(cstr path \<mapsto> bs) \<and>
    fopen True (Some d2) path rmode fs' = Some (Some h) \<and> fread ptr 1 (length bs) h = Some (length bs, bs @ drop (length bs) ptr, h')"
proof -
  obtain f where f: "fopen True (Some d1) path wmode fs = Some (Some f)" "file_ok f" "bytes_of f = []" "fl_pos f = 0" "fl_writable f"
    "fl_capacity f = MAX_FILE_SIZE + 1" "\<not> fl_out f" "cstr (fl_name f) = cstr path" using fopen_write [OF assms(2,4,10,7)] by blast
  have n: "(0 :: nat) < 1" "1 * length bs \<le> length bs" "fl_pos f + 1 * length bs + 1 < 2 ^ 63" using assms(5) f(4) by simp_all
  have "grow realloc (fl_pos f + 1 * length bs + 1) f \<noteq> None" using f(4,6) assms(5) by (simp add: grow_def)
  then obtain g where g: "fwrite realloc bs 1 (length bs) f = Some (length bs, g)" "written f bs g"
    using fwrite_spec [OF f(2) assms(12) f(5) n] by auto
  have gb: "bytes_of g = bs" "file_ok g" "fl_writable g" "\<not> fl_out g" "cstr (fl_name g) = cstr path" using g(2) f by (simp_all add: written_def)
  have gs: "fl_size g = length bs" "take (fl_size g) (fl_data g) = bs" using gb(1,2) by (auto simp: bytes_of_def file_ok_def)
  have sw: "spec_write (cstr path) (fl_data g) (int (fl_size g)) (fs_abs fs) = (0, (fs_abs fs)(cstr path \<mapsto> bs))"
    using assms(3-6) gs by (auto simp: spec_write_def)
  have nn: "cstr (fl_name g) \<noteq> []" using gb(5) assms(3) by simp
  from fclose_write [OF assms(1) gb(2,3) nn] obtain fs' where c: "fclose g fs = Some (0, None, fs')" "fs_wf fs'" "fs_abs fs' = (fs_abs fs)(cstr path \<mapsto> bs)"
    unfolding gb(5) sw using gb(4) by (auto simp: fflush_def)
  have a: "fs_abs fs' (cstr path) = Some bs" using c(3) by simp
  obtain h where h: "fopen True (Some d2) path rmode fs' = Some (Some h)" "file_ok h" "bytes_of h = bs" "fl_pos h = 0" "fl_size h = length bs"
    using fopen_read [OF c(2) assms(2,4,11,8,9) a assms(5)] by blast
  have p: "1 * min (length bs) ((fl_size h - fl_pos h) div 1) \<le> length ptr" using h(4,5) assms(13) by simp
  from fread_spec [OF h(2) n(1) p] h(3-5) have "fread ptr 1 (length bs) h = Some (length bs, bs @ drop (length bs) ptr, h\<lparr>fl_pos := length bs\<rparr>)" by simp
  then show ?thesis using f(1) g(1) c h(1) by blast
qed

theorem file_write_read_witness:
  "\<exists>f g fs' h h'. fopen True (Some (replicate (MAX_FILE_SIZE + 1) 7)) (ascii ''a'') (ascii ''w'') blank_fs = Some (Some f) \<and>
    fwrite (\<lambda>d n. None) [1, 2, 3] 1 (length [1 :: u8, 2, 3]) f = Some (length [1 :: u8, 2, 3], g) \<and>
    fclose g blank_fs = Some (0, None, fs') \<and> fs_wf fs' \<and> fs_abs fs' = (fs_abs blank_fs)(cstr (ascii ''a'') \<mapsto> [1, 2, 3]) \<and>
    fopen True (Some (replicate (MAX_FILE_SIZE + 1) 9)) (ascii ''a'') (ascii ''r'') fs' = Some (Some h) \<and>
    fread (replicate 4 0) 1 (length [1 :: u8, 2, 3]) h = Some (length [1 :: u8, 2, 3], [1, 2, 3] @ drop (length [1 :: u8, 2, 3]) (replicate 4 0), h')"


    by (rule file_write_read [OF blank_fs_wf, where m = 114]) (simp_all add: ascii_def blank_fs_abs keeps_block_def rd_def)

end
