(* ===== verification/Tcp_Command.thy ===== *)
theory Tcp_Command
  imports Command
begin

text \<open>
  The \<^verbatim>\<open>tcp\<close> command of \<^verbatim>\<open>src/jordyOS/net/tcp_native.c\<close>: its arguments, the calibration of the clock, the ARP
  lookup and the foreground transfer, with the file it sends and the file it leaves. It runs on the console whose
  network state is the one of \<open>Driver\<close>. The loops that wait for the clock or the peer may run forever, so they are
  partial functions; \<open>None\<close> also stands for a call that never returns.
\<close>

section \<open>The clock\<close>

definition tsc :: "('m, 'h) net_env \<Rightarrow> ('m, 'h) net_state \<Rightarrow> u64 \<times> ('m, 'h) net_state" where
  "tsc env s = (let (t, h) = hw_tsc (en_hw env) (ns_hw s) in (t, s\<lparr>ns_hw := h\<rparr>))"

text \<open>The wait for the timer: \<open>False\<close> when the counter moved on by more than ten billion ticks.\<close>

partial_function (option) pit_wait :: "('m, 'h) net_env \<Rightarrow> u64 \<Rightarrow> ('m, 'h) net_state \<Rightarrow> (bool \<times> ('m, 'h) net_state) option" where
  "pit_wait env start s = (let (v, s) = in8 env 0x61 s in
     if v AND 0x20 \<noteq> 0 then Some (True, s)
     else let (t, s) = tsc env s in
       if t - start > 10000000000 then Some (False, s) else pit_wait env start s)"

definition clock_init :: "('m, 'h) net_env \<Rightarrow> ('m, 'h) net_state \<Rightarrow> (bool \<times> ('m, 'h) net_state) option" where
  "clock_init env s =
     (if ns_clock_ready s then Some (True, s)
      else if hw_cpuid (en_hw env) AND 16 = 0 then Some (False, s)
      else let
        (gate, s) = in8 env 0x61 s;
        s = out8 env 0x42 (ucast ((23864 :: u16) AND 255)) (out8 env 0x43 0xb0 (out8 env 0x61 (gate AND NOT 3) s));
        s = out8 env 0x42 (ucast (drop_bit 8 (23864 :: u16))) s;
        (start, s) = tsc env s;
        s = out8 env 0x61 (gate AND NOT 2 OR 1) s in do {
        (expired, s) \<leftarrow> pit_wait env start s;
        if \<not> expired then Some (False, out8 env 0x61 gate s)
        else let
          (finish, s) = tsc env s;
          s = (out8 env 0x61 gate s)\<lparr>ns_ticks := (finish - start) div 20000\<rparr> in
          if ns_ticks s = 0 then Some (False, s)
          else Some (True, s\<lparr>ns_clock_origin := finish, ns_clock_ready := True\<rparr>) })"

section \<open>Status\<close>

definition tcp_status :: "'d writer \<Rightarrow> 'm larp \<Rightarrow> 'm Tcp \<Rightarrow> 'd \<Rightarrow> 'd option" where
  "tcp_status sys_write lp c d = do {
     d \<leftarrow> say sys_write (line ''TCP: native active-open IPv4, one foreground transfer, 16 KiB per file.'' @
       line ''Default congestion control: LARP (vendored upstream core).'') d;
     d \<leftarrow> say sys_write ''last tx_acked='' d; d \<leftarrow> net_print_number sys_write (tc_delivered c) d;
     d \<leftarrow> say sys_write '' rx='' d; d \<leftarrow> net_print_number sys_write (tc_rx_size c) d;
     d \<leftarrow> say sys_write '' retransmits='' d; d \<leftarrow> net_print_number sys_write (tc_retransmits c) d;
     d \<leftarrow> say sys_write '' timeouts='' d; d \<leftarrow> net_print_number sys_write (tc_timeouts c) d;
     d \<leftarrow> say sys_write '' fast_retransmits='' d; d \<leftarrow> net_print_number sys_write (tc_fast_retransmits c) d;
     d \<leftarrow> say sys_write ([CHR 0x0A] @ ''larp feedbacks='') d; d \<leftarrow> net_print_number sys_write (tc_feedbacks c) d;
     d \<leftarrow> say sys_write '' learned='' d; d \<leftarrow> net_print_number sys_write (lp_learned lp (tc_larp c)) d;
     d \<leftarrow> say sys_write '' cwnd='' d; d \<leftarrow> net_print_number sys_write (tc_cwnd c) d;
     d \<leftarrow> say sys_write '' rate_bytes_sec='' d; d \<leftarrow> net_print_number sys_write (ucast (lp_min lp (lp_rate lp (tc_larp c)) 0xffffffff)) d;
     d \<leftarrow> say sys_write '' paced_packets='' d; d \<leftarrow> net_print_number sys_write (tc_paced_packets c) d;
     d \<leftarrow> say sys_write '' min_gap_us='' d;
     d \<leftarrow> net_print_number sys_write (if tc_minimum_gap_us c = -1 then 0 else tc_minimum_gap_us c) d;
     say sys_write (line '''') d }"

section \<open>Arguments\<close>

datatype tcp_mode = Demo | Send | Receive | Exchange

definition tcp_words :: "bytes \<Rightarrow> (bytes \<times> nat list option) option" where
  "tcp_words text = words_loop (\<lambda>c. c = 32) text 0 6 []"

definition tcp_mode_of :: "bytes \<Rightarrow> nat list \<Rightarrow> tcp_mode option option" where
  "tcp_mode_of text w = do {
     demo \<leftarrow> word_is text w 0 ''demo''; send \<leftarrow> word_is text w 0 ''send'';
     receive \<leftarrow> word_is text w 0 ''recv''; exchange \<leftarrow> word_is text w 0 ''exchange'';
     Some (if demo \<and> length w = 3 then Some Demo
       else if send \<and> length w = 4 then Some Send
       else if receive \<and> length w = 4 then Some Receive
       else if exchange \<and> length w = 5 then Some Exchange else None) }"

text \<open>The peer: an address in the local network that is not a network, broadcast or own address, and a port.\<close>

definition tcp_peer :: "bytes \<Rightarrow> nat list \<Rightarrow> (u32 \<times> u32) option option" where
  "tcp_peer text w = do {
     i1 \<leftarrow> rd w 1; i2 \<leftarrow> rd w 2;
     address \<leftarrow> net_cidr (drop i1 text);
     (case address of None \<Rightarrow> Some None
      | Some (ip, msk) \<Rightarrow>
          if msk \<noteq> -1 \<or> ip AND NET_MASK \<noteq> NET_IP AND NET_MASK \<or> ip AND 255 = 0 \<or> ip AND 255 = 255 \<or> ip = NET_IP then Some None
          else do {
            port \<leftarrow> net_number (drop i2 text) 65535;
            Some (case port of None \<Rightarrow> None | Some port \<Rightarrow> if port = 0 then None else Some (ip, port)) }) }"

function free_wait :: "TimeWait list \<Rightarrow> u64 \<Rightarrow> nat \<Rightarrow> nat option option" where
  "free_wait ws now i =
     (if i < 8 then do { w \<leftarrow> rd ws i; if tw_expires w \<le> now then Some (Some i) else free_wait ws now (i + 1) }
      else Some None)"
  by pat_completeness auto
termination
  by (relation "measure (\<lambda>(ws, now, i). 8 - i)") auto

declare free_wait.simps [simp del]

section \<open>The source and the peer's address\<close>

definition demo_byte :: "nat \<Rightarrow> u8" where
  "demo_byte i = of_nat (i * 37 + i div 256)"

function demo_loop :: "nat \<Rightarrow> bytes \<Rightarrow> bytes option" where
  "demo_loop i b = (if i < TCP_BUFFER then do { b \<leftarrow> wr b i (demo_byte i); demo_loop (i + 1) b } else Some b)"
  by pat_completeness auto
termination
  by (relation "measure (\<lambda>(i, b). TCP_BUFFER - i)") auto

declare demo_loop.simps [simp del]

text \<open>The bytes to send: their number, or \<open>None\<close> when the file cannot be read.\<close>

definition tcp_source :: "tcp_mode \<Rightarrow> bytes \<Rightarrow> nat list \<Rightarrow> fs \<Rightarrow> ('m, 'h) net_state \<Rightarrow> (nat option \<times> ('m, 'h) net_state) option" where
  "tcp_source mode text w fs s =
     (case mode of
        Demo \<Rightarrow> do { b \<leftarrow> demo_loop 0 (ns_source s); Some (Some TCP_BUFFER, s\<lparr>ns_source := b\<rparr>) }
      | Receive \<Rightarrow> Some (Some 0, s)
      | _ \<Rightarrow> do {
          i \<leftarrow> rd w 3;
          (sz, b) \<leftarrow> sys_read_file (Some (drop i text)) (Some (ns_source s)) (int TCP_BUFFER) fs;
          b \<leftarrow> b;
          let s = s\<lparr>ns_source := b\<rparr>;
          Some (if sz < 0 then None else Some (nat sz), s) })"

definition tcp_destination :: "tcp_mode \<Rightarrow> nat list \<Rightarrow> nat option option" where
  "tcp_destination mode w =
     (case mode of Receive \<Rightarrow> do { i \<leftarrow> rd w 3; Some (Some i) } | Exchange \<Rightarrow> do { i \<leftarrow> rd w 4; Some (Some i) } | _ \<Rightarrow> Some None)"

partial_function (option) arp_loop :: "('m, 'h) net_env \<Rightarrow> u64 \<Rightarrow> u64 \<Rightarrow> ('m, 'h) net_state \<Rightarrow> ('m, 'h) net_state option" where
  "arp_loop env finish next_arp s =
     (if \<not> ns_have_mac s \<and> nw_up (ns_net s) then do {
        (t, s) \<leftarrow> now_us env s;
        if t < finish then do {
          (now, s) \<leftarrow> now_us env s;
          (next_arp, s) \<leftarrow> (if now \<ge> next_arp then do {
              (ok, s) \<leftarrow> arp_request env s; Some (if ok then now + 1000000 else next_arp, s) }
            else Some (next_arp, s));
          s \<leftarrow> rtl_poll env s;
          arp_loop env finish next_arp s }
        else Some s }
      else Some s)"

section \<open>The transfer\<close>

text \<open>One poll of the console, which polls the network first, and the cancellation it may bring.\<close>

definition transfer_step :: "('m, 'h) net_env \<Rightarrow> ('m, 'h) net_state device \<Rightarrow> ('m, 'h) net_state device option" where
  "transfer_step env d = do {
     s \<leftarrow> rtl_poll env (d_net d);
     let (key, d) = poll_ch (\<lambda>_. s) d;
     if key = 3 \<or> key = 27 then do {
       (c, s) \<leftarrow> tcp_abort (emit_native env) (ns_tcp (d_net d)) ''cancelled'' (d_net d);
       Some (d\<lparr>d_net := s\<lparr>ns_tcp := c\<rparr>\<rparr>) }
     else Some d }"

partial_function (option) transfer_loop :: "('m, 'h) net_env \<Rightarrow> ('m, 'h) net_state device \<Rightarrow> ('m, 'h) net_state device option" where
  "transfer_loop env d =
     (if tc_state (ns_tcp (d_net d)) \<noteq> TCP_DONE \<and> tc_state (ns_tcp (d_net d)) \<noteq> TCP_FAILED
      then do { d \<leftarrow> transfer_step env d; transfer_loop env d }
      else Some d)"

definition remember :: "nat \<Rightarrow> u16 \<Rightarrow> u16 \<Rightarrow> u64 \<Rightarrow> ('m, 'h) net_state \<Rightarrow> ('m, 'h) net_state option" where
  "remember slot port peer now s = do {
     mac \<leftarrow> slice (ns_peer_mac s) 0 6;
     ws \<leftarrow> wr (ns_timewait s) slot \<lparr>tw_ip = ns_peer_ip s, tw_next = tc_next (ns_tcp s), tw_acknowledgement = tc_receive_next (ns_tcp s),
       tw_local = port, tw_remote = peer, tw_mac = mac, tw_expires = now + 120000000\<rparr>;
     Some (s\<lparr>ns_timewait := ws\<rparr>) }"

text \<open>What is left of a finished transfer: an entry of the TIME-WAIT table, the received file, a message.\<close>

definition tcp_finish :: "('m, 'h) net_env \<Rightarrow> tcp_mode \<Rightarrow> bytes option \<Rightarrow> nat \<Rightarrow> u16 \<Rightarrow> u16 \<Rightarrow> fs \<Rightarrow> ('m, 'h) net_state device \<Rightarrow> (fs \<times> ('m, 'h) net_state device) option" where
  "tcp_finish env mode destination slot port peer fs d = (let c = ns_tcp (d_net d) in
     if tc_state c = TCP_DONE then do {
       (now, s) \<leftarrow> now_us env (d_net d);
       s \<leftarrow> remember slot port peer now s;
       let d = d\<lparr>d_net := s\<rparr>;
       if mode = Demo \<and> (tc_rx_size c \<noteq> of_nat TCP_BUFFER \<or> take TCP_BUFFER (tc_rx c) \<noteq> take TCP_BUFFER (ns_source s))
       then do { d \<leftarrow> say puts (line ''TCP DEMO FAIL: echoed bytes differ.'') d; Some (fs, d) }
       else do {
         (saved, fs) \<leftarrow> (case destination of None \<Rightarrow> Some (0, fs) | Some name \<Rightarrow> sys_write_file (Some name) (Some (tc_rx c)) (int (unat (tc_rx_size c))) fs);
         d \<leftarrow> say puts (line (if saved < 0 then ''TCP transfer complete; could not save destination RAM file.''
           else if mode = Demo then ''TCP DEMO PASS: 16384 binary bytes echoed exactly using LARP.''
           else ''TCP TRANSFER PASS: bytes acknowledged, peer EOF received.'')) d;
         Some (fs, d) } }
     else do {
       reason \<leftarrow> tc_error c;
       d \<leftarrow> say puts ''TCP failed: '' d; d \<leftarrow> say puts reason d; d \<leftarrow> say puts (line '''') d;
       Some (fs, d) })"

definition tcp_usage :: string where
  "tcp_usage = line ''tcp status | demo IP PORT | send IP PORT FILE | recv IP PORT FILE'' @
     line ''tcp exchange IP PORT SOURCE DESTINATION (local /24, files <=16 KiB)''"

definition reply :: "string \<Rightarrow> fs \<Rightarrow> ('m, 'h) net_state device \<Rightarrow> (fs \<times> ('m, 'h) net_state device) option" where
  "reply t fs d = do { d \<leftarrow> say puts t d; Some (fs, d) }"

text \<open>The connection with a peer whose address is known.\<close>

definition tcp_connect :: "('m, 'h) net_env \<Rightarrow> tcp_mode \<Rightarrow> bytes option \<Rightarrow> nat \<Rightarrow> u32 \<Rightarrow> nat \<Rightarrow> fs \<Rightarrow> ('m, 'h) net_state device \<Rightarrow> (fs \<times> ('m, 'h) net_state device) option" where
  "tcp_connect env mode destination slot port sz fs d = do {
     let s = d_net d;
     let lport = (ucast (ns_next_port s) :: u16);
     let s = s\<lparr>ns_next_port := ns_next_port s + 1\<rparr>;
     (now, s) \<leftarrow> now_us env s;
     let (isn, s) = tsc env s;
     c \<leftarrow> tcp_start (en_larp env) lport (ucast port) (ucast isn) (Some (ns_source s)) sz now;
     d \<leftarrow> say puts (line ''TCP connecting; default controller=LARP.'') (d\<lparr>d_net := s\<lparr>ns_tcp := c, ns_running := True\<rparr>\<rparr>);
     d \<leftarrow> transfer_loop env d;
     (fs, d) \<leftarrow> tcp_finish env mode destination slot lport (ucast port) fs (d\<lparr>d_net := (d_net d)\<lparr>ns_running := False\<rparr>\<rparr>);
     d \<leftarrow> tcp_status puts (en_larp env) (ns_tcp (d_net d)) d;
     Some (fs, d) }"

definition tcp_transfer :: "('m, 'h) net_env \<Rightarrow> tcp_mode \<Rightarrow> bytes \<Rightarrow> nat list \<Rightarrow> u32 \<Rightarrow> u32 \<Rightarrow> fs \<Rightarrow> ('m, 'h) net_state device \<Rightarrow> (fs \<times> ('m, 'h) net_state device) option" where
  "tcp_transfer env mode text w ip port fs d =
     (if \<not> nw_up (ns_net (d_net d)) then reply (line ''Run net up first.'') fs d
      else do {
        (ready, s) \<leftarrow> clock_init env (d_net d);
        let d = d\<lparr>d_net := s\<rparr>;
        if \<not> ready then reply (line ''TCP requires a working PIT-calibrated TSC clock.'') fs d
        else if ns_next_port s > 65535 then reply (line ''TCP ephemeral ports exhausted; reboot the lab.'') fs d
        else do {
          (now, s) \<leftarrow> now_us env s;
          slot \<leftarrow> free_wait (ns_timewait s) now 0;
          (case slot of None \<Rightarrow> reply (line ''TCP TIME-WAIT slots full; retry after 120 seconds.'') fs (d\<lparr>d_net := s\<rparr>)
           | Some slot \<Rightarrow> do {
               (sz, s) \<leftarrow> tcp_source mode text w fs s;
               (case sz of None \<Rightarrow> reply (line ''Cannot read source RAM file.'') fs (d\<lparr>d_net := s\<rparr>)
                | Some sz \<Rightarrow> do {
                    target \<leftarrow> tcp_destination mode w;
                    let destination = map_option (\<lambda>i. drop i text) target;
                    len \<leftarrow> (case destination of None \<Rightarrow> Some 0 | Some name \<Rightarrow> strlen name);
                    if len \<ge> MAX_FILENAME_LEN then reply tcp_usage fs (d\<lparr>d_net := s\<rparr>)
                    else do {
                      (now, s) \<leftarrow> now_us env (s\<lparr>ns_peer_ip := ip, ns_have_mac := False, ns_resolving := True\<rparr>);
                      s \<leftarrow> arp_loop env (now + 5000000) 0 s;
                      let d = d\<lparr>d_net := s\<lparr>ns_resolving := False\<rparr>\<rparr>;
                      if \<not> ns_have_mac s then reply (line ''TCP failed: ARP lookup timed out.'') fs d
                      else tcp_connect env mode destination slot port sz fs d } }) }) } })"

definition tcp_command :: "('m, 'h) net_env \<Rightarrow> bytes \<Rightarrow> fs \<Rightarrow> ('m, 'h) net_state device \<Rightarrow> (fs \<times> ('m, 'h) net_state device) option" where
  "tcp_command env arguments fs d = do {
     (text, found) \<leftarrow> tcp_words arguments;
     (case found of None \<Rightarrow> reply tcp_usage fs d
      | Some w \<Rightarrow> do {
          status \<leftarrow> (if length w = 1 then word_is text w 0 ''status'' else Some False);
          if w = [] \<or> status then do { d \<leftarrow> tcp_status puts (en_larp env) (ns_tcp (d_net d)) d; Some (fs, d) }
          else do {
            mode \<leftarrow> tcp_mode_of text w;
            (case mode of None \<Rightarrow> reply tcp_usage fs d
             | Some mode \<Rightarrow> do {
                 peer \<leftarrow> tcp_peer text w;
                 (case peer of None \<Rightarrow> reply tcp_usage fs d
                  | Some (ip, port) \<Rightarrow> tcp_transfer env mode text w ip port fs d) }) } }) }"

section \<open>The transfer ends\<close>

text \<open>Escape or Control-C arrives on the serial line at poll \<open>t\<close>.\<close>

definition cancels :: "(nat \<Rightarrow> ports) \<Rightarrow> nat \<Rightarrow> bool" where
  "cancels inp t \<longleftrightarrow> in_lsr (inp t) AND 1 \<noteq> 0 \<and> (in_rbr (inp t) = 3 \<or> in_rbr (inp t) = 27)"

definition ended :: "('m, 'h) net_state device \<Rightarrow> bool" where
  "ended d \<longleftrightarrow> tc_state (ns_tcp (d_net d)) = TCP_DONE \<or> tc_state (ns_tcp (d_net d)) = TCP_FAILED"

definition same_console :: "'n device \<Rightarrow> 'n device \<Rightarrow> bool" where
  "same_console d d' \<longleftrightarrow> d_ports d' = d_ports d \<and> d_screen d' = d_screen d \<and> d_font d' = d_font d"

lemma same_console_wf: "same_console d d' \<Longrightarrow> device_wf d \<Longrightarrow> device_wf d'"
  by (simp add: same_console_def device_wf_def)

lemma same_console_trans: "same_console d d' \<Longrightarrow> same_console d' d'' \<Longrightarrow> same_console d d''"
  by (simp add: same_console_def)

text \<open>What every step of the transfer keeps.\<close>

definition transferring :: "('m, 'h) net_env \<Rightarrow> ('m, 'h) net_state \<Rightarrow> bool" where
  "transferring env s \<longleftrightarrow> net_wf env s \<and> tcp_alive s \<and> abi_wf (en_abi env) \<and> ns_running s"

lemma transferring_ok: "transferring env s \<Longrightarrow> net_ok env s (Some s') \<Longrightarrow> transferring env s'"
  by (auto simp: transferring_def net_ok_def)

lemma transfer_step_ok:
  assumes "transferring env (d_net d)"
  shows "\<exists>d'. transfer_step env d = Some d' \<and> d_polls d' = d_polls d + 1 \<and> same_console d d' \<and> transferring env (d_net d') \<and>
    net_ok env (d_net d) (Some (d_net d')) \<and> (cancels (d_ports d) (d_polls d) \<longrightarrow> ended d')"
proof -
  have w: "net_wf env (d_net d)" "tcp_alive (d_net d)" "abi_wf (en_abi env)" using assms by (simp_all add: transferring_def)
  obtain s where s: "rtl_poll env (d_net d) = Some s" "net_ok env (d_net d) (Some s)" using rtl_poll_ok [OF w] by (rule net_okE)
  have ts: "transferring env s" by (rule transferring_ok [OF assms s(2)])
  obtain key sh where key: "decode_key (d_ports d (d_polls d)) (d_shift d) = (key, sh)" by (metis surj_pair)
  let ?d = "d\<lparr>d_polls := d_polls d + 1, d_shift := sh, d_net := s\<rparr>"
  have p: "poll_ch (\<lambda>_. s) d = (key, ?d)" by (simp add: poll_ch_def key)
  have stop: "cancels (d_ports d) (d_polls d) \<Longrightarrow> key = 3 \<or> key = 27" using key by (auto simp: cancels_def decode_key_def)
  show ?thesis
  proof (cases "key = 3 \<or> key = 27")
    case False
    then have "transfer_step env d = Some ?d" using s(1) p by (simp add: transfer_step_def)
    then show ?thesis using False stop s(2) ts by (auto simp: same_console_def)
  next
    case True
    obtain isn data where c: "tcp_wf isn data (ns_tcp s)" using ts by (auto simp: transferring_def tcp_alive_def)
    from native.abort_ok [OF c, of env s s "''cancelled''"] ts obtain c' u where
      u: "tcp_abort (emit_native env) (ns_tcp s) ''cancelled'' s = Some (c', u)" "tcp_wf isn data c'" "net_wf env u" "same_link s u" "tc_state c' = TCP_FAILED"
      by (auto simp: transferring_def)
    have ok: "net_ok env (d_net d) (Some (u\<lparr>ns_tcp := c'\<rparr>))" by (rule net_ok_trans [OF s(2) write_back [OF u(3,4,2)]])
    have "transfer_step env d = Some (?d\<lparr>d_net := u\<lparr>ns_tcp := c'\<rparr>\<rparr>)" using True s(1) p u(1) by (simp add: transfer_step_def)
    then show ?thesis using ok u(5) transferring_ok [OF assms ok] by (auto simp: same_console_def ended_def)
  qed
qed

lemma transfer_loop_returns:
  "transferring env (d_net d) \<Longrightarrow> cancels (d_ports d) t \<Longrightarrow> d_polls d \<le> t \<or> ended d \<Longrightarrow>
   \<exists>d'. transfer_loop env d = Some d' \<and> ended d' \<and> same_console d d' \<and> transferring env (d_net d') \<and> net_ok env (d_net d) (Some (d_net d')) \<and>
     d_polls d \<le> d_polls d' \<and> d_polls d' \<le> max (d_polls d) (t + 1)"
proof (induction "t + 1 - d_polls d" arbitrary: d rule: less_induct)
  case less
  have ok: "net_ok env (d_net d) (Some (d_net d))" using less.prems(1) by (auto simp: transferring_def intro: net_ok_refl)
  show ?case
  proof (cases "ended d")
    case True
    then have "transfer_loop env d = Some d" by (subst transfer_loop.simps) (auto simp: ended_def)
    then show ?thesis using True ok less.prems(1) by (auto simp: same_console_def)
  next
    case False
    obtain d1 where d1: "transfer_step env d = Some d1" "d_polls d1 = d_polls d + 1" "same_console d d1" "transferring env (d_net d1)"
      "net_ok env (d_net d) (Some (d_net d1))" "cancels (d_ports d) (d_polls d) \<longrightarrow> ended d1" using transfer_step_ok [OF less.prems(1)] by blast
    have l: "d_polls d \<le> t" using less.prems(3) False by simp
    have c1: "cancels (d_ports d1) t" using less.prems(2) d1(3) by (simp add: same_console_def)
    have n: "d_polls d1 \<le> t \<or> ended d1" using d1(2,6) less.prems(2) l by (cases "d_polls d = t") auto
    have dec: "t + 1 - d_polls d1 < t + 1 - d_polls d" using d1(2) l by simp
    obtain d' where d': "transfer_loop env d1 = Some d'" "ended d'" "same_console d1 d'" "transferring env (d_net d')" "net_ok env (d_net d1) (Some (d_net d'))"
      "d_polls d1 \<le> d_polls d'" "d_polls d' \<le> max (d_polls d1) (t + 1)" using less.hyps [OF dec d1(4) c1 n] by blast
    have "transfer_loop env d = Some d'" using False d1(1) d'(1) by (subst transfer_loop.simps) (simp add: ended_def)
    then show ?thesis using d' d1 l same_console_trans [OF d1(3) d'(3)] net_ok_trans [OF d1(5) d'(5)] by auto
  qed
qed

section \<open>The end of the command\<close>

context console_writer begin

lemma prints_tcp_status: "dev_ok d \<Longrightarrow> prints (tcp_status sys_write lp c d)"
  unfolding tcp_status_def by auto

end

text \<open>Printing leaves the input and the network alone.\<close>

interpretation aside: console_writer puts "\<lambda>d. device_wf d \<and> same_input d0 d" for d0
proof
  fix d :: "'a device" and t
  assume d: "device_wf d \<and> same_input d0 d" and t: "is_cstr t"
  obtain d' where "puts t d = Some d'" "device_wf d'" "same_input d d'" using puts_same [of d t] d t by blast
  then show "\<exists>d'. puts t d = Some d' \<and> device_wf d' \<and> same_input d0 d'" using d by (auto simp: same_input_def)
qed

lemma printed:
  assumes "device_wf d"
  shows "\<exists>d'. say puts t d = Some d' \<and> device_wf d' \<and> same_input d d'" "\<exists>d'. tcp_status puts lp c d = Some d' \<and> device_wf d' \<and> same_input d d'"
proof -
  have d: "device_wf d \<and> same_input d d" using assms by (simp add: same_input_def)
  show "\<exists>d'. say puts t d = Some d' \<and> device_wf d' \<and> same_input d d'" "\<exists>d'. tcp_status puts lp c d = Some d' \<and> device_wf d' \<and> same_input d d'"
    using aside.prints_say [OF d] aside.prints_tcp_status [OF d] unfolding aside.prints_def by blast+
qed

lemma remember_ok:
  assumes "net_wf env s" "slot < 8"
  shows "\<exists>ws. remember slot port peer now s = Some (s\<lparr>ns_timewait := ws\<rparr>) \<and> net_wf env (s\<lparr>ns_timewait := ws\<rparr>)"
  using assms by (auto simp: remember_def net_wf_def slice_Some wr_Some dest!: set_update_subset_insert [THEN subsetD])

text \<open>What a transfer may do to the files: nothing unless it is done, then the received bytes are written.\<close>

definition received :: "'m Tcp \<Rightarrow> bytes option \<Rightarrow> fs \<Rightarrow> fs \<Rightarrow> bool" where
  "received c destination fs fs' \<longleftrightarrow> (case destination of
     Some name \<Rightarrow> tc_state c = TCP_DONE \<and> fs_abs fs' = snd (spec_write (cstr name) (tc_rx c) (int (unat (tc_rx_size c))) (fs_abs fs)) \<or>
       tc_state c = TCP_FAILED \<and> fs' = fs
   | None \<Rightarrow> fs' = fs)"

lemma tcp_finish_ok:
  assumes "net_wf env (d_net d)" "device_wf d" "ended d" "ns_clock_ready (d_net d)" "slot < 8" "fs_wf fs" "mode = Demo \<longrightarrow> destination = None"
    "destination \<noteq> None \<longrightarrow> is_cstr (the destination)" "tcp_wf isn data (ns_tcp (d_net d))"
  shows "\<exists>fs' d'. tcp_finish env mode destination slot port peer fs d = Some (fs', d') \<and> device_wf d' \<and> net_wf env (d_net d') \<and>
    ns_tcp (d_net d') = ns_tcp (d_net d) \<and> ns_running (d_net d') = ns_running (d_net d) \<and> d_polls d' = d_polls d \<and> fs_wf fs' \<and> received (ns_tcp (d_net d)) destination fs fs'"
proof -
  let ?c = "ns_tcp (d_net d)"
  show ?thesis
  proof (cases "tc_state ?c = TCP_DONE")
    case False
    then have f: "tc_state ?c = TCP_FAILED" using assms(3) by (simp add: ended_def)
    then obtain e where e: "tc_error ?c = Some e" using assms(9) by (auto simp: tcp_wf_def)
    obtain d1 where d1: "say puts ''TCP failed: '' d = Some d1" "device_wf d1" "same_input d d1" using printed(1) [OF assms(2)] by blast
    obtain d2 where d2: "say puts e d1 = Some d2" "device_wf d2" "same_input d1 d2" using printed(1) [OF d1(2)] by blast
    obtain d3 where d3: "say puts (line '''') d2 = Some d3" "device_wf d3" "same_input d2 d3" using printed(1) [OF d2(2)] by blast
    have "tcp_finish env mode destination slot port peer fs d = Some (fs, d3)" using f e d1(1) d2(1) d3(1) by (simp add: tcp_finish_def)
    then show ?thesis using assms(1,6) f d1 d2 d3 by (auto simp: same_input_def received_def split: option.split)
  next
    case True
    obtain now h where now: "now_us env (d_net d) = Some (now, (d_net d)\<lparr>ns_hw := h\<rparr>)" using now_us_ok [OF assms(1,4)] by blast
    have w: "net_wf env ((d_net d)\<lparr>ns_hw := h\<rparr>)" using hw_link [OF assms(1)] by simp
    obtain ws where ws: "remember slot port peer now ((d_net d)\<lparr>ns_hw := h\<rparr>) = Some ((d_net d)\<lparr>ns_hw := h, ns_timewait := ws\<rparr>)"
      "net_wf env ((d_net d)\<lparr>ns_hw := h, ns_timewait := ws\<rparr>)" using remember_ok [OF w assms(5)] by fastforce
    let ?d = "d\<lparr>d_net := (d_net d)\<lparr>ns_hw := h, ns_timewait := ws\<rparr>\<rparr>"
    have wd: "device_wf ?d" using assms(2) by (simp add: device_wf_def)
    have pr: "\<exists>d'. say puts t ?d = Some d' \<and> device_wf d' \<and> d_net d' = d_net ?d \<and> d_polls d' = d_polls d" for t using printed(1) [OF wd] by (auto simp: same_input_def)
    show ?thesis
    proof (cases "mode = Demo \<and> (tc_rx_size ?c \<noteq> of_nat TCP_BUFFER \<or> take TCP_BUFFER (tc_rx ?c) \<noteq> take TCP_BUFFER (ns_source (d_net d)))")
      case bad: True
      then have "destination = None" using assms(7) by simp
      moreover obtain d' where "say puts (line ''TCP DEMO FAIL: echoed bytes differ.'') ?d = Some d'" "device_wf d'" "d_net d' = d_net ?d" "d_polls d' = d_polls d" using pr by blast
      ultimately show ?thesis using True bad now ws assms(6) by (simp add: tcp_finish_def received_def)
    next
      case good: False
      have l: "nat (int (unat (tc_rx_size ?c))) \<le> length (tc_rx ?c)" using assms(9) by (simp add: tcp_wf_def)
      obtain saved fs' where sv: "(case destination of None \<Rightarrow> Some (0, fs) | Some name \<Rightarrow> sys_write_file (Some name) (Some (tc_rx ?c)) (int (unat (tc_rx_size ?c))) fs) = Some (saved, fs')"
        "fs_wf fs'" "received ?c destination fs fs'"
      proof (cases destination)
        case None
        then show ?thesis using that assms(6) by (simp add: received_def)
      next
        case (Some n)
        then have "is_cstr n" using assms(8) by simp
        from sys_write_file_spec [OF assms(6) this l] show ?thesis using that Some True by (auto simp: received_def)
      qed
      define msg where "msg = line (if saved < 0 then ''TCP transfer complete; could not save destination RAM file.''
           else if mode = Demo then ''TCP DEMO PASS: 16384 binary bytes echoed exactly using LARP.''
           else ''TCP TRANSFER PASS: bytes acknowledged, peer EOF received.'')"
      obtain d' where d': "say puts msg ?d = Some d'" "device_wf d'" "d_net d' = d_net ?d" "d_polls d' = d_polls d" using pr by blast
      have "tcp_finish env mode destination slot port peer fs d = Some (fs', d')"
        unfolding tcp_finish_def Let_def now bind.bind_lunit prod.case ws(1)
        using True good sv(1) d'(1) by (cases "mode = Demo") (auto simp: msg_def [symmetric])
      then show ?thesis using d' ws(2) sv(2,3) by simp
    qed
  qed
qed

lemma tcp_start_source:
  assumes "sz \<le> length b" "sz \<le> TCP_BUFFER" "port \<noteq> 0" "peer \<noteq> 0"
  shows "\<exists>c. tcp_start lp port peer isn (Some b) sz now = Some c \<and> tcp_wf isn (take sz b) c"
proof -
  have l: "length (take sz b) = sz" using assms(1) by simp
  have "tcp_start lp port peer isn (Some b) sz now = tcp_start lp port peer isn (Some (take sz b)) sz now"
    using assms(1) by (simp add: tcp_start_def Let_def slice_Some)
  then show ?thesis using tcp_start_ok [of port peer "take sz b" lp isn now] assms l by auto
qed

lemma tsc_ok: "\<exists>t h. tsc env s = (t, s\<lparr>ns_hw := h\<rparr>)"
  by (simp add: tsc_def split: prod.split) (metis surj_pair)

lemma tcp_connect_returns:
  assumes n: "net_wf env (d_net d)" "abi_wf (en_abi env)" "ns_clock_ready (d_net d)" "49152 \<le> ns_next_port (d_net d)" "ns_next_port (d_net d) \<le> 65535"
    and d: "device_wf d" "cancels (d_ports d) t" "d_polls d \<le> t"
    and p: "0 < port" "port \<le> 65535" "sz \<le> TCP_BUFFER" "slot < 8"
    and f: "fs_wf fs" "mode = Demo \<longrightarrow> destination = None" "destination \<noteq> None \<longrightarrow> is_cstr (the destination)"
  shows "\<exists>fs' d'. tcp_connect env mode destination slot port sz fs d = Some (fs', d') \<and> device_wf d' \<and> net_wf env (d_net d') \<and>
    \<not> ns_running (d_net d') \<and> ended d' \<and> d_polls d' \<le> t + 1 \<and> fs_wf fs' \<and> received (ns_tcp (d_net d')) destination fs fs'"
proof -
  let ?s = "(d_net d)\<lparr>ns_next_port := ns_next_port (d_net d) + 1\<rparr>"
  let ?l = "ucast (ns_next_port (d_net d)) :: u16" and ?q = "ucast port :: u16"
  have nz: "(ucast x :: u16) \<noteq> 0" if "0 < x" "x \<le> 65535" for x :: u32
  proof
    assume "(ucast x :: u16) = 0"
    then have "unat (ucast x :: u16) = 0" by simp
    then have "unat x mod 65536 = 0" by (simp add: unsigned_ucast_eq take_bit_eq_mod)
    moreover have "unat x \<le> 65535" "0 < unat x" using that by (simp_all add: word_le_nat_alt word_less_nat_alt)
    ultimately show False by simp
  qed
  have l: "?l \<noteq> 0" "?q \<noteq> 0" using nz [of "ns_next_port (d_net d)"] nz [of port] n(4,5) p(1,2) by (auto simp: word_less_nat_alt word_le_nat_alt)
  have w0: "net_wf env ?s" "ns_clock_ready ?s" using n(1,3) by (simp_all add: net_wf_def)
  obtain now h where now: "now_us env ?s = Some (now, ?s\<lparr>ns_hw := h\<rparr>)" using now_us_ok [OF w0] by blast
  obtain isn h' where isn: "tsc env (?s\<lparr>ns_hw := h\<rparr>) = (isn, ?s\<lparr>ns_hw := h'\<rparr>)" using tsc_ok [of env "?s\<lparr>ns_hw := h\<rparr>"] by auto
  have sl: "sz \<le> length (ns_source (d_net d))" using n(1) p(3) by (simp add: net_wf_def)
  obtain c where c: "tcp_start (en_larp env) ?l ?q (ucast isn) (Some (ns_source (d_net d))) sz now = Some c" "tcp_wf (ucast isn) (take sz (ns_source (d_net d))) c"
    using tcp_start_source [OF sl p(3) l] by blast
  let ?d = "d\<lparr>d_net := ?s\<lparr>ns_hw := h', ns_tcp := c, ns_running := True\<rparr>\<rparr>"
  have "device_wf ?d" using d(1) by (simp add: device_wf_def)
  then obtain d1 where d1: "say puts (line ''TCP connecting; default controller=LARP.'') ?d = Some d1" "device_wf d1" "same_input ?d d1" using printed(1) by blast
  have tr: "transferring env (d_net d1)" using n(1-3) c(2) d1(3) by (auto simp: transferring_def same_input_def net_wf_def tcp_alive_def)
  have cn: "cancels (d_ports d1) t" "d_polls d1 \<le> t \<or> ended d1" using d(2,3) d1(3) by (simp_all add: same_input_def)
  obtain d2 where d2: "transfer_loop env d1 = Some d2" "ended d2" "same_console d1 d2" "transferring env (d_net d2)" "d_polls d2 \<le> max (d_polls d1) (t + 1)"
    using transfer_loop_returns [OF tr cn] by blast
  let ?e = "d2\<lparr>d_net := (d_net d2)\<lparr>ns_running := False\<rparr>\<rparr>"
  have e: "net_wf env (d_net ?e)" "device_wf ?e" "ended ?e" "ns_clock_ready (d_net ?e)"
    using d2(2,4) same_console_wf [OF d2(3) d1(2)] by (auto simp: transferring_def net_wf_def device_wf_def ended_def)
  obtain i data where "tcp_wf i data (ns_tcp (d_net ?e))" using d2(4) by (auto simp: transferring_def tcp_alive_def)
  from tcp_finish_ok [OF e p(4) f this, of ?l ?q] obtain fs' d3 where d3: "tcp_finish env mode destination slot ?l ?q fs ?e = Some (fs', d3)" "device_wf d3"
    "net_wf env (d_net d3)" "ns_tcp (d_net d3) = ns_tcp (d_net ?e)" "\<not> ns_running (d_net d3)" "d_polls d3 = d_polls ?e" "fs_wf fs'"
    "received (ns_tcp (d_net ?e)) destination fs fs'" by auto
  obtain d4 where d4: "tcp_status puts (en_larp env) (ns_tcp (d_net d3)) d3 = Some d4" "device_wf d4" "same_input d3 d4" using printed(2) [OF d3(2)] by blast
  have "tcp_connect env mode destination slot port sz fs d = Some (fs', d4)"
    using now isn c(1) d1(1) d2(1) d3(1) d4(1) by (simp add: tcp_connect_def)
  moreover have "d_polls d4 \<le> t + 1" using d4(3) d3(6) d2(5) d1(3) d(3) by (simp add: same_input_def)
  ultimately show ?thesis using d4(2,3) d3 e(3) by (auto simp: same_input_def ended_def)
qed

section \<open>Properties\<close>

text \<open>Only a host of the local network and a port that exists are accepted as the peer.\<close>

lemma tcp_peer_valid: "tcp_peer text w = Some (Some (ip, port)) \<Longrightarrow> peer_ip ip \<and> 0 < port \<and> port \<le> 65535"
  by (auto simp: tcp_peer_def peer_ip_def word_gt_0 Option.bind_eq_Some_conv split: option.splits if_splits dest: net_number_le)

text \<open>C34: a transfer always ends for a user who gives up. Once the peer's address is known, for any hardware, peer and
  congestion controller, the transfer returns at the latest with the poll that reads Escape or Control-C: the loop over
  console, network and timer ends with the connection done or failed, no longer running, with the network and file
  system well formed; a received file is written exactly when the transfer is done.\<close>

theorem tcp_transfer_ends:
  assumes "net_wf env (d_net d)" "abi_wf (en_abi env)" "ns_clock_ready (d_net d)" "49152 \<le> ns_next_port (d_net d)" "ns_next_port (d_net d) \<le> 65535"
    and "device_wf d" "cancels (d_ports d) t" "d_polls d \<le> t"
    and "0 < port" "port \<le> 65535" "sz \<le> TCP_BUFFER" "slot < 8"
    and "fs_wf fs" "mode = Demo \<longrightarrow> destination = None" "destination \<noteq> None \<longrightarrow> is_cstr (the destination)"
  shows "\<exists>fs' d'. tcp_connect env mode destination slot port sz fs d = Some (fs', d') \<and> device_wf d' \<and> net_wf env (d_net d') \<and>
    \<not> ns_running (d_net d') \<and> ended d' \<and> d_polls d' \<le> t + 1 \<and> fs_wf fs' \<and> received (ns_tcp (d_net d')) destination fs fs'"
  by (rule tcp_connect_returns [OF assms])

definition tcp_device :: "(unit, unit) net_state device" where
  "tcp_device = \<lparr>d_ports = (\<lambda>t. \<lparr>in_lsr = 1, in_rbr = (if t = 3 then 27 else 13), in_kbs = 0, in_kbd = 0, in_pit = 0x20\<rparr>),
     d_polls = 0, d_shift = (False, False), d_serial = [], d_out = [], d_font = replicate 1024 0,
     d_screen = \<lparr>sc_pixels = replicate PIXELS 0, sc_row = 0, sc_column = 0, sc_title = replicate 38 0\<rparr>,
     d_net = sample_net\<lparr>ns_clock_ready := True, ns_ticks := 1\<rparr>\<rparr>"

lemma tcp_device_ok: "device_wf tcp_device" "net_wf sample_env (d_net tcp_device)" "ns_clock_ready (d_net tcp_device)" "cancels (d_ports tcp_device) 3"
proof -
  have "enters (d_ports tcp_device) (t + 4) \<and> in_pit (d_ports tcp_device (t + 4)) AND 0x20 \<noteq> 0" for t by (simp add: tcp_device_def enters_def)
  then have "attended (d_ports tcp_device)" unfolding attended_def by (metis le_add1)
  then show "device_wf tcp_device" by (simp add: device_wf_def tcp_device_def screen_wf_def fb_def nth_replicate)
  show "net_wf sample_env (d_net tcp_device)" "ns_clock_ready (d_net tcp_device)" using sample_net_wf(1) by (simp_all add: tcp_device_def net_wf_def)
  show "cancels (d_ports tcp_device) 3" by (simp add: tcp_device_def cancels_def)
qed

theorem tcp_transfer_ends_witness:
  "\<exists>fs' d'. tcp_connect sample_env Receive (Some (ascii ''new'')) 0 7 0 (k_fs demo_kstate) tcp_device = Some (fs', d') \<and> device_wf d' \<and> net_wf sample_env (d_net d') \<and>
    \<not> ns_running (d_net d') \<and> ended d' \<and> d_polls d' \<le> 3 + 1 \<and> fs_wf fs' \<and> received (ns_tcp (d_net d')) (Some (ascii ''new'')) (k_fs demo_kstate) fs'"
proof -
  have p: "49152 \<le> ns_next_port (d_net tcp_device)" "ns_next_port (d_net tcp_device) \<le> 65535" "d_polls tcp_device \<le> 3"
    by (simp_all add: tcp_device_def sample_net_def)
  have f: "fs_wf (k_fs demo_kstate)" using demo_kstate_wf by (simp add: kstate_wf_def)
  show ?thesis
    by (rule tcp_transfer_ends [OF tcp_device_ok(2) sample_net_wf(3) tcp_device_ok(3) p(1,2) tcp_device_ok(1,4) p(3) _ _ _ _ f]) simp_all
qed

end
