(* ===== verification/Shell.thy ===== *)
theory Shell
  imports Isolation_Test App_Console Runtime_Files Tcp_Command
begin

text \<open>
  The shell of \<^verbatim>\<open>src/jordyOS/kernel.c\<close>: how a command line is told apart and handed to the components modelled in the
  other theories, and a round of the shell, from the launcher or a typed line. A pointer behind the name of the command
  is an offset into the line. The architecture report and the result of the vendored self-test are arguments. Starting
  the application task and yielding to it until it exits (\<open>Scheduler\<close>) is the call of the application.
\<close>

section \<open>Telling commands apart\<close>

datatype shell_action =
    Do_ape bytes \<comment> \<open>the text copied to \<^verbatim>\<open>ape_command\<close>\<close>
  | Do_ebpfw nat
  | Do_net nat
  | Do_larp nat
  | Do_tcp nat
  | Do_arch
  | Do_isolation nat
  | Do_ls
  | Do_desktop
  | Do_help
  | Do_clear
  | Do_unknown
  | Do_nothing

definition starts_with :: "bytes \<Rightarrow> string \<Rightarrow> bool option" where
  "starts_with buf t = do { v \<leftarrow> memcmp buf (ascii t) (length t); Some (v = 0) }"

definition either :: "bool option \<Rightarrow> bool option \<Rightarrow> bool option" where
  "either a b = do { h \<leftarrow> a; if h then Some True else b }"

definition behind :: "bytes \<Rightarrow> nat \<Rightarrow> nat option" where
  "behind buf n = do { c \<leftarrow> rd buf n; Some (if c \<noteq> 0 then n + 1 else n) }"

definition is_command :: "bytes \<Rightarrow> string \<Rightarrow> bool option" where
  "is_command buf name = either (cstr_is buf name) (starts_with buf (name @ '' ''))"

definition shell_dispatch :: "bytes \<Rightarrow> shell_action option" where
  "shell_dispatch buf = do {
     h \<leftarrow> either (is_command buf ''ape'') (either (starts_with buf ''apb '') (starts_with buf ''compile ''));
     if h then Some (Do_ape buf) else do {
     h \<leftarrow> is_command buf ''ebpfw''; if h then do { i \<leftarrow> behind buf 5; Some (Do_ebpfw i) } else do {
     h \<leftarrow> is_command buf ''net''; if h then do { i \<leftarrow> behind buf 3; Some (Do_net i) } else do {
     h \<leftarrow> is_command buf ''larp''; if h then do { i \<leftarrow> behind buf 4; Some (Do_larp i) } else do {
     h \<leftarrow> is_command buf ''tcp''; if h then do { i \<leftarrow> behind buf 3; Some (Do_tcp i) } else do {
     h \<leftarrow> cstr_is buf ''arch''; if h then Some Do_arch else do {
     h \<leftarrow> is_command buf ''isolation''; if h then do { i \<leftarrow> behind buf 9; Some (Do_isolation i) } else do {
     h \<leftarrow> cstr_is buf ''ls''; if h then Some Do_ls else do {
     calc \<leftarrow> cstr_is buf ''calc''; edit \<leftarrow> cstr_is buf ''edit''; snake \<leftarrow> cstr_is buf ''snake''; history \<leftarrow> cstr_is buf ''history'';
     if calc \<or> edit \<or> snake \<or> history
     then Some (Do_ape (ascii (if calc then ''ape calc.ape'' else if edit then ''ape edit.ape'' else if snake then ''ape snake.ape'' else ''ape history.ape''))) else do {
     h \<leftarrow> cstr_is buf ''desktop''; if h then Some Do_desktop else do {
     h \<leftarrow> cstr_is buf ''help''; if h then Some Do_help else do {
     h \<leftarrow> either (cstr_is buf ''clear'') (cstr_is buf ''cls''); if h then Some Do_clear else do {
     c \<leftarrow> rd buf 0; Some (if c \<noteq> 0 then Do_unknown else Do_nothing) } } } } } } } } } } } } }"

section \<open>A round of the shell\<close>

record ('m, 'h) shell_env =
  se_net :: "('m, 'h) net_env"
  se_poll :: "('m, 'h) net_state \<Rightarrow> ('m, 'h) net_state"
  se_hash :: bytes
  se_larp :: "bytes option"
  se_image :: image
  se_probes :: "('m, 'h) net_state device probes"
  se_arch :: "('m, 'h) net_state device \<Rightarrow> ('m, 'h) net_state device option"

record ('m, 'h) shell_state =
  sh_iso :: "('m, 'h) net_state device iso"
  sh_slot :: u32
  sh_ape :: bytes
  sh_line :: bytes
  sh_desktop :: bool

definition services_of :: "('m, 'h) shell_env \<Rightarrow> ('m, 'h) net_state device services" where
  "services_of env = console_services (se_poll env)"

definition on_device :: "(('m, 'h) net_state device \<Rightarrow> ('m, 'h) net_state device option) \<Rightarrow> ('m, 'h) shell_state \<Rightarrow> ('m, 'h) shell_state option" where
  "on_device f m = do { s \<leftarrow> with_dev f (sh_iso m); Some (m\<lparr>sh_iso := s\<rparr>) }"

text \<open>A command on the network state beside the console it prints to.\<close>

definition on_network :: "(('m, 'h) net_state \<Rightarrow> ('m, 'h) net_state device \<Rightarrow> (('m, 'h) net_state \<times> ('m, 'h) net_state device) option) \<Rightarrow>
    ('m, 'h) shell_state \<Rightarrow> ('m, 'h) shell_state option" where
  "on_network f = on_device (\<lambda>d. do { (s, d) \<leftarrow> f (d_net d) d; Some (d\<lparr>d_net := s\<rparr>) })"

definition shell_help :: string where
  "shell_help = concat (map line
     [''Available commands:'',
      ''  arch            - CPU mode, paging and 64-bit ABI checks'',
      ''  isolation test  - Exercise ring-3 memory/privilege protection'',
      ''  ebpfw help      - Native IPv4 firewall controls'',
      ''  net             - Network status (net up to start RTL8139)'',
      ''  larp test       - Test vendored LARP controller'',
      ''  tcp             - TCP file transfers; default controller LARP'',
      ''  desktop         - Open graphical launcher'',
      ''  snake           - Play Snake (Apelang graphics)'',
      ''  history         - View project development dates'',
      ''  ape             - Apelang REPL (exit to return)'',
      ''  ape <file.ape>  - Compile and run source'',
      ''  compile <file.ape> - Compile to RAM bytecode'',
      ''  apb <file.apb>  - Run Apelang bytecode'',
      ''  ls              - List RAM files'',
      ''  calc    - Run the calculator app'',
      ''  edit    - Run the text editor app'',
      ''  clear   - Clear the screen'',
      ''  help    - Show this help message''])"

definition launch_ape :: "('m, 'h) shell_env \<Rightarrow> bytes \<Rightarrow> ('m, 'h) shell_state \<Rightarrow> ('m, 'h) shell_state option" where
  "launch_ape env text m = do {
     command \<leftarrow> strcpy (sh_ape m) 0 text;
     (slot, s) \<leftarrow> app_ape (services_of env) (se_image env) (se_probes env) command (sh_slot m) (sh_iso m);
     Some (m\<lparr>sh_ape := command, sh_slot := slot, sh_iso := s\<rparr>) }"

definition list_files :: "('m, 'h) shell_state \<Rightarrow> ('m, 'h) shell_state option" where
  "list_files m = (let room = MAX_FILES * (MAX_FILENAME_LEN + 1) in do {
     (n, files) \<leftarrow> sys_list_files (Some (replicate room 0)) (int room) (k_fs (is_k (sh_iso m)));
     files \<leftarrow> files;
     m \<leftarrow> on_device (puts files) m;
     on_device (say puts [CHR 0x0A]) m })"

definition run_tcp :: "('m, 'h) shell_env \<Rightarrow> bytes \<Rightarrow> ('m, 'h) shell_state \<Rightarrow> ('m, 'h) shell_state option" where
  "run_tcp env arguments m = (let s = sh_iso m; k = is_k s in do {
     (fs, d) \<leftarrow> tcp_command (se_net env) arguments (k_fs k) (k_dev k);
     Some (m\<lparr>sh_iso := s\<lparr>is_k := k\<lparr>k_fs := fs, k_dev := d\<rparr>\<rparr>\<rparr>) })"

definition perform :: "('m, 'h) shell_env \<Rightarrow> shell_action \<Rightarrow> ('m, 'h) shell_state \<Rightarrow> ('m, 'h) shell_state option" where
  "perform env act m = (let buf = sh_line m in case act of
       Do_ape text \<Rightarrow> launch_ape env text m
     | Do_ebpfw i \<Rightarrow> on_network (fw_command puts (se_hash env) (se_net env) (drop i buf)) m
     | Do_net i \<Rightarrow> on_network (net_command puts (se_net env) (drop i buf)) m
     | Do_larp i \<Rightarrow> on_device (larp_command puts (se_larp env) (drop i buf)) m
     | Do_tcp i \<Rightarrow> run_tcp env (drop i buf) m
     | Do_arch \<Rightarrow> on_device (se_arch env) m
     | Do_isolation i \<Rightarrow> do { s \<leftarrow> isolation_command (services_of env) (se_image env) (se_probes env) (drop i buf) (sh_iso m); Some (m\<lparr>sh_iso := s\<rparr>) }
     | Do_ls \<Rightarrow> list_files m
     | Do_desktop \<Rightarrow> Some (m\<lparr>sh_desktop := True\<rparr>)
     | Do_help \<Rightarrow> on_device (say puts shell_help) m
     | Do_clear \<Rightarrow> on_device (sv_clear (services_of env)) m
     | Do_unknown \<Rightarrow> on_device (\<lambda>d. do { d \<leftarrow> say puts (''Unknown command: '' @ [CHR 0x27]) d; d \<leftarrow> puts buf d;
         say puts ([CHR 0x27] @ ''. Type '' @ [CHR 0x27] @ ''help'' @ [CHR 0x27] @ line ''.'') d }) m
     | Do_nothing \<Rightarrow> Some m)"

definition shell_command :: "('m, 'h) shell_env \<Rightarrow> ('m, 'h) shell_state \<Rightarrow> ('m, 'h) shell_state option" where
  "shell_command env m = do { act \<leftarrow> shell_dispatch (sh_line m); perform env act m }"

definition launcher_title :: "int \<Rightarrow> string" where
  "launcher_title act = (if act = 0 then ''Calculator / Apelang'' else if act = 1 then ''Editor / Apelang''
     else if act = 2 then ''Apelang / REPL'' else ''JordyOS / Shell'')"

definition launcher_command :: "int \<Rightarrow> string" where
  "launcher_command act = (if act = 0 then ''calc'' else if act = 1 then ''edit'' else if act = 4 then ''snake''
     else if act = 5 then ''history'' else ''ape'')"

definition launcher_round :: "('m, 'h) shell_env \<Rightarrow> ('m, 'h) shell_state \<Rightarrow> ('m, 'h) shell_state option" where
  "launcher_round env m = (let s = sh_iso m; k = is_k s in do {
     (act, d) \<leftarrow> gui_desktop (se_poll env) (k_dev k);
     d \<leftarrow> sv_terminal (services_of env) (ascii (launcher_title act)) d;
     let m = m\<lparr>sh_iso := s\<lparr>is_k := k\<lparr>k_dev := d\<rparr>\<rparr>\<rparr>;
     if act = 3 then Some (m\<lparr>sh_desktop := False\<rparr>)
     else do { buf \<leftarrow> strcpy (sh_line m) 0 (ascii (launcher_command act)); shell_command env (m\<lparr>sh_line := buf\<rparr>) } })"

definition prompt_round :: "('m, 'h) shell_env \<Rightarrow> ('m, 'h) shell_state \<Rightarrow> ('m, 'h) shell_state option" where
  "prompt_round env m = (let s = sh_iso m; k = is_k s in do {
     d \<leftarrow> say puts (CHR 0x0A # ''sh> '') (k_dev k);
     (buf, d) \<leftarrow> read_line (se_poll env) (Some (sh_line m)) 96 d;
     buf \<leftarrow> buf;
     shell_command env (m\<lparr>sh_iso := s\<lparr>is_k := k\<lparr>k_dev := d\<rparr>\<rparr>, sh_line := buf\<rparr>) })"

definition shell_round :: "('m, 'h) shell_env \<Rightarrow> ('m, 'h) shell_state \<Rightarrow> ('m, 'h) shell_state option" where
  "shell_round env m = (if sh_desktop m then launcher_round env m else prompt_round env m)"

section \<open>The words of a command line\<close>

definition first_word :: "bytes \<Rightarrow> bytes" where
  "first_word s = takeWhile (\<lambda>c. c \<noteq> 32) s"

lemma prefix_of_cstr:
  assumes "is_cstr buf" "0 \<notin> set t" "length t \<le> length buf"
  shows "take (length t) buf = t \<longleftrightarrow> (\<exists>r. cstr buf = t @ r)"
proof
  assume "take (length t) buf = t"
  then have "buf = t @ drop (length t) buf" by (metis append_take_drop_id)
  moreover have "cstr (t @ x) = t @ cstr x" for x using assms(2) by (induction t) auto
  ultimately show "\<exists>r. cstr buf = t @ r" by metis
next
  assume "\<exists>r. cstr buf = t @ r"
  then obtain r where r: "cstr buf = t @ r" by blast
  obtain x where "buf = cstr buf @ 0 # x" using cstr_split [OF assms(1)] by blast
  then show "take (length t) buf = t" unfolding r by (metis append.assoc append_eq_conv_conj)
qed

lemma starts_with_eq:
  assumes "is_cstr buf" "plain t" "length t \<le> length buf"
  shows "starts_with buf t = Some (\<exists>r. cstr buf = text_of t @ r)"
proof -
  have l: "length (text_of t) = length t" "take (length t) (ascii t) = text_of t" by (simp_all add: text_of_def ascii_def)
  have "\<exists>v. memcmp buf (ascii t) (length t) = Some v \<and> (v = 0 \<longleftrightarrow> take (length t) buf = take (length t) (ascii t))"
    using assms(3) by (intro memcmp_spec) (simp_all add: ascii_def)
  then show ?thesis using prefix_of_cstr [OF assms(1) text_of_no_nul [OF assms(2)]] assms(3) unfolding l by (auto simp: starts_with_def l)
qed

lemma first_word_iff: "32 \<notin> set t \<Longrightarrow> first_word s = t \<longleftrightarrow> s = t \<or> (\<exists>r. s = t @ 32 # r)"
proof
  assume w: "first_word s = t"
  show "s = t \<or> (\<exists>r. s = t @ 32 # r)"
  proof (cases "dropWhile (\<lambda>c. c \<noteq> 32) s")
    case Nil
    then show ?thesis using w takeWhile_dropWhile_id [of "\<lambda>c. c \<noteq> 32" s] by (metis append_Nil2 first_word_def)
  next
    case (Cons c r)
    have "c = 32" using hd_dropWhile [of "\<lambda>c. c \<noteq> 32" s] Cons by auto
    then show ?thesis using w takeWhile_dropWhile_id [of "\<lambda>c. c \<noteq> 32" s] Cons by (metis first_word_def)
  qed
next
  assume "32 \<notin> set t" "s = t \<or> (\<exists>r. s = t @ 32 # r)"
  then show "first_word s = t" unfolding first_word_def by (induction t arbitrary: s) auto
qed

lemma text_of_append: "text_of (s @ t) = text_of s @ text_of t" "text_of '' '' = [32]"
  by (simp_all add: text_of_def)

lemma is_command_eq:
  assumes "is_cstr buf" "plain name" "32 \<notin> set (text_of name)" "length name < length buf"
  shows "is_command buf name = Some (first_word (cstr buf) = text_of name)"
proof -
  have p: "plain (name @ '' '')" using assms(2) by (simp add: plain_def)
  have "starts_with buf (name @ '' '') = Some (\<exists>r. cstr buf = text_of name @ 32 # r)"
    using starts_with_eq [OF assms(1) p] assms(4) by (simp add: text_of_append)
  then show ?thesis using cstr_is_eq [OF assms(1,2)] first_word_iff [OF assms(3), of "cstr buf"] by (simp add: is_command_def either_def)
qed

text \<open>Where the argument begins: behind the blank, if there is one.\<close>

definition argument_at :: "bytes \<Rightarrow> nat" where
  "argument_at s = (if first_word s = s then length s else length (first_word s) + 1)"

lemma behind_eq:
  assumes "is_cstr buf" "first_word (cstr buf) = text_of name" "32 \<notin> set (text_of name)"
  shows "behind buf (length name) = Some (argument_at (cstr buf))"
proof -
  have l: "length (text_of name) = length name" by (simp add: text_of_def)
  obtain x where x: "buf = cstr buf @ 0 # x" using cstr_split [OF assms(1)] by blast
  show ?thesis
  proof (cases "cstr buf = text_of name")
    case True
    then have "rd buf (length name) = Some 0" using x l by (metis length_append nth_append_length rd_Some add_less_cancel_left less_add_same_cancel1 length_greater_0_conv list.distinct(1))
    then show ?thesis using True assms(2) l by (simp add: behind_def argument_at_def del: rd_eq_Some)
  next
    case False
    then obtain r where r: "cstr buf = text_of name @ 32 # r" using assms(2) first_word_iff [OF assms(3)] by blast
    then have "buf = text_of name @ 32 # (r @ 0 # x)" using x by simp
    then have "rd buf (length name) = Some 32" using l by (metis length_append nth_append_length rd_Some less_add_same_cancel1 length_greater_0_conv list.distinct(1))
    then show ?thesis using False assms(2) l by (simp add: behind_def argument_at_def del: rd_eq_Some)
  qed
qed

text \<open>The reference: a command is known by its first word; five take an argument, the others must be the whole line.\<close>

definition shell_reference :: "bytes \<Rightarrow> shell_action" where
  "shell_reference buf = (let s = cstr buf; w = first_word s; i = argument_at s in
     if w = text_of ''ape'' \<or> (w = text_of ''apb'' \<or> w = text_of ''compile'') \<and> w \<noteq> s then Do_ape buf
     else if w = text_of ''ebpfw'' then Do_ebpfw i
     else if w = text_of ''net'' then Do_net i
     else if w = text_of ''larp'' then Do_larp i
     else if w = text_of ''tcp'' then Do_tcp i
     else if s = text_of ''arch'' then Do_arch
     else if w = text_of ''isolation'' then Do_isolation i
     else if s = text_of ''ls'' then Do_ls
     else if s = text_of ''calc'' then Do_ape (ascii ''ape calc.ape'')
     else if s = text_of ''edit'' then Do_ape (ascii ''ape edit.ape'')
     else if s = text_of ''snake'' then Do_ape (ascii ''ape snake.ape'')
     else if s = text_of ''history'' then Do_ape (ascii ''ape history.ape'')
     else if s = text_of ''desktop'' then Do_desktop
     else if s = text_of ''help'' then Do_help
     else if s = text_of ''clear'' \<or> s = text_of ''cls'' then Do_clear
     else if s = [] then Do_nothing else Do_unknown)"

lemma starts_with_word:
  assumes "is_cstr buf" "plain name" "32 \<notin> set (text_of name)" "length name < length buf"
  shows "starts_with buf (name @ '' '') = Some (first_word (cstr buf) = text_of name \<and> first_word (cstr buf) \<noteq> cstr buf)"
proof -
  have p: "plain (name @ '' '')" using assms(2) by (simp add: plain_def)
  have "starts_with buf (name @ '' '') = Some (\<exists>r. cstr buf = text_of name @ 32 # r)"
    using starts_with_eq [OF assms(1) p] assms(4) by (simp add: text_of_append)
  moreover have "(\<exists>r. cstr buf = text_of name @ 32 # r) \<longleftrightarrow> first_word (cstr buf) = text_of name \<and> first_word (cstr buf) \<noteq> cstr buf"
    using first_word_iff [OF assms(3), of "cstr buf"] assms(3) by auto
  ultimately show ?thesis by simp
qed

lemma choice_step: "h = Some b \<Longrightarrow> (b \<Longrightarrow> x = Some y) \<Longrightarrow> (\<not> b \<Longrightarrow> z = Some u) \<Longrightarrow>
    do { h \<leftarrow> h; if h then x else z } = Some (if b then y else u)"
  by simp

lemma shell_dispatch_reference:
  assumes "is_cstr buf" "10 < length buf"
  shows "shell_dispatch buf = Some (shell_reference buf)"
proof -
  let ?s = "cstr buf" and ?w = "first_word (cstr buf)"
  have t: "cstr_is buf t = Some (?s = text_of t)" if "plain t" for t by (rule cstr_is_eq [OF assms(1) that])
  have b: "32 \<notin> set (text_of t)" if "CHR '' '' \<notin> set t" for t
  proof -
    have "c = CHR '' ''" if "of_char c = (32 :: u8)" for c by (rule of_char_byte_inj) (simp add: that)
    then show ?thesis using that by (fastforce simp: text_of_def)
  qed
  have c: "is_command buf t = Some (?w = text_of t)" if "plain t" "CHR '' '' \<notin> set t" "length t \<le> 10" for t
    using that assms(2) by (intro is_command_eq [OF assms(1)] b) auto
  have w: "starts_with buf (t @ '' '') = Some (?w = text_of t \<and> ?w \<noteq> ?s)" if "plain t" "CHR '' '' \<notin> set t" "length t \<le> 10" for t
    using that assms(2) by (intro starts_with_word [OF assms(1)] b) auto
  have h: "behind buf (length t) = Some (argument_at ?s)" if "?w = text_of t" "CHR '' '' \<notin> set t" for t
    using behind_eq [OF assms(1) that(1) b [OF that(2)]] .
  obtain k where k: "rd buf 0 = Some k" "k = 0 \<longleftrightarrow> ?s = []" using assms(1) by (cases buf) (auto simp: rd_def)
  have words: "starts_with buf ''apb '' = Some (?w = text_of ''apb'' \<and> ?w \<noteq> ?s)" "starts_with buf ''compile '' = Some (?w = text_of ''compile'' \<and> ?w \<noteq> ?s)"
    using w [of "''apb''"] w [of "''compile''"] by (simp_all add: plain_def)
  have ape: "either (is_command buf ''ape'') (either (starts_with buf ''apb '') (starts_with buf ''compile '')) =
      Some (?w = text_of ''ape'' \<or> (?w = text_of ''apb'' \<or> ?w = text_of ''compile'') \<and> ?w \<noteq> ?s)"
    using c [of "''ape''"] by (auto simp: words either_def plain_def)
  have names: "behind buf 5 = Some (argument_at ?s)" if "?w = text_of ''ebpfw''" using h [OF that] by (simp add: numeral_eq_Suc)
  have names3: "behind buf 3 = Some (argument_at ?s)" if "?w = text_of ''net'' \<or> ?w = text_of ''tcp''" using h [of "''net''"] h [of "''tcp''"] that by (auto simp: numeral_eq_Suc)
  have names4: "behind buf 4 = Some (argument_at ?s)" if "?w = text_of ''larp''" using h [OF that] by (simp add: numeral_eq_Suc)
  have names9: "behind buf 9 = Some (argument_at ?s)" if "?w = text_of ''isolation''" using h [OF that] by (simp add: numeral_eq_Suc)
  note f = c [of "''ebpfw''"] c [of "''net''"] c [of "''larp''"] c [of "''tcp''"] c [of "''isolation''"] t [of "''arch''"] t [of "''ls''"]
    t [of "''calc''"] t [of "''edit''"] t [of "''snake''"] t [of "''history''"] t [of "''desktop''"] t [of "''help''"] t [of "''clear''"] t [of "''cls''"]
  have clear: "either (cstr_is buf ''clear'') (cstr_is buf ''cls'') = Some (?s = text_of ''clear'' \<or> ?s = text_of ''cls'')"
    using f(14,15) by (auto simp: either_def plain_def)
  have apps: "do { calc \<leftarrow> cstr_is buf ''calc''; edit \<leftarrow> cstr_is buf ''edit''; snake \<leftarrow> cstr_is buf ''snake''; history \<leftarrow> cstr_is buf ''history'';
      if calc \<or> edit \<or> snake \<or> history
      then Some (Do_ape (ascii (if calc then ''ape calc.ape'' else if edit then ''ape edit.ape'' else if snake then ''ape snake.ape'' else ''ape history.ape'')))
      else e } = Some (if ?s = text_of ''calc'' then Do_ape (ascii ''ape calc.ape'') else if ?s = text_of ''edit'' then Do_ape (ascii ''ape edit.ape'')
        else if ?s = text_of ''snake'' then Do_ape (ascii ''ape snake.ape'') else if ?s = text_of ''history'' then Do_ape (ascii ''ape history.ape'') else a)"
    if "e = Some a" for e a using that f(8-11) by (auto simp: plain_def)
  show ?thesis
    unfolding shell_dispatch_def shell_reference_def Let_def
    by (rule choice_step, rule ape, rule refl,
        rule choice_step, rule f(1), simp add: plain_def, simp, simp, simp add: names,
        rule choice_step, rule f(2), simp add: plain_def, simp, simp, simp add: names3,
        rule choice_step, rule f(3), simp add: plain_def, simp, simp, simp add: names4,
        rule choice_step, rule f(4), simp add: plain_def, simp, simp, simp add: names3,
        rule choice_step, rule f(6), simp add: plain_def, rule refl,
        rule choice_step, rule f(5), simp add: plain_def, simp, simp, simp add: names9,
        rule choice_step, rule f(7), simp add: plain_def, rule refl,
        rule apps,
        rule choice_step, rule f(12), simp add: plain_def, rule refl,
        rule choice_step, rule f(13), simp add: plain_def, rule refl,
        rule choice_step, rule clear, rule refl,
        simp add: k del: rd_eq_Some)
qed

section \<open>Network commands from the prompt\<close>

lemma argument_at_le: "argument_at s \<le> length s"
proof (cases "first_word s = s")
  case False
  have "32 \<notin> set (first_word s)" unfolding first_word_def by (auto dest: set_takeWhileD)
  from first_word_iff [OF this, of s] False obtain r where "s = first_word s @ 32 # r" by auto
  then have "length s = length (first_word s) + 1 + length r" by (metis One_nat_def Suc_eq_plus1 add.assoc length_append list.size(4) plus_1_eq_Suc)
  then show ?thesis using False by (simp add: argument_at_def)
qed (simp add: argument_at_def)

lemma argument_cstr: "is_cstr buf \<Longrightarrow> is_cstr (drop (argument_at (cstr buf)) buf)"
proof -
  assume c: "is_cstr buf"
  obtain x where x: "buf = cstr buf @ 0 # x" using cstr_split [OF c] by blast
  have "drop (argument_at (cstr buf)) buf = drop (argument_at (cstr buf)) (cstr buf) @ 0 # x"
    using argument_at_le [of "cstr buf"] by (subst x) (simp del: cstr_append)
  then show ?thesis by (simp add: is_cstr_def)
qed

definition device_of :: "('m, 'h) shell_state \<Rightarrow> ('m, 'h) net_state device" where
  "device_of m = k_dev (is_k (sh_iso m))"

lemma on_network_keeps:
  assumes "device_wf (device_of m)"
    "\<exists>s' d'. f (d_net (device_of m)) (device_of m) = Some (s', d') \<and> device_wf d' \<and> net_wf env s'"
  shows "\<exists>m'. on_network f m = Some m' \<and> device_wf (device_of m') \<and> net_wf env (d_net (device_of m'))"
  using assms(2) by (auto simp: on_network_def on_device_def with_dev_def device_of_def device_wf_def)

text \<open>A typed firewall or network command reaches its handler with its argument, and leaves console and network in order.\<close>

lemma shell_network_command:
  assumes "is_cstr (sh_line m)" "10 < length (sh_line m)" "device_wf (device_of m)" "net_wf (se_net env) (d_net (device_of m))"
    "tcp_alive (d_net (device_of m))" "abi_wf (en_abi (se_net env))" "is_cstr (se_hash env)"
    "first_word (cstr (sh_line m)) = text_of ''ebpfw'' \<or> first_word (cstr (sh_line m)) = text_of ''net''"
  shows "\<exists>m'. shell_command env m = Some m' \<and> device_wf (device_of m') \<and> net_wf (se_net env) (d_net (device_of m'))"
proof -
  let ?a = "drop (argument_at (cstr (sh_line m))) (sh_line m)"
  have a: "is_cstr ?a" by (rule argument_cstr [OF assms(1)])
  have fw: "\<exists>s' d'. fw_command puts (se_hash env) (se_net env) ?a (d_net (device_of m)) (device_of m) = Some (s', d') \<and> device_wf d' \<and> net_wf (se_net env) s'"
    using screen.fw_command_runs [OF assms(3,4,7) a] by (auto simp: screen.runs_def edited_def)
  have net: "\<exists>s' d'. net_command puts (se_net env) ?a (d_net (device_of m)) (device_of m) = Some (s', d') \<and> device_wf d' \<and> net_wf (se_net env) s'"
    using net_command_keeps [OF assms(3-6) a] by (auto simp: net_ok_def)
  show ?thesis using assms(8)
  proof
    assume w: "first_word (cstr (sh_line m)) = text_of ''ebpfw''"
    then have "shell_dispatch (sh_line m) = Some (Do_ebpfw (argument_at (cstr (sh_line m))))"
      using shell_dispatch_reference [OF assms(1,2)] by (simp add: shell_reference_def Let_def)
    then show ?thesis using on_network_keeps [where f = "fw_command puts (se_hash env) (se_net env) ?a", OF assms(3) fw] by (simp add: shell_command_def perform_def Let_def)
  next
    assume w: "first_word (cstr (sh_line m)) = text_of ''net''"
    then have "shell_dispatch (sh_line m) = Some (Do_net (argument_at (cstr (sh_line m))))"
      using shell_dispatch_reference [OF assms(1,2)] by (simp add: shell_reference_def Let_def)
    then show ?thesis using on_network_keeps [where f = "net_command puts (se_net env) ?a", OF assms(3) net] by (simp add: shell_command_def perform_def Let_def)
  qed
qed

section \<open>Properties\<close>

text \<open>C40: the shell tells its commands apart by their first word. For every NUL-terminated line in a buffer of more than ten
  bytes the comparisons stay inside the buffer and select the command of the reference: \<^verbatim>\<open>ape\<close>, \<^verbatim>\<open>apb\<close> and \<^verbatim>\<open>compile\<close> with
  the whole line, \<^verbatim>\<open>ebpfw\<close>, \<^verbatim>\<open>net\<close>, \<^verbatim>\<open>larp\<close>, \<^verbatim>\<open>tcp\<close> and \<^verbatim>\<open>isolation\<close> with the argument that starts behind the first
  blank, inside the line, and the others only as the whole line; everything else is unknown.\<close>

theorem shell_dispatch_words:
  assumes "is_cstr buf" "10 < length buf"
  shows "shell_dispatch buf = Some (shell_reference buf) \<and> is_cstr (drop (argument_at (cstr buf)) buf)"
  using shell_dispatch_reference [OF assms] argument_cstr [OF assms(1)] by simp

theorem shell_dispatch_words_witness:
  "shell_dispatch (ascii ''net status'' @ replicate 85 7) = Some (Do_net 4) \<and> cstr (drop 4 (ascii ''net status'' @ replicate 85 7)) = text_of ''status''"
proof -
  let ?b = "ascii ''net status'' @ replicate 85 7"
  have c: "cstr ?b = text_of ''net status''" by (simp add: ascii_def text_of_def)
  have "shell_reference ?b = Do_net 4"
    unfolding shell_reference_def c Let_def by (simp add: first_word_def argument_at_def text_of_def)
  moreover have "shell_dispatch ?b = Some (shell_reference ?b) \<and> is_cstr (drop (argument_at (cstr ?b)) ?b)"
    by (rule shell_dispatch_words) (simp_all add: ascii_def is_cstr_def)
  ultimately show ?thesis by (simp add: ascii_def text_of_def)
qed

end
