(* ===== verification/Editor.thy ===== *)
theory Editor
  imports App_Console
begin

text \<open>
  The text editor \<^verbatim>\<open>src/jordyOS/app_edit.c\<close>: its static buffer, the text edit mode, and the commands, on the RAM file
  system of \<open>Filesystem\<close> and the console of \<open>Console\<close>. The arrays on the stack are uninitialised and passed as
  arguments; both loops run until the user leaves them, so they are partial functions.
\<close>

section \<open>State\<close>

definition EDIT_BUFFER_SIZE :: nat where "EDIT_BUFFER_SIZE = 512"
definition COMMAND_BUFFER_SIZE :: nat where "COMMAND_BUFFER_SIZE = 64"

record Editor =
  ed_content :: bytes
  ed_length :: nat
  ed_name :: bytes
  ed_open :: bool

definition clear_file_buffer :: "Editor \<Rightarrow> Editor option" where
  "clear_file_buffer ed = do {
     content \<leftarrow> memset (ed_content ed) 0 0 EDIT_BUFFER_SIZE;
     Some (ed\<lparr>ed_content := content, ed_length := 0\<rparr>) }"

definition clear_current_filename :: "Editor \<Rightarrow> Editor option" where
  "clear_current_filename ed = do { name \<leftarrow> wr (ed_name ed) 0 0; Some (ed\<lparr>ed_name := name, ed_open := False\<rparr>) }"

definition terminate :: "Editor \<Rightarrow> Editor option" where
  "terminate ed = do { content \<leftarrow> wr (ed_content ed) (ed_length ed) 0; Some (ed\<lparr>ed_content := content\<rparr>) }"

text \<open>\<^verbatim>\<open>strncpy\<close> of a name, cut to the array, then marked open.\<close>

definition name_file :: "bytes \<Rightarrow> Editor \<Rightarrow> Editor option" where
  "name_file argument ed = do {
     name \<leftarrow> strncpy (ed_name ed) argument (MAX_FILENAME_LEN - 1);
     name \<leftarrow> wr name (MAX_FILENAME_LEN - 1) 0;
     Some (ed\<lparr>ed_name := name, ed_open := True\<rparr>) }"

section \<open>Text edit mode\<close>

text \<open>The column: the distance to the last line feed before the end of the text.\<close>

fun last_newline :: "bytes \<Rightarrow> nat \<Rightarrow> int option" where
  "last_newline content 0 = Some (-1)"
| "last_newline content (Suc k) = do { c \<leftarrow> rd content k; if c = 10 then Some (int k) else last_newline content k }"

definition line_column :: "Editor \<Rightarrow> int option" where
  "line_column ed =
     (if ed_length ed > 0 then do {
        c \<leftarrow> rd (ed_content ed) (ed_length ed - 1);
        if c = 10 then Some 0
        else do { k \<leftarrow> last_newline (ed_content ed) (ed_length ed); Some (int (ed_length ed) - (k + 1)) } }
      else Some 0)"

text \<open>A key other than Escape.\<close>

definition edit_char :: "u8 \<Rightarrow> Editor \<Rightarrow> int \<Rightarrow> 'n device \<Rightarrow> (Editor \<times> int \<times> 'n device) option" where
  "edit_char c ed column d =
     (if c = 10 then
        (if ed_length ed < EDIT_BUFFER_SIZE - 1 then do {
           content \<leftarrow> wr (ed_content ed) (ed_length ed) 10;
           d \<leftarrow> say puts (line '''') d;
           Some (ed\<lparr>ed_content := content, ed_length := ed_length ed + 1\<rparr>, 0, d) }
         else do { d \<leftarrow> say puts (CHR 0x0A # line ''Buffer full. Cannot add newline.'') d; Some (ed, column, d) })
      else if c = 8 \<or> c = 127 then
        (if ed_length ed > 0 then do {
           let ed = ed\<lparr>ed_length := ed_length ed - 1\<rparr>;
           d \<leftarrow> puts [8, 32, 8, 0] d;
           column \<leftarrow> (if column > 0 then Some (column - 1) else line_column ed);
           Some (ed, column, d) }
         else Some (ed, column, d))
      else if c \<ge> 32 \<and> c < 127 then
        (if ed_length ed < EDIT_BUFFER_SIZE - 1 then do {
           content \<leftarrow> wr (ed_content ed) (ed_length ed) c;
           d \<leftarrow> puts [c, 0] d;
           Some (ed\<lparr>ed_content := content, ed_length := ed_length ed + 1\<rparr>, column + 1, d) }
         else Some (ed, column, d))
      else Some (ed, column, d))"

partial_function (option) edit_loop :: "('n \<Rightarrow> 'n) \<Rightarrow> Editor \<Rightarrow> int \<Rightarrow> 'n device \<Rightarrow> (Editor \<times> 'n device) option" where
  "edit_loop poll ed column d =
     (if ed_length ed < EDIT_BUFFER_SIZE - 1 then do {
        (c, d) \<leftarrow> get_ch poll d;
        if c = 27 then do { d \<leftarrow> say puts (CHR 0x0A # line ''--- Exiting Text Edit Mode ---'') d; Some (ed, d) }
        else do { (ed, column, d) \<leftarrow> edit_char c ed column d; edit_loop poll ed column d } }
      else Some (ed, d))"

definition enter_text_edit_mode :: "('n \<Rightarrow> 'n) \<Rightarrow> Editor \<Rightarrow> 'n device \<Rightarrow> (Editor \<times> 'n device) option" where
  "enter_text_edit_mode poll ed d = do {
     d \<leftarrow> say puts (line ''--- Text Edit Mode (Press ESC to finish) ---'') d;
     ed \<leftarrow> terminate ed;
     d \<leftarrow> (if ed_length ed > 0 then puts (ed_content ed) d else Some d);
     column \<leftarrow> line_column ed;
     (ed, d) \<leftarrow> edit_loop poll ed column d;
     ed \<leftarrow> terminate ed;
     d \<leftarrow> (if ed_length ed \<ge> EDIT_BUFFER_SIZE - 1
         then say puts (line ''Warning: Edit buffer is full. Some input may have been lost.'') d else Some d);
     Some (ed, d) }"

section \<open>The command line\<close>

function copy_word :: "(u8 \<Rightarrow> bool) \<Rightarrow> bytes \<Rightarrow> nat \<Rightarrow> bytes \<Rightarrow> nat \<Rightarrow> (nat \<times> bytes) option" where
  "copy_word wanted s i out j = do {
     c \<leftarrow> rd s i;
     if wanted c \<and> j < COMMAND_BUFFER_SIZE - 1 then do { out \<leftarrow> wr out j c; copy_word wanted s (i + 1) out (j + 1) }
     else do { out \<leftarrow> wr out j 0; Some (i, out) } }"
  by pat_completeness auto
termination by (relation "measure (\<lambda>(wanted, s, i, out, j). COMMAND_BUFFER_SIZE - j)") auto

declare copy_word.simps [simp del]

function skip_gap :: "bytes \<Rightarrow> nat \<Rightarrow> nat option" where
  "skip_gap s i = do { c \<leftarrow> rd s i; if c = 32 then skip_gap s (i + 1) else Some i }"
  by pat_completeness auto
termination by (relation "measure (\<lambda>(s, i). length s - i)") auto

declare skip_gap.simps [simp del]

definition cut_line :: "bytes \<Rightarrow> bytes \<Rightarrow> bytes \<Rightarrow> (bytes \<times> bytes) option" where
  "cut_line command_line command argument = do {
     (i, command) \<leftarrow> copy_word (\<lambda>c. c \<noteq> 32 \<and> c \<noteq> 0) command_line 0 command 0;
     i \<leftarrow> skip_gap command_line i;
     (i, argument) \<leftarrow> copy_word (\<lambda>c. c \<noteq> 0) command_line i argument 0;
     Some (command, argument) }"

section \<open>The commands\<close>

abbreviation (input) quoted :: "string \<Rightarrow> string" where "quoted s \<equiv> s @ [CHR 0x27]"

definition say_number :: "int \<Rightarrow> 'n device \<Rightarrow> 'n device option" where
  "say_number n d = do { num_buf \<leftarrow> itoa (word_of_int n) (replicate 12 0); puts num_buf d }"

definition say_with :: "string \<Rightarrow> bytes \<Rightarrow> string \<Rightarrow> 'n device \<Rightarrow> 'n device option" where
  "say_with pre t post d = do { d \<leftarrow> say puts pre d; d \<leftarrow> puts t d; say puts post d }"

definition list_command :: "fs \<Rightarrow> 'n device \<Rightarrow> 'n device option" where
  "list_command fs d = (let room = MAX_FILES * MAX_FILENAME_LEN + MAX_FILES in do {
     (n, list_buffer) \<leftarrow> sys_list_files (Some (replicate room 0)) (int room - 1) fs;
     list_buffer \<leftarrow> list_buffer;
     if n > 0 then do {
       list_buffer \<leftarrow> wr list_buffer (nat n) 0;
       d \<leftarrow> say puts (line ''Files:'') d;
       d \<leftarrow> puts list_buffer d;
       c \<leftarrow> rd list_buffer (nat n - 1);
       if c \<noteq> 10 then say puts (line '''') d else Some d }
     else if n = 0 then say puts (line ''No files found.'') d
     else say puts (line ''Error listing files.'') d })"

definition new_command :: "bytes \<Rightarrow> Editor \<Rightarrow> 'n device \<Rightarrow> (Editor \<times> 'n device) option" where
  "new_command argument ed d = do {
     c \<leftarrow> rd argument 0;
     if c = 0 then do { d \<leftarrow> say puts (line ''Usage: new <filename>'') d; Some (ed, d) }
     else do {
       ed \<leftarrow> clear_file_buffer ed;
       ed \<leftarrow> name_file argument ed;
       d \<leftarrow> say_with (quoted ''New file '') (ed_name ed)
         ([CHR 0x27] @ '' in buffer. Use '' @ quoted ([CHR 0x27] @ ''edit'') @ '', then '' @ quoted ([CHR 0x27] @ ''save'') @ line ''.'') d;
       Some (ed, d) } }"

definition open_command :: "bytes \<Rightarrow> fs \<Rightarrow> Editor \<Rightarrow> 'n device \<Rightarrow> (Editor \<times> 'n device) option" where
  "open_command argument fs ed d = do {
     c \<leftarrow> rd argument 0;
     if c = 0 then do { d \<leftarrow> say puts (line ''Usage: open <filename>'') d; Some (ed, d) }
     else do {
       ed \<leftarrow> clear_file_buffer ed;
       (n, content) \<leftarrow> sys_read_file (Some argument) (Some (ed_content ed)) (int EDIT_BUFFER_SIZE - 1) fs;
       content \<leftarrow> content;
       let ed = ed\<lparr>ed_content := content\<rparr>;
       if n \<ge> 0 then do {
         ed \<leftarrow> terminate (ed\<lparr>ed_length := nat n\<rparr>);
         ed \<leftarrow> name_file argument ed;
         d \<leftarrow> say_with (quoted ''File '') (ed_name ed) ([CHR 0x27] @ '' opened ('') d;
         d \<leftarrow> say_number n d;
         d \<leftarrow> say puts ('' bytes).'' @ [CHR 0x0A] @ ''Use '' @ quoted ([CHR 0x27] @ ''edit'') @ line '' to modify/view.'') d;
         Some (ed, d) }
       else do {
         d \<leftarrow> (if n = -1 then say_with (quoted ''Error: File '') argument ([CHR 0x27] @ line '' not found.'') d
           else if n = -2 then say_with (quoted ''Error: Buffer too small for '') argument ([CHR 0x27] @ line ''. File exceeds editor capacity.'') d
           else say puts (line ''Error reading file.'') d);
         ed \<leftarrow> clear_current_filename ed;
         Some (ed, d) } } }"

text \<open>\<^verbatim>\<open>save\<close>: the name to save under, if there is one, and the editor with that name.\<close>

definition save_target :: "bytes \<Rightarrow> Editor \<Rightarrow> (bytes option \<times> Editor) option" where
  "save_target argument ed = do {
     c \<leftarrow> rd argument 0;
     if c \<noteq> 0 then do { ed \<leftarrow> name_file argument ed; Some (Some argument, ed) }
     else do {
       e \<leftarrow> rd (ed_name ed) 0;
       Some (if ed_open ed \<and> e \<noteq> 0 then Some (ed_name ed) else None, ed) } }"

definition save_command :: "bytes \<Rightarrow> fs \<Rightarrow> Editor \<Rightarrow> 'n device \<Rightarrow> (fs \<times> Editor \<times> 'n device) option" where
  "save_command argument fs ed d = do {
     (target, ed) \<leftarrow> save_target argument ed;
     (case target of
        None \<Rightarrow> do {
          d \<leftarrow> say puts (line ''Usage: save <filename> (or open/new a file first to save without filename argument)'') d;
          Some (fs, ed, d) }
      | Some name \<Rightarrow> do {
          ed \<leftarrow> terminate ed;
          (result, fs) \<leftarrow> sys_write_file (Some name) (Some (ed_content ed)) (int (ed_length ed)) fs;
          d \<leftarrow> (if result = 0 then do {
              d \<leftarrow> say_with (quoted ''File '') name ([CHR 0x27] @ '' saved ('') d;
              d \<leftarrow> say_number (int (ed_length ed)) d;
              say puts (line '' bytes).'') d }
            else do {
              d \<leftarrow> say_with (quoted ''Error saving file '') name ([CHR 0x27] @ ''. Code: '') d;
              d \<leftarrow> say_number result d;
              say puts (line ''.'') d });
          Some (fs, ed, d) }) }"

definition delete_command :: "bytes \<Rightarrow> fs \<Rightarrow> Editor \<Rightarrow> 'n device \<Rightarrow> (fs \<times> Editor \<times> 'n device) option" where
  "delete_command argument fs ed d = do {
     c \<leftarrow> rd argument 0;
     if c = 0 then do { d \<leftarrow> say puts (line ''Usage: delete <filename>'') d; Some (fs, ed, d) }
     else do {
       (result, fs) \<leftarrow> sys_delete_file (Some argument) fs;
       if result = 0 then do {
         d \<leftarrow> say_with (quoted ''File '') argument ([CHR 0x27] @ line '' deleted.'') d;
         hit \<leftarrow> (if ed_open ed then do { v \<leftarrow> strcmp (ed_name ed) argument; Some (v = 0) } else Some False);
         ed \<leftarrow> (if hit then do { ed \<leftarrow> clear_file_buffer ed; clear_current_filename ed } else Some ed);
         Some (fs, ed, d) }
       else do { d \<leftarrow> say_with (quoted ''Error deleting '') argument ([CHR 0x27] @ line ''. Not found?'') d; Some (fs, ed, d) } } }"

definition edit_command :: "('n \<Rightarrow> 'n) \<Rightarrow> Editor \<Rightarrow> 'n device \<Rightarrow> (Editor \<times> 'n device) option" where
  "edit_command poll ed d = do {
     c \<leftarrow> rd (ed_name ed) 0;
     if \<not> ed_open ed \<and> c = 0 then do {
       d \<leftarrow> say puts (''No file. Use '' @ quoted ([CHR 0x27] @ ''new <fn>'') @ '' or '' @ quoted ([CHR 0x27] @ ''open <fn>'') @ line '' first.'') d;
       Some (ed, d) }
     else enter_text_edit_mode poll ed d }"

text \<open>One command; the flag is whether the application exits.\<close>

definition editor_command :: "('n \<Rightarrow> 'n) \<Rightarrow> bytes \<Rightarrow> bytes \<Rightarrow> fs \<Rightarrow> Editor \<Rightarrow> 'n device \<Rightarrow> (bool \<times> fs \<times> Editor \<times> 'n device) option" where
  "editor_command poll command argument fs ed d = do {
     h \<leftarrow> cstr_is command ''quit'';
     if h then do { d \<leftarrow> say puts (line ''Exiting editor...'') d; Some (True, fs, ed, d) } else do {
     h \<leftarrow> cstr_is command ''list'';
     if h then do { d \<leftarrow> list_command fs d; Some (False, fs, ed, d) } else do {
     h \<leftarrow> cstr_is command ''new'';
     if h then do { (ed, d) \<leftarrow> new_command argument ed d; Some (False, fs, ed, d) } else do {
     h \<leftarrow> cstr_is command ''open'';
     if h then do { (ed, d) \<leftarrow> open_command argument fs ed d; Some (False, fs, ed, d) } else do {
     h \<leftarrow> cstr_is command ''edit'';
     if h then do { (ed, d) \<leftarrow> edit_command poll ed d; Some (False, fs, ed, d) } else do {
     h \<leftarrow> cstr_is command ''save'';
     if h then do { (fs, ed, d) \<leftarrow> save_command argument fs ed d; Some (False, fs, ed, d) } else do {
     h \<leftarrow> cstr_is command ''delete'';
     if h then do { (fs, ed, d) \<leftarrow> delete_command argument fs ed d; Some (False, fs, ed, d) } else do {
     c \<leftarrow> rd command 0;
     if c = 0 then Some (False, fs, ed, d)
     else do { d \<leftarrow> say_with (quoted ''Unknown command: '') command ([CHR 0x27] @ line ''.'') d; Some (False, fs, ed, d) } } } } } } } } }"

text \<open>The prompt, a line, its words, the command; the three arrays of the stack frame are kept.\<close>

record edit_frame =
  ef_line :: bytes
  ef_command :: bytes
  ef_argument :: bytes

definition editor_step :: "('n \<Rightarrow> 'n) \<Rightarrow> edit_frame \<Rightarrow> fs \<Rightarrow> Editor \<Rightarrow> 'n device \<Rightarrow> (bool \<times> edit_frame \<times> fs \<times> Editor \<times> 'n device) option" where
  "editor_step poll f fs ed d = do {
     d \<leftarrow> (if ed_open ed then say_with ''edit ['' (ed_name ed) '']# '' d else say puts ''edit# '' d);
     (command_line, d) \<leftarrow> read_line poll (Some (ef_line f)) (int COMMAND_BUFFER_SIZE) d;
     command_line \<leftarrow> command_line;
     (command, argument) \<leftarrow> cut_line command_line (ef_command f) (ef_argument f);
     (leave, fs, ed, d) \<leftarrow> editor_command poll command argument fs ed d;
     Some (leave, \<lparr>ef_line = command_line, ef_command = command, ef_argument = argument\<rparr>, fs, ed, d) }"

partial_function (option) editor_loop :: "('n \<Rightarrow> 'n) \<Rightarrow> edit_frame \<Rightarrow> fs \<Rightarrow> Editor \<Rightarrow> 'n device \<Rightarrow> (fs \<times> Editor \<times> 'n device) option" where
  "editor_loop poll f fs ed d = do {
     (leave, f, fs, ed, d) \<leftarrow> editor_step poll f fs ed d;
     if leave then Some (fs, ed, d) else editor_loop poll f fs ed d }"

definition app_edit :: "('n \<Rightarrow> 'n) \<Rightarrow> edit_frame \<Rightarrow> fs \<Rightarrow> Editor \<Rightarrow> 'n device \<Rightarrow> (fs \<times> Editor \<times> 'n device) option" where
  "app_edit poll f fs ed d = do {
     d \<leftarrow> say puts (line ''Editor v0.4 (In-Memory FS)'') d;
     d \<leftarrow> say puts (line ''Commands: list, new <fn>, open <fn>, edit, save [fn], delete <fn>, quit'') d;
     ed \<leftarrow> clear_file_buffer ed;
     ed \<leftarrow> clear_current_filename ed;
     editor_loop poll f fs ed d }"

section \<open>The invariant\<close>

definition editor_wf :: "Editor \<Rightarrow> bool" where
  "editor_wf ed \<longleftrightarrow> length (ed_content ed) = EDIT_BUFFER_SIZE \<and> ed_length ed < EDIT_BUFFER_SIZE \<and>
     length (ed_name ed) = MAX_FILENAME_LEN \<and> is_cstr (ed_name ed)"

definition ed_text :: "Editor \<Rightarrow> bytes" where
  "ed_text ed = take (ed_length ed) (ed_content ed)"

type_synonym document = "bytes \<times> bytes \<times> bool" \<comment> \<open>text, name, whether a file is open\<close>

definition ed_doc :: "Editor \<Rightarrow> document" where
  "ed_doc ed = (ed_text ed, cstr (ed_name ed), ed_open ed)"

lemma ed_text_length: "editor_wf ed \<Longrightarrow> length (ed_text ed) = ed_length ed"
  by (simp add: editor_wf_def ed_text_def)

lemma terminate_spec:
  assumes "editor_wf ed"
  shows "\<exists>e. terminate ed = Some e \<and> editor_wf e \<and> ed_doc e = ed_doc ed \<and> ed_length e = ed_length ed \<and> is_cstr (ed_content e)"
proof -
  have l: "ed_length ed < length (ed_content ed)" using assms by (simp add: editor_wf_def)
  have "is_cstr ((ed_content ed)[ed_length ed := 0])" using l by (simp add: is_cstr_def set_update_memI)
  then show ?thesis using assms l by (auto simp: terminate_def wr_Some editor_wf_def ed_doc_def ed_text_def)
qed

lemma clear_file_buffer_spec:
  assumes "editor_wf ed"
  shows "clear_file_buffer ed = Some (ed\<lparr>ed_content := replicate EDIT_BUFFER_SIZE 0, ed_length := 0\<rparr>)"
  using assms memset_eq [of 0 EDIT_BUFFER_SIZE "ed_content ed" 0] by (simp add: clear_file_buffer_def editor_wf_def)

lemma clear_current_filename_spec:
  assumes "editor_wf ed"
  shows "\<exists>e. clear_current_filename ed = Some e \<and> editor_wf e \<and> ed_doc e = (ed_text ed, [], False)"
proof -
  obtain x name where "ed_name ed = x # name" using assms by (cases "ed_name ed") (simp_all add: editor_wf_def)
  then show ?thesis using assms by (auto simp: clear_current_filename_def wr_def editor_wf_def ed_doc_def ed_text_def)
qed

text \<open>A name is cut to the array.\<close>

lemma strncpy_loop_cut:
  assumes "is_cstr s" "n \<le> length (cstr s)" "n \<le> length t" "i \<le> n"
  shows "strncpy_loop t s n i = Some (take i t @ take (n - i) (drop i (cstr s)) @ drop n t)"
  using assms
proof (induction t s n i rule: strncpy_loop.induct)
  case (1 t s n i)
  show ?case
  proof (cases "i < n")
    case False
    then show ?thesis using "1.prems"(4) by (subst strncpy_loop.simps) simp
  next
    case True
    have l: "i < length (cstr s)" "i < length s" "i < length t" using True "1.prems" cstr_length [of s] by linarith+
    have c: "s ! i = cstr s ! i" "s ! i \<noteq> 0" using l(1) cstr_no_nul [of s] by (metis cstr_nth nth_mem)+
    let ?d = "t[i := s ! i]"
    have r: "rd s i = Some (s ! i)" "wr t i (s ! i) = Some ?d" using l by simp_all
    have "strncpy_loop t s n i = strncpy_loop ?d s n (i + 1)" using True l c by (subst strncpy_loop.simps) (simp add: rd_Some wr_Some)
    also have "\<dots> = Some (take (i + 1) ?d @ take (n - (i + 1)) (drop (i + 1) (cstr s)) @ drop n ?d)"
      using "1.prems" True by (intro "1.IH" [OF True r(1) c(2) r(2)]) auto
    finally show ?thesis using True l c
      by (simp add: take_Suc_conv_app_nth Cons_nth_drop_Suc [symmetric] Suc_diff_Suc [symmetric] take_Suc_Cons)
  qed
qed

lemma strncpy_any:
  assumes "is_cstr s" "n \<le> length t"
  shows "strncpy t s n = Some (take n (cstr s) @ replicate (n - length (cstr s)) 0 @ drop n t)"
proof (cases "length (cstr s) \<le> n")
  case True
  then show ?thesis using strncpy_eq [OF assms(1) True assms(2)] by simp
next
  case False
  then show ?thesis using strncpy_loop_cut [OF assms(1), of n t 0] assms(2) by (simp add: strncpy_def)
qed

lemma name_file_spec:
  assumes "editor_wf ed" "is_cstr argument"
  shows "\<exists>e. name_file argument ed = Some e \<and> editor_wf e \<and> ed_doc e = (ed_text ed, take (MAX_FILENAME_LEN - 1) (cstr argument), True) \<and>
    ed_content e = ed_content ed \<and> ed_length e = ed_length ed"
proof -
  let ?w = "take 31 (cstr argument)"
  have l: "length (ed_name ed) = 32" using assms(1) by (simp add: editor_wf_def)
  have c: "strncpy (ed_name ed) argument 31 = Some (?w @ replicate (31 - length (cstr argument)) 0 @ drop 31 (ed_name ed))"
    using strncpy_any [OF assms(2), of 31 "ed_name ed"] l by simp
  have len: "length (?w @ replicate (31 - length (cstr argument)) (0 :: u8)) = 31" by simp
  have "length (drop 31 (ed_name ed)) = Suc 0" using l by simp
  then obtain x where x: "drop 31 (ed_name ed) = [x]" unfolding length_Suc_conv by auto
  have w: "wr (?w @ replicate (31 - length (cstr argument)) 0 @ [x]) 31 0 = Some (?w @ replicate (31 - length (cstr argument)) 0 @ [0])"
    using list_update_length [of "?w @ replicate (31 - length (cstr argument)) 0" x "[]" 0] len by (simp add: wr_def)
  have nz: "0 \<notin> set ?w" using cstr_no_nul [of argument] by (meson in_set_takeD)
  obtain r where r: "replicate (31 - length (cstr argument)) 0 @ [0 :: u8] = 0 # r" by (cases "31 - length (cstr argument)") auto
  have "is_cstr (?w @ 0 # r)" "cstr (?w @ 0 # r) = ?w" using nz by (simp_all add: is_cstr_def)
  moreover have "length (?w @ 0 # r) = 32" unfolding r [symmetric] by simp
  moreover have "name_file argument ed = Some (ed\<lparr>ed_name := ?w @ 0 # r, ed_open := True\<rparr>)"
    using c x w r by (simp add: name_file_def del: wr_eq_Some)
  ultimately show ?thesis using assms(1) by (auto simp: editor_wf_def ed_doc_def ed_text_def)
qed

section \<open>The editor over documents\<close>

text \<open>The reference: what a command does to the document and to the files, over texts.\<close>

fun spec_editor :: "bytes \<Rightarrow> bytes \<Rightarrow> document \<times> file_map \<Rightarrow> document \<times> file_map" where
  "spec_editor w a ((t, name, opened), m) =
     (let cut = take (MAX_FILENAME_LEN - 1) a in
      if w = text_of ''new'' \<and> a \<noteq> [] then (([], cut, True), m)
      else if w = text_of ''open'' \<and> a \<noteq> [] then
        (case m a of Some bs \<Rightarrow> if length bs < EDIT_BUFFER_SIZE then ((bs, cut, True), m) else (([], [], False), m)
         | None \<Rightarrow> (([], [], False), m))
      else if w = text_of ''save'' \<and> a \<noteq> [] then ((t, cut, True), snd (spec_write a t (int (length t)) m))
      else if w = text_of ''save'' \<and> opened \<and> name \<noteq> [] then ((t, name, opened), snd (spec_write name t (int (length t)) m))
      else if w = text_of ''delete'' \<and> a \<noteq> [] \<and> m a \<noteq> None then
        (if opened \<and> name = a then ([], [], False) else (t, name, opened), m(a := None))
      else ((t, name, opened), m))"

declare spec_editor.simps [simp del]

text \<open>A result: the console is in order, the editor well-formed, and document and files are as told.\<close>

definition edits :: "(nat \<Rightarrow> ports) \<Rightarrow> document \<times> file_map \<Rightarrow> (fs \<times> Editor \<times> 'n device) option \<Rightarrow> bool" where
  "edits inp x r \<longleftrightarrow> (\<exists>fs ed d. r = Some (fs, ed, d) \<and> on_ports inp d \<and> fs_wf fs \<and> editor_wf ed \<and> (ed_doc ed, fs_abs fs) = x)"

lemma edits_Some: "on_ports inp d \<Longrightarrow> fs_wf fs \<Longrightarrow> editor_wf ed \<Longrightarrow> (ed_doc ed, fs_abs fs) = x \<Longrightarrow> edits inp x (Some (fs, ed, d))"
  by (simp add: edits_def)

lemma edits_print: "typing.prints inp r \<Longrightarrow> (\<And>d. on_ports inp d \<Longrightarrow> edits inp x (f d)) \<Longrightarrow> edits inp x (Option.bind r f)"
  by (auto simp: typing.prints_def)

lemma prints_decimal: "on_ports inp d \<Longrightarrow> typing.prints inp (say_number n d)"
  using itoa_spec [of "replicate 12 0" "word_of_int n"]
  by (auto simp: say_number_def is_cstr_def simp del: drop_replicate)

lemma prints_with: "on_ports inp d \<Longrightarrow> is_cstr t \<Longrightarrow> typing.prints inp (say_with pre t post d)"
  unfolding say_with_def by auto

lemmas printing = prints_decimal prints_with typing.prints_say typing.prints_write typing.prints_Some typing.prints_bind typing.prints_if

lemma is_cstr_head: "is_cstr s \<Longrightarrow> \<exists>c. rd s 0 = Some c \<and> (c = 0 \<longleftrightarrow> cstr s = [])"
  by (cases s) (auto simp: rd_def)

lemma prints_list:
  assumes "fs_wf fs" "on_ports inp d"
  shows "typing.prints inp (list_command fs d)"
proof -
  let ?b = "replicate 528 0 :: bytes"
  from sys_list_files_spec [OF assms(1), of 527 ?b] obtain s where s: "length s < 527"
    "sys_list_files (Some ?b) 527 fs = Some (int (length s), Some (s @ replicate (527 - length s) 0 @ drop 527 ?b))" by auto
  define b where "b = s @ replicate (527 - length s) 0 @ drop 527 ?b"
  have l: "length b = 528" using s(1) by (simp add: b_def)
  have c: "is_cstr (b[length s := 0])" using s(1) l by (simp add: is_cstr_def set_update_memI)
  show ?thesis using assms(2) s l c unfolding list_command_def b_def [symmetric]
    by (cases "length s > 0") (auto simp: Let_def wr_Some rd_Some intro!: printing)
qed

lemma command_new:
  assumes "on_ports inp d" "fs_wf fs" "editor_wf ed" "is_cstr argument"
  shows "edits inp (spec_editor (text_of ''new'') (cstr argument) (ed_doc ed, fs_abs fs))
    (do { (ed, d) \<leftarrow> new_command argument ed d; Some (fs, ed, d) })"
proof -
  obtain c where c: "rd argument 0 = Some c" "c = 0 \<longleftrightarrow> cstr argument = []" using is_cstr_head [OF assms(4)] by blast
  let ?e = "ed\<lparr>ed_content := replicate EDIT_BUFFER_SIZE 0, ed_length := 0\<rparr>"
  have wf: "editor_wf ?e" using assms(3) by (simp add: editor_wf_def EDIT_BUFFER_SIZE_def)
  from name_file_spec [OF wf assms(4)] obtain e where e: "name_file argument ?e = Some e" "editor_wf e"
    "ed_doc e = ([], take 31 (cstr argument), True)" by (auto simp: ed_text_def)
  have n: "is_cstr (ed_name e)" using e(2) by (simp add: editor_wf_def)
  show ?thesis
  proof (cases "c = 0")
    case True
    then show ?thesis using assms c by (simp add: new_command_def del: rd_eq_Some) (intro edits_print edits_Some printing; simp add: spec_editor.simps ed_doc_def)
  next
    case False
    then show ?thesis using assms c e n
      by (simp add: new_command_def clear_file_buffer_spec del: rd_eq_Some) (intro edits_print edits_Some printing; simp add: spec_editor.simps ed_doc_def)
  qed
qed

lemma command_open:
  assumes "on_ports inp d" "fs_wf fs" "editor_wf ed" "is_cstr argument"
  shows "edits inp (spec_editor (text_of ''open'') (cstr argument) (ed_doc ed, fs_abs fs))
    (do { (ed, d) \<leftarrow> open_command argument fs ed d; Some (fs, ed, d) })"
proof -
  obtain c where c: "rd argument 0 = Some c" "c = 0 \<longleftrightarrow> cstr argument = []" using is_cstr_head [OF assms(4)] by blast
  let ?b = "replicate EDIT_BUFFER_SIZE 0 :: bytes"
  let ?e = "ed\<lparr>ed_content := ?b, ed_length := 0\<rparr>"
  have r: "sys_read_file (Some argument) (Some ?b) 511 fs = Some (apsnd Some (spec_read (cstr argument) ?b 511 (fs_abs fs)))"
    using sys_read_file_spec [OF assms(2,4), of 511 ?b] by (simp add: EDIT_BUFFER_SIZE_def)
  have step: "open_command argument fs ed d = do { (n, content) \<leftarrow> Some (apsnd Some (spec_read (cstr argument) ?b 511 (fs_abs fs)));
       content \<leftarrow> content;
       let ed = ?e\<lparr>ed_content := content\<rparr>;
       if n \<ge> 0 then do {
         ed \<leftarrow> terminate (ed\<lparr>ed_length := nat n\<rparr>);
         ed \<leftarrow> name_file argument ed;
         d \<leftarrow> say_with (quoted ''File '') (ed_name ed) ([CHR 0x27] @ '' opened ('') d;
         d \<leftarrow> say_number n d;
         d \<leftarrow> say puts ('' bytes).'' @ [CHR 0x0A] @ ''Use '' @ quoted ([CHR 0x27] @ ''edit'') @ line '' to modify/view.'') d;
         Some (ed, d) }
       else do {
         d \<leftarrow> (if n = -1 then say_with (quoted ''Error: File '') argument ([CHR 0x27] @ line '' not found.'') d
           else if n = -2 then say_with (quoted ''Error: Buffer too small for '') argument ([CHR 0x27] @ line ''. File exceeds editor capacity.'') d
           else say puts (line ''Error reading file.'') d);
         ed \<leftarrow> clear_current_filename ed;
         Some (ed, d) } }" if "c \<noteq> 0"
    unfolding open_command_def c(1) bind.bind_lunit if_not_P [OF that] clear_file_buffer_spec [OF assms(3)]
    using r by (simp add: EDIT_BUFFER_SIZE_def)
  show ?thesis
  proof (cases "c = 0")
    case True
    then show ?thesis using assms c by (simp add: open_command_def del: rd_eq_Some) (intro edits_print edits_Some printing; simp add: spec_editor.simps ed_doc_def)
  next
    case False
    have wf: "editor_wf (?e\<lparr>ed_content := x, ed_length := n\<rparr>)" if "length x = EDIT_BUFFER_SIZE" "n < EDIT_BUFFER_SIZE" for x n
      using assms(3) that by (simp add: editor_wf_def)
    show ?thesis
    proof (cases "\<exists>bs. fs_abs fs (cstr argument) = Some bs \<and> length bs < EDIT_BUFFER_SIZE")
      case True
      then obtain bs where bs: "fs_abs fs (cstr argument) = Some bs" "length bs < EDIT_BUFFER_SIZE" by blast
      let ?f = "?e\<lparr>ed_content := bs @ drop (length bs) ?b, ed_length := length bs\<rparr>"
      have wf': "editor_wf ?f" using bs(2) by (intro wf) simp_all
      from terminate_spec [OF wf'] obtain e where e: "terminate ?f = Some e" "editor_wf e" "ed_doc e = ed_doc ?f" by blast
      from name_file_spec [OF e(2) assms(4)] obtain g where g: "name_file argument e = Some g" "editor_wf g"
        "ed_doc g = (ed_text e, take 31 (cstr argument), True)" by auto
      have n: "is_cstr (ed_name g)" using g(2) by (simp add: editor_wf_def)
      have t: "ed_text e = bs" using e(3) by (simp add: ed_doc_def ed_text_def)
      have rs: "spec_read (cstr argument) ?b 511 (fs_abs fs) = (int (length bs), bs @ drop (length bs) ?b)"
        using bs by (simp add: spec_read_def EDIT_BUFFER_SIZE_def)
      show ?thesis using False assms bs c e(1) g n t unfolding step [OF False] rs
        by (simp add: Let_def del: rd_eq_Some drop_replicate) (intro edits_print edits_Some printing; simp add: spec_editor.simps ed_doc_def Let_def)
    next
      case none: False
      have "\<exists>k. spec_read (cstr argument) ?b 511 (fs_abs fs) = (k, ?b) \<and> k < 0"
        using none by (cases "fs_abs fs (cstr argument)") (simp_all add: spec_read_def EDIT_BUFFER_SIZE_def)
      then obtain k where k: "spec_read (cstr argument) ?b 511 (fs_abs fs) = (k, ?b)" "k < 0" by blast
      have wf': "editor_wf ?e" using assms(3) by (simp add: editor_wf_def EDIT_BUFFER_SIZE_def)
      from clear_current_filename_spec [OF wf'] obtain e where e: "clear_current_filename ?e = Some e" "editor_wf e" "ed_doc e = ([], [], False)"
        by (auto simp: ed_text_def)
      have sp: "spec_editor (text_of ''open'') (cstr argument) (ed_doc ed, fs_abs fs) = (([], [], False), fs_abs fs)"
        using none False c(2) by (auto simp: spec_editor.simps ed_doc_def split: option.splits)
      have neg: "\<not> 0 \<le> k" and upd: "?e\<lparr>ed_content := ?b\<rparr> = ?e" using k(2) by simp_all
      show ?thesis using assms e(2,3)
        unfolding step [OF False] k(1) sp Let_def apsnd_conv bind.bind_lunit prod.case upd if_not_P [OF neg] e(1) Option.bind_assoc
        by (intro edits_print edits_Some printing) simp_all
    qed
  qed
qed

lemma command_save:
  assumes "on_ports inp d" "fs_wf fs" "editor_wf ed" "is_cstr argument"
  shows "edits inp (spec_editor (text_of ''save'') (cstr argument) (ed_doc ed, fs_abs fs)) (save_command argument fs ed d)"
proof -
  obtain c where c: "rd argument 0 = Some c" "c = 0 \<longleftrightarrow> cstr argument = []" using is_cstr_head [OF assms(4)] by blast
  have nm: "is_cstr (ed_name ed)" using assms(3) by (simp add: editor_wf_def)
  obtain k where k: "rd (ed_name ed) 0 = Some k" "k = 0 \<longleftrightarrow> cstr (ed_name ed) = []" using is_cstr_head [OF nm] by blast
  have store: "edits inp (ed_doc e, snd (spec_write (cstr name) (ed_text e) (int (length (ed_text e))) (fs_abs fs)))
      (do {
          ed \<leftarrow> terminate e;
          (result, fs) \<leftarrow> sys_write_file (Some name) (Some (ed_content ed)) (int (ed_length ed)) fs;
          d \<leftarrow> (if result = 0 then do {
              d \<leftarrow> say_with (quoted ''File '') name ([CHR 0x27] @ '' saved ('') d;
              d \<leftarrow> say_number (int (ed_length ed)) d;
              say puts (line '' bytes).'') d }
            else do {
              d \<leftarrow> say_with (quoted ''Error saving file '') name ([CHR 0x27] @ ''. Code: '') d;
              d \<leftarrow> say_number result d;
              say puts (line ''.'') d });
          Some (fs, ed, d) })" if ok: "editor_wf e" and nc: "is_cstr name" for e name
  proof -
    obtain g where g: "terminate e = Some g" "editor_wf g" "ed_doc g = ed_doc e" "ed_length g = ed_length e" using terminate_spec [OF ok] by blast
    have t: "ed_text e = take (ed_length g) (ed_content g)" "length (ed_text e) = ed_length g"
      using g(3,4) ed_text_length [OF ok] by (simp_all add: ed_doc_def ed_text_def)
    have l: "nat (int (ed_length g)) \<le> length (ed_content g)" using g(2) by (simp add: editor_wf_def)
    have sw: "spec_write (cstr name) (ed_content g) (int (ed_length g)) m = spec_write (cstr name) (ed_text e) (int (length (ed_text e))) m" for m
      using t by (simp add: spec_write_def)
    from sys_write_file_spec [OF assms(2) nc l] obtain fs' where w:
      "sys_write_file (Some name) (Some (ed_content g)) (int (ed_length g)) fs = Some (fst (spec_write (cstr name) (ed_text e) (int (length (ed_text e))) (fs_abs fs)), fs')"
      "fs_wf fs'" "fs_abs fs' = snd (spec_write (cstr name) (ed_text e) (int (length (ed_text e))) (fs_abs fs))" unfolding sw by blast
    show ?thesis unfolding g(1) bind.bind_lunit w(1) prod.case using g(2,3) w(2,3) assms(1) nc by (intro edits_print edits_Some printing) simp_all
  qed
  show ?thesis
  proof (cases "c = 0")
    case False
    from name_file_spec [OF assms(3,4)] obtain e where e: "name_file argument ed = Some e" "editor_wf e"
      "ed_doc e = (ed_text ed, take 31 (cstr argument), True)" "ed_text e = ed_text ed" by (auto simp: ed_doc_def)
    have sp: "spec_editor (text_of ''save'') (cstr argument) (ed_doc ed, fs_abs fs) =
        (ed_doc e, snd (spec_write (cstr argument) (ed_text e) (int (length (ed_text e))) (fs_abs fs)))"
      using False c(2) e(3,4) by (simp add: spec_editor.simps ed_doc_def)
    show ?thesis using store [OF e(2) assms(4)] False unfolding sp save_command_def save_target_def c(1) e(1) bind.bind_lunit by (simp add: e(1))
  next
    case True
    show ?thesis
    proof (cases "ed_open ed \<and> k \<noteq> 0")
      case yes: True
      have sp: "spec_editor (text_of ''save'') (cstr argument) (ed_doc ed, fs_abs fs) =
          (ed_doc ed, snd (spec_write (cstr (ed_name ed)) (ed_text ed) (int (length (ed_text ed))) (fs_abs fs)))"
        using True yes c(2) k(2) by (simp add: spec_editor.simps ed_doc_def)
      show ?thesis using store [OF assms(3) nm] True yes unfolding sp save_command_def save_target_def c(1) k(1) bind.bind_lunit by simp
    next
      case no: False
      have sp: "spec_editor (text_of ''save'') (cstr argument) (ed_doc ed, fs_abs fs) = (ed_doc ed, fs_abs fs)"
        using True no c(2) k(2) by (auto simp: spec_editor.simps ed_doc_def)
      have st: "save_target argument ed = Some (None, ed)" using True no by (auto simp: save_target_def c(1) k(1) simp del: rd_eq_Some)
      show ?thesis unfolding sp save_command_def st bind.bind_lunit prod.case option.case
        using assms by (intro edits_print edits_Some printing) simp_all
    qed
  qed
qed

lemma command_delete:
  assumes "on_ports inp d" "fs_wf fs" "editor_wf ed" "is_cstr argument"
  shows "edits inp (spec_editor (text_of ''delete'') (cstr argument) (ed_doc ed, fs_abs fs)) (delete_command argument fs ed d)"
proof -
  obtain c where c: "rd argument 0 = Some c" "c = 0 \<longleftrightarrow> cstr argument = []" using is_cstr_head [OF assms(4)] by blast
  have nm: "is_cstr (ed_name ed)" using assms(3) by (simp add: editor_wf_def)
  obtain v where v: "strcmp (ed_name ed) argument = Some v" "v = 0 \<longleftrightarrow> cstr (ed_name ed) = cstr argument" using strcmp_cstr [OF nm assms(4)] by blast
  from sys_delete_file_spec [OF assms(2,4)] obtain fs' where w: "sys_delete_file (Some argument) fs = Some (fst (spec_delete (cstr argument) (fs_abs fs)), fs')"
    "fs_wf fs'" "fs_abs fs' = snd (spec_delete (cstr argument) (fs_abs fs))" by blast
  let ?e = "ed\<lparr>ed_content := replicate EDIT_BUFFER_SIZE 0, ed_length := 0\<rparr>"
  have "editor_wf ?e" using assms(3) by (simp add: editor_wf_def EDIT_BUFFER_SIZE_def)
  from clear_current_filename_spec [OF this] obtain e where e: "clear_current_filename ?e = Some e" "editor_wf e" "ed_doc e = ([], [], False)"
    by (auto simp: ed_text_def)
  have hit: "(if ed_open ed then do { v \<leftarrow> strcmp (ed_name ed) argument; Some (v = 0) } else Some False) =
    Some (ed_open ed \<and> cstr (ed_name ed) = cstr argument)" using v by simp
  show ?thesis
  proof (cases "c = 0 \<or> fs_abs fs (cstr argument) = None")
    case True
    then have sp: "spec_editor (text_of ''delete'') (cstr argument) (ed_doc ed, fs_abs fs) = (ed_doc ed, fs_abs fs)"
      using c(2) by (auto simp: spec_editor.simps ed_doc_def)
    show ?thesis
    proof (cases "c = 0")
      case True
      show ?thesis unfolding sp delete_command_def c(1) bind.bind_lunit if_P [OF True]
        using assms by (intro edits_print edits_Some printing) simp_all
    next
      case z: False
      then have r: "spec_delete (cstr argument) (fs_abs fs) = (-1, fs_abs fs)" using True by (simp add: spec_delete_def)
      show ?thesis using assms w(2,3) r unfolding sp delete_command_def c(1) bind.bind_lunit if_not_P [OF z] w(1) prod.case
        by simp (intro edits_print edits_Some printing; simp)
    qed
  next
    case False
    then have r: "spec_delete (cstr argument) (fs_abs fs) = (0, (fs_abs fs)(cstr argument := None))" and z: "c \<noteq> 0" by (auto simp: spec_delete_def)
    have sp: "spec_editor (text_of ''delete'') (cstr argument) (ed_doc ed, fs_abs fs) =
        (if ed_open ed \<and> cstr (ed_name ed) = cstr argument then ([], [], False) else ed_doc ed, (fs_abs fs)(cstr argument := None))"
      using False c(2) by (auto simp: spec_editor.simps ed_doc_def)
    have cl: "(if b then do { ed \<leftarrow> clear_file_buffer ed; clear_current_filename ed } else Some ed) = Some (if b then e else ed)" for b
      by (simp add: clear_file_buffer_spec [OF assms(3)] e(1))
    have f: "fst (spec_delete (cstr argument) (fs_abs fs)) = 0" using r by simp
    show ?thesis using assms w(2,3) r e(2,3)
      unfolding sp delete_command_def c(1) bind.bind_lunit if_not_P [OF z] w(1) prod.case hit cl if_P [OF f] Option.bind_assoc
      by (intro edits_print edits_Some printing) simp_all
  qed
qed

section \<open>Edit mode\<close>

lemma last_newline_defined: "n \<le> length content \<Longrightarrow> \<exists>k. last_newline content n = Some k"
  by (induction n) (auto simp: rd_Some)

lemma line_column_defined: "editor_wf ed \<Longrightarrow> \<exists>k. line_column ed = Some k"
  using last_newline_defined [of "ed_length ed" "ed_content ed"]
  by (auto simp: line_column_def editor_wf_def rd_Some)

text \<open>What a key does to the text.\<close>

definition type_key :: "u8 \<Rightarrow> bytes \<Rightarrow> bytes" where
  "type_key c t = (if c = 8 \<or> c = 127 then butlast t else if c = 10 \<or> c \<ge> 32 \<and> c < 127 then t @ [c] else t)"

definition same_file :: "Editor \<Rightarrow> Editor \<Rightarrow> bool" where
  "same_file ed ed' \<longleftrightarrow> ed_name ed' = ed_name ed \<and> ed_open ed' = ed_open ed"

lemma edit_char_spec:
  assumes "editor_wf ed" "ed_length ed < EDIT_BUFFER_SIZE - 1" "device_wf d" "c \<noteq> 0"
  shows "\<exists>ed' column' d'. edit_char c ed column d = Some (ed', column', d') \<and> editor_wf ed' \<and> ed_text ed' = type_key c (ed_text ed) \<and>
    same_file ed ed' \<and> device_wf d' \<and> same_input d d'"
proof -
  have l: "ed_length ed < length (ed_content ed)" using assms(1) by (simp add: editor_wf_def)
  have say: "\<exists>d'. puts t d = Some d' \<and> device_wf d' \<and> same_input d d'" if "is_cstr t" for t by (rule puts_same [OF assms(3) that])
  have put: "\<exists>ed' column' d'. do { content \<leftarrow> wr (ed_content ed) (ed_length ed) c; d \<leftarrow> puts t d;
       Some (ed\<lparr>ed_content := content, ed_length := ed_length ed + 1\<rparr>, k, d) } = Some (ed', column', d') \<and>
    editor_wf ed' \<and> ed_text ed' = ed_text ed @ [c] \<and> same_file ed ed' \<and> device_wf d' \<and> same_input d d'" if "is_cstr t" for t k
    using say [OF that] l assms(1,2) by (auto simp: wr_Some editor_wf_def ed_text_def same_file_def take_Suc_conv_app_nth)
  show ?thesis
  proof (cases "c = 8 \<or> c = 127")
    case True
    show ?thesis
    proof (cases "ed_length ed > 0")
      case False
      then show ?thesis using True assms by (auto simp: edit_char_def type_key_def ed_text_def same_file_def same_input_def)
    next
      case pos: True
      let ?e = "ed\<lparr>ed_length := ed_length ed - 1\<rparr>"
      have wf: "editor_wf ?e" "ed_text ?e = butlast (ed_text ed)" "same_file ed ?e"
        using assms(1) pos l by (auto simp: editor_wf_def ed_text_def same_file_def butlast_take)
      obtain k where k: "line_column ?e = Some k" using line_column_defined [OF wf(1)] by blast
      obtain d' where d': "puts [8, 32, 8, 0] d = Some d'" "device_wf d'" "same_input d d'" using say [of "[8, 32, 8, 0]"] by (auto simp del: puts.simps)
      have "edit_char c ed column d = Some (?e, if column > 0 then column - 1 else k, d')"
        using True pos d'(1) k by (auto simp: edit_char_def Let_def simp del: puts.simps)
      then show ?thesis using wf d' True by (simp add: type_key_def)
    qed
  next
    case False
    show ?thesis
    proof (cases "c = 10 \<or> c \<ge> 32 \<and> c < 127")
      case True
      have cs: "is_cstr [c, 0]" by simp
      show ?thesis using put [OF ascii_is_cstr [of "line ''''"], of 0] put [OF cs, of "column + 1"] True False assms(2)
        by (cases "c = 10") (simp_all add: edit_char_def type_key_def say_def del: puts.simps)
    next
      case ign: False
      then show ?thesis using False assms by (auto simp: edit_char_def type_key_def same_file_def same_input_def)
    qed
  qed
qed

text \<open>Escape arrives on the serial line at poll \<open>t\<close>.\<close>

definition escapes :: "(nat \<Rightarrow> ports) \<Rightarrow> nat \<Rightarrow> bool" where
  "escapes inp t \<longleftrightarrow> in_lsr (inp t) AND 1 \<noteq> 0 \<and> in_rbr (inp t) = 27"

lemma escapes_decode: "escapes inp t \<Longrightarrow> decode_key (inp t) sh = (27, sh)"
  by (auto simp: escapes_def decode_key_def)

text \<open>The keys of an editing session: all of them are typed into the text, and only the last one may be Escape, or may
  have filled the buffer.\<close>

definition typed :: "bytes \<Rightarrow> bytes \<Rightarrow> bytes \<Rightarrow> bytes \<Rightarrow> bool" where
  "typed t cs u tail \<longleftrightarrow> u = fold type_key cs t \<and> 27 \<notin> set cs \<and> (tail = [27] \<or> tail = [] \<and> length u = EDIT_BUFFER_SIZE - 1) \<and>
     (\<forall>k < length cs. length (fold type_key (take k cs) t) < EDIT_BUFFER_SIZE - 1)"

lemma typed_Cons:
  assumes "typed (type_key c t) cs u tail" "c \<noteq> 27" "length t < EDIT_BUFFER_SIZE - 1"
  shows "typed t (c # cs) u tail"
proof -
  have "length (fold type_key (take k (c # cs)) t) < EDIT_BUFFER_SIZE - 1" if "k < length (c # cs)" for k
    using that assms(1,3) by (cases k) (simp_all add: typed_def)
  then show ?thesis using assms(1,2) by (auto simp: typed_def)
qed

lemma edit_loop_returns:
  "device_wf d \<Longrightarrow> editor_wf ed \<Longrightarrow> escapes (d_ports d) t \<Longrightarrow> d_polls d \<le> t \<or> ed_length ed = EDIT_BUFFER_SIZE - 1 \<Longrightarrow>
   \<exists>cs tail n ed' d'. edit_loop poll ed column d = Some (ed', d') \<and> device_wf d' \<and> editor_wf ed' \<and> same_file ed ed' \<and>
     keys (d_ports d) (d_polls d) (d_shift d) n = (cs @ tail, d_shift d') \<and> d_ports d' = d_ports d \<and> d_polls d' = d_polls d + n \<and>
     typed (ed_text ed) cs (ed_text ed') tail"
proof (induction "t + 1 - d_polls d" arbitrary: d ed column rule: less_induct)
  case less
  have tl: "length (ed_text ed) = ed_length ed" by (rule ed_text_length [OF less.prems(2)])
  show ?case
  proof (cases "ed_length ed < EDIT_BUFFER_SIZE - 1")
    case False
    then have "ed_length ed = EDIT_BUFFER_SIZE - 1" using less.prems(2) by (simp add: editor_wf_def EDIT_BUFFER_SIZE_def)
    then have "typed (ed_text ed) [] (ed_text ed) []" using tl by (simp add: typed_def)
    moreover have "edit_loop poll ed column d = Some (ed, d)" using False by (subst edit_loop.simps) simp
    ultimately show ?thesis using less.prems(1,2)
      by (intro exI [of _ "[]"] exI [of _ "[] :: bytes"] exI [of _ "0 :: nat"] exI [of _ ed] exI [of _ d]) (simp add: same_file_def)
  next
    case True
    then have le: "d_polls d \<le> t" using less.prems(4) by auto
    from get_ch_at [OF escapes_decode [OF less.prems(3)] _ le, of poll] obtain c n sh net where g: "0 < n" "d_polls d + n \<le> t + 1" "c \<noteq> 0"
      "d_polls d + n = t + 1 \<longrightarrow> c = 27" "keys (d_ports d) (d_polls d) (d_shift d) n = ([c], sh)"
      "get_ch poll d = Some (c, d\<lparr>d_polls := d_polls d + n, d_shift := sh, d_net := net\<rparr>)" by auto
    let ?d = "d\<lparr>d_polls := d_polls d + n, d_shift := sh, d_net := net\<rparr>"
    have wf: "device_wf ?d" using less.prems(1) by (simp add: device_wf_def)
    show ?thesis
    proof (cases "c = 27")
      case esc: True
      obtain d' where d': "say puts (CHR 0x0A # line ''--- Exiting Text Edit Mode ---'') ?d = Some d'" "device_wf d'" "same_input ?d d'"
        using puts_same [OF wf ascii_is_cstr, of "CHR 0x0A # line ''--- Exiting Text Edit Mode ---''"] by (auto simp: say_def)
      have "edit_loop poll ed column d = Some (ed, d')" using True esc g(6) d'(1) by (subst edit_loop.simps) simp
      moreover have "typed (ed_text ed) [] (ed_text ed) [27]" by (simp add: typed_def)
      ultimately show ?thesis using less.prems(2) d'(2,3) g(5) esc
        by (intro exI [of _ "[]"] exI [of _ "[27] :: bytes"] exI [of _ n] exI [of _ ed] exI [of _ d']) (simp add: same_file_def same_input_def)
    next
      case key: False
      from edit_char_spec [OF less.prems(2) True wf g(3), of column] obtain ed1 column1 d1 where e: "edit_char c ed column ?d = Some (ed1, column1, d1)"
        "editor_wf ed1" "ed_text ed1 = type_key c (ed_text ed)" "same_file ed ed1" "device_wf d1" "same_input ?d d1" by blast
      have st: "edit_loop poll ed column d = edit_loop poll ed1 column1 d1" using True key g(6) e(1) by (subst edit_loop.simps) simp
      have i: "d_ports d1 = d_ports d" "d_polls d1 = d_polls d + n" "d_shift d1 = sh" using e(6) by (simp_all add: same_input_def)
      have "d_polls d + n \<le> t" using g(2,4) key by linarith
      then have dec: "t + 1 - d_polls d1 < t + 1 - d_polls d" "d_polls d1 \<le> t \<or> ed_length ed1 = EDIT_BUFFER_SIZE - 1" "escapes (d_ports d1) t"
        using i g(1) less.prems(3) by simp_all
      from less.hyps [OF dec(1) e(5,2) dec(3,2), of column1] obtain cs tail m ed' d' where r: "edit_loop poll ed1 column1 d1 = Some (ed', d')" "device_wf d'"
        "editor_wf ed'" "same_file ed1 ed'" "keys (d_ports d1) (d_polls d1) (d_shift d1) m = (cs @ tail, d_shift d')" "d_ports d' = d_ports d1"
        "d_polls d' = d_polls d1 + m" "typed (ed_text ed1) cs (ed_text ed') tail" by blast
      have "keys (d_ports d) (d_polls d) (d_shift d) (n + m) = ((c # cs) @ tail, d_shift d')" using g(5) r(5) i by (simp add: keys_append)
      moreover have "typed (ed_text ed) (c # cs) (ed_text ed') tail" using typed_Cons [OF _ key] r(8) e(3) True tl by simp
      ultimately show ?thesis using st r(1-4,6,7) e(4) i
        by (intro exI [of _ "c # cs"] exI [of _ tail] exI [of _ "n + m"] exI [of _ ed'] exI [of _ d']) (simp add: same_file_def)
    qed
  qed
qed

lemma enter_text_edit_mode_returns:
  assumes "device_wf d" "editor_wf ed" "escapes (d_ports d) t" "d_polls d \<le> t"
  shows "\<exists>cs tail n ed' d'. enter_text_edit_mode poll ed d = Some (ed', d') \<and> device_wf d' \<and> editor_wf ed' \<and> same_file ed ed' \<and>
     keys (d_ports d) (d_polls d) (d_shift d) n = (cs @ tail, d_shift d') \<and> d_ports d' = d_ports d \<and> d_polls d' = d_polls d + n \<and>
     typed (ed_text ed) cs (ed_text ed') tail"
proof -
  have say: "\<exists>d'. say puts s d = Some d' \<and> device_wf d' \<and> same_input d d'" if "device_wf d" for s d
    unfolding say_def by (rule puts_same [OF that ascii_is_cstr])
  obtain d1 where d1: "say puts (line ''--- Text Edit Mode (Press ESC to finish) ---'') d = Some d1" "device_wf d1" "same_input d d1"
    using say [OF assms(1)] by blast
  obtain e where e: "terminate ed = Some e" "editor_wf e" "ed_doc e = ed_doc ed" "is_cstr (ed_content e)" "same_file ed e"
    using terminate_spec [OF assms(2)] by (auto simp: terminate_def same_file_def Option.bind_eq_Some_conv)
  have te: "ed_text e = ed_text ed" using e(3) by (simp add: ed_doc_def)
  obtain d2 where d2: "(if ed_length e > 0 then puts (ed_content e) d1 else Some d1) = Some d2" "device_wf d2" "same_input d1 d2"
    using puts_same [OF d1(2) e(4)] d1(2) by (cases "ed_length e > 0") (auto simp: same_input_def)
  obtain k where k: "line_column e = Some k" using line_column_defined [OF e(2)] by blast
  have i: "escapes (d_ports d2) t" "d_polls d2 \<le> t \<or> ed_length e = EDIT_BUFFER_SIZE - 1" "d_ports d2 = d_ports d" "d_polls d2 = d_polls d" "d_shift d2 = d_shift d"
    using assms(3,4) d1(3) d2(3) by (simp_all add: same_input_def)
  obtain cs tail n ed' d' where r: "edit_loop poll e k d2 = Some (ed', d')" "device_wf d'" "editor_wf ed'" "same_file e ed'"
    "keys (d_ports d2) (d_polls d2) (d_shift d2) n = (cs @ tail, d_shift d')" "d_ports d' = d_ports d2" "d_polls d' = d_polls d2 + n"
    "typed (ed_text e) cs (ed_text ed') tail" using edit_loop_returns [OF d2(2) e(2) i(1,2)] by blast
  obtain f where f: "terminate ed' = Some f" "editor_wf f" "ed_doc f = ed_doc ed'" using terminate_spec [OF r(3)] by blast
  obtain d3 where d3: "(if ed_length f \<ge> EDIT_BUFFER_SIZE - 1
         then say puts (line ''Warning: Edit buffer is full. Some input may have been lost.'') d' else Some d') = Some d3" "device_wf d3" "same_input d' d3"
    using say [OF r(2)] r(2) by (cases "ed_length f \<ge> EDIT_BUFFER_SIZE - 1") (auto simp: same_input_def)
  have sf: "same_file ed f" using e(5) r(4) f(1) by (auto simp: same_file_def terminate_def Option.bind_eq_Some_conv)
  have "enter_text_edit_mode poll ed d = Some (f, d3)"
    unfolding enter_text_edit_mode_def d1(1) bind.bind_lunit e(1) d2(1) k r(1) prod.case f(1) d3(1) ..
  then show ?thesis using d3(2,3) f(2,3) r(5-8) i te sf
    by (intro exI [of _ cs] exI [of _ tail] exI [of _ n] exI [of _ f] exI [of _ d3]) (simp add: same_input_def ed_doc_def)
qed

section \<open>Commands\<close>

lemma editor_command_spec:
  assumes "on_ports inp d" "fs_wf fs" "editor_wf ed" "is_cstr command" "is_cstr argument" "cstr command \<noteq> text_of ''edit''"
  shows "\<exists>fs' ed' d'. editor_command poll command argument fs ed d = Some (cstr command = text_of ''quit'', fs', ed', d') \<and> on_ports inp d' \<and>
    fs_wf fs' \<and> editor_wf ed' \<and> (ed_doc ed', fs_abs fs') = spec_editor (cstr command) (cstr argument) (ed_doc ed, fs_abs fs)"
proof -
  let ?w = "cstr command" and ?x = "\<lambda>w. spec_editor w (cstr argument) (ed_doc ed, fs_abs fs)"
  have h: "cstr_is command s = Some (?w = text_of s)" if "plain s" for s by (rule cstr_is_eq [OF assms(4) that])
  obtain c where c: "rd command 0 = Some c" "c = 0 \<longleftrightarrow> ?w = []" using is_cstr_head [OF assms(4)] by blast
  have same: "?x ?w = (ed_doc ed, fs_abs fs)" if "?w \<noteq> text_of ''new''" "?w \<noteq> text_of ''open''" "?w \<noteq> text_of ''save''" "?w \<noteq> text_of ''delete''"
    using that by (cases "ed_doc ed") (simp add: spec_editor.simps)
  have go: "editor_command poll command argument fs ed d = do {
      (fs, ed, d) \<leftarrow> (if ?w = text_of ''quit'' then do { d \<leftarrow> say puts (line ''Exiting editor...'') d; Some (fs, ed, d) }
        else if ?w = text_of ''list'' then do { d \<leftarrow> list_command fs d; Some (fs, ed, d) }
        else if ?w = text_of ''new'' then do { (ed, d) \<leftarrow> new_command argument ed d; Some (fs, ed, d) }
        else if ?w = text_of ''open'' then do { (ed, d) \<leftarrow> open_command argument fs ed d; Some (fs, ed, d) }
        else if ?w = text_of ''save'' then save_command argument fs ed d
        else if ?w = text_of ''delete'' then delete_command argument fs ed d
        else do { d \<leftarrow> (if c = 0 then Some d else say_with (quoted ''Unknown command: '') command ([CHR 0x27] @ line ''.'') d); Some (fs, ed, d) });
      Some (?w = text_of ''quit'', fs, ed, d) }"
    using assms(6) by (auto simp: editor_command_def h plain_def c(1) split_def simp del: rd_eq_Some)
  have "edits inp (?x ?w) (if ?w = text_of ''quit'' then do { d \<leftarrow> say puts (line ''Exiting editor...'') d; Some (fs, ed, d) }
        else if ?w = text_of ''list'' then do { d \<leftarrow> list_command fs d; Some (fs, ed, d) }
        else if ?w = text_of ''new'' then do { (ed, d) \<leftarrow> new_command argument ed d; Some (fs, ed, d) }
        else if ?w = text_of ''open'' then do { (ed, d) \<leftarrow> open_command argument fs ed d; Some (fs, ed, d) }
        else if ?w = text_of ''save'' then save_command argument fs ed d
        else if ?w = text_of ''delete'' then delete_command argument fs ed d
        else do { d \<leftarrow> (if c = 0 then Some d else say_with (quoted ''Unknown command: '') command ([CHR 0x27] @ line ''.'') d); Some (fs, ed, d) })"
    using command_new [OF assms(1,2,3,5)] command_open [OF assms(1,2,3,5)] command_save [OF assms(1,2,3,5)] command_delete [OF assms(1,2,3,5)]
      assms(1-4) same prints_list [OF assms(2,1)] by (auto intro!: edits_print edits_Some printing)
  then show ?thesis unfolding go edits_def by (elim exE conjE) (simp only: bind.bind_lunit prod.case, blast)
qed

section \<open>The command line\<close>

lemma copy_word_spec:
  "drop i s = w @ c # r \<Longrightarrow> \<forall>x \<in> set w. wanted x \<Longrightarrow> \<not> wanted c \<Longrightarrow> j + length w < COMMAND_BUFFER_SIZE \<Longrightarrow> length out = COMMAND_BUFFER_SIZE \<Longrightarrow>
   copy_word wanted s i out j = Some (i + length w, take j out @ w @ 0 # drop (j + length w + 1) out)"
proof (induction w arbitrary: i j out)
  case Nil
  have "i < length s" "s ! i = c" using Nil.prems(1) by (metis append_Nil drop_all linorder_not_le list.distinct(1)) (metis Nil.prems(1) append_Nil hd_drop_conv_nth linorder_not_le drop_all list.distinct(1) list.sel(1))
  then show ?case using Nil.prems by (subst copy_word.simps) (simp add: rd_Some wr_def upd_conv_take_nth_drop)
next
  case (Cons x w)
  have l: "i < length s" using Cons.prems(1) by (metis append_Cons drop_all linorder_not_le list.distinct(1))
  have x: "s ! i = x" "drop (i + 1) s = w @ c # r" using Cons.prems(1) l by (simp_all add: Cons_nth_drop_Suc [symmetric])
  have j: "j < length out" "j < COMMAND_BUFFER_SIZE - 1" using Cons.prems(4,5) by simp_all
  have "copy_word wanted s i out j = copy_word wanted s (i + 1) (out[j := x]) (j + 1)"
    using Cons.prems(2) l x(1) j by (subst copy_word.simps) (simp add: rd_Some wr_Some)
  also have "\<dots> = Some (i + 1 + length w, take (j + 1) (out[j := x]) @ w @ 0 # drop (j + 1 + length w + 1) (out[j := x]))"
    using Cons.prems(2-5) x(2) by (intro Cons.IH) simp_all
  finally show ?case using j by (simp add: take_Suc_conv_app_nth)
qed

lemma skip_gap_spec: "drop i s = w @ c # r \<Longrightarrow> \<forall>x \<in> set w. x = 32 \<Longrightarrow> c \<noteq> 32 \<Longrightarrow> skip_gap s i = Some (i + length w)"
proof (induction w arbitrary: i)
  case Nil
  have "i < length s" "s ! i = c" using Nil.prems(1) by (metis append_Nil drop_all linorder_not_le list.distinct(1)) (metis Nil.prems(1) append_Nil hd_drop_conv_nth linorder_not_le drop_all list.distinct(1) list.sel(1))
  then show ?case using Nil.prems by (subst skip_gap.simps) (simp add: rd_Some)
next
  case (Cons x w)
  have l: "i < length s" using Cons.prems(1) by (metis append_Cons drop_all linorder_not_le list.distinct(1))
  have x: "s ! i = x" "drop (i + 1) s = w @ c # r" using Cons.prems(1) l by (simp_all add: Cons_nth_drop_Suc [symmetric])
  have "skip_gap s (i + 1) = Some (i + 1 + length w)" using Cons.prems(2,3) x(2) by (intro Cons.IH) simp_all
  then show ?case using Cons.prems(2) l x(1) by (subst skip_gap.simps) (simp add: rd_Some)
qed

text \<open>The two parts of a line.\<close>

definition line_word :: "bytes \<Rightarrow> bytes" where
  "line_word s = takeWhile (\<lambda>c. c \<noteq> 32) s"

definition line_rest :: "bytes \<Rightarrow> bytes" where
  "line_rest s = dropWhile (\<lambda>c. c = 32) (dropWhile (\<lambda>c. c \<noteq> 32) s)"

lemma cut_line_spec:
  assumes "is_cstr s" "length (cstr s) < COMMAND_BUFFER_SIZE" "length command = COMMAND_BUFFER_SIZE" "length argument = COMMAND_BUFFER_SIZE"
  shows "\<exists>c a. cut_line s command argument = Some (c, a) \<and> is_cstr c \<and> cstr c = line_word (cstr s) \<and> is_cstr a \<and> cstr a = line_rest (cstr s) \<and>
    length c = COMMAND_BUFFER_SIZE \<and> length a = COMMAND_BUFFER_SIZE"
proof -
  obtain r where s: "s = cstr s @ 0 # r" using cstr_split [OF assms(1)] by blast
  define l where "l = cstr s"
  define w where "w = takeWhile (\<lambda>c. c \<noteq> 32) l"
  define v where "v = dropWhile (\<lambda>c. c \<noteq> 32) l"
  define g where "g = takeWhile (\<lambda>c. c = 32) v"
  define a where "a = dropWhile (\<lambda>c. c = 32) v"
  have sp: "l = w @ v" "v = g @ a" by (simp_all add: w_def v_def g_def a_def)
  have len: "length l = length w + length g + length a" unfolding sp by simp
  have "0 \<notin> set l" unfolding l_def by (rule cstr_no_nul)
  then have nz: "0 \<notin> set w" "0 \<notin> set a" unfolding sp by auto
  have ws: "\<forall>c \<in> set w. c \<noteq> 32" "\<forall>c \<in> set g. c = 32" unfolding w_def g_def by (auto dest: set_takeWhileD)
  have all: "s = w @ g @ a @ 0 # r" using s unfolding l_def [symmetric] sp by simp
  have d: "drop 0 s = w @ v @ 0 # r" "drop (length w) s = g @ a @ 0 # r" "drop (length w + length g) s = a @ 0 # r" unfolding all sp(2) by simp_all
  have hv: "v = [] \<or> hd v = 32" using hd_dropWhile [of "\<lambda>c. c \<noteq> 32" l] unfolding v_def by blast
  have ha: "a = [] \<or> hd a \<noteq> 32" using hd_dropWhile [of "\<lambda>c. c = 32" v] unfolding a_def by blast
  obtain e x where e: "v @ 0 # r = e # x" "e = 32 \<or> e = 0" using hv by (cases v) auto
  obtain b y where b: "a @ 0 # r = b # y" "b \<noteq> 32" using ha by (cases a) auto
  have c1: "copy_word (\<lambda>c. c \<noteq> 32 \<and> c \<noteq> 0) s 0 command 0 = Some (length w, w @ 0 # drop (length w + 1) command)"
    using copy_word_spec [of 0 s w e x "\<lambda>c. c \<noteq> 32 \<and> c \<noteq> 0" 0 command] d(1) e nz(1) ws(1) assms(2,3) len by (auto simp: l_def)
  have c2: "skip_gap s (length w) = Some (length w + length g)"
    using skip_gap_spec [of "length w" s g b y] d(2) b ws(2) by auto
  have c3: "copy_word (\<lambda>c. c \<noteq> 0) s (length w + length g) argument 0 = Some (length w + length g + length a, a @ 0 # drop (length a + 1) argument)"
    using copy_word_spec [of "length w + length g" s a 0 r "\<lambda>c. c \<noteq> 0" 0 argument] d(3) nz(2) assms(2,4) len by (auto simp: l_def)
  have "cut_line s command argument = Some (w @ 0 # drop (length w + 1) command, a @ 0 # drop (length a + 1) argument)"
    unfolding cut_line_def c1 bind.bind_lunit prod.case c2 c3 ..
  then show ?thesis using nz assms(2-4) len by (simp add: line_word_def line_rest_def is_cstr_def w_def v_def a_def l_def)
qed

section \<open>A step of the editor\<close>

definition frame_ok :: "edit_frame \<Rightarrow> bool" where
  "frame_ok f \<longleftrightarrow> length (ef_line f) = COMMAND_BUFFER_SIZE \<and> length (ef_command f) = COMMAND_BUFFER_SIZE \<and> length (ef_argument f) = COMMAND_BUFFER_SIZE"

text \<open>The command \<^verbatim>\<open>edit\<close>: the keys read after the line, from poll \<open>p\<close> and shift state \<open>sh\<close> on, are typed into the text, unless
  no file was ever named.\<close>

definition edit_session :: "(nat \<Rightarrow> ports) \<Rightarrow> nat \<Rightarrow> shift \<Rightarrow> Editor \<Rightarrow> Editor \<Rightarrow> bool" where
  "edit_session inp p sh ed ed' \<longleftrightarrow> same_file ed ed' \<and>
     (if \<not> ed_open ed \<and> cstr (ed_name ed) = [] then ed_text ed' = ed_text ed
      else \<exists>n cs tail sh'. keys inp p sh n = (cs @ tail, sh') \<and> typed (ed_text ed) cs (ed_text ed') tail)"

lemma edit_command_spec:
  assumes "on_ports inp d" "editor_wf ed" "escapes inp t" "d_polls d \<le> t"
  shows "\<exists>ed' d'. edit_command poll ed d = Some (ed', d') \<and> on_ports inp d' \<and> editor_wf ed' \<and> edit_session inp (d_polls d) (d_shift d) ed ed'"
proof -
  have nm: "is_cstr (ed_name ed)" using assms(2) by (simp add: editor_wf_def)
  obtain c where c: "rd (ed_name ed) 0 = Some c" "c = 0 \<longleftrightarrow> cstr (ed_name ed) = []" using is_cstr_head [OF nm] by blast
  show ?thesis
  proof (cases "\<not> ed_open ed \<and> c = 0")
    case True
    obtain d' where "say puts (''No file. Use '' @ quoted ([CHR 0x27] @ ''new <fn>'') @ '' or '' @ quoted ([CHR 0x27] @ ''open <fn>'') @ line '' first.'') d = Some d'" "on_ports inp d'"
      using typing.prints_say [OF assms(1)] unfolding typing.prints_def by blast
    then show ?thesis using True c assms(2) by (simp add: edit_command_def edit_session_def same_file_def del: rd_eq_Some)
  next
    case False
    have w: "device_wf d" "escapes (d_ports d) t" "d_ports d = inp" using assms(1,3) by (simp_all add: on_ports_def)
    from enter_text_edit_mode_returns [OF w(1) assms(2) w(2) assms(4), of poll] obtain cs tail n ed' d' where r:
      "enter_text_edit_mode poll ed d = Some (ed', d')" "device_wf d'" "editor_wf ed'" "same_file ed ed'"
      "keys (d_ports d) (d_polls d) (d_shift d) n = (cs @ tail, d_shift d')" "d_ports d' = d_ports d" "typed (ed_text ed) cs (ed_text ed') tail" by blast
    have "edit_session inp (d_polls d) (d_shift d) ed ed'"
      unfolding edit_session_def if_not_P [OF False [unfolded c(2)]] using r(4,5,7) unfolding w(3) by blast
    then show ?thesis using r w(3) unfolding edit_command_def c(1) bind.bind_lunit if_not_P [OF False] by (simp add: on_ports_def)
  qed
qed

lemma prompt_shown:
  assumes "device_wf d" "is_cstr name"
  shows "\<exists>d'. (if opened then say_with ''edit ['' name '']# '' d else say puts ''edit# '' d) = Some d' \<and> device_wf d' \<and> same_input d d'"
proof -
  have say: "\<exists>d'. puts t d = Some d' \<and> device_wf d' \<and> same_input d d'" if "device_wf d" "is_cstr t" for t and d :: "'a device" by (rule puts_same [OF that])
  show ?thesis
  proof (cases opened)
    case False
    then show ?thesis using say [OF assms(1) ascii_is_cstr] by (simp add: say_def)
  next
    case True
    obtain d1 where d1: "puts (ascii ''edit ['') d = Some d1" "device_wf d1" "same_input d d1" using say [OF assms(1) ascii_is_cstr] by blast
    obtain d2 where d2: "puts name d1 = Some d2" "device_wf d2" "same_input d1 d2" using say [OF d1(2) assms(2)] by blast
    obtain d3 where d3: "puts (ascii '']# '') d2 = Some d3" "device_wf d3" "same_input d2 d3" using say [OF d2(2) ascii_is_cstr] by blast
    show ?thesis using True d1 d2 d3 by (simp add: say_with_def say_def same_input_def)
  qed
qed

text \<open>C37: the editor refines a document editor. When Enter and Escape keep arriving on the serial line, a round of the
  editor returns: it reads a line, the keys typed up to Enter with their editing applied, and cuts it at the first blanks
  into a command and its argument. Then the document (text, file name, whether a file is open) and the RAM files change
  exactly as the reference \<open>spec_editor\<close> says for \<^verbatim>\<open>new\<close>, \<^verbatim>\<open>open\<close>, \<^verbatim>\<open>save\<close> and \<^verbatim>\<open>delete\<close>; \<^verbatim>\<open>edit\<close> changes the text alone, to
  what results from typing the keys that follow up to Escape or until 511 characters are there; no other command changes
  anything, and the application leaves exactly for \<^verbatim>\<open>quit\<close>. No access leaves the buffers, and the invariants of file
  system, editor and console are kept.\<close>

theorem editor_step_refines:
  assumes "on_ports inp d" "\<forall>t. \<exists>t' \<ge> t. escapes inp t'" "fs_wf fs" "editor_wf ed" "frame_ok f"
  shows "\<exists>f' fs' ed' d' n cs sh l w. keys inp (d_polls d) (d_shift d) n = (cs @ [10], sh) \<and> 10 \<notin> set cs \<and>
    l = fold (edit_key COMMAND_BUFFER_SIZE) cs [] \<and> w = line_word l \<and>
    editor_step poll f fs ed d = Some (w = text_of ''quit'', f', fs', ed', d') \<and>
    on_ports inp d' \<and> fs_wf fs' \<and> editor_wf ed' \<and> frame_ok f' \<and>
    (if w = text_of ''edit'' then fs' = fs \<and> edit_session inp (d_polls d + n) sh ed ed'
     else (ed_doc ed', fs_abs fs') = spec_editor w (line_rest l) (ed_doc ed, fs_abs fs))"
proof -
  have nm: "is_cstr (ed_name ed)" using assms(4) by (simp add: editor_wf_def)
  have fo: "length (ef_line f) = COMMAND_BUFFER_SIZE" "length (ef_command f) = COMMAND_BUFFER_SIZE" "length (ef_argument f) = COMMAND_BUFFER_SIZE"
    using assms(5) by (simp_all add: frame_ok_def)
  obtain d1 where d1: "(if ed_open ed then say_with ''edit ['' (ed_name ed) '']# '' d else say puts ''edit# '' d) = Some d1" "device_wf d1" "same_input d d1"
    using prompt_shown [OF _ nm, of d] assms(1) by (auto simp: on_ports_def)
  have i: "d_ports d1 = inp" "d_polls d1 = d_polls d" "d_shift d1 = d_shift d" using d1(3) assms(1) by (simp_all add: same_input_def on_ports_def)
  have m: "0 < int COMMAND_BUFFER_SIZE" "nat (int COMMAND_BUFFER_SIZE) \<le> length (ef_line f)" using fo(1) by (simp_all add: COMMAND_BUFFER_SIZE_def)
  from read_line_spec [OF d1(2) m, of poll] obtain b cs n d2 where b: "read_line poll (Some (ef_line f)) (int COMMAND_BUFFER_SIZE) d1 = Some (Some b, d2)" "device_wf d2"
    "length b = length (ef_line f)" "d_ports d2 = d_ports d1" "d_polls d2 = d_polls d1 + n" "keys (d_ports d1) (d_polls d1) (d_shift d1) n = (cs @ [10], d_shift d2)"
    "10 \<notin> set cs" "is_cstr b" "cstr b = fold (edit_key COMMAND_BUFFER_SIZE) cs []" "length (cstr b) < COMMAND_BUFFER_SIZE" by auto
  from cut_line_spec [OF b(8,10) fo(2,3)] obtain c a where c: "cut_line b (ef_command f) (ef_argument f) = Some (c, a)" "is_cstr c" "cstr c = line_word (cstr b)"
    "is_cstr a" "cstr a = line_rest (cstr b)" "length c = COMMAND_BUFFER_SIZE" "length a = COMMAND_BUFFER_SIZE" by blast
  have op: "on_ports inp d2" using b(2,4) i(1) by (simp add: on_ports_def)
  have step: "editor_step poll f fs ed d = do { (leave, fs, ed, d) \<leftarrow> editor_command poll c a fs ed d2;
      Some (leave, \<lparr>ef_line = b, ef_command = c, ef_argument = a\<rparr>, fs, ed, d) }"
    unfolding editor_step_def d1(1) bind.bind_lunit b(1) prod.case c(1) ..
  have ok: "frame_ok \<lparr>ef_line = b, ef_command = c, ef_argument = a\<rparr>" using b(3) fo(1) c(6,7) by (simp add: frame_ok_def)
  let ?w = "line_word (cstr b)"
  have ex: "\<exists>fs' ed' d'. editor_command poll c a fs ed d2 = Some (?w = text_of ''quit'', fs', ed', d') \<and> on_ports inp d' \<and> fs_wf fs' \<and> editor_wf ed' \<and>
      (if ?w = text_of ''edit'' then fs' = fs \<and> edit_session inp (d_polls d + n) (d_shift d2) ed ed'
       else (ed_doc ed', fs_abs fs') = spec_editor ?w (line_rest (cstr b)) (ed_doc ed, fs_abs fs))"
  proof (cases "?w = text_of ''edit''")
    case False
    then show ?thesis using editor_command_spec [OF op assms(3,4) c(2,4), of poll] c(3,5) by auto
  next
    case True
    obtain t where t: "escapes inp t" "d_polls d2 \<le> t" using assms(2) by blast
    from edit_command_spec [OF op assms(4) t, of poll] obtain ed' d' where e: "edit_command poll ed d2 = Some (ed', d')" "on_ports inp d'" "editor_wf ed'"
      "edit_session inp (d_polls d2) (d_shift d2) ed ed'" by blast
    have "editor_command poll c a fs ed d2 = Some (False, fs, ed', d')"
      using cstr_is_eq [OF c(2)] c(3) True e(1) by (simp add: editor_command_def plain_def)
    then show ?thesis using True e(2-4) assms(3) b(5) i(2) by simp
  qed
  then obtain fs' ed' d' where e: "editor_command poll c a fs ed d2 = Some (?w = text_of ''quit'', fs', ed', d')" "on_ports inp d'" "fs_wf fs'" "editor_wf ed'"
    "if ?w = text_of ''edit'' then fs' = fs \<and> edit_session inp (d_polls d + n) (d_shift d2) ed ed'
     else (ed_doc ed', fs_abs fs') = spec_editor ?w (line_rest (cstr b)) (ed_doc ed, fs_abs fs)" by blast
  have s: "editor_step poll f fs ed d = Some (?w = text_of ''quit'', \<lparr>ef_line = b, ef_command = c, ef_argument = a\<rparr>, fs', ed', d')"
    unfolding step e(1) bind.bind_lunit prod.case ..
  have k: "keys inp (d_polls d) (d_shift d) n = (cs @ [10], d_shift d2)" using b(6) i by simp
  show ?thesis using k b(7,9) s e(2-5) ok by blast
qed

definition edit_keys :: "nat \<Rightarrow> ports" where
  "edit_keys t = \<lparr>in_lsr = 1, in_rbr = (if t < 5 then [110, 101, 119, 32, 97] ! t else if even t then 27 else 13), in_kbs = 0, in_kbd = 0, in_pit = 0x20\<rparr>"

definition edit_device :: "unit device" where
  "edit_device = demo_device\<lparr>d_ports := edit_keys\<rparr>"

definition blank_editor :: Editor where
  "blank_editor = \<lparr>ed_content = replicate 512 0, ed_length = 0, ed_name = replicate 32 0, ed_open = False\<rparr>"

definition blank_frame :: edit_frame where
  "blank_frame = \<lparr>ef_line = replicate 64 0, ef_command = replicate 64 0, ef_argument = replicate 64 0\<rparr>"

lemma edit_device_ok: "on_ports edit_keys edit_device" "\<forall>t. \<exists>t' \<ge> t. escapes edit_keys t'"
proof -
  have "t \<le> 2 * t + 6" "escapes edit_keys (2 * t + 6)" for t by (simp_all add: escapes_def edit_keys_def)
  then show "\<forall>t. \<exists>t' \<ge> t. escapes edit_keys t'" by blast
  have "t \<le> 2 * t + 7 \<and> enters edit_keys (2 * t + 7)" "t \<le> t \<and> in_pit (edit_keys t) AND 0x20 \<noteq> 0" for t by (simp_all add: enters_def edit_keys_def)
  then have "attended edit_keys" unfolding attended_def by blast
  then show "on_ports edit_keys edit_device" using demo_device_wf by (simp add: on_ports_def device_wf_def edit_device_def)
qed

theorem editor_step_refines_witness:
  "\<exists>f' fs' ed' d' n cs sh l w. keys edit_keys (d_polls edit_device) (d_shift edit_device) n = (cs @ [10], sh) \<and> 10 \<notin> set cs \<and>
    l = fold (edit_key COMMAND_BUFFER_SIZE) cs [] \<and> w = line_word l \<and>
    editor_step id blank_frame blank_fs blank_editor edit_device = Some (w = text_of ''quit'', f', fs', ed', d') \<and>
    on_ports edit_keys d' \<and> fs_wf fs' \<and> editor_wf ed' \<and> frame_ok f' \<and>
    (if w = text_of ''edit'' then fs' = blank_fs \<and> edit_session edit_keys (d_polls edit_device + n) sh blank_editor ed'
     else (ed_doc ed', fs_abs fs') = spec_editor w (line_rest l) (ed_doc blank_editor, fs_abs blank_fs))"
  by (rule editor_step_refines [OF edit_device_ok blank_fs_wf])
    (simp_all add: editor_wf_def blank_editor_def EDIT_BUFFER_SIZE_def is_cstr_def frame_ok_def blank_frame_def COMMAND_BUFFER_SIZE_def)

end
