(* ===== verification/Calculator.thy ===== *)
theory Calculator
  imports App_Console "HOL-Library.Signed_Division"
begin

text \<open>
  The calculator \<^verbatim>\<open>src/jordyOS/app_calc.c\<close>: an application on the system calls \<^verbatim>\<open>sys_write\<close>, \<^verbatim>\<open>read_line\<close> and
  \<^verbatim>\<open>sys_exit_task\<close>, run on the console of \<open>Console\<close>. Signed arithmetic that leaves \<^verbatim>\<open>int32_t\<close> is \<open>None\<close>, as in
  \<^verbatim>\<open>atoi\<close>. A pointer into the line is the rest of the line. The application runs until the exit command, so its loop
  is a partial function.
\<close>

section \<open>Parsing\<close>

definition OP_BUF_SIZE :: nat where "OP_BUF_SIZE = 8"

fun after_spaces :: "bytes \<Rightarrow> bytes option" where
  "after_spaces [] = None"
| "after_spaces (c # ln) = (if c = 32 \<and> c \<noteq> 0 then after_spaces ln else Some (c # ln))"

fun op_loop :: "bytes \<Rightarrow> bytes \<Rightarrow> nat \<Rightarrow> (bytes \<times> bytes \<times> nat) option" where
  "op_loop [] operation i = None"
| "op_loop (c # ln) operation i =
     (if c \<noteq> 32 \<and> c \<noteq> 0 \<and> i < OP_BUF_SIZE - 1 then do { operation \<leftarrow> wr operation i c; op_loop ln operation (i + 1) }
      else Some (c # ln, operation, i))"

fun after_digits :: "bytes \<Rightarrow> bytes option" where
  "after_digits [] = None"
| "after_digits (c # ln) = (if c \<ge> 48 \<and> c \<le> 57 then after_digits ln else Some (c # ln))"

definition after_number :: "bytes \<Rightarrow> bytes option" where
  "after_number ln = do { c \<leftarrow> rd ln 0; after_digits (if c = 45 then tl ln else ln) }"

definition parse :: "bytes \<Rightarrow> bytes \<Rightarrow> int \<Rightarrow> int \<Rightarrow> (int \<times> bytes \<times> int \<times> int) option" where
  "parse ln operation a b = do {
     ln \<leftarrow> after_spaces ln;
     (ln, operation, i) \<leftarrow> op_loop ln operation 0;
     operation \<leftarrow> wr operation i 0;
     c \<leftarrow> rd ln 0;
     if i = 0 \<and> c = 0 then Some (0, operation, a, b)
     else if i > 0 \<and> c = 0 then Some (1, operation, a, b)
     else do {
       ln \<leftarrow> after_spaces ln;
       c \<leftarrow> rd ln 0;
       if c = 0 then Some (1, operation, a, b)
       else do {
         a \<leftarrow> atoi ln;
         ln \<leftarrow> after_number ln;
         ln \<leftarrow> after_spaces ln;
         c \<leftarrow> rd ln 0;
         if c = 0 then Some (2, operation, a, b)
         else do { b \<leftarrow> atoi ln; Some (3, operation, a, b) } } } }"

section \<open>One line\<close>

definition in_int :: "int \<Rightarrow> bool" where
  "in_int v \<longleftrightarrow> - 2147483648 \<le> v \<and> v \<le> 2147483647"

definition int32 :: "int \<Rightarrow> int option" where
  "int32 v = (if in_int v then Some v else None)"

text \<open>The result of an operation; \<open>None\<close> inside is the flag \<^verbatim>\<open>ok\<close> cleared, after a message.\<close>

definition compute :: "bytes \<Rightarrow> int \<Rightarrow> int \<Rightarrow> 'n device \<Rightarrow> (int option \<times> 'n device) option" where
  "compute operation a b d = do {
     h \<leftarrow> cstr_is operation ''add'';
     if h then do { v \<leftarrow> int32 (a + b); Some (Some v, d) } else do {
     h \<leftarrow> cstr_is operation ''sub'';
     if h then do { v \<leftarrow> int32 (a - b); Some (Some v, d) } else do {
     h \<leftarrow> cstr_is operation ''mul'';
     if h then do { v \<leftarrow> int32 (a * b); Some (Some v, d) } else do {
     h \<leftarrow> cstr_is operation ''div'';
     if h then
       (if b \<noteq> 0 then do { v \<leftarrow> int32 (a sdiv b); Some (Some v, d) }
        else do { d \<leftarrow> say puts (line ''Error: Division by zero.'') d; Some (None, d) })
     else do {
       d \<leftarrow> say puts (''Unknown operation: '' @ [CHR 0x27]) d; d \<leftarrow> puts operation d; d \<leftarrow> say puts (line [CHR 0x27]) d;
       Some (None, d) } } } } }"

text \<open>What the loop does with a line; the flag is whether the application exits.\<close>

definition calc_line :: "bytes \<Rightarrow> bytes \<Rightarrow> 'n device \<Rightarrow> (bool \<times> bytes \<times> 'n device) option" where
  "calc_line ln operation d = do {
     (parse_result, operation, a, b) \<leftarrow> parse ln operation 0 0;
     leave \<leftarrow> (if parse_result = 1 then do {
         h \<leftarrow> cstr_is operation ''exit''; if h then Some True else cstr_is operation ''quit'' }
       else Some False);
     if leave then do { d \<leftarrow> say puts (line ''Exiting calculator...'') d; Some (True, operation, d) }
     else if parse_result \<noteq> 3 then do {
       d \<leftarrow> say puts (line (''Syntax: op num1 num2 (e.g. add 5 2) Operation: add, sub, mul, div or '' @ [CHR 0x27] @ ''exit'' @ [CHR 0x27, CHR 0x2F, CHR 0x27] @ ''quit'' @ [CHR 0x27])) d;
       Some (False, operation, d) }
     else do {
       (res, d) \<leftarrow> compute operation a b d;
       (case res of None \<Rightarrow> Some (False, operation, d)
        | Some res \<Rightarrow> do {
            out \<leftarrow> itoa (word_of_int res) (replicate 12 0);
            d \<leftarrow> puts out d; d \<leftarrow> say puts (line '''') d;
            Some (False, operation, d) }) } }"

definition calc_step :: "('n \<Rightarrow> 'n) \<Rightarrow> bytes \<Rightarrow> bytes \<Rightarrow> 'n device \<Rightarrow> (bool \<times> bytes \<times> bytes \<times> 'n device) option" where
  "calc_step poll ln operation d = do {
     d \<leftarrow> say puts ''calc> '' d;
     (ln, d) \<leftarrow> read_line poll (Some ln) 64 d;
     ln \<leftarrow> ln;
     (leave, operation, d) \<leftarrow> calc_line ln operation d;
     Some (leave, ln, operation, d) }"

partial_function (option) calc_loop :: "('n \<Rightarrow> 'n) \<Rightarrow> bytes \<Rightarrow> bytes \<Rightarrow> 'n device \<Rightarrow> 'n device option" where
  "calc_loop poll ln operation d = do {
     (leave, ln, operation, d) \<leftarrow> calc_step poll ln operation d;
     if leave then Some d else calc_loop poll ln operation d }"

text \<open>Uninitialised arrays hold any bytes.\<close>

definition app_calc :: "('n \<Rightarrow> 'n) \<Rightarrow> bytes \<Rightarrow> bytes \<Rightarrow> 'n device \<Rightarrow> 'n device option" where
  "app_calc poll ln operation d = do {
     d \<leftarrow> say puts (line (''Calculator App. Operation: add, sub, mul, div. Type '' @ [CHR 0x27] @ ''exit'' @ [CHR 0x27] @ '' or '' @ [CHR 0x27] @ ''quit'' @ [CHR 0x27] @ '' to close.'')) d;
     calc_loop poll ln operation d }"


section \<open>What a line computes\<close>

lemma after_spaces_skip: "\<forall>c \<in> set s. c = 32 \<Longrightarrow> c \<noteq> 32 \<Longrightarrow> after_spaces (s @ c # r) = Some (c # r)"
  by (induction s) auto

lemma op_loop_spec:
  "\<forall>c \<in> set w. c \<noteq> 32 \<and> c \<noteq> 0 \<Longrightarrow> c = 32 \<or> c = 0 \<Longrightarrow> i + length w < OP_BUF_SIZE \<Longrightarrow> i + length w < length buf \<Longrightarrow>
   op_loop (w @ c # r) buf i = Some (c # r, take i buf @ w @ drop (i + length w) buf, i + length w)"
proof (induction w arbitrary: i buf)
  case (Cons x w)
  have "op_loop (w @ c # r) (buf[i := x]) (i + 1) = Some (c # r, take (i + 1) (buf[i := x]) @ w @ drop (i + 1 + length w) (buf[i := x]), i + 1 + length w)"
    using Cons.prems by (intro Cons.IH) auto
  then show ?case using Cons.prems by (simp add: wr_def take_Suc_conv_app_nth)
qed auto

lemma after_digits_spec: "\<forall>c \<in> set ds. is_digit c \<Longrightarrow> \<not> is_digit c \<Longrightarrow> after_digits (ds @ c # r) = Some (c # r)"
  by (induction ds) auto

lemma after_number_dec_int:
  assumes "\<not> is_digit c"
  shows "after_number (dec_int n @ c # r) = Some (c # r)"
proof -
  obtain ds where d: "dec_int n = (if n < 0 then 45 # ds else ds)" "ds \<noteq> []" "\<forall>c \<in> set ds. is_digit c" by (rule dec_int_cases [of n])
  obtain e es where e: "ds = e # es" using d(2) by (cases ds) auto
  show ?thesis using d(1,3) e after_digits_spec [OF d(3) assms, of r] by (auto simp: after_number_def rd_def)
qed

lemma dec_int_head: "\<exists>c s. dec_int n = c # s \<and> c \<noteq> 32 \<and> c \<noteq> 0"
proof -
  obtain ds where d: "dec_int n = (if n < 0 then 45 # ds else ds)" "ds \<noteq> []" "\<forall>c \<in> set ds. is_digit c" by (rule dec_int_cases [of n])
  then show ?thesis by (cases ds) (auto split: if_splits)
qed

definition call_text :: "nat \<Rightarrow> bytes \<Rightarrow> nat \<Rightarrow> int \<Rightarrow> nat \<Rightarrow> int \<Rightarrow> bytes \<Rightarrow> bytes" where
  "call_text i w j a k b r = replicate i 32 @ w @ replicate (Suc j) 32 @ dec_int a @ replicate (Suc k) 32 @ dec_int b @ 0 # r"

lemma parse_call:
  assumes "w \<noteq> []" "\<forall>c \<in> set w. c \<noteq> 32 \<and> c \<noteq> 0" "length w < OP_BUF_SIZE" "length buf = OP_BUF_SIZE" "\<bar>a\<bar> \<le> 2147483647" "\<bar>b\<bar> \<le> 2147483647"
  shows "parse (call_text i w j a k b r) buf 0 0 = Some (3, w @ 0 # drop (length w + 1) buf, a, b)"
proof -
  obtain x w' where w: "w = x # w'" using assms(1) by (cases w) auto
  obtain c s where a: "dec_int a = c # s" "c \<noteq> 32" "c \<noteq> 0" using dec_int_head by blast
  obtain e t where b: "dec_int b = e # t" "e \<noteq> 32" "e \<noteq> 0" using dec_int_head by blast
  let ?tb = "dec_int b @ 0 # r" and ?ta = "dec_int a @ replicate (Suc k) 32 @ dec_int b @ 0 # r"
  have s1: "after_spaces (call_text i w j a k b r) = Some (w @ replicate (Suc j) 32 @ ?ta)"
    unfolding call_text_def using after_spaces_skip [of "replicate i 32" x] assms(2) w by simp
  have s2: "op_loop (w @ replicate (Suc j) 32 @ ?ta) buf 0 = Some (replicate (Suc j) 32 @ ?ta, w @ drop (length w) buf, length w)"
    using op_loop_spec [OF assms(2), of 32 0 buf "replicate j 32 @ ?ta"] assms(3,4) by simp
  have s3: "wr (w @ drop (length w) buf) (length w) 0 = Some (w @ 0 # drop (length w + 1) buf)"
    using assms(3,4) by (simp add: wr_def list_update_append Cons_nth_drop_Suc [symmetric])
  have s4: "after_spaces (replicate (Suc j) 32 @ ?ta) = Some ?ta"
    using after_spaces_skip [of "replicate (Suc j) 32" c] a by simp
  have s5: "atoi ?ta = Some a" using atoi_decimal [of 32 a] assms(5) by simp
  have s6: "after_number ?ta = Some (replicate (Suc k) 32 @ ?tb)" using after_number_dec_int [of 32 a] by simp
  have s7: "after_spaces (replicate (Suc k) 32 @ ?tb) = Some ?tb"
    using after_spaces_skip [of "replicate (Suc k) 32" e] b by simp
  have s8: "atoi ?tb = Some b" using atoi_decimal [of 0 b] assms(6) by simp
  have r: "rd (replicate (Suc j) 32 @ ?ta) 0 = Some 32" "rd ?ta 0 = Some c" "rd ?tb 0 = Some e" using a(1) b(1) by (simp_all add: rd_def)
  show ?thesis unfolding parse_def s1 s2 s3 s4 s5 s6 s7 s8 r bind.bind_lunit prod.case using w a(3) b(3) by simp
qed

text \<open>The operations by name, and their results over the integers.\<close>

definition operations :: "(string \<times> (int \<Rightarrow> int \<Rightarrow> int)) list" where
  "operations = [(''add'', (+)), (''sub'', (-)), (''mul'', (*)), (''div'', (sdiv))]"

lemma compute_spec:
  assumes "(w, f) \<in> set operations" "w = ''div'' \<longrightarrow> b \<noteq> 0" "cstr buf = text_of w" "is_cstr buf"
  shows "compute buf a b d = (if in_int (f a b) then Some (Some (f a b), d) else None)"
proof -
  have same: "cstr_is buf t = Some (w = t)" if "plain t" for t using cstr_is_eq [OF assms(4) that] assms(3) by simp
  show ?thesis using assms(1,2) unfolding compute_def by (auto simp: operations_def same plain_def int32_def)
qed


lemma operation_word:
  assumes "(w, f) \<in> set operations"
  shows "text_of w \<noteq> []" "\<forall>c \<in> set (text_of w). c \<noteq> 32 \<and> c \<noteq> 0" "length (text_of w) < OP_BUF_SIZE"
  using assms by (auto simp: operations_def text_of_def OP_BUF_SIZE_def)

lemma division_fits: "\<bar>a\<bar> \<le> 2147483647 \<Longrightarrow> in_int (a sdiv b)"
proof -
  assume a: "\<bar>a\<bar> \<le> 2147483647"
  have "\<bar>a\<bar> div \<bar>b\<bar> \<le> \<bar>a\<bar>" using zdiv_mono2 [of "\<bar>a\<bar>" 1 "\<bar>b\<bar>"] by (cases "b = 0") auto
  moreover have "\<bar>a sdiv b\<bar> \<le> \<bar>a\<bar> div \<bar>b\<bar>" using pos_imp_zdiv_nonneg_iff [of "\<bar>b\<bar>" "\<bar>a\<bar>"] by (cases "b = 0") (simp_all add: signed_divide_int_def abs_mult abs_sgn_eq)
  ultimately have "\<bar>a sdiv b\<bar> \<le> 2147483647" using a by linarith
  then show ?thesis unfolding in_int_def by linarith
qed

text \<open>The exit words end the application.\<close>

lemma calc_leaves:
  assumes "device_wf d" "length buf = OP_BUF_SIZE" "w = ''exit'' \<or> w = ''quit''"
  shows "\<exists>buf' d'. calc_line (replicate i 32 @ text_of w @ replicate j 32 @ 0 # r) buf d = Some (True, buf', d') \<and> device_wf d'"
proof -
  have w: "text_of w \<noteq> []" "\<forall>c \<in> set (text_of w). c \<noteq> 32 \<and> c \<noteq> 0" "length (text_of w) < OP_BUF_SIZE"
    using assms(3) by (auto simp: text_of_def OP_BUF_SIZE_def)
  obtain x w' where x: "text_of w = x # w'" using w(1) by (cases "text_of w") auto
  define buf' where "buf' = text_of w @ 0 # drop (length (text_of w) + 1) buf"
  obtain c e where ce: "replicate j 32 @ 0 # r = c # e" "c = 32 \<or> c = 0" by (cases j) auto
  have s1: "after_spaces (replicate i 32 @ text_of w @ c # e) = Some (text_of w @ c # e)"
    using after_spaces_skip [of "replicate i 32" x] w(2) x by simp
  have s2: "op_loop (text_of w @ c # e) buf 0 = Some (c # e, text_of w @ drop (length (text_of w)) buf, length (text_of w))"
    using op_loop_spec [OF w(2) ce(2), of 0 buf e] w(3) assms(2) by simp
  have s3: "wr (text_of w @ drop (length (text_of w)) buf) (length (text_of w)) 0 = Some buf'"
    using w(3) assms(2) by (simp add: buf'_def wr_def list_update_append Cons_nth_drop_Suc [symmetric])
  have s4: "after_spaces (c # e) = Some (0 # r)" using after_spaces_skip [of "replicate j 32" 0 r] ce(1) by simp
  have r: "rd (c # e) 0 = Some c" "rd (0 # r) 0 = Some 0" by (simp_all add: rd_def)
  have p: "parse (replicate i 32 @ text_of w @ replicate j 32 @ 0 # r) buf 0 0 = Some (1, buf', 0, 0)"
    unfolding ce(1) parse_def s1 s2 s3 s4 r bind.bind_lunit prod.case using w(1) by auto
  have c: "cstr buf' = text_of w" "is_cstr buf'" using w(2) by (auto simp: buf'_def is_cstr_def)
  obtain d' where "say puts (line ''Exiting calculator...'') d = Some d'" "device_wf d'"
    using serial.say_shows [OF assms(1), of "line ''Exiting calculator...''"] by (auto simp: serial.shows_text_def plain_def)
  then show ?thesis using cstr_is_eq [OF c(2)] c(1) assms(3) by (auto simp: calc_line_def p plain_def)
qed

section \<open>Properties\<close>

text \<open>C38: the calculator computes. For an operation \<open>add\<close>, \<open>sub\<close>, \<open>mul\<close> or \<open>div\<close> (with a divisor other than zero) and
  two numbers in decimal notation, separated by any blanks, the line prints the decimal notation of the exact result
  followed by a line feed and the loop goes on; when the exact result leaves the 32-bit range, the C arithmetic is
  undefined, and so is the model. A division never leaves it.\<close>

theorem calc_computes:
  assumes "device_wf d" "length buf = OP_BUF_SIZE" "(w, f) \<in> set operations" "w = ''div'' \<longrightarrow> b \<noteq> 0"
    and "\<bar>a\<bar> \<le> 2147483647" "\<bar>b\<bar> \<le> 2147483647"
  shows "case calc_line (call_text i (text_of w) j a k b r) buf d of
      None \<Rightarrow> \<not> in_int (f a b) \<and> w \<noteq> ''div''
    | Some (leave, buf', d') \<Rightarrow> in_int (f a b) \<and> \<not> leave \<and> length buf' = OP_BUF_SIZE \<and> device_wf d' \<and>
        d_serial d' = d_serial d @ serial_text (dec_int (f a b) @ [10])"
proof -
  note w = operation_word [OF assms(3)]
  define buf' where "buf' = text_of w @ 0 # drop (length (text_of w) + 1) buf"
  have p: "parse (call_text i (text_of w) j a k b r) buf 0 0 = Some (3, buf', a, b)" unfolding buf'_def by (rule parse_call [OF w assms(2,5,6)])
  have nz: "0 \<notin> set (text_of w)" using w(2) by auto
  have c: "cstr buf' = text_of w" "is_cstr buf'" "length buf' = OP_BUF_SIZE" using nz w(3) assms(2) by (simp_all add: is_cstr_def buf'_def)
  have cm: "compute buf' a b d = (if in_int (f a b) then Some (Some (f a b), d) else None)" by (rule compute_spec [OF assms(3,4) c(1,2)])
  show ?thesis
  proof (cases "in_int (f a b)")
    case False
    have "w \<noteq> ''div''" using False division_fits [OF assms(5)] assms(3) by (auto simp: operations_def)
    then show ?thesis using False by (simp add: calc_line_def p cm)
  next
    case True
    define out where "out = dec_int (f a b) @ 0 # drop (length (dec_int (f a b)) + 1) (replicate 12 0)"
    have "sint (word_of_int (f a b) :: u32) = f a b"
      using True by (simp add: in_int_def signed_of_int signed_take_bit_int_eq_self)
    then have o: "itoa (word_of_int (f a b)) (replicate 12 0) = Some out" unfolding out_def using itoa_spec [of "replicate 12 0" "word_of_int (f a b)"] by (simp del: drop_replicate)
    have cs: "is_cstr out" "cstr out = dec_int (f a b)" using dec_int_no_nul [of "f a b"] by (simp_all add: is_cstr_def out_def)
    have "serial.shows_text (dec_int (f a b) @ text_of (line [])) d (do { d \<leftarrow> puts out d; say puts (line []) d })"
      using serial.write_shows [OF assms(1) cs(1)] serial.say_shows [of _ "line []"] by (intro serial.shows_bind) (simp_all add: cs(2) plain_def)
    then obtain d' where d': "do { d \<leftarrow> puts out d; say puts (line []) d } = Some d'" "device_wf d'" "d_serial d' = d_serial d @ serial_text (dec_int (f a b) @ [10])"
      by (auto simp: serial.shows_text_def text_of_def)
    have "calc_line (call_text i (text_of w) j a k b r) buf d = Some (False, buf', d')"
      using True d'(1) by (auto simp: calc_line_def p cm o Option.bind_eq_Some_conv)
    then show ?thesis using True c(3) d'(2,3) by simp
  qed
qed

theorem calc_computes_witness:
  "case calc_line (call_text 0 (text_of ''div'') 0 (- 7) 1 2 []) (replicate 8 9) demo_device of
      None \<Rightarrow> \<not> in_int ((- 7) sdiv 2) \<and> ''div'' \<noteq> ''div''
    | Some (leave, buf', d') \<Rightarrow> in_int ((- 7) sdiv 2) \<and> \<not> leave \<and> length buf' = OP_BUF_SIZE \<and> device_wf d' \<and>
        d_serial d' = d_serial demo_device @ serial_text (dec_int ((- 7) sdiv 2) @ [10])"
  by (rule calc_computes [OF demo_device_wf]) (simp_all add: operations_def OP_BUF_SIZE_def)

end
