(* ===== verification/Rule_Text.thy ===== *)
theory Rule_Text
  imports Command
begin

text \<open>
  The listing of the firewall rules and their entry are inverse: what \<^verbatim>\<open>fw_status\<close> prints for a rule is a command text
  that \<^verbatim>\<open>fw_command\<close> parses back to the same rule (\<^verbatim>\<open>src/jordyOS/net/command.c\<close>, with \<^verbatim>\<open>net_cidr\<close> and
  \<^verbatim>\<open>net_number\<close> of \<^verbatim>\<open>packet.c\<close>).
\<close>

section \<open>A printed address is read back\<close>

lemma transcript_text: "0 \<notin> set t \<Longrightarrow> transcript (t @ [0]) d = Some (d @ t)"
  by (simp add: transcript_def is_cstr_def)

lemma ascii_no_nul: "CHR 0x00 \<notin> set s \<Longrightarrow> 0 \<notin> set (map of_char s :: bytes)"
proof -
  have "of_char c \<noteq> (0 :: u8)" if "c \<noteq> CHR 0x00" for c
  proof
    assume z: "of_char c = (0 :: u8)"
    have "(of_nat (of_char c) :: u8) = 0" using z by (simp only: of_nat_of_char)
    then have "(256 :: nat) dvd of_char c" by (simp add: word_of_nat_eq_0_iff)
    then have "(of_char c :: nat) mod 256 = 0" by (rule dvd_imp_mod_0)
    moreover have "(of_char c :: nat) mod 256 = of_char c" by (rule of_char_mod_256)
    ultimately have "(of_char c :: nat) = 0" by metis
    then have "c = char_of (0 :: nat)" by (metis char_of_char)
    then show False using that by (simp add: char_of_def)
  qed
  moreover assume "CHR 0x00 \<notin> set s"
  ultimately show ?thesis unfolding list.set_map image_iff by metis
qed

lemma transcript_say [simp]: "CHR 0x00 \<notin> set s \<Longrightarrow> say transcript s d = Some (d @ map of_char s)"
  using ascii_no_nul [of s] by (simp add: say_def ascii_def transcript_text)

lemma digits_no: "c \<in> set (dec_digits n) \<Longrightarrow> is_digit c"
  using dec_digits_digit by blast

lemma digits_clean [simp]: "0 \<notin> set (dec_digits n)" "32 \<notin> set (dec_digits n)" "9 \<notin> set (dec_digits n)" "46 \<notin> set (dec_digits n)" "47 \<notin> set (dec_digits n)"
  using digits_no [of _ n] by (force simp: word_le_nat_alt)+

lemma transcript_number [simp]: "net_print_number transcript n d = Some (d @ dec_digits (unat n))"
  by (simp add: net_print_number_spec transcript_text)

definition octet :: "nat \<Rightarrow> u32 \<Rightarrow> u32" where
  "octet i ip = drop_bit (24 - i * 8) ip AND 255"

definition ip_text :: "u32 \<Rightarrow> bytes" where
  "ip_text ip = dec_digits (unat (octet 0 ip)) @ 46 # dec_digits (unat (octet 1 ip)) @ 46 # dec_digits (unat (octet 2 ip)) @ 46 # dec_digits (unat (octet 3 ip))"

definition cidr_text :: "u32 \<Rightarrow> u32 \<Rightarrow> bytes" where
  "cidr_text ip msk = (if msk = 0 then [97, 110, 121] else ip_text ip @ 47 # dec_digits (mask_bits msk))"

lemma transcript_ip: "net_print_ip transcript ip d = Some (d @ ip_text ip)"
  by (simp add: net_print_ip_def print_ip_loop.simps ip_text_def octet_def)

lemma octet_le: "octet i ip \<le> 255"
  unfolding octet_def by (metis word_and_le1)

lemma octet_length: "length (dec_digits (unat (octet i ip))) \<le> 3"
  using octet_le [of i ip] dec_digits_length [of "unat (octet i ip)" 3] by (simp add: word_le_nat_alt)

lemma octets: "push_bit 8 (push_bit 8 (push_bit 8 (push_bit 8 0 OR octet 0 ip) OR octet 1 ip) OR octet 2 ip) OR octet 3 ip = ip"
proof -
  have e: "(255 :: u32) = mask 8" by (simp add: mask_eq_exp_minus_1)
  have step: "push_bit 8 (drop_bit (n + 8) ip) OR (drop_bit n ip AND 255) = drop_bit n ip" for n
    unfolding e by (rule bit_word_eqI) (auto simp: bit_simps)
  have "push_bit 8 0 OR octet 0 ip = drop_bit 24 ip"
    unfolding octet_def e by (rule bit_word_eqI) (auto simp: bit_simps dest: bit_imp_le_length)
  then show ?thesis using step [of 16] step [of 8] step [of 0] by (simp add: octet_def)
qed

lemma scan_octet_digits:
  "\<forall>c \<in> set ds. is_digit c \<Longrightarrow> length part + length ds \<le> 3 \<Longrightarrow> \<not> is_digit c \<Longrightarrow>
   scan_octet (ds @ c # r) part = Some (Some (part @ ds @ [0], c # r))"
  by (induction ds arbitrary: part) auto

lemma net_number_digits: "unat v \<le> unat m \<Longrightarrow> net_number (dec_digits (unat v) @ 0 # r) m = Some (Some v)"
  using net_number_spec [of "dec_digits (unat v)" r m] dec_digits_digit dec_digits_nonempty
  by (simp add: dec_from_digits)

lemma cidr_octets_step:
  assumes "i < 4" "v \<le> 255" "\<not> is_digit c"
  shows "cidr_octets i (dec_digits (unat v) @ c # r) ip =
    (if i < 3 then if c = 46 then cidr_octets (i + 1) r (push_bit 8 ip OR v) else Some None
     else Some (Some (push_bit 8 ip OR v, c # r)))"
proof -
  have "length (dec_digits (unat v)) \<le> 3" using assms(2) dec_digits_length [of "unat v" 3] by (simp add: word_le_nat_alt)
  then have s: "scan_octet (dec_digits (unat v) @ c # r) [] = Some (Some (dec_digits (unat v) @ [0], c # r))"
    using scan_octet_digits [of "dec_digits (unat v)" "[]" c r] dec_digits_digit assms(3) by simp
  have n: "net_number (dec_digits (unat v) @ [0]) 255 = Some (Some v)" using net_number_digits [of v 255 "[]"] assms(2) by (simp add: word_le_nat_alt)
  have z: "cidr_octets (Suc i) (c # r) ip = Some (Some (ip, c # r))" if "\<not> i < 3" for ip using that by (subst cidr_octets.simps) simp
  show ?thesis using assms(1) z by (subst cidr_octets.simps) (simp add: s n Let_def)
qed

lemma net_cidr_text:
  assumes "cidr_block ip msk" "msk \<noteq> 0"
  shows "net_cidr (cidr_text ip msk @ 0 # r) = Some (Some (ip, msk))"
proof -
  obtain p where p: "unat p \<le> 32" "msk = prefix_mask p" using assms(1) by (auto simp: cidr_block_def)
  have m: "mask_bits msk = unat p" using p mask_bits_prefix by simp
  have o: "cidr_octets 0 (ip_text ip @ 47 # dec_digits (unat p) @ 0 # r) 0 = Some (Some (ip, 47 # dec_digits (unat p) @ 0 # r))"
    using octets [of ip] by (simp add: ip_text_def cidr_octets_step octet_le)
  have "cidr_prefix (47 # dec_digits (unat p) @ 0 # r) = Some (Some p)" using net_number_digits [of p 32 r] p(1) by (simp add: cidr_prefix_def)
  then show ?thesis using o p assms m by (simp add: net_cidr_def cidr_text_def cidr_block_def)
qed

lemma transcript_cidr: "cidr_block ip msk \<Longrightarrow> cidr transcript ip msk d = Some (d @ cidr_text ip msk)"
proof -
  assume "cidr_block ip msk"
  then obtain p where p: "unat p \<le> 32" "msk = prefix_mask p" by (auto simp: cidr_block_def)
  then have m: "mask_bits msk \<le> 32" using mask_bits_prefix by simp
  then show ?thesis by (simp add: cidr_def cidr_text_def transcript_ip mask_bits_def unsigned_of_nat take_bit_eq_mod)
qed

section \<open>A listed rule can be typed in again\<close>

definition clean :: "bytes \<Rightarrow> bool" where
  "clean w \<longleftrightarrow> w \<noteq> [] \<and> 0 \<notin> set w \<and> 32 \<notin> set w \<and> 9 \<notin> set w"

text \<open>Words joined by blanks, the same words each ended by a NUL, and their offsets.\<close>

fun join :: "bytes list \<Rightarrow> bytes" where
  "join [] = []"
| "join [w] = w"
| "join (w # ws) = w @ 32 # join ws"

definition ended :: "bytes list \<Rightarrow> bytes" where
  "ended ws = concat (map (\<lambda>w. w @ [0]) ws)"

fun offsets :: "nat \<Rightarrow> bytes list \<Rightarrow> nat list" where
  "offsets k [] = []"
| "offsets k (w # ws) = k # offsets (k + length w + 1) ws"

lemma ended_simps [simp]: "ended [] = []" "ended (w # ws) = w @ 0 # ended ws"
  by (simp_all add: ended_def)

lemma offsets_length [simp]: "length (offsets k ws) = length ws"
  by (induction ws arbitrary: k) simp_all

lemma skip_word_clean:
  "0 \<notin> set w \<Longrightarrow> 32 \<notin> set w \<Longrightarrow> 9 \<notin> set w \<Longrightarrow> c = 0 \<or> is_blank c \<Longrightarrow> skip_word (\<lambda>c. is_blank c) (pre @ w @ c # r) (length pre) = Some (length pre + length w)"
proof (induction w arbitrary: pre)
  case Nil
  then show ?case by (subst skip_word.simps) (auto simp: rd_Some)
next
  case (Cons a w)
  have "skip_word (\<lambda>c. is_blank c) ((pre @ [a]) @ w @ c # r) (length (pre @ [a])) = Some (length (pre @ [a]) + length w)" using Cons.prems by (intro Cons.IH) auto
  then show ?case using Cons.prems by (subst skip_word.simps) (auto simp: rd_Some)
qed

lemma words_loop_step:
  assumes "clean w" "length out < m" "c = 0 \<or> c = 32"
  shows "words_loop (\<lambda>c. is_blank c) (pre @ w @ c # r) (length pre) m out =
    (if c = 0 then Some (pre @ w @ c # r, Some (out @ [length pre]))
     else words_loop (\<lambda>c. is_blank c) ((pre @ w @ [0]) @ r) (length (pre @ w @ [0])) m (out @ [length pre]))"
proof -
  obtain a v where w: "w = a # v" "a \<noteq> 0" "\<not> is_blank a" using assms(1) by (cases w) (auto simp: clean_def)
  have b: "skip_blanks (\<lambda>c. is_blank c) (pre @ w @ c # r) (length pre) = Some (length pre)" using w by (subst skip_blanks.simps) (simp add: rd_Some)
  have s: "skip_word (\<lambda>c. is_blank c) (pre @ w @ c # r) (length pre) = Some (length pre + length w)" using assms(1,3) by (intro skip_word_clean) (auto simp: clean_def)
  have r0: "rd (pre @ w @ c # r) (length pre) = Some a" using w by (simp add: rd_Some)
  have rc: "rd (pre @ w @ c # r) (length pre + length w) = Some c" by (simp add: rd_Some nth_append)
  have wc: "wr (pre @ w @ c # r) (length pre + length w) 0 = Some (pre @ w @ 0 # r)" by (simp add: wr_Some list_update_append)
  show ?thesis using assms(2,3) w(2) by (subst words_loop.simps) (auto simp: b s r0 rc wc)
qed

lemma words_loop_join:
  "ws \<noteq> [] \<Longrightarrow> \<forall>w \<in> set ws. clean w \<Longrightarrow> length out + length ws \<le> m \<Longrightarrow>
   words_loop (\<lambda>c. is_blank c) (pre @ join ws @ [0]) (length pre) m out = Some (pre @ ended ws, Some (out @ offsets (length pre) ws))"
proof (induction ws arbitrary: pre out rule: join.induct)
  case (2 w)
  then show ?case using words_loop_step [of w out m 0 pre "[]"] by simp
next
  case (3 w v ws)
  have ih: "words_loop (\<lambda>c. is_blank c) ((pre @ w @ [0]) @ join (v # ws) @ [0]) (length (pre @ w @ [0])) m (out @ [length pre]) =
     Some ((pre @ w @ [0]) @ ended (v # ws), Some ((out @ [length pre]) @ offsets (length (pre @ w @ [0])) (v # ws)))"
    using 3(3,4) by (intro 3(1)) auto
  show ?case using words_loop_step [of w out m 32 pre "join (v # ws) @ [0]"] 3(3,4) ih by simp
qed simp

lemma words_join: "ws \<noteq> [] \<Longrightarrow> \<forall>w \<in> set ws. clean w \<Longrightarrow> length ws \<le> m \<Longrightarrow> words (join ws @ [0]) m = Some (ended ws, Some (offsets 0 ws))"
  using words_loop_join [of ws "[]" m "[]"] by (simp add: words_def)

lemma drop_ended: "n < length ws \<Longrightarrow> drop (offsets (length pre) ws ! n) (pre @ ended ws) = ws ! n @ 0 # ended (drop (n + 1) ws)"
proof (induction ws arbitrary: n pre)
  case (Cons w ws)
  show ?case
  proof (cases n)
    case (Suc m)
    have "drop (offsets (length (pre @ w @ [0])) ws ! m) ((pre @ w @ [0]) @ ended ws) = ws ! m @ 0 # ended (drop (m + 1) ws)"
      using Cons.prems Suc by (intro Cons.IH) simp
    then show ?thesis using Suc by simp
  qed simp
qed simp

lemma text_is_word:
  assumes "drop i buf = w @ 0 # r" "0 \<notin> set w" "CHR 0x00 \<notin> set s"
  shows "text_is buf i s = Some (w = map of_char s)"
proof -
  obtain v where v: "strcmp (drop i buf) (ascii s) = Some v" "v = 0 \<longleftrightarrow> cstr (drop i buf) = cstr (ascii s)"
    using strcmp_cstr [of "drop i buf" "ascii s"] ascii_is_cstr [of s] assms(1) by (auto simp: is_cstr_def)
  have "cstr (drop i buf) = w" "cstr (ascii s) = map of_char s" using assms ascii_no_nul [OF assms(3)] by (simp_all add: ascii_def)
  then show ?thesis using v by (simp add: text_is_def)
qed

lemma find_slash_word: "0 \<notin> set w \<Longrightarrow> 47 \<notin> set w \<Longrightarrow> find_slash (pre @ w @ 47 # r) (length pre) = Some (length pre + length w)"
proof (induction w arbitrary: pre)
  case Nil
  then show ?case by (subst find_slash.simps) (auto simp: rd_Some)
next
  case (Cons a w)
  have "find_slash ((pre @ [a]) @ w @ 47 # r) (length (pre @ [a])) = Some (length (pre @ [a]) + length w)" using Cons.prems by (intro Cons.IH) auto
  then show ?case using Cons.prems by (subst find_slash.simps) (auto simp: rd_Some)
qed

section \<open>Reading the words of a rule\<close>

definition service_text :: "FirewallRule \<Rightarrow> bytes" where
  "service_text r = (if rl_port r \<noteq> 0 then dec_digits (unat (rl_port r)) @ [47] else []) @ map of_char (protocol (rl_protocol r))"

lemma digits_word: "ds = dec_digits n \<Longrightarrow> ds @ x \<noteq> map of_char s" if "s \<noteq> []" "(of_char (hd s) :: u8) > 57" for s :: string
proof
  assume ds: "ds = dec_digits n" "ds @ x = map of_char s"
  obtain c cs where c: "ds = c # cs" using ds(1) dec_digits_nonempty [of n] by (metis list.exhaust)
  then have "is_digit c" using ds(1) digits_no [of c n] by (metis list.set_intros(1))
  then show False using c ds(2) that by (cases s) auto
qed

lemma service_word:
  assumes r: "rule_ok r" and d: "buf = pre @ service_text r @ 0 # rest" and z: "rl_protocol rule = 0" "rl_port rule = 0"
  shows "\<exists>buf'. service buf (length pre) rule = Some (buf', Some (rule\<lparr>rl_protocol := rl_protocol r, rl_port := rl_port r\<rparr>)) \<and>
    (\<forall>i \<ge> length pre + length (service_text r). drop i buf' = drop i buf)"
proof -
  have dr: "drop (length pre) buf = service_text r @ 0 # rest" using d by simp
  have p: "rl_protocol r = 0 \<or> rl_protocol r = 1 \<or> rl_protocol r = 6 \<or> rl_protocol r = 17" using r by (auto simp: rule_ok_def)
  have nz: "0 \<notin> set (service_text r)" using p by (auto simp: service_text_def protocol_def)
  note matched = text_is_word [OF dr nz]
  show ?thesis
  proof (cases "rl_port r = 0")
    case True
    have rule: "rule\<lparr>rl_protocol := p, rl_port := 0\<rparr> = rule\<lparr>rl_protocol := p\<rparr>" "rule\<lparr>rl_protocol := 0\<rparr> = rule" for p using z by (cases rule; simp)+
    show ?thesis using p True by (auto simp: service_def matched service_text_def protocol_def rule)
  next
    case False
    let ?ds = "dec_digits (unat (rl_port r))"
    let ?j = "length pre + length ?ds"
    let ?q = "map of_char (protocol (rl_protocol r)) :: bytes"
    let ?b = "pre @ ?ds @ 0 # ?q @ 0 # rest"
    have p2: "rl_protocol r = 6 \<or> rl_protocol r = 17" using r False by (auto simp: rule_ok_def)
    have buf: "buf = pre @ ?ds @ 47 # ?q @ 0 # rest" using d False by (simp add: service_text_def)
    have ne: "service_text r \<noteq> map of_char s" if "s \<noteq> []" "(of_char (hd s) :: u8) > 57" for s :: string
      using digits_word [OF that refl] False by (simp add: service_text_def)
    have f: "find_slash buf (length pre) = Some ?j" unfolding buf by (rule find_slash_word) simp_all
    have rj: "rd buf ?j = Some 47" "wr buf ?j 0 = Some ?b" by (simp_all add: buf rd_Some wr_Some nth_append list_update_append)
    have u: "unat (ucast (rl_port r) :: u32) = unat (rl_port r)" by simp
    have n: "net_number (drop (length pre) ?b) 65535 = Some (Some (ucast (rl_port r)))"
      using net_number_digits [of "ucast (rl_port r)" 65535] unat_lt_65536 [of "rl_port r"] u by simp
    have dq: "drop (?j + 1) ?b = ?q @ 0 # rest" by simp
    have nq: "0 \<notin> set ?q" using p2 by (auto simp: protocol_def)
    have t: "text_is buf (length pre) ''all'' = Some False" "text_is buf (length pre) ''icmp'' = Some False"
      "text_is buf (length pre) ''tcp'' = Some False" "text_is buf (length pre) ''udp'' = Some False"
      using ne [of "''all''"] ne [of "''icmp''"] ne [of "''tcp''"] ne [of "''udp''"] by (simp_all add: matched)
    have q: "text_is ?b (?j + 1) ''tcp'' = Some (rl_protocol r = 6)" "text_is ?b (?j + 1) ''udp'' = Some (rl_protocol r = 17)"
      using text_is_word [OF dq nq, of "''tcp''"] text_is_word [OF dq nq, of "''udp''"] p2 by (auto simp: protocol_def)
    have nzp: "(ucast (rl_port r) :: u32) \<noteq> 0" using False u by (metis unat_eq_zero)
    have upd: "?b = buf[?j := 0]" by (simp add: buf list_update_append)
    have dd: "\<forall>i \<ge> length pre + length (service_text r). drop i ?b = drop i buf" using False by (auto simp: upd service_text_def simp del: append.simps)
    have uu: "ucast (ucast (rl_port r) :: u32) = rl_port r" by (rule bit_word_eqI) (simp add: bit_simps)
    have "service buf (length pre) rule = Some (?b, Some (rule\<lparr>rl_protocol := rl_protocol r, rl_port := rl_port r\<rparr>))"
      unfolding service_def t bind.bind_lunit f rj n q using nzp p2 uu by auto
    then show ?thesis using dd by blast
  qed
qed

text \<open>The words a rule is entered with, which are the ones the status lists.\<close>

definition rule_words :: "FirewallRule \<Rightarrow> bytes list" where
  "rule_words r = (if rl_block r then [map of_char ''block'', map of_char ''from'', cidr_text (rl_source r) (rl_source_mask r)]
     else [map of_char (if rl_allow r then ''allow'' else ''deny''), map of_char (if rl_direction r = 0 then ''in'' else ''out''), service_text r,
       map of_char ''from'', cidr_text (rl_source r) (rl_source_mask r), map of_char ''to'', cidr_text (rl_destination r) (rl_destination_mask r)])"

text \<open>
  The rules the commands can make: the addresses are CIDR blocks, and a block rule has nothing but a source. One that
  blocks \<^verbatim>\<open>0.0.0.0/0\<close> is listed with the word \<^verbatim>\<open>any\<close>, which \<^verbatim>\<open>block from\<close> does not take.
\<close>

definition typed_rule :: "FirewallRule \<Rightarrow> bool" where
  "typed_rule r \<longleftrightarrow> rule_ok r \<and> cidr_block (rl_source r) (rl_source_mask r) \<and> cidr_block (rl_destination r) (rl_destination_mask r) \<and>
     (rl_block r \<longrightarrow> r\<lparr>rl_hits := 0\<rparr> = zero_native\<lparr>rl_block := True, rl_source := rl_source r, rl_source_mask := rl_source_mask r\<rparr>)"

definition blocks_all :: "FirewallRule \<Rightarrow> bool" where
  "blocks_all r \<longleftrightarrow> rl_block r \<and> rl_source_mask r = 0"

lemma cidr_text_clean [simp]: "clean (cidr_text ip msk)"
  by (auto simp: clean_def cidr_text_def ip_text_def dec_digits_nonempty)

lemma service_text_clean [simp]: "clean (service_text r)"
  by (auto simp: clean_def service_text_def protocol_def)

lemma rule_words_clean: "\<forall>w \<in> set (rule_words r). clean w" "rule_words r \<noteq> []" "length (rule_words r) \<le> 7"
  by (auto simp: rule_words_def) (auto simp: clean_def)

lemma print_rule_text:
  assumes "typed_rule r"
  shows "print_rule transcript n r d =
    Some (d @ dec_digits (unat n) @ 32 # join (rule_words r) @ map of_char '' hits='' @ dec_digits (unat (rl_hits r)) @ [10])"
proof -
  have p: "CHR 0x00 \<notin> set (protocol x)" for x by (simp add: protocol_def)
  note c = transcript_cidr
  show ?thesis using assms
    by (auto simp: print_rule_def rule_words_def typed_rule_def c service_text_def p)
qed

text \<open>A typed word is matched by the text of the word at its offset.\<close>

lemma word_at:
  assumes "n < length ws" "\<forall>w \<in> set ws. clean w" "CHR 0x00 \<notin> set s"
  shows "word_is (ended ws) (offsets 0 ws) n s = Some (ws ! n = map of_char s)"
proof -
  have d: "drop (offsets 0 ws ! n) (ended ws) = ws ! n @ 0 # ended (drop (n + 1) ws)" using drop_ended [of n ws "[]"] assms(1) by simp
  have "0 \<notin> set (ws ! n)" using assms(1,2) by (simp add: clean_def)
  from text_is_word [OF d this assms(3)] show ?thesis using assms(1) by (simp add: word_is_eq)
qed

lemma cidr_text_any: "msk \<noteq> 0 \<Longrightarrow> cidr_text ip msk \<noteq> [97, 110, 121]"
proof
  assume m: "msk \<noteq> 0" and c: "cidr_text ip msk = [97, 110, 121]"
  have "dec_digits (unat (octet 0 ip)) @ x \<noteq> map of_char ''any''" for x by (rule digits_word [OF _ _ refl]) simp_all
  then show False using m c by (simp add: cidr_text_def ip_text_def)
qed

lemma option_cidr_text:
  assumes "drop (w ! i) buf = cidr_text ip msk @ 0 # rest" "i < length w" "cidr_block ip msk" "old = (0, 0)"
  shows "option_cidr buf w i old = Some (Some (ip, msk))"
proof -
  have "clean (cidr_text ip msk)" by simp
  then have z: "0 \<notin> set (cidr_text ip msk)" by (simp add: clean_def del: cidr_text_clean)
  have a: "word_is buf w i ''any'' = Some (cidr_text ip msk = [97, 110, 121])" using text_is_word [OF assms(1) z, of "''any''"] assms(2) by (simp add: word_is_eq)
  show ?thesis
  proof (cases "msk = 0")
    case True
    have "ip = 0" using assms(3) True by (simp add: cidr_block_def)
    then show ?thesis using a assms(4) True by (simp add: option_cidr_def cidr_text_def)
  next
    case False
    then show ?thesis using a cidr_text_any [OF False, of ip] net_cidr_text [OF assms(3) False, of rest] assms(1,2)
      by (simp add: option_cidr_def rd_Some)
  qed
qed

lemma offsets_step: "i + 1 < length ws \<Longrightarrow> offsets k ws ! (i + 1) = offsets k ws ! i + length (ws ! i) + 1"
proof (induction ws arbitrary: i k)
  case (Cons w ws)
  show ?case
  proof (cases i)
    case 0
    then show ?thesis using Cons.prems by (cases ws) simp_all
  next
    case (Suc m)
    then show ?thesis using Cons.IH [of m] Cons.prems by simp
  qed
qed simp

lemma ended_split: "n < length ws \<Longrightarrow> ended ws = ended (take n ws) @ ws ! n @ 0 # ended (drop (n + 1) ws) \<and> length (ended (take n ws)) + k = offsets k ws ! n"
proof (induction ws arbitrary: n k)
  case (Cons w ws)
  show ?case
  proof (cases n)
    case (Suc m)
    then show ?thesis using Cons.IH [of m "k + length w + 1"] Cons.prems by simp
  qed simp
qed simp

lemma rule_direction: "rule_ok r \<Longrightarrow> rl_direction r = 0 \<or> rl_direction r = 1"
proof -
  assume "rule_ok r"
  then have "unat (rl_direction r) \<le> 1" by (simp add: rule_ok_def word_le_nat_alt not_less)
  then have "unat (rl_direction r) = unat (0 :: u8) \<or> unat (rl_direction r) = unat (1 :: u8)" by auto
  then show ?thesis by (simp only: word_unat_eq_iff [symmetric])
qed

lemma parse_rule_text:
  assumes t: "typed_rule r" and b: "\<not> rl_block r"
  shows "parse_rule (ended (rule_words r)) (offsets 0 (rule_words r)) (rl_allow r) = Some (Some (r\<lparr>rl_hits := 0\<rparr>))"
proof -
  define ws where "ws = rule_words r"
  define w where "w = offsets 0 ws"
  define rule where "rule = zero_native\<lparr>rl_allow := rl_allow r, rl_direction := rl_direction r\<rparr>"
  have l: "length ws = 7" "length w = 7" and n: "ws ! 1 = map of_char (if rl_direction r = 0 then ''in'' else ''out'')" "ws ! 2 = service_text r"
    "ws ! 3 = map of_char ''from''" "ws ! 4 = cidr_text (rl_source r) (rl_source_mask r)" "ws ! 5 = map of_char ''to''" "ws ! 6 = cidr_text (rl_destination r) (rl_destination_mask r)"
    using b by (simp_all add: rule_words_def ws_def w_def)
  have cl: "\<forall>x \<in> set ws. clean x" using rule_words_clean(1) by (simp add: ws_def)
  have ok: "rule_ok r" "cidr_block (rl_source r) (rl_source_mask r)" "cidr_block (rl_destination r) (rl_destination_mask r)" using t by (simp_all add: typed_rule_def)
  have wl: "k < length ws" if "k < 7" for k using that l by simp
  have dir: "word_is (ended ws) w 1 ''in'' = Some (rl_direction r = 0)" "word_is (ended ws) w 1 ''out'' = Some (rl_direction r = 1)"
    using word_at [OF wl cl, of 1 "''in''"] word_at [OF wl cl, of 1 "''out''"] rule_direction [OF ok(1)] n(1) by (auto simp: w_def)
  have sp: "ended ws = ended (take 2 ws) @ service_text r @ 0 # ended (drop 3 ws)" "length (ended (take 2 ws)) = w ! 2"
    using ended_split [OF wl, of 2 0] by (simp_all add: n w_def)
  obtain buf where sv: "service (ended ws) (w ! 2) rule = Some (buf, Some (rule\<lparr>rl_protocol := rl_protocol r, rl_port := rl_port r\<rparr>))"
    "\<And>i. w ! 2 + length (service_text r) \<le> i \<Longrightarrow> drop i buf = drop i (ended ws)"
    using service_word [OF ok(1) sp(1), of rule] by (auto simp: sp(2) rule_def zero_native_def)
  have "w ! 3 = w ! 2 + length (service_text r) + 1" "w ! 4 = w ! 3 + length (ws ! 3) + 1" "w ! 5 = w ! 4 + length (ws ! 4) + 1" "w ! 6 = w ! 5 + length (ws ! 5) + 1"
    using offsets_step [of 2 ws 0] offsets_step [of 3 ws 0] offsets_step [of 4 ws 0] offsets_step [of 5 ws 0] l by (simp_all add: w_def n)
  then have ge: "w ! 2 + length (service_text r) \<le> w ! k" if "k = 3 \<or> k = 4 \<or> k = 5 \<or> k = 6" for k using that by auto
  have dr: "drop (w ! k) buf = ws ! k @ 0 # ended (drop (k + 1) ws)" if "k = 3 \<or> k = 4 \<or> k = 5 \<or> k = 6" for k
    using sv(2) [OF ge [OF that]] drop_ended [of k ws "[]"] wl [of k] that by (auto simp: w_def)
  have nz: "0 \<notin> set (ws ! k)" if "k < 7" for k using cl wl [OF that] by (simp add: clean_def)
  have tx: "word_is buf w k s = Some (ws ! k = map of_char s)" if "k = 3 \<or> k = 4 \<or> k = 5 \<or> k = 6" "CHR 0x00 \<notin> set s" for k s
    using text_is_word [OF dr [OF that(1)] nz that(2)] that(1) l(2) by (subst word_is_eq) auto
  have src: "option_cidr buf w 4 (0, 0) = Some (Some (rl_source r, rl_source_mask r))"
    by (rule option_cidr_text [OF dr [of 4, unfolded n] _ ok(2)]) (simp_all add: l)
  have dst: "option_cidr buf w 6 (0, 0) = Some (Some (rl_destination r, rl_destination_mask r))"
    by (rule option_cidr_text [OF dr [of 6, unfolded n] _ ok(3)]) (simp_all add: l)
  have opts: "rule_options buf w 3 False False x = Some (Some (x\<lparr>rl_source := rl_source r, rl_source_mask := rl_source_mask r,
      rl_destination := rl_destination r, rl_destination_mask := rl_destination_mask r\<rparr>))"
    if z: "rl_source x = 0" "rl_source_mask x = 0" "rl_destination x = 0" "rl_destination_mask x = 0" for x
    using src dst z by (simp add: rule_options.simps l tx n)
  have fin: "rule\<lparr>rl_protocol := rl_protocol r, rl_port := rl_port r, rl_source := rl_source r, rl_source_mask := rl_source_mask r,
      rl_destination := rl_destination r, rl_destination_mask := rl_destination_mask r\<rparr> = r\<lparr>rl_hits := 0\<rparr>"
    using b by (cases r) (simp add: rule_def zero_native_def)
  have rw: "rd w 2 = Some (w ! 2)" by (simp add: rd_Some l)
  have rr: "zero_native\<lparr>rl_allow := rl_allow r, rl_direction := (if rl_direction r = 0 then 0 else if rl_direction r = 1 then 1 else 0)\<rparr> = rule"
    using rule_direction [OF ok(1)] by (auto simp: rule_def)
  have two: "(if rl_direction r = 0 \<or> rl_direction r = 1 then 2 else 1 :: nat) = 2" using rule_direction [OF ok(1)] by simp
  show ?thesis unfolding ws_def [symmetric] w_def [symmetric] parse_rule_def dir bind.bind_lunit rr two Let_def
    using opts [of "rule\<lparr>rl_protocol := rl_protocol r, rl_port := rl_port r\<rparr>"] fin
    by (simp add: l rw sv(1)) (simp add: rule_def zero_native_def)
qed

lemma add_command_adds:
  assumes "net_wf env s" "rule_ok r" "fw_count (fw_of s) < FW_RULES" "CHR 0x00 \<notin> set suffix"
  shows "\<exists>s' d'. add_command transcript suffix r s d = Some (s', d') \<and> fw_list (fw_of s') = fw_list (fw_of s) @ [r\<lparr>rl_hits := 0\<rparr>]"
proof -
  have wf: "fw_wf (fw_of s)" using assms(1) by (simp add: net_wf_def fw_state_wf_def)
  obtain fw where fw: "fw_add r (fw_of s) = Some (True, fw)" "fw_list fw = fw_list (fw_of s) @ [r\<lparr>rl_hits := 0\<rparr>]"
    using fw_add_spec [OF wf, of r] fw_list_length [OF wf] assms(2,3) by auto
  show ?thesis using fw assms(4) by (simp add: add_command_def answer_def set_fw_def)
qed

lemma action_at:
  assumes "n < length ws" "\<forall>w \<in> set ws. clean w"
  shows "action (ended ws) (offsets 0 ws ! n) =
    Some (if ws ! n = map of_char ''allow'' then Some True else if ws ! n = map of_char ''deny'' then Some False else None)"
  using word_at [OF assms, of "''allow''"] word_at [OF assms, of "''deny''"] assms(1) by (simp add: action_def word_is_eq)

lemma typed_rule_added:
  assumes "net_wf env s" "typed_rule r" "fw_count (fw_of s) < FW_RULES" "\<not> blocks_all r"
  shows "\<exists>s' d'. fw_command transcript hash env (join (rule_words r) @ [0]) s d = Some (s', d') \<and>
    fw_list (fw_of s') = fw_list (fw_of s) @ [r\<lparr>rl_hits := 0\<rparr>]"
proof -
  define ws where "ws = rule_words r"
  have cl: "\<forall>w \<in> set ws. clean w" "ws \<noteq> []" "length ws \<le> 10" using rule_words_clean [of r] by (simp_all add: ws_def)
  have ok: "rule_ok (r\<lparr>rl_hits := 0\<rparr>)" using assms(2) by (simp add: typed_rule_def rule_ok_def)
  have w: "words (join ws @ [0]) 10 = Some (ended ws, Some (offsets 0 ws))" by (rule words_join [OF cl(2,1,3)])
  show ?thesis
  proof (cases "rl_block r")
    case True
    have l: "length ws = 3" and n: "ws ! 0 = map of_char ''block''" "ws ! 1 = map of_char ''from''" "ws ! 2 = cidr_text (rl_source r) (rl_source_mask r)"
      using True by (simp_all add: ws_def rule_words_def)
    have wl: "k < length ws" if "k < 3" for k using that l by simp
    have b: "word_is (ended ws) (offsets 0 ws) 0 ''block'' = Some True" "word_is (ended ws) (offsets 0 ws) 1 ''from'' = Some True"
      "word_is (ended ws) (offsets 0 ws) 0 ''default'' = Some False"
      using word_at [OF wl cl(1), of 0 "''block''"] word_at [OF wl cl(1), of 1 "''from''"] word_at [OF wl cl(1), of 0 "''default''"] n by auto
    obtain a where a: "action (ended ws) (offsets 0 ws ! 1) = Some a" using action_at [OF wl cl(1), of 1] by auto
    have d: "drop (offsets 0 ws ! 2) (ended ws) = cidr_text (rl_source r) (rl_source_mask r) @ 0 # ended (drop 3 ws)"
      using drop_ended [OF wl, of 2 "[]"] n(3) by simp
    have c: "net_cidr (drop (offsets 0 ws ! 2) (ended ws)) = Some (Some (rl_source r, rl_source_mask r))"
      unfolding d using assms(2,4) True by (intro net_cidr_text) (simp_all add: typed_rule_def blocks_all_def)
    have z: "zero_native\<lparr>rl_block := True, rl_source := rl_source r, rl_source_mask := rl_source_mask r\<rparr> = r\<lparr>rl_hits := 0\<rparr>"
      using assms(2) True by (simp add: typed_rule_def)
    have rs: "rd (offsets 0 ws) 1 = Some (offsets 0 ws ! 1)" "rd (offsets 0 ws) 2 = Some (offsets 0 ws ! 2)" using l by (simp_all add: rd_Some)
    obtain s' d' where s': "add_command transcript '' (XDP source block)'' (r\<lparr>rl_hits := 0\<rparr>) s d = Some (s', d')"
      "fw_list (fw_of s') = fw_list (fw_of s) @ [r\<lparr>rl_hits := 0\<rparr>]"
      using add_command_adds [OF assms(1) ok assms(3), of "'' (XDP source block)''" d] by auto
    have "block_command transcript (ended ws) (offsets 0 ws ! 2) s d = Some (s', d')"
      unfolding block_command_def c bind.bind_lunit by (simp add: z s'(1))
    then have "fw_triple transcript (ended ws) (offsets 0 ws) s d = Some (Some (s', d'))"
      unfolding fw_triple_def b rs bind.bind_lunit a by simp
    then have "fw_command transcript hash env (join ws @ [0]) s d = Some (s', d')" using w l cl(2) by (cases ws) (simp_all add: fw_command_def)
    then show ?thesis using s'(2) unfolding ws_def by blast
  next
    case False
    have l: "length ws = 7" and n: "ws ! 0 = map of_char (if rl_allow r then ''allow'' else ''deny'')"
      using False by (simp_all add: ws_def rule_words_def)
    have z: "0 < length ws" using l by simp
    have a: "action (ended ws) (offsets 0 ws ! 0) = Some (Some (rl_allow r))" using action_at [OF z cl(1)] n by (cases "rl_allow r") simp_all
    have p: "parse_rule (ended ws) (offsets 0 ws) (rl_allow r) = Some (Some (r\<lparr>rl_hits := 0\<rparr>))"
      using parse_rule_text [OF assms(2) False] by (simp add: ws_def)
    obtain s' d' where s': "add_command transcript '''' (r\<lparr>rl_hits := 0\<rparr>) s d = Some (s', d')" "fw_list (fw_of s') = fw_list (fw_of s) @ [r\<lparr>rl_hits := 0\<rparr>]"
      using add_command_adds [OF assms(1) ok assms(3), of "''''" d] by auto
    have "fw_other transcript (ended ws) (offsets 0 ws) s d = Some (s', d')"
      using l a p s'(1) by (simp add: fw_other_def rd_Some rule_command_def)
    then have "fw_command transcript hash env (join ws @ [0]) s d = Some (s', d')" using w l by (simp add: fw_command_def) (cases ws; simp)
    then show ?thesis using s'(2) unfolding ws_def by blast
  qed
qed

text \<open>The word \<^verbatim>\<open>any\<close> is no CIDR block.\<close>

lemma blocks_all_refused:
  assumes "blocks_all r"
  shows "join (rule_words r) = map of_char ''block from any''"
    "fw_command transcript hash env (map of_char ''block from any'' @ [0]) s d = answer transcript invalid_text s d"
proof -
  let ?ws = "[map of_char ''block'', map of_char ''from'', map of_char ''any''] :: bytes list"
  have w: "rule_words r = ?ws" using assms by (simp add: rule_words_def blocks_all_def cidr_text_def)
  have j: "join ?ws = map of_char ''block from any''" by simp
  show "join (rule_words r) = map of_char ''block from any''" unfolding w by (fact j)
  have cl: "\<forall>x \<in> set ?ws. clean x" "?ws \<noteq> []" "length ?ws \<le> 10" by (simp_all add: clean_def)
  have f: "words (map of_char ''block from any'' @ [0]) 10 = Some (ended ?ws, Some (offsets 0 ?ws))" using words_join [OF cl(2,1,3)] unfolding j .
  have b: "word_is (ended ?ws) (offsets 0 ?ws) 0 ''block'' = Some True" "word_is (ended ?ws) (offsets 0 ?ws) 1 ''from'' = Some True"
    "word_is (ended ?ws) (offsets 0 ?ws) 0 ''default'' = Some False"
    using word_at [OF _ cl(1), of 0 "''block''"] word_at [OF _ cl(1), of 1 "''from''"] word_at [OF _ cl(1), of 0 "''default''"] by auto
  obtain a where a: "action (ended ?ws) (offsets 0 ?ws ! 1) = Some a" using action_at [OF _ cl(1), of 1] by auto
  have d: "drop (offsets 0 ?ws ! 2) (ended ?ws) = map of_char ''any'' @ [0]" by simp
  have c: "net_cidr (map of_char ''any'' @ [0]) = Some None" by code_simp
  have rs: "rd (offsets 0 ?ws) 1 = Some (offsets 0 ?ws ! 1)" "rd (offsets 0 ?ws) 2 = Some (offsets 0 ?ws ! 2)" by (simp_all add: rd_def)
  have "block_command transcript (ended ?ws) (offsets 0 ?ws ! 2) s d = answer transcript invalid_text s d"
    unfolding block_command_def d c by simp
  moreover obtain res where o: "answer transcript invalid_text s d = Some res" by (simp add: answer_def invalid_text_def)
  ultimately have "fw_triple transcript (ended ?ws) (offsets 0 ?ws) s d = Some (Some res)"
    unfolding fw_triple_def b rs bind.bind_lunit a by simp
  then show "fw_command transcript hash env (map of_char ''block from any'' @ [0]) s d = answer transcript invalid_text s d"
    unfolding fw_command_def f bind.bind_lunit prod.case option.case o by simp
qed

text \<open>C33: the listing of a rule can be typed in again, with one exception. For every rule the commands can make, the status
  line is its number, a command text, the hit counter and the end of the line. For a rule that blocks every source the text is
  \<^verbatim>\<open>block from any\<close>, and the firewall command answers that it is invalid and changes nothing. For every other rule the
  command, given the text, appends the same rule (with no hits) to the table, when the table has room: printing and parsing
  of directions, ports, protocols and CIDR blocks are inverse to each other.\<close>

theorem rule_listing_reenters:
  assumes "typed_rule r" "net_wf env s" "fw_count (fw_of s) < FW_RULES"
  shows "\<exists>t. print_rule transcript n r d = Some (d @ dec_digits (unat n) @ 32 # t @ map of_char '' hits='' @ dec_digits (unat (rl_hits r)) @ [10]) \<and>
    (if rl_block r \<and> rl_source_mask r = 0
     then t = map of_char ''block from any'' \<and>
       fw_command transcript hash env (t @ [0]) s d = Some (s, d @ map of_char ''Invalid command; policy unchanged. Type ebpfw help.'' @ [10])
     else \<exists>s' d'. fw_command transcript hash env (t @ [0]) s d = Some (s', d') \<and> fw_list (fw_of s') = fw_list (fw_of s) @ [r\<lparr>rl_hits := 0\<rparr>])"
proof (cases "blocks_all r")
  case True
  have "answer transcript invalid_text s d = Some (s, d @ map of_char ''Invalid command; policy unchanged. Type ebpfw help.'' @ [10])"
    by (simp add: answer_def invalid_text_def)
  with blocks_all_refused(2) [OF True, of hash env s d]
  have f: "fw_command transcript hash env (map of_char ''block from any'' @ [0]) s d =
      Some (s, d @ map of_char ''Invalid command; policy unchanged. Type ebpfw help.'' @ [10])" by (rule trans)
  have c: "rl_block r \<and> rl_source_mask r = 0" using True unfolding blocks_all_def .
  note p = print_rule_text [OF assms(1), of n d, unfolded blocks_all_refused(1) [OF True]]
  show ?thesis unfolding if_P [OF c] by (rule exI, rule conjI [OF p conjI [OF refl f]])
next
  case False
  then show ?thesis using print_rule_text [OF assms(1), of n d] typed_rule_added [OF assms(2,1,3) False, of hash d] unfolding blocks_all_def
    by (intro exI [of _ "join (rule_words r)"]) auto
qed

definition listed_rule :: FirewallRule where
  "listed_rule = zero_native\<lparr>rl_allow := True, rl_source := 0x0a000000, rl_source_mask := 0xff000000, rl_protocol := 6, rl_port := 80, rl_hits := 5\<rparr>"

lemma listed_rule_typed: "typed_rule listed_rule"
proof -
  have "cidr_block 0x0a000000 0xff000000" unfolding cidr_block_def by (intro conjI exI [of _ 8]) (simp_all add: prefix_mask_def)
  then show ?thesis by (simp add: typed_rule_def listed_rule_def zero_native_def rule_ok_def)
qed

theorem rule_listing_reenters_witness:
  "\<exists>t. print_rule transcript 3 listed_rule [] = Some ([] @ dec_digits (unat (3 :: u32)) @ 32 # t @ map of_char '' hits='' @ dec_digits (unat (rl_hits listed_rule)) @ [10]) \<and>
    (\<exists>s' d'. fw_command transcript [0] sample_env (t @ [0]) sample_net [] = Some (s', d') \<and> fw_list (fw_of s') = fw_list (fw_of sample_net) @ [listed_rule\<lparr>rl_hits := 0\<rparr>])"
proof -
  have c: "fw_count (fw_of sample_net) < FW_RULES" by (simp add: sample_net_def sample_state_def sample_fw_def)
  have n: "\<not> (rl_block listed_rule \<and> rl_source_mask listed_rule = 0)" by (simp add: listed_rule_def zero_native_def)
  show ?thesis using rule_listing_reenters [OF listed_rule_typed sample_net_wf(1) c, of 3 "[]" "[0]"] unfolding if_not_P [OF n] .
qed

end
