(* ===== verification/Bpf_Lpm.thy ===== *)
theory Bpf_Lpm
  imports Bpf_Safety
begin

text \<open>
  The prefix-trie lookup of the eBPF helper is longest prefix match.
\<close>

section \<open>Longest prefix match\<close>

text \<open>
  The specification: entry \<open>j\<close> applies to the key when its length is no longer than the queried one
  and its leading bits agree; the lookup takes the longest entry that applies, the first of several.
\<close>

definition entry_bits :: "bytes \<Rightarrow> nat \<Rightarrow> u32" where
  "entry_bits keys j = (case read_le keys (j * 20) 4 of None \<Rightarrow> 0 | Some w \<Rightarrow> ucast w)"

definition bits_agree :: "BpfEnvironment \<Rightarrow> bytes \<Rightarrow> bpf_ptr \<Rightarrow> bytes \<Rightarrow> nat \<Rightarrow> nat \<Rightarrow> bool" where
  "bits_agree e stack key keys prefix b \<longleftrightarrow>
     (case (ptr_byte e stack key (4 + b div 8), rd keys (prefix + (4 + b div 8))) of
        (Some x, Some y) \<Rightarrow> bit x (7 - b mod 8) = bit y (7 - b mod 8) | _ \<Rightarrow> False)"

definition lpm_applies :: "BpfEnvironment \<Rightarrow> bytes \<Rightarrow> bpf_ptr \<Rightarrow> bytes \<Rightarrow> u32 \<Rightarrow> nat \<Rightarrow> bool" where
  "lpm_applies e stack key keys index j \<longleftrightarrow> entry_bits keys j \<le> index \<and> entry_bits keys j \<le> 128 \<and>
     (\<forall>b < unat (entry_bits keys j). bits_agree e stack key keys (j * 20) b)"

definition lpm_best :: "BpfEnvironment \<Rightarrow> bytes \<Rightarrow> bpf_ptr \<Rightarrow> bytes \<Rightarrow> u32 \<Rightarrow> nat \<Rightarrow> int \<Rightarrow> bool" where
  "lpm_best e stack key keys index n best \<longleftrightarrow>
     (if best < 0 then \<forall>j < n. \<not> lpm_applies e stack key keys index j
      else nat best < n \<and> lpm_applies e stack key keys index (nat best) \<and>
        (\<forall>j < n. lpm_applies e stack key keys index j \<longrightarrow>
           entry_bits keys j < entry_bits keys (nat best) \<or>
           (entry_bits keys j = entry_bits keys (nat best) \<and> nat best \<le> j)))"

lemma mask_bit_test:
  assumes "k < 8" shows "(w AND drop_bit k (0x80 :: u8) = 0) = (\<not> bit w (7 - k))"
proof -
  have "drop_bit k (0x80 :: u8) = push_bit (7 - k) 1"
  proof -
    from assms have "k = 0 \<or> k = 1 \<or> k = 2 \<or> k = 3 \<or> k = 4 \<or> k = 5 \<or> k = 6 \<or> k = 7" by presburger
    then show ?thesis by (elim disjE) simp_all
  qed
  moreover have "(w AND push_bit (7 - k) 1 = 0) = (\<not> bit w (7 - k))"
    by (simp add: push_bit_of_1 and_exp_eq_0_iff_not_bit)
  ultimately show ?thesis by simp
qed

lemma prefix_match_spec:
  assumes "prefix_match e stack key keys prefix b bits = Some r"
  shows "r \<longleftrightarrow> (\<forall>k. b \<le> k \<and> k < bits \<longrightarrow> bits_agree e stack key keys prefix k)"
  using assms
proof (induction e stack key keys prefix b bits rule: prefix_match.induct)
  case (1 e stack key keys prefix b bits)
  show ?case
  proof (cases "b < bits")
    case True
    with "1.prems" obtain x y where xy: "ptr_byte e stack key (4 + b div 8) = Some x"
      "rd keys (prefix + (4 + b div 8)) = Some y"
      and r: "(if (x XOR y) AND drop_bit (b mod 8) 0x80 \<noteq> 0 then Some False
        else prefix_match e stack key keys prefix (b + 1) bits) = Some r"
      by (subst (asm) prefix_match.simps) (auto simp: Option.bind_eq_Some_conv)
    have here: "bits_agree e stack key keys prefix b \<longleftrightarrow> (x XOR y) AND drop_bit (b mod 8) 0x80 = 0"
      using xy by (simp add: bits_agree_def mask_bit_test bit_xor_iff del: rd_eq_Some)
    have split: "(\<forall>k. b \<le> k \<and> k < bits \<longrightarrow> P k) \<longleftrightarrow> P b \<and> (\<forall>k. b + 1 \<le> k \<and> k < bits \<longrightarrow> P k)" for P
      using True by (metis Suc_eq_plus1 Suc_le_eq le_neq_implies_less order_refl less_imp_le)
    show ?thesis unfolding split [of "bits_agree e stack key keys prefix"] here
      using r "1.IH" [OF True xy] by (auto split: if_splits)
  qed (use "1.prems" in \<open>auto simp: prefix_match.simps [of e stack key keys prefix b bits]\<close>)
qed

lemma lpm_best_skip:
  assumes "lpm_best e stack key keys index i best"
    "lpm_applies e stack key keys index i \<Longrightarrow> best \<ge> 0 \<and> entry_bits keys i \<le> entry_bits keys (nat best)"
  shows "lpm_best e stack key keys index (i + 1) best"
proof (cases "best < 0")
  case True
  with assms show ?thesis by (auto simp: lpm_best_def less_Suc_eq)
next
  case False
  have "entry_bits keys i < entry_bits keys (nat best) \<or> entry_bits keys i = entry_bits keys (nat best) \<and> nat best \<le> i"
    if "lpm_applies e stack key keys index i"
    using assms that False by (auto simp: lpm_best_def)
  with False assms(1) show ?thesis by (auto simp: lpm_best_def less_Suc_eq)
qed

lemma lpm_best_take:
  assumes "lpm_best e stack key keys index i best" "lpm_applies e stack key keys index i"
    "best \<ge> 0 \<Longrightarrow> entry_bits keys (nat best) < entry_bits keys i"
  shows "lpm_best e stack key keys index (i + 1) (int i)"
proof (cases "best < 0")
  case True
  with assms show ?thesis by (auto simp: lpm_best_def less_Suc_eq)
next
  case False
  then have "entry_bits keys j < entry_bits keys i" if "j < i" "lpm_applies e stack key keys index j" for j
    using assms(1,3) that by (force simp: lpm_best_def)
  with assms(2) show ?thesis by (auto simp: lpm_best_def less_Suc_eq)
qed

lemma lpm_scan_best:
  assumes "lpm_scan e stack key keys index i entries best best_bits = Some r"
    "lpm_best e stack key keys index i best" "i \<le> entries"
    "best \<ge> 0 \<Longrightarrow> best_bits = entry_bits keys (nat best)"
  shows "lpm_best e stack key keys index entries r"
  using assms
proof (induction e stack key keys index i entries best best_bits rule: lpm_scan.induct)
  case (1 e stack key keys index i entries best best_bits)
  show ?case
  proof (cases "i < entries")
    case True
    with "1.prems"(1) obtain w where w: "read_le keys (i * 20) 4 = Some w"
      by (subst (asm) lpm_scan.simps) (auto simp: Option.bind_eq_Some_conv)
    define bits :: u32 where "bits = ucast w"
    have eb: "entry_bits keys i = bits" using w by (simp add: entry_bits_def bits_def)
    note IH = "1.IH" [OF True w bits_def]
    show ?thesis
    proof (cases "bits > index \<or> bits > 128 \<or> (best \<ge> 0 \<and> bits \<le> best_bits)")
      case skip: True
      have "lpm_best e stack key keys index (i + 1) best"
        using skip "1.prems"(2,4) by (intro lpm_best_skip) (auto simp: lpm_applies_def eb)
      then show ?thesis
        using "1.prems" True skip w by (intro IH(1)) (auto simp: lpm_scan.simps [of e stack key keys index i] bits_def)
    next
      case False
      have "lpm_scan e stack key keys index i entries best best_bits =
        do { matched \<leftarrow> prefix_match e stack key keys (i * 20) 0 (unat bits);
          if matched then lpm_scan e stack key keys index (i + 1) entries (int i) bits
          else lpm_scan e stack key keys index (i + 1) entries best best_bits }"
        unfolding lpm_scan.simps [of e stack key keys index i entries best best_bits]
        by (simp only: True w Option.bind.simps Let_def bits_def [symmetric] False if_True if_False)
      with "1.prems"(1) obtain m where m: "prefix_match e stack key keys (i * 20) 0 (unat bits) = Some m"
        and r: "(if m then lpm_scan e stack key keys index (i + 1) entries (int i) bits
          else lpm_scan e stack key keys index (i + 1) entries best best_bits) = Some r"
        by (simp only: Option.bind_eq_Some_conv) blast
      have app: "lpm_applies e stack key keys index i \<longleftrightarrow> m"
        using prefix_match_spec [OF m] False by (auto simp: lpm_applies_def eb)
      show ?thesis
      proof (cases m)
        case True
        have "lpm_best e stack key keys index (i + 1) (int i)"
          using "1.prems"(2,4) app True False by (intro lpm_best_take) (auto simp: eb)
        then show ?thesis using r True eb \<open>i < entries\<close> by (intro IH(2) [OF False m]) auto
      next
        case nm: False
        have "lpm_best e stack key keys index (i + 1) best"
          using "1.prems"(2) app nm by (intro lpm_best_skip) auto
        then show ?thesis using r nm "1.prems"(4) \<open>i < entries\<close> by (intro IH(3) [OF False m]) auto
      qed
    qed
  next
    case False
    with "1.prems" show ?thesis by (simp add: lpm_scan.simps [of e stack key keys index i])
  qed
qed

text \<open>C14: the helper on a prefix map is longest prefix match: a successful lookup returns the value cell
  of the longest entry that is no longer than the queried length and agrees with the key on all its
  leading bits, the first of equal ones, and null when there is none.\<close>

theorem lookup_longest_prefix:
  assumes k: "k < 7" and m: "m = e_maps e ! k" "m_type m = BPF_LPM"
    and l: "lookup e stack (BPF_HANDLES + of_nat k) address = Some (Some v)"
  shows "\<exists>key w keys best. memory e address 20 False = Some (Some key) \<and> ptr_read e stack key 4 = Some w \<and>
    m_keys m = Some keys \<and> lpm_best e stack key keys (ucast w) (unat (m_entries m)) best \<and>
    v = (if best < 0 then 0 else BPF_VALUES + of_nat k * 0x100000 + ucast (of_int best * 256 :: u32))"
proof -
  have uk: "unat (of_nat k :: u64) = k" using k by (simp add: unsigned_of_nat take_bit_eq_mod)
  have range: "\<not> (BPF_HANDLES + of_nat k < BPF_HANDLES \<or> BPF_HANDLES + of_nat k \<ge> BPF_HANDLES + (7 :: u64))"
    using k by (auto simp: word_less_nat_alt word_le_nat_alt unat_word_ariths uk)
  have sub: "BPF_HANDLES + of_nat k - BPF_HANDLES = (of_nat k :: u64)" by simp
  obtain key w keys best where r: "memory e address 20 False = Some (Some key)" "ptr_read e stack key 4 = Some w"
    "m_keys m = Some keys" "\<not> m_entries m > m_capacity m"
    "lpm_scan e stack key keys (ucast w) 0 (unat (m_entries m)) (-1) 0 = Some best"
    "(if best < 0 then Some (Some 0) else lookup_cell m (of_nat k) (of_int best)) = Some (Some v)"
    using l m(2) unfolding lookup_def Let_def sub uk m(1)
    by (simp only: range if_False)
      (auto simp: Option.bind_eq_Some_conv simp del: not_None_eq split: if_split_asm option.splits)
  have best: "lpm_best e stack key keys (ucast w) (unat (m_entries m)) best"
    by (rule lpm_scan_best [OF r(5)]) (simp_all add: lpm_best_def)
  have cell: "\<not> m_capacity m \<le> of_int best" if "\<not> best < 0"
  proof -
    have "nat best < unat (m_entries m)" using best that by (simp add: lpm_best_def)
    moreover have "unat (m_entries m) \<le> unat (m_capacity m)" using r(4) by (simp add: word_less_nat_alt)
    moreover have "unat (of_int best :: u32) = nat best"
    proof -
      have "(of_int best :: u32) = of_nat (nat best)" using that by simp
      then show ?thesis using calculation(1) unat_lt_u32 [of "m_entries m"]
        by (simp only: unsigned_of_nat take_bit_eq_mod) simp
    qed
    ultimately show ?thesis by (simp add: word_le_nat_alt)
  qed
  have "v = (if best < 0 then 0 else BPF_VALUES + of_nat k * 0x100000 + ucast (of_int best * 256 :: u32))"
    using r(6) cell m(2) by (auto simp: lookup_cell_def split: if_splits)
  with r best show ?thesis by blast
qed

definition lpm_env :: BpfEnvironment where
  "lpm_env = sample_env\<lparr>e_maps := (e_maps sample_env)[0 := \<lparr>m_type = BPF_LPM, m_key_size = 20, m_value_size = 4,
     m_capacity = 2, m_entries = 2, m_values = Some (replicate 8 0),
     m_keys = Some ([0, 0, 0, 0] @ replicate 16 0 @ [8, 0, 0, 0, 10] @ replicate 15 0), m_writable = False\<rparr>]\<rparr>"

theorem lookup_longest_prefix_witness:
  "\<exists>key w keys best. memory lpm_env BPF_STACK 20 False = Some (Some key) \<and>
    ptr_read lpm_env ([32, 0, 0, 0, 10] @ replicate 507 1) key 4 = Some w \<and>
    m_keys (e_maps lpm_env ! 0) = Some keys \<and>
    lpm_best lpm_env ([32, 0, 0, 0, 10] @ replicate 507 1) key keys (ucast w) (unat (m_entries (e_maps lpm_env ! 0))) best \<and>
    BPF_VALUES + 256 = (if best < 0 then 0 else BPF_VALUES + of_nat 0 * 0x100000 + ucast (of_int best * 256 :: u32))"
proof (rule lookup_longest_prefix [of 0 "e_maps lpm_env ! 0"])
  show "m_type (e_maps lpm_env ! 0) = BPF_LPM" by (simp add: lpm_env_def sample_env_def)
  show "lookup lpm_env ([32, 0, 0, 0, 10] @ replicate 507 1) (BPF_HANDLES + of_nat 0) BPF_STACK
      = Some (Some (BPF_VALUES + 256))" by code_simp
qed simp_all

end
