(* ===== verification/Allocator.thy ===== *)
theory Allocator
  imports Kernel_Prelude
begin

text \<open>
  The first-fit allocator of \<^verbatim>\<open>src/jordyOS/ape/platform.c\<close>. Addresses are offsets into the 16-byte aligned
  arena, \<open>None\<close> is \<^verbatim>\<open>NULL\<close>. The heap is a typed store: a map from addresses to block headers and the
  payload bytes. The list walks follow the stored \<^verbatim>\<open>next\<close> pointers and could loop on a corrupt heap,
  so they are partial functions; \<open>None\<close> is that, or a header read where there is none.
\<close>

section \<open>Headers and walks\<close>

abbreviation (input) ARENA :: nat where "ARENA \<equiv> 4194304"
abbreviation (input) HDR :: nat where "HDR \<equiv> 32" \<comment> \<open>\<^verbatim>\<open>sizeof(Block)\<close>\<close>

record Block =
  b_size :: nat
  b_next :: "nat option"
  b_available :: bool

type_synonym headers = "nat \<Rightarrow> Block option"

record heap =
  h_first :: "nat option"
  h_blocks :: headers
  h_bytes :: "nat \<Rightarrow> u8"

definition ape_heap_reset :: "heap \<Rightarrow> heap" where
  "ape_heap_reset h = h\<lparr>h_first := Some 0,
     h_blocks := (h_blocks h)(0 \<mapsto> \<lparr>b_size = ARENA - HDR, b_next = None, b_available = True\<rparr>)\<rparr>"

text \<open>The result is the pointer past the header and the headers after the split.\<close>

partial_function (option) malloc_loop :: "nat \<Rightarrow> nat option \<Rightarrow> headers \<Rightarrow> (nat option \<times> headers) option" where
  "malloc_loop sz p m = (case p of None \<Rightarrow> Some (None, m)
     | Some b \<Rightarrow> (case m b of None \<Rightarrow> None
        | Some blk \<Rightarrow>
            if \<not> b_available blk \<or> b_size blk < sz then malloc_loop sz (b_next blk) m
            else if b_size blk \<ge> sz + HDR + 16 then
              let tail = b + HDR + sz;
                  m = m(tail \<mapsto> \<lparr>b_size = b_size blk - sz - HDR, b_next = b_next blk, b_available = True\<rparr>)
              in Some (Some (b + HDR), m(b \<mapsto> \<lparr>b_size = sz, b_next = Some tail, b_available = False\<rparr>))
            else Some (Some (b + HDR), m(b \<mapsto> blk\<lparr>b_available := False\<rparr>))))"

definition round_size :: "nat \<Rightarrow> nat" where
  "round_size sz = (let r = (sz + 15) div 16 * 16 in if r = 0 then 16 else r)"

definition malloc :: "nat \<Rightarrow> heap \<Rightarrow> (nat option \<times> heap) option" where
  "malloc sz h0 =
     (let h = (if h_first h0 = None then ape_heap_reset h0 else h0) in
      if sz > ARENA - HDR then Some (None, h)
      else do {
        (p, m) \<leftarrow> malloc_loop (round_size sz) (h_first h) (h_blocks h);
        Some (p, h\<lparr>h_blocks := m\<rparr>) })"

partial_function (option) free_loop :: "nat option \<Rightarrow> headers \<Rightarrow> headers option" where
  "free_loop p m = (case p of None \<Rightarrow> Some m
     | Some b \<Rightarrow> (case m b of None \<Rightarrow> None
        | Some blk \<Rightarrow> (case b_next blk of None \<Rightarrow> Some m
           | Some c \<Rightarrow> (case m c of None \<Rightarrow> None
              | Some nb \<Rightarrow>
                  if b_available blk \<and> b_available nb
                  then free_loop p (m(b \<mapsto> blk\<lparr>b_size := b_size blk + (HDR + b_size nb), b_next := b_next nb\<rparr>))
                  else free_loop (b_next blk) m))))"

definition free :: "nat option \<Rightarrow> heap \<Rightarrow> heap option" where
  "free p h = (case p of None \<Rightarrow> Some h
     | Some q \<Rightarrow> if q < HDR then None else do {
         blk \<leftarrow> h_blocks h (q - HDR);
         m \<leftarrow> free_loop (h_first h) ((h_blocks h)(q - HDR \<mapsto> blk\<lparr>b_available := True\<rparr>));
         Some (h\<lparr>h_blocks := m\<rparr>) })"

primrec copy_bytes :: "(nat \<Rightarrow> u8) \<Rightarrow> nat \<Rightarrow> nat \<Rightarrow> nat \<Rightarrow> nat \<Rightarrow> u8" where
  "copy_bytes f d s 0 = f"
| "copy_bytes f d s (Suc n) = copy_bytes (f(d := f s)) (d + 1) (s + 1) n"

primrec fill_bytes :: "(nat \<Rightarrow> u8) \<Rightarrow> nat \<Rightarrow> u8 \<Rightarrow> nat \<Rightarrow> nat \<Rightarrow> u8" where
  "fill_bytes f d c 0 = f"
| "fill_bytes f d c (Suc n) = fill_bytes (f(d := c)) (d + 1) c n"

definition realloc :: "nat option \<Rightarrow> nat \<Rightarrow> heap \<Rightarrow> (nat option \<times> heap) option" where
  "realloc p sz h =
     (if sz = 0 then do { h \<leftarrow> free p h; Some (None, h) }
      else case p of None \<Rightarrow> malloc sz h
      | Some q \<Rightarrow> if q < HDR then None else do {
          blk \<leftarrow> h_blocks h (q - HDR);
          if b_size blk \<ge> sz then Some (p, h)
          else do {
            (r, h) \<leftarrow> malloc sz h;
            (case r of None \<Rightarrow> Some (None, h)
             | Some nw \<Rightarrow> do {
                 blk \<leftarrow> h_blocks h (q - HDR);
                 if nw + b_size blk > ARENA \<or> q + b_size blk > ARENA then None else do {
                   h \<leftarrow> free p (h\<lparr>h_bytes := copy_bytes (h_bytes h) nw q (b_size blk)\<rparr>);
                   Some (Some nw, h) }}) }})"

abbreviation (input) SIZE_MAX :: nat where "SIZE_MAX \<equiv> 18446744073709551615"

definition calloc :: "nat \<Rightarrow> nat \<Rightarrow> heap \<Rightarrow> (nat option \<times> heap) option" where
  "calloc count sz h =
     (if count \<noteq> 0 \<and> sz > SIZE_MAX div count then Some (None, h)
      else let n = count * sz mod 2 ^ 64 in do {
        (p, h) \<leftarrow> malloc n h;
        (case p of None \<Rightarrow> Some (None, h)
         | Some q \<Rightarrow> if q + n > ARENA then None
             else Some (p, h\<lparr>h_bytes := fill_bytes (h_bytes h) q 0 n\<rparr>)) })"

section \<open>Blocks as a list\<close>

text \<open>
  \<open>tiles m p a bs\<close>: from address \<open>a\<close> the chain at \<open>p\<close> is the list \<open>bs\<close> of sizes and flags, back to back
  up to the end of the arena.
\<close>

type_synonym blocks = "(nat \<times> bool) list"

fun tiles :: "headers \<Rightarrow> nat option \<Rightarrow> nat \<Rightarrow> blocks \<Rightarrow> bool" where
  "tiles m p a [] \<longleftrightarrow> p = None \<and> a = ARENA"
| "tiles m p a ((s, v) # bs) \<longleftrightarrow> p = Some a \<and> 16 dvd s \<and> 16 \<le> s \<and>
     (\<exists>nxt. m a = Some \<lparr>b_size = s, b_next = nxt, b_available = v\<rparr> \<and> tiles m nxt (a + HDR + s) bs)"

fun fit :: "nat \<Rightarrow> blocks \<Rightarrow> nat \<Rightarrow> (nat \<times> blocks) option" where
  "fit n [] a = None"
| "fit n ((s, v) # bs) a =
     (if v \<and> n \<le> s
      then Some (a + HDR, if n + HDR + 16 \<le> s then (n, False) # (s - n - HDR, True) # bs else (s, False) # bs)
      else map_option (apsnd ((#) (s, v))) (fit n bs (a + HDR + s)))"

fun release :: "nat \<Rightarrow> blocks \<Rightarrow> nat \<Rightarrow> blocks" where
  "release q [] a = []"
| "release q ((s, v) # bs) a = (if q = a + HDR then (s, True) # bs else (s, v) # release q bs (a + HDR + s))"

fun merge :: "blocks \<Rightarrow> blocks" where
  "merge [] = []"
| "merge [x] = [x]"
| "merge ((s, v) # (t, w) # bs) =
     (if v \<and> w then merge ((s + (HDR + t), True) # bs) else (s, v) # merge ((t, w) # bs))"

text \<open>The pointers in use with their sizes.\<close>

fun live_from :: "blocks \<Rightarrow> nat \<Rightarrow> (nat \<times> nat) set" where
  "live_from [] a = {}"
| "live_from ((s, v) # bs) a = (if v then {} else {(a + HDR, s)}) \<union> live_from bs (a + HDR + s)"

fun coalesced :: "blocks \<Rightarrow> bool" where
  "coalesced ((s, v) # (t, w) # bs) \<longleftrightarrow> \<not> (v \<and> w) \<and> coalesced ((t, w) # bs)"
| "coalesced _ \<longleftrightarrow> True"

primrec walk :: "nat \<Rightarrow> headers \<Rightarrow> nat option \<Rightarrow> blocks" where
  "walk 0 m p = []"
| "walk (Suc k) m p = (case p of None \<Rightarrow> [] | Some b \<Rightarrow> (case m b of None \<Rightarrow> []
     | Some blk \<Rightarrow> (b_size blk, b_available blk) # walk k m (b_next blk)))"

section \<open>The walks implement the list operations\<close>

lemma tiles_cong: "(\<And>x. a \<le> x \<Longrightarrow> m x = m' x) \<Longrightarrow> tiles m p a bs = tiles m' p a bs"
proof (induction bs arbitrary: p a)
  case (Cons b bs)
  obtain s v where b: "b = (s, v)" by fastforce
  have "tiles m nxt (a + HDR + s) bs = tiles m' nxt (a + HDR + s) bs" for nxt
    using Cons.prems by (intro Cons.IH) auto
  with Cons.prems [of a] show ?case by (simp add: b)
qed simp

lemma tiles_ConsI:
  "m a = Some \<lparr>b_size = s, b_next = nxt, b_available = v\<rparr> \<Longrightarrow> 16 dvd s \<Longrightarrow> 16 \<le> s \<Longrightarrow>
   tiles m nxt (a + HDR + s) bs \<Longrightarrow> tiles m (Some a) a ((s, v) # bs)"
  by simp

lemma tiles_end: "tiles m p a bs \<Longrightarrow> a + (\<Sum>(s, v) \<leftarrow> bs. HDR + s) = ARENA"
proof (induction bs arbitrary: p a)
  case (Cons b bs)
  obtain s v nxt where b: "b = (s, v)" "tiles m nxt (a + HDR + s) bs" using Cons.prems by (cases b) auto
  from Cons.IH [OF b(2)] b(1) show ?case by simp
qed simp

lemma tiles_shape: "tiles m p a bs \<Longrightarrow> \<forall>(s, v) \<in> set bs. 16 dvd s \<and> 16 \<le> s"
proof (induction bs arbitrary: p a)
  case (Cons b bs)
  then show ?case by (cases b) (simp, blast)
qed simp

lemma malloc_loop_sim:
  assumes "tiles m p a bs" "16 dvd n" "16 \<le> n"
  shows "case fit n bs a of None \<Rightarrow> malloc_loop n p m = Some (None, m)
    | Some (q, bs') \<Rightarrow> \<exists>m'. malloc_loop n p m = Some (Some q, m') \<and> tiles m' p a bs' \<and> (\<forall>x < a. m' x = m x)"
  using assms(1)
proof (induction bs arbitrary: p a)
  case Nil
  then show ?case by (simp add: malloc_loop.simps)
next
  case (Cons b bs)
  obtain s v nxt where b: "b = (s, v)" "p = Some a" "16 dvd s" "16 \<le> s"
    "m a = Some \<lparr>b_size = s, b_next = nxt, b_available = v\<rparr>" "tiles m nxt (a + HDR + s) bs"
    using Cons.prems by (cases b) auto
  show ?case
  proof (cases "v \<and> n \<le> s")
    case fits: True
    show ?thesis
    proof (cases "n + HDR + 16 \<le> s")
      case True
      let ?t = "a + HDR + n"
      let ?m = "m(?t \<mapsto> \<lparr>b_size = s - n - HDR, b_next = nxt, b_available = True\<rparr>,
        a \<mapsto> \<lparr>b_size = n, b_next = Some ?t, b_available = False\<rparr>)"
      have "malloc_loop n p m = Some (Some (a + HDR), ?m)"
        using b fits True by (subst malloc_loop.simps) (simp add: Let_def)
      moreover have "tiles ?m (Some a) a ((n, False) # (s - n - HDR, True) # bs)"
      proof (rule tiles_ConsI)
        have "tiles ?m nxt (a + HDR + s) bs"
          using b(6) True by (subst tiles_cong [of _ ?m m]) auto
        moreover have "?t + HDR + (s - n - HDR) = a + HDR + s" using True by simp
        ultimately have r: "tiles ?m nxt (?t + HDR + (s - n - HDR)) bs" by (simp only:)
        show "tiles ?m (Some ?t) ?t ((s - n - HDR, True) # bs)"
          using True b(3) assms(2) by (intro tiles_ConsI [OF _ _ _ r]) auto
      qed (use assms(2,3) in auto)
      ultimately show ?thesis using b(1,2) fits True by auto
    next
      case False
      let ?m = "m(a \<mapsto> \<lparr>b_size = s, b_next = nxt, b_available = False\<rparr>)"
      have "malloc_loop n p m = Some (Some (a + HDR), ?m)"
        using b fits False by (subst malloc_loop.simps) simp
      moreover have "tiles ?m nxt (a + HDR + s) bs" using b(6) by (subst tiles_cong [of _ ?m m]) auto
      ultimately show ?thesis using b fits False by auto
    qed
  next
    case skip: False
    then have step: "malloc_loop n p m = malloc_loop n nxt m"
      using b by (subst malloc_loop.simps) auto
    show ?thesis
    proof (cases "fit n bs (a + HDR + s)")
      case None
      with Cons.IH [OF b(6)] step skip b(1) show ?thesis by auto
    next
      case (Some r)
      obtain q bs' where r: "r = (q, bs')" by fastforce
      with Cons.IH [OF b(6)] Some obtain m' where m': "malloc_loop n nxt m = Some (Some q, m')"
        "tiles m' nxt (a + HDR + s) bs'" "\<forall>x < a + HDR + s. m' x = m x" by auto
      have "m' a = m a" using m'(3) by simp
      then have "tiles m' p a ((s, v) # bs')" using b m'(2) by simp
      moreover have "fit n (b # bs) a = Some (q, (s, v) # bs')" using skip b(1) Some r by auto
      ultimately show ?thesis using m' step by auto
    qed
  qed
qed

lemma free_loop_sim:
  "tiles m p a bs \<Longrightarrow> \<exists>m'. free_loop p m = Some m' \<and> tiles m' p a (merge bs) \<and> (\<forall>x < a. m' x = m x)"
proof (induction "length bs" arbitrary: m p a bs)
  case 0
  then show ?case by (simp add: free_loop.simps)
next
  case (Suc k)
  then obtain s v rest where bs: "bs = (s, v) # rest" by (cases bs) auto
  obtain nxt where b: "p = Some a" "16 dvd s" "16 \<le> s"
    "m a = Some \<lparr>b_size = s, b_next = nxt, b_available = v\<rparr>" "tiles m nxt (a + HDR + s) rest"
    using Suc.prems bs by auto
  show ?case
  proof (cases rest)
    case Nil
    then have "free_loop p m = Some m" using b by (subst free_loop.simps) simp
    moreover have "merge bs = bs" using Nil bs by (cases v) simp_all
    ultimately show ?thesis using Suc.prems by simp
  next
    case (Cons c rest')
    obtain t w where c: "c = (t, w)" by fastforce
    obtain nxt' where d: "nxt = Some (a + HDR + s)" "16 dvd t" "16 \<le> t"
      "m (a + HDR + s) = Some \<lparr>b_size = t, b_next = nxt', b_available = w\<rparr>"
      "tiles m nxt' (a + HDR + s + HDR + t) rest'" using b(5) Cons c by auto
    show ?thesis
    proof (cases "v \<and> w")
      case True
      let ?m = "m(a \<mapsto> \<lparr>b_size = s + (HDR + t), b_next = nxt', b_available = True\<rparr>)"
      have "tiles ?m nxt' (a + HDR + (s + (HDR + t))) rest'"
        using d(5) by (subst tiles_cong [of _ ?m m]) (auto simp: add.assoc)
      then have t: "tiles ?m p a ((s + (HDR + t), True) # rest')" using b d by simp
      have step: "free_loop p m = free_loop p ?m" using b d True by (subst free_loop.simps) simp
      from Suc.hyps(1) [OF _ t] Suc.hyps(2) bs Cons obtain m' where
        "free_loop p ?m = Some m'" "tiles m' p a (merge ((s + (HDR + t), True) # rest'))" "\<forall>x < a. m' x = ?m x" by auto
      with step True bs Cons c show ?thesis by auto
    next
      case False
      have step: "free_loop p m = free_loop nxt m" using b d False by (subst free_loop.simps) auto
      from Suc.hyps(1) [OF _ b(5)] Suc.hyps(2) bs obtain m' where
        m': "free_loop nxt m = Some m'" "tiles m' nxt (a + HDR + s) (merge rest)" "\<forall>x < a + HDR + s. m' x = m x" by auto
      have "merge bs = (s, v) # merge rest" using False bs Cons c by auto
      with m' step b show ?thesis by auto
    qed
  qed
qed

lemma live_ge: "(q, s) \<in> live_from bs a \<Longrightarrow> a + HDR \<le> q"
  by (induction bs a rule: live_from.induct) (fastforce split: if_splits)+

lemma tiles_release:
  assumes "tiles m p a bs" "(q, s) \<in> live_from bs a"
  shows "\<exists>blk. m (q - HDR) = Some blk \<and> b_size blk = s \<and>
    tiles (m(q - HDR \<mapsto> blk\<lparr>b_available := True\<rparr>)) p a (release q bs a)"
  using assms
proof (induction bs arbitrary: p a)
  case (Cons b bs)
  obtain t v nxt where b: "b = (t, v)" "p = Some a" "16 dvd t" "16 \<le> t"
    "m a = Some \<lparr>b_size = t, b_next = nxt, b_available = v\<rparr>" "tiles m nxt (a + HDR + t) bs"
    using Cons.prems(1) by (cases b) auto
  show ?case
  proof (cases "q = a + HDR")
    case True
    with Cons.prems(2) live_ge [of q s bs "a + HDR + t"] b(1) have "s = t" by (auto split: if_splits)
    moreover have "tiles (m(a \<mapsto> \<lparr>b_size = t, b_next = nxt, b_available = True\<rparr>)) nxt (a + HDR + t) bs"
      using b(6) by (subst tiles_cong [of _ _ m]) auto
    then have "tiles (m(a \<mapsto> \<lparr>b_size = t, b_next = nxt, b_available = v\<rparr>\<lparr>b_available := True\<rparr>)) p a ((t, True) # bs)"
      using b by simp
    moreover have "q - HDR = a" "release q (b # bs) a = (t, True) # bs" using True b(1) by simp_all
    ultimately show ?thesis using b(5)
      by (metis Block.select_convs(1))
  next
    case False
    then have q: "(q, s) \<in> live_from bs (a + HDR + t)" using Cons.prems(2) b(1) by (auto split: if_splits)
    from Cons.IH [OF b(6) this] obtain blk where "m (q - HDR) = Some blk" "b_size blk = s"
      "tiles (m(q - HDR \<mapsto> blk\<lparr>b_available := True\<rparr>)) nxt (a + HDR + t) (release q bs (a + HDR + t))" by blast
    moreover have "q - HDR \<noteq> a" using live_ge [OF q] b(4) by simp
    ultimately show ?thesis using False b by (simp del: fun_upd_apply add: fun_upd_other)
  qed
qed simp

section \<open>Facts about the list operations\<close>

lemma live_merge: "live_from (merge bs) a = live_from bs a"
proof (induction bs arbitrary: a rule: merge.induct)
  case (3 s v t w bs)
  show ?case
  proof (cases "v \<and> w")
    case True
    have "a + HDR + (s + (HDR + t)) = a + HDR + s + HDR + t" by simp
    with True "3.IH"(1) [OF True, of a] show ?thesis by (simp only: merge.simps if_True live_from.simps) simp
  next
    case False
    from "3.IH"(2) [OF False, of "a + HDR + s"] False show ?thesis by (simp only: merge.simps if_False live_from.simps)
  qed
qed simp_all

lemma coalesced_Cons: "coalesced ((s, v) # bs) \<longleftrightarrow> coalesced bs \<and> (case bs of [] \<Rightarrow> True | (t, w) # _ \<Rightarrow> \<not> (v \<and> w))"
  by (cases bs) auto

lemma merge_head: "\<exists>t cs. merge ((s, v) # bs) = (t, v) # cs"
  by (induction bs arbitrary: s) auto

lemma coalesced_merge: "coalesced (merge bs)"
proof (induction bs rule: merge.induct)
  case (3 s v t w bs)
  obtain t' cs where "merge ((t, w) # bs) = (t', w) # cs" using merge_head by blast
  with 3 show ?case by (cases "v \<and> w") auto
qed auto

lemma live_release:
  "(q, s) \<in> live_from bs a \<Longrightarrow> live_from (release q bs a) a = live_from bs a - {(q, s)}"
proof (induction bs arbitrary: a)
  case (Cons b bs)
  obtain t v where b: "b = (t, v)" by fastforce
  show ?case
  proof (cases "q = a + HDR")
    case True
    have "(q, u) \<notin> live_from bs (a + HDR + t)" for u
      using live_ge [of q u bs "a + HDR + t"] True by (auto intro: ccontr)
    with Cons.prems True b show ?thesis by (auto split: if_splits)
  next
    case False
    with Cons.prems b have "(q, s) \<in> live_from bs (a + HDR + t)" by (auto split: if_splits)
    with Cons.IH False b show ?thesis by auto
  qed
qed simp

lemma fit_live:
  assumes "fit n bs a = Some (q, bs')"
  shows "\<exists>s \<ge> n. live_from bs' a = insert (q, s) (live_from bs a) \<and> (\<forall>u. (q, u) \<notin> live_from bs a)"
  using assms
proof (induction bs arbitrary: a bs')
  case (Cons b bs)
  obtain t v where b: "b = (t, v)" by fastforce
  have fresh: "(a + HDR, u) \<notin> live_from bs (a + HDR + t)" if "0 < t \<or> True" for u
    using live_ge [of "a + HDR" u bs "a + HDR + t"] by (auto intro: ccontr)
  show ?case
  proof (cases "v \<and> n \<le> t")
    case True
    show ?thesis
    proof (cases "n + HDR + 16 \<le> t")
      case split: True
      then have "a + HDR + n + HDR + (t - n - HDR) = a + HDR + t" by simp
      with Cons.prems True split b fresh show ?thesis by (auto simp: add.commute add.left_commute)
    next
      case False
      with Cons.prems True b fresh show ?thesis by auto
    qed
  next
    case False
    with Cons.prems b obtain bs2 where f: "fit n bs (a + HDR + t) = Some (q, bs2)" "bs' = (t, v) # bs2"
      by (auto simp: apsnd_def map_prod_def split: prod.splits)
    from Cons.IH [OF f(1)] obtain s where s: "n \<le> s"
      "live_from bs2 (a + HDR + t) = insert (q, s) (live_from bs (a + HDR + t))" "\<forall>u. (q, u) \<notin> live_from bs (a + HDR + t)"
      by blast
    have "q \<noteq> a + HDR" using s(2) live_ge [of q s bs2 "a + HDR + t"] by auto
    with s f b show ?thesis by auto
  qed
qed simp

lemma fit_None: "fit n bs a = None \<Longrightarrow> (s, True) \<in> set bs \<Longrightarrow> s < n"
  by (induction bs arbitrary: a) (auto split: if_splits)

lemma fit_coalesced: "fit n bs a = Some (q, bs') \<Longrightarrow> coalesced bs \<Longrightarrow> coalesced bs'"
proof (induction bs arbitrary: a bs')
  case (Cons b bs)
  obtain t v where b: "b = (t, v)" by fastforce
  show ?case
  proof (cases "v \<and> n \<le> t")
    case True
    with Cons.prems b show ?thesis by (auto simp: coalesced_Cons split: if_splits list.splits)
  next
    case False
    with Cons.prems b obtain bs2 where f: "fit n bs (a + HDR + t) = Some (q, bs2)" "bs' = (t, v) # bs2"
      by (auto simp: apsnd_def map_prod_def split: prod.splits)
    have h: "\<exists>u cs ds. bs2 = (u, False) # cs \<or> (bs2 = (u, True) # cs \<and> bs = (u, True) # ds)"
      using f(1) by (cases bs) (auto simp: apsnd_def map_prod_def split: if_splits prod.splits, blast?)
    from Cons f b have "coalesced bs2" by (simp add: coalesced_Cons)
    with h f b Cons.prems(2) show ?thesis by (auto simp: coalesced_Cons split: list.splits)
  qed
qed simp

text \<open>Live blocks are aligned, inside the arena and pairwise apart.\<close>

lemma live_in_arena: "tiles m p a bs \<Longrightarrow> (q, s) \<in> live_from bs a \<Longrightarrow> q + s \<le> ARENA"
proof (induction bs arbitrary: p a)
  case (Cons b bs)
  obtain t v nxt where b: "b = (t, v)" "tiles m nxt (a + HDR + t) bs" using Cons.prems(1) by (cases b) auto
  from Cons.IH [OF b(2)] tiles_end [OF b(2)] Cons.prems(2) b(1) show ?case by (auto split: if_splits)
qed simp

lemma live_aligned: "tiles m p a bs \<Longrightarrow> 16 dvd a \<Longrightarrow> (q, s) \<in> live_from bs a \<Longrightarrow> 16 dvd q \<and> 16 dvd s"
proof (induction bs arbitrary: p a)
  case (Cons b bs)
  obtain t v nxt where b: "b = (t, v)" "16 dvd t" "tiles m nxt (a + HDR + t) bs" using Cons.prems(1) by (cases b) auto
  have h: "16 dvd (HDR :: nat)" by simp
  from Cons.IH [OF b(3)] Cons.prems b(1,2) show ?case by (auto split: if_splits intro: dvd_add h)
qed simp

lemma live_apart:
  "(q, s) \<in> live_from bs a \<Longrightarrow> (r, t) \<in> live_from bs a \<Longrightarrow>
   (q, s) = (r, t) \<or> q + s + HDR \<le> r \<or> r + t + HDR \<le> q"
proof (induction bs arbitrary: a)
  case (Cons b bs)
  obtain u v where b: "b = (u, v)" by fastforce
  note ge = live_ge [of q s bs "a + HDR + u"] live_ge [of r t bs "a + HDR + u"]
  from Cons b ge show ?case by (fastforce split: if_splits)
qed simp

lemma all_free_single: "coalesced bs \<Longrightarrow> live_from bs a = {} \<Longrightarrow> bs = [] \<or> (\<exists>s. bs = [(s, True)])"
  by (induction bs rule: coalesced.induct) (auto split: if_splits)

section \<open>The heap\<close>

text \<open>Every block takes at least 48 bytes, so \<open>ARENA div HDR\<close> steps of the walk see them all.\<close>

definition blocks_of :: "heap \<Rightarrow> blocks" where
  "blocks_of h = (if h_first h = None then [(ARENA - HDR, True)] else walk (ARENA div HDR) (h_blocks h) (h_first h))"

definition heap_wf :: "heap \<Rightarrow> bool" where
  "heap_wf h \<longleftrightarrow> h_first h = None \<or>
     (h_first h = Some 0 \<and> tiles (h_blocks h) (Some 0) 0 (blocks_of h) \<and> coalesced (blocks_of h))"

definition live :: "heap \<Rightarrow> (nat \<times> nat) set" where
  "live h = live_from (blocks_of h) 0"

lemma walk_tiles: "tiles m p a bs \<Longrightarrow> length bs \<le> k \<Longrightarrow> walk k m p = bs"
proof (induction bs arbitrary: p a k)
  case Nil
  then show ?case by (cases k) auto
next
  case (Cons b bs)
  then show ?case by (cases k; cases b) auto
qed

lemma tiles_length: "tiles m p a bs \<Longrightarrow> a + HDR * length bs \<le> ARENA"
proof (induction bs arbitrary: p a)
  case (Cons b bs)
  obtain s v nxt where b: "b = (s, v)" "tiles m nxt (a + HDR + s) bs" using Cons.prems by (cases b) auto
  from Cons.IH [OF b(2)] show ?case by simp
qed simp

lemma blocks_of_tiles:
  assumes "h_first h = Some 0" "tiles (h_blocks h) (Some 0) 0 bs"
  shows "blocks_of h = bs"
  using walk_tiles [OF assms(2), of "ARENA div HDR"] tiles_length [OF assms(2)] assms(1)
  by (simp add: blocks_of_def)

lemma heap_wfI: "h_first h = Some 0 \<Longrightarrow> tiles (h_blocks h) (Some 0) 0 bs \<Longrightarrow> coalesced bs \<Longrightarrow> heap_wf h \<and> blocks_of h = bs"
  by (simp add: heap_wf_def blocks_of_tiles)

lemma reset_heap: "heap_wf (ape_heap_reset h) \<and> blocks_of (ape_heap_reset h) = [(ARENA - HDR, True)]"
  by (rule heap_wfI) (simp_all add: ape_heap_reset_def)

lemma round_size_props: "16 dvd round_size n" "16 \<le> round_size n" "n \<le> round_size n"
proof -
  have d: "n + 15 < (n + 15) div 16 * 16 + 16" by (metis add.commute dividend_less_div_times zero_less_numeral)
  show "16 dvd round_size n" "16 \<le> round_size n" by (auto simp: round_size_def Let_def)
  show "n \<le> round_size n" using d by (simp add: round_size_def Let_def)
qed

text \<open>The abstract effect of the two primitives.\<close>

definition amalloc :: "nat \<Rightarrow> blocks \<Rightarrow> nat option \<times> blocks" where
  "amalloc sz bs = (if sz > ARENA - HDR then (None, bs)
     else case fit (round_size sz) bs 0 of None \<Rightarrow> (None, bs) | Some (q, bs') \<Rightarrow> (Some q, bs'))"

lemma malloc_refines:
  assumes "heap_wf h"
  shows "\<exists>h'. malloc sz h = Some (fst (amalloc sz (blocks_of h)), h') \<and> heap_wf h' \<and>
    blocks_of h' = snd (amalloc sz (blocks_of h)) \<and> h_bytes h' = h_bytes h"
proof -
  define h1 where "h1 = (if h_first h = None then ape_heap_reset h else h)"
  have h1: "heap_wf h1" "blocks_of h1 = blocks_of h" "h_first h1 = Some 0" "h_bytes h1 = h_bytes h"
    using assms reset_heap [of h] by (auto simp: h1_def blocks_of_def heap_wf_def ape_heap_reset_def)
  then have t: "tiles (h_blocks h1) (Some 0) 0 (blocks_of h)" "coalesced (blocks_of h)"
    by (auto simp: heap_wf_def)
  show ?thesis
  proof (cases "sz > ARENA - HDR")
    case True
    with h1 show ?thesis by (simp add: malloc_def amalloc_def flip: h1_def)
  next
    case False
    let ?n = "round_size sz"
    note sim = malloc_loop_sim [OF t(1) round_size_props(1,2) [of sz]]
    show ?thesis
    proof (cases "fit ?n (blocks_of h) 0")
      case None
      with sim False h1 show ?thesis by (simp add: malloc_def amalloc_def flip: h1_def)
    next
      case (Some r)
      obtain q bs' where r: "r = (q, bs')" by fastforce
      with sim Some obtain m' where m': "malloc_loop ?n (Some 0) (h_blocks h1) = Some (Some q, m')" "tiles m' (Some 0) 0 bs'"
        by auto
      have "heap_wf (h1\<lparr>h_blocks := m'\<rparr>) \<and> blocks_of (h1\<lparr>h_blocks := m'\<rparr>) = bs'"
        using h1(3) m'(2) fit_coalesced [of ?n "blocks_of h" 0 q bs'] Some r t(2) by (intro heap_wfI) simp_all
      with False m' Some r h1 show ?thesis by (simp add: malloc_def amalloc_def flip: h1_def)
    qed
  qed
qed

lemma live_head: "heap_wf h \<Longrightarrow> (q, s) \<in> live h \<Longrightarrow> h_first h = Some 0"
  by (auto simp: heap_wf_def live_def blocks_of_def)

lemma free_refines:
  assumes "heap_wf h" "(q, s) \<in> live h"
  shows "\<exists>h'. free (Some q) h = Some h' \<and> heap_wf h' \<and> blocks_of h' = merge (release q (blocks_of h) 0) \<and>
    h_bytes h' = h_bytes h \<and> live h' = live h - {(q, s)}"
proof -
  have f: "h_first h = Some 0" by (rule live_head [OF assms])
  then have t: "tiles (h_blocks h) (Some 0) 0 (blocks_of h)" using assms(1) by (simp add: heap_wf_def)
  have l: "(q, s) \<in> live_from (blocks_of h) 0" using assms(2) by (simp add: live_def)
  obtain blk where b: "h_blocks h (q - HDR) = Some blk"
    "tiles ((h_blocks h)(q - HDR \<mapsto> blk\<lparr>b_available := True\<rparr>)) (Some 0) 0 (release q (blocks_of h) 0)"
    using tiles_release [OF t l] by blast
  obtain m' where m': "free_loop (Some 0) ((h_blocks h)(q - HDR \<mapsto> blk\<lparr>b_available := True\<rparr>)) = Some m'"
    "tiles m' (Some 0) 0 (merge (release q (blocks_of h) 0))" using free_loop_sim [OF b(2)] by blast
  have q: "\<not> q < HDR" using live_ge [OF l] by simp
  have "heap_wf (h\<lparr>h_blocks := m'\<rparr>) \<and> blocks_of (h\<lparr>h_blocks := m'\<rparr>) = merge (release q (blocks_of h) 0)"
    using f m'(2) by (intro heap_wfI coalesced_merge) simp_all
  with f b(1) m'(1) q live_release [OF l] show ?thesis
    by (simp add: free_def live_def live_merge del: fun_upd_apply)
qed

section \<open>The allocator interface\<close>

text \<open>
  What the callers (the stdio layer, the compiler and its collector) rely on. \<open>live\<close> are the pointers in
  use with the sizes of their blocks.
\<close>

locale allocator =
  fixes inv :: "'s \<Rightarrow> bool" and live :: "'s \<Rightarrow> (nat \<times> nat) set" and bytes :: "'s \<Rightarrow> nat \<Rightarrow> u8"
    and alloc :: "nat \<Rightarrow> 's \<Rightarrow> (nat option \<times> 's) option" and dealloc :: "nat option \<Rightarrow> 's \<Rightarrow> 's option"
    and limit :: nat
  assumes in_limit: "inv s \<Longrightarrow> (q, n) \<in> live s \<Longrightarrow> q + n \<le> limit"
    and apart: "inv s \<Longrightarrow> (q, n) \<in> live s \<Longrightarrow> (r, m) \<in> live s \<Longrightarrow> (q, n) = (r, m) \<or> q + n \<le> r \<or> r + m \<le> q"
    and alloc_ok: "inv s \<Longrightarrow> \<exists>r s'. alloc n s = Some (r, s') \<and> inv s' \<and> bytes s' = bytes s \<and>
      (case r of None \<Rightarrow> live s' = live s
       | Some q \<Rightarrow> \<exists>m \<ge> n. live s' = insert (q, m) (live s) \<and> (\<forall>u. (q, u) \<notin> live s))"
    and dealloc_ok: "inv s \<Longrightarrow> (q, n) \<in> live s \<Longrightarrow>
      \<exists>s'. dealloc (Some q) s = Some s' \<and> inv s' \<and> bytes s' = bytes s \<and> live s' = live s - {(q, n)}"
begin

lemma alloc_fresh:
  assumes "inv s" "alloc n s = Some (Some q, s')"
  shows "\<exists>m \<ge> n. live s' = insert (q, m) (live s) \<and> q + m \<le> limit \<and> inv s' \<and> bytes s' = bytes s \<and>
    (\<forall>(r, k) \<in> live s. q + m \<le> r \<or> r + k \<le> q)"
proof -
  from alloc_ok [OF assms(1), of n] assms(2) obtain m where m: "n \<le> m" "live s' = insert (q, m) (live s)"
    "\<forall>u. (q, u) \<notin> live s" "inv s'" "bytes s' = bytes s" by auto
  have "q + m \<le> r \<or> r + k \<le> q" if "(r, k) \<in> live s" for r k
    using apart [OF m(4), of q m r k] m(2,3) that by auto
  with m in_limit [OF m(4), of q m] show ?thesis by (intro exI [of _ m]) auto
qed

end

interpretation arena: allocator heap_wf live h_bytes malloc free ARENA
proof
  fix h q n assume wf: "heap_wf h" and l: "(q, n) \<in> live h"
  have t: "tiles (h_blocks h) (Some 0) 0 (blocks_of h)" using wf live_head [OF wf l] by (simp add: heap_wf_def)
  show "q + n \<le> ARENA" using live_in_arena [OF t] l by (simp add: live_def)
  show "\<exists>h'. free (Some q) h = Some h' \<and> heap_wf h' \<and> h_bytes h' = h_bytes h \<and> live h' = live h - {(q, n)}"
    using free_refines [OF wf l] by blast
  fix r m assume "(r, m) \<in> live h"
  with l live_apart [of q n "blocks_of h" 0 r m] show "(q, n) = (r, m) \<or> q + n \<le> r \<or> r + m \<le> q"
    by (auto simp: live_def)
next
  fix h n assume wf: "heap_wf h"
  obtain h' where h': "malloc n h = Some (fst (amalloc n (blocks_of h)), h')" "heap_wf h'"
    "blocks_of h' = snd (amalloc n (blocks_of h))" "h_bytes h' = h_bytes h"
    using malloc_refines [OF wf] by blast
  show "\<exists>r h'. malloc n h = Some (r, h') \<and> heap_wf h' \<and> h_bytes h' = h_bytes h \<and>
      (case r of None \<Rightarrow> live h' = live h
       | Some q \<Rightarrow> \<exists>m \<ge> n. live h' = insert (q, m) (live h) \<and> (\<forall>u. (q, u) \<notin> live h))"
  proof (cases "fst (amalloc n (blocks_of h))")
    case None
    with h' show ?thesis by (auto simp: amalloc_def live_def split: if_splits option.splits)
  next
    case (Some q)
    then have "fit (round_size n) (blocks_of h) 0 = Some (q, blocks_of h')"
      using h'(3) by (auto simp: amalloc_def split: if_splits option.splits)
    from fit_live [OF this] obtain m where "round_size n \<le> m" "live h' = insert (q, m) (live h)" "\<forall>u. (q, u) \<notin> live h"
      by (auto simp: live_def)
    with round_size_props(3) [of n] have "n \<le> m \<and> live h' = insert (q, m) (live h) \<and> (\<forall>u. (q, u) \<notin> live h)" by simp
    then show ?thesis using h'(1,2,4) Some by (intro exI [of _ "Some q"] exI [of _ h']) auto
  qed
qed

section \<open>Contents\<close>

lemma copy_bytes_spec:
  "s + n \<le> d \<or> d + n \<le> s \<Longrightarrow> copy_bytes f d s n x = (if d \<le> x \<and> x < d + n then f (s + (x - d)) else f x)"
proof (induction n arbitrary: f d s)
  case (Suc n)
  have "copy_bytes (f(d := f s)) (d + 1) (s + 1) n x =
      (if d + 1 \<le> x \<and> x < d + 1 + n then (f(d := f s)) (s + 1 + (x - (d + 1))) else (f(d := f s)) x)"
    using Suc.prems by (intro Suc.IH) auto
  moreover have "s + 1 + (x - (d + 1)) = s + (x - d)" if "d + 1 \<le> x" using that by simp
  ultimately show ?case using Suc.prems by (cases "x = d") auto
qed auto

lemma fill_bytes_spec: "fill_bytes f d c n x = (if d \<le> x \<and> x < d + n then c else f x)"
  by (induction n arbitrary: f d) auto

lemma blocks_of_bytes [simp]: "blocks_of (h\<lparr>h_bytes := f\<rparr>) = blocks_of h" "heap_wf (h\<lparr>h_bytes := f\<rparr>) = heap_wf h"
  "live (h\<lparr>h_bytes := f\<rparr>) = live h"
  by (simp_all add: blocks_of_def heap_wf_def live_def)

lemma live_header:
  assumes "heap_wf h" "(q, s) \<in> live h"
  shows "\<exists>blk. h_blocks h (q - HDR) = Some blk \<and> b_size blk = s" "HDR \<le> q"
proof -
  have l: "(q, s) \<in> live_from (blocks_of h) 0" using assms(2) by (simp add: live_def)
  have "tiles (h_blocks h) (Some 0) 0 (blocks_of h)" using assms live_head [OF assms] by (simp add: heap_wf_def)
  from tiles_release [OF this l] show "\<exists>blk. h_blocks h (q - HDR) = Some blk \<and> b_size blk = s" by blast
  show "HDR \<le> q" using live_ge [OF l] by simp
qed

section \<open>Properties\<close>

text \<open>C21: \<^verbatim>\<open>malloc\<close> always returns. On success it gives a 16-byte aligned block of at least the requested size
  inside the arena, apart from every block in use, and changes no contents; it fails only for a request
  larger than the arena or when every free block is smaller than the rounded request.\<close>

theorem malloc_correct:
  assumes "heap_wf h"
  shows "\<exists>r h'. malloc sz h = Some (r, h') \<and> heap_wf h' \<and> h_bytes h' = h_bytes h \<and>
    (case r of
       None \<Rightarrow> live h' = live h \<and> (sz > ARENA - HDR \<or> (\<forall>(s, v) \<in> set (blocks_of h). v \<longrightarrow> s < round_size sz))
     | Some q \<Rightarrow> 16 dvd q \<and> (\<exists>n \<ge> sz. live h' = insert (q, n) (live h) \<and> q + n \<le> ARENA \<and>
         (\<forall>(p, k) \<in> live h. q + n \<le> p \<or> p + k \<le> q)))"
proof -
  obtain h' where h': "malloc sz h = Some (fst (amalloc sz (blocks_of h)), h')" "heap_wf h'"
    "blocks_of h' = snd (amalloc sz (blocks_of h))" "h_bytes h' = h_bytes h"
    using malloc_refines [OF assms] by blast
  show ?thesis
  proof (cases "fst (amalloc sz (blocks_of h))")
    case None
    then have "blocks_of h' = blocks_of h" using h'(3) by (auto simp: amalloc_def split: if_splits option.splits)
    moreover have "sz > ARENA - HDR \<or> (\<forall>(s, v) \<in> set (blocks_of h). v \<longrightarrow> s < round_size sz)"
      using None fit_None [of "round_size sz" "blocks_of h" 0] by (auto simp: amalloc_def split: if_splits option.splits)
    ultimately show ?thesis using h' None by (simp add: live_def)
  next
    case (Some q)
    with h'(1) have m: "malloc sz h = Some (Some q, h')" by simp
    from arena.alloc_fresh [OF assms m] obtain n where n: "sz \<le> n" "live h' = insert (q, n) (live h)" "q + n \<le> ARENA"
      "\<forall>(p, k) \<in> live h. q + n \<le> p \<or> p + k \<le> q" by blast
    have l: "(q, n) \<in> live h'" using n(2) by simp
    have "tiles (h_blocks h') (Some 0) 0 (blocks_of h')" using h'(2) live_head [OF h'(2) l] by (simp add: heap_wf_def)
    from live_aligned [OF this _ l [unfolded live_def]] have "16 dvd q" by simp
    with m n h' show ?thesis by auto
  qed
qed

definition fresh_heap :: heap where
  "fresh_heap = \<lparr>h_first = None, h_blocks = (\<lambda>a. None), h_bytes = (\<lambda>a. 0)\<rparr>"

lemma fresh_heap_wf: "heap_wf fresh_heap" "live fresh_heap = {}" "blocks_of fresh_heap = [(ARENA - HDR, True)]"
  by (simp_all add: heap_wf_def live_def blocks_of_def fresh_heap_def)

lemma fresh_malloc: "malloc 100 fresh_heap = Some (Some 32, snd (the (malloc 100 fresh_heap)))"
  "heap_wf (snd (the (malloc 100 fresh_heap)))" "live (snd (the (malloc 100 fresh_heap))) = {(32, 112)}"
  using malloc_refines [OF fresh_heap_wf(1), of 100]
  by (auto simp: fresh_heap_wf amalloc_def round_size_def live_def)

theorem malloc_correct_witness:
  "\<exists>r h'. malloc 100 fresh_heap = Some (r, h') \<and> heap_wf h' \<and> h_bytes h' = h_bytes fresh_heap \<and>
    (case r of
       None \<Rightarrow> live h' = live fresh_heap \<and> (100 > ARENA - HDR \<or> (\<forall>(s, v) \<in> set (blocks_of fresh_heap). v \<longrightarrow> s < round_size 100))
     | Some q \<Rightarrow> 16 dvd q \<and> (\<exists>n \<ge> 100. live h' = insert (q, n) (live fresh_heap) \<and> q + n \<le> ARENA \<and>
         (\<forall>(p, k) \<in> live fresh_heap. q + n \<le> p \<or> p + k \<le> q)))"
  by (rule malloc_correct [OF fresh_heap_wf(1)])

text \<open>C22: \<^verbatim>\<open>free\<close> of a pointer in use returns, ends exactly that block, and leaves the free space fully
  coalesced: no two adjacent blocks are free afterwards, and when nothing is in use any more the
  arena is one free block again.\<close>

theorem free_correct:
  assumes "heap_wf h" "(q, s) \<in> live h"
  shows "\<exists>h'. free (Some q) h = Some h' \<and> heap_wf h' \<and> live h' = live h - {(q, s)} \<and> h_bytes h' = h_bytes h \<and>
    coalesced (blocks_of h') \<and> (live h' = {} \<longrightarrow> blocks_of h' = [(ARENA - HDR, True)])"
proof -
  obtain h' where h': "free (Some q) h = Some h'" "heap_wf h'" "blocks_of h' = merge (release q (blocks_of h) 0)"
    "h_bytes h' = h_bytes h" "live h' = live h - {(q, s)}" using free_refines [OF assms] by blast
  have c: "coalesced (blocks_of h')" using h'(3) coalesced_merge by simp
  have "blocks_of h' = [(ARENA - HDR, True)]" if e: "live h' = {}"
  proof (cases "h_first h' = None")
    case True
    then show ?thesis by (simp add: blocks_of_def)
  next
    case False
    then have t: "tiles (h_blocks h') (Some 0) 0 (blocks_of h')" using h'(2) by (auto simp: heap_wf_def)
    from all_free_single [OF c, of 0] e obtain k where "blocks_of h' = [(k, True)] \<or> blocks_of h' = []"
      by (auto simp: live_def)
    with tiles_end [OF t] show ?thesis by auto
  qed
  with h' c show ?thesis by auto
qed

theorem free_correct_witness:
  "\<exists>h'. free (Some 32) (snd (the (malloc 100 fresh_heap))) = Some h' \<and> blocks_of h' = [(ARENA - HDR, True)]"
proof -
  have "(32, 112) \<in> live (snd (the (malloc 100 fresh_heap)))" using fresh_malloc(3) by simp
  from free_correct [OF fresh_malloc(2) this] show ?thesis using fresh_malloc(3) by auto
qed

lemma realloc_spec:
  assumes wf: "heap_wf h" and l: "(q, s) \<in> live h" and sz: "0 < sz"
  shows "\<exists>r h'. realloc (Some q) sz h = Some (r, h') \<and> heap_wf h' \<and>
    (case r of None \<Rightarrow> live h' = live h \<and> h_bytes h' = h_bytes h
     | Some nw \<Rightarrow> \<exists>n \<ge> sz. live h' = insert (nw, n) (live h - {(q, s)}) \<and>
         (\<forall>i < min s n. h_bytes h' (nw + i) = h_bytes h (q + i)) \<and>
         (\<forall>(p, k) \<in> live h - {(q, s)}. \<forall>i < k. h_bytes h' (p + i) = h_bytes h (p + i)))"
proof -
  obtain blk where blk: "h_blocks h (q - HDR) = Some blk" "b_size blk = s" using live_header(1) [OF wf l] by blast
  have q: "\<not> q < HDR" using live_header(2) [OF wf l] by simp
  show ?thesis
  proof (cases "sz \<le> s")
    case True
    then have "realloc (Some q) sz h = Some (Some q, h)" using blk q sz by (simp add: realloc_def)
    with True wf l show ?thesis by (auto intro!: exI [of _ s])
  next
    case small: False
    obtain r h1 where a: "malloc sz h = Some (r, h1)" "heap_wf h1" "h_bytes h1 = h_bytes h" "r = None \<longrightarrow> live h1 = live h"
      using arena.alloc_ok [OF wf, of sz] by (auto split: option.splits)
    show ?thesis
    proof (cases r)
      case None
      then have "realloc (Some q) sz h = Some (None, h1)" using blk q sz small a by (simp add: realloc_def)
      with a None show ?thesis by simp
    next
      case (Some nw)
      from arena.alloc_fresh [OF wf a(1) [unfolded Some]] obtain n where n: "sz \<le> n" "live h1 = insert (nw, n) (live h)"
        "nw + n \<le> ARENA" "\<forall>(p, k) \<in> live h. nw + n \<le> p \<or> p + k \<le> nw" by blast
      have l1: "(q, s) \<in> live h1" using n(2) l by simp
      obtain b1 where b1: "h_blocks h1 (q - HDR) = Some b1" "b_size b1 = s" using live_header(1) [OF a(2) l1] by blast
      define h2 where "h2 = h1\<lparr>h_bytes := copy_bytes (h_bytes h1) nw q s\<rparr>"
      have h2: "heap_wf h2" "(q, s) \<in> live h2" using a(2) l1 by (simp_all add: h2_def)
      obtain h3 where h3: "free (Some q) h2 = Some h3" "heap_wf h3" "h_bytes h3 = h_bytes h2" "live h3 = live h2 - {(q, s)}"
        using arena.dealloc_ok [OF h2] by blast
      have qs: "nw + n \<le> q \<or> q + s \<le> nw" "q + s \<le> ARENA" using n(4) l arena.in_limit [OF wf l] by auto
      have r: "realloc (Some q) sz h = Some (Some nw, h3)"
        using blk q sz small a(1) Some b1 n(1,3) qs(2) h3(1) by (auto simp: realloc_def h2_def)
      have b3: "h_bytes h3 x = (if nw \<le> x \<and> x < nw + s then h_bytes h (q + (x - nw)) else h_bytes h x)" for x
        using qs(1) n(1) small a(3) by (auto simp: h3(3) h2_def copy_bytes_spec)
      have "h_bytes h3 (p + i) = h_bytes h (p + i)" if "(p, k) \<in> live h - {(q, s)}" "i < k" for p k i
        using n(4) that b3 n(1) small by fastforce
      moreover have "h_bytes h3 (nw + i) = h_bytes h (q + i)" if "i < min s n" for i using that b3 by simp
      moreover have "live h3 = insert (nw, n) (live h - {(q, s)})"
        using h3(4) n(2) qs(1) n(1) sz small by (auto simp: h2_def)
      ultimately have "\<exists>n \<ge> sz. live h3 = insert (nw, n) (live h - {(q, s)}) \<and>
         (\<forall>i < min s n. h_bytes h3 (nw + i) = h_bytes h (q + i)) \<and>
         (\<forall>(p, k) \<in> live h - {(q, s)}. \<forall>i < k. h_bytes h3 (p + i) = h_bytes h (p + i))"
        using n(1) by blast
      with r h3(2) show ?thesis by (intro exI [of _ "Some nw"] exI [of _ h3]) (simp only: option.case simp_thms)
    qed
  qed
qed

text \<open>C23: \<^verbatim>\<open>realloc\<close> of a pointer in use to a non-zero size returns; a failure leaves everything as it was, a
  success gives a block of at least the new size that starts with the old contents, and no other
  block's contents change.\<close>

theorem realloc_correct:
  assumes wf: "heap_wf h" and l: "(q, s) \<in> live h" and sz: "0 < sz"
  shows "\<exists>r h'. realloc (Some q) sz h = Some (r, h') \<and> heap_wf h' \<and>
    (case r of None \<Rightarrow> live h' = live h \<and> h_bytes h' = h_bytes h
     | Some nw \<Rightarrow> \<exists>n \<ge> sz. live h' = insert (nw, n) (live h - {(q, s)}) \<and>
         (\<forall>i < min s n. h_bytes h' (nw + i) = h_bytes h (q + i)) \<and>
         (\<forall>(p, k) \<in> live h - {(q, s)}. \<forall>i < k. h_bytes h' (p + i) = h_bytes h (p + i)))"
  using assms by (rule realloc_spec)

theorem realloc_correct_witness:
  "\<exists>r h'. realloc (Some 32) 500 (snd (the (malloc 100 fresh_heap))) = Some (r, h') \<and> heap_wf h'"
proof -
  have "(32, 112) \<in> live (snd (the (malloc 100 fresh_heap)))" using fresh_malloc(3) by simp
  from realloc_correct [OF fresh_malloc(2) this, of 500] show ?thesis by auto
qed

lemma calloc_spec:
  assumes wf: "heap_wf h"
  shows "\<exists>r h'. calloc count sz h = Some (r, h') \<and> heap_wf h' \<and> (count * sz > SIZE_MAX \<longrightarrow> r = None) \<and>
    (case r of None \<Rightarrow> live h' = live h \<and> h_bytes h' = h_bytes h
     | Some q \<Rightarrow> \<exists>n \<ge> count * sz. live h' = insert (q, n) (live h) \<and> (\<forall>i < count * sz. h_bytes h' (q + i) = 0) \<and>
         (\<forall>(p, k) \<in> live h. \<forall>i < k. h_bytes h' (p + i) = h_bytes h (p + i)))"
proof (cases "count \<noteq> 0 \<and> sz > SIZE_MAX div count")
  case True
  with wf show ?thesis by (simp add: calloc_def)
next
  case False
  have small: "\<not> count * sz > SIZE_MAX"
  proof (cases "count = 0")
    case c: False
    with False have "sz \<le> SIZE_MAX div count" by simp
    then have "count * sz \<le> count * (SIZE_MAX div count)" by (rule mult_le_mono2)
    also have "\<dots> \<le> SIZE_MAX" by (rule times_div_less_eq_dividend)
    finally show ?thesis by simp
  qed simp
  then have m: "count * sz mod 2 ^ 64 = count * sz" by simp
  obtain r h1 where a: "malloc (count * sz) h = Some (r, h1)" "heap_wf h1" "h_bytes h1 = h_bytes h" "r = None \<longrightarrow> live h1 = live h"
    using arena.alloc_ok [OF wf, of "count * sz"] by (auto split: option.splits)
  show ?thesis
  proof (cases r)
    case None
    then have "calloc count sz h = Some (None, h1)" using False a(1) unfolding calloc_def Let_def m by auto
    with a None show ?thesis by simp
  next
    case (Some q)
    from arena.alloc_fresh [OF wf a(1) [unfolded Some]] obtain n where n: "count * sz \<le> n" "live h1 = insert (q, n) (live h)"
      "q + n \<le> ARENA" "\<forall>(p, k) \<in> live h. q + n \<le> p \<or> p + k \<le> q" by blast
    let ?h = "h1\<lparr>h_bytes := fill_bytes (h_bytes h1) q 0 (count * sz)\<rparr>"
    have c: "calloc count sz h = Some (Some q, ?h)" using False a(1) Some n(1,3) unfolding calloc_def Let_def m by auto
    have "h_bytes ?h (p + i) = h_bytes h (p + i)" if "(p, k) \<in> live h" "i < k" for p k i
      using n(1,4) that a(3) by (fastforce simp: fill_bytes_spec)
    moreover have "live ?h = insert (q, n) (live h)" "\<forall>i < count * sz. h_bytes ?h (q + i) = 0"
      using n(2) by (simp_all add: fill_bytes_spec)
    ultimately have "\<exists>n \<ge> count * sz. live ?h = insert (q, n) (live h) \<and> (\<forall>i < count * sz. h_bytes ?h (q + i) = 0) \<and>
         (\<forall>(p, k) \<in> live h. \<forall>i < k. h_bytes ?h (p + i) = h_bytes h (p + i))"
      using n(1) by blast
    moreover have "heap_wf ?h" using a(2) by simp
    ultimately show ?thesis using c small
      by (intro exI [of _ "Some q"] exI [of _ ?h]) (simp only: option.case simp_thms)
  qed
qed

text \<open>C24: \<^verbatim>\<open>calloc\<close> refuses a product that overflows \<^verbatim>\<open>size_t\<close> and otherwise returns a block of at least
  \<^verbatim>\<open>count * size\<close> zero bytes, leaving the contents of every other block alone.\<close>

theorem calloc_correct:
  assumes wf: "heap_wf h"
  shows "\<exists>r h'. calloc count sz h = Some (r, h') \<and> heap_wf h' \<and> (count * sz > SIZE_MAX \<longrightarrow> r = None) \<and>
    (case r of None \<Rightarrow> live h' = live h \<and> h_bytes h' = h_bytes h
     | Some q \<Rightarrow> \<exists>n \<ge> count * sz. live h' = insert (q, n) (live h) \<and> (\<forall>i < count * sz. h_bytes h' (q + i) = 0) \<and>
         (\<forall>(p, k) \<in> live h. \<forall>i < k. h_bytes h' (p + i) = h_bytes h (p + i)))"
  using assms by (rule calloc_spec)

theorem calloc_correct_witness:
  "\<exists>h'. calloc 4294967296 4294967296 fresh_heap = Some (None, h') \<and> heap_wf h'"
  using calloc_correct [OF fresh_heap_wf(1), of 4294967296 4294967296] by auto

text \<open>The states a program reaches that frees only pointers it holds.\<close>

inductive heap_reach :: "heap \<Rightarrow> bool" where
  boot: "h_first h = None \<Longrightarrow> heap_reach h"
| reset: "heap_reach h \<Longrightarrow> heap_reach (ape_heap_reset h)"
| malloc: "heap_reach h \<Longrightarrow> malloc sz h = Some (r, h') \<Longrightarrow> heap_reach h'"
| calloc: "heap_reach h \<Longrightarrow> calloc count sz h = Some (r, h') \<Longrightarrow> heap_reach h'"
| realloc: "heap_reach h \<Longrightarrow> p = None \<or> (\<exists>q s. p = Some q \<and> (q, s) \<in> live h) \<Longrightarrow>
    realloc p sz h = Some (r, h') \<Longrightarrow> heap_reach h'"
| free: "heap_reach h \<Longrightarrow> (q, s) \<in> live h \<Longrightarrow> free (Some q) h = Some h' \<Longrightarrow> heap_reach h'"
| poke: "heap_reach h \<Longrightarrow> heap_reach (h\<lparr>h_bytes := f\<rparr>)"

lemma realloc_wf:
  assumes "heap_wf h" "p = None \<or> (\<exists>q s. p = Some q \<and> (q, s) \<in> live h)"
  shows "\<exists>r h'. realloc p sz h = Some (r, h') \<and> heap_wf h'"
proof (cases p)
  case None
  with assms(1) arena.alloc_ok [OF assms(1), of sz] show ?thesis
    by (auto simp: realloc_def free_def)
next
  case (Some q)
  with assms(2) obtain s where l: "(q, s) \<in> live h" by auto
  show ?thesis
  proof (cases "sz = 0")
    case True
    with arena.dealloc_ok [OF assms(1) l] Some show ?thesis by (auto simp: realloc_def)
  next
    case False
    with realloc_spec [OF assms(1) l, of sz] Some show ?thesis by auto
  qed
qed

lemma heap_reach_wf: "heap_reach h \<Longrightarrow> heap_wf h"
proof (induction rule: heap_reach.induct)
  case (boot h)
  then show ?case by (simp add: heap_wf_def)
next
  case (malloc h sz r h')
  with arena.alloc_ok [of h sz] show ?case by auto
next
  case (calloc h count sz r h')
  with calloc_spec [of h count sz] show ?case by auto
next
  case (realloc h p sz r h')
  with realloc_wf [of h p sz] show ?case by auto
next
  case (free h q s h')
  with arena.dealloc_ok [of h q s] show ?case by auto
qed (simp_all add: reset_heap)

text \<open>C20: the heap never breaks. In every state a program reaches by allocating, resizing, writing its
  blocks and freeing pointers it holds, the headers tile the arena, free space is coalesced, and the
  blocks in use are aligned, inside the arena and pairwise apart; and every further call returns.\<close>

theorem heap_reach_safe:
  assumes "heap_reach h"
  shows "heap_wf h \<and>
    (\<forall>(q, s) \<in> live h. 16 dvd q \<and> HDR \<le> q \<and> q + s \<le> ARENA \<and>
       (\<forall>(r, t) \<in> live h. (q, s) = (r, t) \<or> q + s \<le> r \<or> r + t \<le> q)) \<and>
    defined (malloc sz h) \<and> defined (calloc count sz h) \<and>
    (\<forall>(q, s) \<in> live h. defined (free (Some q) h) \<and> defined (realloc (Some q) sz h))"
proof -
  have wf: "heap_wf h" by (rule heap_reach_wf [OF assms])
  have "16 dvd q \<and> HDR \<le> q \<and> q + s \<le> ARENA" if l: "(q, s) \<in> live h" for q s
  proof -
    have "tiles (h_blocks h) (Some 0) 0 (blocks_of h)" using wf live_head [OF wf l] by (simp add: heap_wf_def)
    from live_aligned [OF this _ l [unfolded live_def]] arena.in_limit [OF wf l] live_header(2) [OF wf l]
    show ?thesis by simp
  qed
  moreover have "(q, s) = (r, t) \<or> q + s \<le> r \<or> r + t \<le> q" if "(q, s) \<in> live h" "(r, t) \<in> live h" for q s r t
    by (rule arena.apart [OF wf that])
  moreover have "defined (malloc sz h)" "defined (calloc count sz h)"
    using arena.alloc_ok [OF wf, of sz] calloc_spec [OF wf, of count sz] by auto
  moreover have "defined (free (Some q) h) \<and> defined (realloc (Some q) sz h)" if l: "(q, s) \<in> live h" for q s
  proof -
    have "\<exists>h'. free (Some q) h = Some h'" using arena.dealloc_ok [OF wf l] by blast
    moreover have "\<exists>r h'. realloc (Some q) sz h = Some (r, h')" using realloc_wf [OF wf, of "Some q" sz] l by blast
    ultimately show ?thesis by auto
  qed
  ultimately show ?thesis using wf by blast
qed

theorem heap_reach_safe_witness:
  "heap_wf (snd (the (malloc 100 fresh_heap))) \<and> defined (free (Some 32) (snd (the (malloc 100 fresh_heap))))"
proof -
  have "heap_reach fresh_heap" by (rule heap_reach.boot) (simp add: fresh_heap_def)
  from heap_reach.malloc [OF this fresh_malloc(1)] have "heap_reach (snd (the (malloc 100 fresh_heap)))" .
  from heap_reach_safe [OF this] fresh_malloc(3) show ?thesis by auto
qed

end
