(* ===== verification/Scheduler.thy ===== *)
theory Scheduler
  imports Kernel_Prelude
begin

text \<open>
  The cooperative scheduler of \<^verbatim>\<open>src/jordyOS/kernel.c\<close> and the context switch of
  \<^verbatim>\<open>src/jordyOS/ctx_switch.asm\<close>. Stacks are words of an explicit store at byte addresses that are
  multiples of eight; a store or load outside the store is \<open>None\<close>. The network poll at the head of
  \<^verbatim>\<open>yield\<close> is an argument, acting on the device part of the state only.
\<close>

section \<open>State\<close>

abbreviation (input) MAX_TASKS :: nat where "MAX_TASKS \<equiv> 6"

record task_t =
  t_sp :: "nat option" \<comment> \<open>\<open>None\<close> is \<^verbatim>\<open>NULL\<close>\<close>
  t_entry :: "nat option"

text \<open>\<open>m_regs\<close> are rbp, rbx, r12, r13, r14, r15; at a call of \<^verbatim>\<open>ctx_switch\<close> \<open>m_rsp\<close> is at the return address.\<close>

record 'd machine =
  m_tasks :: "task_t list"
  m_cur :: int
  m_mem :: "nat \<Rightarrow> nat option"
  m_regs :: "nat list"
  m_rsp :: nat
  m_dev :: 'd

type_synonym mem = "nat \<Rightarrow> nat option"

definition store :: "mem \<Rightarrow> nat \<Rightarrow> nat \<Rightarrow> mem option" where
  "store m a v = (case m a of None \<Rightarrow> None | Some _ \<Rightarrow> Some (m(a \<mapsto> v)))"

text \<open>\<open>push_words m sp vs\<close> pushes \<open>vs\<close> one by one; the last is at the lowest address.\<close>

primrec push_words :: "mem \<Rightarrow> nat \<Rightarrow> nat list \<Rightarrow> (mem \<times> nat) option" where
  "push_words m sp [] = Some (m, sp)"
| "push_words m sp (v # vs) =
     (if sp < 8 then None else do { m \<leftarrow> store m (sp - 8) v; push_words m (sp - 8) vs })"

primrec pop_words :: "mem \<Rightarrow> nat \<Rightarrow> nat \<Rightarrow> (nat list \<times> nat) option" where
  "pop_words m sp 0 = Some ([], sp)"
| "pop_words m sp (Suc k) = do { v \<leftarrow> m sp; (vs, sp) \<leftarrow> pop_words m (sp + 8) k; Some (v # vs, sp) }"

section \<open>Context switch\<close>

datatype save_slot = Slot nat | Local

definition save_sp :: "save_slot \<Rightarrow> nat \<Rightarrow> task_t list \<Rightarrow> task_t list option" where
  "save_sp o_slot sp ts = (case o_slot of Local \<Rightarrow> Some ts
     | Slot p \<Rightarrow> do { t \<leftarrow> rd ts p; wr ts p (t\<lparr>t_sp := Some sp\<rparr>) })"

text \<open>The result carries the address the final \<^verbatim>\<open>ret\<close> jumps to.\<close>

definition ctx_switch :: "save_slot \<Rightarrow> nat \<Rightarrow> 'd machine \<Rightarrow> ('d machine \<times> nat) option" where
  "ctx_switch o_slot new_sp st = do {
     (m, sp) \<leftarrow> push_words (m_mem st) (m_rsp st) (m_regs st);
     ts \<leftarrow> save_sp o_slot sp (m_tasks st);
     (regs, sp) \<leftarrow> pop_words m new_sp 6;
     rip \<leftarrow> m sp;
     Some (st\<lparr>m_mem := m, m_tasks := ts, m_regs := rev regs, m_rsp := sp + 8\<rparr>, rip) }"

section \<open>Yield\<close>

function next_loop :: "task_t list \<Rightarrow> nat \<Rightarrow> nat \<Rightarrow> nat option" where
  "next_loop ts p n =
     (if p < MAX_TASKS \<and> n < MAX_TASKS then do {
        t \<leftarrow> rd ts n;
        if t_sp t = None \<and> n \<noteq> p then next_loop ts p ((n + 1) mod MAX_TASKS) else Some n }
      else None)"
  by pat_completeness auto
termination
  by (relation "measure (\<lambda>(ts, p, n). (p + MAX_TASKS - n) mod MAX_TASKS)") (auto simp: mod_if split: if_splits)

declare next_loop.simps [simp del]

text \<open>\<open>Some None\<close>: no switch, \<^verbatim>\<open>yield\<close> returns; \<open>Some (Some n)\<close>: switch to \<open>n\<close>.\<close>

definition pick_next :: "task_t list \<Rightarrow> nat \<Rightarrow> nat option option" where
  "pick_next ts p = do {
     n \<leftarrow> next_loop ts p ((p + 1) mod MAX_TASKS);
     t \<leftarrow> rd ts n;
     Some (if t_sp t = None \<or> n = p then None else Some n) }"

text \<open>The second component is the address where execution goes on after a switch, \<open>None\<close> when \<^verbatim>\<open>yield\<close> returned.\<close>

definition yield :: "('d \<Rightarrow> 'd) \<Rightarrow> 'd machine \<Rightarrow> ('d machine \<times> nat option) option" where
  "yield rtl_poll st0 =
     (let st = st0\<lparr>m_dev := rtl_poll (m_dev st0)\<rparr> in
      if m_cur st = -1 then Some (st, None)
      else let p = nat (m_cur st) in do {
        pick \<leftarrow> pick_next (m_tasks st) p;
        (case pick of None \<Rightarrow> Some (st, None)
         | Some n \<Rightarrow> do {
             t \<leftarrow> rd (m_tasks st) p;
             u \<leftarrow> rd (m_tasks st) n;
             sp \<leftarrow> t_sp u;
             (st', rip) \<leftarrow> ctx_switch (if t_sp t = None then Local else Slot p) sp (st\<lparr>m_cur := int n\<rparr>);
             Some (st', Some rip) }) })"

section \<open>Creating and ending tasks\<close>

function free_slot :: "(task_t \<Rightarrow> bool) \<Rightarrow> task_t list \<Rightarrow> nat \<Rightarrow> int option" where
  "free_slot ok ts i =
     (if i < MAX_TASKS then do { t \<leftarrow> rd ts i; if ok t then Some (int i) else free_slot ok ts (i + 1) }
      else Some (-1))"
  by pat_completeness auto
termination
  by (relation "measure (\<lambda>(ok, ts, i). MAX_TASKS - i)") auto

declare free_slot.simps [simp del]

text \<open>The boolean is false when \<^verbatim>\<open>E:MAX_TASKS\<close> is printed; \<open>bootstrap\<close> is the address of \<^verbatim>\<open>task_bootstrap\<close>.\<close>

definition task_create :: "nat \<Rightarrow> nat \<Rightarrow> nat \<Rightarrow> nat \<Rightarrow> 'd machine \<Rightarrow> ('d machine \<times> bool) option" where
  "task_create bootstrap fn s_bot s_sz st = do {
     si \<leftarrow> free_slot (\<lambda>t. t_sp t = None \<and> (t_entry t = None \<or> t_entry t = Some fn)) (m_tasks st) 0;
     si \<leftarrow> (if si = -1 then free_slot (\<lambda>t. t_sp t = None) (m_tasks st) 0 else Some si);
     if si \<noteq> -1 then do {
       (m, sp) \<leftarrow> push_words (m_mem st) (s_bot + s_sz) [0, bootstrap, 0, 0, 0, 0, 0, 0];
       t \<leftarrow> rd (m_tasks st) (nat si);
       ts \<leftarrow> wr (m_tasks st) (nat si) (t\<lparr>t_sp := Some sp, t_entry := Some fn\<rparr>);
       Some (st\<lparr>m_mem := m, m_tasks := ts\<rparr>, True) }
     else Some (st, False) }"

text \<open>\<^verbatim>\<open>sys_exit_task\<close>: a result without an address is the halt after \<^verbatim>\<open>Exited task resumed\<close>.\<close>

definition sys_exit_task :: "('d \<Rightarrow> 'd) \<Rightarrow> 'd machine \<Rightarrow> ('d machine \<times> nat option) option" where
  "sys_exit_task rtl_poll st = do {
     st \<leftarrow> (if m_cur st \<noteq> -1 then do {
         t \<leftarrow> rd (m_tasks st) (nat (m_cur st));
         ts \<leftarrow> wr (m_tasks st) (nat (m_cur st)) (t\<lparr>t_sp := None\<rparr>);
         Some (st\<lparr>m_tasks := ts\<rparr>) }
       else Some st);
     yield rtl_poll st }"

text \<open>The part of \<^verbatim>\<open>kmain\<close> that starts the first task; \<open>None\<close> inside is the halt for lack of a task.\<close>

definition start_first :: "'d machine \<Rightarrow> ('d machine \<times> nat) option option" where
  "start_first st = do {
     c \<leftarrow> free_slot (\<lambda>t. t_sp t \<noteq> None) (m_tasks st) 0;
     if c = -1 then Some None
     else do {
       t \<leftarrow> rd (m_tasks st) (nat c); sp \<leftarrow> t_sp t;
       r \<leftarrow> ctx_switch Local sp (st\<lparr>m_cur := c\<rparr>); Some (Some r) } }"

text \<open>The wait of the shell: is a task other than the current one alive?\<close>

definition foreground :: "'d machine \<Rightarrow> bool" where
  "foreground st \<longleftrightarrow> (\<exists>i < MAX_TASKS. int i \<noteq> m_cur st \<and> (case rd (m_tasks st) i of Some t \<Rightarrow> t_sp t \<noteq> None | None \<Rightarrow> False))"

section \<open>Stacks\<close>

lemma store_Some: "store m a v = Some m' \<longleftrightarrow> m a \<noteq> None \<and> m' = m(a \<mapsto> v)"
  by (auto simp: store_def split: option.splits)

lemma push_words_spec:
  assumes "push_words m sp vs = Some (m', sp')"
  shows "sp' + 8 * length vs = sp \<and> (\<forall>k < length vs. m' (sp' + 8 * k) = Some (rev vs ! k)) \<and>
    (\<forall>a. a < sp' \<or> sp \<le> a \<longrightarrow> m' a = m a) \<and> dom m' = dom m"
  using assms
proof (induction vs arbitrary: m sp)
  case (Cons v vs)
  from Cons.prems have a: "8 \<le> sp" "m (sp - 8) \<noteq> None" "push_words (m(sp - 8 \<mapsto> v)) (sp - 8) vs = Some (m', sp')"
    by (simp_all add: store_def split: if_splits option.splits)
  note IH = Cons.IH [OF a(3)]
  have top: "m' (sp - 8) = Some v" "sp' + 8 * length vs = sp - 8" using IH by auto
  have "m' (sp' + 8 * k) = Some (rev (v # vs) ! k)" if "k < length (v # vs)" for k
    using that IH top by (cases "k = length vs") (auto simp: nth_append)
  moreover have "m' b = m b" if "b < sp' \<or> sp \<le> b" for b
    using that IH a(1) by auto
  moreover have "dom m' = dom m" using IH a(2) by (auto split: if_splits)
  ultimately show ?case using top a(1) by auto
qed simp

lemma push_words_defined:
  assumes "8 * length vs \<le> sp" "\<And>k. k < length vs \<Longrightarrow> m (sp - 8 * (k + 1)) \<noteq> None"
  shows "\<exists>m'. push_words m sp vs = Some (m', sp - 8 * length vs)"
  using assms
proof (induction vs arbitrary: m sp)
  case (Cons v vs)
  have "m (sp - 8) \<noteq> None" using Cons.prems(2) [of 0] by simp
  moreover have "\<exists>m'. push_words (m(sp - 8 \<mapsto> v)) (sp - 8) vs = Some (m', (sp - 8) - 8 * length vs)"
  proof (rule Cons.IH)
    show "8 * length vs \<le> sp - 8" using Cons.prems(1) by simp
    fix k assume "k < length vs"
    then show "(m(sp - 8 \<mapsto> v)) (sp - 8 - 8 * (k + 1)) \<noteq> None"
      using Cons.prems(2) [of "k + 1"] by (simp add: diff_diff_eq)
  qed
  ultimately show ?case using Cons.prems(1) by (auto simp: store_def diff_diff_eq)
qed simp

lemma pop_words_spec:
  "(\<And>k. k < length vs \<Longrightarrow> m (sp + 8 * k) = Some (vs ! k)) \<Longrightarrow>
   pop_words m sp (length vs) = Some (vs, sp + 8 * length vs)"
proof (induction vs arbitrary: sp)
  case (Cons v vs)
  have "m sp = Some v" using Cons.prems [of 0] by simp
  moreover have "pop_words m (sp + 8) (length vs) = Some (vs, sp + 8 + 8 * length vs)"
    using Cons.prems [of "Suc k" for k] by (intro Cons.IH) (fastforce simp: add.assoc)
  ultimately show ?case by simp
qed simp

text \<open>Switching to a stack on which six registers and a return address lie in place.\<close>

lemma ctx_switch_to_frame:
  assumes push: "push_words (m_mem st) (m_rsp st) (m_regs st) = Some (m, sp)"
    and save: "save_sp o_slot sp (m_tasks st) = Some ts"
    and frame: "\<And>k. k < 6 \<Longrightarrow> m_mem st (new_sp + 8 * k) = Some (rev regs ! k)" "m_mem st (new_sp + 48) = Some rip"
      "length regs = 6"
    and apart: "new_sp + 56 \<le> m_rsp st - 8 * length (m_regs st) \<or> m_rsp st \<le> new_sp"
  shows "ctx_switch o_slot new_sp st = Some (st\<lparr>m_mem := m, m_tasks := ts, m_regs := regs, m_rsp := new_sp + 56\<rparr>, rip)"
proof -
  note ps = push_words_spec [OF push]
  have same: "m a = m_mem st a" if "new_sp \<le> a" "a \<le> new_sp + 48" for a
  proof -
    have "sp = m_rsp st - 8 * length (m_regs st)" using ps by linarith
    then have "a < sp \<or> m_rsp st \<le> a" using apart that by linarith
    with ps show ?thesis by blast
  qed
  have "pop_words m new_sp (length (rev regs)) = Some (rev regs, new_sp + 8 * length (rev regs))"
    using frame same by (intro pop_words_spec) simp
  then have "pop_words m new_sp 6 = Some (rev regs, new_sp + 48)" using frame(3) by simp
  moreover have "m (new_sp + 48) = Some rip" using same frame(2) by simp
  ultimately show ?thesis using push save by (simp add: ctx_switch_def add.commute)
qed

section \<open>Round robin\<close>

definition ready :: "task_t list \<Rightarrow> nat \<Rightarrow> bool" where
  "ready ts i \<longleftrightarrow> t_sp (ts ! i) \<noteq> None"

text \<open>The reference: the first ready slot after \<open>p\<close> in cyclic order.\<close>

definition next_ready :: "task_t list \<Rightarrow> nat \<Rightarrow> nat option" where
  "next_ready ts p = find (ready ts) (map (\<lambda>d. (p + d) mod MAX_TASKS) [1..<MAX_TASKS])"

lemma turn_eq: "p < MAX_TASKS \<Longrightarrow> d \<le> MAX_TASKS \<Longrightarrow> (p + d) mod MAX_TASKS = (if p + d < MAX_TASKS then p + d else p + d - MAX_TASKS)"
  by (simp add: mod_if)

lemma turn_ne: "p < MAX_TASKS \<Longrightarrow> 1 \<le> d \<Longrightarrow> d < MAX_TASKS \<Longrightarrow> (p + d) mod MAX_TASKS \<noteq> p"
  by (auto simp: turn_eq)

lemma next_loop_step:
  "length ts = MAX_TASKS \<Longrightarrow> p < MAX_TASKS \<Longrightarrow> n < MAX_TASKS \<Longrightarrow>
   next_loop ts p n = (if ready ts n \<or> n = p then Some n else next_loop ts p ((n + 1) mod MAX_TASKS))"
  by (subst next_loop.simps) (simp add: rd_def ready_def)

lemma next_loop_reference:
  assumes "length ts = MAX_TASKS" "p < MAX_TASKS" "1 \<le> d" "d \<le> MAX_TASKS"
  shows "next_loop ts p ((p + d) mod MAX_TASKS) =
    Some (case find (ready ts) (map (\<lambda>d. (p + d) mod MAX_TASKS) [d..<MAX_TASKS]) of None \<Rightarrow> p | Some n \<Rightarrow> n)"
  using assms(3,4)
proof (induction "MAX_TASKS - d" arbitrary: d)
  case 0
  then have "d = MAX_TASKS" by simp
  with assms(1,2) show ?case by (subst next_loop_step) simp_all
next
  case (Suc k)
  then have d: "d < MAX_TASKS" "k = MAX_TASKS - (d + 1)" by simp_all
  have t: "((p + d) mod MAX_TASKS + 1) mod MAX_TASKS = (p + (d + 1)) mod MAX_TASKS" by (simp add: mod_simps)
  have u: "[d..<MAX_TASKS] = d # [d + 1..<MAX_TASKS]" using d(1) by (simp add: upt_conv_Cons)
  have "next_loop ts p ((p + d) mod MAX_TASKS) =
      (if ready ts ((p + d) mod MAX_TASKS) then Some ((p + d) mod MAX_TASKS) else next_loop ts p ((p + (d + 1)) mod MAX_TASKS))"
    using next_loop_step [OF assms(1,2), of "(p + d) mod MAX_TASKS"] turn_ne [OF assms(2) Suc.prems(1) d(1)] t by simp
  with Suc.hyps(1) [OF d(2)] d(1) show ?case by (simp add: u)
qed

lemma next_ready_SomeE:
  assumes "next_ready ts p = Some n"
  obtains d where "1 \<le> d" "d < MAX_TASKS" "n = (p + d) mod MAX_TASKS" "ready ts n"
    "\<And>e. 1 \<le> e \<Longrightarrow> e < d \<Longrightarrow> \<not> ready ts ((p + e) mod MAX_TASKS)"
proof -
  from assms obtain i where i: "i < 5" "ready ts ((p + (i + 1)) mod MAX_TASKS)" "n = (p + (i + 1)) mod MAX_TASKS"
    "\<forall>j < i. \<not> ready ts ((p + (j + 1)) mod MAX_TASKS)"
    by (auto simp: next_ready_def find_Some_iff)
  have "\<not> ready ts ((p + e) mod MAX_TASKS)" if "1 \<le> e" "e < i + 1" for e
    using i(4) that by (metis Suc_eq_plus1 Suc_le_D One_nat_def less_Suc_eq_le Suc_le_mono less_eq_Suc_le)
  with i show thesis by (intro that [of "i + 1"]) auto
qed

lemma pick_next_reference:
  assumes "length ts = MAX_TASKS" "p < MAX_TASKS"
  shows "pick_next ts p = Some (next_ready ts p)"
proof (cases "next_ready ts p")
  case None
  with next_loop_reference [OF assms, of 1] assms show ?thesis
    by (simp add: pick_next_def next_ready_def rd_def)
next
  case (Some n)
  then obtain d where "1 \<le> d" "d < MAX_TASKS" "n = (p + d) mod MAX_TASKS" "ready ts n"
    by (rule next_ready_SomeE)
  with turn_ne [OF assms(2)] Some next_loop_reference [OF assms, of 1] assms show ?thesis
    by (auto simp: pick_next_def next_ready_def rd_def ready_def)
qed

text \<open>How many slots ahead of \<open>p\<close> slot \<open>k\<close> is, counting a full turn for \<open>p\<close> itself.\<close>

definition ahead :: "nat \<Rightarrow> nat \<Rightarrow> nat" where
  "ahead p k = (if p < k then k - p else k + MAX_TASKS - p)"

lemma ahead_bounds: "p < MAX_TASKS \<Longrightarrow> k < MAX_TASKS \<Longrightarrow> 1 \<le> ahead p k \<and> ahead p k \<le> MAX_TASKS"
  by (auto simp: ahead_def)

lemma ahead_eq: "p < MAX_TASKS \<Longrightarrow> k < MAX_TASKS \<Longrightarrow> k = (p + ahead p k) mod MAX_TASKS"
  using ahead_bounds [of p k] by (auto simp: turn_eq ahead_def)

lemma ahead_less:
  assumes "p < MAX_TASKS" "k < MAX_TASKS" "1 \<le> d" "d < ahead p k"
  shows "ahead ((p + d) mod MAX_TASKS) k < ahead p k"
proof -
  have "d \<le> MAX_TASKS" using assms ahead_bounds [of p k] by linarith
  with assms show ?thesis unfolding turn_eq [OF assms(1) \<open>d \<le> MAX_TASKS\<close>]
    by (auto simp: ahead_def split: if_splits)
qed

lemma next_ready_progress:
  assumes "p < MAX_TASKS" "k < MAX_TASKS" "ready ts k" "k \<noteq> p"
  shows "\<exists>n. next_ready ts p = Some n \<and> n < MAX_TASKS \<and> (n = k \<or> ahead n k < ahead p k)"
proof -
  have lt: "ahead p k < MAX_TASKS" using assms(1,2,4) by (auto simp: ahead_def)
  note b = ahead_bounds [OF assms(1,2)]
  obtain n where n: "next_ready ts p = Some n"
  proof (cases "next_ready ts p")
    case None
    then have "\<not> ready ts ((p + ahead p k) mod MAX_TASKS)"
      using b lt by (auto simp: next_ready_def find_None_iff)
    with assms(3) ahead_eq [OF assms(1,2)] show thesis by simp
  qed
  then obtain d where d: "1 \<le> d" "n = (p + d) mod MAX_TASKS"
    "\<And>e. 1 \<le> e \<Longrightarrow> e < d \<Longrightarrow> \<not> ready ts ((p + e) mod MAX_TASKS)"
    by (metis next_ready_SomeE)
  then have "\<not> ahead p k < d" using b ahead_eq [OF assms(1,2)] assms(3) by metis
  then have "d = ahead p k \<or> d < ahead p k" by linarith
  with n d(2) show ?thesis
    using ahead_eq [OF assms(1,2)] ahead_less [OF assms(1,2) d(1)] by auto
qed

section \<open>What a yield does\<close>

definition sched_wf :: "'d machine \<Rightarrow> bool" where
  "sched_wf st \<longleftrightarrow> length (m_tasks st) = MAX_TASKS \<and> -1 \<le> m_cur st \<and> m_cur st < int MAX_TASKS \<and> length (m_regs st) = 6"

lemma pop_words_length: "pop_words m sp k = Some (vs, sp') \<Longrightarrow> length vs = k \<and> sp' = sp + 8 * k"
  by (induction k arbitrary: sp vs) (fastforce simp: Option.bind_eq_Some_conv)+

lemma ctx_switch_tasks:
  assumes "ctx_switch o_slot new_sp st = Some (st', rip)"
  shows "save_sp o_slot (m_rsp st - 8 * length (m_regs st)) (m_tasks st) = Some (m_tasks st')"
    "m_cur st' = m_cur st" "m_dev st' = m_dev st" "length (m_regs st') = 6" "m_rsp st' = new_sp + 56"
proof -
  from assms obtain m sp regs sp2 where r: "push_words (m_mem st) (m_rsp st) (m_regs st) = Some (m, sp)"
    "save_sp o_slot sp (m_tasks st) = Some (m_tasks st')" "pop_words m new_sp 6 = Some (regs, sp2)"
    "st' = st\<lparr>m_mem := m, m_tasks := m_tasks st', m_regs := rev regs, m_rsp := sp2 + 8\<rparr>"
    by (auto simp: ctx_switch_def Option.bind_eq_Some_conv)
  have "sp + 8 * length (m_regs st) = m_rsp st" using push_words_spec [OF r(1)] by blast
  then have "sp = m_rsp st - 8 * length (m_regs st)" by simp
  with r(2) show "save_sp o_slot (m_rsp st - 8 * length (m_regs st)) (m_tasks st) = Some (m_tasks st')" by simp
  show "m_cur st' = m_cur st" "m_dev st' = m_dev st" by (subst r(4), simp)+
  show "length (m_regs st') = 6" "m_rsp st' = new_sp + 56"
    using pop_words_length [OF r(3)] by (subst r(4), simp)+
qed

text \<open>
  After a yield: the same slots are ready, and the current task is the next ready one, or unchanged
  when there is none.
\<close>

lemma yield_effect:
  assumes "sched_wf st" "m_cur st \<noteq> -1" "yield poll st = Some (st', r)"
  shows "sched_wf st' \<and> (\<forall>i < MAX_TASKS. ready (m_tasks st') i = ready (m_tasks st) i) \<and>
    m_cur st' = (case next_ready (m_tasks st) (nat (m_cur st)) of None \<Rightarrow> m_cur st | Some n \<Rightarrow> int n) \<and>
    (r = None \<longleftrightarrow> next_ready (m_tasks st) (nat (m_cur st)) = None)"
proof -
  let ?p = "nat (m_cur st)"
  have p: "?p < MAX_TASKS" "length (m_tasks st) = MAX_TASKS" "length (m_regs st) = 6"
    using assms(1,2) by (auto simp: sched_wf_def)
  note pick = pick_next_reference [OF p(2,1)]
  show ?thesis
  proof (cases "next_ready (m_tasks st) ?p")
    case None
    with assms pick show ?thesis by (auto simp: yield_def Let_def sched_wf_def)
  next
    case (Some n)
    have n: "n < MAX_TASKS" by (rule next_ready_SomeE [OF Some]) simp
    define s1 where "s1 = st\<lparr>m_dev := poll (m_dev st), m_cur := int n\<rparr>"
    from assms(2,3) pick Some obtain sp rip where c:
      "ctx_switch (if t_sp (m_tasks st ! ?p) = None then Local else Slot ?p) sp s1 = Some (st', rip)" "r = Some rip"
      by (auto simp: yield_def Let_def Option.bind_eq_Some_conv s1_def)
    note t = ctx_switch_tasks [OF c(1)]
    have s1: "m_tasks s1 = m_tasks st" "m_cur s1 = int n" by (simp_all add: s1_def)
    have "length (m_tasks st') = MAX_TASKS \<and> (\<forall>i < MAX_TASKS. ready (m_tasks st') i = ready (m_tasks st) i)"
    proof (cases "t_sp (m_tasks st ! ?p) = None")
      case True
      with t(1) s1 p show ?thesis by (simp add: save_sp_def)
    next
      case False
      with t(1) s1 p have "m_tasks st' = (m_tasks st)[?p := (m_tasks st ! ?p)\<lparr>t_sp := Some (m_rsp s1 - 8 * length (m_regs s1))\<rparr>]"
        by (auto simp: save_sp_def Option.bind_eq_Some_conv)
      with False p show ?thesis by (auto simp: ready_def nth_list_update)
    qed
    with t s1 n Some c(2) show ?thesis by (simp add: sched_wf_def)
  qed
qed

lemma turns_reach:
  assumes "\<And>j. \<exists>mid r. m_tasks mid = m_tasks (st j) \<and> m_cur mid = m_cur (st j) \<and> length (m_regs mid) = 6 \<and>
      yield poll mid = Some (st (Suc j), r)"
    and "sched_wf (st i)" "m_cur (st i) \<noteq> -1" "k < MAX_TASKS" "ready (m_tasks (st i)) k"
  shows "\<exists>j \<le> ahead (nat (m_cur (st i))) k. 1 \<le> j \<and> m_cur (st (i + j)) = int k"
  using assms(2-)
proof (induction "ahead (nat (m_cur (st i))) k" arbitrary: i rule: less_induct)
  case less
  let ?p = "nat (m_cur (st i))"
  have p: "?p < MAX_TASKS" "int ?p = m_cur (st i)" using less.prems(1,2) by (auto simp: sched_wf_def)
  obtain mid r where mid: "m_tasks mid = m_tasks (st i)" "m_cur mid = m_cur (st i)" "length (m_regs mid) = 6"
    "yield poll mid = Some (st (Suc i), r)" using assms(1) by blast
  have "sched_wf mid" "m_cur mid \<noteq> -1" using less.prems mid by (simp_all add: sched_wf_def)
  note y = yield_effect [OF this mid(4), unfolded mid(1,2)]
  show ?case
  proof (cases "next_ready (m_tasks (st i)) ?p")
    case None
    then have "k = ?p" using next_ready_progress [OF p(1) less.prems(3,4)] by auto
    with None y p ahead_bounds [OF p(1) less.prems(3)] show ?thesis by (intro exI [of _ 1]) simp
  next
    case (Some n)
    then have cn: "m_cur (st (Suc i)) = int n" using y by simp
    obtain d where d: "1 \<le> d" "d < MAX_TASKS" "n = (?p + d) mod MAX_TASKS" "ready (m_tasks (st i)) n"
      "\<And>e. 1 \<le> e \<Longrightarrow> e < d \<Longrightarrow> \<not> ready (m_tasks (st i)) ((?p + e) mod MAX_TASKS)"
      using next_ready_SomeE [OF Some] by metis
    show ?thesis
    proof (cases "n = k")
      case True
      with cn ahead_bounds [OF p(1) less.prems(3)] show ?thesis by (intro exI [of _ 1]) simp
    next
      case False
      have "d < ahead ?p k"
        using d(5) [of "ahead ?p k"] ahead_eq [OF p(1) less.prems(3)] ahead_bounds [OF p(1) less.prems(3)]
          less.prems(4) d(3) False by (metis linorder_neqE_nat)
      then have lt: "ahead n k < ahead ?p k" using ahead_less [OF p(1) less.prems(3) d(1)] d(3) by simp
      have n: "n < MAX_TASKS" using d(3) by simp
      from less.hyps [of "Suc i"] lt cn y n less.prems(3,4) obtain j where
        "j \<le> ahead n k" "1 \<le> j" "m_cur (st (Suc i + j)) = int k" by auto
      with lt show ?thesis by (intro exI [of _ "Suc j"]) auto
    qed
  qed
qed

text \<open>C19: fair round robin. Whatever the tasks do between their yields, as long as none is created or
  exits, each ready task gets the processor within six yields of any moment.\<close>

theorem yield_fair:
  assumes "\<And>j. \<exists>mid r. m_tasks mid = m_tasks (st j) \<and> m_cur mid = m_cur (st j) \<and> length (m_regs mid) = 6 \<and>
      yield poll mid = Some (st (Suc j), r)"
    and "sched_wf (st i)" "m_cur (st i) \<noteq> -1" "k < MAX_TASKS" "ready (m_tasks (st i)) k"
  shows "\<exists>j. 1 \<le> j \<and> j \<le> MAX_TASKS \<and> m_cur (st (i + j)) = int k"
proof -
  have "nat (m_cur (st i)) < MAX_TASKS" using assms(2,3) by (auto simp: sched_wf_def)
  from turns_reach [OF assms] ahead_bounds [OF this assms(4)] show ?thesis by (meson le_trans)
qed

text \<open>The search loop of \<^verbatim>\<open>yield\<close> ends and picks the first ready slot after the current one in cyclic
  order, and declines to switch exactly when no other slot is ready.\<close>

lemma pick_next_first_ready:
  assumes "length ts = MAX_TASKS" "p < MAX_TASKS"
  shows "pick_next ts p = Some (find (\<lambda>n. t_sp (ts ! n) \<noteq> None) (map (\<lambda>d. (p + d) mod MAX_TASKS) [1..<MAX_TASKS]))"
  using pick_next_reference [OF assms] by (simp add: next_ready_def ready_def [abs_def])

definition two_tasks :: "task_t list" where
  "two_tasks = [\<lparr>t_sp = None, t_entry = None\<rparr>, \<lparr>t_sp = Some 640, t_entry = Some 1\<rparr>, \<lparr>t_sp = None, t_entry = Some 2\<rparr>,
     \<lparr>t_sp = None, t_entry = None\<rparr>, \<lparr>t_sp = Some 1280, t_entry = Some 3\<rparr>, \<lparr>t_sp = None, t_entry = None\<rparr>]"

lemma pick_next_first_ready_example: "pick_next two_tasks 4 = Some (Some 1)"
  using pick_next_first_ready [of two_tasks 4] by (simp add: two_tasks_def upt_rec)

text \<open>C25: suspending and resuming. A task that is switched out with \<^verbatim>\<open>ctx_switch\<close> has its stack pointer saved
  in its slot; when any task later switches to that pointer, the frame being untouched and the other
  stack elsewhere, the task goes on at its return address with its six registers and its stack pointer.\<close>

theorem ctx_switch_resume:
  assumes sw: "ctx_switch (Slot p) new_sp st = Some (st1, rip1)" and regs: "length (m_regs st) = 6"
    and ra: "m_mem st (m_rsp st) = Some ra"
    and same: "\<And>a. m_rsp st - 48 \<le> a \<Longrightarrow> a \<le> m_rsp st \<Longrightarrow> m_mem st2 a = m_mem st1 a"
    and push: "push_words (m_mem st2) (m_rsp st2) (m_regs st2) = Some (m, sp)"
    and save: "save_sp o_slot sp (m_tasks st2) = Some ts"
    and apart: "m_rsp st + 8 \<le> m_rsp st2 - 8 * length (m_regs st2) \<or> m_rsp st2 \<le> m_rsp st - 48"
  shows "t_sp (m_tasks st1 ! p) = Some (m_rsp st - 48) \<and>
    (\<exists>st3. ctx_switch o_slot (m_rsp st - 48) st2 = Some (st3, ra) \<and> m_regs st3 = m_regs st \<and> m_rsp st3 = m_rsp st + 8)"
proof -
  from sw obtain m1 sp1 ts1 where r: "push_words (m_mem st) (m_rsp st) (m_regs st) = Some (m1, sp1)"
    "m_mem st1 = m1" by (auto simp: ctx_switch_def Option.bind_eq_Some_conv)
  have ps: "sp1 + 48 = m_rsp st" "\<And>k. k < 6 \<Longrightarrow> m1 (sp1 + 8 * k) = Some (rev (m_regs st) ! k)"
    "m1 (m_rsp st) = m_mem st (m_rsp st)"
    using push_words_spec [OF r(1)] regs by auto
  have sp1: "m_rsp st - 48 = sp1" using ps(1) by simp
  have "m_mem st2 (sp1 + 8 * k) = Some (rev (m_regs st) ! k)" if "k < 6" for k
    using same [of "sp1 + 8 * k"] ps(1) ps(2) [OF that] r(2) that by simp
  moreover have "m_mem st2 (sp1 + 48) = Some ra"
    using same [of "m_rsp st"] ps r(2) ra by simp
  moreover have "sp1 + 56 \<le> m_rsp st2 - 8 * length (m_regs st2) \<or> m_rsp st2 \<le> sp1"
    using apart ps(1) by linarith
  ultimately have "ctx_switch o_slot sp1 st2 =
      Some (st2\<lparr>m_mem := m, m_tasks := ts, m_regs := m_regs st, m_rsp := sp1 + 56\<rparr>, ra)"
    by (intro ctx_switch_to_frame [OF push save]) (simp_all add: regs)
  moreover have "t_sp (m_tasks st1 ! p) = Some sp1"
    using ctx_switch_tasks(1) [OF sw] regs sp1 by (auto simp: save_sp_def Option.bind_eq_Some_conv)
  ultimately show ?thesis using ps(1) sp1 by simp
qed

lemma pop_words_total: "dom m = UNIV \<Longrightarrow> \<exists>vs. pop_words m sp k = Some (vs, sp + 8 * k)"
proof (induction k arbitrary: sp)
  case (Suc k)
  obtain v where "m sp = Some v" using Suc.prems by auto
  moreover obtain vs where "pop_words m (sp + 8) k = Some (vs, sp + 8 + 8 * k)" using Suc.IH [OF Suc.prems] by blast
  ultimately show ?case by simp
qed simp

lemma yield_total:
  assumes "sched_wf st" "m_cur st \<noteq> -1" "dom (m_mem st) = UNIV" "48 \<le> m_rsp st"
  shows "\<exists>st' r. yield poll st = Some (st', r) \<and> dom (m_mem st') = UNIV"
proof -
  let ?p = "nat (m_cur st)"
  have p: "?p < MAX_TASKS" "length (m_tasks st) = MAX_TASKS" "length (m_regs st) = 6"
    using assms(1,2) by (auto simp: sched_wf_def)
  note pick = pick_next_reference [OF p(2,1)]
  show ?thesis
  proof (cases "next_ready (m_tasks st) ?p")
    case None
    with assms pick show ?thesis by (auto simp: yield_def Let_def)
  next
    case (Some n)
    then have n: "n < MAX_TASKS" "ready (m_tasks st) n" by (metis next_ready_SomeE mod_less_divisor zero_less_numeral)+
    then obtain sp where sp: "t_sp (m_tasks st ! n) = Some sp" by (auto simp: ready_def)
    let ?o = "if t_sp (m_tasks st ! ?p) = None then Local else Slot ?p"
    obtain m where m: "push_words (m_mem st) (m_rsp st) (m_regs st) = Some (m, m_rsp st - 48)"
    proof -
      have "m_mem st a \<noteq> None" for a using assms(3) by (metis UNIV_I domIff)
      with push_words_defined [of "m_regs st" "m_rsp st" "m_mem st"] p(3) assms(4) that show thesis by auto
    qed
    have dm: "dom m = UNIV" using push_words_spec [OF m] assms(3) by simp
    obtain ts where ts: "save_sp ?o (m_rsp st - 48) (m_tasks st) = Some ts"
      using p by (cases "t_sp (m_tasks st ! ?p) = None") (auto simp: save_sp_def rd_def wr_def)
    obtain vs where vs: "pop_words m sp 6 = Some (vs, sp + 48)" using pop_words_total [OF dm, of sp 6] by auto
    obtain rip where rip: "m (sp + 48) = Some rip" using dm by auto
    have r: "rd (m_tasks st) ?p = Some (m_tasks st ! ?p)" "rd (m_tasks st) n = Some (m_tasks st ! n)"
      using p n by simp_all
    show ?thesis using assms(2) pick Some r sp m ts vs rip dm
      by (simp add: yield_def Let_def ctx_switch_def del: rd_eq_Some)
  qed
qed

definition demo_start :: "nat machine" where
  "demo_start = \<lparr>m_tasks = two_tasks, m_cur = 1, m_mem = (\<lambda>a. Some 0), m_regs = [1, 2, 3, 4, 5, 6], m_rsp = 4096, m_dev = 0\<rparr>"

primrec demo :: "nat \<Rightarrow> nat machine" where
  "demo 0 = demo_start"
| "demo (Suc j) = fst (the (yield Suc ((demo j)\<lparr>m_rsp := 4096\<rparr>)))"

lemma demo_turn:
  "sched_wf (demo j) \<and> m_cur (demo j) \<noteq> -1 \<and> dom (m_mem (demo j)) = UNIV \<and>
   (\<exists>r. yield Suc ((demo j)\<lparr>m_rsp := 4096\<rparr>) = Some (demo (Suc j), r))"
proof (induction j)
  case 0
  have "sched_wf demo_start" "m_cur demo_start \<noteq> -1" "dom (m_mem demo_start) = UNIV"
    by (auto simp: sched_wf_def demo_start_def two_tasks_def)
  moreover from this obtain st r where "yield Suc (demo_start\<lparr>m_rsp := 4096\<rparr>) = Some (st, r)"
    using yield_total [of "demo_start\<lparr>m_rsp := 4096\<rparr>" Suc] by (auto simp: sched_wf_def)
  ultimately show ?case by simp
next
  case (Suc j)
  let ?s = "(demo j)\<lparr>m_rsp := 4096\<rparr>"
  have s: "sched_wf ?s" "m_cur ?s \<noteq> -1" using Suc by (simp_all add: sched_wf_def)
  from Suc obtain r where r: "yield Suc ?s = Some (demo (Suc j), r)" by blast
  note y = yield_effect [OF s r]
  have "dom (m_mem ?s) = UNIV" "48 \<le> m_rsp ?s" using Suc by simp_all
  from yield_total [OF s this, of Suc] have d: "dom (m_mem (demo (Suc j))) = UNIV"
    unfolding r by (simp only: option.inject prod.inject ex_simps simp_thms)
  have c: "m_cur (demo (Suc j)) \<noteq> -1" using y s(2) by (auto split: option.splits)
  let ?t = "(demo (Suc j))\<lparr>m_rsp := 4096\<rparr>"
  have "sched_wf ?t" using y by (simp add: sched_wf_def)
  with yield_total [of ?t Suc] c d obtain st r where "yield Suc ?t = Some (st, r)" by auto
  with y c d show ?case by simp
qed

theorem yield_fair_witness: "\<exists>j. 1 \<le> j \<and> j \<le> MAX_TASKS \<and> m_cur (demo (0 + j)) = int 4"
proof (rule yield_fair [where poll = Suc])
  fix j show "\<exists>mid r. m_tasks mid = m_tasks (demo j) \<and> m_cur mid = m_cur (demo j) \<and> length (m_regs mid) = 6 \<and>
      yield Suc mid = Some (demo (Suc j), r)"
    using demo_turn [of j] by (intro exI [of _ "(demo j)\<lparr>m_rsp := 4096\<rparr>"]) (auto simp: sched_wf_def)
next
  show "sched_wf (demo 0)" "m_cur (demo 0) \<noteq> -1" using demo_turn [of 0] by simp_all
  show "ready (m_tasks (demo 0)) 4" by (simp add: ready_def demo_start_def two_tasks_def)
qed simp

lemma free_slot_spec:
  assumes "length ts = MAX_TASKS" "i \<le> MAX_TASKS"
  shows "free_slot ok ts i = Some (case find (\<lambda>k. ok (ts ! k)) [i..<MAX_TASKS] of None \<Rightarrow> -1 | Some k \<Rightarrow> int k)"
  using assms(2)
proof (induction "MAX_TASKS - i" arbitrary: i)
  case 0
  then show ?case by (subst free_slot.simps) simp
next
  case (Suc n)
  then have "i < MAX_TASKS" by simp
  with Suc.hyps(1) [of "i + 1"] Suc.hyps(2) assms(1) show ?case
    by (subst free_slot.simps) (simp add: rd_def upt_conv_Cons)
qed

text \<open>The slot a new task gets: one never used or last used by the same function, else any free one.\<close>

definition create_slot :: "nat \<Rightarrow> task_t list \<Rightarrow> nat option" where
  "create_slot fn ts =
     (case find (\<lambda>k. t_sp (ts ! k) = None \<and> (t_entry (ts ! k) = None \<or> t_entry (ts ! k) = Some fn)) [0..<MAX_TASKS] of
        Some k \<Rightarrow> Some k | None \<Rightarrow> find (\<lambda>k. t_sp (ts ! k) = None) [0..<MAX_TASKS])"

lemma task_t_both: "t\<lparr>t_sp := a, t_entry := b\<rparr> = \<lparr>t_sp = a, t_entry = b\<rparr>" for t :: task_t
  by (cases t) simp

lemma find_slot_bound: "find P [0..<MAX_TASKS] = Some k \<Longrightarrow> k < MAX_TASKS"
  by (auto simp: find_Some_iff)

lemma task_create_eq:
  assumes "length (m_tasks st) = MAX_TASKS"
  shows "task_create bootstrap fn s_bot s_sz st =
    (case create_slot fn (m_tasks st) of None \<Rightarrow> Some (st, False)
     | Some k \<Rightarrow> do {
         (m, sp) \<leftarrow> push_words (m_mem st) (s_bot + s_sz) [0, bootstrap, 0, 0, 0, 0, 0, 0];
         Some (st\<lparr>m_mem := m, m_tasks := (m_tasks st)[k := (m_tasks st ! k)\<lparr>t_sp := Some sp, t_entry := Some fn\<rparr>]\<rparr>, True) })"
proof -
  let ?f = "find (\<lambda>k. t_sp (m_tasks st ! k) = None \<and> (t_entry (m_tasks st ! k) = None \<or> t_entry (m_tasks st ! k) = Some fn)) [0..<MAX_TASKS]"
  let ?g = "find (\<lambda>k. t_sp (m_tasks st ! k) = None) [0..<MAX_TASKS]"
  have si: "do { si \<leftarrow> free_slot (\<lambda>t. t_sp t = None \<and> (t_entry t = None \<or> t_entry t = Some fn)) (m_tasks st) 0;
      (if si = -1 then free_slot (\<lambda>t. t_sp t = None) (m_tasks st) 0 else Some si) } =
    Some (case create_slot fn (m_tasks st) of None \<Rightarrow> -1 | Some k \<Rightarrow> int k)"
    using assms by (simp add: free_slot_spec create_slot_def split: option.splits)
  have b: "create_slot fn (m_tasks st) = Some k \<Longrightarrow> k < MAX_TASKS" for k
    by (auto simp: create_slot_def split: option.splits dest: find_slot_bound)
  have "task_create bootstrap fn s_bot s_sz st = do { si \<leftarrow> (do { si \<leftarrow> free_slot (\<lambda>t. t_sp t = None \<and> (t_entry t = None \<or> t_entry t = Some fn)) (m_tasks st) 0;
      (if si = -1 then free_slot (\<lambda>t. t_sp t = None) (m_tasks st) 0 else Some si) });
     if si \<noteq> -1 then do {
       (m, sp) \<leftarrow> push_words (m_mem st) (s_bot + s_sz) [0, bootstrap, 0, 0, 0, 0, 0, 0];
       t \<leftarrow> rd (m_tasks st) (nat si);
       ts \<leftarrow> wr (m_tasks st) (nat si) (t\<lparr>t_sp := Some sp, t_entry := Some fn\<rparr>);
       Some (st\<lparr>m_mem := m, m_tasks := ts\<rparr>, True) }
     else Some (st, False) }"
    by (simp only: task_create_def bind_assoc)
  with b assms show ?thesis unfolding si
    by (auto simp: rd_def wr_def split: option.splits)
qed

lemma aligned_minus_8: "n mod 16 = 0 \<Longrightarrow> 64 \<le> n \<Longrightarrow> (n - 8) mod 16 = (8 :: nat)"
proof -
  assume "n mod 16 = 0" "64 \<le> n"
  then obtain q where "n = 16 * q" by (auto simp: mod_eq_0_iff_dvd elim: dvdE)
  with \<open>64 \<le> n\<close> have "n - 8 = 8 + 16 * (q - 1)" by simp
  then show ?thesis by (simp only: mod_mult_self2) simp
qed

text \<open>Creating a task. The new task gets the first never-used slot or one last used by the same function,
  else the first free slot; with no free slot nothing changes. Otherwise only that slot and the top 64
  bytes of the stack change, and the first switch to the task enters \<^verbatim>\<open>task_bootstrap\<close> with cleared registers
  and, on a 16-byte aligned stack, with RSP = 8 modulo 16.\<close>

lemma task_create_boots:
  assumes wf: "length (m_tasks st) = MAX_TASKS" and top: "64 \<le> s_bot + s_sz"
    and mem: "\<And>k. k < 8 \<Longrightarrow> m_mem st (s_bot + s_sz - 8 * (k + 1)) \<noteq> None"
    and slot: "create_slot fn (m_tasks st) = Some k"
  defines "sp \<equiv> s_bot + s_sz - 64"
  shows "\<exists>st'. task_create bootstrap fn s_bot s_sz st = Some (st', True) \<and>
    m_tasks st' = (m_tasks st)[k := \<lparr>t_sp = Some sp, t_entry = Some fn\<rparr>] \<and> m_cur st' = m_cur st \<and>
    (\<forall>a. a < sp \<or> s_bot + s_sz \<le> a \<longrightarrow> m_mem st' a = m_mem st a) \<and>
    (\<forall>st2 m sp2 ts o_slot. (\<forall>a. sp \<le> a \<and> a < s_bot + s_sz \<longrightarrow> m_mem st2 a = m_mem st' a) \<longrightarrow>
       push_words (m_mem st2) (m_rsp st2) (m_regs st2) = Some (m, sp2) \<longrightarrow>
       save_sp o_slot sp2 (m_tasks st2) = Some ts \<longrightarrow>
       s_bot + s_sz \<le> m_rsp st2 - 8 * length (m_regs st2) \<or> m_rsp st2 \<le> sp \<longrightarrow>
       (\<exists>st3. ctx_switch o_slot sp st2 = Some (st3, bootstrap) \<and> m_regs st3 = replicate 6 0 \<and>
          m_rsp st3 = s_bot + s_sz - 8 \<and> ((s_bot + s_sz) mod 16 = 0 \<longrightarrow> m_rsp st3 mod 16 = 8)))"
proof -
  obtain m where m: "push_words (m_mem st) (s_bot + s_sz) [0, bootstrap, 0, 0, 0, 0, 0, 0] = Some (m, sp)"
    using push_words_defined [of "[0, bootstrap, 0, 0, 0, 0, 0, 0]" "s_bot + s_sz" "m_mem st"] top mem
    by (auto simp: sp_def)
  note ps = push_words_spec [OF m]
  have k: "k < length (m_tasks st)" using slot wf
    by (auto simp: create_slot_def split: option.splits dest: find_slot_bound)
  define st' where "st' = st\<lparr>m_mem := m, m_tasks := (m_tasks st)[k := \<lparr>t_sp = Some sp, t_entry = Some fn\<rparr>]\<rparr>"
  have "task_create bootstrap fn s_bot s_sz st = Some (st', True)"
    using task_create_eq [OF wf] slot m by (simp add: st'_def task_t_both del: push_words.simps)
  moreover have "\<exists>st3. ctx_switch o_slot sp st2 = Some (st3, bootstrap) \<and> m_regs st3 = replicate 6 0 \<and>
          m_rsp st3 = s_bot + s_sz - 8 \<and> ((s_bot + s_sz) mod 16 = 0 \<longrightarrow> m_rsp st3 mod 16 = 8)"
    if same: "\<forall>a. sp \<le> a \<and> a < s_bot + s_sz \<longrightarrow> m_mem st2 a = m a"
      and push: "push_words (m_mem st2) (m_rsp st2) (m_regs st2) = Some (m2, sp2)"
      and save: "save_sp o_slot sp2 (m_tasks st2) = Some ts"
      and apart: "s_bot + s_sz \<le> m_rsp st2 - 8 * length (m_regs st2) \<or> m_rsp st2 \<le> sp"
    for st2 :: "'b machine" and m2 sp2 ts o_slot
  proof -
    have t: "sp + 64 = s_bot + s_sz" using top by (simp add: sp_def)
    have w: "m_mem st2 (sp + 8 * j) = Some ([0, 0, 0, 0, 0, 0, bootstrap, 0] ! j)" if "j < 8" for j
      using ps same t that by auto
    have "ctx_switch o_slot sp st2 = Some (st2\<lparr>m_mem := m2, m_tasks := ts, m_regs := replicate 6 0, m_rsp := sp + 56\<rparr>, bootstrap)"
    proof (rule ctx_switch_to_frame [OF push save])
      show "m_mem st2 (sp + 8 * j) = Some (rev (replicate 6 0) ! j)" if "j < 6" for j
      proof -
        have "[0, 0, 0, 0, 0, 0, bootstrap, 0] ! j = 0"
          using that by (cases j rule: nat.exhaust) (auto simp: less_Suc_eq numeral_eq_Suc)
        with w [of j] that show ?thesis by simp
      qed
      show "m_mem st2 (sp + 48) = Some bootstrap" using w [of 6] by simp
      show "sp + 56 \<le> m_rsp st2 - 8 * length (m_regs st2) \<or> m_rsp st2 \<le> sp" using apart t by linarith
    qed simp
    moreover have "sp + 56 = s_bot + s_sz - 8" using t by simp
    moreover have "(s_bot + s_sz - 8) mod 16 = 8" if "(s_bot + s_sz) mod 16 = 0"
      using that top by (rule aligned_minus_8)
    ultimately show ?thesis by simp
  qed
  moreover have "\<forall>a. a < sp \<or> s_bot + s_sz \<le> a \<longrightarrow> m a = m_mem st a" using ps by blast
  ultimately show ?thesis by (intro exI [of _ st']) (simp add: st'_def)
qed

definition boot_state :: "nat machine" where
  "boot_state = \<lparr>m_tasks = replicate 6 \<lparr>t_sp = None, t_entry = None\<rparr>, m_cur = -1, m_mem = (\<lambda>a. Some 7),
     m_regs = [1, 2, 3, 4, 5, 6], m_rsp = 9000, m_dev = 0\<rparr>"

lemma task_create_boots_example:
  "\<exists>st'. task_create 77 5 4096 4096 boot_state = Some (st', True) \<and>
     m_tasks st' = (m_tasks boot_state)[0 := \<lparr>t_sp = Some 8128, t_entry = Some 5\<rparr>]"
proof -
  have "create_slot 5 (m_tasks boot_state) = Some 0" by (simp add: create_slot_def boot_state_def upt_rec)
  from task_create_boots [OF _ _ _ this, of 4096 4096 77] show ?thesis
    by (auto simp: boot_state_def)
qed

text \<open>Exiting. \<^verbatim>\<open>sys_exit_task\<close> frees the slot of the current task and no other, and switches to another ready
  task; it comes back (and halts) exactly when there is none.\<close>

lemma sys_exit_task_frees:
  assumes "sched_wf st" "m_cur st \<noteq> -1" "sys_exit_task poll st = Some (st', r)"
  shows "\<not> ready (m_tasks st') (nat (m_cur st)) \<and>
    (\<forall>i < MAX_TASKS. int i \<noteq> m_cur st \<longrightarrow> ready (m_tasks st') i = ready (m_tasks st) i) \<and>
    (r \<noteq> None \<longleftrightarrow> foreground st) \<and> (r \<noteq> None \<longrightarrow> m_cur st' \<noteq> m_cur st)"
proof -
  let ?c = "nat (m_cur st)"
  have c: "?c < MAX_TASKS" "int ?c = m_cur st" "length (m_tasks st) = MAX_TASKS"
    using assms(1,2) by (auto simp: sched_wf_def)
  define s1 where "s1 = st\<lparr>m_tasks := (m_tasks st)[?c := (m_tasks st ! ?c)\<lparr>t_sp := None\<rparr>]\<rparr>"
  have y: "yield poll s1 = Some (st', r)"
    using assms(2,3) by (auto simp: sys_exit_task_def Option.bind_eq_Some_conv s1_def)
  have s1: "sched_wf s1" "m_cur s1 = m_cur st" using assms(1) by (simp_all add: s1_def sched_wf_def)
  have rs: "ready (m_tasks s1) i \<longleftrightarrow> i \<noteq> ?c \<and> ready (m_tasks st) i" if "i < MAX_TASKS" for i
    using that c by (auto simp: s1_def ready_def nth_list_update)
  note e = yield_effect [OF s1(1) _ y, unfolded s1(2), OF assms(2)]
  have fg: "foreground st \<longleftrightarrow> (\<exists>i < MAX_TASKS. i \<noteq> ?c \<and> ready (m_tasks st) i)"
  proof -
    have r: "rd (m_tasks st) i = Some (m_tasks st ! i)" if "i < MAX_TASKS" for i using that c(3) by simp
    have i: "int i \<noteq> m_cur st \<longleftrightarrow> i \<noteq> ?c" for i using c(2) by auto
    show ?thesis unfolding foreground_def ready_def i by (simp add: r cong: conj_cong del: rd_eq_Some)
  qed
  have nx: "next_ready (m_tasks s1) ?c \<noteq> None \<longleftrightarrow> foreground st"
  proof
    assume "next_ready (m_tasks s1) ?c \<noteq> None"
    then obtain n where n: "next_ready (m_tasks s1) ?c = Some n" by auto
    from n obtain d where "n = (?c + d) mod MAX_TASKS" "ready (m_tasks s1) n" by (rule next_ready_SomeE)
    then have "n < MAX_TASKS" "n \<noteq> ?c" "ready (m_tasks st) n" using rs [of n] by simp_all
    then show "foreground st" using fg by blast
  next
    assume "foreground st"
    then obtain i where "i < MAX_TASKS" "i \<noteq> ?c" "ready (m_tasks s1) i" using rs fg by auto
    from next_ready_progress [OF c(1) this(1,3,2)] show "next_ready (m_tasks s1) ?c \<noteq> None" by auto
  qed
  have cur: "m_cur st' \<noteq> m_cur st" if "next_ready (m_tasks s1) ?c = Some n" for n
  proof -
    from that obtain d where "1 \<le> d" "d < MAX_TASKS" "n = (?c + d) mod MAX_TASKS" by (rule next_ready_SomeE)
    with turn_ne [OF c(1)] have "n \<noteq> ?c" by simp
    with e that c(2) show ?thesis by auto
  qed
  have "\<not> ready (m_tasks st') ?c" using e rs [OF c(1)] c(1) by simp
  moreover have "\<forall>i < MAX_TASKS. int i \<noteq> m_cur st \<longrightarrow> ready (m_tasks st') i = ready (m_tasks st) i"
    using e rs c(2) by auto
  ultimately show ?thesis using e nx cur by auto
qed

lemma sys_exit_task_frees_example:
  "\<exists>st' r. sys_exit_task Suc demo_start = Some (st', r) \<and> \<not> ready (m_tasks st') 1 \<and> m_cur st' \<noteq> 1"
proof -
  define s1 where "s1 = demo_start\<lparr>m_tasks := two_tasks[1 := \<lparr>t_sp = None, t_entry = Some 1\<rparr>]\<rparr>"
  have e: "sys_exit_task Suc demo_start = yield Suc s1"
    by (simp add: sys_exit_task_def demo_start_def two_tasks_def s1_def rd_def wr_def)
  have "sched_wf s1" "m_cur s1 \<noteq> -1" "dom (m_mem s1) = UNIV" "48 \<le> m_rsp s1"
    by (auto simp: s1_def demo_start_def sched_wf_def two_tasks_def)
  from yield_total [OF this, of Suc] obtain st' r where "sys_exit_task Suc demo_start = Some (st', r)"
    unfolding e by blast
  moreover have "sched_wf demo_start" "m_cur demo_start = 1"
    by (auto simp: sched_wf_def demo_start_def two_tasks_def)
  moreover have "foreground demo_start"
    unfolding foreground_def by (rule exI [of _ 4]) (simp add: demo_start_def two_tasks_def rd_def)
  ultimately show ?thesis using sys_exit_task_frees [of demo_start Suc st' r] by auto
qed

theorem ctx_switch_resume_witness:
  "\<exists>(st1 :: nat machine) st3. t_sp (m_tasks st1 ! 1) = Some 4048 \<and> ctx_switch Local 4048 (st1\<lparr>m_rsp := 8000\<rparr>) = Some (st3, 0) \<and>
    m_regs st3 = [1, 2, 3, 4, 5, 6]"
proof -
  obtain m where m: "push_words (m_mem demo_start) (m_rsp demo_start) (m_regs demo_start) = Some (m, 4048)"
    by (simp add: demo_start_def store_def)
  have dm: "dom m = UNIV" using push_words_spec [OF m] by (auto simp: demo_start_def)
  obtain vs where vs: "pop_words m 1280 6 = Some (vs, 1328)" using pop_words_total [OF dm, of 1280 6] by auto
  obtain rip where rip: "m 1328 = Some rip" using dm by (metis UNIV_I domD)
  obtain ts where ts: "save_sp (Slot 1) 4048 (m_tasks demo_start) = Some ts"
    by (simp add: save_sp_def demo_start_def two_tasks_def rd_def wr_def)
  define st1 where "st1 = demo_start\<lparr>m_mem := m, m_tasks := ts, m_regs := rev vs, m_rsp := 1336\<rparr>"
  have st1: "ctx_switch (Slot 1) 1280 demo_start = Some (st1, rip)" "m_mem st1 = m" "length (m_regs st1) = 6"
    using pop_words_length [OF vs] by (simp_all add: ctx_switch_def m vs rip ts [simplified] st1_def)
  obtain m2 where m2: "push_words (m_mem (st1\<lparr>m_rsp := 8000\<rparr>)) (m_rsp (st1\<lparr>m_rsp := 8000\<rparr>)) (m_regs (st1\<lparr>m_rsp := 8000\<rparr>)) = Some (m2, 7952)"
  proof -
    have "m_mem st1 a \<noteq> None" for a using dm st1(2) by (metis UNIV_I domIff)
    with push_words_defined [of "m_regs st1" 8000 "m_mem st1"] st1(3) that show thesis by auto
  qed
  have "t_sp (m_tasks st1 ! 1) = Some 4048 \<and> (\<exists>st3. ctx_switch Local 4048 (st1\<lparr>m_rsp := 8000\<rparr>) = Some (st3, 0) \<and>
      m_regs st3 = [1, 2, 3, 4, 5, 6])"
    using ctx_switch_resume [OF st1(1) _ _ _ m2, of 0 Local "m_tasks st1"]
    by (auto simp: demo_start_def save_sp_def st1(3))
  then show ?thesis by blast
qed

end
