(* ===== verification/User_Program.thy ===== *)
theory User_Program
  imports Isolation_Test
begin

text \<open>
  The program that runs in ring 3, \<^verbatim>\<open>src/jordyOS/user/main.c\<close> and \<^verbatim>\<open>user/syscalls.c\<close>, and the machine it runs on. A
  program is a tree of what the kernel or the page tables can see of it: system calls, accesses to memory, the
  instructions the processor refuses outside ring 0, and the value \<^verbatim>\<open>user_main\<close> returns. Running it against the page
  tables of \<open>Page_Tables\<close> and the handler of \<open>Interrupts\<close> gives the interrupts the kernel receives. The application
  itself is an argument (one that ends, as the tree is well-founded), and so are the addresses the linker chose.
\<close>

section \<open>Programs\<close>

datatype prog =
    Return int
  | Call nat nat nat nat nat nat "int \<Rightarrow> prog" \<comment> \<open>number, five arguments, what follows the result\<close>
  | Read nat nat "nat \<Rightarrow> prog" \<comment> \<open>address, bytes\<close>
  | Write nat bytes prog
  | Jump nat prog \<comment> \<open>a call of the code at an address, which returns\<close>
  | Trap nat \<comment> \<open>an instruction that raises a vector\<close>

text \<open>The result of a call as the C type of the wrapper: \<^verbatim>\<open>int\<close> or \<^verbatim>\<open>char\<close>.\<close>

definition as_int :: "int \<Rightarrow> int" where "as_int r = sint (word_of_int r :: u32)"
definition as_char :: "int \<Rightarrow> u8" where "as_char r = word_of_int r"

definition as_unsigned :: "int \<Rightarrow> nat" where "as_unsigned r = nat (r mod 2 ^ 64)"

definition user_write :: "nat \<Rightarrow> prog \<Rightarrow> prog" where "user_write s k = Call 1 s 0 0 0 0 (\<lambda>_. k)"
definition user_read_line :: "nat \<Rightarrow> int \<Rightarrow> prog \<Rightarrow> prog" where "user_read_line p n k = Call 2 p (as_unsigned n) 0 0 0 (\<lambda>_. k)"
definition user_getc :: "(u8 \<Rightarrow> prog) \<Rightarrow> prog" where "user_getc k = Call 3 0 0 0 0 0 (\<lambda>r. k (as_char r))"
definition user_pollc :: "(u8 \<Rightarrow> prog) \<Rightarrow> prog" where "user_pollc k = Call 4 0 0 0 0 0 (\<lambda>r. k (as_char r))"
definition user_yield :: "prog \<Rightarrow> prog" where "user_yield k = Call 5 0 0 0 0 0 (\<lambda>_. k)"
definition user_clear_screen :: "prog \<Rightarrow> prog" where "user_clear_screen k = Call 6 0 0 0 0 0 (\<lambda>_. k)"
definition user_list_files :: "nat \<Rightarrow> int \<Rightarrow> (int \<Rightarrow> prog) \<Rightarrow> prog" where
  "user_list_files p n k = Call 7 p (as_unsigned n) 0 0 0 (\<lambda>r. k (as_int r))"
definition user_read_file :: "nat \<Rightarrow> nat \<Rightarrow> int \<Rightarrow> (int \<Rightarrow> prog) \<Rightarrow> prog" where
  "user_read_file name p n k = Call 8 name p (as_unsigned n) 0 0 (\<lambda>r. k (as_int r))"
definition user_write_file :: "nat \<Rightarrow> nat \<Rightarrow> int \<Rightarrow> (int \<Rightarrow> prog) \<Rightarrow> prog" where
  "user_write_file name p n k = Call 9 name p (as_unsigned n) 0 0 (\<lambda>r. k (as_int r))"
definition user_delete_file :: "nat \<Rightarrow> (int \<Rightarrow> prog) \<Rightarrow> prog" where "user_delete_file name k = Call 10 name 0 0 0 0 (\<lambda>r. k (as_int r))"
definition user_paint :: "int \<Rightarrow> int \<Rightarrow> int \<Rightarrow> int \<Rightarrow> int \<Rightarrow> prog \<Rightarrow> prog" where
  "user_paint x y w h color k = Call 11 (as_unsigned x) (as_unsigned y) (as_unsigned w) (as_unsigned h) (as_unsigned color) (\<lambda>_. k)"
definition user_drawtext :: "int \<Rightarrow> int \<Rightarrow> nat \<Rightarrow> int \<Rightarrow> prog \<Rightarrow> prog" where
  "user_drawtext x y s color k = Call 12 (as_unsigned x) (as_unsigned y) s (as_unsigned color) 0 (\<lambda>_. k)"
definition user_terminal :: "nat \<Rightarrow> prog \<Rightarrow> prog" where "user_terminal s k = Call 13 s 0 0 0 0 (\<lambda>_. k)"
definition user_wait :: "u32 \<Rightarrow> prog \<Rightarrow> prog" where "user_wait ms k = Call 14 (unat ms) 0 0 0 0 (\<lambda>_. k)"
definition user_exit :: "int \<Rightarrow> prog" where "user_exit status = Call 0 (as_unsigned status) 0 0 0 0 (\<lambda>_. Trap 6)"

section \<open>The program\<close>

record linked =
  ld_code :: nat \<comment> \<open>\<^verbatim>\<open>writable_code\<close>\<close>
  ld_name :: nat \<comment> \<open>the array \<^verbatim>\<open>name\<close> on the stack\<close>
  ld_health :: nat \<comment> \<open>the three string literals\<close>
  ld_df :: nat
  ld_checked :: nat

text \<open>The calls with bad pointers, sizes and numbers; every one must return -1.\<close>

definition bad_calls :: "nat \<Rightarrow> (nat \<times> nat \<times> nat \<times> nat \<times> nat) list" where
  "bad_calls name =
     [(1, 0x10000, 0, 0, 0), (1, 0xffffffffffffffff, 0, 0, 0), (2, USER_BASE, 8, 0, 0),
      (8, name, 0x10000, 32, 0), (8, name, USER_STACK_TOP - 8, 32, 0), (9, name, 0x10000, 32, 0),
      (7, 0x10000, 64, 0, 0), (10, 0x10000, 0, 0, 0), (13, 0x10000, 0, 0, 0), (12, 0, 0, 0x10000, 1),
      (14, 1001, 0, 0, 0), (11, 0, 0, 0x7fffffffffffffff, 20), (9999, 0, 0, 0, 0)]"

text \<open>The fifth argument is the colour of the paint call and 0 otherwise.\<close>

fun refused_all :: "(nat \<times> nat \<times> nat \<times> nat \<times> nat) list \<Rightarrow> prog \<Rightarrow> prog" where
  "refused_all [] k = k"
| "refused_all ((n, a, b, c, d) # calls) k =
     Call n a b c d (if n = 11 then 1 else 0) (\<lambda>r. if r \<noteq> -1 then Return 92 else refused_all calls k)"

definition user_main :: "(bytes \<Rightarrow> prog \<Rightarrow> prog) \<Rightarrow> linked \<Rightarrow> nat \<Rightarrow> UserStartup \<Rightarrow> prog option" where
  "user_main app ld cs su = (let mode = su_mode su in
     if cs AND 3 \<noteq> 3 then Some (Return 90)
     else if mode = 0 then do { command \<leftarrow> strncpy (replicate 96 0) (su_command su) 95; Some (app command (Return 0)) }
     else if mode = 1 then Some (Call 15 0 0 0 0 0 (\<lambda>r. if r \<le> 0 then Return 91 else user_write (ld_health ld) (Return 0)))
     else if mode = 2 then Some (Read 0x10000 8 (\<lambda>v. Return (s64 v)))
     else if mode = 3 then Some (Write 0x10000 (le64 0) (Return 95))
     else if mode = 4 then Some (Read (su_peer_address su) 8 (\<lambda>v. Return (s64 v)))
     else if mode = 5 then Some (Write (su_peer_address su) (le64 0) (Return 95))
     else if mode = 6 then Some (Trap 13)
     else if mode = 7 then Some (Trap 13)
     else if mode = 8 then Some (Trap 13)
     else if mode = 19 then Some (Trap 0)
     else if mode = 20 then Some (Trap 6)
     else if mode = 9 then Some (Write USER_BASE [0] (Return 95))
     else if mode = 10 then Some (Jump (ld_code ld) (Return 95))
     else if mode = 11 then Some (Read 1 1 (\<lambda>v. Return (int v)))
     else if mode = 12 then Some (Read (USER_STACK_BOTTOM - 1) 1 (\<lambda>v. Return (int v)))
     else if mode = 14 then Some (Write (su_marker_address su) (le64 0xabcddcba) (Return 0))
     else if mode = 15 then Some (Read (su_marker_address su) 8 (\<lambda>v. Return (if v \<noteq> 0 then 93 else 0)))
     else if mode = 16 then Some (Write USER_STARTUP (le64 1) (Return 95))
     else if mode = 17 then Some (Call 1 (ld_df ld) 0 0 0 0 Return)
     else if mode = 18 then Some (Return 0)
     else if mode = 13 then Some (Write (ld_name ld) (ascii ''demo.ape'')
       (refused_all (bad_calls (ld_name ld)) (user_write (ld_checked ld) (Return 0))))
     else Some (Return 94))"

section \<open>The machine in ring 3\<close>

datatype access = Load | Store | Fetch

text \<open>The processor walks the page tables for every byte.\<close>

definition accessible :: "Process \<Rightarrow> access \<Rightarrow> nat \<Rightarrow> bool" where
  "accessible p acc x \<longleftrightarrow> x < 2 ^ 48 \<and>
     (case ring3 p x of None \<Rightarrow> False
      | Some e \<Rightarrow> (case acc of Load \<Rightarrow> True | Store \<Rightarrow> bit e 1 | Fetch \<Rightarrow> \<not> bit e 63))"

definition missing :: "Process \<Rightarrow> access \<Rightarrow> nat \<Rightarrow> nat \<Rightarrow> nat option" where
  "missing p acc a n = find (\<lambda>x. \<not> accessible p acc x) [a..<a + n]"

text \<open>
  \<open>hw\<close> is what the stub saves beyond the arguments: the selectors, the instruction pointer and the registers that are
  not set. The error code of a page fault has the bit of ring 3, and those of a write or a fetch; its lowest bit, whether
  the page is present, is the one of \<open>hw\<close>.
\<close>

definition page_fault :: "iframe \<Rightarrow> access \<Rightarrow> iframe" where
  "page_fault hw acc = hw\<lparr>fr_vector := 14,
     fr_error := fr_error hw mod 2 + 4 + (case acc of Load \<Rightarrow> 0 | Store \<Rightarrow> 2 | Fetch \<Rightarrow> 16)\<rparr>"

definition call_frame :: "iframe \<Rightarrow> nat \<Rightarrow> nat \<Rightarrow> nat \<Rightarrow> nat \<Rightarrow> nat \<Rightarrow> nat \<Rightarrow> iframe" where
  "call_frame hw n a b c d e = hw\<lparr>fr_rax := n, fr_rdi := a, fr_rsi := b, fr_rdx := c, fr_rcx := d, fr_r8 := e, fr_vector := 128, fr_error := 0\<rparr>"

text \<open>What \<^verbatim>\<open>_user_start\<close> does with the value of \<^verbatim>\<open>user_main\<close>.\<close>

definition exit_frame :: "iframe \<Rightarrow> int \<Rightarrow> iframe" where
  "exit_frame hw r = hw\<lparr>fr_rax := 0, fr_rdi := as_unsigned r, fr_vector := 128, fr_error := 0\<rparr>"

definition interrupt_at :: "'d iso \<Rightarrow> nat \<Rightarrow> iframe \<Rightarrow> event" where
  "interrupt_at s cr2 f = \<lparr>ev_umem = k_umem (is_k s), ev_cr2 = cr2, ev_frame = f\<rparr>"

text \<open>The interrupts of a program, in order, with the kernel answering its calls.\<close>

primrec play_of :: "'d services \<Rightarrow> Process \<Rightarrow> iframe \<Rightarrow> prog \<Rightarrow> 'd iso \<Rightarrow> event list option" where
  "play_of sv p hw (Return r) = (\<lambda>s. Some [interrupt_at s 0 (exit_frame hw r)])"
| "play_of sv p hw (Call n a b c d e k) = (\<lambda>s. let f = call_frame hw n a b c d e in do {
     (x, t) \<leftarrow> isolation_interrupt sv 0 f s;
     (case x of
        Resume g \<Rightarrow> do { evs \<leftarrow> play_of sv p hw (k (s64 (fr_rax g))) t; Some (interrupt_at s 0 f # evs) }
      | _ \<Rightarrow> Some [interrupt_at s 0 f]) })"
| "play_of sv p hw (Read a n k) = (\<lambda>s.
     (case missing p Load a n of
        Some x \<Rightarrow> Some [interrupt_at s x (page_fault hw Load)]
      | None \<Rightarrow> play_of sv p hw (k (le_value (get_user (k_umem (is_k s)) a n))) s))"
| "play_of sv p hw (Write a bs k) = (\<lambda>s.
     (case missing p Store a (length bs) of
        Some x \<Rightarrow> Some [interrupt_at s x (page_fault hw Store)]
      | None \<Rightarrow> play_of sv p hw k (s\<lparr>is_k := (is_k s)\<lparr>k_umem := put_user (k_umem (is_k s)) a bs\<rparr>\<rparr>)))"
| "play_of sv p hw (Jump a k) = (\<lambda>s.
     (case missing p Fetch a 1 of
        Some x \<Rightarrow> Some [interrupt_at s x (page_fault hw Fetch)]
      | None \<Rightarrow> play_of sv p hw k s))"
| "play_of sv p hw (Trap v) = (\<lambda>s. Some [interrupt_at s 0 (hw\<lparr>fr_vector := v, fr_error := 0\<rparr>)])"

definition user_play :: "'d services \<Rightarrow> image \<Rightarrow> iframe \<Rightarrow> (bytes \<Rightarrow> prog \<Rightarrow> prog) \<Rightarrow> linked \<Rightarrow> nat \<Rightarrow> nat \<Rightarrow> bytes option \<Rightarrow> 'd iso \<Rightarrow> event list option" where
  "user_play sv im hw app ld mode slot command s = do {
     p \<leftarrow> prepare (im_payload im) (im_segments im) (im_processes im) slot mode command;
     program \<leftarrow> user_main app ld (fr_cs hw) (p_startup p);
     play_of sv p hw program (entered p s) }"

text \<open>
  The processes of the shipped program. A process whose interrupts are not defined does not end: it has none. The probe of
  the floating-point state leaves the control word it loads.
\<close>

definition shipped :: "'d services \<Rightarrow> image \<Rightarrow> iframe \<Rightarrow> (bytes \<Rightarrow> prog \<Rightarrow> prog) \<Rightarrow> linked \<Rightarrow> 'd probes \<Rightarrow> 'd probes" where
  "shipped sv im hw app ld pr = pr\<lparr>
     pr_play := \<lambda>mode slot command s. (case user_play sv im hw app ld mode slot command s of None \<Rightarrow> [] | Some play \<Rightarrow> play),
     pr_control := (pr_control pr)(18 := 0x3f80)\<rparr>"

section \<open>The loaded image\<close>

text \<open>The byte at an offset of the image: the last segment with file bytes there decides.\<close>

definition image_byte :: "bytes \<Rightarrow> UserSegment list \<Rightarrow> nat \<Rightarrow> u8" where
  "image_byte payload segments x =
     fold (\<lambda>s v. if sg_offset s \<le> x \<and> x < sg_offset s + sg_file_size s then payload ! (sg_payload_offset s + (x - sg_offset s)) else v) segments 0"

definition seg_at :: "UserSegment list \<Rightarrow> nat \<Rightarrow> UserSegment option" where
  "seg_at segments k = find (\<lambda>s. covers s k) (rev segments)"

lemma map_range_keeps: "map_range p va pa n k flags = Some q \<Longrightarrow> \<exists>t. q = p\<lparr>p_pt := t\<rparr>"
proof (induction p va pa n k flags rule: map_range.induct)
  case (1 p va pa n k flags)
  show ?case
  proof (cases "k < n")
    case False
    then show ?thesis using "1.prems" by (subst (asm) map_range.simps) (auto intro: exI [of _ "p_pt p"])
  next
    case True
    then obtain r where r: "map_page p (va + k) (pa + k) flags = Some r" "map_range r va pa n (k + PAGE) flags = Some q"
      using "1.prems" by (subst (asm) map_range.simps) (auto simp: Option.bind_eq_Some_conv)
    obtain t where "r = p\<lparr>p_pt := t\<rparr>" using r(1) by (auto simp: map_page_def Let_def Option.bind_eq_Some_conv split: if_splits)
    then show ?thesis using "1.IH" [OF True r] by auto
  qed
qed

lemma load_segments_memory:
  assumes "load_segments p payload segments = Some q" "length (p_memory p) = USER_IMAGE_LIMIT" "\<forall>s \<in> set segments. segment_ok payload s"
  shows "\<exists>t m. q = p\<lparr>p_pt := t, p_memory := m\<rparr> \<and> length m = USER_IMAGE_LIMIT \<and> (\<forall>x < USER_IMAGE_LIMIT. m ! x =
    fold (\<lambda>s v. if sg_offset s \<le> x \<and> x < sg_offset s + sg_file_size s then payload ! (sg_payload_offset s + (x - sg_offset s)) else v)
      segments (p_memory p ! x))"
  using assms
proof (induction segments arbitrary: p)
  case Nil
  then show ?case by (auto intro!: exI [of _ "p_pt p"] exI [of _ "p_memory p"])
next
  case (Cons s ss)
  let ?o = "sg_offset s" and ?n = "sg_file_size s" and ?f = "sg_payload_offset s"
  define mem where "mem = take ?o (p_memory p) @ take ?n (drop ?f payload) @ drop (?o + ?n) (p_memory p)"
  have ok: "?o + ?n \<le> USER_IMAGE_LIMIT" "?f + ?n \<le> length payload" using Cons.prems(3) by (auto simp: segment_ok_def)
  have tl [simp]: "length (take ?n (drop ?f payload)) = ?n" using ok(2) by simp
  have cp: "memcpy (p_memory p) ?o payload ?f ?n = Some mem" unfolding mem_def using ok Cons.prems(2) by (intro memcpy_eq) auto
  have lm: "length mem = USER_IMAGE_LIMIT" using ok Cons.prems(2) by (auto simp: mem_def)
  obtain r where r: "map_range (p\<lparr>p_memory := mem\<rparr>) (USER_BASE + ?o) (memory_at p + ?o) (sg_memory_size s) 0 (segment_flags s) = Some r"
    "load_segments r payload ss = Some q" using Cons.prems(1) cp by (auto simp: memory_at_def Option.bind_eq_Some_conv)
  obtain t where t: "r = p\<lparr>p_memory := mem, p_pt := t\<rparr>" using map_range_keeps [OF r(1)] by auto
  have "length (p_memory r) = USER_IMAGE_LIMIT" using t lm by simp
  from Cons.IH [OF r(2) this] Cons.prems(3) obtain t' m where m: "q = r\<lparr>p_pt := t', p_memory := m\<rparr>" "length m = USER_IMAGE_LIMIT"
    "\<forall>x < USER_IMAGE_LIMIT. m ! x = fold (\<lambda>s v. if sg_offset s \<le> x \<and> x < sg_offset s + sg_file_size s then payload ! (sg_payload_offset s + (x - sg_offset s)) else v)
      ss (p_memory r ! x)" by auto
  have "mem ! x = (if ?o \<le> x \<and> x < ?o + ?n then payload ! (?f + (x - ?o)) else p_memory p ! x)" if "x < USER_IMAGE_LIMIT" for x
    using that ok Cons.prems(2) by (auto simp: mem_def nth_append)
  moreover have "q = p\<lparr>p_pt := t', p_memory := m\<rparr>" using m(1) t by simp
  ultimately show ?case using m(2,3) t by (intro exI [of _ t'] exI [of _ m]) simp
qed

lemma prepare_contents:
  assumes "prepare payload segments processes slot mode None = Some p" "image_ok payload segments"
  shows "\<And>x. x < USER_IMAGE_LIMIT \<Longrightarrow> p_memory p ! x = image_byte payload segments x"
    "su_mode (p_startup p) = mode" "su_marker_address (p_startup p) = MARKER"
    "mode = 4 \<or> mode = 5 \<Longrightarrow> su_peer_address (p_startup p) = process_at processes (if slot = 0 then 1 else 0) + 0x8000 + USER_IMAGE_LIMIT - PAGE"
proof -
  let ?p0 = "link_tables (clear_process (process_at processes slot))"
  have sg: "\<forall>s \<in> set segments. segment_ok payload s" using assms(2) by (simp add: image_ok_def)
  have l: "length (p_memory ?p0) = USER_IMAGE_LIMIT" "\<And>x. x < USER_IMAGE_LIMIT \<Longrightarrow> p_memory ?p0 ! x = 0"
    by (simp_all add: link_tables_def clear_process_def)
  obtain p1 p2 p3 p4 su where s: "load_segments ?p0 payload segments = Some p1"
    "map_page p1 MARKER (memory_at p1 + USER_IMAGE_LIMIT - PAGE) (PTE_W OR PTE_NX) = Some p2"
    "map_page p2 USER_STARTUP (startup_at p2) PTE_NX = Some p3"
    "map_range p3 USER_STACK_BOTTOM (stack_at p3) USER_STACK_SIZE 0 (PTE_W OR PTE_NX) = Some p4"
    "fill_startup processes slot mode None (p_startup p4) = Some su" "p = p4\<lparr>p_startup := su\<rparr>"
    using assms(1) unfolding prepare_def Option.bind_eq_Some_conv option.inject by blast
  have k: "map_page a v f fl = Some b \<Longrightarrow> \<exists>t. b = a\<lparr>p_pt := t\<rparr>" for a b v f fl
    by (auto simp: map_page_def Let_def Option.bind_eq_Some_conv split: if_splits)
  obtain t m where m: "p1 = ?p0\<lparr>p_pt := t, p_memory := m\<rparr>" "\<forall>x < USER_IMAGE_LIMIT. m ! x = image_byte payload segments x"
    using load_segments_memory [OF s(1) l(1) sg] l(2) unfolding image_byte_def by auto
  have "p_memory p4 = m" using k [OF s(2)] k [OF s(3)] map_range_keeps [OF s(4)] m(1) by auto
  then show "\<And>x. x < USER_IMAGE_LIMIT \<Longrightarrow> p_memory p ! x = image_byte payload segments x" using m(2) s(6) by simp
  have f: "fill_startup processes slot mode None v = Some su \<Longrightarrow> su_mode su = mode \<and> su_marker_address su = MARKER \<and>
      (mode = 4 \<or> mode = 5 \<longrightarrow> su_peer_address su = process_at processes (if slot = 0 then 1 else 0) + 0x8000 + USER_IMAGE_LIMIT - PAGE)" for v
    by (auto simp: fill_startup_def Let_def split: if_splits)
  show "su_mode (p_startup p) = mode" "su_marker_address (p_startup p) = MARKER"
    "mode = 4 \<or> mode = 5 \<Longrightarrow> su_peer_address (p_startup p) = process_at processes (if slot = 0 then 1 else 0) + 0x8000 + USER_IMAGE_LIMIT - PAGE"
    using f [OF s(5)] s(6) by simp_all
qed

lemma image_entry_seg:
  "image_entry base segments k e = (case seg_at segments k of None \<Rightarrow> e | Some s \<Rightarrow> page_entry (base + k * 4096) (segment_flags s))"
proof (induction segments rule: rev_induct)
  case Nil
  then show ?case by (simp add: image_entry_def seg_at_def)
next
  case (snoc s ss)
  then show ?case by (simp add: image_entry_def seg_at_def)
qed

section \<open>What the process may touch\<close>

text \<open>A process prepared for the self-test, with the page tables the kernel built.\<close>

definition prepared :: "image \<Rightarrow> nat \<Rightarrow> nat \<Rightarrow> Process \<Rightarrow> bool" where
  "prepared im mode slot p \<longleftrightarrow> image_ok (im_payload im) (im_segments im) \<and> processes_ok (im_processes im) \<and> slot < SLOTS \<and>
     prepare (im_payload im) (im_segments im) (im_processes im) slot mode None = Some p"

lemma prepared_exists:
  assumes "image_ok (im_payload im) (im_segments im)" "processes_ok (im_processes im)" "slot < SLOTS"
  shows "\<exists>p. prepared im mode slot p"
  using prepare_ring3 [OF assms(1) _ assms(2,3), of None mode] assms by (auto simp: prepared_def command_ok_def)

lemma prepared_tables: "prepared im mode slot p \<Longrightarrow> tables_wf p"
  using prepare_ring3 [of "im_payload im" "im_segments im" None "im_processes im" slot mode] by (auto simp: prepared_def command_ok_def)

lemma accessible_grants:
  assumes "prepared im mode slot p"
  shows "accessible p Load x = grants p False x" "accessible p Store x = grants p True x"
  using grants_ring3 [of "im_payload im" "im_segments im" None "im_processes im" slot mode p] assms
  by (auto simp: prepared_def command_ok_def accessible_def split: option.splits)

definition entry_at :: "image \<Rightarrow> nat \<Rightarrow> nat \<Rightarrow> u64" where
  "entry_at im slot x = layout_entry (process_at (im_processes im) slot) (im_segments im) ((x - USER_BASE) div 4096)"

lemma grants_entry:
  assumes "prepared im mode slot p" "in_user x"
  shows "grants p wrt x \<longleftrightarrow> bit (entry_at im slot x) 0 \<and> bit (entry_at im slot x) 2 \<and> (wrt \<longrightarrow> bit (entry_at im slot x) 1)"
proof -
  have "pte p (x - x mod PAGE) = Some (entry_at im slot x)"
    using prepare_ring3 [of "im_payload im" "im_segments im" None "im_processes im" slot mode] assms
    by (auto simp: prepared_def command_ok_def entry_at_def)
  then show ?thesis using assms(2) by (simp add: grants_def)
qed

lemma fetch_entry:
  assumes "prepared im mode slot p" "in_user x" "bit (entry_at im slot x) 63"
  shows "\<not> accessible p Fetch x"
proof
  assume a: "accessible p Fetch x"
  then have "x < 2 ^ 48" by (simp add: accessible_def)
  then have "ring3 p x = (let e = entry_at im slot x in if in_user x \<and> user_table e then Some e else None)"
    using prepare_ring3 [of "im_payload im" "im_segments im" None "im_processes im" slot mode] assms(1)
    by (auto simp: prepared_def command_ok_def entry_at_def)
  then show False using a assms(3) by (auto simp: accessible_def Let_def split: if_splits)
qed

lemma page_bits:
  assumes "prepared im mode slot p" "k < 0x841"
  shows "\<And>w x. bit (page_entry (process_at (im_processes im) slot + 0x8000 + k * 4096) (perm w x)) 0 \<and>
    bit (page_entry (process_at (im_processes im) slot + 0x8000 + k * 4096) (perm w x)) 2 \<and>
    bit (page_entry (process_at (im_processes im) slot + 0x8000 + k * 4096) (perm w x)) 1 = w \<and>
    bit (page_entry (process_at (im_processes im) slot + 0x8000 + k * 4096) (perm w x)) 63 = (\<not> x)"
proof -
  have b: "process_at (im_processes im) slot mod 4096 = 0 \<and> process_at (im_processes im) slot + PROCESS_SIZE \<le> 2 ^ 52"
    using slot_ok assms(1) by (simp add: prepared_def)
  have "(0x8000 + k * 4096) mod 4096 = 0" using aligned_add [of "0x8000" "k * 4096"] by simp
  then have m: "(process_at (im_processes im) slot + 0x8000 + k * 4096) mod 4096 = 0"
    using aligned_add [of "process_at (im_processes im) slot" "0x8000 + k * 4096"] b by (simp add: add.assoc)
  have "process_at (im_processes im) slot + 0x8000 + k * 4096 < 2 ^ 52" using b assms(2) by linarith
  from page_entry_bits [OF m this] show "\<And>w x. ?thesis w x" by simp
qed


lemma grants_page:
  assumes "prepared im mode slot p" "in_user x"
    "entry_at im slot x = page_entry (process_at (im_processes im) slot + 0x8000 + k * 4096) (perm w f)" "k < 0x841"
  shows "grants p wrt x \<longleftrightarrow> (wrt \<longrightarrow> w)" "\<not> f \<Longrightarrow> \<not> accessible p Fetch x"
  using grants_entry [OF assms(1,2)] fetch_entry [OF assms(1,2)] page_bits [OF assms(1,4)] unfolding assms(3) by simp_all

lemma entry_segment:
  assumes "USER_BASE \<le> x" "x < MARKER" "seg_at (im_segments im) ((x - USER_BASE) div 4096) = Some s"
  shows "entry_at im slot x = page_entry (process_at (im_processes im) slot + 0x8000 + ((x - USER_BASE) div 4096) * 4096)
    (perm (sg_flags s AND 2 \<noteq> 0) (sg_flags s AND 1 \<noteq> 0))" "(x - USER_BASE) div 4096 < 0x841"
proof -
  have k: "(x - USER_BASE) div 4096 < 0x7ff" using assms(1,2) by linarith
  then show "entry_at im slot x = page_entry (process_at (im_processes im) slot + 0x8000 + ((x - USER_BASE) div 4096) * 4096)
    (perm (sg_flags s AND 2 \<noteq> 0) (sg_flags s AND 1 \<noteq> 0))"
    using assms(3) by (simp add: entry_at_def layout_entry_def image_entry_seg segment_flags_perm)
  show "(x - USER_BASE) div 4096 < 0x841" using k by simp
qed

lemma grants_segment:
  assumes "prepared im mode slot p" "USER_BASE \<le> x" "x < MARKER" "seg_at (im_segments im) ((x - USER_BASE) div 4096) = Some s"
  shows "grants p wrt x \<longleftrightarrow> (wrt \<longrightarrow> sg_flags s AND 2 \<noteq> 0)" "sg_flags s AND 1 = 0 \<Longrightarrow> \<not> accessible p Fetch x"
  using grants_page [OF assms(1) _ entry_segment [OF assms(2-4)]] assms(2,3) by (simp_all add: in_user_def)

lemma grants_outside: "x < USER_BASE \<or> USER_STACK_TOP \<le> x \<Longrightarrow> \<not> grants p wrt x"
  by (auto simp: grants_def in_user_def)

lemma grants_special:
  assumes "prepared im mode slot p"
  shows "MARKER \<le> x \<Longrightarrow> x < MARKER + 4096 \<Longrightarrow> grants p wrt x"
    "USER_STACK_BOTTOM \<le> x \<Longrightarrow> x < USER_STACK_TOP \<Longrightarrow> grants p wrt x"
    "\<not> grants p True USER_STARTUP" "\<not> grants p wrt (USER_STACK_BOTTOM - 1)"
proof -
  have pm: "perm True False = PTE_W OR PTE_NX" "perm False False = PTE_NX" by (simp_all add: perm_def)
  show "grants p wrt x" if "MARKER \<le> x" "x < MARKER + 4096"
  proof -
    have "(x - USER_BASE) div 4096 = 0x7ff" using that by linarith
    then show ?thesis using grants_page(1) [OF assms, of x "0x7ff" True False] that pm by (simp add: entry_at_def layout_entry_def in_user_def add.commute)
  qed
  show "grants p wrt x" if "USER_STACK_BOTTOM \<le> x" "x < USER_STACK_TOP"
  proof -
    define k where "k = (x - USER_BASE) div 4096"
    have k: "0x802 \<le> k" "k < 0x842" using that unfolding k_def by linarith+
    have a: "0x809000 + (k - 0x802) * 4096 = 0x8000 + (k - 1) * 4096" using k(1) by (simp add: diff_mult_distrib)
    have "entry_at im slot x = page_entry (process_at (im_processes im) slot + 0x8000 + (k - 1) * 4096) (perm True False)"
      using k layout_special(2) [OF k] a unfolding entry_at_def k_def by (simp add: add.assoc)
    then show ?thesis using grants_page(1) [OF assms, of x "k - 1" True False] that k(2) by (simp add: in_user_def)
  qed
  have "0x8000 + 0x800 * 4096 = (0x808000 :: nat)" by simp
  then show "\<not> grants p True USER_STARTUP" using grants_page(1) [OF assms, of USER_STARTUP "0x800" False False True]
    by (simp add: entry_at_def layout_special(1) in_user_def add.commute)
  have "\<forall>s \<in> set (im_segments im). segment_ok (im_payload im) s" using assms by (simp add: prepared_def image_ok_def)
  then have "entry_at im slot (USER_STACK_BOTTOM - 1) = 0" using layout_guard by (simp add: entry_at_def)
  then show "\<not> grants p wrt (USER_STACK_BOTTOM - 1)" using grants_entry [OF assms, of "USER_STACK_BOTTOM - 1"] by (simp add: in_user_def)
qed

text \<open>Where the linker put things. A literal lies in mapped pages of the image with its bytes.\<close>

definition holds_text :: "image \<Rightarrow> nat \<Rightarrow> string \<Rightarrow> bool" where
  "holds_text im a t \<longleftrightarrow> USER_BASE \<le> a \<and> a + length t < MARKER \<and>
     (\<forall>j < Suc (length t). image_byte (im_payload im) (im_segments im) (a - USER_BASE + j) = ascii t ! j \<and>
       seg_at (im_segments im) ((a - USER_BASE + j) div 4096) \<noteq> None)"

definition linked_ok :: "image \<Rightarrow> linked \<Rightarrow> bool" where
  "linked_ok im ld \<longleftrightarrow> im_processes im + SLOTS * PROCESS_SIZE \<le> USER_BASE \<and>
     (\<exists>s. seg_at (im_segments im) 0 = Some s \<and> sg_flags s AND 2 = 0) \<and>
     USER_BASE \<le> ld_code ld \<and> ld_code ld < MARKER \<and>
     (\<exists>s. seg_at (im_segments im) ((ld_code ld - USER_BASE) div 4096) = Some s \<and> sg_flags s AND 1 = 0) \<and>
     USER_STACK_BOTTOM \<le> ld_name ld \<and> ld_name ld + 9 \<le> USER_STACK_TOP \<and>
     holds_text im (ld_df ld) (''USER DF-safe syscall PASS'' @ [CHR 0x0A])"

lemma image_text:
  assumes "prepared im mode slot p" "holds_text im a t" "0 \<notin> set (butlast (ascii t))" "length t < 2048"
  shows "user_text p (user_view p) a 2048 (butlast (ascii t))"
proof -
  have h: "USER_BASE \<le> a" "a + length t < MARKER" using assms(2) by (simp_all add: holds_text_def)
  have b: "user_view p (a + j) = ascii t ! j" if "j \<le> length t" for j
  proof -
    have "a + j - USER_BASE = a - USER_BASE + j" "a - USER_BASE + j < USER_IMAGE_LIMIT" using that h by linarith+
    moreover have "p_memory p ! (a - USER_BASE + j) = image_byte (im_payload im) (im_segments im) (a - USER_BASE + j)"
      using prepare_contents(1) [of "im_payload im" "im_segments im" "im_processes im" slot mode p] assms(1) calculation(2) by (simp add: prepared_def)
    ultimately show ?thesis using that h assms(2) by (simp add: user_view_def holds_text_def)
  qed
  have g: "grants p False (a + j)" if "j \<le> length t" for j
  proof -
    have e: "a + j - USER_BASE = a - USER_BASE + j" using h by linarith
    have "j < Suc (length t)" using that by simp
    with assms(2) have "seg_at (im_segments im) ((a - USER_BASE + j) div 4096) \<noteq> None" unfolding holds_text_def by blast
    then obtain s where "seg_at (im_segments im) ((a - USER_BASE + j) div 4096) = Some s" by blast
    then show ?thesis using grants_segment(1) [OF assms(1), of "a + j" s False] that h unfolding e by simp
  qed
  have l: "length (butlast (ascii t)) = length t" "ascii t ! length t = 0" "\<And>j. j < length t \<Longrightarrow> butlast (ascii t) ! j = ascii t ! j"
    by (simp_all add: ascii_def nth_append)
  have "butlast (ascii t) = map (\<lambda>j. user_view p (a + j)) [0..<length t]"
  proof (rule nth_equalityI)
    show "length (butlast (ascii t)) = length (map (\<lambda>j. user_view p (a + j)) [0..<length t])" unfolding l(1) by simp
    show "butlast (ascii t) ! i = map (\<lambda>j. user_view p (a + j)) [0..<length t] ! i" if "i < length (butlast (ascii t))" for i
      using that l(3) [of i] b [of i] unfolding l(1) by simp
  qed
  then show ?thesis unfolding user_text_def l(1) using assms(3,4) b [OF le_refl] g l(2) by (intro conjI) simp_all
qed


section \<open>System calls of the program\<close>

lemma user_string_found:
  assumes "tables_wf p" "user_text p umem a cap s" "cap \<le> length out"
  shows "\<exists>out'. user_string (Some p) umem out a cap = Some (True, out')"
proof -
  have u: "length s < cap" "0 \<notin> set s" "umem (a + length s) = 0" "s = map (\<lambda>j. umem (a + j)) [0..<length s]"
    "\<And>j. j \<le> length s \<Longrightarrow> grants p False (a + j)" using assms(2) by (auto simp: user_text_def)
  have nz: "umem (a + j) \<noteq> 0" if "j < length s" for j
  proof -
    have "s ! j = umem (a + j)" by (subst u(4)) (use that in simp)
    then show ?thesis using that u(2) by (metis nth_mem)
  qed
  have "\<exists>out'. user_string_loop (Some p) umem out a cap i = Some (True, out')" if "i \<le> length s" "cap \<le> length out" for i out
    using that
  proof (induction "length s - i" arbitrary: i out)
    case 0
    then have "i = length s" by simp
    then show ?case using u(1,3) u(5) [of i] grants_max [OF u(5) [of i]] "0.prems"
      by (subst user_string_loop.simps) (simp add: user_byte [OF assms(1), unfolded One_nat_def] wr_Some)
  next
    case (Suc n)
    then have i: "i < length s" "i < cap" "i < length out" using u(1) by simp_all
    have "\<exists>out'. user_string_loop (Some p) umem (out[i := umem (a + i)]) a cap (i + 1) = Some (True, out')"
      using Suc i by (intro Suc.hyps(1)) simp_all
    then show ?case using i u(5) [of i] grants_max [OF u(5) [of i]] nz [OF i(1)]
      by (subst user_string_loop.simps) (simp add: user_byte [OF assms(1), unfolded One_nat_def] wr_Some)
  qed
  from this [of 0 out] assms(3) show ?thesis by (simp add: user_string_def)
qed

lemma user_string_refused:
  "tables_wf p \<Longrightarrow> \<not> grants p False a \<Longrightarrow> 0 < cap \<Longrightarrow> user_string (Some p) umem out a cap = Some (False, out)"
  by (cases "a \<le> UINTPTR_MAX") (subst user_string_def, subst user_string_loop.simps, simp add: user_byte [unfolded One_nat_def])+

lemma user_range_refused:
  "tables_wf p \<Longrightarrow> a \<le> x \<Longrightarrow> x < a + n \<Longrightarrow> \<not> grants p wrt x \<Longrightarrow> user_range (Some p) a n wrt = Some False"
  by (subst user_range_iff) auto

text \<open>Every call of the list is refused: nothing but the counter of refusals changes.\<close>

lemma bad_call_refused:
  assumes "prepared im mode slot p" "linked_ok im ld" "(n, a, b, c, d) \<in> set (bad_calls name)"
  shows "syscall sv (Some p) (call_frame hw n a b c d e) st = reject st"
proof -
  note w = prepared_tables [OF assms(1)]
  have o: "\<not> grants p wrt 0x10000" "\<not> grants p wrt 0xffffffffffffffff" "\<not> grants p wrt USER_STACK_TOP" for wrt
    by (rule grants_outside, simp)+
  obtain s where s: "seg_at (im_segments im) 0 = Some s" "sg_flags s AND 2 = 0" using assms(2) by (auto simp: linked_ok_def)
  have b: "\<not> grants p True USER_BASE" using grants_segment(1) [OF assms(1), of USER_BASE s True] s by simp
  note us = user_string_refused [OF w]
  have rg: "user_range (Some p) 0x10000 n wrt = Some False" if "0 < n" for n wrt
    by (rule user_range_refused [OF w _ _ o(1)]) (use that in simp_all)
  have rb: "user_range (Some p) USER_BASE 8 True = Some False" by (rule user_range_refused [OF w _ _ b]) simp_all
  have rt: "user_range (Some p) (USER_STACK_TOP - 8) 32 True = Some False" by (rule user_range_refused [OF w _ _ o(3)]) simp_all
  have f: "usys_read_file (Some p) name b 32 st = reject st" if "user_range (Some p) b 32 True = Some False" for name b
    by (cases rule: user_string_spec [OF w buffers(3), of "k_umem st" name]) (simp_all add: usys_read_file_def that)
  have g: "usys_write_file (Some p) name b 32 st = reject st" if "user_range (Some p) b 32 False = Some False" for name b
    by (cases rule: user_string_spec [OF w buffers(3), of "k_umem st" name]) (simp_all add: usys_write_file_def that)
  have wr: "usys_write sv (Some p) a st = reject st" if "\<not> grants p False a" for a using us [OF that] by (simp add: usys_write_def)
  have dl: "usys_delete_file (Some p) 0x10000 st = reject st" using us [OF o(1)] by (simp add: usys_delete_file_def)
  have tm: "usys_terminal sv (Some p) 0x10000 st = reject st" using us [OF o(1)] by (simp add: usys_terminal_def)
  have dt: "usys_drawtext sv (Some p) (call_frame hw 12 0 0 0x10000 1 e) st = reject st"
    using us [OF o(1)] by (simp add: usys_drawtext_def call_frame_def s64_def)
  have rl: "usys_readline sv (Some p) USER_BASE 8 st = reject st" using rb by (simp add: usys_readline_def)
  have fl: "usys_files (Some p) 0x10000 64 st = reject st" using rg by (simp add: usys_files_def)
  have pt: "usys_paint sv (call_frame hw 11 0 0 0x7fffffffffffffff 20 e) st = reject st" by (simp add: usys_paint_def call_frame_def)
  have wt: "usys_wait sv 1001 st = reject st" by (simp add: usys_wait_def)
  have fr: "fr_rax (call_frame hw n a b c d e) = n" "fr_rdi (call_frame hw n a b c d e) = a" "fr_rsi (call_frame hw n a b c d e) = b"
    "fr_rdx (call_frame hw n a b c d e) = c" for n a b c d e by (simp_all add: call_frame_def)
  have rd: "usys_read_file (Some p) name 0x10000 32 st = reject st" "usys_read_file (Some p) name (USER_STACK_TOP - 8) 32 st = reject st"
    "usys_write_file (Some p) name 0x10000 32 st = reject st" using f [OF rg] f [OF rt] g [OF rg] by simp_all
  show ?thesis using assms(3) unfolding syscall_def Let_def fr bad_calls_def list.set insert_iff empty_iff prod.inject simp_thms
    by (elim disjE conjE) (simp_all only: simp_thms if_True if_False refl numeral_eq_iff num.distinct num.inject one_eq_numeral_iff numeral_eq_one_iff
      wr [OF o(1)] wr [OF o(2)] dl tm dt rl fl pt wt rd)
qed


section \<open>How a program ends\<close>

text \<open>System calls that come back, then an exit or a fault with a property.\<close>

definition played :: "(event \<Rightarrow> bool) \<Rightarrow> event list option \<Rightarrow> bool" where
  "played P r \<longleftrightarrow> (\<exists>play. r = Some play \<and> ended_with P play)"

definition faults_with :: "nat \<Rightarrow> access option \<Rightarrow> event \<Rightarrow> bool" where
  "faults_with v acc l \<longleftrightarrow> is_fault l \<and> fr_vector (ev_frame l) = v \<and>
     (acc \<noteq> None \<longrightarrow> fr_error (ev_frame l) AND 4 \<noteq> 0) \<and> (acc = Some Fetch \<longrightarrow> fr_error (ev_frame l) AND 16 \<noteq> 0)"

lemma played_mono: "played P r \<Longrightarrow> (\<And>l. P l \<Longrightarrow> R l) \<Longrightarrow> played R r"
  by (auto simp: played_def ended_with_def)

lemma played_one: "from_user l \<Longrightarrow> is_exit l \<or> is_fault l \<Longrightarrow> P l \<Longrightarrow> played P (Some [l])"
  unfolding played_def ended_with_def by (intro exI [of _ "[l]"] conjI exI [of _ "[]"] exI [of _ l]) simp_all

lemma played_more: "played P r \<Longrightarrow> from_user ev \<and> \<not> is_exit ev \<and> \<not> is_fault ev \<Longrightarrow> played P (do { evs \<leftarrow> r; Some (ev # evs) })"
proof -
  assume a: "played P r" "from_user ev \<and> \<not> is_exit ev \<and> \<not> is_fault ev"
  then obtain evs l where "r = Some (evs @ [l])" "\<forall>ev \<in> set evs. from_user ev \<and> \<not> is_exit ev \<and> \<not> is_fault ev" "from_user l" "is_exit l \<or> is_fault l" "P l"
    unfolding played_def ended_with_def by blast
  with a(2) show ?thesis unfolding played_def ended_with_def
    by (intro exI [of _ "ev # evs @ [l]"] conjI exI [of _ "ev # evs"] exI [of _ l]) simp_all
qed

lemma unsigned_s64: "- (2 ^ 63) \<le> r \<Longrightarrow> r < 2 ^ 63 \<Longrightarrow> s64 (as_unsigned r) = r"
proof -
  assume r: "- (2 ^ 63) \<le> r" "r < 2 ^ 63"
  have "r mod 2 ^ 64 = (if r < 0 then r + 2 ^ 64 else r)"
  proof (cases "r < 0")
    case True
    have "(r + 2 ^ 64) mod 2 ^ 64 = r + 2 ^ 64" using r True by (intro mod_pos_pos_trivial) simp_all
    then show ?thesis using True by simp
  next
    case False
    then show ?thesis using r by (simp add: mod_pos_pos_trivial)
  qed
  then show ?thesis using r by (cases "r < 0") (simp_all add: s64_def as_unsigned_def nat_less_iff)
qed

lemma small_s64: "n < 2 ^ 63 \<Longrightarrow> s64 (as_unsigned (int n)) = int n"
  by (rule unsigned_s64) simp_all

lemma s64_range: "n < 2 ^ 64 \<Longrightarrow> - (2 ^ 63) \<le> s64 n \<and> s64 n < 2 ^ 63"
  by (simp add: s64_def)

lemma played_return:
  assumes "fr_cs hw mod 4 = 3" "- (2 ^ 63) \<le> r" "r < 2 ^ 63"
  shows "played (leaves r) (play_of sv p hw (Return r) s)"
  using assms unsigned_s64 [OF assms(2,3)]
  by (auto intro!: played_one simp: interrupt_at_def exit_frame_def from_user_def is_exit_def leaves_def)

lemma page_fault_event:
  assumes "fr_cs hw mod 4 = 3"
  shows "played (faults_with 14 (Some acc)) (Some [interrupt_at s x (page_fault hw acc)])"
proof -
  have "fr_error hw mod 2 = 0 \<or> fr_error hw mod 2 = 1" by auto
  then have "fr_error (page_fault hw acc) AND 4 \<noteq> 0" "acc = Fetch \<longrightarrow> fr_error (page_fault hw acc) AND 16 \<noteq> 0"
    by (cases acc; auto simp: page_fault_def)+
  then show ?thesis using assms
    by (intro played_one) (auto simp: interrupt_at_def from_user_def is_fault_def faults_with_def page_fault_def)
qed

lemma missing_Some: "a \<le> x \<Longrightarrow> x < a + n \<Longrightarrow> \<not> accessible p acc x \<Longrightarrow> \<exists>y. missing p acc a n = Some y"
  by (auto simp: missing_def find_None_iff not_None_eq [symmetric] simp del: not_None_eq)

lemma missing_None: "(\<And>x. a \<le> x \<Longrightarrow> x < a + n \<Longrightarrow> accessible p acc x) \<Longrightarrow> missing p acc a n = None"
  by (auto simp: missing_def find_None_iff)

lemma played_blocked:
  assumes "fr_cs hw mod 4 = 3" "a \<le> x" "x < a + n" "\<not> accessible p acc x"
  shows "acc = Load \<Longrightarrow> played (faults_with 14 (Some acc)) (play_of sv p hw (Read a n k) s)"
    "acc = Store \<Longrightarrow> n = length bs \<Longrightarrow> played (faults_with 14 (Some acc)) (play_of sv p hw (Write a bs q) s)"
    "acc = Fetch \<Longrightarrow> n = 1 \<Longrightarrow> played (faults_with 14 (Some acc)) (play_of sv p hw (Jump a q) s)"
  using missing_Some [OF assms(2-4)] page_fault_event [OF assms(1)] by auto

lemma played_trap:
  assumes "fr_cs hw mod 4 = 3" "v \<noteq> 8" "v \<noteq> 128"
  shows "played (faults_with v None) (play_of sv p hw (Trap v) s)"
  using assms by (auto intro!: played_one simp: interrupt_at_def from_user_def is_fault_def faults_with_def)

text \<open>A call that comes back.\<close>

lemma played_call:
  assumes "fr_cs hw mod 4 = 3" "n \<noteq> 0" "is_active s = Some p" "syscall sv (Some p) (call_frame hw n a b c d e) (is_k s) = Some (r, st)"
    "played P (play_of sv p hw (k (s64 (as_unsigned r))) (s\<lparr>is_k := st\<rparr>))"
  shows "played P (play_of sv p hw (Call n a b c d e k) s)"
proof -
  let ?f = "call_frame hw n a b c d e"
  have "isolation_interrupt sv 0 ?f s = Some (Resume (?f\<lparr>fr_rax := as_unsigned r\<rparr>), s\<lparr>is_k := st\<rparr>)"
    using assms(1-4) by (simp add: isolation_interrupt_def call_frame_def as_unsigned_def)
  moreover have "from_user (interrupt_at s 0 ?f) \<and> \<not> is_exit (interrupt_at s 0 ?f) \<and> \<not> is_fault (interrupt_at s 0 ?f)"
    using assms(1,2) by (simp add: from_user_def is_exit_def is_fault_def interrupt_at_def call_frame_def)
  ultimately show ?thesis using played_more [OF assms(5)] by (simp add: Let_def)
qed

lemma refused_all_played:
  assumes "prepared im mode slot p" "linked_ok im ld" "fr_cs hw mod 4 = 3" "set calls \<subseteq> set (bad_calls name)"
    "\<And>s. is_active s = Some p \<and> kstate_wf live (is_k s) \<Longrightarrow> played P (play_of sv p hw k s)"
    "is_active s = Some p" "kstate_wf live (is_k s)"
  shows "played P (play_of sv p hw (refused_all calls k) s)"
  using assms(4,6,7)
proof (induction calls arbitrary: s)
  case Nil
  then show ?case using assms(5) by simp
next
  case (Cons x calls)
  obtain n a b c d where x: "x = (n, a, b, c, d)" by (rule prod_cases5)
  then have m: "(n, a, b, c, d) \<in> set (bad_calls name)" using Cons.prems(1) by simp
  let ?st = "(is_k s)\<lparr>k_rejected := k_rejected (is_k s) + 1\<rparr>"
  have r: "syscall sv (Some p) (call_frame hw n a b c d e) (is_k s) = Some (-1, ?st)" for e
    using bad_call_refused [OF assms(1,2) m] by (simp add: reject_def)
  have n: "n \<noteq> 0" using m by (auto simp: bad_calls_def)
  have s1: "s64 (as_unsigned (-1)) = -1" by (rule unsigned_s64) simp_all
  have "played P (play_of sv p hw (refused_all calls k) (s\<lparr>is_k := ?st\<rparr>))"
    using Cons.prems by (intro Cons.IH) (simp_all add: kstate_wf_def)
  then show ?case unfolding x refused_all.simps by (intro played_call [OF assms(3) n Cons.prems(2) r]) (simp add: s1)
qed

section \<open>The probes\<close>

declare play_of.simps [simp del]

lemma entered_simps [simp]:
  "is_active (entered p s) = Some p" "k_umem (is_k (entered p s)) = user_view p" "k_pid (is_k (entered p s)) = k_pid (is_k s) + 1"
  "kstate_wf live (is_k (entered p s)) = kstate_wf live (is_k s)"
  by (simp_all add: entered_def kstate_wf_def)

lemma faults_stopped: "faults_with v acc l \<Longrightarrow> v = 14 \<longrightarrow> acc \<noteq> None \<Longrightarrow> mode = 10 \<longrightarrow> acc = Some Fetch \<Longrightarrow> stopped mode v l"
  by (auto simp: faults_with_def stopped_def Let_def)

lemma blocked_stopped:
  assumes "fr_cs hw mod 4 = 3" "\<not> accessible p acc x" "mode = 10 \<longrightarrow> acc = Fetch"
  shows "acc = Load \<Longrightarrow> 0 < n \<Longrightarrow> played (stopped mode 14) (play_of sv p hw (Read x n k) s)"
    "acc = Store \<Longrightarrow> bs \<noteq> [] \<Longrightarrow> played (stopped mode 14) (play_of sv p hw (Write x bs q) s)"
    "acc = Fetch \<Longrightarrow> played (stopped mode 14) (play_of sv p hw (Jump x q) s)"
proof -
  have m: "played (stopped mode 14) r" if "played (faults_with 14 (Some acc)) r" for r
    using assms(3) by (intro played_mono [OF that] faults_stopped) auto
  show "played (stopped mode 14) (play_of sv p hw (Read x n k) s)" if "acc = Load" "0 < n"
    by (rule m) (rule played_blocked(1) [OF assms(1) le_refl _ assms(2) that(1)], use that(2) in simp)
  show "played (stopped mode 14) (play_of sv p hw (Write x bs q) s)" if "acc = Store" "bs \<noteq> []"
    by (rule m) (rule played_blocked(2) [OF assms(1) le_refl _ assms(2) that(1) refl], use that(2) in simp)
  show "played (stopped mode 14) (play_of sv p hw (Jump x q) s)" if "acc = Fetch"
    by (rule m) (rule played_blocked(3) [OF assms(1) le_refl _ assms(2) that refl], simp)
qed

lemma trap_stopped: "fr_cs hw mod 4 = 3 \<Longrightarrow> v \<noteq> 8 \<Longrightarrow> v \<noteq> 128 \<Longrightarrow> v \<noteq> 14 \<Longrightarrow> mode \<noteq> 10 \<Longrightarrow> played (stopped mode v) (play_of sv p hw (Trap v) s)"
  by (rule played_mono [OF played_trap]) (simp_all add: faults_stopped)

lemma ring3_selector: "n mod 4 = 3 \<Longrightarrow> n AND 3 = (3 :: nat)"
  using take_bit_eq_mask [of 2 n] by (simp add: take_bit_eq_mod mask_eq_exp_minus_1)

lemma peer_outside:
  assumes "linked_ok im ld"
  shows "process_at (im_processes im) (if slot = 0 then 1 else 0) + 0x8000 + USER_IMAGE_LIMIT - PAGE < USER_BASE"
  using assms by (simp add: linked_ok_def process_at_def)

lemma fault_probe:
  assumes "prepared im mode slot p" "linked_ok im ld" "fr_cs hw mod 4 = 3" "(mode, v, name) \<in> set fault_tests"
  shows "\<exists>k. user_main app ld (fr_cs hw) (p_startup p) = Some k \<and> (\<forall>s. played (stopped mode v) (play_of sv p hw k s))"
proof -
  have io: "prepare (im_payload im) (im_segments im) (im_processes im) slot mode None = Some p" "image_ok (im_payload im) (im_segments im)"
    using assms(1) by (simp_all add: prepared_def)
  note su = prepare_contents(2-4) [OF io]
  note m = user_main_def Let_def su(1) ring3_selector [OF assms(3)]
  note go = blocked_stopped [OF assms(3)] trap_stopped [OF assms(3)]
  note ag = accessible_grants [OF assms(1)]
  have out: "\<not> accessible p Load x \<and> \<not> accessible p Store x" if "x < USER_BASE" for x using grants_outside [of x p] that by (simp add: ag)
  obtain t where t: "seg_at (im_segments im) 0 = Some t" "sg_flags t AND 2 = 0" using assms(2) by (auto simp: linked_ok_def)
  obtain d where d: "USER_BASE \<le> ld_code ld" "ld_code ld < MARKER" "seg_at (im_segments im) ((ld_code ld - USER_BASE) div 4096) = Some d" "sg_flags d AND 1 = 0"
    using assms(2) by (auto simp: linked_ok_def)
  have code: "\<not> accessible p Store USER_BASE" using grants_segment(1) [OF assms(1), of USER_BASE t True] t by (simp add: ag)
  have data: "\<not> accessible p Fetch (ld_code ld)" by (rule grants_segment(2) [OF assms(1) d])
  have startup: "\<not> accessible p Store USER_STARTUP" using grants_special(3) [OF assms(1)] by (simp add: ag)
  have guard: "\<not> accessible p Load (USER_STACK_BOTTOM - 1)" using grants_special(4) [OF assms(1)] by (simp add: ag)
  have peer: "mode = 4 \<or> mode = 5 \<Longrightarrow> su_peer_address (p_startup p) < USER_BASE" using su(3) peer_outside [OF assms(2), of slot] by simp
  have l: "le64 n \<noteq> []" for n by (simp add: le64_def)
  have "mode = 2 \<and> v = 14 \<or> mode = 3 \<and> v = 14 \<or> mode = 4 \<and> v = 14 \<or> mode = 5 \<and> v = 14 \<or> mode = 6 \<and> v = 13 \<or> mode = 7 \<and> v = 13 \<or> mode = 8 \<and> v = 13 \<or>
      mode = 9 \<and> v = 14 \<or> mode = 19 \<and> v = 0 \<or> mode = 20 \<and> v = 6 \<or> mode = 10 \<and> v = 14 \<or> mode = 11 \<and> v = 14 \<or> mode = 16 \<and> v = 14 \<or> mode = 12 \<and> v = 14"
    using assms(4) by (auto simp: fault_tests_def)
  then show ?thesis
    by (elim disjE conjE; simp add: m; intro allI go; simp add: out code data startup guard [simplified] peer l)
qed

text \<open>A probe that was not stopped leaves by the exit call; the test takes status -1 for a division by zero.\<close>

definition gets_through :: "nat \<Rightarrow> event \<Rightarrow> bool" where
  "gets_through mode l \<longleftrightarrow> is_exit l \<and> (mode = 19 \<longrightarrow> \<not> leaves (-1) l)"

context kernel_services
begin

lemma print_played:
  assumes "fr_cs hw mod 4 = 3" "tables_wf p" "is_active s = Some p" "kstate_wf live (is_k s)"
    "\<And>s. is_active s = Some p \<Longrightarrow> kstate_wf live (is_k s) \<Longrightarrow> played P (play_of sv p hw k s)"
  shows "played P (play_of sv p hw (user_write a k) s)"
proof -
  obtain r st where r: "syscall sv (Some p) (call_frame hw 1 a 0 0 0 0) (is_k s) = Some (r, st)" "kstate_wf live st"
    using syscall_is_contained [OF assms(2,4)] unfolding contained_def by blast
  show ?thesis unfolding user_write_def by (rule played_call [OF assms(1) _ assms(3) r(1)]) (use assms(3,5) r(2) in simp_all)
qed

lemma clean_exit:
  assumes "fr_cs hw mod 4 = 3"
  shows "played (leaves 0) (play_of sv p hw (Return 0) s)"
  by (rule played_return [OF assms]) simp_all

lemma marker_probe:
  assumes "prepared im mode slot p" "fr_cs hw mod 4 = 3"
  shows "played (\<lambda>l. leaves 0 l \<and> marked (ev_umem l)) (play_of sv p hw (Write MARKER (le64 0xabcddcba) (Return 0)) s)"
proof -
  have "missing p Store MARKER (length (le64 0xabcddcba)) = None"
    by (rule missing_None) (simp add: accessible_grants [OF assms(1)] grants_special(1) [OF assms(1)] le64_def)
  moreover have "marked (put_user m MARKER (le64 0xabcddcba))" for m
    by (simp add: marked_def marker_word_def get_user_def put_user_def le64_def le_value_def upt_rec)
  moreover have "s64 (as_unsigned 0) = 0" by (rule unsigned_s64) simp_all
  ultimately show ?thesis using assms(2) unfolding play_of.simps
    by (auto intro!: played_one simp: interrupt_at_def exit_frame_def from_user_def is_exit_def leaves_def)
qed

lemma marker_zero:
  assumes "prepared im mode slot p" "j < 8"
  shows "user_view p (MARKER + j) = 0"
proof -
  have io: "prepare (im_payload im) (im_segments im) (im_processes im) slot mode None = Some p" "image_ok (im_payload im) (im_segments im)"
    using assms(1) by (simp_all add: prepared_def)
  have z: "fold (\<lambda>s v. if sg_offset s \<le> x \<and> x < sg_offset s + sg_file_size s then g s else v) ss v = v"
    if "\<forall>s \<in> set ss. segment_ok (im_payload im) s" "0x7ff000 \<le> x" for x g ss and v :: u8
    using that by (induction ss) (auto simp: segment_ok_def)
  have "image_byte (im_payload im) (im_segments im) (0x7ff000 + j) = 0"
    unfolding image_byte_def using io(2) by (intro z) (simp_all add: image_ok_def)
  then show ?thesis using prepare_contents(1) [OF io, of "0x7ff000 + j"] assms(2) by (simp add: user_view_def)
qed

text \<open>The probes that must leave with status 0.\<close>

lemma health_probe:
  assumes "prepared im mode slot p" "fr_cs hw mod 4 = 3" "is_active s = Some p" "kstate_wf live (is_k s)" "k_pid (is_k s) \<noteq> 0"
  shows "played (leaves 0) (play_of sv p hw (Call 15 0 0 0 0 0 (\<lambda>r. if r \<le> 0 then Return 91 else user_write a (Return 0))) s)"
proof -
  let ?n = "int (unat (k_pid (is_k s)))"
  have "s64 (as_unsigned ?n) = ?n" using unat_lt_u32 [of "k_pid (is_k s)"] by (intro small_s64) simp
  moreover have "0 < unat (k_pid (is_k s))" using assms(5) by (simp add: unat_gt_0)
  then have "0 < ?n" by (simp only: of_nat_0_less_iff)
  ultimately show ?thesis
    by (intro played_call [OF assms(2) _ assms(3), where r = ?n and st = "is_k s"])
      (simp_all add: syscall_def Let_def call_frame_def print_played [OF assms(2) prepared_tables [OF assms(1)] assms(3,4)] clean_exit [OF assms(2)])
qed

lemma marker_read_probe:
  assumes "prepared im mode slot p" "fr_cs hw mod 4 = 3"
  shows "played (leaves 0) (play_of sv p hw (Read MARKER 8 (\<lambda>v. Return (if v \<noteq> 0 then 93 else 0))) (entered p s))"
proof -
  have "missing p Load MARKER 8 = None"
    by (rule missing_None) (simp add: accessible_grants [OF assms(1)] grants_special(1) [OF assms(1)])
  moreover have "get_user (user_view p) MARKER 8 = replicate 8 0"
    by (rule nth_equalityI) (simp_all add: get_user_def marker_zero [OF assms(1)])
  moreover have "foldr (\<lambda>b v. unat b + 256 * v) (replicate n 0) 0 = 0" for n by (induction n) simp_all
  then have "le_value (replicate 8 0) = 0" by (simp only: le_value_def)
  ultimately show ?thesis using clean_exit [OF assms(2)] unfolding play_of.simps entered_simps by simp
qed

lemma df_probe:
  assumes "prepared im mode slot p" "linked_ok im ld" "fr_cs hw mod 4 = 3" "kstate_wf live (is_k s)"
  shows "played (leaves 0) (play_of sv p hw (Call 1 (ld_df ld) 0 0 0 0 Return) (entered p s))"
proof -
  note w = prepared_tables [OF assms(1)]
  let ?t = "''USER DF-safe syscall PASS'' @ [CHR 0x0A]"
  have h: "holds_text im (ld_df ld) ?t" using assms(2) by (simp add: linked_ok_def)
  have u: "user_text p (user_view p) (ld_df ld) 2048 (butlast (ascii ?t))"
    by (rule image_text [OF assms(1) h]) (simp_all add: ascii_def)
  obtain out where o: "user_string (Some p) (user_view p) text_buffer (ld_df ld) 2048 = Some (True, out)"
    using user_string_found [OF w u, of text_buffer] by (auto simp: text_buffer_def)
  have "is_cstr out"
    using o by (cases rule: user_string_spec [OF w buffers(1), of "user_view p" "ld_df ld"]) simp_all
  then obtain d where "sv_write sv out (k_dev (is_k (entered p s))) = Some d" using write_ok assms(4) by (fastforce simp: kstate_wf_def entered_def)
  then have r: "syscall sv (Some p) (call_frame hw 1 (ld_df ld) 0 0 0 0) (is_k (entered p s)) = Some (0, (is_k (entered p s))\<lparr>k_dev := d\<rparr>)"
    by (simp add: syscall_def Let_def call_frame_def usys_write_def o serve_def)
  have "s64 (as_unsigned 0) = 0" by (rule unsigned_s64) simp_all
  then show ?thesis by (intro played_call [OF assms(3) _ _ r]) (simp_all add: clean_exit [OF assms(3)])
qed

lemma pointer_probe:
  assumes "prepared im mode slot p" "linked_ok im ld" "fr_cs hw mod 4 = 3" "is_active s = Some p" "kstate_wf live (is_k s)"
  shows "played (leaves 0) (play_of sv p hw (Write (ld_name ld) (ascii ''demo.ape'')
    (refused_all (bad_calls (ld_name ld)) (user_write a (Return 0)))) s)"
proof -
  let ?s = "s\<lparr>is_k := (is_k s)\<lparr>k_umem := put_user (k_umem (is_k s)) (ld_name ld) (ascii ''demo.ape'')\<rparr>\<rparr>"
  have n: "USER_STACK_BOTTOM \<le> ld_name ld" "ld_name ld + 9 \<le> USER_STACK_TOP" using assms(2) by (simp_all add: linked_ok_def)
  have l: "length (ascii ''demo.ape'') = 9" by (simp add: ascii_def)
  have "missing p Store (ld_name ld) (length (ascii ''demo.ape'')) = None" unfolding l
    by (rule missing_None) (use n in \<open>simp add: accessible_grants [OF assms(1)] grants_special(2) [OF assms(1)]\<close>)
  moreover have "played (leaves 0) (play_of sv p hw (refused_all (bad_calls (ld_name ld)) (user_write a (Return 0))) ?s)"
  proof (rule refused_all_played [OF assms(1-3) subset_refl])
    show "played (leaves 0) (play_of sv p hw (user_write a (Return 0)) s)" if "is_active s = Some p \<and> kstate_wf live (is_k s)" for s
      using that by (intro print_played [OF assms(3) prepared_tables [OF assms(1)]] clean_exit [OF assms(3)]) simp_all
  qed (use assms(4,5) in \<open>simp_all add: kstate_wf_def\<close>)
  ultimately show ?thesis unfolding play_of.simps by simp
qed

text \<open>Every process of the test ends as the test wants.\<close>

lemma user_play_passes:
  assumes "image_ok (im_payload im) (im_segments im)" "processes_ok (im_processes im)" "linked_ok im ld" "fr_cs hw mod 4 = 3"
    "(mode, slot) \<in> set schedule" "fresh s"
  shows "played (\<lambda>l. passes mode l \<and> (mode = 14 \<longrightarrow> marked (ev_umem l))) (user_play sv im hw app ld mode slot None s)"
proof -
  have "slot < SLOTS" using assms(5) by (auto simp: schedule_def fault_tests_def)
  then obtain p where p: "prepared im mode slot p" using prepared_exists assms(1,2) by blast
  then have io: "prepare (im_payload im) (im_segments im) (im_processes im) slot mode None = Some p" by (simp add: prepared_def)
  note su = prepare_contents(2,3) [OF io assms(1)]
  have f: "is_active (entered p s) = Some p" "kstate_wf live (is_k (entered p s))" "k_pid (is_k (entered p s)) \<noteq> 0"
    using assms(6) by (simp_all add: fresh_def idle_def)
  have k: "kstate_wf live (is_k s)" using assms(6) by (simp add: fresh_def idle_def)
  have u: "user_play sv im hw app ld mode slot None s = Option.bind (user_main app ld (fr_cs hw) (p_startup p)) (\<lambda>k. play_of sv p hw k (entered p s))"
    by (simp add: user_play_def io)
  show ?thesis
  proof (cases "map_of fault_tests mode")
    case (Some x)
    obtain v name where x: "x = (v, name)" by (cases x)
    have m: "(mode, v, name) \<in> set fault_tests" "mode \<noteq> 14" using map_of_SomeD [OF Some [unfolded x]] by (auto simp: fault_tests_def)
    from fault_probe [OF p assms(3,4) m(1)] obtain k where "user_main app ld (fr_cs hw) (p_startup p) = Some k"
      "played (stopped mode v) (play_of sv p hw k (entered p s))" by blast
    then show ?thesis using m(2) by (simp add: u passes_def Some x)
  next
    case None
    then have m: "mode = 1 \<or> mode = 14 \<or> mode = 15 \<or> mode = 17 \<or> mode = 18 \<or> mode = 13"
      using assms(5) by (force simp: schedule_def map_of_eq_None_iff)
    have q: "passes mode = leaves 0" using None by (simp add: fun_eq_iff passes_def)
    note d = user_main_def Let_def su ring3_selector [OF assms(4)]
    note g = health_probe [OF p assms(4) f, of "ld_health ld"] marker_probe [OF p assms(4), of "entered p s"] marker_read_probe [OF p assms(4), of s]
      df_probe [OF p assms(3,4) k] clean_exit [OF assms(4), of p "entered p s"] pointer_probe [OF p assms(3,4) f(1,2), of "ld_checked ld"]
    show ?thesis unfolding u q using m
    proof (elim disjE)
    qed (use g in \<open>simp_all add: d cong: if_cong\<close>)
  qed
qed

lemma shipped_behave:
  assumes "image_ok (im_payload im) (im_segments im)" "processes_ok (im_processes im)" "linked_ok im ld" "fr_cs hw mod 4 = 3"
  shows "behave (shipped sv im hw app ld pr) (\<lambda>_. True) True"
  unfolding behave_def
proof (clarify)
  fix mode slot s
  assume "(mode, slot) \<in> set schedule" "fresh s"
  from user_play_passes [OF assms this, of app] obtain play where "user_play sv im hw app ld mode slot None s = Some play"
    "ended_with (\<lambda>l. passes mode l \<and> (mode = 14 \<longrightarrow> marked (ev_umem l))) play" unfolding played_def by blast
  then show "ended_with (\<lambda>l. passes mode l = True \<and> (mode = 14 \<longrightarrow> marked (ev_umem l) = True)) (pr_play (shipped sv im hw app ld pr) mode slot None s)"
    by (simp add: shipped_def)
qed

text \<open>One probe that gets through.\<close>

lemma leak_behaves:
  assumes "behave pr (\<lambda>_. True) True" "mode \<in> fst ` set fault_tests" "\<And>s. ended_with (gets_through mode) (play s)"
  shows "behave (pr\<lparr>pr_play := (pr_play pr)(mode := \<lambda>_ _. play)\<rparr>) (\<lambda>m. m \<noteq> mode) True"
  unfolding behave_def
proof (clarify)
  fix m slot s
  assume m: "(m, slot) \<in> set schedule" "fresh s"
  have d: "distinct (map fst fault_tests)" "14 \<notin> fst ` set fault_tests" by (simp_all add: fault_tests_def)
  obtain v name where x: "(mode, v, name) \<in> set fault_tests" using assms(2) by force
  have "passes mode l = stopped mode v l" for l using map_of_is_SomeI [OF d(1) x] by (simp add: passes_def)
  moreover have "v = 0 \<longrightarrow> mode = 19" using x by (auto simp: fault_tests_def)
  ultimately have n: "\<not> passes mode l" if "gets_through mode l" for l
    using that by (auto simp: gets_through_def stopped_def leaves_def is_exit_def is_fault_def Let_def)
  have r: "mode \<noteq> 14" using d(2) assms(2) by blast
  show "ended_with (\<lambda>l. passes m l = (m \<noteq> mode) \<and> (m = 14 \<longrightarrow> marked (ev_umem l) = True))
      (pr_play (pr\<lparr>pr_play := (pr_play pr)(mode := \<lambda>_ _. play)\<rparr>) m slot None s)"
  proof (cases "m = mode")
    case True
    have "ended_with (\<lambda>l. passes mode l = False) (play s)" using assms(3) [of s] n unfolding ended_with_def by blast
    then show ?thesis using True r by simp
  next
    case False
    then show ?thesis using assms(1) m unfolding behave_def by fastforce
  qed
qed

end

section \<open>The test of the shipped program\<close>

definition in_order :: "'a device iso \<Rightarrow> bool" where
  "in_order s \<longleftrightarrow> is_ready s \<and> is_active s = None \<and> kstate_wf device_wf (is_k s)"

text \<open>C39: The protection self-test is sound for the program the kernel ships. The processes are those of the user program,
  run on the page tables the kernel prepares and with the kernel answering their system calls: then \<open>isolation test\<close> comes
  back and reports no failure, so every forbidden access of a probe ends in the expected fault, every bad system call is
  refused, and the healthy probes leave with status 0. Had one of the probes for forbidden accesses and instructions not been
  stopped but left by the exit call, the test would report a failure (the division by zero excepted, when it left with status
  -1, which the test cannot tell from the fault). The kernel is in order afterwards.\<close>

theorem shipped_test_passes:
  fixes s :: "'a device iso"
  assumes "in_order s" "unat (k_pid (is_k s)) + 21 < 2 ^ 32"
    "image_ok (im_payload im) (im_segments im)" "processes_ok (im_processes im)" "linked_ok im ld" "fr_cs hw mod 4 = 3"
  shows "(\<exists>s'. isolation_test (console_services rtl_poll) im (shipped (console_services rtl_poll) im hw app ld pr) s = Some (0, s') \<and> in_order s') \<and>
    (\<forall>mode play. mode \<in> fst ` set fault_tests \<and> (\<forall>t. ended_with (gets_through mode) (play t)) \<longrightarrow>
      (\<exists>n s'. isolation_test (console_services rtl_poll) im
          (let sh = shipped (console_services rtl_poll) im hw app ld pr in sh\<lparr>pr_play := (pr_play sh)(mode := \<lambda>_ _. play)\<rparr>) s = Some (n, s') \<and>
        0 < n \<and> in_order s'))"
proof (intro conjI allI impI)
  have i: "console.idle s" "\<And>s'. console.idle s' \<Longrightarrow> in_order s'" using assms(1) by (simp_all add: console.idle_def in_order_def)
  note b = console.shipped_behave [OF assms(3-6), of rtl_poll app pr]
  show "\<exists>s'. isolation_test (console_services rtl_poll) im (shipped (console_services rtl_poll) im hw app ld pr) s = Some (0, s') \<and> in_order s'"
    using console.isolation_test_counts [OF i(1) assms(3,4) b assms(2), of rtl_poll] i(2) by auto
  fix mode and play :: "'a device iso \<Rightarrow> event list"
  assume m: "mode \<in> fst ` set fault_tests \<and> (\<forall>t. ended_with (gets_through mode) (play t))"
  then have p: "mode \<in> fst ` set fault_tests" "\<And>t. ended_with (gets_through mode) (play t)" by simp_all
  have "(mode, 1) \<in> set schedule" using p(1) by (force simp: schedule_def)
  then have "\<not> (\<forall>(m, slot) \<in> set schedule. m \<noteq> mode)" by blast
  with console.isolation_test_counts [OF i(1) assms(3,4) console.leak_behaves [OF b, where play = play, OF p] assms(2), of rtl_poll] i(2)
  show "\<exists>n s'. isolation_test (console_services rtl_poll) im
      (let sh = shipped (console_services rtl_poll) im hw app ld pr in sh\<lparr>pr_play := (pr_play sh)(mode := \<lambda>_ _. play)\<rparr>) s = Some (n, s') \<and>
    0 < n \<and> in_order s'" unfolding Let_def by blast
qed

definition demo_text :: string where "demo_text = ''USER DF-safe syscall PASS'' @ [CHR 0x0A]"

definition demo_program :: image where
  "demo_program = \<lparr>im_payload = 0xc3 # ascii demo_text @ [0xc3],
     im_segments = [\<lparr>sg_offset = 0, sg_memory_size = 1, sg_file_size = 1, sg_payload_offset = 0, sg_flags = 5\<rparr>,
       \<lparr>sg_offset = 0x2000, sg_memory_size = 27, sg_file_size = 27, sg_payload_offset = 1, sg_flags = 4\<rparr>,
       \<lparr>sg_offset = 0x3000, sg_memory_size = 200, sg_file_size = 1, sg_payload_offset = 28, sg_flags = 6\<rparr>],
     im_processes = 0x200000\<rparr>"

definition demo_linked :: linked where
  "demo_linked = \<lparr>ld_code = USER_BASE + 0x3000, ld_name = USER_STACK_TOP - 64, ld_health = USER_BASE + 0x2000, ld_df = USER_BASE + 0x2000,
     ld_checked = USER_BASE + 0x2000\<rparr>"

lemma demo_program_ok:
  "image_ok (im_payload demo_program) (im_segments demo_program)" "processes_ok (im_processes demo_program)" "linked_ok demo_program demo_linked"
proof -
  have l: "length demo_text = 26" by (simp add: demo_text_def)
  show "image_ok (im_payload demo_program) (im_segments demo_program)" "processes_ok (im_processes demo_program)"
    by (simp_all add: image_ok_def processes_ok_def demo_program_def segment_ok_def l ascii_def)
  have "holds_text demo_program (ld_df demo_linked) demo_text"
  proof -
    have d: "(0x2000 + j) div 4096 = (2 :: nat)" if "j < 27" for j using that by linarith
    show ?thesis by (auto simp: holds_text_def l demo_linked_def demo_program_def image_byte_def seg_at_def covers_def d nth_append ascii_def)
  qed
  then show "linked_ok demo_program demo_linked"
    unfolding linked_ok_def demo_text_def by (simp add: demo_program_def demo_linked_def seg_at_def covers_def process_at_def)
qed

definition demo_probes :: "unit device probes" where
  "demo_probes = \<lparr>pr_play = \<lambda>_ _ _ _. [], pr_control = \<lambda>_. 0x1f80, pr_memory = \<lambda>_ _. 0, pr_mxcsr = 0x1f80\<rparr>"

abbreviation demo_shipped :: "unit device probes" where
  "demo_shipped \<equiv> shipped (console_services id) demo_program (ev_frame (demo_event 0 0)) (\<lambda>_ k. k) demo_linked demo_probes"

theorem shipped_test_passes_witness:
  "(\<exists>s'. isolation_test (console_services id) demo_program demo_shipped demo_iso = Some (0, s') \<and> in_order s') \<and>
   (\<exists>n s'. isolation_test (console_services id) demo_program (let sh = demo_shipped in sh\<lparr>pr_play := (pr_play sh)(10 := \<lambda>_ _ _.
       [(demo_event 128 0)\<lparr>ev_frame := (ev_frame (demo_event 128 0))\<lparr>fr_rdi := 95\<rparr>\<rparr>])\<rparr>) demo_iso = Some (n, s') \<and> 0 < n \<and> in_order s')"
proof -
  let ?l = "(demo_event 128 0)\<lparr>ev_frame := (ev_frame (demo_event 128 0))\<lparr>fr_rdi := 95\<rparr>\<rparr>"
  have s: "in_order demo_iso" "unat (k_pid (is_k demo_iso)) + 21 < 2 ^ 32" "fr_cs (ev_frame (demo_event 0 0)) mod 4 = 3"
    using demo_kstate_wf by (simp_all add: in_order_def demo_iso_def demo_kstate_def demo_event_def)
  note t = shipped_test_passes [OF s(1,2) demo_program_ok s(3), of id "\<lambda>_ k. k" demo_probes]
  have p: "(10 :: nat) \<in> fst ` set fault_tests \<and> (\<forall>t :: unit device iso. ended_with (gets_through 10) [?l])"
    by (simp add: fault_tests_def ended_with_def gets_through_def is_exit_def from_user_def demo_event_def)
  show ?thesis using conjunct1 [OF t] conjunct2 [OF t, rule_format, OF p] by (intro conjI)
qed

end
