(* ===== verification/Spec2Isabelle.thy ===== *)
theory Spec2Isabelle
  imports Shell Editor Calculator Runtime_Files Tcp_Command Rule_Text Driver Bpf_Validate Bpf_Lpm Allocator Scheduler User_Program
begin

text \<open>
  JordyOS, the operating system under \<^verbatim>\<open>src/jordyOS\<close>: a small x86-64 kernel with a text and a graphical console, a RAM
  file system, a cooperative scheduler, isolated ring 3 applications, and a network stack with a firewall whose policy
  runs as an eBPF program. This development models its C code, component by component, and proves what makes each
  component correct. It is a shallow embedding: a function of the sources is a function here, on its state as a record
  and with the branches of the source.

  \<^bold>\<open>Conventions.\<close> Machine integers are words of their width (\<open>u8\<close> to \<open>u64\<close>) where wrap-around matters; an \<^verbatim>\<open>int\<close> that
  may not overflow is an \<open>int\<close> whose overflow is \<open>None\<close>; a \<^verbatim>\<open>size_t\<close> counts modulo \<open>2 ^ 64\<close> and becomes a C \<^verbatim>\<open>int\<close> where the
  source converts it. A buffer is a list of bytes; reading or writing outside it,
  and any other undefined behaviour of C, is the value \<open>None\<close>, so that a theorem that says \<open>Some\<close> is a theorem about
  memory safety. Errors the sources report are values of the result. Loops are structural or well-founded recursions
  where they end by themselves; loops that wait for the outside world are partial functions into option, where \<open>None\<close>
  also stands for never returning.

  \<^bold>\<open>Parts and theories.\<close> In the order in which they build on each other:

  \<^item> \<open>Kernel_Prelude\<close>, \<open>Decimal\<close>: bounded buffers, words as numbers, decimal notation; the interface \<open>byte_field\<close> of an
    accessor pair for a field of a buffer.
  \<^item> \<open>Clib\<close>, \<open>Filesystem\<close> (\<^verbatim>\<open>kernel.c\<close>, \<^verbatim>\<open>util.h\<close>): the string routines, and the table \<^verbatim>\<open>fs_files\<close> as a list of records \<open>file_t\<close>;
    any sequence of calls refines a bounded map from names to contents (interface \<open>file_store\<close>).
  \<^item> \<open>Scheduler\<close> (\<^verbatim>\<open>kernel.c\<close>, \<^verbatim>\<open>ctx_switch.asm\<close>): tasks, \<^verbatim>\<open>yield\<close> and the context switch over a memory of 64-bit words; round
    robin is fair and a switched task resumes.
  \<^item> \<open>Gui\<close>, \<open>Console\<close> (\<^verbatim>\<open>gui.c\<close>, \<^verbatim>\<open>kernel.c\<close>, the timer of \<^verbatim>\<open>ape/platform.c\<close>): drawing into the frame buffer, terminal and launcher;
    keyboard, serial line and the line editor. The input ports are an infinite sequence indexed by polls.
  \<^item> \<open>Allocator\<close>, \<open>Runtime\<close>, \<open>Runtime_Files\<close> (\<^verbatim>\<open>ape/platform.c\<close>): the application heap, the string functions and formatted output,
    the file layer. The heap meets the interface \<open>allocator\<close>; the text a format stands for is \<open>expand\<close>.
  \<^item> \<open>Isolation\<close>, \<open>Page_Tables\<close>, \<open>Syscalls\<close>, \<open>Interrupts\<close>, \<open>Isolation_Test\<close> (\<^verbatim>\<open>isolation.c\<close>, \<^verbatim>\<open>user/abi.h\<close>): page tables and pointer checks, the page walk
    of the processor, every system call, descriptor tables and the interrupt handler, process runs, and the \<^verbatim>\<open>isolation\<close>
    command with its self-test. The services a system call uses are the interface \<open>kernel_services\<close>, provided by \<open>Console\<close>.
  \<^item> \<open>User_Program\<close> (\<^verbatim>\<open>user/main.c\<close>, \<^verbatim>\<open>user/syscalls.c\<close>): the program that runs in ring 3, as a tree of its system calls and memory
    accesses, and the interrupts it raises on the page tables and the interrupt handler of the theories before.
  \<^item> \<open>Packet\<close> (\<^verbatim>\<open>net/packet.c\<close>): byte order, checksum, IPv4 decoding, addresses in text form.
  \<^item> \<open>Bpf_Vm\<close>, \<open>Bpf_Safety\<close>, \<open>Bpf_Validate\<close>, \<open>Bpf_Lpm\<close> (\<^verbatim>\<open>net/bpf_vm.c\<close>): the eBPF validator and interpreter; memory safety of every
    program, progress of validated programs, and the lookup as longest prefix match.
  \<^item> \<open>Firewall\<close> (\<^verbatim>\<open>net/firewall.c\<close>, \<^verbatim>\<open>net/fw_bpf.c\<close>, \<^verbatim>\<open>net/bpf/program.bpf.c\<close>): the rule table, its translation into eBPF maps, both hooks.
  \<^item> \<open>Tcp\<close>, \<open>Tcp_Stream\<close> (\<^verbatim>\<open>net/tcp.c\<close>): the sender and receiver of one stream; what a connection needs of the network is the
    interface \<open>tcp_link\<close>, which \<open>Network\<close> provides.
  \<^item> \<open>Nic\<close>, \<open>Network\<close>, \<open>Driver\<close>, \<open>Tcp_Command\<close> (\<^verbatim>\<open>net/network.c\<close>, \<^verbatim>\<open>net/rtl8139.c\<close>, \<^verbatim>\<open>net/tcp_native.c\<close>): frames, ARP, echo replies, the packet path, the
    polled network card, and TCP over it with the foreground transfer of the \<^verbatim>\<open>tcp\<close> command.
  \<^item> \<open>Command\<close>, \<open>Rule_Text\<close> (\<^verbatim>\<open>net/command.c\<close>): the \<^verbatim>\<open>net\<close>, \<^verbatim>\<open>larp\<close> and \<^verbatim>\<open>ebpfw\<close> commands over the interface \<open>console_writer\<close>, and
    the agreement of the rule listing with the rule parser.
  \<^item> \<open>App_Console\<close>, \<open>Calculator\<close>, \<open>Editor\<close> (\<^verbatim>\<open>app_calc.c\<close>, \<^verbatim>\<open>app_edit.c\<close>): the two native applications, over \<open>logged_writer\<close>, a console
    with a log.
  \<^item> \<open>Shell\<close> (\<^verbatim>\<open>kernel.c\<close>): command dispatch and a round of the shell, which calls the components above.

  \<^bold>\<open>How they interact.\<close> The driver hands a received frame to \<open>net_receive\<close>, which asks the firewall; \<open>fw_accept\<close> prepares the
  maps and runs the policy program in the interpreter. An accepted segment reaches \<open>tcp_input\<close>, whose answers leave
  through \<open>send_to\<close>, the firewall again and \<open>rtl_send\<close>. A process enters the kernel through \<open>isolation_interrupt\<close>, which
  checks its pointers against the page tables built by \<open>prepare\<close> and calls console and file system. A typed line goes
  through \<open>shell_dispatch\<close> to the commands; they print through \<open>puts\<close> and change network, firewall and files.

  \<^bold>\<open>What the lemmas show.\<close> For every component: a well-formedness predicate (\<open>fs_wf\<close>, \<open>heap_wf\<close>, \<open>screen_wf\<close>, \<open>device_wf\<close>, \<open>kstate_wf\<close>,
  \<open>env_wf\<close>, \<open>fw_wf\<close>, \<open>tcp_wf\<close>, \<open>net_wf\<close>, \<open>editor_wf\<close>, \<open>file_ok\<close>) that every operation keeps, definedness of every operation under it, and the
  functional result of the operation on every branch. On top of them stand the properties, the blocks that begin with
  C and a number: isolation of processes (page tables, pointer checks, containment and absence of leaks of system calls,
  a run comes back exactly when the process exits or faults, the shipped program passes the self-test); safety and delivery of TCP under any events; safety of the driver
  loop; nothing gets past the firewall, which fails closed, and its policy program equals the native first-match table;
  safety and progress of eBPF; refinement of the file system, the allocator's contract, the rule table and the editor by
  abstract specifications; fairness of the scheduler; round trips of checksums, frames, files, rules and contexts; the line
  editor, formatted output, the calculator and the shell's dispatch.

  \<^bold>\<open>Interfaces.\<close> Every locale is interpreted on the model: \<open>byte_field\<close> and \<open>mixed_fields\<close> by the 16- and 32-bit accessors of \<open>Packet\<close>;
  \<open>file_store\<close> by the RAM files; \<open>allocator\<close> by the arena; \<open>kernel_services\<close> by the console; \<open>tcp_link\<close> by the native network;
  \<open>console_writer\<close> by the console, by a transcript and, with more state fixed, for the TCP command and the editor; its extension
  \<open>logged_writer\<close> by the serial log and the transcript.

  \<^bold>\<open>Bounds and fuel.\<close> The eBPF interpreter has the fuel of the source, 65536 instructions, and running out of it is its
  error result. Waiting for a key, a line, the timer, Escape in a transfer or in edit mode is a partial function; that
  it returns is proved where the key or tick keeps arriving (\<open>attended\<close>, \<open>cancels\<close>, \<open>escapes\<close>), with the poll of the arrival as the
  measure. The waits for an ARP answer and for the clock calibration depend on the hardware clock alone and are not
  proved to end; the transfer is proved to end with the clock calibrated and the peer's address resolved. The main loops
  of shell, editor and calculator run until the user leaves them: the theorems are about one round. A process is not
  preempted: a run is the list of its interrupts, and one that has no exit call and no fault is a run that does not return.

  \<^bold>\<open>What is a parameter.\<close> The network card and the clock (\<open>en_hw\<close>); the eBPF helper structures and the rule matcher of the vendored
  firewall headers and the XDP program generated from them (\<open>en_abi\<close>, \<open>en_policy\<close>, \<open>en_xdp\<close>); the vendored congestion controller
  (\<open>larp\<close>) and the result of its self-test; the image of the user program and the addresses its linker chose; what a process does in
  user mode, as the sequence of its interrupts (computed in \<open>User_Program\<close> for the program the kernel ships, the Apelang
  application apart); the font; the text of a floating-point number. Hypotheses on them are named predicates with an instance that meets them.

  \<^bold>\<open>Not modelled.\<close> \<^verbatim>\<open>net/larp.c\<close> is a list of assertions about the vendored controller, whose code is not here. \<^verbatim>\<open>arch.c\<close> reads
  control registers and prints a report. \<^verbatim>\<open>ape/app_ape.c\<close> and
  \<^verbatim>\<open>ape/seed.c\<close> drive the Apelang compiler and virtual machine of a submodule. \<^verbatim>\<open>strtod\<close> and the formatting of doubles are
  floating-point arithmetic. The start-up in \<^verbatim>\<open>kmain\<close>, the serial port set-up, the palette of \<^verbatim>\<open>gui_init\<close> and the assembly of
  boot, traps and user start are device programming; the part of the context switch and of the interrupt frame that the C code
  sees is modelled. Host tests, build scripts and the plots of the other labs are no part of the system. In a
  round of the shell, starting the application task and yielding until it exits is one call of the application;
  \<open>Scheduler\<close> shows separately that a ready task runs and resumes.
\<close>

end
